(* ===== verification/Prelude.thy ===== *)
theory Prelude
  imports Main "HOL-Library.Word" "HOL-Library.Multiset"
begin

text \<open>
  Shared vocabulary of the development.

  \<^item> C++ machine integers: \<open>byte\<close>, \<open>u16\<close>, \<open>u32\<close>, \<open>u64\<close> are words of that width;
    \<open>size_t\<close> is a natural number below \<open>2 ^ 64\<close> whose additions and subtractions go through
    \<open>size_add\<close> and \<open>size_sub\<close>, which write the wrap-around of the unsigned type out.
  \<^item> Characters of \<open>std::string_view\<close> are HOL \<open>char\<close>s, read as unsigned bytes by \<open>ord\<close>.
  \<^item> The error vocabulary of \<^verbatim>\<open>core/Error.h\<close> and \<^verbatim>\<open>core/http2/Http2Codec.h\<close>.

  The message texts of the source are Chinese string literals; the model carries an English
  rendering of each in the \<open>message\<close> field, and no theorem depends on the wording.
\<close>

unbundle bit_operations_syntax

named_theorems size_arith \<open>evaluation of the wrap-around size arithmetic inside its range\<close>
named_theorems byte_simps \<open>loads and stores of multi-byte integers\<close>
named_theorems error_simps \<open>the boolean reading of error values\<close>

type_synonym byte = "8 word"
type_synonym u16 = "16 word"
type_synonym u32 = "32 word"
type_synonym u64 = "64 word"
type_synonym size_t = nat

section \<open>Unsigned size arithmetic\<close>

definition size_modulus :: size_t where
  "size_modulus = 2 ^ 64"

definition size_add :: "size_t \<Rightarrow> size_t \<Rightarrow> size_t" where
  "size_add a b = (a + b) mod size_modulus"

definition size_sub :: "size_t \<Rightarrow> size_t \<Rightarrow> size_t" where
  "size_sub a b = (if b \<le> a then a - b else size_modulus + a - b)"

lemma size_add_exact [size_arith]: "a + b < size_modulus \<Longrightarrow> size_add a b = a + b"
  by (simp add: size_add_def)

lemma size_sub_exact [size_arith]: "b \<le> a \<Longrightarrow> size_sub a b = a - b"
  by (simp add: size_sub_def)

section \<open>Multi-byte integers in memory\<close>

text \<open>\<open>memcpy\<close> between four bytes and a \<open>uint32_t\<close>, on a little-endian machine.\<close>

fun load32 :: "byte list \<Rightarrow> u32" where
  "load32 [a, b, c, d] =
     ucast a OR push_bit 8 (ucast b) OR push_bit 16 (ucast c) OR push_bit 24 (ucast d)"
| "load32 _ = 0"

definition store32 :: "u32 \<Rightarrow> byte list" where
  "store32 w = [ucast w, ucast (drop_bit 8 w), ucast (drop_bit 16 w), ucast (drop_bit 24 w)]"

text \<open>\<open>memcpy\<close> of a block into a buffer at an offset.\<close>

definition copy_into :: "'a list \<Rightarrow> nat \<Rightarrow> 'a list \<Rightarrow> 'a list" where
  "copy_into xs i ys = take i xs @ ys @ drop (i + length ys) xs"

lemma length_store32 [simp]: "length (store32 w) = 4"
  by (simp add: store32_def)

lemma length_copy_into [simp]:
  "i + length ys \<le> length xs \<Longrightarrow> length (copy_into xs i ys) = length xs"
  by (simp add: copy_into_def)

lemma nth_copy_into:
  "i + length ys \<le> length xs \<Longrightarrow> j < length xs \<Longrightarrow>
   copy_into xs i ys ! j = (if i \<le> j \<and> j < i + length ys then ys ! (j - i) else xs ! j)"
  by (auto simp: copy_into_def nth_append)

lemma bit_byte_high: "8 \<le> n \<Longrightarrow> \<not> bit (a :: byte) n"
  using bit_imp_le_length [of a n] by auto

lemma mask8: "(255 :: 'a :: len word) = mask 8"
  by (simp add: mask_eq_exp_minus_1)

lemma store_load_xor [byte_simps]:
  "store32 (load32 [a, b, c, d] XOR load32 [k0, k1, k2, k3])
     = [a XOR k0, b XOR k1, c XOR k2, d XOR k3]"
  unfolding store32_def load32.simps list.inject
  by (intro conjI bit_word_eqI) (simp_all add: bit_simps bit_byte_high)

text \<open>Big-endian lengths: shifting the bytes back restores the value.\<close>

lemma be16_roundtrip [byte_simps]:
  "push_bit 8 (ucast (ucast (drop_bit 8 (w :: u16)) :: byte)) OR ucast (ucast (w AND 255) :: byte)
     = (ucast w :: u64)"
  by (rule bit_word_eqI) (auto simp: bit_simps mask8 dest: bit_imp_le_length)

lemma byte_of_u64:
  "push_bit k (ucast (ucast (drop_bit k w AND 255) :: byte)) = (w :: u64) AND push_bit k 255"
  by (rule bit_word_eqI) (auto simp: bit_simps mask8)

lemma top_byte_of_u64:
  "push_bit 56 (ucast (ucast (drop_bit 56 w) :: byte)) = (w :: u64) AND push_bit 56 255"
  by (rule bit_word_eqI) (auto simp: bit_simps mask8)

lemma low_byte_of_u64: "ucast (ucast (w AND 255) :: byte) = (w :: u64) AND 255"
  by (rule bit_word_eqI) (auto simp: bit_simps mask8)

lemma u64_all_ones: "(w :: u64) AND 18446744073709551615 = w"
proof -
  have "(18446744073709551615 :: u64) = - 1" by simp
  then show ?thesis by (simp only: and.right_neutral)
qed

lemma be64_roundtrip [byte_simps]:
  "push_bit 56 (ucast (ucast (drop_bit 56 w) :: byte)) OR
   push_bit 48 (ucast (ucast (drop_bit 48 w AND 255) :: byte)) OR
   push_bit 40 (ucast (ucast (drop_bit 40 w AND 255) :: byte)) OR
   push_bit 32 (ucast (ucast (drop_bit 32 w AND 255) :: byte)) OR
   push_bit 24 (ucast (ucast (drop_bit 24 w AND 255) :: byte)) OR
   push_bit 16 (ucast (ucast (drop_bit 16 w AND 255) :: byte)) OR
   push_bit 8 (ucast (ucast (drop_bit 8 w AND 255) :: byte)) OR
   ucast (ucast (w AND 255) :: byte)
     = (w :: u64)"
  unfolding byte_of_u64 top_byte_of_u64
  unfolding low_byte_of_u64 bit.conj_disj_distrib [symmetric]
  by (simp add: u64_all_ones)

lemma unat_of_nat_u64: "n < size_modulus \<Longrightarrow> unat (word_of_nat n :: u64) = n"
  by (simp add: size_modulus_def unat_of_nat)

section \<open>Characters\<close>

text \<open>The unsigned byte behind a \<open>char\<close> of a string view.\<close>

definition ord :: "char \<Rightarrow> nat" where
  "ord c = of_char c"

lemma ord_less_256: "ord c < 256"
  by (simp add: ord_def)

section \<open>Errors (core/Error.h, core/http2/Http2Codec.h)\<close>

datatype ErrorCode =
    hNoError
  | hEof | hConnectionReset | hConnectionRefused | hTimedOut | hConnectionInProgress
  | hConnectionAborted
  | hAddressInUse | hAddressNotAvailable | hNetworkUnreachable | hHostUnreachable
  | hOperationAborted | hOperationInProgress | hBrokenPipe | hPermissionDenied
  | hTooManyOpenFiles | hWouldBlock
  | hSslHandshakeError | hSslInvalidCertificate | hSslProtocolError
  | hProtocolUnavailable | hProtocolNegotiationFailed | hHttp2ConnectionError
  | hHttp2StreamError | hResourceLimitExceeded | hInvalidConfiguration
  | hUnknown

text \<open>
  \<open>Http2Code\<close> is an enumeration over \<open>uint32_t\<close> into which the code casts arbitrary 32-bit
  values received from the peer, so the model is the word itself with the named values below.
\<close>

type_synonym Http2Code = u32

abbreviation (input) h2NoError :: Http2Code where "h2NoError \<equiv> 0"
abbreviation (input) h2ProtocolError :: Http2Code where "h2ProtocolError \<equiv> 1"
abbreviation (input) h2InternalError :: Http2Code where "h2InternalError \<equiv> 2"
abbreviation (input) h2StreamClosed :: Http2Code where "h2StreamClosed \<equiv> 5"
abbreviation (input) h2RefusedStream :: Http2Code where "h2RefusedStream \<equiv> 7"
abbreviation (input) h2Cancel :: Http2Code where "h2Cancel \<equiv> 8"
abbreviation (input) h2EnhanceYourCalm :: Http2Code where "h2EnhanceYourCalm \<equiv> 11"

record Http2ErrorInfo =
  info_code :: u32
  info_streamId :: int

record NetworkError =
  err_code :: ErrorCode
  err_message :: string
  err_http2 :: "Http2ErrorInfo option"

text \<open>\<open>NetworkError {}\<close>, the value that means success.\<close>

definition ok_error :: NetworkError where
  "ok_error = \<lparr>err_code = hNoError, err_message = [], err_http2 = None\<rparr>"

text \<open>\<open>NetworkError {code, message}\<close> and \<open>NetworkError {code, message, {http2 code, stream}}\<close>.\<close>

definition net_error :: "ErrorCode \<Rightarrow> string \<Rightarrow> NetworkError" where
  "net_error c m = \<lparr>err_code = c, err_message = m, err_http2 = None\<rparr>"

definition h2_error :: "ErrorCode \<Rightarrow> string \<Rightarrow> Http2Code \<Rightarrow> int \<Rightarrow> NetworkError" where
  "h2_error c m k sid =
     \<lparr>err_code = c, err_message = m, err_http2 = Some \<lparr>info_code = k, info_streamId = sid\<rparr>\<rparr>"

text \<open>\<open>NetworkError::operator bool\<close>.\<close>

definition is_error :: "NetworkError \<Rightarrow> bool" where
  "is_error e \<longleftrightarrow> err_code e \<noteq> hNoError"

lemma is_error_ok [simp, error_simps]: "\<not> is_error ok_error"
  by (simp add: is_error_def ok_error_def)

lemma is_error_net [simp, error_simps]: "is_error (net_error c m) \<longleftrightarrow> c \<noteq> hNoError"
  by (simp add: is_error_def net_error_def)

lemma is_error_h2 [simp, error_simps]: "is_error (h2_error c m k s) \<longleftrightarrow> c \<noteq> hNoError"
  by (simp add: is_error_def h2_error_def)

end
