(* ===== verification/Ws_Frame.thy ===== *)
theory Ws_Frame
  imports Prelude
begin

text \<open>
  WebSocket frames: \<^verbatim>\<open>src/src/core/WsFrame.h\<close>. Parsing of frame headers, masking of payloads,
  and the construction of server frames, client frames and close payloads, over lists of bytes.
\<close>

section \<open>Data\<close>

text \<open>
  \<open>WsOpcode\<close> is an enumeration over \<open>uint8_t\<close>; the parser casts every four-bit value into it,
  so the model is the byte with the six named values.
\<close>

type_synonym WsOpcode = byte

abbreviation (input) opContinuation :: WsOpcode where "opContinuation \<equiv> 0"
abbreviation (input) opText :: WsOpcode where "opText \<equiv> 1"
abbreviation (input) opBinary :: WsOpcode where "opBinary \<equiv> 2"
abbreviation (input) opClose :: WsOpcode where "opClose \<equiv> 8"
abbreviation (input) opPing :: WsOpcode where "opPing \<equiv> 9"
abbreviation (input) opPong :: WsOpcode where "opPong \<equiv> 10"

type_synonym WsCloseCode = u16

record WsFrameHeader =
  fin :: bool
  rsv1 :: bool
  rsv2 :: bool
  rsv3 :: bool
  opcode :: WsOpcode
  masked :: bool
  payloadLength :: u64
  maskKey :: "byte list"
  headerSize :: size_t

section \<open>Operations\<close>

text \<open>The big-endian reads of the extended length.\<close>

definition be16_at :: "byte list \<Rightarrow> nat \<Rightarrow> u64" where
  "be16_at data i = push_bit 8 (ucast (data ! i)) OR ucast (data ! (i + 1))"

definition be64_at :: "byte list \<Rightarrow> nat \<Rightarrow> u64" where
  "be64_at data i =
     push_bit 56 (ucast (data ! i)) OR push_bit 48 (ucast (data ! (i + 1))) OR
     push_bit 40 (ucast (data ! (i + 2))) OR push_bit 32 (ucast (data ! (i + 3))) OR
     push_bit 24 (ucast (data ! (i + 4))) OR push_bit 16 (ucast (data ! (i + 5))) OR
     push_bit 8 (ucast (data ! (i + 6))) OR ucast (data ! (i + 7))"

definition extLenBytes :: "byte \<Rightarrow> nat" where
  "extLenBytes rawLen = (if rawLen = 126 then 2 else if rawLen = 127 then 8 else 0)"

definition parseWsFrameHeader :: "byte list \<Rightarrow> WsFrameHeader option" where
  "parseWsFrameHeader data =
     (if length data < 2 then None
      else
        let byte0 = data ! 0; byte1 = data ! 1;
            msk = byte1 AND 0x80 \<noteq> 0;
            rawLen = byte1 AND 0x7F;
            ext = extLenBytes rawLen;
            maskBytes = (if msk then 4 else 0);
            hsize = 2 + ext + maskBytes
        in if length data < hsize then None
           else
             Some \<lparr>fin = byte0 AND 0x80 \<noteq> 0,
                   rsv1 = byte0 AND 0x40 \<noteq> 0,
                   rsv2 = byte0 AND 0x20 \<noteq> 0,
                   rsv3 = byte0 AND 0x10 \<noteq> 0,
                   opcode = byte0 AND 0x0F,
                   masked = msk,
                   payloadLength =
                     (if ext = 0 then ucast rawLen
                      else if ext = 2 then be16_at data 2
                      else be64_at data 2),
                   maskKey = (if msk then take 4 (drop (2 + ext) data) else [0, 0, 0, 0]),
                   headerSize = hsize\<rparr>)"

text \<open>
  \<open>unmaskPayload\<close>: the two loops of the source, over the buffer and the index. The first handles
  four bytes at a time through a \<open>uint32_t\<close>, the second the remaining bytes one by one.
\<close>

function unmask_words :: "byte list \<Rightarrow> u32 \<Rightarrow> nat \<Rightarrow> byte list \<times> nat" where
  "unmask_words data mask32 i =
     (if i + 4 \<le> length data
      then unmask_words (copy_into data i (store32 (load32 (take 4 (drop i data)) XOR mask32)))
             mask32 (i + 4)
      else (data, i))"
  by pat_completeness auto
termination
  by (relation "measure (\<lambda>(data, mask32, i). length data - i)") auto

function unmask_bytes :: "byte list \<Rightarrow> byte list \<Rightarrow> nat \<Rightarrow> byte list" where
  "unmask_bytes data key i =
     (if i < length data
      then unmask_bytes (data[i := data ! i XOR key ! (i mod 4)]) key (Suc i)
      else data)"
  by pat_completeness auto
termination
  by (relation "measure (\<lambda>(data, key, i). length data - i)") auto

definition unmaskPayload :: "byte list \<Rightarrow> byte list \<Rightarrow> byte list" where
  "unmaskPayload data key = (case unmask_words data (load32 key) 0 of (d, i) \<Rightarrow> unmask_bytes d key i)"

declare unmask_words.simps [simp del] unmask_bytes.simps [simp del]

definition frame_byte0 :: "WsOpcode \<Rightarrow> bool \<Rightarrow> bool \<Rightarrow> byte" where
  "frame_byte0 opc fn r1 =
     (if fn then 0x80 else 0) OR (if r1 then 0x40 else 0) OR (opc AND 0x0F)"

text \<open>The second byte and the extended length; \<open>mbit\<close> is the MASK bit (0 or 0x80).\<close>

definition frame_length_bytes :: "byte \<Rightarrow> size_t \<Rightarrow> byte list" where
  "frame_length_bytes mbit n =
     (if n \<le> 125 then [mbit OR word_of_nat n]
      else if n \<le> 65535
      then (let len16 = (word_of_nat n :: u16)
            in [mbit OR 126, ucast (drop_bit 8 len16), ucast (len16 AND 0xFF)])
      else (let len = (word_of_nat n :: u64)
            in [mbit OR 127,
                ucast (drop_bit 56 len), ucast (drop_bit 48 len AND 0xFF),
                ucast (drop_bit 40 len AND 0xFF), ucast (drop_bit 32 len AND 0xFF),
                ucast (drop_bit 24 len AND 0xFF), ucast (drop_bit 16 len AND 0xFF),
                ucast (drop_bit 8 len AND 0xFF), ucast (len AND 0xFF)]))"

definition buildWsFrame :: "WsOpcode \<Rightarrow> byte list \<Rightarrow> bool \<Rightarrow> bool \<Rightarrow> byte list" where
  "buildWsFrame opc payload fn r1 =
     frame_byte0 opc fn r1 # frame_length_bytes 0 (length payload) @ payload"

definition buildMaskedWsFrame ::
  "WsOpcode \<Rightarrow> byte list \<Rightarrow> byte list \<Rightarrow> bool \<Rightarrow> bool \<Rightarrow> byte list" where
  "buildMaskedWsFrame opc payload key fn r1 =
     frame_byte0 opc fn r1 # frame_length_bytes 0x80 (length payload) @ key
       @ (if length payload > 0 then unmaskPayload payload key else [])"

definition buildClosePayload :: "WsCloseCode \<Rightarrow> byte list \<Rightarrow> byte list" where
  "buildClosePayload cd reason =
     (let r = (if length reason > 123 then take 123 reason else reason)
      in [ucast (drop_bit 8 cd), ucast (cd AND 0xFF)] @ r)"

section \<open>Masking\<close>

text \<open>Reference: byte \<open>i\<close> is combined with key byte \<open>i mod 4\<close>.\<close>

definition xor_mask :: "byte list \<Rightarrow> byte list \<Rightarrow> byte list" where
  "xor_mask data key = map (\<lambda>i. data ! i XOR key ! (i mod 4)) [0..<length data]"

text \<open>The buffer between the loops: the first \<open>i\<close> bytes are masked, the others untouched.\<close>

definition masked_upto :: "byte list \<Rightarrow> byte list \<Rightarrow> nat \<Rightarrow> byte list" where
  "masked_upto data key i = take i (xor_mask data key) @ drop i data"

lemma length_xor_mask [simp]: "length (xor_mask data key) = length data"
  by (simp add: xor_mask_def)

lemma xor_mask_Nil [simp]: "xor_mask [] key = []"
  by (simp add: xor_mask_def)

lemma nth_xor_mask [simp]: "i < length data \<Longrightarrow> xor_mask data key ! i = data ! i XOR key ! (i mod 4)"
  by (simp add: xor_mask_def)

lemma length_masked_upto [simp]: "length (masked_upto data key i) = length data"
  by (auto simp: masked_upto_def min_def)

lemma nth_masked_upto:
  "j < length data \<Longrightarrow>
   masked_upto data key i ! j = (if j < i then data ! j XOR key ! (j mod 4) else data ! j)"
  by (auto simp: masked_upto_def nth_append min_def)

lemma masked_upto_0 [simp]: "masked_upto data key 0 = data"
  by (simp add: masked_upto_def)

lemma masked_upto_all [simp]: "length data \<le> i \<Longrightarrow> masked_upto data key i = xor_mask data key"
  by (simp add: masked_upto_def)

lemma take4_drop:
  "i + 4 \<le> length xs \<Longrightarrow> take 4 (drop i xs) = [xs ! i, xs ! (i + 1), xs ! (i + 2), xs ! (i + 3)]"
  by (rule nth_equalityI) (auto simp: less_Suc_eq numeral_eq_Suc)

lemma masked_upto_step4:
  assumes "i + 4 \<le> length data" "length key = 4" "i mod 4 = 0"
  shows "copy_into (masked_upto data key i) i
           (store32 (load32 (take 4 (drop i (masked_upto data key i))) XOR load32 key))
         = masked_upto data key (i + 4)"
proof -
  let ?m = "masked_upto data key i"
  from \<open>length key = 4\<close> obtain k0 k1 k2 k3 where key: "key = [k0, k1, k2, k3]"
    by (auto simp: numeral_eq_Suc length_Suc_conv)
  have blk: "take 4 (drop i ?m) = [data ! i, data ! (i + 1), data ! (i + 2), data ! (i + 3)]"
    using assms by (simp add: take4_drop nth_masked_upto)
  have md: "i mod 4 = 0" "Suc i mod 4 = 1" "Suc (Suc i) mod 4 = 2" "(i + 3) mod 4 = 3"
    using assms(3) by presburger+
  have st: "store32 (load32 (take 4 (drop i ?m)) XOR load32 key)
       = [data ! i XOR k0, data ! (i + 1) XOR k1, data ! (i + 2) XOR k2, data ! (i + 3) XOR k3]"
    using blk unfolding key by (simp only: store_load_xor)
  show ?thesis
    unfolding st
  proof (rule nth_equalityI)
    let ?bs = "[data ! i XOR k0, data ! (i + 1) XOR k1, data ! (i + 2) XOR k2, data ! (i + 3) XOR k3]"
    have len: "i + length ?bs \<le> length ?m" using assms(1) by simp
    then show "length (copy_into ?m i ?bs) = length (masked_upto data key (i + 4))"
      by simp
    fix j assume "j < length (copy_into ?m i ?bs)"
    with len have j: "j < length data" by simp
    have nth: "copy_into ?m i ?bs ! j = (if i \<le> j \<and> j < i + 4 then ?bs ! (j - i) else ?m ! j)"
      using nth_copy_into [OF len, of j] j by simp
    consider "j < i" | "j = i" | "j = i + 1" | "j = i + 2" | "j = i + 3" | "i + 4 \<le> j" by linarith
    then show "copy_into ?m i ?bs ! j = masked_upto data key (i + 4) ! j"
      unfolding nth nth_masked_upto [OF j]
      by cases (simp_all add: key md)
  qed
qed

lemma unmask_words_correct:
  assumes "length key = 4" "i mod 4 = 0" "i \<le> length data"
  shows "\<exists>j \<le> length data. unmask_words (masked_upto data key i) (load32 key) i = (masked_upto data key j, j)"
  using assms
proof (induction "length data - i" arbitrary: i rule: less_induct)
  case less
  show ?case
  proof (cases "i + 4 \<le> length data")
    case True
    have "(i + 4) mod 4 = 0" using less.prems by presburger
    with less True obtain j where "j \<le> length data"
      "unmask_words (masked_upto data key (i + 4)) (load32 key) (i + 4) = (masked_upto data key j, j)"
      by force
    with True less.prems show ?thesis
      by (subst unmask_words.simps) (auto simp: masked_upto_step4)
  next
    case False
    with less.prems show ?thesis by (subst unmask_words.simps) auto
  qed
qed

lemma masked_upto_step1:
  "i < length data \<Longrightarrow>
   (masked_upto data key i)[i := masked_upto data key i ! i XOR key ! (i mod 4)]
     = masked_upto data key (Suc i)"
  by (rule nth_equalityI) (auto simp: nth_list_update nth_masked_upto less_Suc_eq)

lemma unmask_bytes_correct:
  "i \<le> length data \<Longrightarrow> unmask_bytes (masked_upto data key i) key i = xor_mask data key"
proof (induction "length data - i" arbitrary: i rule: less_induct)
  case less
  then show ?case
    by (subst unmask_bytes.simps) (auto simp: masked_upto_step1)
qed

lemma unmaskPayload_xor: "length key = 4 \<Longrightarrow> unmaskPayload data key = xor_mask data key"
  using unmask_words_correct [of key 0 data]
  by (auto simp: unmaskPayload_def unmask_bytes_correct)

lemma xor_mask_involutive: "xor_mask (xor_mask data key) key = data"
  by (rule nth_equalityI) (simp_all add: xor.assoc)

section \<open>Parsing what was built\<close>

text \<open>How many bytes of extended length a payload of \<open>n\<close> bytes needs.\<close>

definition ext_length_bytes :: "size_t \<Rightarrow> nat" where
  "ext_length_bytes n = (if n \<le> 125 then 0 else if n \<le> 65535 then 2 else 8)"

lemma short_length_byte:
  assumes "n \<le> 125"
  shows "(0 OR word_of_nat n :: byte) AND 0x7F = word_of_nat n"
    and "(0 OR word_of_nat n :: byte) AND 0x80 = 0"
    and "(0x80 OR word_of_nat n :: byte) AND 0x7F = word_of_nat n"
    and "(0x80 OR word_of_nat n :: byte) AND 0x80 \<noteq> 0"
    and "(word_of_nat n :: byte) \<noteq> 126" "(word_of_nat n :: byte) \<noteq> 127"
    and "(ucast (word_of_nat n :: byte) :: u64) = word_of_nat n"
proof -
  have "\<forall>n \<in> set [0..<126].
      (0 OR word_of_nat n :: byte) AND 0x7F = word_of_nat n \<and>
      (0 OR word_of_nat n :: byte) AND 0x80 = 0 \<and>
      (0x80 OR word_of_nat n :: byte) AND 0x7F = word_of_nat n \<and>
      (0x80 OR word_of_nat n :: byte) AND 0x80 \<noteq> 0 \<and>
      (word_of_nat n :: byte) \<noteq> 126 \<and> (word_of_nat n :: byte) \<noteq> 127 \<and>
      (ucast (word_of_nat n :: byte) :: u64) = word_of_nat n"
    by code_simp
  moreover have "n \<in> set [0..<126]" using assms by simp
  ultimately show "(0 OR word_of_nat n :: byte) AND 0x7F = word_of_nat n"
    and "(0 OR word_of_nat n :: byte) AND 0x80 = 0"
    and "(0x80 OR word_of_nat n :: byte) AND 0x7F = word_of_nat n"
    and "(0x80 OR word_of_nat n :: byte) AND 0x80 \<noteq> 0"
    and "(word_of_nat n :: byte) \<noteq> 126" "(word_of_nat n :: byte) \<noteq> 127"
    and "(ucast (word_of_nat n :: byte) :: u64) = word_of_nat n"
    by blast+
qed

lemma ucast_len16:
  "n \<le> 65535 \<Longrightarrow> (ucast (word_of_nat n :: u16) :: u64) = word_of_nat n"
  by (simp add: word_unat_eq_iff unsigned_ucast_eq unat_of_nat take_bit_eq_mod)

lemma length_frame_length_bytes:
  "length (frame_length_bytes mbit n) = 1 + ext_length_bytes n"
  by (simp add: frame_length_bytes_def ext_length_bytes_def Let_def)

lemma frame_byte0_fields:
  "(frame_byte0 opc fn r1 AND 0x80 \<noteq> 0) = fn"
  "(frame_byte0 opc fn r1 AND 0x40 \<noteq> 0) = r1"
  "frame_byte0 opc fn r1 AND 0x20 = 0"
  "frame_byte0 opc fn r1 AND 0x10 = 0"
  "frame_byte0 opc fn r1 AND 0x0F = opc AND 0x0F"
  by (cases fn; cases r1; simp add: frame_byte0_def bit.conj_disj_distrib bit.conj_disj_distrib2 and.assoc)+

text \<open>The header a built frame carries, as the parser must report it.\<close>

definition expected_header ::
  "WsOpcode \<Rightarrow> bool \<Rightarrow> bool \<Rightarrow> byte list option \<Rightarrow> size_t \<Rightarrow> WsFrameHeader" where
  "expected_header opc fn r1 key n =
     \<lparr>fin = fn, rsv1 = r1, rsv2 = False, rsv3 = False, opcode = opc AND 0x0F,
      masked = (key \<noteq> None), payloadLength = word_of_nat n,
      maskKey = (case key of None \<Rightarrow> [0, 0, 0, 0] | Some k \<Rightarrow> k),
      headerSize = 2 + ext_length_bytes n + (case key of None \<Rightarrow> 0 | Some _ \<Rightarrow> 4)\<rparr>"

lemma parse_unmasked_header:
  "parseWsFrameHeader (frame_byte0 opc fn r1 # frame_length_bytes 0 n @ rest)
     = Some (expected_header opc fn r1 None n)"
proof -
  consider "n \<le> 125" | "125 < n" "n \<le> 65535" | "65535 < n" by linarith
  then show ?thesis
    by cases
      (simp_all add: parseWsFrameHeader_def frame_length_bytes_def expected_header_def
        ext_length_bytes_def extLenBytes_def Let_def frame_byte0_fields short_length_byte [simplified]
        be16_at_def be64_at_def byte_simps ucast_len16)
qed

lemma parse_masked_header:
  assumes "length key = 4"
  shows "parseWsFrameHeader (frame_byte0 opc fn r1 # frame_length_bytes 0x80 n @ key @ rest)
     = Some (expected_header opc fn r1 (Some key) n)"
proof -
  consider "n \<le> 125" | "125 < n" "n \<le> 65535" | "65535 < n" by linarith
  then show ?thesis
    using assms
    by cases
      (simp_all add: parseWsFrameHeader_def frame_length_bytes_def expected_header_def
        ext_length_bytes_def extLenBytes_def Let_def frame_byte0_fields short_length_byte [simplified]
        be16_at_def be64_at_def byte_simps ucast_len16)
qed

lemma headerSize_bounds:
  assumes "parseWsFrameHeader data = Some h"
  shows "2 \<le> headerSize h" and "headerSize h \<le> 14" and "headerSize h \<le> length data"
  using assms by (auto simp: parseWsFrameHeader_def extLenBytes_def Let_def split: if_splits)

text \<open>The size of the header the first two bytes announce.\<close>

definition header_need :: "byte \<Rightarrow> nat" where
  "header_need byte1 =
     2 + extLenBytes (byte1 AND 0x7F) + (if byte1 AND 0x80 \<noteq> 0 then 4 else 0)"

lemma parse_Some_iff:
  "(\<exists>h. parseWsFrameHeader data = Some h)
     \<longleftrightarrow> 2 \<le> length data \<and> header_need (data ! 1) \<le> length data"
  by (simp add: parseWsFrameHeader_def header_need_def Let_def not_less)

lemma headerSize_need: "parseWsFrameHeader data = Some h \<Longrightarrow> headerSize h = header_need (data ! 1)"
  by (auto simp: parseWsFrameHeader_def header_need_def Let_def split: if_split_asm)

lemma be_at_append:
  "i + 1 < length data \<Longrightarrow> be16_at (data @ tail) i = be16_at data i"
  "i + 7 < length data \<Longrightarrow> be64_at (data @ tail) i = be64_at data i"
  by (simp_all add: be16_at_def be64_at_def nth_append)

lemma parse_prefix_cong:
  assumes "2 \<le> length data" "header_need (data ! 1) \<le> length data"
  shows "parseWsFrameHeader (data @ tail) = parseWsFrameHeader data"
proof -
  define ext where "ext = extLenBytes (data ! 1 AND 0x7F)"
  define msk where "msk \<longleftrightarrow> data ! 1 AND 0x80 \<noteq> 0"
  have "ext = 0 \<or> ext = 2 \<or> ext = 8" by (simp add: ext_def extLenBytes_def)
  moreover have "(data @ tail) ! 0 = data ! 0" "(data @ tail) ! 1 = data ! 1"
    using assms(1) by (auto simp: nth_append)
  moreover have "2 + ext + (if msk then 4 else 0) \<le> length data"
    using assms(2) by (simp only: header_need_def ext_def msk_def)
  ultimately show ?thesis
    using assms(1)
    unfolding parseWsFrameHeader_def Let_def ext_def [symmetric] msk_def [symmetric]
    by (auto simp: be_at_append ext_def [symmetric] msk_def [symmetric] simp del: One_nat_def)
qed

lemma parse_extend:
  assumes "parseWsFrameHeader data = Some h"
  shows "parseWsFrameHeader (data @ tail) = Some h"
  using assms parse_Some_iff [of data] parse_prefix_cong by metis

lemma parse_short_prefix:
  assumes "parseWsFrameHeader data = Some h" and "n < headerSize h"
  shows "parseWsFrameHeader (take n data) = None"
proof (rule ccontr)
  assume "parseWsFrameHeader (take n data) \<noteq> None"
  then have "2 \<le> length (take n data)" and "header_need (take n data ! 1) \<le> length (take n data)"
    using parse_Some_iff [of "take n data"] by auto
  then have "header_need (data ! 1) \<le> n" by simp
  with assms headerSize_need show False by auto
qed

lemma length_buildClosePayload: "length (buildClosePayload cd reason) \<le> 125"
  by (simp add: buildClosePayload_def Let_def)

section \<open>Properties\<close>

text \<open>
  A frame built by the server is parsed back: whatever bytes follow it on the wire, the parser
  returns the header that was built (final flag, compression flag, low four bits of the opcode, no
  mask, the length of the payload), and the payload is exactly the block of that length behind
  the header. The hypothesis is the range of \<open>std::string_view::size()\<close>.
\<close>

theorem ws_server_frame_roundtrip:
  assumes "length payload < 2 ^ 64"
  shows "\<exists>h. parseWsFrameHeader (buildWsFrame opc payload fn r1 @ rest) = Some h
    \<and> fin h = fn \<and> rsv1 h = r1 \<and> \<not> rsv2 h \<and> \<not> rsv3 h \<and> opcode h = opc AND 0x0F
    \<and> \<not> masked h \<and> unat (payloadLength h) = length payload
    \<and> take (unat (payloadLength h)) (drop (headerSize h) (buildWsFrame opc payload fn r1 @ rest))
        = payload"
proof -
  have p: "parseWsFrameHeader (buildWsFrame opc payload fn r1 @ rest)
      = Some (expected_header opc fn r1 None (length payload))"
    using parse_unmasked_header [of opc fn r1 "length payload" "payload @ rest"]
    by (simp add: buildWsFrame_def)
  show ?thesis
    unfolding p
    using assms
    by (auto simp: expected_header_def buildWsFrame_def length_frame_length_bytes unat_of_nat)
qed

theorem ws_server_frame_roundtrip_witness:
  "length [0x68, 0x69 :: byte] < 2 ^ 64
   \<and> (\<exists>h. parseWsFrameHeader (buildWsFrame opText [0x68, 0x69] True False @ [0xFF]) = Some h
    \<and> fin h = True \<and> rsv1 h = False \<and> \<not> rsv2 h \<and> \<not> rsv3 h \<and> opcode h = opText AND 0x0F
    \<and> \<not> masked h \<and> unat (payloadLength h) = length [0x68, 0x69 :: byte]
    \<and> take (unat (payloadLength h))
        (drop (headerSize h) (buildWsFrame opText [0x68, 0x69] True False @ [0xFF]))
        = [0x68, 0x69])"
proof -
  have len: "length [0x68, 0x69 :: byte] < 2 ^ 64" by simp
  from ws_server_frame_roundtrip [OF len, of opText True False "[0xFF]"] len show ?thesis by blast
qed

text \<open>
  A masked client frame reaches the application unchanged: the parser reports the client's
  key, and removing the mask from the payload block with that key yields the original payload.
\<close>

theorem ws_client_frame_roundtrip:
  assumes "length key = 4" and "length payload < 2 ^ 64"
  shows "\<exists>h. parseWsFrameHeader (buildMaskedWsFrame opc payload key fn r1 @ rest) = Some h
    \<and> fin h = fn \<and> rsv1 h = r1 \<and> opcode h = opc AND 0x0F \<and> masked h \<and> maskKey h = key
    \<and> unmaskPayload
        (take (unat (payloadLength h))
          (drop (headerSize h) (buildMaskedWsFrame opc payload key fn r1 @ rest)))
        (maskKey h) = payload"
proof -
  let ?body = "if length payload > 0 then unmaskPayload payload key else []"
  have body: "?body = xor_mask payload key"
    using unmaskPayload_xor [OF assms(1), of payload] by auto
  have frame: "buildMaskedWsFrame opc payload key fn r1
      = (frame_byte0 opc fn r1 # frame_length_bytes 0x80 (length payload) @ key) @ xor_mask payload key"
    unfolding buildMaskedWsFrame_def body by simp
  have p: "parseWsFrameHeader (buildMaskedWsFrame opc payload key fn r1 @ rest)
      = Some (expected_header opc fn r1 (Some key) (length payload))"
    using parse_masked_header [OF assms(1), of opc fn r1 "length payload" "?body @ rest"]
    by (simp add: buildMaskedWsFrame_def)
  show ?thesis
    unfolding p
    using assms
    by (auto simp: expected_header_def frame length_frame_length_bytes unat_of_nat unmaskPayload_xor xor_mask_involutive
        simp del: append_Cons)
qed

theorem ws_client_frame_roundtrip_witness:
  "\<exists>h. parseWsFrameHeader (buildMaskedWsFrame opBinary [1, 2, 3, 4, 5] [7, 8, 9, 10] True False @ [])
        = Some h
    \<and> fin h = True \<and> rsv1 h = False \<and> opcode h = opBinary AND 0x0F \<and> masked h \<and> maskKey h = [7, 8, 9, 10]
    \<and> unmaskPayload
        (take (unat (payloadLength h))
          (drop (headerSize h) (buildMaskedWsFrame opBinary [1, 2, 3, 4, 5] [7, 8, 9, 10] True False @ [])))
        (maskKey h) = [1, 2, 3, 4, 5]"
  by (rule ws_client_frame_roundtrip) simp_all

text \<open>
  The word-at-a-time masking loop computes the byte-wise definition of the protocol: byte
  \<open>i\<close> of the result is byte \<open>i\<close> of the payload combined with key byte \<open>i mod 4\<close>.
\<close>

theorem unmaskPayload_reference:
  assumes "length key = 4"
  shows "unmaskPayload data key = map (\<lambda>i. data ! i XOR key ! (i mod 4)) [0..<length data]"
  using unmaskPayload_xor [OF assms] by (simp add: xor_mask_def)

theorem unmaskPayload_reference_witness:
  "unmaskPayload [1, 2, 3, 4, 5, 6] [1, 1, 2, 2]
     = map (\<lambda>i. [1, 2, 3, 4, 5, 6 :: byte] ! i XOR [1, 1, 2, 2] ! (i mod 4)) [0..<6]"
proof -
  have len: "length [1, 2, 3, 4, 5, 6 :: byte] = 6" by simp
  have key: "length [1, 1, 2, 2 :: byte] = 4" by simp
  show ?thesis by (rule unmaskPayload_reference [OF key, of "[1, 2, 3, 4, 5, 6]", unfolded len])
qed

text \<open>
  Incremental parsing: once a header is recognised, more input does not change it; the header
  lies inside the input and has between 2 and 14 bytes; and no shorter prefix is accepted, so the
  caller that retries with more data never acts on an incomplete header.
\<close>

theorem ws_header_incremental:
  assumes "parseWsFrameHeader data = Some h"
  shows "parseWsFrameHeader (data @ tail) = Some h
    \<and> 2 \<le> headerSize h \<and> headerSize h \<le> 14 \<and> headerSize h \<le> length data
    \<and> (n < headerSize h \<longrightarrow> parseWsFrameHeader (take n data) = None)"
  using assms parse_extend headerSize_bounds parse_short_prefix by blast

theorem ws_header_incremental_witness:
  "\<exists>h. parseWsFrameHeader ([0x82, 0x7E, 1, 0] @ [9]) = Some h \<and> 2 \<le> headerSize h
    \<and> headerSize h \<le> 14 \<and> headerSize h \<le> length [0x82, 0x7E, 1, 0 :: byte]
    \<and> (3 < headerSize h \<longrightarrow> parseWsFrameHeader (take 3 [0x82, 0x7E, 1, 0]) = None)"
proof -
  obtain h where "parseWsFrameHeader [0x82, 0x7E, 1, 0] = Some h"
    by (simp add: parseWsFrameHeader_def extLenBytes_def)
  from ws_header_incremental [OF this, of "[9]" 3] show ?thesis by blast
qed

end
