(* ===== verification/Ws_Deflate.thy ===== *)
theory Ws_Deflate
  imports Ws_Frame
begin

text \<open>
  The permessage-deflate context of \<^verbatim>\<open>src/src/core/WsDeflate.cpp\<close>. The zlib calls are fields of a
  record: a call takes the stream state, the input and the space for output, and returns the code,
  the input left over, the bytes produced and the new state. Buffer lengths handed to zlib go
  through the 32-bit \<open>uInt\<close> as in the source.
\<close>

section \<open>zlib and the configuration\<close>

datatype ZRet = Z_OK | Z_STREAM_END | Z_BUF_ERROR | Z_FAIL int

record 'z Zlib =
  z_deflateInit :: "int \<Rightarrow> int \<Rightarrow> int \<Rightarrow> 'z option"
  z_inflateInit :: "int \<Rightarrow> 'z option"
  z_deflateReset :: "'z \<Rightarrow> 'z"
  z_inflateReset :: "'z \<Rightarrow> 'z"
  z_deflateBound :: "'z \<Rightarrow> nat \<Rightarrow> nat"
  z_deflate :: "'z \<Rightarrow> byte list \<Rightarrow> nat \<Rightarrow> ZRet \<times> byte list \<times> 'z"
  z_inflate :: "'z \<Rightarrow> byte list \<Rightarrow> nat \<Rightarrow> ZRet \<times> byte list \<times> byte list \<times> 'z"

record DeflateConfig =
  serverMaxWindowBits :: int
  clientMaxWindowBits :: int
  serverNoContextTakeover :: bool
  clientNoContextTakeover :: bool
  compLevel :: int
  memLevel :: int

record 'z WsDeflateContext =
  deflateStream :: 'z
  inflateStream :: 'z
  dc_config :: DeflateConfig

definition uInt :: "nat \<Rightarrow> nat" where
  "uInt n = n mod 2 ^ 32"

definition kSyncMarker :: "byte list" where
  "kSyncMarker = [0, 0, 0xFF, 0xFF]"

section \<open>Operations\<close>

definition new_deflate_context :: "'z Zlib \<Rightarrow> DeflateConfig \<Rightarrow> string + 'z WsDeflateContext" where
  "new_deflate_context zl cfg =
     (case z_deflateInit zl (compLevel cfg) (- serverMaxWindowBits cfg) (memLevel cfg) of
        None \<Rightarrow> Inl ''deflateInit2 failed''
      | Some d \<Rightarrow>
          (case z_inflateInit zl (- clientMaxWindowBits cfg) of
             None \<Rightarrow> Inl ''inflateInit2 failed''
           | Some i \<Rightarrow> Inr \<lparr>deflateStream = d, inflateStream = i, dc_config = cfg\<rparr>))"

definition strip_marker :: "byte list \<Rightarrow> byte list" where
  "strip_marker out =
     (if length out \<ge> 4 \<and> drop (length out - 4) out = kSyncMarker
      then take (length out - 4) out else out)"

definition compress ::
  "'z Zlib \<Rightarrow> 'z WsDeflateContext \<Rightarrow> byte list \<Rightarrow> (string + byte list) \<times> 'z WsDeflateContext" where
  "compress zl ctx input =
     (let s = (if serverNoContextTakeover (dc_config ctx) then z_deflateReset zl (deflateStream ctx)
               else deflateStream ctx);
          size = z_deflateBound zl s (length input)
      in case z_deflate zl s (take (uInt (length input)) input) (uInt size) of
           (ret, p, s') \<Rightarrow>
             let ctx' = ctx\<lparr>deflateStream := s'\<rparr>;
                 produced = size - (uInt size - length p);
                 out = take produced (copy_into (replicate size 0) 0 p)
             in if ret \<noteq> Z_OK then (Inl ''deflate failed'', ctx') else (Inr (strip_marker out), ctx'))"

text \<open>
  The loop of \<open>decompress\<close>: \<open>out\<close> is the output string with its current size, \<open>got\<close> the value of
  \<open>totalProduced\<close>. The loop may run for ever when no limit is given, so not returning is \<open>None\<close>.
\<close>

partial_function (option) inflate_loop ::
  "'z Zlib \<Rightarrow> nat \<Rightarrow> 'z \<Rightarrow> byte list \<Rightarrow> byte list \<Rightarrow> nat \<Rightarrow> ((string + byte list) \<times> 'z) option" where
  "inflate_loop zl maxOutputSize s input out got =
     (let out1 = (if got \<ge> length out then out @ replicate (length out) 0 else out)
      in if maxOutputSize > 0 \<and> got > maxOutputSize
         then Some (Inl ''output exceeds maxOutputSize'', s)
         else
           (case z_inflate zl s input (uInt (length out1 - got)) of
              (ret, input', p, s') \<Rightarrow>
                let availOut = uInt (length out1 - got) - length p;
                    out2 = copy_into out1 got p;
                    got' = length out1 - availOut
                in if ret = Z_STREAM_END \<or> ret = Z_OK \<and> input' = [] \<and> availOut > 0
                   then Some (Inr (take got' out2), s')
                   else if (ret = Z_OK \<or> ret = Z_BUF_ERROR) \<and> availOut = 0
                   then inflate_loop zl maxOutputSize s' input' out2 got'
                   else Some (Inl ''inflate failed'', s')))"

definition decompress ::
  "'z Zlib \<Rightarrow> 'z WsDeflateContext \<Rightarrow> byte list \<Rightarrow> nat
   \<Rightarrow> ((string + byte list) \<times> 'z WsDeflateContext) option" where
  "decompress zl ctx input maxOutputSize =
     (let s = (if clientNoContextTakeover (dc_config ctx) then z_inflateReset zl (inflateStream ctx)
               else inflateStream ctx);
          inputWithSync = input @ kSyncMarker
      in case inflate_loop zl maxOutputSize s (take (uInt (length inputWithSync)) inputWithSync)
                (replicate 4096 0) 0 of
           None \<Rightarrow> None
         | Some (r, s') \<Rightarrow> Some (r, ctx\<lparr>inflateStream := s'\<rparr>))"

section \<open>The loop ends and its output is bounded\<close>

text \<open>What zlib documents: a call writes no more than the space it was given.\<close>

definition zlib_ok :: "'z Zlib \<Rightarrow> bool" where
  "zlib_ok zl \<longleftrightarrow>
     (\<forall>s i n. case z_inflate zl s i n of (ret, i', p, s') \<Rightarrow> length p \<le> n)
   \<and> (\<forall>s i n. case z_deflate zl s i n of (ret, p, s') \<Rightarrow> length p \<le> n)"

lemma zlib_inflate_space:
  "zlib_ok zl \<Longrightarrow> z_inflate zl s i n = (ret, i', p, s') \<Longrightarrow> length p \<le> n"
  by (simp add: zlib_ok_def split_beta) (metis fst_conv snd_conv)

lemma inflate_loop_returns:
  assumes "zlib_ok zl" and "0 < m" and "length out = got" and "0 < got"
  shows "\<exists>r s'. inflate_loop zl m s input out got = Some (r, s')
    \<and> (case r of Inl _ \<Rightarrow> True | Inr y \<Rightarrow> length y \<le> 2 * m)"
  using assms(3,4)
proof (induction "Suc m - got" arbitrary: s input out got rule: less_induct)
  case less
  show ?case
  proof (cases "got > m")
    case True
    then show ?thesis using less.prems assms(2) by (subst inflate_loop.simps) simp
  next
    case False
    obtain ret i' p s' where z: "z_inflate zl s input (uInt got) = (ret, i', p, s')"
      by (metis prod_cases4)
    have p: "length p \<le> uInt got" using zlib_inflate_space [OF assms(1) z] .
    have u: "uInt got \<le> got" by (simp add: uInt_def)
    let ?out1 = "out @ replicate got 0"
    let ?ao = "uInt got - length p"
    let ?out2 = "copy_into ?out1 got p"
    have len: "length ?out2 = 2 * got" using less.prems p u by simp
    have step: "inflate_loop zl m s input out got =
       (if ret = Z_STREAM_END \<or> ret = Z_OK \<and> i' = [] \<and> ?ao > 0
        then Some (Inr (take (2 * got - ?ao) ?out2), s')
        else if (ret = Z_OK \<or> ret = Z_BUF_ERROR) \<and> ?ao = 0
        then inflate_loop zl m s' i' ?out2 (2 * got - ?ao)
        else Some (Inl ''inflate failed'', s'))"
      using less.prems False z by (subst inflate_loop.simps) (simp add: Let_def mult_2)
    show ?thesis
    proof (cases "(ret = Z_OK \<or> ret = Z_BUF_ERROR) \<and> ?ao = 0 \<and> ret \<noteq> Z_STREAM_END")
      case True
      have "\<exists>r t. inflate_loop zl m s' i' ?out2 (2 * got) = Some (r, t)
        \<and> (case r of Inl _ \<Rightarrow> True | Inr y \<Rightarrow> length y \<le> 2 * m)"
        by (rule less.hyps) (use less.prems \<open>\<not> m < got\<close> len in auto)
      then show ?thesis using True by (subst step) simp
    next
      case no: False
      then show ?thesis using \<open>\<not> m < got\<close> len by (subst step) auto
    qed
  qed
qed

lemma inflate_start:
  assumes "zlib_ok zl" and "0 < m"
  shows "\<exists>r s'. inflate_loop zl m s input (replicate 4096 0) 0 = Some (r, s')
    \<and> (case r of Inl _ \<Rightarrow> True | Inr y \<Rightarrow> length y \<le> max 4096 (2 * m))"
proof -
  obtain ret i' p s' where z: "z_inflate zl s input (uInt 4096) = (ret, i', p, s')" by (metis prod_cases4)
  have p: "length p \<le> 4096" using zlib_inflate_space [OF assms(1) z] by (simp add: uInt_def)
  let ?out = "copy_into (replicate 4096 0) 0 p"
  have len: "length ?out = 4096" using p by simp
  have step: "inflate_loop zl m s input (replicate 4096 0) 0 =
     (if ret = Z_STREAM_END \<or> ret = Z_OK \<and> i' = [] \<and> 4096 - length p > 0
      then Some (Inr (take (4096 - (4096 - length p)) ?out), s')
      else if (ret = Z_OK \<or> ret = Z_BUF_ERROR) \<and> 4096 - length p = 0
      then inflate_loop zl m s' i' ?out (4096 - (4096 - length p))
      else Some (Inl ''inflate failed'', s'))"
    using z by (subst inflate_loop.simps) (simp add: Let_def uInt_def)
  obtain r t where rec: "inflate_loop zl m s' i' ?out 4096 = Some (r, t)"
    "case r of Inl _ \<Rightarrow> True | Inr y \<Rightarrow> length y \<le> 2 * m"
    using inflate_loop_returns [OF assms len, of s' i'] by fastforce
  show ?thesis using rec p len by (subst step) (auto split: sum.splits)
qed

section \<open>What is received is what was sent\<close>

text \<open>
  The behaviour zlib documents, for an inflater \<open>z\<close> that was handed the input \<open>i\<close> and owes the output
  \<open>d\<close>: a call decompresses as much as fits, has read all its input once it owes nothing more, and
  reports \<open>Z_BUF_ERROR\<close> exactly when no progress was possible. \<open>owes e z i d\<close> also says that, once \<open>d\<close>
  is out, \<open>z\<close> is in step with the deflater \<open>e\<close>; a deflater given the space of \<open>deflateBound\<close> ends its
  output with the sync marker.
\<close>

definition zlib_codec :: "'z Zlib \<Rightarrow> ('z \<Rightarrow> 'z \<Rightarrow> byte list \<Rightarrow> byte list \<Rightarrow> bool) \<Rightarrow> bool" where
  "zlib_codec zl owes \<longleftrightarrow>
     (\<forall>e z i d n. owes e z i d \<longrightarrow> 0 < n \<longrightarrow>
        (case z_inflate zl z i n of (ret, i', p, z') \<Rightarrow>
           p = take n d \<and> owes e z' i' (drop n d) \<and> (length d \<le> n \<longrightarrow> i' = [])
         \<and> ret = (if i = [] \<and> d = [] then Z_BUF_ERROR else Z_OK)))
   \<and> (\<forall>e z x. owes e z [] [] \<longrightarrow>
        (case z_deflate zl e x (z_deflateBound zl e (length x)) of (ret, c, e') \<Rightarrow>
           ret = Z_OK \<and> length c \<le> z_deflateBound zl e (length x)
         \<and> (\<exists>y. c = y @ kSyncMarker \<and> owes e' z c x)))"

lemma codec_inflate:
  assumes "zlib_codec zl owes" and "owes e z i d" and "0 < n"
  obtains i' z' where "z_inflate zl z i n = (if i = [] \<and> d = [] then Z_BUF_ERROR else Z_OK, i', take n d, z')"
    and "owes e z' i' (drop n d)" and "length d \<le> n \<Longrightarrow> i' = []"
proof -
  obtain ret i' p z' where z: "z_inflate zl z i n = (ret, i', p, z')" by (metis prod_cases4)
  have law: "\<forall>e z i d n. owes e z i d \<longrightarrow> 0 < n \<longrightarrow>
      (case z_inflate zl z i n of (ret, i', p, z') \<Rightarrow>
         p = take n d \<and> owes e z' i' (drop n d) \<and> (length d \<le> n \<longrightarrow> i' = [])
       \<and> ret = (if i = [] \<and> d = [] then Z_BUF_ERROR else Z_OK))"
    using assms(1) unfolding zlib_codec_def by (rule conjunct1)
  from law [rule_format, OF assms(2,3)] have r: "p = take n d \<and> owes e z' i' (drop n d) \<and> (length d \<le> n \<longrightarrow> i' = [])
       \<and> ret = (if i = [] \<and> d = [] then Z_BUF_ERROR else Z_OK)"
    by (simp add: z)
  then have "z_inflate zl z i n = (if i = [] \<and> d = [] then Z_BUF_ERROR else Z_OK, i', take n d, z')"
    by (simp only: z)
  from that [OF this] r show thesis by blast
qed

text \<open>The sizes at which the output buffer is full exactly when the message ends.\<close>

definition fills_buffer :: "nat \<Rightarrow> bool" where
  "fills_buffer n \<longleftrightarrow> (\<exists>k. n = 4096 * 2 ^ k)"

lemma fills_buffer_ge: "fills_buffer n \<Longrightarrow> 4096 \<le> n"
  by (auto simp: fills_buffer_def)

lemma copy_into_append: "length p \<le> n \<Longrightarrow> copy_into (out @ replicate n 0) (length out) p = out @ p @ replicate (n - length p) 0"
  by (simp add: copy_into_def)

lemma uInt_small: "n < 2 ^ 32 \<Longrightarrow> uInt n = n"
  by (simp add: uInt_def)

lemma double_power:
  assumes "0 < (g :: nat)" and "g \<le> n"
  shows "(\<exists>k. g + n = g * 2 ^ Suc k) \<longleftrightarrow> n = g \<or> (\<exists>k. g + n = (2 * g) * 2 ^ Suc k)"
proof
  assume "\<exists>k. g + n = g * 2 ^ Suc k"
  then obtain k where k: "g + n = g * 2 ^ Suc k" ..
  show "n = g \<or> (\<exists>k. g + n = (2 * g) * 2 ^ Suc k)"
    using k by (cases k) auto
next
  assume "n = g \<or> (\<exists>k. g + n = (2 * g) * 2 ^ Suc k)"
  then show "\<exists>k. g + n = g * 2 ^ Suc k"
  proof
    assume "n = g" then show ?thesis by (intro exI [of _ 0]) simp
  next
    assume "\<exists>k. g + n = (2 * g) * 2 ^ Suc k"
    then obtain k where "g + n = (2 * g) * 2 ^ Suc k" ..
    then show ?thesis by (intro exI [of _ "Suc k"]) simp
  qed
qed

lemma no_double: "(n :: nat) < g \<Longrightarrow> \<not> (\<exists>k. g + n = g * 2 ^ Suc k)"
proof
  assume "n < g" "\<exists>k. g + n = g * 2 ^ Suc k"
  then obtain k where "g + n = g * 2 * 2 ^ k" by auto
  moreover have "g * 2 * 1 \<le> g * 2 * 2 ^ k" by (intro mult_le_mono2) simp
  ultimately show False using \<open>n < g\<close> by simp
qed

text \<open>One pass, with \<open>g\<close> bytes of output so far and as much space again.\<close>

lemma inflate_pass:
  assumes z: "z_inflate zl z i g = (if i = [] \<and> d = [] then Z_BUF_ERROR else Z_OK, i', take g d, z')"
    and "length out = g" "m = 0 \<or> g \<le> m" "g < 2 ^ 32"
  shows "inflate_loop zl m z i out g =
     (if length d < g
      then (if (i \<noteq> [] \<or> d \<noteq> []) \<and> i' = [] then Some (Inr (out @ d), z') else Some (Inl ''inflate failed'', z'))
      else inflate_loop zl m z' i' (out @ take g d) (2 * g))"
proof (cases "length d < g")
  case True
  have c: "copy_into (out @ replicate g 0) g d = out @ d @ replicate (g - length d) 0"
    using copy_into_append [of d g out] True assms(2) by simp
  show ?thesis using True assms c by (subst inflate_loop.simps) (auto simp: uInt_small Let_def)
next
  case False
  have c: "copy_into (out @ replicate g 0) g (take g d) = out @ take g d"
    using copy_into_append [of "take g d" g out] False assms(2) by simp
  show ?thesis using False assms c by (subst inflate_loop.simps) (auto simp: uInt_small mult_2 Let_def)
qed

lemma inflate_loop_exact:
  assumes codec: "zlib_codec zl owes"
  shows "owes e z i d \<Longrightarrow> length out = g \<Longrightarrow> 0 < g \<Longrightarrow> m = 0 \<or> g + length d \<le> m \<Longrightarrow> g + length d < 2 ^ 32 \<Longrightarrow>
    if (i = [] \<and> d = []) \<or> (\<exists>k. g + length d = g * 2 ^ Suc k)
    then \<exists>z'. inflate_loop zl m z i out g = Some (Inl ''inflate failed'', z')
    else \<exists>z'. inflate_loop zl m z i out g = Some (Inr (out @ d), z') \<and> owes e z' [] []"
proof (induction "length d" arbitrary: z i d out g rule: less_induct)
  case less
  obtain i' z' where z: "z_inflate zl z i g = (if i = [] \<and> d = [] then Z_BUF_ERROR else Z_OK, i', take g d, z')"
    and owes: "owes e z' i' (drop g d)" and i': "length d \<le> g \<Longrightarrow> i' = []"
    using codec_inflate [OF codec less.prems(1,3)] by blast
  have step: "inflate_loop zl m z i out g =
     (if length d < g
      then (if (i \<noteq> [] \<or> d \<noteq> []) \<and> i' = [] then Some (Inr (out @ d), z') else Some (Inl ''inflate failed'', z'))
      else inflate_loop zl m z' i' (out @ take g d) (2 * g))"
    by (rule inflate_pass [OF z less.prems(2)]) (use less.prems in auto)
  show ?case
  proof (cases "length d < g")
    case True
    show ?thesis using True no_double [OF True] i' owes by (subst step)+ (auto simp: step)
  next
    case False
    let ?d = "drop g d"
    have bad: "(i = [] \<and> d = []) \<or> (\<exists>k. g + length d = g * 2 ^ Suc k) \<longleftrightarrow>
        (i' = [] \<and> ?d = []) \<or> (\<exists>k. 2 * g + length ?d = (2 * g) * 2 ^ Suc k)"
      using double_power [OF less.prems(3), of "length d"] False i' less.prems(3) by auto
    have "if (i' = [] \<and> ?d = []) \<or> (\<exists>k. 2 * g + length ?d = (2 * g) * 2 ^ Suc k)
      then \<exists>t. inflate_loop zl m z' i' (out @ take g d) (2 * g) = Some (Inl ''inflate failed'', t)
      else \<exists>t. inflate_loop zl m z' i' (out @ take g d) (2 * g) = Some (Inr ((out @ take g d) @ ?d), t) \<and> owes e t [] []"
      by (rule less.hyps) (use False less.prems owes in auto)
    moreover have "inflate_loop zl m z i out g = inflate_loop zl m z' i' (out @ take g d) (2 * g)"
      using step False by simp
    ultimately show ?thesis unfolding bad by (simp only: append_assoc append_take_drop_id)
  qed
qed

text \<open>The first pass, into the 4096 bytes the string starts with.\<close>

lemma inflate_first:
  assumes codec: "zlib_codec zl owes" and "owes e z i d" and "i \<noteq> []"
    and "m = 0 \<or> length d \<le> m" and "length d < 2 ^ 32"
  shows "if fills_buffer (length d)
    then \<exists>z'. inflate_loop zl m z i (replicate 4096 0) 0 = Some (Inl ''inflate failed'', z')
    else \<exists>z'. inflate_loop zl m z i (replicate 4096 0) 0 = Some (Inr d, z') \<and> owes e z' [] []"
proof -
  obtain i' z' where z: "z_inflate zl z i 4096 = (Z_OK, i', take 4096 d, z')"
    and owes: "owes e z' i' (drop 4096 d)" and i': "length d \<le> 4096 \<Longrightarrow> i' = []"
    using codec_inflate [OF codec assms(2), of 4096] assms(3) by auto
  show ?thesis
  proof (cases "length d < 4096")
    case True
    then have "\<not> fills_buffer (length d)" by (auto simp: fills_buffer_def)
    moreover have "copy_into (replicate 4096 0) 0 d = d @ replicate (4096 - length d) 0"
      using copy_into_append [of d 4096 "[]"] True by simp
    ultimately show ?thesis using True z owes i'
      by (subst (1 2) inflate_loop.simps) (simp add: Let_def uInt_def)
  next
    case False
    have c: "copy_into (replicate 4096 0) 0 (take 4096 d) = take 4096 d"
      using copy_into_append [of "take 4096 d" 4096 "[]"] False by simp
    have step: "inflate_loop zl m z i (replicate 4096 0) 0 = inflate_loop zl m z' i' (take 4096 d) 4096"
      using False z c by (subst inflate_loop.simps) (simp add: Let_def uInt_def)
    have bad: "fills_buffer (length d) \<longleftrightarrow>
        (i' = [] \<and> drop 4096 d = []) \<or> (\<exists>k. 4096 + length (drop 4096 d) = 4096 * 2 ^ Suc k)"
      using double_power [of 2048 "length d - 2048"] False i' by (auto simp: fills_buffer_def)
    have "if (i' = [] \<and> drop 4096 d = []) \<or> (\<exists>k. 4096 + length (drop 4096 d) = 4096 * 2 ^ Suc k)
      then \<exists>t. inflate_loop zl m z' i' (take 4096 d) 4096 = Some (Inl ''inflate failed'', t)
      else \<exists>t. inflate_loop zl m z' i' (take 4096 d) 4096 = Some (Inr (take 4096 d @ drop 4096 d), t) \<and> owes e t [] []"
      by (rule inflate_loop_exact [OF codec owes]) (use False assms in auto)
    then show ?thesis unfolding bad step by (simp only: append_take_drop_id)
  qed
qed

section \<open>A codec that stores\<close>

text \<open>The identity codec, which appends the marker, meets what is asked of zlib.\<close>

definition store_zlib :: "byte list Zlib" where
  "store_zlib = \<lparr>z_deflateInit = \<lambda>_ _ _. Some [], z_inflateInit = \<lambda>_. Some [],
     z_deflateReset = \<lambda>s. s, z_inflateReset = \<lambda>s. [], z_deflateBound = \<lambda>_ n. n + 4,
     z_deflate = \<lambda>s i n. (Z_OK, take n (i @ kSyncMarker), s),
     z_inflate = \<lambda>s i n.
       let d = s @ strip_marker i
       in (if i = [] \<and> d = [] then Z_BUF_ERROR else Z_OK, [], take n d, drop n d)\<rparr>"

definition store_owes :: "byte list \<Rightarrow> byte list \<Rightarrow> byte list \<Rightarrow> byte list \<Rightarrow> bool" where
  "store_owes e z i d \<longleftrightarrow> d = z @ strip_marker i"

lemma strip_marker_simps [simp]: "strip_marker [] = []" "strip_marker (y @ kSyncMarker) = y"
  by (simp_all add: strip_marker_def kSyncMarker_def)

lemma length_kSyncMarker [simp]: "length kSyncMarker = 4"
  by (simp add: kSyncMarker_def)

lemma store_zlib_ok: "zlib_ok store_zlib"
  by (simp add: zlib_ok_def store_zlib_def Let_def min_def) auto

lemma store_zlib_codec: "zlib_codec store_zlib store_owes"
  by (simp add: zlib_codec_def store_zlib_def store_owes_def Let_def)

abbreviation sample_context :: "byte list WsDeflateContext" where
  "sample_context \<equiv> \<lparr>deflateStream = [], inflateStream = [],
     dc_config = \<lparr>serverMaxWindowBits = 15, clientMaxWindowBits = 15, serverNoContextTakeover = False,
                  clientNoContextTakeover = False, compLevel = 6, memLevel = 4\<rparr>\<rparr>"

lemma decompress_bounded:
  assumes "zlib_ok zl" and "0 < m"
  shows "\<exists>r ctx'. decompress zl ctx input m = Some (r, ctx')
    \<and> (case r of Inl _ \<Rightarrow> True | Inr y \<Rightarrow> length y \<le> max 4096 (2 * m))"
proof -
  let ?s = "if clientNoContextTakeover (dc_config ctx) then z_inflateReset zl (inflateStream ctx) else inflateStream ctx"
  let ?i = "take (uInt (length (input @ kSyncMarker))) (input @ kSyncMarker)"
  obtain r s' where "inflate_loop zl m ?s ?i (replicate 4096 0) 0 = Some (r, s')"
    "case r of Inl _ \<Rightarrow> True | Inr y \<Rightarrow> length y \<le> max 4096 (2 * m)"
    using inflate_start [OF assms, of ?s ?i] by blast
  then show ?thesis by (simp add: decompress_def Let_def)
qed

section \<open>Properties\<close>

text \<open>
  C24. Under a limit, \<open>decompress\<close> always comes to an end, whatever the peer sent: it returns a
  message or an error, and a message it returns has at most \<open>max 4096 (2 * limit)\<close> bytes.
\<close>

theorem decompress_ends:
  assumes "zlib_ok zl" and "0 < m"
  shows "\<exists>r ctx'. decompress zl ctx input m = Some (r, ctx')
    \<and> (case r of Inl _ \<Rightarrow> True | Inr y \<Rightarrow> length y \<le> max 4096 (2 * m))"
  by (rule decompress_bounded [OF assms])

theorem decompress_ends_witness:
  "\<exists>r ctx'. decompress store_zlib sample_context [7, 8, 9] 100 = Some (r, ctx')
    \<and> (case r of Inl _ \<Rightarrow> True | Inr y \<Rightarrow> length y \<le> max 4096 (2 * 100))"
  by (rule decompress_ends [OF store_zlib_ok]) simp

text \<open>
  C25. A compressed message within the limit is received exactly as it was sent, and the inflater is
  then in step with the sender again - unless the message has \<open>4096 * 2 ^ k\<close> bytes: then the buffer is
  full just when the message ends, the loop calls zlib once more with nothing left to do, and the
  message is refused with an error.
\<close>

theorem decompress_exact:
  assumes "zlib_codec zl owes"
    and "owes e (if clientNoContextTakeover (dc_config ctx) then z_inflateReset zl (inflateStream ctx)
                 else inflateStream ctx) (y @ kSyncMarker) x"
    and "m = 0 \<or> length x \<le> m" and "length x < 2 ^ 32" and "length y + 4 < 2 ^ 32"
  shows "if fills_buffer (length x)
    then \<exists>ctx'. decompress zl ctx y m = Some (Inl ''inflate failed'', ctx')
    else \<exists>ctx'. decompress zl ctx y m = Some (Inr x, ctx') \<and> owes e (inflateStream ctx') [] []"
proof -
  have t: "take (uInt (length (y @ kSyncMarker))) (y @ kSyncMarker) = y @ kSyncMarker"
    using assms(5) by (simp add: uInt_small)
  have "y @ kSyncMarker \<noteq> []" by (simp add: kSyncMarker_def)
  from inflate_first [OF assms(1,2) this assms(3,4)] show ?thesis
    unfolding decompress_def Let_def t by (auto split: if_splits)
qed

theorem decompress_exact_witness:
  "(\<exists>ctx'. decompress store_zlib sample_context [7, 8, 9] 5000 = Some (Inr [7, 8, 9], ctx'))
 \<and> (\<exists>ctx'. decompress store_zlib sample_context (replicate 4096 7) 5000 = Some (Inl ''inflate failed'', ctx'))"
proof -
  have "\<not> fills_buffer 3" using fills_buffer_ge [of 3] by auto
  then have "\<not> fills_buffer (Suc (Suc (Suc 0)))" by (simp add: numeral_3_eq_3)
  moreover have "fills_buffer 4096" unfolding fills_buffer_def by (rule exI [of _ 0]) simp
  moreover have "strip_marker (7 # 8 # 9 # kSyncMarker) = [7, 8, 9]"
    using strip_marker_simps(2) [of "[7, 8, 9]"] by simp
  ultimately show ?thesis
    using decompress_exact [OF store_zlib_codec, of "[]" sample_context "[7, 8, 9]" "[7, 8, 9]" 5000]
      decompress_exact [OF store_zlib_codec, of "[]" sample_context "replicate 4096 7" "replicate 4096 7" 5000]
    by (auto simp: store_owes_def)
qed

text \<open>The two directions together: what \<open>compress\<close> makes is received by a peer's inflater.\<close>

lemma compress_result:
  assumes "zlib_codec zl owes" and "length x < 2 ^ 32" and "z_deflateBound zl d (length x) < 2 ^ 32"
    and "d = (if serverNoContextTakeover (dc_config ctx) then z_deflateReset zl (deflateStream ctx) else deflateStream ctx)"
    and "owes d z [] []"
  shows "\<exists>y ctx'. compress zl ctx x = (Inr y, ctx') \<and> owes (deflateStream ctx') z (y @ kSyncMarker) x"
proof -
  let ?n = "z_deflateBound zl d (length x)"
  obtain ret c e' where z: "z_deflate zl d x ?n = (ret, c, e')" by (metis prod_cases3)
  have law: "\<forall>e z x. owes e z [] [] \<longrightarrow>
        (case z_deflate zl e x (z_deflateBound zl e (length x)) of (ret, c, e') \<Rightarrow>
           ret = Z_OK \<and> length c \<le> z_deflateBound zl e (length x)
         \<and> (\<exists>y. c = y @ kSyncMarker \<and> owes e' z c x))"
    using assms(1) unfolding zlib_codec_def by (rule conjunct2)
  from law [rule_format, OF assms(5), of x] obtain y where
    y: "ret = Z_OK" "length c \<le> ?n" "c = y @ kSyncMarker" "owes e' z c x"
    by (auto simp: z)
  have c: "copy_into (replicate ?n 0) 0 c = c @ replicate (?n - length c) 0"
    using copy_into_append [of c ?n "[]"] y(2) by simp
  have "compress zl ctx x = (Inr (strip_marker c), ctx\<lparr>deflateStream := e'\<rparr>)"
    unfolding compress_def Let_def assms(4) [symmetric] using assms(2,3) y(1,2)
    by (simp add: uInt_small z c)
  then show ?thesis using y(3,4) by simp
qed

end
