(* ===== verification/Net_Socket.thy ===== *)
theory Net_Socket
  imports Prelude
begin

text \<open>
  A stream socket as the sessions see it through Boost.Asio, over bytes or characters. The state holds
  the segments the peer has sent, as they will arrive, what a read reports behind the last of them,
  the buffers written so far, one entry per write, and the outcome of the writes to come (an empty list
  means that they succeed); a write that fails may have sent an initial part of its bytes.
\<close>

section \<open>The socket\<close>

datatype SockErr = Eof | ConnectionReset | OperationAborted | OtherError

record 'a Socket =
  incoming :: "'a list list"
  in_end :: SockErr
  sent :: "'a list list"
  write_faults :: "(nat \<times> SockErr) option list"
  sock_open :: bool

text \<open>\<open>async_read_some\<close> into \<open>n\<close> bytes of space: what has arrived, as far as it fits.\<close>

fun read_segments :: "nat \<Rightarrow> 'a list list \<Rightarrow> ('a list \<times> 'a list list) option" where
  "read_segments n [] = None"
| "read_segments n (seg # rest) =
     (if seg = [] then read_segments n rest
      else Some (take n seg, (if drop n seg = [] then rest else drop n seg # rest)))"

definition async_read_some :: "nat \<Rightarrow> 'a Socket \<Rightarrow> (SockErr + 'a list) \<times> 'a Socket" where
  "async_read_some n k =
     (if \<not> sock_open k then (Inl OtherError, k)
      else case read_segments n (incoming k) of
             None \<Rightarrow> (Inl (in_end k), k\<lparr>incoming := []\<rparr>)
           | Some (bytes, rest) \<Rightarrow> (Inr bytes, k\<lparr>incoming := rest\<rparr>))"

definition async_write :: "'a list \<Rightarrow> 'a Socket \<Rightarrow> (SockErr + unit) \<times> 'a Socket" where
  "async_write bytes k =
     (if \<not> sock_open k then (Inl OtherError, k)
      else case write_faults k of
             [] \<Rightarrow> (Inr (), k\<lparr>sent := sent k @ [bytes]\<rparr>)
           | None # fs \<Rightarrow> (Inr (), k\<lparr>sent := sent k @ [bytes], write_faults := fs\<rparr>)
           | Some (n, e) # fs \<Rightarrow> (Inl e, k\<lparr>sent := sent k @ [take n bytes], write_faults := fs\<rparr>))"

definition unread :: "'a list list \<Rightarrow> nat" where
  "unread segs = sum_list (map (\<lambda>s. Suc (length s)) segs)"

lemma unread_simps [simp]: "unread [] = 0" "unread (s # ss) = Suc (length s) + unread ss"
  by (simp_all add: unread_def)

lemma read_segments_unread:
  "read_segments n segs = Some (bytes, rest) \<Longrightarrow> 0 < n \<Longrightarrow>
   bytes \<noteq> [] \<and> unread rest < unread segs \<and> bytes @ concat rest = concat segs"
  by (induction n segs rule: read_segments.induct) (auto split: if_splits)

lemma async_read_less:
  "async_read_some n k = (Inr bytes, k') \<Longrightarrow> 0 < n \<Longrightarrow> unread (incoming k') < unread (incoming k)"
  by (auto simp: async_read_some_def split: if_splits option.splits dest!: read_segments_unread)

lemma read_segments_None: "read_segments m segs = None \<Longrightarrow> concat segs = []"
  by (induction m segs rule: read_segments.induct) (auto split: if_splits)

definition socket_stream :: "'a Socket \<Rightarrow> 'a list" where
  "socket_stream k = concat (incoming k)"

lemma async_read_Inr:
  "async_read_some n k = (Inr bytes, k') \<Longrightarrow> 0 < n \<Longrightarrow>
   bytes \<noteq> [] \<and> bytes @ concat (incoming k') = concat (incoming k) \<and> k' = k\<lparr>incoming := incoming k'\<rparr>"
  by (auto simp: async_read_some_def split: if_splits option.splits dest!: read_segments_unread)

lemma async_read_Inl:
  "async_read_some n k = (Inl e, k') \<Longrightarrow> sock_open k \<Longrightarrow> concat (incoming k) = []"
  by (auto simp: async_read_some_def split: option.splits dest: read_segments_None)

end
