(* ===== verification/Ws_Session.thy ===== *)
theory Ws_Session
  imports Ws_Deflate Net_Socket
begin

text \<open>
  The WebSocket session of \<^verbatim>\<open>src/src/core/WebSocket.cpp\<close>: reassembly of messages from frames, the
  replies to control frames, batched writing and closing. The socket is part of the state: the
  segments the peer sends, as they arrive, and the outcome of the writes. Coroutines of one session
  run on one thread and are serialised by the write lock, which the theory \<open>Ws_Lock\<close> models;
  the operations here are those of one coroutine from one suspension to the next.
\<close>

datatype WsExn = SystemError SockErr | RuntimeError string | NoReturn

section \<open>The session\<close>

record WsMessage =
  msg_type :: WsOpcode
  msg_data :: "byte list"

record 'z WsSession =
  sock :: "byte Socket"
  ws_open :: bool
  maxMessageSize :: size_t
  readBuf :: "byte list"
  readCap :: size_t
  fragmentBuf :: "byte list"
  fragmentOpcode :: WsOpcode
  fragmentCompressed :: bool
  writeCount :: nat
  writeBatch :: "byte list"
  batching :: bool
  closeReplyBuf :: "byte list"
  closeReplyPending :: bool
  pending :: "WsMessage list"
  pendingPos :: nat
  deflateCtx :: "'z WsDeflateContext option"
  lastPongTime :: int

definition kWriteBatchBytes :: nat where "kWriteBatchBytes = 64 * 1024"
definition kMaxFramesPerBatch :: nat where "kMaxFramesPerBatch = 256"

definition new_session ::
  "'z Zlib \<Rightarrow> byte Socket \<Rightarrow> size_t \<Rightarrow> bool \<Rightarrow> DeflateConfig option \<Rightarrow> int \<Rightarrow> string + 'z WsSession" where
  "new_session zl k maxSize enabled deflateNeg now =
     (let s = \<lparr>sock = k, ws_open = True, maxMessageSize = maxSize, readBuf = [], readCap = 8192,
               fragmentBuf = [], fragmentOpcode = opText, fragmentCompressed = False, writeCount = 0,
               writeBatch = [], batching = False, closeReplyBuf = [], closeReplyPending = False,
               pending = [], pendingPos = 0, deflateCtx = None, lastPongTime = now\<rparr>
      in case deflateNeg of
           None \<Rightarrow> Inr s
         | Some neg \<Rightarrow>
             if enabled
             then (case new_deflate_context zl (neg\<lparr>compLevel := 6, memLevel := 4\<rparr>) of
                     Inl e \<Rightarrow> Inl e
                   | Inr ctx \<Rightarrow> Inr (s\<lparr>deflateCtx := Some ctx\<rparr>))
             else Inr s)"

section \<open>Writing\<close>

definition encodeFrame :: "byte list \<Rightarrow> WsOpcode \<Rightarrow> byte list \<Rightarrow> bool \<Rightarrow> bool \<Rightarrow> byte list" where
  "encodeFrame dst opc payload fn r1 =
     dst @ [frame_byte0 opc fn r1] @ frame_length_bytes 0 (length payload) @ payload"

definition writeBatchLocked :: "'z WsSession \<Rightarrow> 'z WsSession" where
  "writeBatchLocked s =
     (if writeBatch s = [] then s
      else case async_write (writeBatch s) (sock s) of
             (Inl _, k) \<Rightarrow> s\<lparr>writeCount := Suc (writeCount s), sock := k, writeBatch := [], ws_open := False\<rparr>
           | (Inr _, k) \<Rightarrow> s\<lparr>writeCount := Suc (writeCount s), sock := k, writeBatch := []\<rparr>)"

definition queueFrameLocked ::
  "WsOpcode \<Rightarrow> byte list \<Rightarrow> bool \<Rightarrow> bool \<Rightarrow> 'z WsSession \<Rightarrow> 'z WsSession" where
  "queueFrameLocked opc payload fn r1 s =
     (let s1 = s\<lparr>writeBatch := encodeFrame (writeBatch s) opc payload fn r1\<rparr>
      in if length (writeBatch s1) \<ge> kWriteBatchBytes then writeBatchLocked s1 else s1)"

definition queueFrame :: "WsOpcode \<Rightarrow> byte list \<Rightarrow> 'z WsSession \<Rightarrow> 'z WsSession" where
  "queueFrame opc payload s = queueFrameLocked opc payload True False s"

definition flushBatch :: "'z WsSession \<Rightarrow> 'z WsSession" where
  "flushBatch s = (if writeBatch s = [] then s else writeBatchLocked s)"

definition sendFrame ::
  "WsOpcode \<Rightarrow> byte list \<Rightarrow> bool \<Rightarrow> bool \<Rightarrow> 'z WsSession \<Rightarrow> (WsExn + unit) \<times> 'z WsSession" where
  "sendFrame opc payload fn r1 s =
     (if batching s then (Inr (), queueFrameLocked opc payload fn r1 s)
      else case async_write (encodeFrame [] opc payload fn r1) (sock s) of
             (Inl e, k) \<Rightarrow> (Inl (SystemError e), s\<lparr>writeCount := Suc (writeCount s), sock := k\<rparr>)
           | (Inr _, k) \<Rightarrow> (Inr (), s\<lparr>writeCount := Suc (writeCount s), sock := k\<rparr>))"

definition send_data ::
  "'z Zlib \<Rightarrow> WsOpcode \<Rightarrow> byte list \<Rightarrow> 'z WsSession \<Rightarrow> (WsExn + unit) \<times> 'z WsSession" where
  "send_data zl opc msg s =
     (case deflateCtx s of
        Some ctx \<Rightarrow>
          (case compress zl ctx msg of
             (Inl e, ctx') \<Rightarrow> (Inl (RuntimeError e), s\<lparr>deflateCtx := Some ctx'\<rparr>)
           | (Inr c, ctx') \<Rightarrow> sendFrame opc c True True (s\<lparr>deflateCtx := Some ctx'\<rparr>))
      | None \<Rightarrow> sendFrame opc msg True False s)"

definition send :: "'z Zlib \<Rightarrow> byte list \<Rightarrow> 'z WsSession \<Rightarrow> (WsExn + unit) \<times> 'z WsSession" where
  "send zl msg s = send_data zl opText msg s"

definition sendBinary :: "'z Zlib \<Rightarrow> byte list \<Rightarrow> 'z WsSession \<Rightarrow> (WsExn + unit) \<times> 'z WsSession" where
  "sendBinary zl msg s = send_data zl opBinary msg s"

definition sendPing :: "byte list \<Rightarrow> 'z WsSession \<Rightarrow> (WsExn + unit) \<times> 'z WsSession" where
  "sendPing payload s =
     sendFrame opPing (if length payload > 125 then take 125 payload else payload) True False s"

definition sendCloseFrame :: "WsCloseCode \<Rightarrow> byte list \<Rightarrow> 'z WsSession \<Rightarrow> (WsExn + unit) \<times> 'z WsSession" where
  "sendCloseFrame cd reason s = sendFrame opClose (buildClosePayload cd reason) True False s"

definition beginBatch :: "'z WsSession \<Rightarrow> 'z WsSession" where
  "beginBatch s = s\<lparr>batching := True\<rparr>"

definition endBatch :: "'z WsSession \<Rightarrow> 'z WsSession" where
  "endBatch s =
     (let s1 = flushBatch (s\<lparr>batching := False\<rparr>)
      in if closeReplyPending s1
         then let s2 = snd (sendFrame opClose (closeReplyBuf s1) True False (s1\<lparr>closeReplyPending := False\<rparr>))
              in s2\<lparr>closeReplyBuf := []\<rparr>
         else s1)"

definition hasPendingBatchWork :: "'z WsSession \<Rightarrow> bool" where
  "hasPendingBatchWork s \<longleftrightarrow> writeBatch s \<noteq> [] \<or> closeReplyPending s"

section \<open>Closing\<close>

definition replyClose :: "byte list \<Rightarrow> 'z WsSession \<Rightarrow> 'z WsSession" where
  "replyClose payload s = s\<lparr>closeReplyBuf := payload, closeReplyPending := True\<rparr>"

definition close_socket :: "'z WsSession \<Rightarrow> 'z WsSession" where
  "close_socket s = s\<lparr>sock := (sock s)\<lparr>sock_open := False\<rparr>\<rparr>"

definition closeAsync :: "WsCloseCode \<Rightarrow> byte list \<Rightarrow> 'z WsSession \<Rightarrow> 'z WsSession" where
  "closeAsync cd reason s =
     (if ws_open s
      then let s1 = flushBatch (s\<lparr>ws_open := False\<rparr>)
           in close_socket (snd (sendCloseFrame cd reason (s1\<lparr>batching := False\<rparr>)))
      else s)"

definition ws_close :: "'z WsSession \<Rightarrow> 'z WsSession" where
  "ws_close s = (if ws_open s then close_socket (s\<lparr>ws_open := False\<rparr>) else s)"

definition isOpen :: "'z WsSession \<Rightarrow> bool" where
  "isOpen s \<longleftrightarrow> ws_open s \<and> sock_open (sock s)"

section \<open>Reading\<close>

definition grow_cap :: "nat \<Rightarrow> nat \<Rightarrow> nat" where
  "grow_cap n cap = (if cap < n then max n (cap * 2) else cap)"

lemma grow_cap_space: "l < n \<Longrightarrow> l < grow_cap n cap"
  by (auto simp: grow_cap_def)

text \<open>The loop of \<open>ensureBytes\<close>, over the buffer, its size and the socket.\<close>

function fill_buffer ::
  "nat \<Rightarrow> byte list \<Rightarrow> nat \<Rightarrow> byte Socket \<Rightarrow> (SockErr + unit) \<times> byte list \<times> nat \<times> byte Socket" where
  "fill_buffer n buf cap k =
     (if length buf < n
      then let cap' = grow_cap n cap
           in (case async_read_some (cap' - length buf) k of
                 (Inl e, k') \<Rightarrow> (Inl e, buf, cap', k')
               | (Inr bytes, k') \<Rightarrow> fill_buffer n (buf @ bytes) cap' k')
      else (Inr (), buf, cap, k))"
  by pat_completeness auto
termination
  by (relation "measure (\<lambda>(n, buf, cap, k). unread (incoming k))")
    (auto intro!: async_read_less [OF sym] simp: grow_cap_space)

declare fill_buffer.simps [simp del]

definition ensureBytes :: "nat \<Rightarrow> 'z WsSession \<Rightarrow> (SockErr + unit) \<times> 'z WsSession" where
  "ensureBytes n s0 =
     (let s = flushBatch s0
      in case fill_buffer n (readBuf s) (readCap s) (sock s) of
           (r, buf, cap, k) \<Rightarrow> (r, s\<lparr>readBuf := buf, readCap := cap, sock := k\<rparr>))"

definition consumeBytes :: "nat \<Rightarrow> 'z WsSession \<Rightarrow> 'z WsSession" where
  "consumeBytes n s =
     (if n \<ge> length (readBuf s) then s\<lparr>readBuf := []\<rparr> else s\<lparr>readBuf := drop n (readBuf s)\<rparr>)"

definition recordPongReceived :: "int \<Rightarrow> 'z WsSession \<Rightarrow> 'z WsSession" where
  "recordPongReceived now s = s\<lparr>lastPongTime := now\<rparr>"

section \<open>Receiving\<close>

definition text_bytes :: "string \<Rightarrow> byte list" where
  "text_bytes = map of_char"

text \<open>The checks on a frame header; the payload of the close reply when one fails.\<close>

definition header_violation :: "bool \<Rightarrow> nat \<Rightarrow> WsFrameHeader \<Rightarrow> byte list option" where
  "header_violation deflate maxSize h =
     (if rsv2 h \<or> rsv3 h then Some (buildClosePayload 1002 (text_bytes ''Unexpected RSV2/RSV3''))
      else if rsv1 h \<and> \<not> deflate
      then Some (buildClosePayload 1002 (text_bytes ''Unexpected RSV1 without deflate''))
      else if \<not> masked h then Some (buildClosePayload 1002 (text_bytes ''Client frames must be masked''))
      else if opcode h \<ge> 8 \<and> payloadLength h > 125
      then Some (buildClosePayload 1002 (text_bytes ''Control frame payload too large''))
      else if unat (payloadLength h) > maxSize then Some (buildClosePayload 1009 [])
      else None)"

text \<open>One turn of the receive loop: \<open>Inl\<close> leaves the loop with a result, \<open>Inr\<close> goes round again.\<close>

type_synonym 'z turn = "((WsExn + bool) + unit) \<times> WsMessage list \<times> nat \<times> 'z WsSession"

abbreviation (input) leave :: "WsExn + bool \<Rightarrow> WsMessage list \<Rightarrow> nat \<Rightarrow> 'z WsSession \<Rightarrow> 'z turn" where
  "leave r out n s \<equiv> (Inl r, out, n, s)"

definition refuse :: "byte list \<Rightarrow> WsMessage list \<Rightarrow> nat \<Rightarrow> 'z WsSession \<Rightarrow> 'z turn" where
  "refuse payload out n s = leave (Inr False) out n ((replyClose payload s)\<lparr>ws_open := False\<rparr>)"

definition caught :: "SockErr \<Rightarrow> WsMessage list \<Rightarrow> nat \<Rightarrow> 'z WsSession \<Rightarrow> 'z turn" where
  "caught e out n s =
     leave (if e \<in> {Eof, ConnectionReset, OperationAborted} then Inr False else Inl (SystemError e))
       out n (s\<lparr>ws_open := False\<rparr>)"

definition read_more :: "nat \<Rightarrow> WsMessage list \<Rightarrow> nat \<Rightarrow> 'z WsSession \<Rightarrow> 'z turn" where
  "read_more need out n s =
     (if out \<noteq> [] then leave (Inr True) out n s
      else case ensureBytes need s of
             (Inl e, s') \<Rightarrow> caught e out n s'
           | (Inr _, s') \<Rightarrow> (Inr (), out, n, s'))"

definition finish_message :: "'z Zlib \<Rightarrow> WsMessage list \<Rightarrow> nat \<Rightarrow> 'z WsSession \<Rightarrow> 'z turn" where
  "finish_message zl out n s =
     (case (if fragmentCompressed s then deflateCtx s else None) of
        Some ctx \<Rightarrow>
          (case decompress zl ctx (fragmentBuf s) (maxMessageSize s) of
             None \<Rightarrow> leave (Inl NoReturn) out n s
           | Some (Inl e, ctx') \<Rightarrow> leave (Inl (RuntimeError e)) out n (s\<lparr>deflateCtx := Some ctx'\<rparr>)
           | Some (Inr data, ctx') \<Rightarrow>
               (Inr (), out @ [\<lparr>msg_type = fragmentOpcode s, msg_data = data\<rparr>], n,
                s\<lparr>deflateCtx := Some ctx'\<rparr>))
      | None \<Rightarrow>
          (Inr (), out @ [\<lparr>msg_type = fragmentOpcode s, msg_data = fragmentBuf s\<rparr>], n,
           s\<lparr>fragmentBuf := []\<rparr>))"

definition data_frame ::
  "'z Zlib \<Rightarrow> WsFrameHeader \<Rightarrow> byte list \<Rightarrow> nat \<Rightarrow> WsMessage list \<Rightarrow> nat \<Rightarrow> 'z WsSession \<Rightarrow> 'z turn" where
  "data_frame zl h payload frameSize out n s =
     (if opcode h \<notin> {opText, opBinary, opContinuation}
      then refuse (buildClosePayload 1002 (text_bytes ''Unknown opcode'')) out n s
      else
        let s1 = (if opcode h \<noteq> opContinuation
                  then s\<lparr>fragmentBuf := [], fragmentOpcode := opcode h, fragmentCompressed := rsv1 h\<rparr>
                  else s);
            s2 = s1\<lparr>fragmentBuf := fragmentBuf s1 @ payload\<rparr>
        in if length (fragmentBuf s2) > maxMessageSize s2
           then refuse (buildClosePayload 1009 []) out n s2
           else
             let s3 = consumeBytes frameSize s2
             in if fin h then finish_message zl out (Suc n) s3 else (Inr (), out, Suc n, s3))"

definition whole_frame ::
  "'z Zlib \<Rightarrow> int \<Rightarrow> WsFrameHeader \<Rightarrow> nat \<Rightarrow> WsMessage list \<Rightarrow> nat \<Rightarrow> 'z WsSession \<Rightarrow> 'z turn" where
  "whole_frame zl now h frameSize out n s0 =
     (let payload = unmaskPayload (take (unat (payloadLength h)) (drop (headerSize h) (readBuf s0))) (maskKey h);
          s = s0\<lparr>readBuf := copy_into (readBuf s0) (headerSize h) payload\<rparr>
      in if opcode h = opClose
         then leave (Inr False) out n
                ((consumeBytes frameSize (replyClose (if length payload \<ge> 2 then payload else []) s))
                   \<lparr>ws_open := False\<rparr>)
         else if opcode h = opPing
         then (Inr (), out, Suc n, consumeBytes frameSize (queueFrame opPong payload s))
         else if opcode h = opPong
         then (Inr (), out, Suc n, consumeBytes frameSize (recordPongReceived now s))
         else data_frame zl h payload frameSize out n s)"

definition parse_turn :: "'z Zlib \<Rightarrow> int \<Rightarrow> WsMessage list \<Rightarrow> nat \<Rightarrow> 'z WsSession \<Rightarrow> 'z turn" where
  "parse_turn zl now out n s =
     (case parseWsFrameHeader (readBuf s) of
        None \<Rightarrow> read_more (Suc (length (readBuf s))) out n s
      | Some h \<Rightarrow>
          (case header_violation (deflateCtx s \<noteq> None) (maxMessageSize s) h of
             Some payload \<Rightarrow> refuse payload out n s
           | None \<Rightarrow>
               let frameSize = size_add (headerSize h) (unat (payloadLength h))
               in if length (readBuf s) < frameSize then read_more frameSize out n s
                  else whole_frame zl now h frameSize out n s))"

definition receive_turn :: "'z Zlib \<Rightarrow> int \<Rightarrow> WsMessage list \<Rightarrow> nat \<Rightarrow> 'z WsSession \<Rightarrow> 'z turn" where
  "receive_turn zl now out n s =
     (if n \<ge> kMaxFramesPerBatch then leave (Inr True) out n s
      else if length (readBuf s) < 2
      then (case read_more 2 out n s of
              (Inr _, out', n', s') \<Rightarrow> parse_turn zl now out' n' s'
            | r \<Rightarrow> r)
      else parse_turn zl now out n s)"

lemma writeBatchLocked_incoming [simp]: "incoming (sock (writeBatchLocked s)) = incoming (sock s)"
  by (auto simp: writeBatchLocked_def async_write_def split: list.splits option.splits)

lemma flushBatch_incoming [simp]: "incoming (sock (flushBatch s)) = incoming (sock s)"
  by (simp add: flushBatch_def)

lemma queueFrame_incoming [simp]: "incoming (sock (queueFrame opc payload s)) = incoming (sock s)"
  by (simp add: queueFrame_def queueFrameLocked_def Let_def)

lemma consumeBytes_sock [simp]: "sock (consumeBytes n s) = sock s"
  by (simp add: consumeBytes_def)

lemma recordPong_sock [simp]: "sock (recordPongReceived now s) = sock s"
  by (simp add: recordPongReceived_def)

lemma writeBatchLocked_readBuf [simp]: "readBuf (writeBatchLocked s) = readBuf s"
  by (auto simp: writeBatchLocked_def split: prod.splits sum.splits)

lemma flushBatch_readBuf [simp]: "readBuf (flushBatch s) = readBuf s"
  by (simp add: flushBatch_def)

lemma fill_buffer_unread:
  "fill_buffer n buf cap k = (r, buf', cap', k') \<Longrightarrow>
   unread (incoming k') \<le> unread (incoming k) \<and> (r = Inr () \<and> length buf < n \<longrightarrow> unread (incoming k') < unread (incoming k))"
proof (induction n buf cap k arbitrary: r buf' cap' k' rule: fill_buffer.induct)
  case (1 n buf cap k)
  show ?case
  proof (cases "length buf < n")
    case True
    obtain x k1 where rd: "async_read_some (grow_cap n cap - length buf) k = (x, k1)" by fastforce
    show ?thesis
    proof (cases x)
      case (Inl e)
      then show ?thesis using 1(2) True rd
        by (subst (asm) fill_buffer.simps) (auto simp: Let_def async_read_some_def split: if_splits option.splits)
    next
      case (Inr bytes)
      have "unread (incoming k1) < unread (incoming k)"
        using async_read_less [OF rd [unfolded Inr]] grow_cap_space [OF True] by simp
      moreover have "fill_buffer n (buf @ bytes) (grow_cap n cap) k1 = (r, buf', cap', k')"
        using 1(2) True rd Inr by (subst (asm) fill_buffer.simps) (simp add: Let_def)
      ultimately show ?thesis using 1(1) [OF True refl rd [symmetric] Inr] by fastforce
    qed
  next
    case False
    then show ?thesis using 1(2) by (subst (asm) fill_buffer.simps) simp
  qed
qed

definition turn_measure :: "nat \<Rightarrow> 'z WsSession \<Rightarrow> nat" where
  "turn_measure n s = unread (incoming (sock s)) + (kMaxFramesPerBatch - n)"

lemma read_more_less:
  "read_more need out n s = (Inr u, out', n', s') \<Longrightarrow> length (readBuf s) < need \<Longrightarrow>
   out' = out \<and> n' = n \<and> turn_measure n s' < turn_measure n s"
  by (auto simp: read_more_def ensureBytes_def Let_def caught_def turn_measure_def
      split: if_splits prod.splits sum.splits dest!: fill_buffer_unread)

lemma whole_frame_less:
  "whole_frame zl now h fs out n s = (Inr u, out', n', s') \<Longrightarrow> n < kMaxFramesPerBatch \<Longrightarrow>
   turn_measure n' s' < turn_measure n s"
  by (auto simp: whole_frame_def Let_def data_frame_def refuse_def finish_message_def turn_measure_def
      split: if_splits option.splits prod.splits sum.splits)

lemma parse_turn_less:
  "parse_turn zl now out n s = (Inr u, out', n', s') \<Longrightarrow> n < kMaxFramesPerBatch \<Longrightarrow>
   turn_measure n' s' < turn_measure n s"
  by (auto simp: parse_turn_def refuse_def Let_def split: option.splits if_splits
      dest!: read_more_less whole_frame_less)

lemma receive_turn_less:
  "receive_turn zl now out n s = (Inr u, out', n', s') \<Longrightarrow> turn_measure n' s' < turn_measure n s"
  by (auto simp: receive_turn_def split: if_splits prod.splits sum.splits
      dest!: parse_turn_less read_more_less)

function receive_loop ::
  "'z Zlib \<Rightarrow> int \<Rightarrow> WsMessage list \<Rightarrow> nat \<Rightarrow> 'z WsSession \<Rightarrow> (WsExn + bool) \<times> WsMessage list \<times> 'z WsSession" where
  "receive_loop zl now out n s =
     (case receive_turn zl now out n s of
        (Inl r, out', n', s') \<Rightarrow> (r, out', s')
      | (Inr _, out', n', s') \<Rightarrow> receive_loop zl now out' n' s')"
  by pat_completeness auto
termination
  by (relation "measure (\<lambda>(zl, now, out, n, s). turn_measure n s)") (auto dest!: receive_turn_less [OF sym])

declare receive_loop.simps [simp del]

definition receiveBatch ::
  "'z Zlib \<Rightarrow> int \<Rightarrow> 'z WsSession \<Rightarrow> (WsExn + bool) \<times> WsMessage list \<times> 'z WsSession" where
  "receiveBatch zl now s = receive_loop zl now [] 0 s"

definition take_pending :: "'z WsSession \<Rightarrow> WsMessage option \<times> 'z WsSession" where
  "take_pending s =
     (let msg = pending s ! pendingPos s;
          s1 = s\<lparr>pendingPos := Suc (pendingPos s)\<rparr>
      in (Some msg, if pendingPos s1 \<ge> length (pending s1) then s1\<lparr>pending := [], pendingPos := 0\<rparr> else s1))"

definition receiveInternal ::
  "'z Zlib \<Rightarrow> int \<Rightarrow> 'z WsSession \<Rightarrow> (WsExn + WsMessage option) \<times> 'z WsSession" where
  "receiveInternal zl now s =
     (if pendingPos s \<ge> length (pending s)
      then
        if \<not> ws_open s then (Inr None, s)
        else
          (case receiveBatch zl now (s\<lparr>pending := [], pendingPos := 0\<rparr>) of
             (Inl e, out, s1) \<Rightarrow> (Inl e, s1\<lparr>pending := out\<rparr>)
           | (Inr _, out, s1) \<Rightarrow>
               let s2 = s1\<lparr>pending := out\<rparr>;
                   s3 = (if hasPendingBatchWork s2 then endBatch s2 else s2)
               in if pending s3 = [] then (Inr None, s3)
                  else (case take_pending s3 of (m, s4) \<Rightarrow> (Inr m, s4)))
      else (case take_pending s of (m, s4) \<Rightarrow> (Inr m, s4)))"

definition receive :: "'z Zlib \<Rightarrow> int \<Rightarrow> 'z WsSession \<Rightarrow> (WsExn + byte list option) \<times> 'z WsSession" where
  "receive zl now s =
     (case receiveInternal zl now s of
        (Inl e, s') \<Rightarrow> (Inl e, s')
      | (Inr m, s') \<Rightarrow> (Inr (map_option msg_data m), s'))"

definition receiveMessage :: "'z Zlib \<Rightarrow> int \<Rightarrow> 'z WsSession \<Rightarrow> (WsExn + WsMessage option) \<times> 'z WsSession" where
  "receiveMessage zl now s = receiveInternal zl now s"

section \<open>Messages of a byte stream\<close>

text \<open>
  What the session should deliver is a function of the bytes the peer sent alone, not of the segments
  they arrive in. \<open>next_frame\<close> splits the first acceptable frame off a stream, \<open>accept\<close> is its effect on
  the message under assembly, and \<open>decode k\<close> is the effect of the first \<open>k\<close> frames: the messages
  completed, the payloads of the pings to answer, and the rest of the stream.
\<close>

record 'z Assembly =
  as_buf :: "byte list"
  as_opcode :: WsOpcode
  as_compressed :: bool
  as_deflate :: "'z WsDeflateContext option"

definition asm :: "'z WsSession \<Rightarrow> 'z Assembly" where
  "asm s = \<lparr>as_buf = fragmentBuf s, as_opcode = fragmentOpcode s, as_compressed = fragmentCompressed s,
            as_deflate = deflateCtx s\<rparr>"

definition stream :: "'z WsSession \<Rightarrow> byte list" where
  "stream s = readBuf s @ concat (incoming (sock s))"

definition next_frame :: "bool \<Rightarrow> nat \<Rightarrow> byte list \<Rightarrow> (WsFrameHeader \<times> byte list \<times> byte list) option" where
  "next_frame deflate maxSize bs =
     (case parseWsFrameHeader bs of
        None \<Rightarrow> None
      | Some h \<Rightarrow>
          if header_violation deflate maxSize h \<noteq> None
             \<or> length bs < headerSize h + unat (payloadLength h) then None
          else Some (h, xor_mask (take (unat (payloadLength h)) (drop (headerSize h) bs)) (maskKey h),
                     drop (headerSize h + unat (payloadLength h)) bs))"

definition complete_message ::
  "'z Zlib \<Rightarrow> nat \<Rightarrow> 'z Assembly \<Rightarrow> ('z Assembly \<times> WsMessage) option" where
  "complete_message zl maxSize a =
     (case (if as_compressed a then as_deflate a else None) of
        None \<Rightarrow> Some (a\<lparr>as_buf := []\<rparr>, \<lparr>msg_type = as_opcode a, msg_data = as_buf a\<rparr>)
      | Some ctx \<Rightarrow>
          (case decompress zl ctx (as_buf a) maxSize of
             Some (Inr data, ctx') \<Rightarrow>
               Some (a\<lparr>as_deflate := Some ctx'\<rparr>, \<lparr>msg_type = as_opcode a, msg_data = data\<rparr>)
           | _ \<Rightarrow> None))"

definition accept ::
  "'z Zlib \<Rightarrow> nat \<Rightarrow> 'z Assembly \<Rightarrow> WsFrameHeader \<Rightarrow> byte list
   \<Rightarrow> ('z Assembly \<times> WsMessage list \<times> byte list list) option" where
  "accept zl maxSize a h payload =
     (if opcode h = opClose then None
      else if opcode h = opPing then Some (a, [], [payload])
      else if opcode h = opPong then Some (a, [], [])
      else if opcode h \<notin> {opText, opBinary, opContinuation} then None
      else
        let a1 = (if opcode h = opContinuation then a
                  else a\<lparr>as_buf := [], as_opcode := opcode h, as_compressed := rsv1 h\<rparr>);
            a2 = a1\<lparr>as_buf := as_buf a1 @ payload\<rparr>
        in if length (as_buf a2) > maxSize then None
           else if fin h
           then (case complete_message zl maxSize a2 of None \<Rightarrow> None | Some (a3, m) \<Rightarrow> Some (a3, [m], []))
           else Some (a2, [], []))"

fun decode ::
  "'z Zlib \<Rightarrow> nat \<Rightarrow> nat \<Rightarrow> 'z Assembly \<Rightarrow> byte list
   \<Rightarrow> ('z Assembly \<times> WsMessage list \<times> byte list list \<times> byte list) option" where
  "decode zl maxSize 0 a bs = Some (a, [], [], bs)"
| "decode zl maxSize (Suc k) a bs =
     (case next_frame (as_deflate a \<noteq> None) maxSize bs of
        None \<Rightarrow> None
      | Some (h, payload, rest) \<Rightarrow>
          (case accept zl maxSize a h payload of
             None \<Rightarrow> None
           | Some (a1, ms, ps) \<Rightarrow>
               (case decode zl maxSize k a1 rest of
                  None \<Rightarrow> None
                | Some (a2, ms', ps', rest') \<Rightarrow> Some (a2, ms @ ms', ps @ ps', rest'))))"

definition wire_out :: "'z WsSession \<Rightarrow> byte list" where
  "wire_out s = concat (sent (sock s)) @ writeBatch s"

definition writes_ok :: "'z WsSession \<Rightarrow> bool" where
  "writes_ok s \<longleftrightarrow> sock_open (sock s) \<and> set (write_faults (sock s)) \<subseteq> {None}"

definition pongs :: "byte list list \<Rightarrow> byte list" where
  "pongs ps = concat (map (\<lambda>p. buildWsFrame opPong p True False) ps)"

lemma pongs_simps [simp]: "pongs [] = []" "pongs (ps @ qs) = pongs ps @ pongs qs" "pongs [p] = buildWsFrame opPong p True False"
  by (simp_all add: pongs_def)

section \<open>The loop follows the stream\<close>

lemma next_frame_append:
  "next_frame d m bs = Some (h, p, r) \<Longrightarrow> next_frame d m (bs @ t) = Some (h, p, r @ t)"
  by (auto simp: next_frame_def parse_extend split: option.splits if_splits)

text \<open>Writing touches nothing of the message under assembly.\<close>

lemma asm_writeBatchLocked [simp]: "asm (writeBatchLocked s) = asm s"
  by (auto simp: writeBatchLocked_def asm_def split: prod.splits sum.splits)

lemma asm_flushBatch [simp]: "asm (flushBatch s) = asm s"
  by (simp add: flushBatch_def)

lemma asm_update_simps [simp]:
  "asm (s\<lparr>sock := k\<rparr>) = asm s" "asm (s\<lparr>readBuf := b\<rparr>) = asm s" "asm (s\<lparr>readCap := c\<rparr>) = asm s"
  "asm (s\<lparr>writeBatch := w\<rparr>) = asm s" "asm (s\<lparr>ws_open := x\<rparr>) = asm s" "asm (s\<lparr>lastPongTime := t\<rparr>) = asm s"
  by (simp_all add: asm_def)

lemma max_writeBatchLocked [simp]: "maxMessageSize (writeBatchLocked s) = maxMessageSize s"
  by (auto simp: writeBatchLocked_def split: prod.splits sum.splits)

lemma max_flushBatch [simp]: "maxMessageSize (flushBatch s) = maxMessageSize s"
  by (simp add: flushBatch_def)

lemma stream_flushBatch [simp]: "stream (flushBatch s) = stream s"
  by (simp add: stream_def)

lemma writeBatchLocked_out:
  "writes_ok s \<Longrightarrow> wire_out (writeBatchLocked s) = wire_out s \<and> writes_ok (writeBatchLocked s)
     \<and> ws_open (writeBatchLocked s) = ws_open s"
  by (auto simp: writeBatchLocked_def async_write_def wire_out_def writes_ok_def split: list.splits option.splits)

lemma flushBatch_out:
  "writes_ok s \<Longrightarrow> wire_out (flushBatch s) = wire_out s \<and> writes_ok (flushBatch s) \<and> ws_open (flushBatch s) = ws_open s"
  by (simp add: flushBatch_def writeBatchLocked_out)

lemma queueFrame_out:
  assumes "writes_ok s"
  shows "wire_out (queueFrame opc p s) = wire_out s @ buildWsFrame opc p True False \<and> writes_ok (queueFrame opc p s)
     \<and> ws_open (queueFrame opc p s) = ws_open s"
proof -
  let ?s = "s\<lparr>writeBatch := encodeFrame (writeBatch s) opc p True False\<rparr>"
  have "writes_ok ?s" "wire_out ?s = wire_out s @ buildWsFrame opc p True False" "ws_open ?s = ws_open s"
    using assms by (simp_all add: writes_ok_def wire_out_def encodeFrame_def buildWsFrame_def)
  with writeBatchLocked_out [of ?s] show ?thesis
    by (auto simp: queueFrame_def queueFrameLocked_def Let_def)
qed

lemma queueFrame_frame [simp]:
  "asm (queueFrame opc p s) = asm s" "maxMessageSize (queueFrame opc p s) = maxMessageSize s"
  "readBuf (queueFrame opc p s) = readBuf s"
  by (simp_all add: queueFrame_def queueFrameLocked_def Let_def)

lemma fill_buffer_stream:
  "fill_buffer n buf cap k = (r, buf', cap', k') \<Longrightarrow>
   buf' @ concat (incoming k') = buf @ concat (incoming k) \<and> sock_open k' = sock_open k \<and> sent k' = sent k
     \<and> write_faults k' = write_faults k"
proof (induction n buf cap k arbitrary: r buf' cap' k' rule: fill_buffer.induct)
  case (1 n buf cap k)
  show ?case
  proof (cases "length buf < n")
    case True
    obtain x k1 where rd: "async_read_some (grow_cap n cap - length buf) k = (x, k1)" by fastforce
    show ?thesis
    proof (cases x)
      case (Inl e)
      have none: "read_segments m segs = None \<Longrightarrow> concat segs = []" for m segs
        by (induction m segs rule: read_segments.induct) (auto split: if_splits)
      show ?thesis using 1(2) True rd Inl
        by (subst (asm) fill_buffer.simps)
          (auto simp: Let_def async_read_some_def split: if_splits option.splits dest: none)
    next
      case (Inr bytes)
      have "bytes @ concat (incoming k1) = concat (incoming k) \<and> sock_open k1 = sock_open k \<and> sent k1 = sent k
          \<and> write_faults k1 = write_faults k"
        using rd Inr grow_cap_space [OF True, of cap]
        by (auto simp: async_read_some_def split: if_splits option.splits dest!: read_segments_unread)
      moreover have "fill_buffer n (buf @ bytes) (grow_cap n cap) k1 = (r, buf', cap', k')"
        using 1(2) True rd Inr by (subst (asm) fill_buffer.simps) (simp add: Let_def)
      ultimately show ?thesis using 1(1) [OF True refl rd [symmetric] Inr] by fastforce
    qed
  next
    case False
    then show ?thesis using 1(2) by (subst (asm) fill_buffer.simps) simp
  qed
qed

text \<open>Reading moves bytes from the socket to the buffer and delivers what was queued.\<close>

lemma ensureBytes_keeps:
  assumes "ensureBytes need s = (r, s')"
  shows "stream s' = stream s" and "asm s' = asm s" and "maxMessageSize s' = maxMessageSize s"
    and "writes_ok s \<Longrightarrow> wire_out s' = wire_out s \<and> writes_ok s' \<and> ws_open s' = ws_open s"
  using assms flushBatch_out [of s]
  by (auto simp: ensureBytes_def Let_def stream_def writes_ok_def wire_out_def split: prod.splits
      dest!: fill_buffer_stream)

lemma length_maskKey: "parseWsFrameHeader bs = Some h \<Longrightarrow> length (maskKey h) = 4"
  by (auto simp: parseWsFrameHeader_def extLenBytes_def Let_def split: if_splits)

lemma consumeBytes_readBuf [simp]: "readBuf (consumeBytes n s) = drop n (readBuf s)"
  by (simp add: consumeBytes_def)

lemma consumeBytes_keeps [simp]:
  "asm (consumeBytes n s) = asm s" "maxMessageSize (consumeBytes n s) = maxMessageSize s"
  "wire_out (consumeBytes n s) = wire_out s" "ws_open (consumeBytes n s) = ws_open s"
  "writes_ok (consumeBytes n s) = writes_ok s"
  by (simp_all add: consumeBytes_def asm_def wire_out_def writes_ok_def)

lemma recordPong_keeps [simp]:
  "asm (recordPongReceived now s) = asm s" "maxMessageSize (recordPongReceived now s) = maxMessageSize s"
  "wire_out (recordPongReceived now s) = wire_out s" "ws_open (recordPongReceived now s) = ws_open s"
  "writes_ok (recordPongReceived now s) = writes_ok s" "readBuf (recordPongReceived now s) = readBuf s"
  by (simp_all add: recordPongReceived_def asm_def wire_out_def writes_ok_def)

lemma drop_copy_into [simp]: "length p = l \<Longrightarrow> drop (i + l) (copy_into bs i p) = drop (i + l) bs"
  if "i + l \<le> length bs"
  using that by (simp add: copy_into_def)

text \<open>The observable effect of one accepted frame.\<close>

definition frame_effect ::
  "'z Zlib \<Rightarrow> WsMessage list \<Rightarrow> nat \<Rightarrow> 'z WsSession \<Rightarrow> WsMessage list \<Rightarrow> nat \<Rightarrow> 'z WsSession \<Rightarrow> bool" where
  "frame_effect zl out n s out' n' s' \<longleftrightarrow>
     (\<exists>h p ms ps. next_frame (deflateCtx s \<noteq> None) (maxMessageSize s) (stream s) = Some (h, p, stream s')
        \<and> accept zl (maxMessageSize s) (asm s) h p = Some (asm s', ms, ps)
        \<and> out' = out @ ms \<and> n' = Suc n \<and> maxMessageSize s' = maxMessageSize s
        \<and> (writes_ok s \<longrightarrow> wire_out s' = wire_out s @ pongs ps \<and> writes_ok s' \<and> ws_open s' = ws_open s))"

text \<open>The session after the in-place unmasking and the removal of the frame from the buffer.\<close>

abbreviation (input) frame_length :: "WsFrameHeader \<Rightarrow> nat" where
  "frame_length h \<equiv> headerSize h + unat (payloadLength h)"

lemma finish_message_sound:
  assumes "finish_message zl out n s = (x, out', n', s')"
  shows "case complete_message zl (maxMessageSize s) (asm s) of
      None \<Rightarrow> \<exists>e. x = Inl (Inl e)
    | Some (a, m) \<Rightarrow> x = Inr () \<and> out' = out @ [m] \<and> n' = n \<and> asm s' = a \<and> stream s' = stream s
        \<and> maxMessageSize s' = maxMessageSize s \<and> wire_out s' = wire_out s \<and> ws_open s' = ws_open s
        \<and> writes_ok s' = writes_ok s"
  using assms
  by (auto simp: finish_message_def complete_message_def asm_def stream_def wire_out_def writes_ok_def
      split: option.splits if_splits prod.splits sum.splits)

lemma data_frame_sound:
  assumes turn: "data_frame zl h p fs out n t = (x, out', n', s')" and op: "opcode h \<notin> {opClose, opPing, opPong}"
  shows "case accept zl (maxMessageSize t) (asm t) h p of
      None \<Rightarrow> \<exists>r. x = Inl r \<and> r \<noteq> Inr True
    | Some (a, ms, ps) \<Rightarrow> x = Inr () \<and> ps = [] \<and> out' = out @ ms \<and> n' = Suc n \<and> asm s' = a
        \<and> stream s' = drop fs (readBuf t) @ concat (incoming (sock t))
        \<and> maxMessageSize s' = maxMessageSize t \<and> wire_out s' = wire_out t \<and> ws_open s' = ws_open t
        \<and> writes_ok s' = writes_ok t"
proof (cases "opcode h \<in> {opText, opBinary, opContinuation}")
  case False
  then have "accept zl (maxMessageSize t) (asm t) h p = None" using op by (simp add: accept_def)
  then show ?thesis using turn False by (simp add: data_frame_def refuse_def) blast
next
  case True
  define t1 where "t1 = (if opcode h \<noteq> opContinuation
      then t\<lparr>fragmentBuf := [], fragmentOpcode := opcode h, fragmentCompressed := rsv1 h\<rparr> else t)"
  define t2 where "t2 = t1\<lparr>fragmentBuf := fragmentBuf t1 @ p\<rparr>"
  define a1 where "a1 = (if opcode h = opContinuation then asm t
      else (asm t)\<lparr>as_buf := [], as_opcode := opcode h, as_compressed := rsv1 h\<rparr>)"
  define a2 where "a2 = a1\<lparr>as_buf := as_buf a1 @ p\<rparr>"
  have t2: "asm t2 = a2" "maxMessageSize t2 = maxMessageSize t" "wire_out t2 = wire_out t" "ws_open t2 = ws_open t"
      "writes_ok t2 = writes_ok t" "readBuf t2 = readBuf t" "sock t2 = sock t"
    by (simp_all add: t2_def t1_def a2_def a1_def asm_def wire_out_def writes_ok_def)
  have buf: "fragmentBuf t2 = as_buf a2" using arg_cong [OF t2(1), of as_buf] by (simp add: asm_def)
  have acc: "accept zl (maxMessageSize t) (asm t) h p =
      (if length (as_buf a2) > maxMessageSize t then None
       else if fin h
       then (case complete_message zl (maxMessageSize t) a2 of None \<Rightarrow> None | Some (a3, m) \<Rightarrow> Some (a3, [m], []))
       else Some (a2, [], []))"
    using True op unfolding accept_def a2_def a1_def by (auto simp: Let_def)
  have dat: "data_frame zl h p fs out n t =
      (if length (as_buf a2) > maxMessageSize t then refuse (buildClosePayload 1009 []) out n t2
       else if fin h then finish_message zl out (Suc n) (consumeBytes fs t2) else (Inr (), out, Suc n, consumeBytes fs t2))"
    using True unfolding data_frame_def Let_def t1_def [symmetric] t2_def [symmetric] buf t2(2) by simp
  have str: "stream (consumeBytes fs t2) = drop fs (readBuf t) @ concat (incoming (sock t))"
    by (simp add: stream_def t2)
  show ?thesis
  proof (cases "length (as_buf a2) > maxMessageSize t")
    case True
    then show ?thesis using turn by (simp add: acc dat refuse_def) blast
  next
    case small: False
    show ?thesis
    proof (cases "fin h")
      case True
      have "finish_message zl out (Suc n) (consumeBytes fs t2) = (x, out', n', s')"
        using turn small True by (simp add: dat)
      from finish_message_sound [OF this] show ?thesis
        using small True by (auto simp: acc t2 str split: option.splits)
    next
      case False
      then show ?thesis using turn small by (auto simp: acc dat t2 str)
    qed
  qed
qed

lemma whole_frame_sound:
  assumes h: "parseWsFrameHeader (readBuf s) = Some h"
    and ok: "header_violation (deflateCtx s \<noteq> None) (maxMessageSize s) h = None"
    and len: "frame_length h \<le> length (readBuf s)"
    and turn: "whole_frame zl now h (frame_length h) out n s = (x, out', n', s')"
  shows "case x of
      Inr _ \<Rightarrow> frame_effect zl out n s out' n' s'
    | Inl r \<Rightarrow> r \<noteq> Inr True \<and> (\<exists>p rest. next_frame (deflateCtx s \<noteq> None) (maxMessageSize s) (stream s) = Some (h, p, rest)
        \<and> accept zl (maxMessageSize s) (asm s) h p = None)"
proof -
  let ?p = "xor_mask (take (unat (payloadLength h)) (drop (headerSize h) (readBuf s))) (maskKey h)"
  let ?rest = "drop (frame_length h) (readBuf s)"
  have lp: "length ?p = unat (payloadLength h)" using len by simp
  have un: "unmaskPayload (take (unat (payloadLength h)) (drop (headerSize h) (readBuf s))) (maskKey h) = ?p"
    by (rule unmaskPayload_xor [OF length_maskKey [OF h]])
  have next1: "next_frame (deflateCtx s \<noteq> None) (maxMessageSize s) (readBuf s) = Some (h, ?p, ?rest)"
    using h ok len by (simp add: next_frame_def)
  have nxt: "next_frame (deflateCtx s \<noteq> None) (maxMessageSize s) (stream s)
      = Some (h, ?p, ?rest @ concat (incoming (sock s)))"
    unfolding stream_def by (rule next_frame_append [OF next1])
  define t where "t = s\<lparr>readBuf := copy_into (readBuf s) (headerSize h) ?p\<rparr>"
  have t: "asm t = asm s" "maxMessageSize t = maxMessageSize s" "wire_out t = wire_out s" "writes_ok t = writes_ok s"
      "ws_open t = ws_open s" "sock t = sock s" "drop (frame_length h) (readBuf t) = ?rest"
    using len lp by (simp_all add: t_def wire_out_def writes_ok_def)
  have turn': "(if opcode h = opClose
         then leave (Inr False) out n
                ((consumeBytes (frame_length h) (replyClose (if length ?p \<ge> 2 then ?p else []) t))\<lparr>ws_open := False\<rparr>)
         else if opcode h = opPing
         then (Inr (), out, Suc n, consumeBytes (frame_length h) (queueFrame opPong ?p t))
         else if opcode h = opPong
         then (Inr (), out, Suc n, consumeBytes (frame_length h) (recordPongReceived now t))
         else data_frame zl h ?p (frame_length h) out n t) = (x, out', n', s')"
    using turn unfolding whole_frame_def un Let_def t_def by simp
  consider "opcode h = opClose" | "opcode h = opPing" | "opcode h = opPong"
    | "opcode h \<notin> {opClose, opPing, opPong}" by blast
  then show ?thesis
  proof cases
    case 1
    then show ?thesis using turn' nxt by (auto simp: accept_def)
  next
    case 2
    have "s' = consumeBytes (frame_length h) (queueFrame opPong ?p t)" "x = Inr ()" "out' = out" "n' = Suc n"
      using turn' 2 by auto
    moreover have "accept zl (maxMessageSize s) (asm s) h ?p = Some (asm s, [], [?p])"
      using 2 by (simp add: accept_def)
    ultimately show ?thesis using nxt t queueFrame_out [of t opPong ?p]
      by (auto simp: frame_effect_def stream_def)
  next
    case 3
    have "s' = consumeBytes (frame_length h) (recordPongReceived now t)" "x = Inr ()" "out' = out" "n' = Suc n"
      using turn' 3 by auto
    moreover have "accept zl (maxMessageSize s) (asm s) h ?p = Some (asm s, [], [])"
      using 3 by (simp add: accept_def)
    ultimately show ?thesis using nxt t
      by (auto simp: frame_effect_def stream_def)
  next
    case 4
    then have "data_frame zl h ?p (frame_length h) out n t = (x, out', n', s')" using turn' by auto
    from data_frame_sound [OF this 4] show ?thesis
      using nxt t by (auto simp: frame_effect_def split: option.splits)
  qed
qed

lemma accepted_frame_size:
  assumes "parseWsFrameHeader bs = Some h" and "header_violation d m h = None" and "m + 14 < size_modulus"
  shows "size_add (headerSize h) (unat (payloadLength h)) = frame_length h"
proof -
  have "unat (payloadLength h) \<le> m" using assms(2) by (simp add: header_violation_def split: if_splits)
  then show ?thesis using headerSize_bounds(2) [OF assms(1)] assms(3) by (intro size_add_exact) simp
qed

text \<open>A turn that only reads keeps everything but the place of the bytes.\<close>

definition read_effect ::
  "WsMessage list \<Rightarrow> nat \<Rightarrow> 'z WsSession \<Rightarrow> WsMessage list \<Rightarrow> nat \<Rightarrow> 'z WsSession \<Rightarrow> bool" where
  "read_effect out n s out' n' s' \<longleftrightarrow>
     out' = out \<and> n' = n \<and> stream s' = stream s \<and> asm s' = asm s \<and> maxMessageSize s' = maxMessageSize s
   \<and> (writes_ok s \<longrightarrow> wire_out s' = wire_out s \<and> writes_ok s' \<and> ws_open s' = ws_open s)"

lemma deflateCtx_asm: "deflateCtx s = as_deflate (asm s)"
  by (simp add: asm_def)

lemma read_effect_frame:
  "read_effect out n s out1 n1 s1 \<Longrightarrow> frame_effect zl out1 n1 s1 out' n' s' \<Longrightarrow> frame_effect zl out n s out' n' s'"
  unfolding read_effect_def frame_effect_def deflateCtx_asm by auto

text \<open>No complete acceptable frame in the buffer.\<close>

definition stuck :: "'z WsSession \<Rightarrow> bool" where
  "stuck s \<longleftrightarrow> next_frame (deflateCtx s \<noteq> None) (maxMessageSize s) (readBuf s) = None"

lemma read_more_sound:
  assumes "read_more need out n s = (x, out', n', s')" and "length (readBuf s) < need"
  shows "case x of
      Inr _ \<Rightarrow> read_effect out n s out' n' s' \<and> out = []
    | Inl r \<Rightarrow> (r = Inr True \<longrightarrow> out \<noteq> [] \<and> out' = out \<and> n' = n \<and> s' = s)
        \<and> (r \<noteq> Inr True \<longrightarrow> out = [] \<and> (\<exists>e s1. ensureBytes need s = (Inl e, s1)))"
proof (cases "out = []")
  case True
  obtain r s1 where e: "ensureBytes need s = (r, s1)" by fastforce
  show ?thesis using assms True e ensureBytes_keeps [OF e]
    by (auto simp: read_more_def caught_def read_effect_def split: sum.splits if_splits)
next
  case False
  then show ?thesis using assms by (auto simp: read_more_def)
qed

lemma fill_buffer_fails:
  "fill_buffer n buf cap k = (Inl e, buf', cap', k') \<Longrightarrow> sock_open k \<Longrightarrow> length (buf @ concat (incoming k)) < n"
proof (induction n buf cap k arbitrary: buf' cap' k' rule: fill_buffer.induct)
  case (1 n buf cap k)
  have short: "length buf < n" using 1(2) by (subst (asm) fill_buffer.simps) (auto split: if_splits)
  obtain x k1 where rd: "async_read_some (grow_cap n cap - length buf) k = (x, k1)" by fastforce
  show ?case
  proof (cases x)
    case (Inl e)
    then have "concat (incoming k) = []" using rd 1(3)
      by (auto simp: async_read_some_def split: option.splits dest: read_segments_None)
    then show ?thesis using short by (simp del: concat_eq_Nil_conv)
  next
    case (Inr bytes)
    then have st: "bytes @ concat (incoming k1) = concat (incoming k)" "sock_open k1"
      using rd 1(3) grow_cap_space [OF short, of cap]
      by (auto simp: async_read_some_def split: option.splits dest!: read_segments_unread)
    have "fill_buffer n (buf @ bytes) (grow_cap n cap) k1 = (Inl e, buf', cap', k')"
      using 1(2) short rd Inr by (subst (asm) fill_buffer.simps) (simp add: Let_def)
    from 1(1) [OF short refl rd [symmetric] Inr this st(2)] st(1) [symmetric] show ?thesis by simp
  qed
qed

lemma writeBatchLocked_sock_open [simp]: "sock_open (sock (writeBatchLocked s)) = sock_open (sock s)"
  by (auto simp: writeBatchLocked_def async_write_def split: list.splits option.splits)

lemma ensureBytes_fails: "ensureBytes need s = (Inl e, s1) \<Longrightarrow> sock_open (sock s) \<Longrightarrow> length (stream s) < need"
  using fill_buffer_fails [of need "readBuf s" "readCap (flushBatch s)" "sock (flushBatch s)"]
  by (auto simp: ensureBytes_def stream_def flushBatch_def Let_def split: prod.splits if_splits)

text \<open>The frame a stream begins with can be accepted.\<close>

definition ready :: "'z Zlib \<Rightarrow> 'z WsSession \<Rightarrow> bool" where
  "ready zl s \<longleftrightarrow> (\<exists>h p rest a. next_frame (deflateCtx s \<noteq> None) (maxMessageSize s) (stream s) = Some (h, p, rest)
     \<and> accept zl (maxMessageSize s) (asm s) h p = Some a)"

lemma next_frame_short: "length bs < 2 \<Longrightarrow> next_frame d m bs = None"
  by (simp add: next_frame_def parseWsFrameHeader_def)

lemma parse_turn_sound:
  assumes turn: "parse_turn zl now out n s = (x, out', n', s')" and m: "maxMessageSize s + 14 < size_modulus"
  shows "case x of
      Inr _ \<Rightarrow> read_effect out n s out' n' s' \<or> frame_effect zl out n s out' n' s'
    | Inl r \<Rightarrow> (r = Inr True \<longrightarrow> out \<noteq> [] \<and> out' = out \<and> n' = n \<and> s' = s \<and> stuck s)
        \<and> (r \<noteq> Inr True \<longrightarrow> sock_open (sock s) \<longrightarrow> \<not> ready zl s)"
proof (cases "parseWsFrameHeader (readBuf s)")
  case None
  have st: "stuck s" using None by (simp add: stuck_def next_frame_def)
  have more: "read_more (Suc (length (readBuf s))) out n s = (x, out', n', s')"
    using turn None by (simp add: parse_turn_def)
  have "\<not> ready zl s" if "ensureBytes (Suc (length (readBuf s))) s = (Inl e, s1)" "sock_open (sock s)" for e s1
  proof -
    have "concat (incoming (sock s)) = []"
      using ensureBytes_fails [OF that] by (simp add: stream_def del: concat_eq_Nil_conv)
    then have "stream s = readBuf s" by (simp add: stream_def del: concat_eq_Nil_conv)
    then show ?thesis using st by (simp add: ready_def stuck_def)
  qed
  then show ?thesis using read_more_sound [OF more] st by (auto split: sum.splits)
next
  case (Some h)
  have ps: "parseWsFrameHeader (stream s) = Some h" unfolding stream_def by (rule parse_extend [OF Some])
  show ?thesis
  proof (cases "header_violation (deflateCtx s \<noteq> None) (maxMessageSize s) h")
    case (Some payload)
    then have "\<not> ready zl s" using ps by (simp add: ready_def next_frame_def)
    then show ?thesis using turn \<open>parseWsFrameHeader (readBuf s) = Some h\<close> Some
      by (auto simp: parse_turn_def refuse_def)
  next
    case None
    note size = accepted_frame_size [OF Some None m]
    show ?thesis
    proof (cases "length (readBuf s) < frame_length h")
      case True
      have st: "stuck s" using Some True by (simp add: stuck_def next_frame_def)
      have more: "read_more (frame_length h) out n s = (x, out', n', s')"
        using turn Some None True size by (simp add: parse_turn_def Let_def)
      have "\<not> ready zl s" if "ensureBytes (frame_length h) s = (Inl e, s1)" "sock_open (sock s)" for e s1
        using ensureBytes_fails [OF that] ps by (auto simp: ready_def next_frame_def)
      then show ?thesis using read_more_sound [OF more True] st by (auto split: sum.splits)
    next
      case False
      then have "whole_frame zl now h (frame_length h) out n s = (x, out', n', s')"
        using turn Some None size by (simp add: parse_turn_def Let_def)
      from whole_frame_sound [OF Some None _ this] False show ?thesis
        by (auto simp: ready_def split: sum.splits)
    qed
  qed
qed

lemma ready_read:
  "read_effect out n s out' n' s' \<Longrightarrow> ready zl s' = ready zl s"
  unfolding read_effect_def ready_def deflateCtx_asm by auto

lemma ensureBytes_sock_open: "ensureBytes need s = (r, s1) \<Longrightarrow> sock_open (sock s1) = sock_open (sock s)"
  by (auto simp: ensureBytes_def Let_def flushBatch_def split: prod.splits if_splits dest!: fill_buffer_stream)

lemma read_more_sock_open: "read_more need out n s = (Inr u, out', n', s') \<Longrightarrow> sock_open (sock s') = sock_open (sock s)"
  by (auto simp: read_more_def caught_def split: if_splits prod.splits sum.splits dest!: ensureBytes_sock_open)

lemma receive_turn_sound:
  assumes turn: "receive_turn zl now out n s = (x, out', n', s')" and m: "maxMessageSize s + 14 < size_modulus"
  shows "case x of
      Inr _ \<Rightarrow> n < kMaxFramesPerBatch \<and> (read_effect out n s out' n' s' \<or> frame_effect zl out n s out' n' s')
    | Inl r \<Rightarrow> (r = Inr True \<longrightarrow> out' = out \<and> n' = n \<and> s' = s \<and> (n \<ge> kMaxFramesPerBatch \<or> out \<noteq> [] \<and> stuck s))
        \<and> (r \<noteq> Inr True \<longrightarrow> n < kMaxFramesPerBatch \<and> (sock_open (sock s) \<longrightarrow> \<not> ready zl s))"
proof (cases "n \<ge> kMaxFramesPerBatch")
  case True
  then show ?thesis using turn by (auto simp: receive_turn_def)
next
  case n: False
  show ?thesis
  proof (cases "length (readBuf s) < 2")
    case short: True
    then have st: "stuck s" by (simp add: stuck_def next_frame_short)
    obtain y out1 n1 s1 where more: "read_more 2 out n s = (y, out1, n1, s1)" by (metis prod_cases4)
    show ?thesis
    proof (cases y)
      case (Inl r)
      have nr: "\<not> ready zl s" if "ensureBytes 2 s = (Inl e, t)" "sock_open (sock s)" for e t
        using ensureBytes_fails [OF that] by (simp add: ready_def next_frame_short)
      have "(x, out', n', s') = (Inl r, out1, n1, s1)" using turn n short more Inl by (simp add: receive_turn_def)
      then show ?thesis using read_more_sound [OF more short] Inl n st nr by auto
    next
      case (Inr u)
      have rd: "read_effect out n s out1 n1 s1" "out = []" using read_more_sound [OF more short] Inr by auto
      have o: "sock_open (sock s1) = sock_open (sock s)" using read_more_sock_open more Inr by blast
      have "parse_turn zl now out1 n1 s1 = (x, out', n', s')" using turn n short more Inr by (simp add: receive_turn_def)
      moreover have "maxMessageSize s1 + 14 < size_modulus" using rd m by (simp add: read_effect_def)
      ultimately have p: "case x of
          Inr _ \<Rightarrow> read_effect out1 n1 s1 out' n' s' \<or> frame_effect zl out1 n1 s1 out' n' s'
        | Inl r \<Rightarrow> (r = Inr True \<longrightarrow> out1 \<noteq> [] \<and> out' = out1 \<and> n' = n1 \<and> s' = s1 \<and> stuck s1)
            \<and> (r \<noteq> Inr True \<longrightarrow> sock_open (sock s1) \<longrightarrow> \<not> ready zl s1)"
        by (rule parse_turn_sound)
      have trans: "read_effect out1 n1 s1 out' n' s' \<Longrightarrow> read_effect out n s out' n' s'"
        using rd(1) by (auto simp: read_effect_def)
      have "out1 = []" using rd by (simp add: read_effect_def)
      then show ?thesis using p n o trans read_effect_frame [OF rd(1)] ready_read [OF rd(1), of zl]
        by (auto split: sum.splits)
    qed
  next
    case False
    then have "parse_turn zl now out n s = (x, out', n', s')" using turn n by (simp add: receive_turn_def)
    from parse_turn_sound [OF this m] n show ?thesis by (auto split: sum.splits)
  qed
qed

lemma queueFrame_sock_open [simp]: "sock_open (sock (queueFrame opc p s)) = sock_open (sock s)"
  by (simp add: queueFrame_def queueFrameLocked_def Let_def)

lemma whole_frame_sock_open:
  "whole_frame zl now h fs out n s = (Inr u, out', n', s') \<Longrightarrow> sock_open (sock s') = sock_open (sock s)"
  by (auto simp: whole_frame_def Let_def data_frame_def refuse_def finish_message_def
      split: if_splits option.splits prod.splits sum.splits)

lemma parse_turn_sock_open:
  "parse_turn zl now out n s = (Inr u, out', n', s') \<Longrightarrow> sock_open (sock s') = sock_open (sock s)"
  by (auto simp: parse_turn_def refuse_def Let_def split: option.splits if_splits
      dest: read_more_sock_open whole_frame_sock_open)

lemma receive_turn_sock_open:
  "receive_turn zl now out n s = (Inr u, out', n', s') \<Longrightarrow> sock_open (sock s') = sock_open (sock s)"
  by (auto simp: receive_turn_def split: if_splits prod.splits sum.splits
      dest: parse_turn_sock_open read_more_sock_open)

text \<open>Leaving the loop adds no message.\<close>

lemma parse_turn_out: "parse_turn zl now out n s = (Inl r, out', n', s') \<Longrightarrow> out' = out"
  by (auto simp: parse_turn_def refuse_def Let_def read_more_def caught_def whole_frame_def data_frame_def
      finish_message_def split: option.splits if_splits sum.splits prod.splits)

lemma receive_turn_out: "receive_turn zl now out n s = (Inl r, out', n', s') \<Longrightarrow> out' = out"
  by (auto simp: receive_turn_def read_more_def caught_def split: if_splits prod.splits sum.splits dest!: parse_turn_out)

lemma decode_frame:
  assumes "frame_effect zl out n s out' n' s'"
  shows "\<exists>ms ps. out' = out @ ms \<and> n' = Suc n \<and> maxMessageSize s' = maxMessageSize s
    \<and> (\<forall>k. decode zl (maxMessageSize s) (Suc k) (asm s) (stream s) =
         (case decode zl (maxMessageSize s) k (asm s') (stream s') of
            None \<Rightarrow> None | Some (a, ms', ps', rest) \<Rightarrow> Some (a, ms @ ms', ps @ ps', rest)))
    \<and> (writes_ok s \<longrightarrow> wire_out s' = wire_out s @ pongs ps \<and> writes_ok s' \<and> ws_open s' = ws_open s)"
  using assms unfolding frame_effect_def deflateCtx_asm by fastforce

lemma not_ready_decode: "\<not> ready zl s \<Longrightarrow> decode zl (maxMessageSize s) (Suc k) (asm s) (stream s) = None"
  by (auto simp: ready_def deflateCtx_asm split: option.splits)

lemma receive_loop_exact:
  assumes "receive_loop zl now out n s = (r, out', s')" and "maxMessageSize s + 14 < size_modulus"
    and "sock_open (sock s)" and "n \<le> kMaxFramesPerBatch"
  shows "\<exists>k a ms ps rest. n + k \<le> kMaxFramesPerBatch \<and> out' = out @ ms
    \<and> decode zl (maxMessageSize s) k (asm s) (stream s) = Some (a, ms, ps, rest)
    \<and> (if r = Inr True
       then a = asm s' \<and> rest = stream s' \<and> (n + k = kMaxFramesPerBatch \<or> out' \<noteq> [] \<and> stuck s')
         \<and> (writes_ok s \<longrightarrow> wire_out s' = wire_out s @ pongs ps \<and> writes_ok s' \<and> ws_open s' = ws_open s)
       else n + k < kMaxFramesPerBatch \<and> decode zl (maxMessageSize s) (Suc k) (asm s) (stream s) = None)"
  using assms
proof (induction zl now out n s arbitrary: r out' s' rule: receive_loop.induct)
  case (1 zl now out n s)
  obtain x out1 n1 s1 where turn: "receive_turn zl now out n s = (x, out1, n1, s1)" by (metis prod_cases4)
  note sound = receive_turn_sound [OF turn 1(3)]
  show ?case
  proof (cases x)
    case (Inl q)
    have "(r, out', s') = (q, out1, s1)" using 1(2) turn Inl by (subst (asm) receive_loop.simps) simp
    moreover have "out1 = out" using receive_turn_out turn Inl by blast
    ultimately show ?thesis using sound Inl 1(4,5)
      by (intro exI [of _ 0]) (auto simp: not_ready_decode simp del: decode.simps(2))
  next
    case (Inr u)
    have loop: "receive_loop zl now out1 n1 s1 = (r, out', s')"
      using 1(2) turn Inr by (subst (asm) receive_loop.simps) simp
    have o: "sock_open (sock s1)" using receive_turn_sock_open turn Inr 1(4) by blast
    from sound Inr have n: "n < kMaxFramesPerBatch"
      and eff: "read_effect out n s out1 n1 s1 \<or> frame_effect zl out n s out1 n1 s1" by auto
    note IH = 1(1) [OF turn [symmetric] Inr refl refl loop _ o]
    have n1: "n1 \<le> kMaxFramesPerBatch" and m1: "maxMessageSize s1 = maxMessageSize s"
      using eff n by (auto simp: read_effect_def frame_effect_def)
    have "maxMessageSize s1 + 14 < size_modulus" using m1 1(3) by simp
    from IH [OF this n1] obtain k a ms' ps' rest where k: "n1 + k \<le> kMaxFramesPerBatch" "out' = out1 @ ms'"
      "decode zl (maxMessageSize s) k (asm s1) (stream s1) = Some (a, ms', ps', rest)"
      "if r = Inr True
       then a = asm s' \<and> rest = stream s' \<and> (n1 + k = kMaxFramesPerBatch \<or> out' \<noteq> [] \<and> stuck s')
         \<and> (writes_ok s1 \<longrightarrow> wire_out s' = wire_out s1 @ pongs ps' \<and> writes_ok s' \<and> ws_open s' = ws_open s1)
       else n1 + k < kMaxFramesPerBatch \<and> decode zl (maxMessageSize s) (Suc k) (asm s1) (stream s1) = None"
      unfolding m1 by (elim exE conjE)
    from eff show ?thesis
    proof
      assume rd: "read_effect out n s out1 n1 s1"
      then have rd': "out1 = out" "n1 = n" "stream s1 = stream s" "asm s1 = asm s"
        "writes_ok s \<Longrightarrow> wire_out s1 = wire_out s \<and> writes_ok s1 \<and> ws_open s1 = ws_open s"
        by (simp_all add: read_effect_def)
      show ?thesis using k unfolding rd'(1-4)
        by (intro exI [of _ k] exI [of _ a] exI [of _ ms'] exI [of _ ps'] exI [of _ rest])
          (auto simp: rd'(5) simp del: decode.simps)
    next
      assume "frame_effect zl out n s out1 n1 s1"
      from decode_frame [OF this] obtain ms ps where f: "out1 = out @ ms" "n1 = Suc n"
        "\<And>k. decode zl (maxMessageSize s) (Suc k) (asm s) (stream s) =
         (case decode zl (maxMessageSize s) k (asm s1) (stream s1) of
            None \<Rightarrow> None | Some (a, ms', ps', rest) \<Rightarrow> Some (a, ms @ ms', ps @ ps', rest))"
        "writes_ok s \<Longrightarrow> wire_out s1 = wire_out s @ pongs ps \<and> writes_ok s1 \<and> ws_open s1 = ws_open s"
        by blast
      show ?thesis using k
        by (intro exI [of _ "Suc k"] exI [of _ a] exI [of _ "ms @ ms'"] exI [of _ "ps @ ps'"] exI [of _ rest])
          (auto simp: f simp del: decode.simps)
    qed
  qed
qed

text \<open>A close reply is only noted when the loop is left with the connection at its end.\<close>

lemma closeReplyPending_writing [simp]:
  "closeReplyPending (writeBatchLocked s) = closeReplyPending s" "closeReplyPending (flushBatch s) = closeReplyPending s"
  "closeReplyPending (queueFrame opc p s) = closeReplyPending s" "closeReplyPending (consumeBytes n s) = closeReplyPending s"
proof -
  show w: "closeReplyPending (writeBatchLocked s) = closeReplyPending s" for s :: "'z WsSession"
    by (auto simp: writeBatchLocked_def split: prod.splits sum.splits)
  show "closeReplyPending (flushBatch s) = closeReplyPending s"
    "closeReplyPending (queueFrame opc p s) = closeReplyPending s" "closeReplyPending (consumeBytes n s) = closeReplyPending s"
    by (simp_all add: flushBatch_def queueFrame_def queueFrameLocked_def consumeBytes_def Let_def w)
qed

lemma read_more_reply: "read_more need out n s = (Inr u, out', n', s') \<Longrightarrow> closeReplyPending s' = closeReplyPending s"
  by (auto simp: read_more_def caught_def ensureBytes_def Let_def split: if_splits prod.splits sum.splits)

lemma parse_turn_reply: "parse_turn zl now out n s = (Inr u, out', n', s') \<Longrightarrow> closeReplyPending s' = closeReplyPending s"
  by (auto simp: parse_turn_def refuse_def Let_def whole_frame_def data_frame_def finish_message_def recordPongReceived_def
      split: option.splits if_splits prod.splits sum.splits dest: read_more_reply)

lemma receive_turn_reply: "receive_turn zl now out n s = (Inr u, out', n', s') \<Longrightarrow> closeReplyPending s' = closeReplyPending s"
  by (auto simp: receive_turn_def split: if_splits prod.splits sum.splits dest: parse_turn_reply read_more_reply)

lemma receive_loop_reply:
  assumes "receive_loop zl now out n s = (Inr True, out', s')" and "maxMessageSize s + 14 < size_modulus"
  shows "closeReplyPending s' = closeReplyPending s"
  using assms
proof (induction zl now out n s arbitrary: out' s' rule: receive_loop.induct)
  case (1 zl now out n s)
  obtain x out1 n1 s1 where turn: "receive_turn zl now out n s = (x, out1, n1, s1)" by (metis prod_cases4)
  note sound = receive_turn_sound [OF turn 1(3)]
  show ?case
  proof (cases x)
    case (Inl q)
    have "(Inr True, out', s') = (q, out1, s1)" using 1(2) turn Inl by (subst (asm) receive_loop.simps) simp
    then show ?thesis using sound Inl by auto
  next
    case (Inr u)
    have loop: "receive_loop zl now out1 n1 s1 = (Inr True, out', s')"
      using 1(2) turn Inr by (subst (asm) receive_loop.simps) simp
    have "maxMessageSize s1 = maxMessageSize s" using sound Inr by (auto simp: read_effect_def frame_effect_def)
    then show ?thesis using 1(1) [OF turn [symmetric] Inr refl refl loop] 1(3) receive_turn_reply turn Inr by metis
  qed
qed

end
