(* ===== verification/Ws_Messages.thy ===== *)
theory Ws_Messages
  imports Ws_Session
begin

text \<open>
  What the WebSocket session delivers: the messages of the peer's byte stream, in order and within
  the size limit, however the stream is cut into segments, frames and fragments; and the case in
  which the single-message interface reports the end of a connection that is still open.
\<close>

section \<open>Frames of a client\<close>

lemma next_frame_client:
  assumes "length key = 4" and "opc AND 0x0F = opc" and "length p \<le> m" and "m < 2 ^ 64"
    and "opc \<ge> 8 \<Longrightarrow> length p \<le> 125"
  shows "next_frame d m (buildMaskedWsFrame opc p key fn False @ rest)
    = Some (expected_header opc fn False (Some key) (length p), p, rest)"
proof -
  let ?h = "expected_header opc fn False (Some key) (length p)"
  let ?body = "if length p > 0 then unmaskPayload p key else []"
  have body: "?body = xor_mask p key" using unmaskPayload_xor [OF assms(1), of p] by auto
  have frame: "buildMaskedWsFrame opc p key fn False @ rest
      = (frame_byte0 opc fn False # frame_length_bytes 0x80 (length p) @ key) @ xor_mask p key @ rest"
    unfolding buildMaskedWsFrame_def body by simp
  have parse: "parseWsFrameHeader (buildMaskedWsFrame opc p key fn False @ rest) = Some ?h"
    using parse_masked_header [OF assms(1), of opc fn False "length p" "xor_mask p key @ rest"] frame by simp
  have len: "unat (word_of_nat (length p) :: u64) = length p" using assms(3,4) by (simp add: unat_of_nat)
  have ok: "header_violation d m ?h = None"
  proof -
    have "\<not> (opc \<ge> 8 \<and> (word_of_nat (length p) :: u64) > 125)"
      using assms(5) len by (auto simp: word_less_nat_alt)
    then show ?thesis using assms(2,3) len by (auto simp: header_violation_def expected_header_def)
  qed
  have hs: "length (frame_byte0 opc fn False # frame_length_bytes 0x80 (length p) @ key) = headerSize ?h"
    using assms(1) by (simp add: expected_header_def length_frame_length_bytes)
  have pl: "unat (payloadLength ?h) = length p" using len by (simp add: expected_header_def)
  have mk: "maskKey ?h = key" by (simp add: expected_header_def)
  show ?thesis
    unfolding next_frame_def parse option.case pl mk
    unfolding frame hs [symmetric] using ok by (simp add: xor_mask_involutive del: append_Cons length_Cons)
qed

lemma decode_client:
  assumes "length key = 4" and "opc AND 0x0F = opc" and "length p \<le> m" and "m < 2 ^ 64"
    and "opc \<ge> 8 \<Longrightarrow> length p \<le> 125"
  shows "decode zl m (Suc k) a (buildMaskedWsFrame opc p key fn False @ rest) =
    (case accept zl m a (expected_header opc fn False (Some key) (length p)) p of
       None \<Rightarrow> None
     | Some (a1, ms, ps) \<Rightarrow>
         (case decode zl m k a1 rest of None \<Rightarrow> None | Some (a2, ms', ps', rest') \<Rightarrow> Some (a2, ms @ ms', ps @ ps', rest')))"
  using next_frame_client [OF assms] by simp

text \<open>A message as a client sends it: its type and its fragments, each with the mask of its frame.\<close>

type_synonym client_message = "WsOpcode \<times> (byte list \<times> byte list) list"

fun encode_fragments :: "WsOpcode \<Rightarrow> (byte list \<times> byte list) list \<Rightarrow> byte list" where
  "encode_fragments opc [] = []"
| "encode_fragments opc ((p, key) # fs) =
     buildMaskedWsFrame opc p key (fs = []) False @ encode_fragments opContinuation fs"

definition encode_message :: "client_message \<Rightarrow> byte list" where
  "encode_message m = encode_fragments (fst m) (snd m)"

definition plain :: "client_message \<Rightarrow> WsMessage" where
  "plain m = \<lparr>msg_type = fst m, msg_data = concat (map fst (snd m))\<rparr>"

definition sendable :: "nat \<Rightarrow> client_message \<Rightarrow> bool" where
  "sendable maxSize m \<longleftrightarrow> fst m \<in> {opText, opBinary} \<and> snd m \<noteq> [] \<and> (\<forall>f\<in>set (snd m). length (snd f) = 4)
     \<and> length (concat (map fst (snd m))) \<le> maxSize"

lemma decode_continuation:
  "fs \<noteq> [] \<Longrightarrow> \<forall>f\<in>set fs. length (snd f) = 4 \<Longrightarrow> m < 2 ^ 64 \<Longrightarrow> as_deflate a = None \<Longrightarrow>
   length (as_buf a @ concat (map fst fs)) \<le> m \<Longrightarrow>
   decode zl m (length fs) a (encode_fragments opContinuation fs @ rest)
     = Some (a\<lparr>as_buf := []\<rparr>, [\<lparr>msg_type = as_opcode a, msg_data = as_buf a @ concat (map fst fs)\<rparr>], [], rest)"
proof (induction fs arbitrary: a)
  case (Cons f fs)
  obtain p key where f: "f = (p, key)" by fastforce
  have acc: "accept zl m a (expected_header opContinuation (fs = []) False (Some key) (length p)) p =
     Some (if fs = [] then (a\<lparr>as_buf := []\<rparr>, [\<lparr>msg_type = as_opcode a, msg_data = as_buf a @ p\<rparr>], [])
           else (a\<lparr>as_buf := as_buf a @ p\<rparr>, [], []))"
    using Cons.prems f by (simp add: accept_def expected_header_def complete_message_def Let_def)
  have "decode zl m (length fs) (a\<lparr>as_buf := as_buf a @ p\<rparr>) (encode_fragments opContinuation fs @ rest)
     = Some (a\<lparr>as_buf := []\<rparr>, [\<lparr>msg_type = as_opcode a, msg_data = as_buf a @ p @ concat (map fst fs)\<rparr>], [], rest)"
    if "fs \<noteq> []"
    using Cons.IH [of "a\<lparr>as_buf := as_buf a @ p\<rparr>"] Cons.prems that f by simp
  moreover have "decode zl m (Suc (length fs)) a (buildMaskedWsFrame opContinuation p key (fs = []) False
      @ encode_fragments opContinuation fs @ rest) =
    (case accept zl m a (expected_header opContinuation (fs = []) False (Some key) (length p)) p of
       None \<Rightarrow> None
     | Some (a1, ms, ps) \<Rightarrow>
         (case decode zl m (length fs) a1 (encode_fragments opContinuation fs @ rest) of
            None \<Rightarrow> None | Some (a2, ms', ps', rest') \<Rightarrow> Some (a2, ms @ ms', ps @ ps', rest')))"
    by (rule decode_client) (use Cons.prems f in auto)
  ultimately show ?case unfolding f using acc by (cases "fs = []") auto
qed simp

lemma decode_message:
  assumes "sendable m c" and "m < 2 ^ 64" and "as_deflate a = None"
  shows "\<exists>a'. as_deflate a' = None \<and> decode zl m (length (snd c)) a (encode_message c @ rest) = Some (a', [plain c], [], rest)"
proof -
  obtain opc p key fs where c: "c = (opc, (p, key) # fs)"
    using assms(1) by (cases c; cases "snd c") (auto simp: sendable_def)
  let ?a = "a\<lparr>as_buf := p, as_opcode := opc, as_compressed := False\<rparr>"
  have op: "opc = opText \<or> opc = opBinary" and small: "\<not> opc \<ge> 8" and len: "length p + length (concat (map fst fs)) \<le> m"
    using assms(1) by (auto simp: sendable_def c word_le_nat_alt)
  have acc: "accept zl m a (expected_header opc (fs = []) False (Some key) (length p)) p =
     Some (if fs = [] then (?a\<lparr>as_buf := []\<rparr>, [plain c], []) else (?a, [], []))"
    using op len assms(3) by (auto simp: accept_def expected_header_def complete_message_def Let_def plain_def c)
  have more: "decode zl m (length fs) ?a (encode_fragments opContinuation fs @ rest) = Some (?a\<lparr>as_buf := []\<rparr>, [plain c], [], rest)"
    if "fs \<noteq> []"
    using decode_continuation [OF that, of m ?a zl rest] assms len by (simp add: sendable_def c plain_def)
  have "decode zl m (Suc (length fs)) a (buildMaskedWsFrame opc p key (fs = []) False
      @ encode_fragments opContinuation fs @ rest) =
    (case accept zl m a (expected_header opc (fs = []) False (Some key) (length p)) p of
       None \<Rightarrow> None
     | Some (a1, ms, ps) \<Rightarrow>
         (case decode zl m (length fs) a1 (encode_fragments opContinuation fs @ rest) of
            None \<Rightarrow> None | Some (a2, ms', ps', rest') \<Rightarrow> Some (a2, ms @ ms', ps @ ps', rest')))"
    by (rule decode_client) (use assms op c small in \<open>auto simp: sendable_def\<close>)
  then have "decode zl m (length (snd c)) a (encode_message c @ rest) = Some (?a\<lparr>as_buf := []\<rparr>, [plain c], [], rest)"
    using acc more by (cases "fs = []") (auto simp: c encode_message_def)
  then show ?thesis using assms(3) by (intro exI [of _ "?a\<lparr>as_buf := []\<rparr>"]) simp
qed

section \<open>Decoding more frames\<close>

lemma decode_add:
  "decode zl m (j + k) a bs =
    (case decode zl m j a bs of
       None \<Rightarrow> None
     | Some (a1, ms, ps, rest) \<Rightarrow>
         (case decode zl m k a1 rest of
            None \<Rightarrow> None | Some (a2, ms', ps', rest') \<Rightarrow> Some (a2, ms @ ms', ps @ ps', rest')))"
  by (induction j arbitrary: a bs) (auto split: option.splits)

lemma decode_messages:
  assumes "\<forall>c\<in>set cs. sendable m c" and "m < 2 ^ 64" and "as_deflate a = None"
  shows "\<exists>a'. decode zl m ((\<Sum>c\<leftarrow>cs. length (snd c))) a (concat (map encode_message cs)) = Some (a', map plain cs, [], [])"
  using assms
proof (induction cs arbitrary: a)
  case (Cons c cs)
  obtain a1 where a1: "as_deflate a1 = None"
    "decode zl m (length (snd c)) a (encode_message c @ concat (map encode_message cs))
      = Some (a1, [plain c], [], concat (map encode_message cs))"
    using decode_message [of m c a zl "concat (map encode_message cs)"] Cons.prems by auto
  obtain a2 where "decode zl m ((\<Sum>c\<leftarrow>cs. length (snd c))) a1 (concat (map encode_message cs)) = Some (a2, map plain cs, [], [])"
    using Cons.IH [OF _ _ a1(1)] Cons.prems by auto
  then show ?case using a1 by (simp add: decode_add)
qed simp

lemma decode_nothing [simp]: "decode zl m (Suc k) a [] = None"
  by (simp add: next_frame_short)

text \<open>Against a full decoding that uses the stream up, every shorter one is a prefix.\<close>

lemma decode_prefix:
  assumes "decode zl m K a bs = Some (a', ms', ps', [])" and "decode zl m k a bs = Some (a1, ms, ps, rest)"
  shows "k \<le> K \<and> (\<exists>more pmore. ms' = ms @ more \<and> ps' = ps @ pmore \<and> (k = K \<longrightarrow> more = [] \<and> pmore = []))"
proof (cases "k \<le> K")
  case True
  then show ?thesis using assms decode_add [of zl m k "K - k" a bs]
    by (cases "k = K") (auto split: option.splits)
next
  case False
  then have "decode zl m k a bs = None" using assms(1) decode_add [of zl m K "Suc (k - K - 1)" a bs]
    by (simp add: next_frame_short)
  then show ?thesis using assms(2) by simp
qed

lemma decode_shorter: "decode zl m K a bs = Some r \<Longrightarrow> k \<le> K \<Longrightarrow> decode zl m k a bs \<noteq> None"
  using decode_add [of zl m k "K - k" a bs] by (auto split: option.splits)

section \<open>Sizes\<close>

lemma complete_message_size:
  assumes "complete_message zl m a = Some (a', msg)" and "zlib_ok zl" and "0 < m" and "length (as_buf a) \<le> m"
  shows "length (msg_data msg) \<le> (if as_deflate a = None then m else max 4096 (2 * m))
    \<and> length (as_buf a') \<le> m \<and> (as_deflate a' = None \<longleftrightarrow> as_deflate a = None)"
proof (cases "if as_compressed a then as_deflate a else None")
  case None
  then show ?thesis using assms by (auto simp: complete_message_def)
next
  case (Some ctx)
  then have d: "as_deflate a \<noteq> None" by (auto split: if_splits)
  obtain data ctx' where dec: "decompress zl ctx (as_buf a) m = Some (Inr data, ctx')"
    and r: "a' = a\<lparr>as_deflate := Some ctx'\<rparr>" "msg_data msg = data"
    using assms(1) Some by (auto simp: complete_message_def split: option.splits sum.splits)
  obtain q c where "decompress zl ctx (as_buf a) m = Some (q, c)"
    "case q of Inl _ \<Rightarrow> True | Inr y \<Rightarrow> length y \<le> max 4096 (2 * m)"
    using decompress_bounded [OF assms(2,3), of ctx "as_buf a"] by blast
  then show ?thesis using dec r d assms(4) by auto
qed

lemma accept_size:
  assumes "accept zl m a h p = Some (a', ms, ps)" and "zlib_ok zl" and "0 < m" and "length (as_buf a) \<le> m"
  shows "(\<forall>msg\<in>set ms. length (msg_data msg) \<le> (if as_deflate a = None then m else max 4096 (2 * m)))
    \<and> length (as_buf a') \<le> m \<and> (as_deflate a' = None \<longleftrightarrow> as_deflate a = None)"
proof (cases "opcode h \<in> {opText, opBinary, opContinuation} \<and> fin h")
  case False
  then show ?thesis using assms by (auto simp: accept_def Let_def split: if_splits)
next
  case True
  define a1 where "a1 = (if opcode h = opContinuation then a
                  else a\<lparr>as_buf := [], as_opcode := opcode h, as_compressed := rsv1 h\<rparr>)"
  define a2 where "a2 = a1\<lparr>as_buf := as_buf a1 @ p\<rparr>"
  have "accept zl m a h p = (if length (as_buf a2) > m then None
      else case complete_message zl m a2 of None \<Rightarrow> None | Some (a3, msg) \<Rightarrow> Some (a3, [msg], []))"
    using True unfolding accept_def a2_def a1_def by (auto simp: Let_def)
  then obtain msg where c: "complete_message zl m a2 = Some (a', msg)" "ms = [msg]" "length (as_buf a2) \<le> m"
    using assms(1) by (auto split: if_splits option.splits)
  moreover have "as_deflate a2 = as_deflate a" by (simp add: a2_def a1_def)
  ultimately show ?thesis using complete_message_size [OF c(1) assms(2,3) c(3)] by simp
qed

lemma decode_size:
  "decode zl m k a bs = Some (a', ms, ps, rest) \<Longrightarrow> zlib_ok zl \<Longrightarrow> 0 < m \<Longrightarrow> length (as_buf a) \<le> m \<Longrightarrow>
   (\<forall>msg\<in>set ms. length (msg_data msg) \<le> (if as_deflate a = None then m else max 4096 (2 * m)))
    \<and> length (as_buf a') \<le> m"
proof (induction k arbitrary: a bs a' ms ps rest)
  case (Suc k)
  from Suc.prems(1) obtain h p r1 a1 ms1 ps1 ms2 ps2 where
    acc: "accept zl m a h p = Some (a1, ms1, ps1)" and dec: "decode zl m k a1 r1 = Some (a', ms2, ps2, rest)" and ms: "ms = ms1 @ ms2"
    by (auto split: option.splits)
  from accept_size [OF acc Suc.prems(2-4)] Suc.IH [OF dec Suc.prems(2,3)] show ?case by (auto simp: ms split: if_splits)
qed simp

lemma receiveBatch_exact:
  assumes "receiveBatch zl now s = (r, out, s')" and "maxMessageSize s + 14 < 2 ^ 64" and "sock_open (sock s)"
  shows "\<exists>k a ps rest. k \<le> kMaxFramesPerBatch
    \<and> decode zl (maxMessageSize s) k (asm s) (stream s) = Some (a, out, ps, rest)
    \<and> (if r = Inr True
       then a = asm s' \<and> rest = stream s' \<and> (k = kMaxFramesPerBatch \<or> out \<noteq> [] \<and> stuck s')
         \<and> (writes_ok s \<longrightarrow> wire_out s' = wire_out s @ pongs ps \<and> writes_ok s' \<and> ws_open s' = ws_open s)
       else k < kMaxFramesPerBatch \<and> decode zl (maxMessageSize s) (Suc k) (asm s) (stream s) = None)"
proof -
  have "maxMessageSize s + 14 < size_modulus" using assms(2) by (simp add: size_modulus_def)
  from receive_loop_exact [OF assms(1) [unfolded receiveBatch_def] this assms(3) le0]
  show ?thesis unfolding add_0 append_Nil by (elim exE conjE) (intro exI conjI, assumption+, simp)
qed

text \<open>A batch over a stream that is made of whole frames only.\<close>

lemma batch_of_whole_stream:
  assumes "receiveBatch zl now s = (r, out, s')" and "maxMessageSize s + 14 < 2 ^ 64" and "sock_open (sock s)"
    and full: "decode zl (maxMessageSize s) K (asm s) (stream s) = Some (a', ms, ps', [])"
  shows "\<exists>k more pmore ps. k \<le> K \<and> k \<le> kMaxFramesPerBatch \<and> ms = out @ more \<and> ps' = ps @ pmore
    \<and> (\<exists>a rest. decode zl (maxMessageSize s) k (asm s) (stream s) = Some (a, out, ps, rest))
    \<and> (if r = Inr True
       then (k = kMaxFramesPerBatch \<or> out \<noteq> [])
         \<and> (writes_ok s \<longrightarrow> wire_out s' = wire_out s @ pongs ps \<and> writes_ok s' \<and> ws_open s' = ws_open s)
       else k = K \<and> k < kMaxFramesPerBatch \<and> more = [])"
proof -
  obtain k a ps rest where k: "k \<le> kMaxFramesPerBatch"
    "decode zl (maxMessageSize s) k (asm s) (stream s) = Some (a, out, ps, rest)"
    "if r = Inr True
     then a = asm s' \<and> rest = stream s' \<and> (k = kMaxFramesPerBatch \<or> out \<noteq> [] \<and> stuck s')
       \<and> (writes_ok s \<longrightarrow> wire_out s' = wire_out s @ pongs ps \<and> writes_ok s' \<and> ws_open s' = ws_open s)
     else k < kMaxFramesPerBatch \<and> decode zl (maxMessageSize s) (Suc k) (asm s) (stream s) = None"
    using receiveBatch_exact [OF assms(1-3)] by blast
  obtain more pmore where p: "k \<le> K" "ms = out @ more" "ps' = ps @ pmore" "k = K \<Longrightarrow> more = []"
    using decode_prefix [OF full k(2)] by blast
  have "k = K" if "r \<noteq> Inr True"
    using that k(3) p(1) decode_shorter [OF full, of "Suc k"] by (cases "Suc k \<le> K") (auto simp del: decode.simps)
  with k p show ?thesis by (intro exI [of _ k] exI [of _ more] exI [of _ pmore] exI [of _ ps]) (auto simp del: decode.simps)
qed

section \<open>A sample session\<close>

definition sample_ws :: "byte list list \<Rightarrow> byte list WsSession" where
  "sample_ws segs = \<lparr>sock = \<lparr>incoming = segs, in_end = Eof, sent = [], write_faults = [], sock_open = True\<rparr>,
     ws_open = True, maxMessageSize = 1024 * 1024, readBuf = [], readCap = 8192,
     fragmentBuf = [], fragmentOpcode = opText, fragmentCompressed = False, writeCount = 0,
     writeBatch = [], batching = False, closeReplyBuf = [], closeReplyPending = False,
     pending = [], pendingPos = 0, deflateCtx = None, lastPongTime = 0\<rparr>"

lemma sample_ws_simps [simp]:
  "maxMessageSize (sample_ws segs) = 1024 * 1024" "sock_open (sock (sample_ws segs))" "writes_ok (sample_ws segs)"
  "ws_open (sample_ws segs)" "stream (sample_ws segs) = concat segs" "deflateCtx (sample_ws segs) = None"
  "fragmentBuf (sample_ws segs) = []" "pending (sample_ws segs) = []" "pendingPos (sample_ws segs) = 0"
  "closeReplyPending (sample_ws segs) = False"
  by (simp_all add: sample_ws_def writes_ok_def stream_def)

text \<open>Two fragments under different masks, cut in the middle of the first header.\<close>

definition sample_message :: client_message where
  "sample_message = (opText, [([72, 105], [1, 2, 3, 4]), ([33], [9, 9, 9, 9])])"

lemma sample_sendable: "sendable (1024 * 1024) sample_message"
  by (simp add: sendable_def sample_message_def)

abbreviation sample_segments :: "byte list list" where
  "sample_segments \<equiv> [take 3 (encode_message sample_message), drop 3 (encode_message sample_message)]"

section \<open>Properties\<close>

text \<open>
  C21. What \<open>receiveBatch\<close> delivers is determined by the bytes the peer sent, not by the segments they
  came in: it is the messages of the first \<open>k\<close> frames of the stream. When the connection stays
  alive the rest of the stream is still there, every ping among the \<open>k\<close> frames is answered with its
  own payload, in order, and either 256 frames were handled or a message was found and the buffer
  holds no further complete frame. When it does not stay alive, the next frame is one the session
  cannot take (a close, a violation, the end of the stream, a message that does not inflate).
\<close>

theorem receive_follows_stream:
  assumes "receiveBatch zl now s = (r, out, s')" and "maxMessageSize s + 14 < 2 ^ 64" and "sock_open (sock s)"
  shows "\<exists>k a ps rest. k \<le> kMaxFramesPerBatch
    \<and> decode zl (maxMessageSize s) k (asm s) (stream s) = Some (a, out, ps, rest)
    \<and> (if r = Inr True
       then a = asm s' \<and> rest = stream s' \<and> (k = kMaxFramesPerBatch \<or> out \<noteq> [] \<and> stuck s')
         \<and> (writes_ok s \<longrightarrow> wire_out s' = wire_out s @ pongs ps \<and> writes_ok s' \<and> ws_open s' = ws_open s)
       else k < kMaxFramesPerBatch \<and> decode zl (maxMessageSize s) (Suc k) (asm s) (stream s) = None)"
  by (rule receiveBatch_exact [OF assms])

theorem receive_follows_stream_witness:
  "\<exists>k a ps rest. k \<le> kMaxFramesPerBatch
    \<and> decode store_zlib (1024 * 1024) k (asm (sample_ws sample_segments)) (encode_message sample_message)
        = Some (a, fst (snd (receiveBatch store_zlib 0 (sample_ws sample_segments))), ps, rest)"
proof -
  obtain r out s' where "receiveBatch store_zlib 0 (sample_ws sample_segments) = (r, out, s')" by (metis prod_cases3)
  from receive_follows_stream [OF this] this show ?thesis by auto
qed

text \<open>
  The application calls \<open>receiveBatch\<close> again and again, each time with a clock value, until a call does not answer
  that the connection goes on. Between calls it may do anything with the session, such as sending or flushing, that leaves the input alone.
\<close>

definition keeps_input :: "('z WsSession \<Rightarrow> 'z WsSession) \<Rightarrow> bool" where
  "keeps_input f \<longleftrightarrow> (\<forall>s. asm (f s) = asm s \<and> stream (f s) = stream s \<and> maxMessageSize (f s) = maxMessageSize s \<and> sock_open (sock (f s)) = sock_open (sock s))"

fun receive_calls :: "'z Zlib \<Rightarrow> (int \<times> ('z WsSession \<Rightarrow> 'z WsSession)) list \<Rightarrow> 'z WsSession \<Rightarrow> bool \<times> WsMessage list" where
  "receive_calls zl [] s = (True, [])"
| "receive_calls zl ((now, f) # cs) s =
     (case receiveBatch zl now s of
        (r, out, s') \<Rightarrow>
          if r = Inr True then (case receive_calls zl cs (f s') of (alive, out') \<Rightarrow> (alive, out @ out')) else (False, out))"

lemma receive_loop_keeps:
  "receive_loop zl now out n s = (Inr True, out', s') \<Longrightarrow> maxMessageSize s + 14 < size_modulus \<Longrightarrow>
     maxMessageSize s' = maxMessageSize s \<and> sock_open (sock s') = sock_open (sock s)"
proof (induction zl now out n s rule: receive_loop.induct)
  case (1 zl now out n s)
  obtain x out1 n1 s1 where turn: "receive_turn zl now out n s = (x, out1, n1, s1)" by (metis prod_cases4)
  note sound = receive_turn_sound [OF turn "1.prems"(2)]
  show ?case
  proof (cases x)
    case (Inl q)
    then have "q = Inr True" "s1 = s'" using "1.prems"(1) turn by (simp_all add: receive_loop.simps [of zl now out n s])
    then show ?thesis using sound Inl by simp
  next
    case (Inr u)
    then have "receive_loop zl now out1 n1 s1 = (Inr True, out', s')" using "1.prems"(1) turn by (simp add: receive_loop.simps [of zl now out n s])
    moreover have "maxMessageSize s1 = maxMessageSize s" using sound Inr by (auto simp: read_effect_def frame_effect_def)
    moreover have "sock_open (sock s1) = sock_open (sock s)" using receive_turn_sock_open turn Inr by blast
    ultimately show ?thesis using "1.IH" [OF turn [symmetric] Inr refl refl] "1.prems"(2) by simp
  qed
qed

lemma receive_calls_whole:
  "decode zl m K (asm s) (stream s) = Some (a', ms, ps', []) \<Longrightarrow> maxMessageSize s = m \<Longrightarrow> m + 14 < 2 ^ 64 \<Longrightarrow> sock_open (sock s) \<Longrightarrow>
     list_all (\<lambda>(_, f). keeps_input f) calls \<Longrightarrow> receive_calls zl calls s = (alive, out) \<Longrightarrow>
     \<exists>rest. ms = out @ rest \<and> (\<not> alive \<longrightarrow> rest = []) \<and> (K < length calls \<longrightarrow> \<not> alive)"
proof (induction calls arbitrary: K s ms ps' out)
  case (Cons c calls)
  obtain now f where c: "c = (now, f)" by fastforce
  obtain r o1 s' where b: "receiveBatch zl now s = (r, o1, s')" by (metis prod_cases3)
  have mx: "maxMessageSize s + 14 < 2 ^ 64" using Cons.prems(2,3) by simp
  from receiveBatch_exact [OF b mx Cons.prems(4), unfolded Cons.prems(2)] obtain k a ps rest where
    k: "decode zl m k (asm s) (stream s) = Some (a, o1, ps, rest)"
    "if r = Inr True then a = asm s' \<and> rest = stream s' \<and> (k = kMaxFramesPerBatch \<or> o1 \<noteq> [] \<and> stuck s')
       \<and> (writes_ok s \<longrightarrow> wire_out s' = wire_out s @ pongs ps \<and> writes_ok s' \<and> ws_open s' = ws_open s)
     else k < kMaxFramesPerBatch \<and> decode zl m (Suc k) (asm s) (stream s) = None" by blast
  have kK: "k \<le> K" using decode_prefix [OF Cons.prems(1) k(1)] by blast
  obtain ms2 ps2 where d2: "decode zl m (K - k) a rest = Some (a', ms2, ps2, [])" "ms = o1 @ ms2"
    using decode_add [of zl m k "K - k" "asm s" "stream s"] kK k(1) Cons.prems(1) by (auto split: option.splits)
  show ?case
  proof (cases "r = Inr True")
    case False
    then have "\<not> Suc k \<le> K" using k(2) decode_shorter [OF Cons.prems(1), of "Suc k"] by (auto simp del: decode.simps)
    then have "ms2 = []" using d2(1) kK by (simp add: le_antisym)
    then show ?thesis using Cons.prems(6) False b c d2(2) by simp
  next
    case True
    have pos: "0 < k" using k True by (cases k) (auto simp: kMaxFramesPerBatch_def)
    have keep: "maxMessageSize s' = m" "sock_open (sock s')"
      using receive_loop_keeps [of zl now "[]" 0 s o1 s'] b True Cons.prems(2-4) by (simp_all add: receiveBatch_def size_modulus_def)
    have f: "keeps_input f" "list_all (\<lambda>(_, f). keeps_input f) calls" using Cons.prems(5) c by simp_all
    obtain out2 where rc: "receive_calls zl calls (f s') = (alive, out2)" "out = o1 @ out2" using Cons.prems(6) b c True by (auto split: prod.splits)
    have "decode zl m (K - k) (asm (f s')) (stream (f s')) = Some (a', ms2, ps2, [])" using d2(1) k(2) True f(1) by (simp add: keeps_input_def)
    from Cons.IH [OF this _ Cons.prems(3) _ f(2) rc(1)] keep f(1) obtain rest2 where
      "ms2 = out2 @ rest2" "\<not> alive \<longrightarrow> rest2 = []" "K - k < length calls \<longrightarrow> \<not> alive" by (auto simp: keeps_input_def)
    moreover have "K - k < length calls" if "K < length (c # calls)" using that pos kK by simp
    ultimately show ?thesis using d2(2) rc(2) by (intro exI [of _ rest2]) auto
  qed
qed simp

lemma first_call_delivers:
  assumes "\<forall>c\<in>set cs. sendable (maxMessageSize s) c" and "cs \<noteq> []" and "length (snd (hd cs)) \<le> kMaxFramesPerBatch"
    and "stream s = concat (map encode_message cs)" and "deflateCtx s = None"
    and "maxMessageSize s + 14 < 2 ^ 64" and "sock_open (sock s)"
    and "receiveBatch zl now s = (r, out, s')"
  shows "out \<noteq> []"
proof -
  let ?m = "maxMessageSize s" and ?K = "\<Sum>c\<leftarrow>cs. length (snd c)"
  have a: "as_deflate (asm s) = None" using assms(5) by (simp add: asm_def)
  obtain a' where full: "decode zl ?m ?K (asm s) (stream s) = Some (a', map plain cs, [], [])"
    using decode_messages [OF assms(1) _ a, of zl] assms(4,6) by auto
  from batch_of_whole_stream [OF assms(8,6,7) full] obtain k more ps a1 rest where
    k: "k \<le> kMaxFramesPerBatch" "map plain cs = out @ more"
    "decode zl ?m k (asm s) (stream s) = Some (a1, out, ps, rest)"
    "r = Inr True \<longrightarrow> k = kMaxFramesPerBatch \<or> out \<noteq> []" "r \<noteq> Inr True \<longrightarrow> more = []"
    by (elim exE conjE) (simp split: if_splits)
  show "out \<noteq> []"
  proof (cases "r = Inr True \<and> k = kMaxFramesPerBatch")
    case True
    obtain c cs' where cs: "cs = c # cs'" using assms(2) by (cases cs) auto
    obtain a2 where "decode zl ?m (length (snd c)) (asm s) (stream s) = Some (a2, [plain c], [], concat (map encode_message cs'))"
      using decode_message [of ?m c "asm s" zl] assms(1,4,6) a by (auto simp: cs)
    then show ?thesis using k(3) True assms(3) decode_add [of zl ?m "length (snd c)" "k - length (snd c)" "asm s" "stream s"]
      by (auto simp: cs split: option.splits)
  next
    case False
    then show ?thesis using k(2,4,5) assms(2) by auto
  qed
qed

text \<open>
  C22. On a connection without compression, messages reach the application exactly as the client sent them and in
  the order sent, whatever the fragmentation of a message into frames, the masks and the segments of the
  transport, and whatever the application does between its calls of \<open>receiveBatch\<close> that leaves the input alone. What the calls yield together
  is a beginning of the messages sent. When a call reports the end of the connection all messages have been
  delivered, and this happens at the latest after as many calls as there are frames and one more. A call may yield no message, after 256 frames
  of one that is not complete; a first call yields one if the first message has at most 256 fragments.
\<close>

theorem ws_messages_in_order:
  assumes "\<forall>c\<in>set cs. sendable (maxMessageSize s) c" and "stream s = concat (map encode_message cs)" and "deflateCtx s = None"
    and "maxMessageSize s + 14 < 2 ^ 64" and "sock_open (sock s)" and "list_all (\<lambda>(_, f). keeps_input f) calls"
    and "receive_calls zl calls s = (alive, out)"
  shows "\<exists>rest. map plain cs = out @ rest \<and> (\<not> alive \<longrightarrow> rest = []) \<and> ((\<Sum>c\<leftarrow>cs. length (snd c)) < length calls \<longrightarrow> \<not> alive)
    \<and> (calls \<noteq> [] \<and> cs \<noteq> [] \<and> length (snd (hd cs)) \<le> kMaxFramesPerBatch \<longrightarrow> out \<noteq> [])"
proof -
  let ?m = "maxMessageSize s"
  have a: "as_deflate (asm s) = None" using assms(3) by (simp add: asm_def)
  obtain a' where full: "decode zl ?m (\<Sum>c\<leftarrow>cs. length (snd c)) (asm s) (stream s) = Some (a', map plain cs, [], [])"
    using decode_messages [OF assms(1) _ a, of zl] assms(4) unfolding assms(2) by fastforce
  have "out \<noteq> []" if ne: "calls \<noteq> []" "cs \<noteq> []" "length (snd (hd cs)) \<le> kMaxFramesPerBatch"
  proof -
    obtain x more where x: "calls = x # more" using ne(1) by (cases calls) simp_all
    obtain now f where "x = (now, f)" by fastforce
    then have c: "calls = (now, f) # more" using x by simp
    obtain r o1 s' where b: "receiveBatch zl now s = (r, o1, s')" by (metis prod_cases3)
    have "o1 \<noteq> []" by (rule first_call_delivers [OF assms(1) ne(2,3) assms(2-5) b])
    then show ?thesis using assms(7) unfolding c receive_calls.simps b prod.case by (cases "r = Inr True"; cases "receive_calls zl more (f s')") auto
  qed
  then have o: "calls \<noteq> [] \<and> cs \<noteq> [] \<and> length (snd (hd cs)) \<le> kMaxFramesPerBatch \<longrightarrow> out \<noteq> []" by blast
  from receive_calls_whole [OF full refl assms(4-7)] obtain rest where "map plain cs = out @ rest" "\<not> alive \<longrightarrow> rest = []"
    "(\<Sum>c\<leftarrow>cs. length (snd c)) < length calls \<longrightarrow> \<not> alive" by blast
  with o show ?thesis by blast
qed

theorem ws_messages_in_order_witness:
  "receive_calls store_zlib [(0, id), (1, id), (2, id)] (sample_ws sample_segments) = (False, [\<lparr>msg_type = opText, msg_data = [72, 105, 33]\<rparr>])"
proof -
  obtain alive out where b: "receive_calls store_zlib [(0, id), (1, id), (2, id)] (sample_ws sample_segments) = (alive, out)" by fastforce
  have "\<exists>rest. map plain [sample_message] = out @ rest \<and> (\<not> alive \<longrightarrow> rest = []) \<and> ((\<Sum>c\<leftarrow>[sample_message]. length (snd c)) < length [(0::int, id :: byte list WsSession \<Rightarrow> _), (1, id), (2, id)] \<longrightarrow> \<not> alive)
    \<and> ([(0::int, id :: byte list WsSession \<Rightarrow> _), (1, id), (2, id)] \<noteq> [] \<and> [sample_message] \<noteq> [] \<and> length (snd (hd [sample_message])) \<le> kMaxFramesPerBatch \<longrightarrow> out \<noteq> [])"
    by (rule ws_messages_in_order [OF _ _ _ _ _ _ b])
      (simp_all add: sample_sendable [simplified] keeps_input_def)
  then have "out = [plain sample_message]" "\<not> alive" by (auto simp: sample_message_def)
  then show ?thesis unfolding b by (simp add: plain_def sample_message_def)
qed

text \<open>
  No message handed to the application is larger than the configured limit when the connection
  does not compress; a compressed one may be up to twice as large (and up to 4096 bytes under a
  smaller limit), because the limit is tested before the last call of zlib only.
\<close>

theorem ws_message_bound:
  assumes "receiveBatch zl now s = (r, out, s')" and "zlib_ok zl" and "0 < maxMessageSize s"
    and "maxMessageSize s + 14 < 2 ^ 64" and "sock_open (sock s)" and "length (fragmentBuf s) \<le> maxMessageSize s"
    and "msg \<in> set out"
  shows "length (msg_data msg) \<le> (if deflateCtx s = None then maxMessageSize s else max 4096 (2 * maxMessageSize s))"
proof -
  obtain k a ps rest where "decode zl (maxMessageSize s) k (asm s) (stream s) = Some (a, out, ps, rest)"
    using receiveBatch_exact [OF assms(1,4,5)] by blast
  from decode_size [OF this assms(2,3)] assms(6,7) show ?thesis by (auto simp: asm_def)
qed

theorem ws_message_bound_witness:
  "list_all (\<lambda>msg. length (msg_data msg) \<le> 1024 * 1024) (fst (snd (receiveBatch store_zlib 0 (sample_ws sample_segments))))"
proof -
  obtain r out s' where b: "receiveBatch store_zlib 0 (sample_ws sample_segments) = (r, out, s')" by (metis prod_cases3)
  show ?thesis using ws_message_bound [OF b store_zlib_ok] by (simp add: b list_all_iff)
qed

section \<open>A burst of pings\<close>

definition encode_ping :: "byte list \<times> byte list \<Rightarrow> byte list" where
  "encode_ping f = buildMaskedWsFrame opPing (fst f) (snd f) True False"

lemma decode_pings:
  "\<forall>f\<in>set fs. length (fst f) \<le> 125 \<and> length (snd f) = 4 \<Longrightarrow> 125 \<le> m \<Longrightarrow> m < 2 ^ 64 \<Longrightarrow>
   decode zl m (length fs) a (concat (map encode_ping fs)) = Some (a, [], map fst fs, [])"
proof (induction fs)
  case (Cons f fs)
  have "decode zl m (Suc (length fs)) a (buildMaskedWsFrame opPing (fst f) (snd f) True False @ concat (map encode_ping fs)) =
    (case accept zl m a (expected_header opPing True False (Some (snd f)) (length (fst f))) (fst f) of
       None \<Rightarrow> None
     | Some (a1, ms, ps) \<Rightarrow>
         (case decode zl m (length fs) a1 (concat (map encode_ping fs)) of
            None \<Rightarrow> None | Some (a2, ms', ps', rest') \<Rightarrow> Some (a2, ms @ ms', ps @ ps', rest')))"
    by (rule decode_client) (use Cons.prems in auto)
  moreover have "accept zl m a (expected_header opPing True False (Some (snd f)) (length (fst f))) (fst f) = Some (a, [], [fst f])"
    by (simp add: accept_def expected_header_def)
  moreover have "decode zl m (length fs) a (concat (map encode_ping fs)) = Some (a, [], map fst fs, [])" using Cons by simp
  ultimately show ?case by (simp add: encode_ping_def [of f] del: decode.simps)
qed simp

lemma endBatch_open:
  assumes "writes_ok s" and "\<not> closeReplyPending s"
  shows "ws_open (endBatch s) = ws_open s \<and> pending (endBatch s) = pending s"
proof -
  let ?t = "s\<lparr>batching := False\<rparr>"
  have "writes_ok ?t" using assms(1) by (simp add: writes_ok_def)
  from flushBatch_out [OF this] have "ws_open (flushBatch ?t) = ws_open s" by simp
  moreover have "closeReplyPending (flushBatch ?t) = closeReplyPending s" "pending (flushBatch ?t) = pending s"
    by (auto simp: flushBatch_def writeBatchLocked_def split: prod.splits sum.splits)
  ultimately show ?thesis using assms(2) by (simp add: endBatch_def Let_def)
qed

text \<open>
  The single-message interface can report the end of a connection that is open: after a burst of
  256 pings \<open>receiveBatch\<close> hands control back without a message, and \<open>receiveInternal\<close> (and with
  it \<open>receive\<close> and \<open>receiveMessage\<close>) returns nothing, which its callers read as a closed connection.
\<close>

theorem pings_end_receive:
  assumes "length fs = kMaxFramesPerBatch" and "\<forall>f\<in>set fs. length (fst f) \<le> 125 \<and> length (snd f) = 4"
    and "stream s = concat (map encode_ping fs)" and "125 \<le> maxMessageSize s" and "maxMessageSize s + 14 < 2 ^ 64"
    and "writes_ok s" and "ws_open s" and "pending s = []" and "\<not> closeReplyPending s"
  shows "\<exists>s'. receiveMessage zl now s = (Inr None, s') \<and> ws_open s'"
proof -
  let ?s = "s\<lparr>pending := [], pendingPos := 0\<rparr>"
  obtain r out s1 where b: "receiveBatch zl now ?s = (r, out, s1)" by (metis prod_cases3)
  have same: "asm ?s = asm s" "stream ?s = stream s" "writes_ok ?s = writes_ok s" "sock_open (sock ?s)"
    using assms(6) by (simp_all add: asm_def stream_def writes_ok_def)
  have full: "decode zl (maxMessageSize ?s) kMaxFramesPerBatch (asm ?s) (stream ?s) = Some (asm s, [], map fst fs, [])"
    using decode_pings [OF assms(2), of "maxMessageSize s" zl "asm s"] assms(1,3,4,5) same by simp
  have max: "maxMessageSize ?s + 14 < 2 ^ 64" using assms(5) by simp
  from batch_of_whole_stream [OF b max same(4) full]
  have out: "out = []" and r: "r = Inr True" and w: "writes_ok s1" "ws_open s1 = ws_open s"
    using same assms(6) by (auto split: if_splits)
  have reply: "\<not> closeReplyPending s1"
    using receive_loop_reply [of zl now "[]" 0 ?s out s1] b r assms(5,9) by (simp add: receiveBatch_def size_modulus_def)
  let ?t = "s1\<lparr>pending := []\<rparr>"
  have "writes_ok ?t" "\<not> closeReplyPending ?t" using w reply by (simp_all add: writes_ok_def)
  from endBatch_open [OF this] show ?thesis
    using b r out w assms(7,8) by (simp add: receiveMessage_def receiveInternal_def Let_def)
qed

theorem pings_end_receive_witness:
  "\<exists>s'. receiveMessage store_zlib 0 (sample_ws (map encode_ping (replicate 256 ([], [1, 2, 3, 4])))) = (Inr None, s') \<and> ws_open s'"
  by (rule pings_end_receive [where fs = "replicate 256 ([], [1, 2, 3, 4])"]) (simp_all add: kMaxFramesPerBatch_def)

end
