(* ===== verification/Ws_Lock.thy ===== *)
theory Ws_Lock
  imports Prelude
begin

text \<open>
  The write lock of a WebSocket session (\<^verbatim>\<open>acquireWrite\<close> and \<^verbatim>\<open>releaseWrite\<close> of
  \<^verbatim>\<open>src/src/core/WebSocket.cpp\<close>), which serialises the coroutines that write to one connection: the
  message loop, the heartbeat and the broadcasts of the hub. A step is what a coroutine does between
  two suspensions.
\<close>

datatype Phase = Outside | Waiting | Writing

record WriteLock =
  writePending :: bool
  waiters :: nat
  phase :: "nat \<Rightarrow> Phase"

definition new_lock :: WriteLock where
  "new_lock = \<lparr>writePending = False, waiters = 0, phase = (\<lambda>_. Outside)\<rparr>"

text \<open>The test of \<open>while (writePending_)\<close>: to the timer, or into the critical section.\<close>

definition try_enter :: "nat \<Rightarrow> WriteLock \<Rightarrow> WriteLock" where
  "try_enter c l =
     (if writePending l then l\<lparr>waiters := Suc (waiters l), phase := (phase l)(c := Waiting)\<rparr>
      else l\<lparr>writePending := True, phase := (phase l)(c := Writing)\<rparr>)"

definition acquireWrite :: "nat \<Rightarrow> WriteLock \<Rightarrow> WriteLock" where
  "acquireWrite c l = try_enter c l"

text \<open>Behind the wait, whatever ended it.\<close>

definition resumeWait :: "nat \<Rightarrow> WriteLock \<Rightarrow> WriteLock" where
  "resumeWait c l = try_enter c (l\<lparr>waiters := waiters l - 1, phase := (phase l)(c := Outside)\<rparr>)"

text \<open>The result says whether a waiter's timer is cancelled.\<close>

definition releaseWrite :: "nat \<Rightarrow> WriteLock \<Rightarrow> bool \<times> WriteLock" where
  "releaseWrite c l = (waiters l > 0, l\<lparr>writePending := False, phase := (phase l)(c := Outside)\<rparr>)"

inductive lock_step :: "WriteLock \<Rightarrow> WriteLock \<Rightarrow> bool" where
  acquire: "phase l c = Outside \<Longrightarrow> lock_step l (acquireWrite c l)"
| resume: "phase l c = Waiting \<Longrightarrow> lock_step l (resumeWait c l)"
| release: "phase l c = Writing \<Longrightarrow> lock_step l (snd (releaseWrite c l))"

inductive_cases lock_stepE: "lock_step l l'"

inductive lock_reachable :: "WriteLock \<Rightarrow> bool" where
  init: "lock_reachable new_lock"
| step: "lock_reachable l \<Longrightarrow> lock_step l l' \<Longrightarrow> lock_reachable l'"

definition lock_inv :: "WriteLock \<Rightarrow> bool" where
  "lock_inv l \<longleftrightarrow> finite {c. phase l c = Waiting} \<and> waiters l = card {c. phase l c = Waiting}
     \<and> (if writePending l then \<exists>w. \<forall>c. phase l c = Writing \<longleftrightarrow> c = w else \<forall>c. phase l c \<noteq> Writing)"

lemma phase_update:
  "{d. (if d = c then p else f d) = q} = (if p = q then insert c {d. f d = q} else {d. f d = q} - {c})"
  by auto

lemma try_enter_inv:
  assumes "lock_inv l" and "phase l c = Outside"
  shows "lock_inv (try_enter c l)"
proof (cases "writePending l")
  case True
  obtain w where w: "\<forall>d. phase l d = Writing \<longleftrightarrow> d = w" using assms(1) True by (auto simp: lock_inv_def)
  moreover have "w \<noteq> c" using w [rule_format, of c] assms(2) by simp
  ultimately show ?thesis using assms True
    by (auto simp: lock_inv_def try_enter_def phase_update fun_upd_apply)
next
  case False
  then show ?thesis using assms by (auto simp: lock_inv_def try_enter_def phase_update fun_upd_apply)
qed

lemma leave_wait_inv:
  assumes "lock_inv l" and "phase l c = Waiting"
  shows "lock_inv (l\<lparr>waiters := waiters l - 1, phase := (phase l)(c := Outside)\<rparr>)"
proof (cases "writePending l")
  case True
  obtain w where w: "\<forall>d. phase l d = Writing \<longleftrightarrow> d = w" using assms(1) True by (auto simp: lock_inv_def)
  moreover have "w \<noteq> c" using w [rule_format, of c] assms(2) by simp
  ultimately show ?thesis using assms True by (auto simp: lock_inv_def phase_update fun_upd_apply)
next
  case False
  then show ?thesis using assms by (auto simp: lock_inv_def phase_update fun_upd_apply)
qed

lemma release_inv:
  assumes "lock_inv l" and "phase l c = Writing"
  shows "lock_inv (snd (releaseWrite c l))"
proof -
  have "\<forall>d. phase l d = Writing \<longleftrightarrow> d = c"
    using assms by (auto simp: lock_inv_def split: if_splits)
  moreover have "{d. ((phase l)(c := Outside)) d = Waiting} = {d. phase l d = Waiting}" using assms(2) by auto
  ultimately show ?thesis using assms by (simp add: lock_inv_def releaseWrite_def)
qed

lemma lock_reachable_inv: "lock_reachable l \<Longrightarrow> lock_inv l"
proof (induction rule: lock_reachable.induct)
  case init
  then show ?case by (simp add: lock_inv_def new_lock_def)
next
  case (step l l')
  from step(2) show ?case
  proof (cases rule: lock_step.cases)
    case (acquire c)
    then show ?thesis using try_enter_inv [OF step(3)] by (simp add: acquireWrite_def)
  next
    case (resume c)
    show ?thesis unfolding resume resumeWait_def
      by (rule try_enter_inv [OF leave_wait_inv [OF step(3) resume(2)]]) simp
  next
    case (release c)
    then show ?thesis using release_inv [OF step(3)] by simp
  qed
qed

text \<open>
  C26. Whatever the interleaving of the coroutines, at most one of them writes to the connection at
  a time, one does exactly while the lock is marked as held, and the counter that decides whether a
  release wakes somebody is the number of coroutines that wait. A waiter that resumes while the
  lock is free gets it.
\<close>

theorem one_writer:
  assumes "lock_reachable l"
  shows "(\<forall>c d. phase l c = Writing \<longrightarrow> phase l d = Writing \<longrightarrow> c = d)
    \<and> (writePending l \<longleftrightarrow> (\<exists>c. phase l c = Writing))
    \<and> waiters l = card {c. phase l c = Waiting}
    \<and> (\<forall>c. phase l c = Waiting \<longrightarrow> \<not> writePending l \<longrightarrow> phase (resumeWait c l) c = Writing)"
  using lock_reachable_inv [OF assms]
  by (auto simp: lock_inv_def resumeWait_def try_enter_def split: if_splits)

theorem one_writer_witness:
  "phase (acquireWrite 1 (acquireWrite 0 new_lock)) 0 = Writing \<and> waiters (acquireWrite 1 (acquireWrite 0 new_lock)) = 1
   \<and> phase (acquireWrite 1 (acquireWrite 0 new_lock)) 1 \<noteq> Writing"
proof -
  let ?a = "acquireWrite 0 new_lock" and ?l = "acquireWrite 1 (acquireWrite 0 new_lock)"
  have "lock_reachable ?a" by (rule lock_reachable.step [OF lock_reachable.init], rule lock_step.acquire) (simp add: new_lock_def)
  then have "lock_reachable ?l"
    by (rule lock_reachable.step, intro lock_step.acquire) (simp add: acquireWrite_def try_enter_def new_lock_def)
  moreover have "phase ?l 0 = Writing" "waiters ?l = 1" by (simp_all add: acquireWrite_def try_enter_def new_lock_def)
  ultimately show ?thesis using one_writer [of ?l] zero_neq_one by blast
qed

end
