(* ===== verification/Text_Format.thy ===== *)
theory Text_Format
  imports Prelude
begin

text \<open>
  Text output shared by the HTTP/1.1 theories: \<open>std::to_chars\<close> for unsigned integers, searching in
  string views, and the stack buffer with heap fallback of \<^verbatim>\<open>src/src/core/FixedBuffer.h\<close>, which
  is shown to be an append-only string whatever the sizes are.
\<close>

named_theorems wire_simps \<open>reading back what a serialiser wrote\<close>

section \<open>Numbers in text\<close>

definition digit_char :: "nat \<Rightarrow> char" where
  "digit_char d = (if d < 10 then char_of (48 + d) else char_of (87 + d))"

text \<open>\<open>std::to_chars(first, last, n, base)\<close> into a buffer that is large enough.\<close>

function to_chars :: "nat \<Rightarrow> nat \<Rightarrow> string" where
  "to_chars base n =
     (if base < 2 \<or> n < base then [digit_char n] else to_chars base (n div base) @ [digit_char (n mod base)])"
  by pat_completeness auto
termination by (relation "measure snd") auto

declare to_chars.simps [simp del]

text \<open>The value of a numeral, as a receiver reads it; \<open>None\<close> if it is not one.\<close>

definition digit_value :: "char \<Rightarrow> nat option" where
  "digit_value c =
     (let n = ord c in
      if 48 \<le> n \<and> n \<le> 57 then Some (n - 48)
      else if 97 \<le> n \<and> n \<le> 102 then Some (n - 87)
      else if 65 \<le> n \<and> n \<le> 70 then Some (n - 55)
      else None)"

fun numeral_from :: "nat \<Rightarrow> nat \<Rightarrow> string \<Rightarrow> nat option" where
  "numeral_from base acc [] = Some acc"
| "numeral_from base acc (c # cs) =
     (case digit_value c of
        None \<Rightarrow> None
      | Some d \<Rightarrow> if d < base then numeral_from base (acc * base + d) cs else None)"

definition numeral_value :: "nat \<Rightarrow> string \<Rightarrow> nat option" where
  "numeral_value base s = (if s = [] then None else numeral_from base 0 s)"

lemma ord_char_of [simp]: "n < 256 \<Longrightarrow> ord (char_of n) = n"
  by (simp add: ord_def)

lemma digit_value_digit [simp]: "d < 16 \<Longrightarrow> digit_value (digit_char d) = Some d"
  by (simp add: digit_value_def digit_char_def)

lemma numeral_from_append:
  "numeral_from b a (xs @ ys) = Option.bind (numeral_from b a xs) (\<lambda>v. numeral_from b v ys)"
  by (induction xs arbitrary: a) (auto split: option.splits)

lemma to_chars_not_Nil [simp]: "to_chars b n \<noteq> []"
  by (subst to_chars.simps) simp

lemma numeral_from_to_chars:
  "2 \<le> b \<Longrightarrow> b \<le> 16 \<Longrightarrow> numeral_from b 0 (to_chars b n) = Some n"
proof (induction b n rule: to_chars.induct)
  case (1 b n)
  show ?case
  proof (cases "n < b")
    case True
    with 1 show ?thesis by (subst to_chars.simps) simp
  next
    case False
    with 1 have ih: "numeral_from b 0 (to_chars b (n div b)) = Some (n div b)" by simp
    have m: "n mod b < 16" using 1(2,3) mod_less_divisor [of b n] by linarith
    have "to_chars b n = to_chars b (n div b) @ [digit_char (n mod b)]"
      using False 1(2) by (subst to_chars.simps) simp
    with ih m 1(2) show ?thesis by (simp add: numeral_from_append)
  qed
qed

lemma numeral_value_to_chars [wire_simps]:
  "2 \<le> b \<Longrightarrow> b \<le> 16 \<Longrightarrow> numeral_value b (to_chars b n) = Some n"
  by (simp add: numeral_value_def numeral_from_to_chars)

lemma to_chars_inj: "2 \<le> b \<Longrightarrow> b \<le> 16 \<Longrightarrow> to_chars b m = to_chars b n \<longleftrightarrow> m = n"
  using numeral_value_to_chars [of b] by (metis option.inject)

text \<open>Line breaks; a numeral has none.\<close>

abbreviation CR :: char where "CR \<equiv> CHR 0x0D"
abbreviation LF :: char where "LF \<equiv> CHR 0x0A"
abbreviation CRLF :: string where "CRLF \<equiv> [CR, LF]"

definition is_break :: "char \<Rightarrow> bool" where
  "is_break c \<longleftrightarrow> c = CR \<or> c = LF"

definition no_break :: "string \<Rightarrow> bool" where
  "no_break s \<longleftrightarrow> (\<forall>c \<in> set s. \<not> is_break c)"

lemma no_break_simps [simp]:
  "no_break []" "no_break (c # s) \<longleftrightarrow> \<not> is_break c \<and> no_break s"
  "no_break (s @ t) \<longleftrightarrow> no_break s \<and> no_break t"
  by (auto simp: no_break_def)

lemma is_break_Char [simp]:
  "is_break (Char b0 b1 b2 b3 b4 b5 b6 b7) \<longleftrightarrow>
   Char b0 b1 b2 b3 b4 b5 b6 b7 = CR \<or> Char b0 b1 b2 b3 b4 b5 b6 b7 = LF"
  by (simp only: is_break_def)

lemma digit_char_no_break: "d < 16 \<Longrightarrow> \<not> is_break (digit_char d)"
proof -
  assume "d < 16"
  then have "ord (digit_char d) \<noteq> 13 \<and> ord (digit_char d) \<noteq> 10" by (simp add: digit_char_def)
  then show ?thesis by (auto simp: is_break_def ord_def)
qed

lemma no_break_to_chars [simp]: "2 \<le> b \<Longrightarrow> b \<le> 16 \<Longrightarrow> no_break (to_chars b n)"
proof (induction b n rule: to_chars.induct)
  case (1 b n)
  have "n mod b < 16" using 1(2,3) mod_less_divisor [of b n] by linarith
  from digit_char_no_break [OF this] 1 show ?case
    by (subst to_chars.simps) (auto simp: digit_char_no_break)
qed

section \<open>Reading a line\<close>

text \<open>The text up to the first CR LF and what follows it.\<close>

fun take_line :: "string \<Rightarrow> (string \<times> string) option" where
  "take_line [] = None"
| "take_line [c] = None"
| "take_line (c # d # s) =
     (if c = CR \<and> d = LF then Some ([], s)
      else case take_line (d # s) of None \<Rightarrow> None | Some (l, r) \<Rightarrow> Some (c # l, r))"

lemma take_line_shorter: "take_line s = Some (l, r) \<Longrightarrow> length r < length s"
  by (induction s arbitrary: l r rule: take_line.induct) (force split: if_splits option.splits prod.splits)+

lemma take_line_here [wire_simps]: "no_break l \<Longrightarrow> take_line (l @ CR # LF # r) = Some (l, r)"
proof (induction l)
  case Nil
  then show ?case by simp
next
  case (Cons c l)
  then have "c \<noteq> CR" by (simp add: is_break_def)
  with Cons show ?case by (cases l) simp_all
qed

section \<open>Searching in a string view\<close>

text \<open>\<open>find(c)\<close>; \<open>None\<close> is \<open>npos\<close>.\<close>

fun find_char :: "char \<Rightarrow> string \<Rightarrow> nat option" where
  "find_char c [] = None"
| "find_char c (x # xs) = (if x = c then Some 0 else map_option Suc (find_char c xs))"

lemma find_char_None [simp]: "find_char c s = None \<longleftrightarrow> c \<notin> set s"
  by (induction s) auto

lemma find_char_Some:
  "find_char c s = Some n \<Longrightarrow> n < length s \<and> s ! n = c \<and> c \<notin> set (take n s) \<and> s = take n s @ c # drop (Suc n) s"
  by (induction s arbitrary: n) (auto split: if_splits)

lemma find_char_here [simp]: "c \<notin> set l \<Longrightarrow> find_char c (l @ c # r) = Some (length l)"
  by (induction l) auto

text \<open>The part before the first \<open>c\<close> and the part after it: \<open>substr(0, pos)\<close> and \<open>substr(pos + 1)\<close>, or the whole and nothing.\<close>

definition cut_at :: "char \<Rightarrow> string \<Rightarrow> string \<times> string" where
  "cut_at c s = (case find_char c s of None \<Rightarrow> (s, []) | Some n \<Rightarrow> (take n s, drop (n + 1) s))"

lemma cut_at_here [simp]: "c \<notin> set l \<Longrightarrow> cut_at c (l @ c # r) = (l, r)"
  by (simp add: cut_at_def)

lemma cut_at_absent [simp]: "c \<notin> set s \<Longrightarrow> cut_at c s = (s, [])"
  unfolding cut_at_def by (simp add: find_char_None [THEN iffD2])

lemma cut_at_shorter: "s \<noteq> [] \<Longrightarrow> length (snd (cut_at c s)) < length s"
  by (auto simp: cut_at_def split: option.split)

lemma cut_at_Nil [simp]: "cut_at c [] = ([], [])"
  by (simp add: cut_at_def)

lemma cut_at_before: "c \<notin> set (fst (cut_at c s))"
  by (auto simp: cut_at_def split: option.split dest: find_char_Some)

section \<open>The fixed buffer\<close>

text \<open>\<open>N\<close> is the template parameter; the first \<open>used\<close> bytes of the stack array are meaningful.\<close>

record FixedBuffer =
  stackBuf :: string
  fb_used :: nat
  overflowed :: bool
  heapBuf :: string

definition fb_new :: "nat \<Rightarrow> FixedBuffer" where
  "fb_new N = \<lparr>stackBuf = replicate N (CHR 0x00), fb_used = 0, overflowed = False, heapBuf = []\<rparr>"

definition fb_append :: "nat \<Rightarrow> FixedBuffer \<Rightarrow> string \<Rightarrow> FixedBuffer" where
  "fb_append N b s =
     (if \<not> overflowed b \<and> fb_used b + length s \<le> N
      then b\<lparr>stackBuf := copy_into (stackBuf b) (fb_used b) s, fb_used := fb_used b + length s\<rparr>
      else let b1 = (if overflowed b then b
                     else b\<lparr>heapBuf := take (fb_used b) (stackBuf b), overflowed := True\<rparr>)
           in b1\<lparr>heapBuf := heapBuf b1 @ s\<rparr>)"

text \<open>\<open>formatInteger\<close> for unsigned and for signed arguments; 32 characters hold every 64-bit integer.\<close>

definition fb_unsigned :: "nat \<Rightarrow> FixedBuffer \<Rightarrow> nat \<Rightarrow> FixedBuffer" where
  "fb_unsigned N b n = fb_append N b (to_chars 10 n)"

definition signed_chars :: "int \<Rightarrow> string" where
  "signed_chars i = (if i < 0 then CHR ''-'' # to_chars 10 (nat (- i)) else to_chars 10 (nat i))"

definition fb_signed :: "nat \<Rightarrow> FixedBuffer \<Rightarrow> int \<Rightarrow> FixedBuffer" where
  "fb_signed N b i = fb_append N b (signed_chars i)"

definition fb_bool :: "nat \<Rightarrow> FixedBuffer \<Rightarrow> bool \<Rightarrow> FixedBuffer" where
  "fb_bool N b v = (if v then fb_append N b ''true'' else fb_append N b ''false'')"

definition fb_view :: "FixedBuffer \<Rightarrow> string" where
  "fb_view b = (if overflowed b then heapBuf b else take (fb_used b) (stackBuf b))"

definition fb_size :: "FixedBuffer \<Rightarrow> nat" where
  "fb_size b = (if overflowed b then length (heapBuf b) else fb_used b)"

definition fb_clear :: "FixedBuffer \<Rightarrow> FixedBuffer" where
  "fb_clear b = b\<lparr>fb_used := 0, overflowed := False, heapBuf := []\<rparr>"

definition fb_ok :: "nat \<Rightarrow> FixedBuffer \<Rightarrow> bool" where
  "fb_ok N b \<longleftrightarrow> length (stackBuf b) = N \<and> fb_used b \<le> N"

lemma fb_new_ok [simp]: "fb_ok N (fb_new N)"
  by (simp add: fb_ok_def fb_new_def)

lemma fb_append_ok [simp]: "fb_ok N b \<Longrightarrow> fb_ok N (fb_append N b s)"
  by (auto simp: fb_ok_def fb_append_def Let_def)

lemma fb_clear_ok [simp]: "fb_ok N b \<Longrightarrow> fb_ok N (fb_clear b)"
  by (simp add: fb_ok_def fb_clear_def)

lemma fb_view_new [simp]: "fb_view (fb_new N) = []"
  by (simp add: fb_view_def fb_new_def)

lemma fb_view_clear [simp]: "fb_view (fb_clear b) = []"
  by (simp add: fb_view_def fb_clear_def)

lemma fb_view_append [simp]: "fb_ok N b \<Longrightarrow> fb_view (fb_append N b s) = fb_view b @ s"
proof (cases "\<not> overflowed b \<and> fb_used b + length s \<le> N")
  case True
  moreover assume "fb_ok N b"
  ultimately show ?thesis by (simp add: fb_view_def fb_append_def fb_ok_def copy_into_def min_absorb2)
next
  case False
  then show ?thesis by (auto simp: fb_view_def fb_append_def Let_def)
qed

lemma fb_size_view: "fb_ok N b \<Longrightarrow> fb_size b = length (fb_view b)"
  by (auto simp: fb_size_def fb_view_def fb_ok_def)

text \<open>The contract of an output buffer, and the fixed buffer as an implementation of it.\<close>

locale text_buffer =
  fixes ok :: "'b \<Rightarrow> bool"
    and new :: "'b"
    and app :: "'b \<Rightarrow> string \<Rightarrow> 'b"
    and written_text :: "'b \<Rightarrow> string"
  assumes new_ok: "ok new"
    and new_text: "written_text new = []"
    and app_ok: "ok b \<Longrightarrow> ok (app b s)"
    and app_text: "ok b \<Longrightarrow> written_text (app b s) = written_text b @ s"
begin

lemma foldl_ok: "ok b \<Longrightarrow> ok (foldl app b ss)"
  by (induction ss arbitrary: b) (auto simp: app_ok)

lemma foldl_text: "ok b \<Longrightarrow> written_text (foldl app b ss) = written_text b @ concat ss"
  by (induction ss arbitrary: b) (auto simp: app_ok app_text)

lemma written: "written_text (foldl app new ss) = concat ss"
  by (simp add: foldl_text new_ok new_text)

end

interpretation fixed: text_buffer "fb_ok N" "fb_new N" "fb_append N" fb_view for N
  by unfold_locales simp_all

text \<open>
  The stack buffer is an append-only string: whatever pieces are written, and whether or not they
  exceed the capacity at some point, the view is their concatenation and the size its length; before
  the first overflow no more than the capacity is used.
\<close>

lemma fixed_buffer_refines:
  "fb_view (foldl (fb_append N) (fb_new N) ss) = concat ss
   \<and> fb_size (foldl (fb_append N) (fb_new N) ss) = length (concat ss)
   \<and> fb_used (foldl (fb_append N) (fb_new N) ss) \<le> N"
proof -
  have ok: "fb_ok N (foldl (fb_append N) (fb_new N) ss)" by (rule fixed.foldl_ok) simp
  then show ?thesis using fb_size_view [OF ok] fixed.written [of N ss] by (simp add: fb_ok_def)
qed

end
