(* ===== verification/Chunked_Body.thy ===== *)
theory Chunked_Body
  imports Text_Format
begin

text \<open>
  The chunked response body of \<^verbatim>\<open>src/src/core/ChunkedBody.cpp\<close>: collecting chunks, writing them in
  the chunked transfer coding, and the size computed ahead of time for the reservation. A receiver
  following RFC 9112 is written down as the reference the serialiser is read back with.
\<close>

section \<open>Model\<close>

record ChunkedBody =
  cb_chunks :: "string list"
  cb_trailers :: "(string \<times> string) list"
  finished :: bool

definition cb_new :: ChunkedBody where
  "cb_new = \<lparr>cb_chunks = [], cb_trailers = [], finished = False\<rparr>"

definition cb_write :: "string \<Rightarrow> ChunkedBody \<Rightarrow> ChunkedBody" where
  "cb_write s b = (if finished b \<or> s = [] then b else b\<lparr>cb_chunks := cb_chunks b @ [s]\<rparr>)"

definition cb_end :: "(string \<times> string) list \<Rightarrow> ChunkedBody \<Rightarrow> ChunkedBody" where
  "cb_end ts b = (if finished b then b else b\<lparr>finished := True, cb_trailers := ts\<rparr>)"

definition serializeChunkFrame :: "string \<Rightarrow> string" where
  "serializeChunkFrame s = (if s = [] then ''0'' @ CRLF @ CRLF else to_chars 16 (length s) @ CRLF @ s @ CRLF)"

fun append_trailers :: "string \<Rightarrow> (string \<times> string) list \<Rightarrow> string" where
  "append_trailers out [] = out"
| "append_trailers out ((n, v) # ts) = append_trailers (out @ n @ '': '' @ v @ CRLF) ts"

definition serializeTrailerFrame :: "(string \<times> string) list \<Rightarrow> string" where
  "serializeTrailerFrame ts = append_trailers (''0'' @ CRLF) ts @ CRLF"

fun append_chunks :: "string \<Rightarrow> string list \<Rightarrow> string" where
  "append_chunks out [] = out"
| "append_chunks out (c # cs) = append_chunks (out @ to_chars 16 (length c) @ CRLF @ c @ CRLF) cs"

definition serializeChunkedBodyTo :: "string \<Rightarrow> ChunkedBody \<Rightarrow> string" where
  "serializeChunkedBodyTo out b =
     append_trailers (append_chunks out (cb_chunks b) @ ''0'' @ CRLF) (cb_trailers b) @ CRLF"

definition serializeChunkedBody :: "ChunkedBody \<Rightarrow> string" where
  "serializeChunkedBody b = serializeChunkedBodyTo [] b"

text \<open>The running total is a \<open>size_t\<close>.\<close>

definition chunkedBodyWireSize :: "ChunkedBody \<Rightarrow> size_t" where
  "chunkedBodyWireSize b =
     (let t1 = foldl (\<lambda>t c. size_add (size_add t (size_add (length (to_chars 16 (length c))) 2)) (size_add (length c) 2))
                 0 (cb_chunks b);
          t2 = size_add t1 3;
          t3 = foldl (\<lambda>t (n, v). size_add t (size_add (size_add (size_add (length n) 2) (length v)) 2)) t2 (cb_trailers b)
      in size_add t3 2)"

section \<open>A receiver of the chunked coding\<close>

text \<open>The trailer section: lines up to the empty one.\<close>

function read_lines :: "string \<Rightarrow> (string list \<times> string) option" where
  "read_lines s =
     (case take_line s of
        None \<Rightarrow> None
      | Some (l, r) \<Rightarrow>
          if l = [] then Some ([], r)
          else (case read_lines r of None \<Rightarrow> None | Some (ls, r') \<Rightarrow> Some (l # ls, r')))"
  by pat_completeness auto
termination by (relation "measure length") (auto dest: take_line_shorter)

function read_chunked :: "string \<Rightarrow> (string list \<times> string list \<times> string) option" where
  "read_chunked s =
     (case take_line s of
        None \<Rightarrow> None
      | Some (l, r) \<Rightarrow>
         (case numeral_value 16 l of
            None \<Rightarrow> None
          | Some n \<Rightarrow>
             if n = 0 then (case read_lines r of None \<Rightarrow> None | Some (ts, r') \<Rightarrow> Some ([], ts, r'))
             else if take 2 (drop n r) \<noteq> CRLF then None
             else (case read_chunked (drop (n + 2) r) of
                     None \<Rightarrow> None
                   | Some (cs, ts, r') \<Rightarrow> Some (take n r # cs, ts, r'))))"
  by pat_completeness auto
termination by (relation "measure length") (auto dest!: take_line_shorter)

declare read_lines.simps [simp del] read_chunked.simps [simp del]

section \<open>The serialisers as concatenations\<close>

definition trailer_line :: "string \<times> string \<Rightarrow> string" where
  "trailer_line t = fst t @ '': '' @ snd t"

lemma append_trailers_concat: "append_trailers out ts = out @ concat (map (\<lambda>t. trailer_line t @ CRLF) ts)"
  by (induction out ts rule: append_trailers.induct) (simp_all add: trailer_line_def)

lemma append_chunks_concat:
  "append_chunks out cs = out @ concat (map (\<lambda>c. to_chars 16 (length c) @ CRLF @ c @ CRLF) cs)"
  by (induction out cs rule: append_chunks.induct) simp_all

lemma serialize_frames:
  "[] \<notin> set (cb_chunks b) \<Longrightarrow>
   serializeChunkedBodyTo out b = out @ concat (map serializeChunkFrame (cb_chunks b)) @ serializeTrailerFrame (cb_trailers b)"
proof -
  assume ne: "[] \<notin> set (cb_chunks b)"
  have m: "map serializeChunkFrame (cb_chunks b) = map (\<lambda>c. to_chars 16 (length c) @ CRLF @ c @ CRLF) (cb_chunks b)"
    using ne by (auto simp: serializeChunkFrame_def)
  show ?thesis
    unfolding m by (simp add: serializeChunkedBodyTo_def serializeTrailerFrame_def append_trailers_concat append_chunks_concat)
qed

lemma read_lines_trailers [wire_simps]:
  "(\<forall>t \<in> set ts. no_break (trailer_line t)) \<Longrightarrow>
   read_lines (concat (map (\<lambda>t. trailer_line t @ CRLF) ts) @ CRLF @ r) = Some (map trailer_line ts, r)"
proof (induction ts)
  case Nil
  show ?case by (subst read_lines.simps) simp
next
  case (Cons t ts)
  have "trailer_line t \<noteq> []" by (simp add: trailer_line_def)
  with Cons show ?case by (subst read_lines.simps) (simp add: take_line_here)
qed

lemma read_chunked_frames [wire_simps]:
  assumes "[] \<notin> set cs" and "\<forall>t \<in> set ts. no_break (trailer_line t)"
  shows "read_chunked (concat (map serializeChunkFrame cs) @ serializeTrailerFrame ts @ r)
    = Some (cs, map trailer_line ts, r)"
  using assms(1)
proof (induction cs)
  case Nil
  have z: "take_line (''0'' @ CR # LF # x) = Some (''0'', x)" for x by (rule take_line_here) (simp add: is_break_def)
  have "numeral_value 16 ''0'' = Some 0" by (simp add: numeral_value_def digit_value_def ord_def)
  then show ?case
    using read_lines_trailers [OF assms(2), of r] z [of "concat (map (\<lambda>t. trailer_line t @ CRLF) ts) @ CRLF @ r"]
    by (subst read_chunked.simps) (simp add: serializeTrailerFrame_def append_trailers_concat)
next
  case (Cons c cs)
  let ?rest = "concat (map serializeChunkFrame cs) @ serializeTrailerFrame ts @ r"
  have "take_line (to_chars 16 (length c) @ CR # LF # c @ CR # LF # ?rest)
      = Some (to_chars 16 (length c), c @ CR # LF # ?rest)"
    by (rule take_line_here) simp
  moreover have "serializeChunkFrame c = to_chars 16 (length c) @ CR # LF # c @ CRLF"
    using Cons.prems by (auto simp: serializeChunkFrame_def)
  ultimately show ?case
    using Cons by (subst read_chunked.simps) (auto simp: numeral_value_to_chars)
qed

section \<open>What the interface can build\<close>

inductive cb_built :: "ChunkedBody \<Rightarrow> bool" where
  cb_built_new: "cb_built cb_new"
| cb_built_write: "cb_built b \<Longrightarrow> cb_built (cb_write s b)"
| cb_built_end: "cb_built b \<Longrightarrow> cb_built (cb_end ts b)"

lemma cb_built_chunks: "cb_built b \<Longrightarrow> [] \<notin> set (cb_chunks b)"
  by (induction rule: cb_built.induct) (auto simp: cb_new_def cb_write_def cb_end_def)

lemma size_add_mod [simp]:
  "size_add (a mod size_modulus) b = (a + b) mod size_modulus"
  "size_add a (b mod size_modulus) = (a + b) mod size_modulus"
  by (simp_all add: size_add_def mod_simps)

lemma foldl_size:
  "foldl (\<lambda>t x. size_add t (f x mod size_modulus)) (a mod size_modulus) xs = (a + sum_list (map f xs)) mod size_modulus"
proof (induction xs arbitrary: a)
  case Nil
  then show ?case by simp
next
  case (Cons x xs)
  have "size_add (a mod size_modulus) (f x mod size_modulus) = (a + f x) mod size_modulus"
    by (simp add: size_add_def mod_simps)
  with Cons [of "a + f x"] show ?case by (simp add: add.assoc)
qed

lemma wire_size_sum:
  "chunkedBodyWireSize b = (sum_list (map (\<lambda>c. length (to_chars 16 (length c)) + 2 + (length c + 2)) (cb_chunks b)) + 3
     + sum_list (map (\<lambda>t. length (fst t) + 2 + length (snd t) + 2) (cb_trailers b)) + 2) mod size_modulus"
proof -
  have c: "(\<lambda>t c. size_add (size_add t (size_add (length (to_chars 16 (length c))) 2)) (size_add (length c) 2))
      = (\<lambda>t c. size_add t ((length (to_chars 16 (length c)) + 2 + (length c + 2)) mod size_modulus))"
    by (intro ext) (simp only: size_add_def mod_simps add.assoc)
  have t: "(\<lambda>t (n, v). size_add t (size_add (size_add (size_add (length n) 2) (length v)) 2))
      = (\<lambda>t x. size_add t ((length (fst x) + 2 + length (snd x) + 2) mod size_modulus))"
    by (intro ext) (simp only: size_add_def mod_simps add.assoc split_beta)
  have z: "foldl (\<lambda>t x. size_add t (f x mod size_modulus)) 0 xs = sum_list (map f xs) mod size_modulus"
    for f :: "string \<Rightarrow> nat" and xs using foldl_size [of f 0 xs] by (simp only: mod_0 add_0)
  show ?thesis
    unfolding chunkedBodyWireSize_def c t Let_def
    unfolding z unfolding size_add_mod(1) foldl_size by (rule refl)
qed

section \<open>Properties\<close>

text \<open>
  The chunked coding is read back: for every body built with \<open>write\<close> and \<open>end\<close> whose trailer fields
  have no line breaks, a receiver finds exactly the chunks written before the end, in order, and
  the trailer lines, and stops exactly at the end of the body, whatever follows on the connection.
\<close>

theorem chunked_roundtrip:
  assumes "cb_built b" and "\<forall>t \<in> set (cb_trailers b). no_break (fst t) \<and> no_break (snd t)"
  shows "read_chunked (serializeChunkedBody b @ r) = Some (cb_chunks b, map trailer_line (cb_trailers b), r)"
proof -
  have "\<forall>t \<in> set (cb_trailers b). no_break (trailer_line t)"
    using assms(2) by (simp add: trailer_line_def is_break_def)
  from read_chunked_frames [OF cb_built_chunks [OF assms(1)] this, of r] show ?thesis
    by (simp add: serializeChunkedBody_def serialize_frames [OF cb_built_chunks [OF assms(1)]])
qed

theorem chunked_roundtrip_witness:
  "read_chunked (serializeChunkedBody (cb_end [(''X'', ''1'')] (cb_write ''hello world, again'' cb_new)) @ ''next'')
     = Some ([''hello world, again''], [''X: 1''], ''next'')"
proof -
  let ?b = "cb_end [(''X'', ''1'')] (cb_write ''hello world, again'' cb_new)"
  have "cb_built ?b" by (intro cb_built.intros)
  moreover have "cb_trailers ?b = [(''X'', ''1'')]" "cb_chunks ?b = [''hello world, again'']"
    by (simp_all add: cb_end_def cb_write_def cb_new_def)
  ultimately show ?thesis using chunked_roundtrip [of ?b "''next''"] by (simp add: is_break_def trailer_line_def)
qed

text \<open>
  The precomputed wire size is the number of bytes the serialiser appends, in the arithmetic of
  \<open>size_t\<close>, for every body.
\<close>

lemma chunked_wire_size:
  "chunkedBodyWireSize b = (length (serializeChunkedBodyTo out b) - length out) mod size_modulus"
proof -
  have "length (concat (map (\<lambda>c. to_chars 16 (length c) @ CRLF @ c @ CRLF) cs))
      = sum_list (map (\<lambda>c. length (to_chars 16 (length c)) + 2 + (length c + 2)) cs)" for cs
    by (induction cs) simp_all
  moreover have "length (concat (map (\<lambda>t. trailer_line t @ CRLF) ts))
      = sum_list (map (\<lambda>t. length (fst t) + 2 + length (snd t) + 2) ts)" for ts
    by (induction ts) (simp_all add: trailer_line_def)
  ultimately show ?thesis
    by (simp add: wire_size_sum serializeChunkedBodyTo_def append_trailers_concat append_chunks_concat)
qed

end
