(* ===== verification/Header_Map.thy ===== *)
theory Header_Map
  imports Prelude
begin

text \<open>
  The header container: \<^verbatim>\<open>src/src/core/HeaderMap.h\<close>. A vector of name/value pairs in insertion
  order, searched linearly, with names compared without regard to ASCII case.
\<close>

section \<open>Case-insensitive comparison\<close>

text \<open>\<open>buildToLowerTable\<close>: the identity, then the upper-case letters overwritten.\<close>

definition buildToLowerTable :: "char list" where
  "buildToLowerTable =
     foldl (\<lambda>tbl i. tbl[i := char_of (i + 32)]) (map char_of [0..<256]) [65..<91]"

definition toLower :: "char \<Rightarrow> char" where
  "toLower c = buildToLowerTable ! ord c"

fun iequals_from :: "string \<Rightarrow> string \<Rightarrow> bool" where
  "iequals_from (x # xs) (y # ys) = (if toLower x \<noteq> toLower y then False else iequals_from xs ys)"
| "iequals_from _ _ = True"

definition iequals :: "string \<Rightarrow> string \<Rightarrow> bool" where
  "iequals a b = (if length a \<noteq> length b then False else iequals_from a b)"

section \<open>The container\<close>

type_synonym HeaderMap = "(string \<times> string) list"

fun hm_find :: "HeaderMap \<Rightarrow> string \<Rightarrow> string" where
  "hm_find [] name = []"
| "hm_find ((k, v) # es) name = (if iequals k name then v else hm_find es name)"

fun hm_set :: "HeaderMap \<Rightarrow> string \<Rightarrow> string \<Rightarrow> HeaderMap" where
  "hm_set [] name val = [(name, val)]"
| "hm_set ((k, v) # es) name val =
     (if iequals k name then (k, val) # es else (k, v) # hm_set es name val)"

definition hm_insert :: "HeaderMap \<Rightarrow> string \<Rightarrow> string \<Rightarrow> HeaderMap" where
  "hm_insert es name val = es @ [(name, val)]"

definition hm_erase :: "HeaderMap \<Rightarrow> string \<Rightarrow> HeaderMap" where
  "hm_erase es name = filter (\<lambda>e. \<not> iequals (fst e) name) es"

fun hm_findAll :: "HeaderMap \<Rightarrow> string \<Rightarrow> string list" where
  "hm_findAll [] name = []"
| "hm_findAll ((k, v) # es) name =
     (if iequals k name then v # hm_findAll es name else hm_findAll es name)"

fun hm_contains :: "HeaderMap \<Rightarrow> string \<Rightarrow> bool" where
  "hm_contains [] name = False"
| "hm_contains ((k, v) # es) name = (if iequals k name then True else hm_contains es name)"

fun hm_count :: "HeaderMap \<Rightarrow> string \<Rightarrow> nat" where
  "hm_count [] name = 0"
| "hm_count ((k, v) # es) name = (if iequals k name then Suc (hm_count es name) else hm_count es name)"

section \<open>The comparison is the equality of lower-case forms\<close>

definition lower :: "string \<Rightarrow> string" where
  "lower s = map toLower s"

lemma nth_foldl_update:
  "distinct is \<Longrightarrow> j < length xs \<Longrightarrow>
   foldl (\<lambda>t i. t[i := f i]) xs is ! j = (if j \<in> set is then f j else xs ! j)"
proof (induction "is" arbitrary: xs)
  case Nil
  then show ?case by simp
next
  case (Cons i "is")
  then show ?case by (auto simp: nth_list_update)
qed

lemma toLower_eq: "toLower c = (if 65 \<le> ord c \<and> ord c \<le> 90 then char_of (ord c + 32) else c)"
proof -
  have "map char_of [0..<256] ! ord c = c"
    using ord_less_256 [of c] by (simp add: ord_def)
  moreover have "ord c < length (map (char_of :: nat \<Rightarrow> char) [0..<256])"
    using ord_less_256 by simp
  ultimately show ?thesis
    unfolding toLower_def buildToLowerTable_def
    by (subst nth_foldl_update) (auto simp only: set_upt atLeastLessThan_iff distinct_upt split: if_splits)
qed

lemma iequals_from_map: "length a = length b \<Longrightarrow> iequals_from a b \<longleftrightarrow> map toLower a = map toLower b"
  by (induction a b rule: iequals_from.induct) auto

lemma iequals_lower: "iequals a b \<longleftrightarrow> lower a = lower b"
  by (auto simp: iequals_def lower_def iequals_from_map dest: map_eq_imp_length_eq)

lemma iequals_refl [simp]: "iequals a a"
  by (simp add: iequals_lower)

lemma iequals_sym: "iequals a b \<longleftrightarrow> iequals b a"
  by (auto simp: iequals_lower)

lemma iequals_trans: "iequals a b \<Longrightarrow> iequals b c \<Longrightarrow> iequals a c"
  by (simp add: iequals_lower)

section \<open>The contract of a header container\<close>

text \<open>
  A container whose observable content is, for every name, the list of its values in order.
\<close>

locale header_container =
  fixes empty :: "'m"
    and all :: "'m \<Rightarrow> string \<Rightarrow> string list"
    and put :: "'m \<Rightarrow> string \<Rightarrow> string \<Rightarrow> 'm"
    and add :: "'m \<Rightarrow> string \<Rightarrow> string \<Rightarrow> 'm"
    and del :: "'m \<Rightarrow> string \<Rightarrow> 'm"
  assumes all_empty: "all empty n = []"
    and all_put: "all (put m k v) n =
      (if iequals k n then (case all m n of [] \<Rightarrow> [v] | _ # vs \<Rightarrow> v # vs) else all m n)"
    and all_add: "all (add m k v) n = (if iequals k n then all m n @ [v] else all m n)"
    and all_del: "all (del m k) n = (if iequals k n then [] else all m n)"
begin

lemma put_twice: "all (put (put m k v) k w) n = all (put m k w) n"
  by (simp add: all_put split: list.splits)

lemma put_after_del: "all (put (del m k) k v) n = (if iequals k n then [v] else all m n)"
  by (simp add: all_put all_del)

lemma add_list:
  "all (foldl (\<lambda>m v. add m k v) m vs) n = (if iequals k n then all m n @ vs else all m n)"
  by (induction vs arbitrary: m) (simp_all add: all_add)

end

lemma findAll_append: "hm_findAll (es @ es') n = hm_findAll es n @ hm_findAll es' n"
  by (induction es n rule: hm_findAll.induct) auto

lemma findAll_set:
  "hm_findAll (hm_set es k v) n =
     (if iequals k n then (case hm_findAll es n of [] \<Rightarrow> [v] | _ # vs \<Rightarrow> v # vs) else hm_findAll es n)"
  by (induction es k v rule: hm_set.induct) (auto simp: iequals_lower split: list.splits)

lemma findAll_erase: "hm_findAll (hm_erase es k) n = (if iequals k n then [] else hm_findAll es n)"
  by (induction es) (auto simp: hm_erase_def iequals_lower)

interpretation headers: header_container "[]" hm_findAll hm_set hm_insert hm_erase
  by unfold_locales (simp_all add: hm_insert_def findAll_append findAll_set findAll_erase)

lemma hm_find_findAll: "hm_find es n = (case hm_findAll es n of [] \<Rightarrow> [] | v # _ \<Rightarrow> v)"
  by (induction es n rule: hm_find.induct) auto

lemma hm_contains_findAll: "hm_contains es n \<longleftrightarrow> hm_findAll es n \<noteq> []"
  by (induction es n rule: hm_contains.induct) auto

lemma hm_count_findAll: "hm_count es n = length (hm_findAll es n)"
  by (induction es n rule: hm_count.induct) auto

section \<open>Properties\<close>

text \<open>
  Header names are matched without regard to case and independently of each other: after
  setting a header, every spelling of its name finds the new value, contains it, and counts as
  many values as before (at least one); every other header is found as before.
\<close>

lemma header_set_lookup:
  "if iequals k n
   then hm_find (hm_set es k v) n = v \<and> hm_contains (hm_set es k v) n
     \<and> hm_count (hm_set es k v) n = max 1 (hm_count es n)
   else hm_find (hm_set es k v) n = hm_find es n \<and> hm_contains (hm_set es k v) n = hm_contains es n
     \<and> hm_count (hm_set es k v) n = hm_count es n"
  by (auto simp: hm_find_findAll hm_contains_findAll hm_count_findAll headers.all_put split: list.splits)

end
