(* ===== verification/Http_Response.thy ===== *)
theory Http_Response
  imports Chunked_Body Header_Map
begin

text \<open>
  HTTP responses: \<^verbatim>\<open>src/src/core/HttpResponse.h\<close> and \<^verbatim>\<open>HttpResponse.cpp\<close>. The message object with
  its factories, the framing headers set by \<open>preparePayload\<close>, cookies, and the two serialisers. File
  bodies are descriptors only; the bytes of a JSON document are an argument of the operations that
  store them, because serialising them is Boost's.
\<close>

section \<open>Status codes\<close>

datatype HttpStatusCode =
    hOk | hCreated | hAccepted | hNoContent | hPartialContent
  | hMovedPermanently | hFound | hNotModified | hTemporaryRedirect | hPermanentRedirect
  | hBadRequest | hUnauthorized | hForbidden | hNotFound | hMethodNotAllowed | hConflict
  | hPayloadTooLarge | hRequestedRangeNotSatisfiable | hTooManyRequests
  | hInternalServerError | hNotImplemented | hBadGateway | hServiceUnavailable

fun status_value :: "HttpStatusCode \<Rightarrow> nat" where
  "status_value hOk = 200" | "status_value hCreated = 201" | "status_value hAccepted = 202"
| "status_value hNoContent = 204" | "status_value hPartialContent = 206"
| "status_value hMovedPermanently = 301" | "status_value hFound = 302" | "status_value hNotModified = 304"
| "status_value hTemporaryRedirect = 307" | "status_value hPermanentRedirect = 308"
| "status_value hBadRequest = 400" | "status_value hUnauthorized = 401" | "status_value hForbidden = 403"
| "status_value hNotFound = 404" | "status_value hMethodNotAllowed = 405" | "status_value hConflict = 409"
| "status_value hPayloadTooLarge = 413" | "status_value hRequestedRangeNotSatisfiable = 416"
| "status_value hTooManyRequests = 429" | "status_value hInternalServerError = 500"
| "status_value hNotImplemented = 501" | "status_value hBadGateway = 502"
| "status_value hServiceUnavailable = 503"

fun httpStatusCodeToString :: "HttpStatusCode \<Rightarrow> string" where
  "httpStatusCodeToString hOk = ''OK''"
| "httpStatusCodeToString hCreated = ''Created''"
| "httpStatusCodeToString hAccepted = ''Accepted''"
| "httpStatusCodeToString hNoContent = ''No Content''"
| "httpStatusCodeToString hPartialContent = ''Partial Content''"
| "httpStatusCodeToString hMovedPermanently = ''Moved Permanently''"
| "httpStatusCodeToString hFound = ''Found''"
| "httpStatusCodeToString hNotModified = ''Not Modified''"
| "httpStatusCodeToString hTemporaryRedirect = ''Temporary Redirect''"
| "httpStatusCodeToString hPermanentRedirect = ''Permanent Redirect''"
| "httpStatusCodeToString hBadRequest = ''Bad Request''"
| "httpStatusCodeToString hUnauthorized = ''Unauthorized''"
| "httpStatusCodeToString hForbidden = ''Forbidden''"
| "httpStatusCodeToString hNotFound = ''Not Found''"
| "httpStatusCodeToString hMethodNotAllowed = ''Method Not Allowed''"
| "httpStatusCodeToString hConflict = ''Conflict''"
| "httpStatusCodeToString hTooManyRequests = ''Too Many Requests''"
| "httpStatusCodeToString hPayloadTooLarge = ''Payload Too Large''"
| "httpStatusCodeToString hRequestedRangeNotSatisfiable = ''Range Not Satisfiable''"
| "httpStatusCodeToString hInternalServerError = ''Internal Server Error''"
| "httpStatusCodeToString hNotImplemented = ''Not Implemented''"
| "httpStatusCodeToString hBadGateway = ''Bad Gateway''"
| "httpStatusCodeToString hServiceUnavailable = ''Service Unavailable''"

section \<open>The message\<close>

record FileBody =
  file_path :: string
  file_offset :: int
  file_length :: int

record NativeResponse =
  res_status :: HttpStatusCode
  httpVersionMinor :: nat
  res_headers :: HeaderMap
  res_body :: string
  fileBody :: "FileBody option"
  keepAlive :: bool
  chunkedBody :: "ChunkedBody option"
  res_trailers :: HeaderMap
  payloadPrepared :: bool

definition invalidatePayload :: "NativeResponse \<Rightarrow> NativeResponse" where
  "invalidatePayload r = r\<lparr>payloadPrepared := False\<rparr>"

definition set_field :: "string \<Rightarrow> string \<Rightarrow> NativeResponse \<Rightarrow> NativeResponse" where
  "set_field n v r = r\<lparr>res_headers := hm_set (res_headers r) n v\<rparr>"

definition erase_field :: "string \<Rightarrow> NativeResponse \<Rightarrow> NativeResponse" where
  "erase_field n r = r\<lparr>res_headers := hm_erase (res_headers r) n\<rparr>"

definition preparePayload :: "NativeResponse \<Rightarrow> NativeResponse" where
  "preparePayload r0 =
     (if payloadPrepared r0 then r0
      else let r = r0\<lparr>payloadPrepared := True\<rparr> in
      if chunkedBody r \<noteq> None
      then erase_field ''Content-Length'' (set_field ''Transfer-Encoding'' ''chunked'' r)
      else case fileBody r of
        Some f \<Rightarrow> set_field ''Content-Length'' (to_chars 10 (nat (file_length f mod 2 ^ 64))) r
      | None \<Rightarrow>
          if iequals (hm_find (res_headers r) ''Transfer-Encoding'') ''chunked''
          then erase_field ''Content-Length'' r
          else if res_body r = []
          then (if status_value (res_status r) \<noteq> 204 \<and> status_value (res_status r) \<noteq> 304
                then set_field ''Content-Length'' ''0'' r else r)
          else set_field ''Content-Length'' (to_chars 10 (length (res_body r))) r)"

definition containsCRLF :: "string \<Rightarrow> bool" where
  "containsCRLF s \<longleftrightarrow> (\<exists>c \<in> set s. c = CR \<or> c = LF)"

definition new_response :: NativeResponse where
  "new_response = \<lparr>res_status = hOk, httpVersionMinor = 1, res_headers = [], res_body = [], fileBody = None,
     keepAlive = True, chunkedBody = None, res_trailers = [], payloadPrepared = False\<rparr>"

definition setStatus :: "HttpStatusCode \<Rightarrow> NativeResponse \<Rightarrow> NativeResponse" where
  "setStatus c r = (invalidatePayload r)\<lparr>res_status := c\<rparr>"

definition setHeader :: "string \<Rightarrow> string \<Rightarrow> NativeResponse \<Rightarrow> NativeResponse" where
  "setHeader n v r = (if containsCRLF n \<or> containsCRLF v then r else set_field n v r)"

definition setTrailer :: "string \<Rightarrow> string \<Rightarrow> NativeResponse \<Rightarrow> NativeResponse" where
  "setTrailer n v r =
     (if \<not> containsCRLF n \<and> \<not> containsCRLF v then r\<lparr>res_trailers := hm_set (res_trailers r) n v\<rparr> else r)"

definition setBody :: "string \<Rightarrow> NativeResponse \<Rightarrow> NativeResponse" where
  "setBody b r = preparePayload ((invalidatePayload r)\<lparr>res_body := b\<rparr>)"

definition setBodyType :: "string \<Rightarrow> string \<Rightarrow> NativeResponse \<Rightarrow> NativeResponse" where
  "setBodyType b ct r =
     (if containsCRLF ct then r
      else preparePayload (set_field ''Content-Type'' ct ((invalidatePayload r)\<lparr>res_body := b\<rparr>)))"

text \<open>\<open>json\<close> is the text Boost serialises the value to.\<close>

definition setJsonBody :: "string \<Rightarrow> NativeResponse \<Rightarrow> NativeResponse" where
  "setJsonBody json r =
     preparePayload (set_field ''Content-Type'' ''application/json'' ((invalidatePayload r)\<lparr>res_body := json\<rparr>))"

text \<open>\<open>jsonWriter\<close> hands out the empty body; \<open>json\<close> is what the writer appends to it.\<close>

definition jsonWriter :: "string \<Rightarrow> NativeResponse \<Rightarrow> NativeResponse" where
  "jsonWriter json r =
     (set_field ''Content-Type'' ''application/json'' ((invalidatePayload r)\<lparr>res_body := []\<rparr>))\<lparr>res_body := json\<rparr>"

definition setFileBody :: "FileBody \<Rightarrow> string \<Rightarrow> NativeResponse \<Rightarrow> NativeResponse" where
  "setFileBody f ct r =
     (if containsCRLF ct then r
      else set_field ''Content-Type'' ct ((invalidatePayload r)\<lparr>fileBody := Some f, res_body := []\<rparr>))"

section \<open>Cookies\<close>

definition isValidCookieName :: "string \<Rightarrow> bool" where
  "isValidCookieName name \<longleftrightarrow>
     name \<noteq> [] \<and>
     (\<forall>c \<in> set name. \<not> (ord c \<le> 0x20 \<or> ord c = 0x7F \<or> c \<in> set (''()<>@,;:[]?={}/'' @ [CHR 0x5C, CHR 0x22])))"

definition cookie_safe :: "char \<Rightarrow> bool" where
  "cookie_safe ch \<longleftrightarrow>
     (let c = ord ch in c = 0x21 \<or> (c \<ge> 0x23 \<and> c \<le> 0x2B) \<or> (c \<ge> 0x2D \<and> c \<le> 0x3A)
        \<or> (c \<ge> 0x3C \<and> c \<le> 0x5B) \<or> (c \<ge> 0x5D \<and> c \<le> 0x7E))"

definition kHexDigits :: string where
  "kHexDigits = ''0123456789ABCDEF''"

fun encodeCookieValue :: "string \<Rightarrow> string" where
  "encodeCookieValue [] = []"
| "encodeCookieValue (c # cs) =
     (if cookie_safe c then c # encodeCookieValue cs
      else CHR ''%'' # kHexDigits ! (ord c div 16) # kHexDigits ! (ord c mod 16) # encodeCookieValue cs)"

record CookieOptions =
  ck_path :: string
  ck_domain :: string
  maxAge :: int
  httpOnly :: bool
  secure :: bool
  sameSite :: string

definition cookie_text :: "string \<Rightarrow> string \<Rightarrow> CookieOptions \<Rightarrow> string" where
  "cookie_text name val opts =
     name @ ''='' @ encodeCookieValue val
     @ (if ck_path opts \<noteq> [] then ''; Path='' @ ck_path opts else [])
     @ (if ck_domain opts \<noteq> [] then ''; Domain='' @ ck_domain opts else [])
     @ (if maxAge opts \<ge> 0 then ''; Max-Age='' @ signed_chars (maxAge opts) else [])
     @ (if httpOnly opts then ''; HttpOnly'' else [])
     @ (if secure opts then ''; Secure'' else [])
     @ (if sameSite opts \<noteq> [] then ''; SameSite='' @ sameSite opts else [])"

definition setCookie :: "string \<Rightarrow> string \<Rightarrow> CookieOptions \<Rightarrow> NativeResponse \<Rightarrow> NativeResponse" where
  "setCookie name val opts r =
     (if \<not> isValidCookieName name then r
      else if containsCRLF val then r
      else if containsCRLF (ck_path opts) \<or> containsCRLF (ck_domain opts) \<or> containsCRLF (sameSite opts) then r
      else r\<lparr>res_headers := hm_insert (res_headers r) ''Set-Cookie'' (cookie_text name val opts)\<rparr>)"

section \<open>Factories\<close>

definition ok_text :: "string \<Rightarrow> NativeResponse" where
  "ok_text b =
     (let r = setStatus hOk new_response in
      if b \<noteq> [] then setBodyType b ''text/plain; charset=utf-8'' r else r)"

definition ok_typed :: "string \<Rightarrow> string \<Rightarrow> NativeResponse" where
  "ok_typed b ct = setBodyType b ct (setStatus hOk new_response)"

definition json_response :: "string \<Rightarrow> NativeResponse" where
  "json_response json = setJsonBody json (setStatus hOk new_response)"

definition notFound :: NativeResponse where
  "notFound = setHeader ''X-Content-Type-Options'' ''nosniff''
     (setBodyType ''Not Found'' ''text/plain'' (setStatus hNotFound new_response))"

definition badRequest :: "string \<Rightarrow> NativeResponse" where
  "badRequest msg = setHeader ''X-Content-Type-Options'' ''nosniff''
     (setBodyType msg ''text/plain'' (setStatus hBadRequest new_response))"

definition serverError :: NativeResponse where
  "serverError = setHeader ''X-Content-Type-Options'' ''nosniff''
     (setBodyType ''Internal Server Error'' ''text/plain'' (setStatus hInternalServerError new_response))"

definition redirect :: "string \<Rightarrow> HttpStatusCode \<Rightarrow> NativeResponse" where
  "redirect loc code = setBody [] (setHeader ''Location'' loc (setStatus code new_response))"

definition rangeNotSatisfiable :: "nat \<Rightarrow> NativeResponse" where
  "rangeNotSatisfiable n = setBodyType ''416 Range Not Satisfiable'' ''text/plain''
     (setHeader ''Content-Range'' (''bytes */'' @ to_chars 10 n) (setStatus hRequestedRangeNotSatisfiable new_response))"

definition chunked :: NativeResponse where
  "chunked = set_field ''Content-Type'' ''text/plain; charset=utf-8''
     ((setStatus hOk new_response)\<lparr>chunkedBody := Some cb_new\<rparr>)"

text \<open>A change of the chunked body through the reference \<open>chunkedBody()\<close> returns.\<close>

definition on_chunkedBody :: "(ChunkedBody \<Rightarrow> ChunkedBody) \<Rightarrow> NativeResponse \<Rightarrow> NativeResponse" where
  "on_chunkedBody f r = r\<lparr>chunkedBody := map_option f (chunkedBody r)\<rparr>"

section \<open>Serialisation\<close>

definition version_char :: "NativeResponse \<Rightarrow> char" where
  "version_char r = char_of (48 + httpVersionMinor r)"

definition appendStatusCode :: "string \<Rightarrow> NativeResponse \<Rightarrow> string" where
  "appendStatusCode out r =
     out @ to_chars 10 (status_value (res_status r)) @ '' '' @ httpStatusCodeToString (res_status r)"

fun append_fields :: "string \<Rightarrow> HeaderMap \<Rightarrow> string" where
  "append_fields out [] = out"
| "append_fields out ((n, v) # es) = append_fields (out @ n @ '': '' @ v @ CRLF) es"

definition serialize :: "NativeResponse \<Rightarrow> string" where
  "serialize r =
     append_fields (appendStatusCode (''HTTP/1.'' @ [version_char r] @ '' '') r @ CRLF) (res_headers r)
     @ CRLF @ res_body r"

abbreviation put512 :: "FixedBuffer \<Rightarrow> string \<Rightarrow> FixedBuffer" where
  "put512 \<equiv> fb_append 512"

definition serializeStatusAndHeaders :: "FixedBuffer \<Rightarrow> NativeResponse \<Rightarrow> FixedBuffer" where
  "serializeStatusAndHeaders buf r =
     (let b1 = (if res_status r = hOk \<and> httpVersionMinor r = 1 then put512 buf (''HTTP/1.1 200 OK'' @ CRLF)
                else foldl put512 buf [''HTTP/1.'', [version_char r], '' '', to_chars 10 (status_value (res_status r)),
                       '' '', httpStatusCodeToString (res_status r), CRLF])
      in foldl (\<lambda>b (n, v). foldl put512 b [n, '': '', v, CRLF]) b1 (res_headers r))"

definition serializeHeadTo :: "FixedBuffer \<Rightarrow> NativeResponse \<Rightarrow> FixedBuffer" where
  "serializeHeadTo buf r = put512 (serializeStatusAndHeaders buf r) CRLF"

definition serializeHeadTo_prefix :: "FixedBuffer \<Rightarrow> string \<Rightarrow> NativeResponse \<Rightarrow> FixedBuffer" where
  "serializeHeadTo_prefix buf prefix r = put512 (put512 (serializeStatusAndHeaders buf r) prefix) CRLF"

section \<open>What the interface can build\<close>

text \<open>
  The responses a handler can produce with the operations above, where \<open>user n\<close> says which header
  names it may pass to \<open>setHeader\<close>.
\<close>

inductive built :: "(string \<Rightarrow> bool) \<Rightarrow> NativeResponse \<Rightarrow> bool" for user where
  built_new: "built user new_response"
| built_chunked: "built user chunked"
| built_status: "built user r \<Longrightarrow> built user (setStatus c r)"
| built_header: "built user r \<Longrightarrow> user n \<Longrightarrow> built user (setHeader n v r)"
| built_trailer: "built user r \<Longrightarrow> built user (setTrailer n v r)"
| built_body: "built user r \<Longrightarrow> built user (setBody b r)"
| built_bodyType: "built user r \<Longrightarrow> built user (setBodyType b ct r)"
| built_json: "built user r \<Longrightarrow> built user (setJsonBody b r)"
| built_writer: "built user r \<Longrightarrow> built user (jsonWriter b r)"
| built_file: "built user r \<Longrightarrow> built user (setFileBody f ct r)"
| built_cookie: "built user r \<Longrightarrow> built user (setCookie n v opts r)"
| built_chunks: "built user r \<Longrightarrow> built user (on_chunkedBody g r)"
| built_prepare: "built user r \<Longrightarrow> built user (preparePayload r)"

section \<open>No header can be split\<close>

definition fields_clean :: "HeaderMap \<Rightarrow> bool" where
  "fields_clean hs \<longleftrightarrow> (\<forall>e \<in> set hs. no_break (fst e) \<and> no_break (snd e))"

lemma containsCRLF_no_break [simp]: "containsCRLF s \<longleftrightarrow> \<not> no_break s"
  by (auto simp: containsCRLF_def no_break_def is_break_def)

lemma fields_clean_Nil [simp]: "fields_clean []"
  by (simp add: fields_clean_def)

lemma fields_clean_set: "fields_clean hs \<Longrightarrow> no_break n \<Longrightarrow> no_break v \<Longrightarrow> fields_clean (hm_set hs n v)"
  by (induction hs n v rule: hm_set.induct) (auto simp: fields_clean_def)

lemma fields_clean_insert: "fields_clean (hm_insert hs n v) \<longleftrightarrow> fields_clean hs \<and> no_break n \<and> no_break v"
  by (auto simp: fields_clean_def hm_insert_def)

lemma fields_clean_erase: "fields_clean hs \<Longrightarrow> fields_clean (hm_erase hs n)"
  by (simp add: fields_clean_def hm_erase_def)

lemma hex_digit_no_break: "i < 16 \<Longrightarrow> \<not> is_break (kHexDigits ! i)"
proof -
  assume "i < 16"
  then have "kHexDigits ! i \<in> set kHexDigits" by (intro nth_mem) (simp add: kHexDigits_def)
  then show ?thesis by (auto simp: kHexDigits_def is_break_def)
qed

lemma ord_div_16: "ord c div 16 < 16"
  using ord_less_256 [of c] by simp

lemma no_break_encode [simp]: "no_break (encodeCookieValue v)"
proof (induction v)
  case Nil
  then show ?case by simp
next
  case (Cons c v)
  have "cookie_safe c \<Longrightarrow> \<not> is_break c" by (auto simp: cookie_safe_def is_break_def ord_def)
  moreover have "\<not> is_break (CHR ''%'')" by (simp add: is_break_def)
  ultimately show ?case using Cons by (simp add: hex_digit_no_break ord_div_16)
qed

lemma no_break_signed [simp]: "no_break (signed_chars i)"
  by (simp add: signed_chars_def is_break_def)

lemma valid_cookie_name_no_break: "isValidCookieName n \<Longrightarrow> no_break n"
proof -
  assume "isValidCookieName n"
  then have "32 < ord c" if "c \<in> set n" for c using that unfolding isValidCookieName_def by fastforce
  moreover have "is_break c \<Longrightarrow> ord c \<le> 32" for c by (auto simp: is_break_def ord_def)
  ultimately show ?thesis unfolding no_break_def using not_le by blast
qed

lemma no_break_optional: "no_break s \<Longrightarrow> no_break (if c then s else [])"
  by simp

lemma no_break_cookie_text:
  "isValidCookieName n \<Longrightarrow> no_break (ck_path opts) \<Longrightarrow> no_break (ck_domain opts) \<Longrightarrow> no_break (sameSite opts) \<Longrightarrow>
   no_break (cookie_text n v opts)"
  unfolding cookie_text_def no_break_simps(3)
  by (intro conjI no_break_optional) (simp_all add: valid_cookie_name_no_break)

lemma preparePayload_clean: "fields_clean (res_headers r) \<Longrightarrow> fields_clean (res_headers (preparePayload r))"
  by (simp add: preparePayload_def set_field_def erase_field_def Let_def fields_clean_set fields_clean_erase
      split: option.split)

lemma preparePayload_keeps [simp]:
  "httpVersionMinor (preparePayload r) = httpVersionMinor r" "res_body (preparePayload r) = res_body r"
  "res_status (preparePayload r) = res_status r" "fileBody (preparePayload r) = fileBody r"
  "chunkedBody (preparePayload r) = chunkedBody r"
  by (simp_all add: preparePayload_def set_field_def erase_field_def Let_def split: option.split)

lemmas response_defs = new_response_def chunked_def setStatus_def setHeader_def setTrailer_def setBody_def
  setBodyType_def setJsonBody_def jsonWriter_def setFileBody_def setCookie_def on_chunkedBody_def
  invalidatePayload_def set_field_def

lemma built_clean: "built user r \<Longrightarrow> fields_clean (res_headers r) \<and> httpVersionMinor r = 1"
proof (induction rule: built.induct)
  case (built_prepare r)
  then show ?case by (simp add: preparePayload_clean)
next
  case (built_cookie r n v opts)
  then show ?case by (simp add: response_defs fields_clean_insert no_break_cookie_text)
next
  case built_chunked
  then show ?case by (simp add: response_defs fields_clean_def)
qed (simp_all add: response_defs fields_clean_set preparePayload_clean)

section \<open>The head of a message, read back\<close>

definition read_head :: "string \<Rightarrow> (string \<times> string list \<times> string) option" where
  "read_head s =
     (case take_line s of
        None \<Rightarrow> None
      | Some (st, r) \<Rightarrow> (case read_lines r of None \<Rightarrow> None | Some (ls, b) \<Rightarrow> Some (st, ls, b)))"

definition status_line :: "NativeResponse \<Rightarrow> string" where
  "status_line r = ''HTTP/1.'' @ [version_char r] @ '' '' @ to_chars 10 (status_value (res_status r)) @ '' ''
     @ httpStatusCodeToString (res_status r)"

lemma append_fields_concat: "append_fields out es = out @ concat (map (\<lambda>t. trailer_line t @ CRLF) es)"
  by (induction out es rule: append_fields.induct) (simp_all add: trailer_line_def)

lemma serialize_parts:
  "serialize r = status_line r @ CRLF @ concat (map (\<lambda>t. trailer_line t @ CRLF) (res_headers r)) @ CRLF @ res_body r"
  by (simp add: serialize_def append_fields_concat appendStatusCode_def status_line_def)

lemma no_break_reason [simp]: "no_break (httpStatusCodeToString c)"
  by (cases c) (simp_all add: is_break_def)

lemma no_break_status_line: "httpVersionMinor r \<le> 9 \<Longrightarrow> no_break (status_line r)"
proof -
  assume v: "httpVersionMinor r \<le> 9"
  then have "version_char r = digit_char (httpVersionMinor r)" by (simp add: version_char_def digit_char_def)
  then have "\<not> is_break (version_char r)" using v by (simp add: digit_char_no_break)
  then show ?thesis by (simp add: status_line_def is_break_def)
qed

lemma read_head_parts:
  "no_break st \<Longrightarrow> fields_clean hs \<Longrightarrow>
   read_head (st @ CRLF @ concat (map (\<lambda>t. trailer_line t @ CRLF) hs) @ CRLF @ b) = Some (st, map trailer_line hs, b)"
  using read_lines_trailers [of hs b]
  by (simp add: read_head_def take_line_here fields_clean_def trailer_line_def is_break_def)

section \<open>Framing\<close>

abbreviation values_of :: "NativeResponse \<Rightarrow> string \<Rightarrow> string list" where
  "values_of r n \<equiv> hm_findAll (res_headers r) n"

definition not_framing :: "string \<Rightarrow> bool" where
  "not_framing n \<longleftrightarrow> \<not> iequals n ''Content-Length'' \<and> \<not> iequals n ''Transfer-Encoding''"

text \<open>What \<open>preparePayload\<close> has to establish: exactly one way to find the end of the body.\<close>

definition framed :: "NativeResponse \<Rightarrow> bool" where
  "framed r \<longleftrightarrow>
     (if chunkedBody r \<noteq> None
      then values_of r ''Transfer-Encoding'' = [''chunked''] \<and> values_of r ''Content-Length'' = []
      else values_of r ''Transfer-Encoding'' = []
        \<and> (case fileBody r of
             Some f \<Rightarrow> values_of r ''Content-Length'' = [to_chars 10 (nat (file_length f mod 2 ^ 64))]
           | None \<Rightarrow>
               if res_body r = [] \<and> res_status r \<in> {hNoContent, hNotModified} then True
               else values_of r ''Content-Length'' = [to_chars 10 (length (res_body r))]))"

definition framing_inv :: "NativeResponse \<Rightarrow> bool" where
  "framing_inv r \<longleftrightarrow>
     (payloadPrepared r \<longrightarrow> framed r) \<and> length (values_of r ''Content-Length'') \<le> 1
     \<and> values_of r ''Transfer-Encoding'' \<in> {[], [''chunked'']}
     \<and> (values_of r ''Transfer-Encoding'' \<noteq> [] \<longrightarrow> chunkedBody r \<noteq> None)"

lemma name_lengths [simp]:
  "length m \<noteq> length n \<Longrightarrow> \<not> iequals m n"
  by (simp add: iequals_def)

lemma values_set: "hm_findAll (hm_set hs k v) n = (if iequals k n then v # tl (hm_findAll hs n) else hm_findAll hs n)"
  by (simp add: headers.all_put split: list.split)

lemma short_list: "length xs \<le> Suc 0 \<Longrightarrow> tl xs = []"
  by (cases xs) auto

lemma to_chars_0: "to_chars 10 0 = ''0''"
  by (subst to_chars.simps) (simp add: digit_char_def, code_simp)

lemma status_value_empty: "status_value c = 204 \<or> status_value c = 304 \<longleftrightarrow> c \<in> {hNoContent, hNotModified}"
  by (cases c) simp_all

lemma preparePayload_framed:
  assumes "framing_inv r"
  shows "framing_inv (preparePayload r) \<and> framed (preparePayload r)"
proof (cases "payloadPrepared r")
  case True
  with assms show ?thesis by (simp add: preparePayload_def framing_inv_def)
next
  case False
  let ?r = "r\<lparr>payloadPrepared := True\<rparr>"
  have cl: "tl (values_of r ''Content-Length'') = []" and te: "tl (values_of r ''Transfer-Encoding'') = []"
    using assms by (auto simp: framing_inv_def short_list)
  have find: "chunkedBody r = None \<Longrightarrow> \<not> iequals (hm_find (res_headers r) ''Transfer-Encoding'') ''chunked''"
    using assms by (auto simp: framing_inv_def hm_find_findAll)
  show ?thesis
  proof (cases "chunkedBody r = None")
    case cn: False
    then have "preparePayload r = erase_field ''Content-Length'' (set_field ''Transfer-Encoding'' ''chunked'' ?r)"
      using False by (simp add: preparePayload_def)
    then show ?thesis using cn te
      by (simp add: framing_inv_def framed_def erase_field_def set_field_def values_set headers.all_del)
  next
    case cn: True
    have te0: "values_of r ''Transfer-Encoding'' = []" using assms cn by (auto simp: framing_inv_def)
    show ?thesis
    proof (cases "fileBody r")
      case (Some f)
      then have "preparePayload r = set_field ''Content-Length'' (to_chars 10 (nat (file_length f mod 2 ^ 64))) ?r"
        using False cn by (simp add: preparePayload_def)
      then show ?thesis using cn te0 cl Some
        by (simp add: framing_inv_def framed_def set_field_def values_set)
    next
      case None
      show ?thesis
      proof (cases "res_body r = [] \<and> res_status r \<in> {hNoContent, hNotModified}")
        case True
        then have "preparePayload r = ?r"
          using False cn None find status_value_empty [of "res_status r"] by (auto simp: preparePayload_def Let_def)
        then show ?thesis using assms cn te0 None True by (simp add: framing_inv_def framed_def)
      next
        case empty: False
        then have "preparePayload r = set_field ''Content-Length'' (to_chars 10 (length (res_body r))) ?r"
          using False cn None find status_value_empty [of "res_status r"] by (auto simp: preparePayload_def Let_def to_chars_0)
        then show ?thesis using cn te0 cl None empty
          by (simp add: framing_inv_def framed_def set_field_def values_set)
      qed
    qed
  qed
qed

lemma values_set_other: "\<not> iequals k n \<Longrightarrow> hm_findAll (hm_set hs k v) n = hm_findAll hs n"
  by (simp add: values_set)

lemma framing_inv_cong:
  assumes "framing_inv r"
    and "values_of r' ''Content-Length'' = values_of r ''Content-Length''"
    and "values_of r' ''Transfer-Encoding'' = values_of r ''Transfer-Encoding''"
    and "res_body r' = res_body r" and "res_status r' = res_status r" and "fileBody r' = fileBody r"
    and "chunkedBody r' = None \<longleftrightarrow> chunkedBody r = None" and "payloadPrepared r' = payloadPrepared r"
  shows "framing_inv r'"
  using assms(1) unfolding framing_inv_def framed_def assms(2-8) .

lemma framing_inv_irrelevant:
  "framing_inv r \<Longrightarrow> not_framing n \<Longrightarrow> framing_inv (set_field n v r)"
  by (erule framing_inv_cong) (simp_all add: not_framing_def set_field_def values_set)

lemma framing_inv_invalid:
  "framing_inv r \<Longrightarrow> framing_inv (invalidatePayload r)"
  by (simp add: framing_inv_def invalidatePayload_def)

lemma framing_inv_fields:
  assumes "framing_inv r" and "\<not> payloadPrepared r"
  shows "framing_inv (r\<lparr>res_body := b\<rparr>)" and "framing_inv (r\<lparr>res_status := c\<rparr>)"
    and "framing_inv (r\<lparr>fileBody := f, res_body := b\<rparr>)"
  using assms by (simp_all add: framing_inv_def)

lemma not_prepared [simp]: "\<not> payloadPrepared (invalidatePayload r)"
  by (simp add: invalidatePayload_def)

lemma content_type_not_framing [simp]: "not_framing ''Content-Type''"
  by (simp add: not_framing_def)

lemmas framing_steps = framing_inv_irrelevant framing_inv_invalid framing_inv_fields
  preparePayload_framed [THEN conjunct1]

lemma built_framing: "built not_framing r \<Longrightarrow> framing_inv r"
proof (induction rule: built.induct)
  case built_new
  show ?case by (simp add: framing_inv_def new_response_def)
next
  case built_chunked
  show ?case by (simp add: framing_inv_def chunked_def setStatus_def new_response_def invalidatePayload_def set_field_def)
next
  case (built_writer r b)
  then have "framing_inv (set_field ''Content-Type'' ''application/json'' ((invalidatePayload r)\<lparr>res_body := []\<rparr>))"
    by (simp add: framing_steps)
  then show ?case
    unfolding jsonWriter_def by (rule framing_inv_fields(1)) (simp add: set_field_def invalidatePayload_def)
next
  case (built_trailer r n v)
  from built_trailer.IH show ?case by (rule framing_inv_cong) (simp_all add: setTrailer_def)
next
  case (built_cookie r n v opts)
  from built_cookie.IH show ?case by (rule framing_inv_cong) (simp_all add: setCookie_def headers.all_add)
next
  case (built_chunks r g)
  from built_chunks.IH show ?case by (rule framing_inv_cong) (simp_all add: on_chunkedBody_def)
qed (simp_all add: setStatus_def setHeader_def setBody_def setBodyType_def setJsonBody_def setFileBody_def framing_steps)

section \<open>The characters of a cookie value\<close>

lemma semicolon_unsafe: "\<not> cookie_safe (CHR '';'')"
  by code_simp

lemma encode_safe: "list_all cookie_safe (encodeCookieValue v)"
proof (induction v)
  case Nil
  then show ?case by simp
next
  case (Cons c v)
  have hex: "list_all cookie_safe (CHR ''%'' # kHexDigits)" by code_simp
  have len: "length kHexDigits = 16" by code_simp
  have "cookie_safe (kHexDigits ! i)" if "i < 16" for i
    using hex that len unfolding list_all_length by (metis Suc_less_eq length_Cons nth_Cons_Suc)
  with Cons hex show ?case by (simp add: ord_div_16)
qed

section \<open>Properties\<close>

text \<open>
  One way to find the end, if the handler never passes \<open>Content-Length\<close> or \<open>Transfer-Encoding\<close>
  to \<open>setHeader\<close>: the prepared response has either the chunked coding and no length, or no transfer
  coding and exactly one \<open>Content-Length\<close>, the number of bytes of the file range or of the body. The one
  exception is a 204 or 304 with an empty body, for which nothing is claimed about \<open>Content-Length\<close>: the
  code sets none and keeps one that an earlier body left.
\<close>

theorem response_framed:
  assumes "built not_framing r"
  shows "framed (preparePayload r)"
  using preparePayload_framed [OF built_framing [OF assms]] by (rule conjunct2)

lemma notFound_parts: "chunkedBody notFound = None" "fileBody notFound = None" "res_body notFound = ''Not Found''"
  by code_simp+

theorem response_framed_witness:
  "values_of (preparePayload (jsonWriter ''[1]'' (setStatus hNotFound notFound))) ''Content-Length'' = [''3'']"
proof -
  have nosniff: "not_framing ''X-Content-Type-Options''" by (simp add: not_framing_def)
  then have "built not_framing (jsonWriter ''[1]'' (setStatus hNotFound notFound))"
    unfolding notFound_def by (intro built.intros)
  from response_framed [OF this] have "framed (preparePayload (jsonWriter ''[1]'' (setStatus hNotFound notFound)))" .
  moreover have "to_chars 10 (Suc (Suc (Suc 0))) = ''3''" by code_simp
  ultimately show ?thesis
    by (simp add: framed_def jsonWriter_def setStatus_def set_field_def invalidatePayload_def notFound_parts)
qed

text \<open>
  The stack-buffered serialiser of the head, with its fast path for 200 and its fixed 512 bytes,
  writes the same bytes as the general serialiser; with a prefix, it inserts exactly that prefix
  after the last header field.
\<close>

theorem head_serializers_agree:
  "fb_view (serializeHeadTo (fb_new 512) r) @ res_body r = serialize r
   \<and> (\<exists>fields. fb_view (serializeHeadTo (fb_new 512) r) = fields @ CRLF
        \<and> fb_view (serializeHeadTo_prefix (fb_new 512) prefix r) = fields @ prefix @ CRLF)"
proof -
  let ?s = "serializeStatusAndHeaders (fb_new 512) r"
  let ?fields = "status_line r @ CRLF @ concat (map (\<lambda>t. trailer_line t @ CRLF) (res_headers r))"
  have fold: "fb_ok 512 b \<Longrightarrow> fb_ok 512 (foldl (\<lambda>b (n, v). put512 (put512 (put512 (put512 b n) '': '') v) CRLF) b hs)
      \<and> fb_view (foldl (\<lambda>b (n, v). put512 (put512 (put512 (put512 b n) '': '') v) CRLF) b hs)
        = fb_view b @ concat (map (\<lambda>t. trailer_line t @ CRLF) hs)" for b hs
    by (induction hs arbitrary: b) (auto simp: trailer_line_def)
  have "to_chars 10 200 = ''200''" and "char_of (49 :: nat) = CHR ''1''" by code_simp+
  then have "fb_ok 512 ?s \<and> fb_view ?s = ?fields"
    by (auto simp: serializeStatusAndHeaders_def Let_def fold status_line_def version_char_def)
  then show ?thesis
    by (auto simp: serializeHeadTo_def serializeHeadTo_prefix_def serialize_parts)
qed

text \<open>
  A cookie cannot carry another one or an attribute: \<open>setCookie\<close> either changes nothing or appends
  exactly one \<open>Set-Cookie\<close> field, whose text up to the first semicolon is the name, an equals sign and
  the encoded value, with the name ending at the first equals sign, and the encoded value consists
  of the characters the code declares safe.
\<close>

theorem cookie_confined:
  "if isValidCookieName n \<and> \<not> containsCRLF (v @ ck_path opts @ ck_domain opts @ sameSite opts)
   then (\<exists>t. setCookie n v opts r = r\<lparr>res_headers := res_headers r @ [(''Set-Cookie'', t)]\<rparr>
          \<and> fst (cut_at (CHR '';'') t) = n @ ''='' @ encodeCookieValue v
          \<and> fst (cut_at (CHR ''='') t) = n \<and> list_all cookie_safe (encodeCookieValue v))
   else setCookie n v opts r = r"
proof (cases "isValidCookieName n \<and> \<not> containsCRLF (v @ ck_path opts @ ck_domain opts @ sameSite opts)")
  case True
  let ?t = "cookie_text n v opts"
  have name: "CHR '';'' \<notin> set n" "CHR ''='' \<notin> set n" using True unfolding isValidCookieName_def by auto
  have safe: "list_all cookie_safe (encodeCookieValue v)" by (rule encode_safe)
  have semi: "CHR '';'' \<notin> set (n @ ''='' @ encodeCookieValue v)"
    using name(1) safe by (auto simp: list_all_iff semicolon_unsafe)
  obtain rest where t: "?t = (n @ ''='' @ encodeCookieValue v) @ rest" and rest: "rest = [] \<or> (\<exists>u. rest = CHR '';'' # u)"
    unfolding cookie_text_def by (auto split: if_splits)
  have "fst (cut_at (CHR '';'') ?t) = n @ ''='' @ encodeCookieValue v"
    using rest semi unfolding t by (auto simp del: append_assoc)
  moreover have "fst (cut_at (CHR ''='') ?t) = n" using name(2) by (simp add: cookie_text_def)
  moreover have "setCookie n v opts r = r\<lparr>res_headers := res_headers r @ [(''Set-Cookie'', ?t)]\<rparr>"
    using True by (simp add: setCookie_def hm_insert_def)
  ultimately show ?thesis using True safe by auto
next
  case False
  then show ?thesis by (auto simp: setCookie_def)
qed

text \<open>The encoding is not injective: the percent sign itself counts as safe.\<close>

lemma cookie_percent_collides: "encodeCookieValue '' '' = encodeCookieValue ''%20''"
  by code_simp

end
