(* ===== verification/Http_Request.thy ===== *)
theory Http_Request
  imports Http_Response
begin

text \<open>
  HTTP requests: \<^verbatim>\<open>src/src/core/HttpRequest.h\<close>, \<^verbatim>\<open>HttpRequest.cpp\<close>, the methods of
  \<^verbatim>\<open>HttpTypes.h\<close> and \<open>Router::urlDecode\<close>, on which the query parser rests. Path and query, the bounded header
  table, path parameters, and the lazily parsed cookies, query and form parameters with their caches.

  A value the class only stores (\<open>std::any\<close>, a parsed JSON document, the parts of a multipart body) is
  of the type \<open>'v\<close>.
\<close>

section \<open>Methods\<close>

datatype HttpMethod = hGet | hPost | hPut | hDelete | hPatch | hHead | hOptions | hUnknown

fun method_index :: "HttpMethod \<Rightarrow> nat" where
  "method_index hGet = 0" | "method_index hPost = 1" | "method_index hPut = 2" | "method_index hDelete = 3"
| "method_index hPatch = 4" | "method_index hHead = 5" | "method_index hOptions = 6" | "method_index hUnknown = 7"

definition isHttpMethodIdempotent :: "HttpMethod \<Rightarrow> bool" where
  "isHttpMethodIdempotent m \<longleftrightarrow> m = hGet \<or> m = hHead \<or> m = hPut \<or> m = hDelete \<or> m = hOptions"

fun httpMethodToString :: "HttpMethod \<Rightarrow> string" where
  "httpMethodToString hGet = ''GET''"
| "httpMethodToString hPost = ''POST''"
| "httpMethodToString hPut = ''PUT''"
| "httpMethodToString hDelete = ''DELETE''"
| "httpMethodToString hPatch = ''PATCH''"
| "httpMethodToString hHead = ''HEAD''"
| "httpMethodToString hOptions = ''OPTIONS''"
| "httpMethodToString hUnknown = ''UNKNOWN''"

definition stringToHttpMethod :: "string \<Rightarrow> HttpMethod" where
  "stringToHttpMethod s =
     (if s = ''GET'' then hGet
      else if s = ''POST'' then hPost
      else if s = ''PUT'' then hPut
      else if s = ''DELETE'' then hDelete
      else if s = ''PATCH'' then hPatch
      else if s = ''HEAD'' then hHead
      else if s = ''OPTIONS'' then hOptions
      else hUnknown)"

section \<open>URL decoding\<close>

text \<open>The table is built by four loops, each overwriting its range; 255 marks what is no digit.\<close>

definition hexLookup :: "nat list" where
  "hexLookup =
     (let t0 = map (\<lambda>_. 255) [0..<256];
          t1 = foldl (\<lambda>t i. t[i := i - 48]) t0 [48..<58];
          t2 = foldl (\<lambda>t i. t[i := i - 65 + 10]) t1 [65..<71]
      in foldl (\<lambda>t i. t[i := i - 97 + 10]) t2 [97..<103])"

definition hex_of :: "char \<Rightarrow> nat" where
  "hex_of c = hexLookup ! ord c"

function urlDecode :: "string \<Rightarrow> string" where
  "urlDecode [] = []"
| "urlDecode (c # cs) =
     (if c = CHR ''%'' \<and> 2 \<le> length cs \<and> hex_of (cs ! 0) \<noteq> 255 \<and> hex_of (cs ! 1) \<noteq> 255
      then let d = char_of (hex_of (cs ! 0) * 16 + hex_of (cs ! 1)) in
           if d \<noteq> CHR 0x00 then d # urlDecode (drop 2 cs) else urlDecode (drop 2 cs)
      else if c = CHR ''+'' then CHR '' '' # urlDecode cs
      else c # urlDecode cs)"
  by pat_completeness auto
termination by (relation "measure length") auto

section \<open>The request headers\<close>

definition kMaxHeaders :: nat where
  "kMaxHeaders = 64"

type_synonym RequestHeaders = "(string \<times> string) list"

definition rh_add :: "RequestHeaders \<Rightarrow> string \<Rightarrow> string \<Rightarrow> RequestHeaders" where
  "rh_add hs n v = (if length hs < kMaxHeaders then hs @ [(n, v)] else hs)"

fun rh_find :: "RequestHeaders \<Rightarrow> string \<Rightarrow> string" where
  "rh_find [] name = []"
| "rh_find ((n, v) # hs) name = (if iequals n name then v else rh_find hs name)"

fun rh_contains :: "RequestHeaders \<Rightarrow> string \<Rightarrow> bool" where
  "rh_contains [] name = False"
| "rh_contains ((n, v) # hs) name = (if iequals n name then True else rh_contains hs name)"

text \<open>\<open>while (!s.empty() && s.front() == ' ')\<close> and the same at the back.\<close>

definition trim_front :: "string \<Rightarrow> string" where
  "trim_front s = dropWhile (\<lambda>c. c = CHR '' '') s"

definition trim_back :: "string \<Rightarrow> string" where
  "trim_back s = rev (dropWhile (\<lambda>c. c = CHR '' '') (rev s))"

function connectionHasUpgradeToken :: "string \<Rightarrow> bool" where
  "connectionHasUpgradeToken sv =
     (if sv = [] then False
      else let (token, rest) = cut_at (CHR '','') sv in
           if iequals (trim_back (trim_front token)) ''upgrade'' then True
           else connectionHasUpgradeToken rest)"
  by pat_completeness auto
termination
  by (relation "measure length") (auto simp: cut_at_def split: option.splits)

declare connectionHasUpgradeToken.simps [simp del]

section \<open>The request\<close>

record 'v HttpRequest =
  rq_method :: HttpMethod
  rq_target :: string
  rq_headers :: RequestHeaders
  rq_body :: string
  upgradePreScanned :: "bool option"
  ownedHeaders :: HeaderMap
  pathParams :: "(string \<times> string) list"
  rq_cookies :: "(string \<times> string) list option"
  rq_queryParams :: "(string \<times> string) list option"
  rq_formParams :: "(string \<times> string) list option"
  cachedJsonBody :: "'v option"
  cachedMultipartParts :: "'v option"
  rq_attributes :: "(string \<times> 'v) list option"

definition new_request :: "'v HttpRequest" where
  "new_request = \<lparr>rq_method = hUnknown, rq_target = [], rq_headers = [], rq_body = [], upgradePreScanned = None,
     ownedHeaders = [], pathParams = [], rq_cookies = None, rq_queryParams = None, rq_formParams = None,
     cachedJsonBody = None, cachedMultipartParts = None, rq_attributes = None\<rparr>"

definition isUpgrade :: "'v HttpRequest \<Rightarrow> bool" where
  "isUpgrade r =
     (let hasUpgrade = (case upgradePreScanned r of Some b \<Rightarrow> b
                        | None \<Rightarrow> connectionHasUpgradeToken (rh_find (rq_headers r) ''Connection''))
      in if \<not> hasUpgrade then False else iequals (rh_find (rq_headers r) ''Upgrade'') ''websocket'')"

definition rq_path :: "'v HttpRequest \<Rightarrow> string" where
  "rq_path r = (case find_char (CHR ''?'') (rq_target r) of Some pos \<Rightarrow> take pos (rq_target r) | None \<Rightarrow> rq_target r)"

definition rq_query :: "'v HttpRequest \<Rightarrow> string" where
  "rq_query r = (case find_char (CHR ''?'') (rq_target r) of Some pos \<Rightarrow> drop (pos + 1) (rq_target r) | None \<Rightarrow> [])"

definition rq_header :: "'v HttpRequest \<Rightarrow> string \<Rightarrow> string" where
  "rq_header r n = rh_find (rq_headers r) n"

definition setMethod :: "HttpMethod \<Rightarrow> 'v HttpRequest \<Rightarrow> 'v HttpRequest" where
  "setMethod m r = r\<lparr>rq_method := m\<rparr>"

definition setTarget :: "string \<Rightarrow> 'v HttpRequest \<Rightarrow> 'v HttpRequest" where
  "setTarget t r = r\<lparr>rq_target := t\<rparr>"

definition copy_owned :: "HeaderMap \<Rightarrow> RequestHeaders" where
  "copy_owned hs = foldl (\<lambda>rs (n, v). rh_add rs n v) [] hs"

definition rq_setHeader :: "string \<Rightarrow> string \<Rightarrow> 'v HttpRequest \<Rightarrow> 'v HttpRequest" where
  "rq_setHeader n v r =
     (if containsCRLF n \<or> containsCRLF v then r
      else let owned = hm_set (ownedHeaders r) n v in
           r\<lparr>ownedHeaders := owned, rq_headers := copy_owned owned, upgradePreScanned := None\<rparr>)"

definition rq_setBody :: "string \<Rightarrow> 'v HttpRequest \<Rightarrow> 'v HttpRequest" where
  "rq_setBody b r =
     (let owned = hm_set (ownedHeaders r) ''Content-Length'' (to_chars 10 (length b)) in
      r\<lparr>rq_body := b, ownedHeaders := owned, rq_headers := copy_owned owned\<rparr>)"

definition acceptBody :: "string \<Rightarrow> 'v HttpRequest \<Rightarrow> 'v HttpRequest" where
  "acceptBody b r = r\<lparr>rq_body := b, cachedJsonBody := None, rq_formParams := None, cachedMultipartParts := None\<rparr>"

text \<open>\<open>parse\<close> is \<open>boost::json::parse\<close>, \<open>None\<close> its error code; \<open>null\<close> the JSON null.\<close>

definition jsonBody :: "(string \<Rightarrow> 'v option) \<Rightarrow> 'v \<Rightarrow> 'v HttpRequest \<Rightarrow> 'v \<times> 'v HttpRequest" where
  "jsonBody parse null r =
     (case cachedJsonBody r of
        Some v \<Rightarrow> (v, r)
      | None \<Rightarrow> let v = (case parse (rq_body r) of None \<Rightarrow> null | Some v \<Rightarrow> v) in (v, r\<lparr>cachedJsonBody := Some v\<rparr>))"

subsection \<open>Path parameters\<close>

fun find_param :: "(string \<times> string) list \<Rightarrow> string \<Rightarrow> string" where
  "find_param [] name = []"
| "find_param ((k, v) # ps) name = (if k = name then v else find_param ps name)"

definition rq_param :: "'v HttpRequest \<Rightarrow> string \<Rightarrow> string" where
  "rq_param r name = find_param (pathParams r) name"

fun put_param :: "(string \<times> string) list \<Rightarrow> string \<Rightarrow> string \<Rightarrow> (string \<times> string) list" where
  "put_param [] name val = [(name, val)]"
| "put_param ((k, v) # ps) name val = (if k = name then (k, val) # ps else (k, v) # put_param ps name val)"

definition setParam :: "string \<Rightarrow> string \<Rightarrow> 'v HttpRequest \<Rightarrow> 'v HttpRequest" where
  "setParam name val r = r\<lparr>pathParams := put_param (pathParams r) name val\<rparr>"

definition hasParam :: "'v HttpRequest \<Rightarrow> string \<Rightarrow> bool" where
  "hasParam r name \<longleftrightarrow> (\<exists>p \<in> set (pathParams r). fst p = name)"

subsection \<open>Cookies\<close>

text \<open>\<open>try_emplace\<close> of an \<open>unordered_map\<close>: the first value of a key stays.\<close>

definition try_emplace :: "string \<Rightarrow> string \<Rightarrow> (string \<times> string) list \<Rightarrow> (string \<times> string) list" where
  "try_emplace k v m = (if k \<in> fst ` set m then m else m @ [(k, v)])"

lemma cut_trim_shorter: "sv \<noteq> [] \<Longrightarrow> (p, r) = cut_at c (trim_front sv) \<Longrightarrow> length r < length sv"
proof -
  assume sv: "sv \<noteq> []" and cut: "(p, r) = cut_at c (trim_front sv)"
  have le: "length (trim_front sv) \<le> length sv" by (simp add: trim_front_def length_dropWhile_le)
  show ?thesis
  proof (cases "trim_front sv = []")
    case True
    with cut sv show ?thesis by simp
  next
    case False
    from cut_at_shorter [OF this, of c] cut le show ?thesis by (metis less_le_trans snd_conv)
  qed
qed

function parse_cookie_text :: "string \<Rightarrow> (string \<times> string) list \<Rightarrow> (string \<times> string) list" where
  "parse_cookie_text sv m =
     (if sv = [] then m
      else let (pair, rest) = cut_at (CHR '';'') (trim_front sv) in
           case find_char (CHR ''='') pair of
             None \<Rightarrow> parse_cookie_text rest m
           | Some eq \<Rightarrow>
               let name = trim_back (trim_front (take eq pair)); val = drop (eq + 1) pair in
               parse_cookie_text rest (if name \<noteq> [] then try_emplace name val m else m))"
  by pat_completeness auto
termination by (relation "measure (length \<circ> fst)") (auto simp: cut_trim_shorter)

declare parse_cookie_text.simps [simp del]

definition parseCookies :: "'v HttpRequest \<Rightarrow> 'v HttpRequest" where
  "parseCookies r =
     (let cookieHeader = rq_header r ''Cookie'' in
      if cookieHeader = [] then r\<lparr>rq_cookies := Some []\<rparr>
      else r\<lparr>rq_cookies := Some (parse_cookie_text cookieHeader [])\<rparr>)"

definition cookies :: "'v HttpRequest \<Rightarrow> (string \<times> string) list \<times> 'v HttpRequest" where
  "cookies r = (let r1 = (if rq_cookies r = None then parseCookies r else r) in (the (rq_cookies r1), r1))"

definition rq_cookie :: "string \<Rightarrow> 'v HttpRequest \<Rightarrow> string \<times> 'v HttpRequest" where
  "rq_cookie name r =
     (let (m, r1) = cookies r in ((case map_of m name of Some v \<Rightarrow> v | None \<Rightarrow> []), r1))"

definition hasCookie :: "string \<Rightarrow> 'v HttpRequest \<Rightarrow> bool \<times> 'v HttpRequest" where
  "hasCookie name r = (let (m, r1) = cookies r in (map_of m name \<noteq> None, r1))"

subsection \<open>Query and form parameters\<close>

function parseUrlEncoded :: "string \<Rightarrow> (string \<times> string) list \<Rightarrow> (string \<times> string) list" where
  "parseUrlEncoded input out =
     (if input = [] then out
      else let (pair, rest) = cut_at (CHR ''&'') input in
           if pair = [] then parseUrlEncoded rest out
           else let (rawKey, rawValue) = (case find_char (CHR ''='') pair of
                      Some eq \<Rightarrow> (take eq pair, drop (eq + 1) pair) | None \<Rightarrow> (pair, [])) in
             if rawKey = [] then parseUrlEncoded rest out
             else parseUrlEncoded rest (out @ [(urlDecode rawKey, urlDecode rawValue)]))"
  by pat_completeness auto
termination
  by (relation "measure (length \<circ> fst)") (auto simp: cut_at_def split: option.splits)

declare parseUrlEncoded.simps [simp del]

text \<open>
  \<open>find\<close> of an \<open>unordered_multimap\<close> gives one of the values of the key; which one is the choice
  \<open>pick\<close> of the library.
\<close>

definition mm_find :: "(string list \<Rightarrow> string) \<Rightarrow> (string \<times> string) list \<Rightarrow> string \<Rightarrow> string option" where
  "mm_find pick m k = (case [v. (k', v) \<leftarrow> m, k' = k] of [] \<Rightarrow> None | v # vs \<Rightarrow> Some (pick (v # vs)))"

definition parseQueryParams :: "'v HttpRequest \<Rightarrow> 'v HttpRequest" where
  "parseQueryParams r =
     r\<lparr>rq_queryParams := Some (if rq_query r \<noteq> [] then parseUrlEncoded (rq_query r) [] else [])\<rparr>"

definition queryParams :: "'v HttpRequest \<Rightarrow> (string \<times> string) list \<times> 'v HttpRequest" where
  "queryParams r = (let r1 = (if rq_queryParams r = None then parseQueryParams r else r) in (the (rq_queryParams r1), r1))"

definition queryParam ::
  "(string list \<Rightarrow> string) \<Rightarrow> string \<Rightarrow> 'v HttpRequest \<Rightarrow> string option \<times> 'v HttpRequest" where
  "queryParam pick name r = (let (m, r1) = queryParams r in (mm_find pick m name, r1))"

definition hasQueryParam :: "string \<Rightarrow> 'v HttpRequest \<Rightarrow> bool \<times> 'v HttpRequest" where
  "hasQueryParam name r = (let (m, r1) = queryParams r in (name \<in> fst ` set m, r1))"

text \<open>\<open>s.find(t) != npos\<close> for strings.\<close>

fun contains_text :: "string \<Rightarrow> string \<Rightarrow> bool" where
  "contains_text [] t = (t = [])"
| "contains_text (c # s) t = (take (length t) (c # s) = t \<or> contains_text s t)"

definition parseFormParams :: "'v HttpRequest \<Rightarrow> 'v HttpRequest" where
  "parseFormParams r =
     r\<lparr>rq_formParams := Some
        (if contains_text (rq_header r ''Content-Type'') ''application/x-www-form-urlencoded'' \<and> rq_body r \<noteq> []
         then parseUrlEncoded (rq_body r) [] else [])\<rparr>"

definition formParams :: "'v HttpRequest \<Rightarrow> (string \<times> string) list \<times> 'v HttpRequest" where
  "formParams r = (let r1 = (if rq_formParams r = None then parseFormParams r else r) in (the (rq_formParams r1), r1))"

definition formParam ::
  "(string list \<Rightarrow> string) \<Rightarrow> string \<Rightarrow> 'v HttpRequest \<Rightarrow> string option \<times> 'v HttpRequest" where
  "formParam pick name r = (let (m, r1) = formParams r in (mm_find pick m name, r1))"

definition hasFormParam :: "string \<Rightarrow> 'v HttpRequest \<Rightarrow> bool \<times> 'v HttpRequest" where
  "hasFormParam name r = (let (m, r1) = formParams r in (name \<in> fst ` set m, r1))"

subsection \<open>Attributes\<close>

definition setAttribute :: "string \<Rightarrow> 'v \<Rightarrow> 'v HttpRequest \<Rightarrow> 'v HttpRequest" where
  "setAttribute k v r =
     (let m = (case rq_attributes r of None \<Rightarrow> [] | Some m \<Rightarrow> m) in
      r\<lparr>rq_attributes := Some (if k \<in> fst ` set m then map (\<lambda>(k', v'). (k', if k' = k then v else v')) m
                               else m @ [(k, v)])\<rparr>)"

definition getAttribute :: "string \<Rightarrow> 'v HttpRequest \<Rightarrow> 'v option" where
  "getAttribute k r = (case rq_attributes r of None \<Rightarrow> None | Some m \<Rightarrow> map_of m k)"

section \<open>Decoding what was encoded\<close>

lemma length_foldl_update [simp]: "length (foldl (\<lambda>t i. t[i := f i]) xs is) = length xs"
  by (induction "is" arbitrary: xs) simp_all

text \<open>The table agrees with the reading of hexadecimal digits.\<close>

lemma hex_of_digit: "hex_of c = (case digit_value c of Some d \<Rightarrow> d | None \<Rightarrow> 255)"
proof -
  have o: "ord c < length (map (\<lambda>_. 255 :: nat) [0..<256])" using ord_less_256 [of c] by simp
  have z: "map (\<lambda>_. 255) [0..<256] ! ord c = (255 :: nat)" using ord_less_256 [of c] by simp
  have t: "hex_of c = (if ord c \<in> set [97..<103] then ord c - 97 + 10
      else if ord c \<in> set [65..<71] then ord c - 65 + 10
      else if ord c \<in> set [48..<58] then ord c - 48 else 255)"
    unfolding hex_of_def hexLookup_def Let_def
    by (subst nth_foldl_update, simp only: distinct_upt, simp only: length_foldl_update o)+ (simp only: z)
  show ?thesis unfolding t digit_value_def Let_def set_upt by (auto split: if_splits)
qed

lemma hex_of_kHexDigits: "i < 16 \<Longrightarrow> hex_of (kHexDigits ! i) = i"
proof -
  have "map hex_of kHexDigits = [0..<16]"
    by (simp add: hex_of_digit kHexDigits_def digit_value_def ord_def upt_rec)
  moreover assume "i < 16"
  moreover have "length kHexDigits = 16" by code_simp
  ultimately show ?thesis by (metis add_0 nth_map nth_upt)
qed

definition unreserved :: "char \<Rightarrow> bool" where
  "unreserved ch \<longleftrightarrow>
     (let c = ord ch in (48 \<le> c \<and> c \<le> 57) \<or> (65 \<le> c \<and> c \<le> 90) \<or> (97 \<le> c \<and> c \<le> 122)
        \<or> c = 45 \<or> c = 46 \<or> c = 95 \<or> c = 126)"

text \<open>The encoding of RFC 3986 a client applies.\<close>

fun urlEncode :: "string \<Rightarrow> string" where
  "urlEncode [] = []"
| "urlEncode (c # cs) =
     (if unreserved c then c # urlEncode cs
      else CHR ''%'' # kHexDigits ! (ord c div 16) # kHexDigits ! (ord c mod 16) # urlEncode cs)"

lemma char_of_ord [simp]: "char_of (ord c) = c"
  by (simp add: ord_def)

lemma unreserved_plain: "unreserved c \<Longrightarrow> c \<noteq> CHR ''%'' \<and> c \<noteq> CHR ''+'' \<and> c \<noteq> CHR ''&'' \<and> c \<noteq> CHR ''=''"
  by (auto simp: unreserved_def ord_def)

lemma urlDecode_encode:
  "CHR 0x00 \<notin> set s \<Longrightarrow> urlDecode (urlEncode s) = s"
proof (induction s)
  case Nil
  then show ?case by simp
next
  case (Cons c s)
  have n: "ord c div 16 * 16 + ord c mod 16 = ord c" by simp
  show ?case
  proof (cases "unreserved c")
    case True
    with Cons unreserved_plain [OF True] show ?thesis by simp
  next
    case False
    have h: "hex_of (kHexDigits ! (ord c div 16)) = ord c div 16" "hex_of (kHexDigits ! (ord c mod 16)) = ord c mod 16"
      by (simp_all add: hex_of_kHexDigits ord_div_16)
    have ne: "ord c div 16 \<noteq> 255" "ord c mod 16 \<noteq> 255" using ord_div_16 [of c] by simp_all
    from False Cons show ?thesis by (auto simp: h ne n)
  qed
qed

lemma kHexDigits_plain: "i < 16 \<Longrightarrow> kHexDigits ! i \<noteq> CHR ''&'' \<and> kHexDigits ! i \<noteq> CHR ''=''"
proof -
  assume "i < 16"
  then have "kHexDigits ! i \<in> set kHexDigits" by (intro nth_mem) (simp add: kHexDigits_def)
  then show ?thesis by (auto simp: kHexDigits_def)
qed

lemma urlEncode_plain: "CHR ''&'' \<notin> set (urlEncode s) \<and> CHR ''='' \<notin> set (urlEncode s)"
proof (induction s)
  case Nil
  then show ?case by simp
next
  case (Cons c s)
  then show ?case
    using unreserved_plain [of c] kHexDigits_plain [OF ord_div_16 [of c]] kHexDigits_plain [of "ord c mod 16"]
    by auto
qed

lemma urlEncode_Nil [simp]: "urlEncode s = [] \<longleftrightarrow> s = []"
  by (cases s) auto

text \<open>The text a form submission sends.\<close>

fun form_text :: "(string \<times> string) list \<Rightarrow> string" where
  "form_text [] = []"
| "form_text [(k, v)] = urlEncode k @ ''='' @ urlEncode v"
| "form_text ((k, v) # ps) = urlEncode k @ ''='' @ urlEncode v @ ''&'' @ form_text ps"

definition sendable :: "string \<times> string \<Rightarrow> bool" where
  "sendable p \<longleftrightarrow> fst p \<noteq> [] \<and> CHR 0x00 \<notin> set (fst p) \<and> CHR 0x00 \<notin> set (snd p)"

lemma parse_pair:
  assumes "k \<noteq> []" and "CHR 0x00 \<notin> set k" and "CHR 0x00 \<notin> set v"
    and "cut_at (CHR ''&'') s = (urlEncode k @ ''='' @ urlEncode v, rest)" and "s \<noteq> []"
  shows "parseUrlEncoded s out = parseUrlEncoded rest (out @ [(k, v)])"
  using assms(1,4,5) urlEncode_plain [of k]
  by (subst parseUrlEncoded.simps) (simp add: urlDecode_encode [OF assms(2)] urlDecode_encode [OF assms(3)])

lemma parse_form_text:
  "list_all sendable ps \<Longrightarrow> parseUrlEncoded (form_text ps) out = out @ ps"
proof (induction ps arbitrary: out rule: form_text.induct)
  case 1
  show ?case by (subst parseUrlEncoded.simps) simp
next
  case (2 k v)
  have "CHR ''&'' \<notin> set (urlEncode k @ ''='' @ urlEncode v)" using urlEncode_plain [of k] urlEncode_plain [of v] by simp
  then have "cut_at (CHR ''&'') (form_text [(k, v)]) = (urlEncode k @ ''='' @ urlEncode v, [])"
    unfolding form_text.simps by (rule cut_at_absent)
  from parse_pair [OF _ _ _ this, of out] 2 show ?case
    by (simp add: sendable_def) (subst parseUrlEncoded.simps, simp)
next
  case (3 k v p ps)
  have "CHR ''&'' \<notin> set (urlEncode k @ ''='' @ urlEncode v)" using urlEncode_plain [of k] urlEncode_plain [of v] by simp
  from cut_at_here [OF this, of "form_text (p # ps)"]
  have "cut_at (CHR ''&'') (form_text ((k, v) # p # ps)) = (urlEncode k @ ''='' @ urlEncode v, form_text (p # ps))"
    by simp
  from parse_pair [OF _ _ _ this, of out] 3 show ?case by (simp add: sendable_def)
qed

section \<open>Cookies sent back\<close>

text \<open>The \<open>Cookie\<close> field of a client that stored the cookies \<open>ps\<close>: each \<open>name=value\<close>, separated by semicolon and space.\<close>

fun cookie_header :: "(string \<times> string) list \<Rightarrow> string" where
  "cookie_header [] = []"
| "cookie_header [(n, v)] = n @ ''='' @ v"
| "cookie_header ((n, v) # ps) = n @ ''='' @ v @ ''; '' @ cookie_header ps"

definition stored_cookie :: "string \<times> string \<Rightarrow> bool" where
  "stored_cookie p \<longleftrightarrow> isValidCookieName (fst p) \<and> CHR '';'' \<notin> set (snd p)"

lemma valid_name_chars:
  assumes "isValidCookieName n"
  shows "n \<noteq> []" and "CHR '';'' \<notin> set n" and "CHR ''='' \<notin> set n" and "CHR '' '' \<notin> set n"
proof -
  show "n \<noteq> []" "CHR '';'' \<notin> set n" "CHR ''='' \<notin> set n" using assms unfolding isValidCookieName_def by auto
  have "32 < ord c" if "c \<in> set n" for c using that assms unfolding isValidCookieName_def by fastforce
  moreover have "ord (CHR '' '') = 32" by (simp add: ord_def)
  ultimately show "CHR '' '' \<notin> set n" by fastforce
qed

lemma trim_id: "CHR '' '' \<notin> set n \<Longrightarrow> trim_front n = n \<and> trim_back n = n"
proof -
  assume s: "CHR '' '' \<notin> set n"
  have "dropWhile (\<lambda>c. c = CHR '' '') m = m" if "CHR '' '' \<notin> set m" for m using that by (cases m) auto
  with s show ?thesis by (simp add: trim_front_def trim_back_def)
qed

lemma parse_cookie_pair:
  assumes "isValidCookieName n" and "s = n @ ''='' @ t" and "sv = s \<or> sv = CHR '' '' # s"
    and "cut_at (CHR '';'') s = (n @ ''='' @ v, rest)"
  shows "parse_cookie_text sv m = parse_cookie_text rest (try_emplace n v m)"
proof -
  note chars = valid_name_chars [OF assms(1)]
  obtain c n' where n: "n = c # n'" using chars(1) by (cases n) auto
  then have "trim_front sv = s" using assms(2,3) chars(4) by (auto simp: trim_front_def)
  moreover have "sv \<noteq> []" using assms(2,3) by auto
  ultimately show ?thesis
    using assms(4) chars trim_id [OF chars(4)] by (subst parse_cookie_text.simps) simp
qed

lemma parse_cookie_header:
  "list_all stored_cookie ps \<Longrightarrow> ps \<noteq> [] \<Longrightarrow> sv = cookie_header ps \<or> sv = CHR '' '' # cookie_header ps \<Longrightarrow>
   parse_cookie_text sv m = foldl (\<lambda>m (n, v). try_emplace n v m) m ps"
proof (induction ps arbitrary: sv m rule: cookie_header.induct)
  case 1
  then show ?case by simp
next
  case (2 n v)
  then have val: "isValidCookieName n" "CHR '';'' \<notin> set v" by (simp_all add: stored_cookie_def)
  then have "cut_at (CHR '';'') (n @ ''='' @ v) = (n @ ''='' @ v, [])"
    by (intro cut_at_absent) (auto dest: valid_name_chars)
  from parse_cookie_pair [OF val(1) refl _ this, of sv m] 2 show ?case
    by simp (subst parse_cookie_text.simps, simp)
next
  case (3 n v p ps)
  then have val: "isValidCookieName n" "CHR '';'' \<notin> set v" by (simp_all add: stored_cookie_def)
  then have "CHR '';'' \<notin> set (n @ ''='' @ v)" by (auto dest: valid_name_chars)
  from cut_at_here [OF this, of "CHR '' '' # cookie_header (p # ps)"]
  have "cut_at (CHR '';'') (n @ ''='' @ v @ ''; '' @ cookie_header (p # ps)) = (n @ ''='' @ v, CHR '' '' # cookie_header (p # ps))"
    by simp
  from parse_cookie_pair [OF val(1) refl _ this, of sv m] 3 show ?case by simp
qed

lemma map_of_try_emplace:
  "map_of (try_emplace k v m) n = (case map_of m n of Some x \<Rightarrow> Some x | None \<Rightarrow> if n = k then Some v else None)"
proof (cases "map_of m k")
  case None
  then have "k \<notin> fst ` set m" by (simp add: map_of_eq_None_iff)
  with None show ?thesis by (auto simp: try_emplace_def map_of_append map_add_def split: option.split)
next
  case (Some x)
  then have "k \<in> fst ` set m" by (metis map_of_eq_None_iff option.distinct(1))
  with Some show ?thesis by (auto simp: try_emplace_def split: option.split)
qed

lemma map_of_emplaced:
  "map_of (foldl (\<lambda>m (n, v). try_emplace n v m) m ps) k = (case map_of m k of Some x \<Rightarrow> Some x | None \<Rightarrow> map_of ps k)"
  by (induction ps arbitrary: m) (auto simp: map_of_try_emplace split: option.split)

section \<open>Decoding never grows\<close>

lemma urlDecode_set: "CHR 0x00 \<notin> set s \<Longrightarrow> CHR 0x00 \<notin> set (urlDecode s)"
proof (induction s rule: urlDecode.induct)
  case (2 c cs)
  have "CHR 0x00 \<notin> set (drop 2 cs)" using 2(5) by (auto dest: in_set_dropD)
  with 2 show ?case by (auto simp: Let_def)
qed simp

lemma urlDecode_length: "length (urlDecode s) \<le> length s"
proof (induction s rule: urlDecode.induct)
  case (2 c cs)
  consider "c = CHR ''%'' \<and> 2 \<le> length cs \<and> hex_of (cs ! 0) \<noteq> 255 \<and> hex_of (cs ! 1) \<noteq> 255"
    | "\<not> (c = CHR ''%'' \<and> 2 \<le> length cs \<and> hex_of (cs ! 0) \<noteq> 255 \<and> hex_of (cs ! 1) \<noteq> 255)" by blast
  then show ?case
  proof cases
    case 1
    with 2(1,2) have "length (urlDecode (drop 2 cs)) \<le> length cs - 2" by (metis length_drop)
    with 1 show ?thesis by (auto simp: Let_def)
  next
    case c: 2
    with 2(3,4) have "length (urlDecode cs) \<le> length cs" by blast
    then show ?thesis unfolding urlDecode.simps(2) if_not_P [OF c] by simp
  qed
qed simp

lemma urlDecode_plain: "CHR ''%'' \<notin> set s \<Longrightarrow> CHR ''+'' \<notin> set s \<Longrightarrow> urlDecode s = s"
  by (induction s) auto

section \<open>Properties\<close>

text \<open>
  Query parameters are read back: whatever non-empty names and values a client encodes into the
  query, the parsed parameters are exactly those pairs in order; looking a name up gives one of its
  values, and nothing exactly if the client sent none, whichever value the library's container
  returns for a repeated name.
\<close>

theorem query_roundtrip:
  assumes "list_all sendable ps" and "rq_queryParams r = None" and "CHR ''?'' \<notin> set path"
    and "rq_target r = path @ ''?'' @ form_text ps" and "\<forall>vs. vs \<noteq> [] \<longrightarrow> pick vs \<in> set vs"
  shows "rq_path r = path \<and> fst (queryParams r) = ps
    \<and> (case fst (queryParam pick n r) of None \<Rightarrow> n \<notin> fst ` set ps | Some v \<Rightarrow> (n, v) \<in> set ps)"
proof -
  have f: "find_char (CHR ''?'') (rq_target r) = Some (length path)" using assms(3,4) by simp
  then have "rq_path r = path" "rq_query r = form_text ps" using assms(4) by (simp_all add: rq_path_def rq_query_def)
  moreover have "parseUrlEncoded (form_text ps) [] = ps" using parse_form_text [OF assms(1), of "[]"] by simp
  moreover have "form_text ps = [] \<Longrightarrow> ps = []" by (cases ps rule: form_text.cases) auto
  ultimately have q: "fst (queryParams r) = ps" using assms(2) by (auto simp: queryParams_def parseQueryParams_def)
  let ?vs = "[v. (k', v) \<leftarrow> ps, k' = n]"
  have mem: "v \<in> set ?vs \<longleftrightarrow> (n, v) \<in> set ps" for v by (auto split: if_splits)
  have "fst (queryParam pick n r) = (case ?vs of [] \<Rightarrow> None | v # vs \<Rightarrow> Some (pick (v # vs)))"
    using q by (simp add: queryParam_def mm_find_def split_beta)
  moreover have "?vs \<noteq> [] \<Longrightarrow> (n, pick ?vs) \<in> set ps" using assms(5) mem by blast
  moreover have "?vs = [] \<Longrightarrow> n \<notin> fst ` set ps" using mem by fastforce
  ultimately show ?thesis using q \<open>rq_path r = path\<close> by (cases ?vs) (auto simp: Let_def)
qed

theorem query_roundtrip_witness:
  "fst (queryParam hd ''q'' (new_request\<lparr>rq_target := ''/s?'' @ form_text [(''q'', ''a b'')]\<rparr> :: nat HttpRequest)) = Some ''a b''"
proof -
  let ?r = "new_request\<lparr>rq_target := ''/s?'' @ form_text [(''q'', ''a b'')]\<rparr> :: nat HttpRequest"
  have "list_all sendable [(''q'', ''a b'')]" by (simp add: sendable_def)
  from query_roundtrip [OF this, of ?r "''/s''" hd "''q''"] show ?thesis
    by (auto simp: new_request_def split: option.splits)
qed

text \<open>
  Cookies survive the round trip to the client: if the client returns cookies set with
  \<open>setCookie\<close>, each as the text of its field up to the first semicolon, then the request finds under
  each name the encoded value of the first cookie of that name, and no other cookies.
\<close>

theorem cookies_roundtrip:
  assumes "list_all (\<lambda>p. isValidCookieName (fst p)) ps" and "ps \<noteq> []" and "rq_cookies r = None"
    and "rq_header r ''Cookie'' = cookie_header (map (\<lambda>p. (fst p, encodeCookieValue (snd p))) ps)"
  shows "map_of (fst (cookies r)) n = map_option encodeCookieValue (map_of ps n)"
proof -
  let ?qs = "map (\<lambda>p. (fst p, encodeCookieValue (snd p))) ps"
  have semi: "CHR '';'' \<notin> set (encodeCookieValue v)" for v
    using encode_safe [of v] semicolon_unsafe by (auto simp: list_all_iff)
  have "list_all stored_cookie ?qs" using assms(1) by (auto simp: list_all_iff stored_cookie_def semi)
  from parse_cookie_header [OF this _ disjI1 [OF refl], of "[]"] assms(2)
  have p: "parse_cookie_text (cookie_header ?qs) [] = foldl (\<lambda>m (n, v). try_emplace n v m) [] ?qs" by simp
  have "cookie_header ?qs \<noteq> []" using assms(2) by (cases ?qs rule: cookie_header.cases) auto
  with p assms(3,4) have "fst (cookies r) = foldl (\<lambda>m (n, v). try_emplace n v m) [] ?qs"
    by (simp add: cookies_def parseCookies_def)
  moreover have "map_of ?qs n = map_option encodeCookieValue (map_of ps n)" by (induction ps) auto
  ultimately show ?thesis by (simp add: map_of_emplaced)
qed

theorem cookies_roundtrip_witness:
  "map_of (fst (cookies (rq_setHeader ''Cookie'' ''a=x%20y; b=2; a=3'' new_request :: nat HttpRequest))) ''a'' = Some ''x%20y''"
proof -
  let ?ps = "[(''a'', ''x y''), (''b'', ''2''), (''a'', ''3'')]"
  let ?r = "rq_setHeader ''Cookie'' ''a=x%20y; b=2; a=3'' new_request :: nat HttpRequest"
  have 1: "list_all (\<lambda>p. isValidCookieName (fst p)) ?ps" by code_simp
  have e: "encodeCookieValue ''x y'' = ''x%20y''" "encodeCookieValue ''2'' = ''2''" "encodeCookieValue ''3'' = ''3''"
    by code_simp+
  have 2: "rq_header ?r ''Cookie'' = cookie_header (map (\<lambda>p. (fst p, encodeCookieValue (snd p))) ?ps)"
    by (simp add: e rq_setHeader_def Let_def copy_owned_def rh_add_def kMaxHeaders_def rq_header_def new_request_def
        del: encodeCookieValue.simps)
  have 3: "rq_cookies ?r = None" by (simp add: rq_setHeader_def Let_def new_request_def)
  from e(1) cookies_roundtrip [OF 1 _ 3 2, of "''a''"] show ?thesis by simp
qed

text \<open>
  Decoding is safe: it introduces no NUL character, whatever percent sequences the text has, it
  never makes the text longer, it leaves text without escapes alone, and it inverts the encoding.
\<close>

theorem url_decode_safe:
  "(CHR 0x00 \<in> set (urlDecode s) \<longrightarrow> CHR 0x00 \<in> set s) \<and> length (urlDecode s) \<le> length s
   \<and> (CHR ''%'' \<notin> set s \<and> CHR ''+'' \<notin> set s \<longrightarrow> urlDecode s = s)
   \<and> (CHR 0x00 \<notin> set s \<longrightarrow> urlDecode (urlEncode s) = s)"
  using urlDecode_set [of s] urlDecode_length [of s] urlDecode_plain [of s] urlDecode_encode [of s] by blast

theorem url_decode_safe_witness:
  "CHR 0x00 \<notin> set (urlDecode ''/a%00b%2Fc'') \<and> urlDecode ''/plain'' = ''/plain''"
  using url_decode_safe [of "''/a%00b%2Fc''"] url_decode_safe [of "''/plain''"] by auto

end
