(* ===== verification/Text_Parse.thy ===== *)
theory Text_Parse
  imports Http_Request
begin

text \<open>
  Reading of text shared by the protocol theories: \<open>std::from_chars\<close> on unsigned and signed integers,
  \<open>find_first_of\<close>, trimming, and searching for a substring.
\<close>

section \<open>Numbers\<close>

datatype 'n from_chars = FcOk 'n string | FcRange string | FcInvalid

definition is_dec :: "char \<Rightarrow> bool" where
  "is_dec c \<longleftrightarrow> 48 \<le> ord c \<and> ord c \<le> 57"

fun dec_value :: "nat \<Rightarrow> string \<Rightarrow> nat" where
  "dec_value acc [] = acc"
| "dec_value acc (c # cs) = dec_value (10 * acc + (ord c - 48)) cs"

text \<open>Into a \<open>size_t\<close>; the string is what \<open>ptr\<close> points to.\<close>

definition from_chars_size :: "string \<Rightarrow> nat from_chars" where
  "from_chars_size s =
     (let ds = takeWhile is_dec s; rest = dropWhile is_dec s in
      if ds = [] then FcInvalid
      else if dec_value 0 ds < size_modulus then FcOk (dec_value 0 ds) rest else FcRange rest)"

text \<open>Into an \<open>int\<close>, with an optional minus sign.\<close>

definition from_chars_int :: "string \<Rightarrow> int from_chars" where
  "from_chars_int s =
     (let neg = (s \<noteq> [] \<and> hd s = CHR ''-''); body = (if neg then tl s else s);
          ds = takeWhile is_dec body; rest = dropWhile is_dec body;
          v = (if neg then - int (dec_value 0 ds) else int (dec_value 0 ds)) in
      if ds = [] then FcInvalid
      else if - (2 ^ 31) \<le> v \<and> v < 2 ^ 31 then FcOk v rest else FcRange rest)"

text \<open>A decimal numeral of the protocol: digits only, at least one.\<close>

definition decimal :: "string \<Rightarrow> bool" where
  "decimal s \<longleftrightarrow> s \<noteq> [] \<and> (\<forall>c\<in>set s. is_dec c)"

lemma from_chars_size_whole:
  "from_chars_size s = FcOk n [] \<longleftrightarrow> decimal s \<and> dec_value 0 s = n \<and> n < size_modulus"
proof (cases "\<forall>c\<in>set s. is_dec c")
  case True
  then have t: "takeWhile is_dec s = s" "dropWhile is_dec s = []"
    by (simp_all add: takeWhile_eq_all_conv dropWhile_eq_Nil_conv)
  show ?thesis unfolding from_chars_size_def Let_def t using True by (auto simp: decimal_def)
next
  case False
  then have "dropWhile is_dec s \<noteq> []" by (simp add: dropWhile_eq_Nil_conv)
  then show ?thesis using False by (auto simp: from_chars_size_def decimal_def Let_def)
qed

section \<open>Searching and trimming\<close>

fun find_first_of :: "char set \<Rightarrow> string \<Rightarrow> nat option" where
  "find_first_of cs [] = None"
| "find_first_of cs (x # xs) = (if x \<in> cs then Some 0 else map_option Suc (find_first_of cs xs))"

definition trim_set :: "char set \<Rightarrow> string \<Rightarrow> string" where
  "trim_set cs s = rev (dropWhile (\<lambda>c. c \<in> cs) (rev (dropWhile (\<lambda>c. c \<in> cs) s)))"

lemma find_first_of_None [simp]: "find_first_of cs s = None \<longleftrightarrow> (\<forall>c\<in>set s. c \<notin> cs)"
  by (induction s) auto

lemma find_first_of_Some:
  "find_first_of cs s = Some n \<Longrightarrow> n < length s \<and> s ! n \<in> cs \<and> (\<forall>c\<in>set (take n s). c \<notin> cs)"
  by (induction s arbitrary: n) (auto split: if_splits)

text \<open>\<open>find(needle)\<close> and \<open>std::search\<close>: the first position at which the needle starts.\<close>

fun find_sub :: "string \<Rightarrow> string \<Rightarrow> nat option" where
  "find_sub needle [] = (if needle = [] then Some 0 else None)"
| "find_sub needle (x # xs) =
     (if take (length needle) (x # xs) = needle then Some 0 else map_option Suc (find_sub needle xs))"

lemma find_sub_Some:
  "find_sub needle s = Some n \<Longrightarrow> n + length needle \<le> length s \<and> s = take n s @ needle @ drop (n + length needle) s"
proof (induction s arbitrary: n)
  case (Cons x xs)
  show ?case
  proof (cases "take (length needle) (x # xs) = needle")
    case True
    then have "n = 0" using Cons.prems by simp
    moreover have "length needle \<le> length (x # xs)" by (metis True length_take min.cobounded1)
    ultimately show ?thesis by (metis True add_0 append_Nil append_take_drop_id take0)
  next
    case False
    then obtain k where "find_sub needle xs = Some k" "n = Suc k" using Cons.prems by auto
    then show ?thesis using Cons.IH [of k] by simp
  qed
qed (auto split: if_splits)

text \<open>The first occurrence is found when it does not start earlier.\<close>

lemma find_sub_first:
  "(\<forall>i<length l. take (length needle) (drop i (l @ needle @ r)) \<noteq> needle) \<Longrightarrow> find_sub needle (l @ needle @ r) = Some (length l)"
proof (induction l)
  case Nil
  have "take (length needle) (needle @ r) = needle" by simp
  then show ?case by (cases "needle @ r") (auto simp del: take_append)
next
  case (Cons c l)
  have a: "take (length needle) (drop 0 ((c # l) @ needle @ r)) \<noteq> needle" using Cons.prems by blast
  have b: "\<forall>i<length l. take (length needle) (drop i (l @ needle @ r)) \<noteq> needle"
  proof (intro allI impI)
    fix i assume "i < length l"
    then show "take (length needle) (drop i (l @ needle @ r)) \<noteq> needle" using Cons.prems [rule_format, of "Suc i"] by simp
  qed
  from Cons.IH [OF b] a show ?case by simp
qed

end
