(* ===== verification/Ws_Handshake.thy ===== *)
theory Ws_Handshake
  imports Text_Parse Http_Request
begin

text \<open>
  The opening handshake of a WebSocket connection, from \<^verbatim>\<open>src/src/core/WsHandshake.h\<close>: Base64, the
  accept key, the validation of the upgrade request, the negotiation of compression and subprotocol,
  and the response. The hash comes from OpenSSL and is a parameter.
\<close>

section \<open>Base64\<close>

definition kTable :: string where
  "kTable = ''ABCDEFGHIJKLMNOPQRSTUVWXYZabcdefghijklmnopqrstuvwxyz0123456789+/''"

definition sextet :: "u32 \<Rightarrow> nat \<Rightarrow> char" where
  "sextet v k = kTable ! unat (drop_bit k v AND 0x3F)"

fun base64Encode :: "byte list \<Rightarrow> string" where
  "base64Encode (a # b # c # rest) =
     (let triplet = push_bit 16 (ucast a) OR push_bit 8 (ucast b) OR ucast c
      in [sextet triplet 18, sextet triplet 12, sextet triplet 6, sextet triplet 0] @ base64Encode rest)"
| "base64Encode [a] = (let val = push_bit 16 (ucast a) in [sextet val 18, sextet val 12, CHR ''='', CHR ''=''])"
| "base64Encode [a, b] =
     (let val = push_bit 16 (ucast a) OR push_bit 8 (ucast b)
      in [sextet val 18, sextet val 12, sextet val 6, CHR ''=''])"
| "base64Encode [] = []"

section \<open>The accept key\<close>

definition kGuid :: string where
  "kGuid = ''258EAFA5-E914-47DA-95CA-C5AB0DC85B11''"

definition accept_input :: "string \<Rightarrow> string" where
  "accept_input clientKey = (if length clientKey > 24 then take 24 clientKey else clientKey) @ kGuid"

definition computeWsAcceptKey :: "(string \<Rightarrow> byte list) \<Rightarrow> string \<Rightarrow> string" where
  "computeWsAcceptKey sha1 clientKey = base64Encode (sha1 (accept_input clientKey))"

definition validateWsUpgrade :: "'v HttpRequest \<Rightarrow> string" where
  "validateWsUpgrade req =
     (if rh_find (rq_headers req) ''Sec-WebSocket-Version'' \<noteq> ''13'' then []
      else let key = rh_find (rq_headers req) ''Sec-WebSocket-Key'' in
           if key = [] \<or> length key \<noteq> 24 then [] else key)"

section \<open>Negotiation\<close>

record WsDeflateNegotiation =
  accepted :: bool
  n_serverMaxWindowBits :: int
  n_clientMaxWindowBits :: int
  n_serverNoContextTakeover :: bool
  n_clientNoContextTakeover :: bool

record WsCompressionConfig =
  cfg_enabled :: bool
  cfg_serverMaxWindowBits :: int
  cfg_clientMaxWindowBits :: int
  cfg_serverNoContextTakeover :: bool

definition no_negotiation :: WsDeflateNegotiation where
  "no_negotiation = \<lparr>accepted = False, n_serverMaxWindowBits = 15, n_clientMaxWindowBits = 15,
     n_serverNoContextTakeover = False, n_clientNoContextTakeover = False\<rparr>"

definition trimWs :: "string \<Rightarrow> string" where
  "trimWs sv = trim_back (trim_front sv)"

definition extractParamValue :: "string \<Rightarrow> string" where
  "extractParamValue token = (case find_char (CHR ''='') token of None \<Rightarrow> [] | Some eq \<Rightarrow> trimWs (drop (eq + 1) token))"

definition has_prefix :: "string \<Rightarrow> string \<Rightarrow> bool" where
  "has_prefix p s \<longleftrightarrow> take (length p) s = p"

text \<open>The window bits a parameter asks for, if its value is usable.\<close>

definition window_bits :: "string \<Rightarrow> int option" where
  "window_bits token =
     (let val = extractParamValue token in
      if val = [] then None
      else case from_chars_int val of
             FcOk bits _ \<Rightarrow> if 8 \<le> bits \<and> bits \<le> 15 then Some bits else None
           | _ \<Rightarrow> None)"

definition deflate_param :: "WsCompressionConfig \<Rightarrow> string \<Rightarrow> WsDeflateNegotiation \<Rightarrow> WsDeflateNegotiation" where
  "deflate_param cfg token r =
     (if has_prefix ''server_max_window_bits'' token
      then (case window_bits token of
              Some bits \<Rightarrow> r\<lparr>n_serverMaxWindowBits := min bits (cfg_serverMaxWindowBits cfg)\<rparr> | None \<Rightarrow> r)
      else if has_prefix ''client_max_window_bits'' token
      then (case window_bits token of
              Some bits \<Rightarrow> r\<lparr>n_clientMaxWindowBits := min bits (cfg_clientMaxWindowBits cfg)\<rparr> | None \<Rightarrow> r)
      else if token = ''server_no_context_takeover'' then r\<lparr>n_serverNoContextTakeover := True\<rparr>
      else if token = ''client_no_context_takeover'' then r\<lparr>n_clientNoContextTakeover := True\<rparr>
      else r)"

function deflate_params :: "WsCompressionConfig \<Rightarrow> string \<Rightarrow> WsDeflateNegotiation \<Rightarrow> WsDeflateNegotiation" where
  "deflate_params cfg params r =
     (if params = [] then r
      else deflate_params cfg (snd (cut_at (CHR '';'') params))
             (deflate_param cfg (trimWs (fst (cut_at (CHR '';'') params))) r))"
  by pat_completeness auto
termination
  by (relation "measure (\<lambda>(_, p, _). length p)") (simp_all add: cut_at_shorter)

declare deflate_params.simps [simp del]

definition deflate_start :: "WsCompressionConfig \<Rightarrow> WsDeflateNegotiation" where
  "deflate_start cfg = no_negotiation\<lparr>accepted := True, n_serverMaxWindowBits := cfg_serverMaxWindowBits cfg,
     n_clientMaxWindowBits := cfg_clientMaxWindowBits cfg, n_serverNoContextTakeover := cfg_serverNoContextTakeover cfg\<rparr>"

function deflate_offers :: "WsCompressionConfig \<Rightarrow> string \<Rightarrow> WsDeflateNegotiation" where
  "deflate_offers cfg remaining =
     (if remaining = [] then no_negotiation
      else let offer = trimWs (fst (cut_at (CHR '','') remaining));
               semi = find_char (CHR '';'') offer;
               extName = trimWs (case semi of Some n \<Rightarrow> take n offer | None \<Rightarrow> offer)
           in if \<not> iequals extName ''permessage-deflate'' then deflate_offers cfg (snd (cut_at (CHR '','') remaining))
              else (case semi of
                      None \<Rightarrow> deflate_start cfg
                    | Some n \<Rightarrow> deflate_params cfg (drop (n + 1) offer) (deflate_start cfg)))"
  by pat_completeness auto
termination
  by (relation "measure (\<lambda>(_, p). length p)") (simp_all add: cut_at_shorter)

declare deflate_offers.simps [simp del]

definition negotiateDeflate :: "string \<Rightarrow> WsCompressionConfig \<Rightarrow> WsDeflateNegotiation" where
  "negotiateDeflate extHeader cfg =
     (if extHeader = [] \<or> \<not> cfg_enabled cfg then no_negotiation else deflate_offers cfg extHeader)"

function offered_token :: "string \<Rightarrow> string \<Rightarrow> bool" where
  "offered_token supported remaining =
     (if remaining = [] then False
      else if trimWs (fst (cut_at (CHR '','') remaining)) = supported then True
      else offered_token supported (snd (cut_at (CHR '','') remaining)))"
  by pat_completeness auto
termination
  by (relation "measure (\<lambda>(_, p). length p)") (simp_all add: cut_at_shorter)

declare offered_token.simps [simp del]

fun first_offered :: "string list \<Rightarrow> string \<Rightarrow> string" where
  "first_offered [] offer = []"
| "first_offered (s # ss) offer = (if offered_token s offer then s else first_offered ss offer)"

definition negotiateSubprotocol :: "string \<Rightarrow> string list \<Rightarrow> string" where
  "negotiateSubprotocol clientOffer serverSupported =
     (if clientOffer = [] \<or> serverSupported = [] then [] else first_offered serverSupported clientOffer)"

section \<open>The response\<close>

definition buildWsAcceptResponse :: "FixedBuffer \<Rightarrow> string \<Rightarrow> WsDeflateNegotiation option \<Rightarrow> string \<Rightarrow> FixedBuffer" where
  "buildWsAcceptResponse buf acceptKey deflateNeg subprotocol =
     (let b1 = foldl (fb_append 512) buf [''HTTP/1.1 101 Switching Protocols'' @ CRLF, ''Upgrade: websocket'' @ CRLF,
                 ''Connection: Upgrade'' @ CRLF, ''Sec-WebSocket-Accept: '', acceptKey, CRLF];
          b2 = (case deflateNeg of
                  Some neg \<Rightarrow>
                    if accepted neg
                    then let x1 = foldl (fb_append 512) b1 [''Sec-WebSocket-Extensions: permessage-deflate'',
                                    ''; server_max_window_bits='', signed_chars (n_serverMaxWindowBits neg),
                                    ''; client_max_window_bits='', signed_chars (n_clientMaxWindowBits neg)];
                             x2 = (if n_serverNoContextTakeover neg then fb_append 512 x1 ''; server_no_context_takeover'' else x1);
                             x3 = (if n_clientNoContextTakeover neg then fb_append 512 x2 ''; client_no_context_takeover'' else x2)
                         in fb_append 512 x3 CRLF
                    else b1
                | None \<Rightarrow> b1);
          b3 = (if subprotocol \<noteq> [] then foldl (fb_append 512) b2 [''Sec-WebSocket-Protocol: '', subprotocol, CRLF] else b2)
      in fb_append 512 b3 CRLF)"

section \<open>Base64 can be decoded\<close>

definition unsextet :: "char \<Rightarrow> nat option" where
  "unsextet c = find_char c kTable"

text \<open>The decoder of RFC 4648 for padded input.\<close>

fun base64_decode :: "string \<Rightarrow> nat list option" where
  "base64_decode [] = Some []"
| "base64_decode (p # q # r # s # rest) =
     (case (unsextet p, unsextet q) of
        (Some i, Some j) \<Rightarrow>
          (if r = CHR ''='' then (if s = CHR ''='' \<and> rest = [] then Some [4 * i + j div 16] else None)
           else case unsextet r of
              None \<Rightarrow> None
            | Some k \<Rightarrow>
                if s = CHR ''='' then (if rest = [] then Some [4 * i + j div 16, 16 * (j mod 16) + k div 4] else None)
                else (case (unsextet s, base64_decode rest) of
                        (Some l, Some bs) \<Rightarrow> Some ([4 * i + j div 16, 16 * (j mod 16) + k div 4, 64 * (k mod 4) + l] @ bs)
                      | _ \<Rightarrow> None))
      | _ \<Rightarrow> None)"
| "base64_decode _ = None"

lemma table_inverse: "list_all (\<lambda>i. unsextet (kTable ! i) = Some i \<and> kTable ! i \<noteq> CHR ''='') [0..<64]"
  by code_simp

lemma unsextet_table: "i < 64 \<Longrightarrow> unsextet (kTable ! i) = Some i \<and> kTable ! i \<noteq> CHR ''=''"
  using table_inverse by (simp add: list_all_iff)

lemma byte_less: "unat (a :: byte) < 256"
  using unsigned_less [of a] by simp

lemma unat_triplet:
  "unat (push_bit 16 (ucast a) OR push_bit 8 (ucast b) OR ucast c :: u32) = unat (a :: byte) * 65536 + unat (b :: byte) * 256 + unat (c :: byte)"
proof -
  have d1: "push_bit 8 (ucast b) OR ucast c = (push_bit 8 (ucast b) + ucast c :: u32)"
    by (rule disjunctive_add [symmetric]) (auto simp: bit_simps bit_byte_high)
  have d2: "push_bit 16 (ucast a) OR (push_bit 8 (ucast b) OR ucast c) = (push_bit 16 (ucast a) + (push_bit 8 (ucast b) OR ucast c) :: u32)"
    by (rule disjunctive_add [symmetric]) (auto simp: bit_simps bit_byte_high)
  have "(push_bit 16 (ucast a) OR push_bit 8 (ucast b) OR ucast c :: u32)
      = word_of_nat (unat a * 65536 + unat b * 256 + unat c)"
    unfolding d2 unfolding d1 by (simp add: push_bit_eq_mult ac_simps)
  moreover have "unat a * 65536 + unat b * 256 + unat c < 2 ^ 32"
    using byte_less [of a] byte_less [of b] byte_less [of c] by simp
  moreover from this have "unat (word_of_nat (unat a * 65536 + unat b * 256 + unat c) :: u32)
      = unat a * 65536 + unat b * 256 + unat c"
    by (subst unsigned_of_nat) (simp add: take_bit_nat_eq_self)
  ultimately show ?thesis by (simp only:)
qed

lemma sextet_value: "sextet v k = kTable ! (unat v div 2 ^ k mod 64)"
proof -
  have "unat (drop_bit k v AND 0x3F) = unat v div 2 ^ k mod 64"
  proof -
    have "(0x3F :: u32) = mask 6" by (simp add: mask_eq_exp_minus_1)
    then have "drop_bit k v AND 0x3F = take_bit 6 (drop_bit k v)" by (simp add: take_bit_eq_mask)
    moreover have "unat (take_bit 6 (drop_bit k v)) = take_bit 6 (unat (drop_bit k v))" by (rule unsigned_take_bit_eq)
    moreover have "unat (drop_bit k v) = drop_bit k (unat v)" by (rule unat_drop_bit_eq)
    moreover have "drop_bit k (unat v) = unat v div 2 ^ k" by (rule drop_bit_eq_div)
    ultimately show ?thesis by (simp only: take_bit_eq_mod) simp
  qed
  then show ?thesis by (simp add: sextet_def)
qed

lemma base64_digits:
  fixes x y z w :: nat
  assumes "x < 64" "y < 64" "z < 64" "w < 64"
  defines "v \<equiv> x * 262144 + y * 4096 + z * 64 + w"
  shows "v div 2 ^ 18 mod 64 = x" "v div 2 ^ 12 mod 64 = y" "v div 2 ^ 6 mod 64 = z" "v div 2 ^ 0 mod 64 = w"
proof -
  have "v div 262144 = x" "v div 4096 = x * 64 + y" "v div 64 = x * 4096 + y * 64 + z"
    using assms by (auto intro!: div_nat_eqI)
  moreover have "v mod 64 = w" "(x * 64 + y) mod 64 = y" "(x * 4096 + y * 64 + z) mod 64 = z"
    using assms by (simp_all add: v_def mod_add_left_eq [symmetric] mod_mult_eq [symmetric])
  ultimately show "v div 2 ^ 18 mod 64 = x" "v div 2 ^ 12 mod 64 = y" "v div 2 ^ 6 mod 64 = z" "v div 2 ^ 0 mod 64 = w"
    using assms(1) by simp_all
qed

lemma triplet_parts:
  fixes a b c :: nat
  assumes "a < 256" "b < 256" "c < 256"
  defines "v \<equiv> a * 65536 + b * 256 + c"
  shows "v div 2 ^ 18 mod 64 = a div 4" "v div 2 ^ 12 mod 64 = a mod 4 * 16 + b div 16"
    "v div 2 ^ 6 mod 64 = b mod 16 * 4 + c div 64" "v div 2 ^ 0 mod 64 = c mod 64"
proof -
  have x: "a div 4 < 64" "a mod 4 * 16 + b div 16 < 64" "b mod 16 * 4 + c div 64 < 64" "c mod 64 < 64"
    using assms(1-3) by auto
  have regroup: "(p * 4 + q) * 65536 + (r * 16 + s) * 256 + (t * 64 + u)
      = p * 262144 + (q * 16 + r) * 4096 + (s * 4 + t) * 64 + u" for p q r s t u :: nat
    by simp
  have "v = (a div 4 * 4 + a mod 4) * 65536 + (b div 16 * 16 + b mod 16) * 256 + (c div 64 * 64 + c mod 64)"
    by (simp only: v_def div_mult_mod_eq)
  then have v: "v = a div 4 * 262144 + (a mod 4 * 16 + b div 16) * 4096 + (b mod 16 * 4 + c div 64) * 64 + c mod 64"
    by (simp only: regroup)
  show "v div 2 ^ 18 mod 64 = a div 4" "v div 2 ^ 12 mod 64 = a mod 4 * 16 + b div 16"
    "v div 2 ^ 6 mod 64 = b mod 16 * 4 + c div 64" "v div 2 ^ 0 mod 64 = c mod 64"
    using base64_digits [OF x] unfolding v by blast+
qed

lemma base64_roundtrip_aux: "base64_decode (base64Encode bs) = Some (map unat bs)"
proof (induction bs rule: base64Encode.induct)
  case (1 a b c rest)
  note t = triplet_parts [OF byte_less [of a] byte_less [of b] byte_less [of c]]
  have d: "unat a div 4 < 64" "unat a mod 4 * 16 + unat b div 16 < 64" "unat b mod 16 * 4 + unat c div 64 < 64"
    using byte_less [of a] byte_less [of b] byte_less [of c] by auto
  have "4 * (unat a div 4) + (unat a mod 4 * 16 + unat b div 16) div 16 = unat a"
    "16 * ((unat a mod 4 * 16 + unat b div 16) mod 16) + (unat b mod 16 * 4 + unat c div 64) div 4 = unat b"
    "64 * ((unat b mod 16 * 4 + unat c div 64) mod 4) + unat c mod 64 = unat c"
    using byte_less [of b] byte_less [of c] by (simp_all add: div_add1_eq mod_add_left_eq [symmetric] less_mult_imp_div_less)
  then show ?case using 1 [OF refl] d
    by (simp add: Let_def sextet_value unat_triplet t [simplified] unsextet_table)
next
  case (2 a)
  note t = triplet_parts [OF byte_less [of a] byte_less [of 0] byte_less [of 0]]
  have d: "unat a div 4 < 64" "unat a mod 4 * 16 < 64" using byte_less [of a] by auto
  then show ?case using t unat_triplet [of a 0 0]
    by (simp add: Let_def sextet_value unsextet_table)
next
  case (3 a b)
  note t = triplet_parts [OF byte_less [of a] byte_less [of b] byte_less [of 0]]
  have d: "unat a div 4 < 64" "unat a mod 4 * 16 + unat b div 16 < 64" "unat b mod 16 * 4 < 64"
    using byte_less [of a] byte_less [of b] by auto
  have "4 * (unat a div 4) + (unat a mod 4 * 16 + unat b div 16) div 16 = unat a"
    "16 * ((unat a mod 4 * 16 + unat b div 16) mod 16) + unat b mod 16 = unat b"
    using byte_less [of b] by (simp_all add: div_add1_eq less_mult_imp_div_less)
  then show ?case using t unat_triplet [of a b 0] d
    by (simp add: Let_def sextet_value unsextet_table)
qed simp

section \<open>The negotiation stays within the configuration\<close>

definition window_ok :: "WsCompressionConfig \<Rightarrow> WsDeflateNegotiation \<Rightarrow> bool" where
  "window_ok cfg r \<longleftrightarrow>
     8 \<le> n_serverMaxWindowBits r \<and> n_serverMaxWindowBits r \<le> cfg_serverMaxWindowBits cfg
   \<and> 8 \<le> n_clientMaxWindowBits r \<and> n_clientMaxWindowBits r \<le> cfg_clientMaxWindowBits cfg"

lemma window_bits_range: "window_bits token = Some b \<Longrightarrow> 8 \<le> b \<and> b \<le> 15"
  by (auto simp: window_bits_def Let_def split: if_splits from_chars.splits)

lemma deflate_param_ok:
  assumes "8 \<le> cfg_serverMaxWindowBits cfg" "8 \<le> cfg_clientMaxWindowBits cfg" "window_ok cfg r"
  shows "window_ok cfg (deflate_param cfg token r) \<and> accepted (deflate_param cfg token r) = accepted r"
proof (cases "window_bits token")
  case None
  then show ?thesis using assms by (simp add: deflate_param_def window_ok_def)
next
  case (Some b)
  then show ?thesis using assms window_bits_range [OF Some] by (simp add: deflate_param_def window_ok_def)
qed

lemma deflate_params_ok:
  assumes "8 \<le> cfg_serverMaxWindowBits cfg" "8 \<le> cfg_clientMaxWindowBits cfg" "window_ok cfg r"
  shows "window_ok cfg (deflate_params cfg params r) \<and> accepted (deflate_params cfg params r) = accepted r"
  using assms
proof (induction cfg params r rule: deflate_params.induct [case_names step])
  case (step cfg params r)
  show ?case
  proof (cases "params = []")
    case True
    then show ?thesis using step.prems by (subst (1 2) deflate_params.simps) simp
  next
    case False
    let ?r = "deflate_param cfg (trimWs (fst (cut_at (CHR '';'') params))) r"
    have e: "deflate_params cfg params r = deflate_params cfg (snd (cut_at (CHR '';'') params)) ?r"
      using False by (subst deflate_params.simps) simp
    have p: "window_ok cfg ?r \<and> accepted ?r = accepted r" by (rule deflate_param_ok [OF step.prems])
    then show ?thesis unfolding e using step.IH [OF False step.prems(1,2)] by simp
  qed
qed

text \<open>The name of an offer, and whether one offer of the header is \<open>permessage-deflate\<close>.\<close>

definition offer_name :: "string \<Rightarrow> string" where
  "offer_name offer =
     trimWs (case find_char (CHR '';'') (trimWs offer) of Some n \<Rightarrow> take n (trimWs offer) | None \<Rightarrow> trimWs offer)"

function comma_parts :: "string \<Rightarrow> string list" where
  "comma_parts s = (if s = [] then [] else fst (cut_at (CHR '','') s) # comma_parts (snd (cut_at (CHR '','') s)))"
  by pat_completeness auto
termination
  by (relation "measure length") (simp_all add: cut_at_shorter)

declare comma_parts.simps [simp del]

lemma deflate_offers_step:
  "deflate_offers cfg s =
     (if s = [] then no_negotiation
      else if \<not> iequals (offer_name (fst (cut_at (CHR '','') s))) ''permessage-deflate''
      then deflate_offers cfg (snd (cut_at (CHR '','') s))
      else case find_char (CHR '';'') (trimWs (fst (cut_at (CHR '','') s))) of
             None \<Rightarrow> deflate_start cfg
           | Some n \<Rightarrow> deflate_params cfg (drop (n + 1) (trimWs (fst (cut_at (CHR '','') s)))) (deflate_start cfg))"
  by (subst deflate_offers.simps) (simp only: Let_def offer_name_def)

lemma deflate_start_ok:
  "8 \<le> cfg_serverMaxWindowBits cfg \<Longrightarrow> 8 \<le> cfg_clientMaxWindowBits cfg \<Longrightarrow>
   window_ok cfg (deflate_start cfg) \<and> accepted (deflate_start cfg)"
  by (simp add: window_ok_def deflate_start_def no_negotiation_def)

lemma deflate_offers_ok:
  assumes "8 \<le> cfg_serverMaxWindowBits cfg" "8 \<le> cfg_clientMaxWindowBits cfg"
  shows "(accepted (deflate_offers cfg s) \<longleftrightarrow> list_ex (\<lambda>o'. iequals (offer_name o') ''permessage-deflate'') (comma_parts s))
    \<and> (accepted (deflate_offers cfg s) \<longrightarrow> window_ok cfg (deflate_offers cfg s))"
proof (induction s rule: comma_parts.induct [case_names step])
  case (step s)
  show ?case
  proof (cases "s = []")
    case True
    then show ?thesis by (subst (1 2 3) deflate_offers_step, subst comma_parts.simps) (simp add: no_negotiation_def)
  next
    case s: False
    let ?o = "fst (cut_at (CHR '','') s)" and ?t = "snd (cut_at (CHR '','') s)"
    have parts: "comma_parts s = ?o # comma_parts ?t" using s by (subst comma_parts.simps) simp
    show ?thesis
    proof (cases "iequals (offer_name ?o) ''permessage-deflate''")
      case False
      have "deflate_offers cfg s = deflate_offers cfg ?t" using s False by (subst deflate_offers_step) simp
      then show ?thesis unfolding parts using step.IH [OF s] False by simp
    next
      case True
      have "window_ok cfg (deflate_offers cfg s) \<and> accepted (deflate_offers cfg s)"
        using s True deflate_start_ok [OF assms] deflate_params_ok [OF assms]
        by (subst (1 2) deflate_offers_step) (simp split: option.split)
      then show ?thesis unfolding parts using True by simp
    qed
  qed
qed

text \<open>Which tokens a header of comma-separated names offers.\<close>

lemma offered_token_iff: "offered_token p s \<longleftrightarrow> p \<in> set (map trimWs (comma_parts s))"
proof (induction s rule: comma_parts.induct [case_names step])
  case (step s)
  then show ?case by (subst offered_token.simps, subst comma_parts.simps) auto
qed

lemma first_offered_spec:
  "first_offered ss offer = (case filter (\<lambda>p. p \<in> set (map trimWs (comma_parts offer))) ss of [] \<Rightarrow> [] | p # _ \<Rightarrow> p)"
  by (induction ss) (simp_all add: offered_token_iff)

section \<open>Properties\<close>

text \<open>
  C27. The compression a session is set up with is one the server is configured for: it is on only if the
  route enables it and the client offers \<open>permessage-deflate\<close>, and both window sizes lie between eight
  bits and the configured ones, whatever numbers the client sends.
\<close>

theorem negotiated_window_bounds:
  assumes "8 \<le> cfg_serverMaxWindowBits cfg" "8 \<le> cfg_clientMaxWindowBits cfg"
  shows "(accepted (negotiateDeflate ext cfg) \<longleftrightarrow>
      cfg_enabled cfg \<and> list_ex (\<lambda>o'. iequals (offer_name o') ''permessage-deflate'') (comma_parts ext))
    \<and> (accepted (negotiateDeflate ext cfg) \<longrightarrow> window_ok cfg (negotiateDeflate ext cfg))"
proof (cases "ext = [] \<or> \<not> cfg_enabled cfg")
  case True
  moreover have "comma_parts [] = []" by (subst comma_parts.simps) simp
  ultimately show ?thesis by (auto simp: negotiateDeflate_def no_negotiation_def)
next
  case False
  then show ?thesis using deflate_offers_ok [OF assms, of ext] by (simp add: negotiateDeflate_def)
qed

theorem negotiated_window_bounds_witness:
  "window_ok \<lparr>cfg_enabled = True, cfg_serverMaxWindowBits = 12, cfg_clientMaxWindowBits = 15, cfg_serverNoContextTakeover = False\<rparr>
     (negotiateDeflate ''permessage-deflate; server_max_window_bits=10''
       \<lparr>cfg_enabled = True, cfg_serverMaxWindowBits = 12, cfg_clientMaxWindowBits = 15, cfg_serverNoContextTakeover = False\<rparr>)"
proof -
  let ?cfg = "\<lparr>cfg_enabled = True, cfg_serverMaxWindowBits = 12, cfg_clientMaxWindowBits = 15, cfg_serverNoContextTakeover = False\<rparr>"
  let ?ext = "''permessage-deflate; server_max_window_bits=10''"
  have "comma_parts ?ext = [?ext]" by code_simp
  moreover have "offer_name ?ext = ''permessage-deflate''" by code_simp
  moreover have "iequals ''permessage-deflate'' ''permessage-deflate''" by (simp only: iequals_lower)
  ultimately have "list_ex (\<lambda>o'. iequals (offer_name o') ''permessage-deflate'') (comma_parts ?ext)"
    by (simp only: list_ex_iff) simp
  then show ?thesis using negotiated_window_bounds [of ?cfg ?ext] by (simp only: WsCompressionConfig.select_convs)
qed

text \<open>
  The subprotocol is the server's first choice among what the client offers, and nothing if they
  have none in common.
\<close>

theorem subprotocol_preference:
  "negotiateSubprotocol offer supported =
     (case filter (\<lambda>p. p \<in> set (map trimWs (comma_parts offer))) supported of [] \<Rightarrow> [] | p # _ \<Rightarrow> p)"
proof (cases "offer = []")
  case True
  moreover have "comma_parts [] = []" by (subst comma_parts.simps) simp
  ultimately show ?thesis by (simp add: negotiateSubprotocol_def)
next
  case False
  then show ?thesis by (simp add: negotiateSubprotocol_def first_offered_spec)
qed

text \<open>
  The accept key answers the client's key. For every validated key the hash input is that key, whole,
  followed by the protocol's identifier, the input fits the 64 bytes on the stack for every key at all,
  and the header carries the hash in a form that decodes to exactly its bytes.
\<close>

theorem accept_key_correct:
  "(validateWsUpgrade req \<noteq> [] \<longrightarrow>
      base64_decode (computeWsAcceptKey sha1 (validateWsUpgrade req))
        = Some (map unat (sha1 (rh_find (rq_headers req) ''Sec-WebSocket-Key'' @ kGuid))))
   \<and> length (accept_input key) \<le> 64"
proof -
  have "length kGuid = 36" by (simp add: kGuid_def)
  moreover have "validateWsUpgrade req \<noteq> [] \<Longrightarrow> validateWsUpgrade req = rh_find (rq_headers req) ''Sec-WebSocket-Key''
      \<and> length (validateWsUpgrade req) = 24"
    by (simp add: validateWsUpgrade_def Let_def split: if_splits)
  ultimately show ?thesis by (auto simp: computeWsAcceptKey_def accept_input_def base64_roundtrip_aux)
qed

theorem accept_key_correct_witness:
  "base64_decode (computeWsAcceptKey (\<lambda>s. [0x12, 0xAB]) ''dGhlIHNhbXBsZSBub25jZQ=='') = Some [18, 171]"
proof -
  define req :: "nat HttpRequest" where "req = new_request\<lparr>rq_headers := [(''Sec-WebSocket-Version'', ''13''),
      (''Sec-WebSocket-Key'', ''dGhlIHNhbXBsZSBub25jZQ=='')]\<rparr>"
  have i: "iequals n n" for n by (simp only: iequals_lower)
  have n: "\<not> iequals ''Sec-WebSocket-Version'' ''Sec-WebSocket-Key''" by (simp add: iequals_def)
  have "rh_find (rq_headers req) ''Sec-WebSocket-Version'' = ''13''" "rh_find (rq_headers req) ''Sec-WebSocket-Key'' = ''dGhlIHNhbXBsZSBub25jZQ==''"
    unfolding req_def HttpRequest.select_convs HttpRequest.update_convs new_request_def rh_find.simps by (simp_all only: i n if_True if_False)
  then have v: "validateWsUpgrade req = ''dGhlIHNhbXBsZSBub25jZQ==''" unfolding validateWsUpgrade_def Let_def by simp
  then have "validateWsUpgrade req \<noteq> []" by simp
  then show ?thesis using accept_key_correct [of req "\<lambda>s. [0x12, 0xAB]"] unfolding v by simp
qed

end
