(* ===== verification/H2_Budget.thy ===== *)
theory H2_Budget
  imports Prelude
begin

text \<open>
  Resource budgets of HTTP/2: \<^verbatim>\<open>src/src/core/Http2Options.h\<close> and
  \<^verbatim>\<open>src/src/core/http2/Http2Budget.h\<close>.

  The C++ objects share their counters through \<open>std::shared_ptr\<close>: every connection owns a
  \<open>State\<close>, every lease points to the state of its connection, and all connections of a server
  point to one service state. The model keeps these shared objects in a store (\<open>budgets\<close>), in
  which a pointer is an address.
\<close>

section \<open>Options\<close>

record Http2Options =
  maxConcurrentStreams :: nat
  maxApplicationTasks :: nat
  maxServerApplicationTasks :: size_t
  maxHeaderBytes :: size_t
  maxHeaderFields :: size_t
  maxBodyBytes :: size_t
  maxConnectionReceiveBytes :: size_t
  maxConnectionSendBytes :: size_t
  maxOutputBatchBytes :: size_t
  maxFilePrefetchBytes :: size_t
  maxResponseBytes :: size_t
  maxClientConnectionReceiveBytes :: size_t
  maxConnectionsPerOrigin :: size_t
  maxQueuedRequestsPerOrigin :: size_t
  initialStreamWindow :: nat
  initialConnectionWindow :: nat
  maxFrameBytes :: nat
  headerTableBytes :: nat
  negotiationTimeout :: int
  headerTimeout :: int
  bodyTimeout :: int
  writeTimeout :: int
  queueTimeout :: int

definition kMaxHeaderFields :: size_t where "kMaxHeaderFields = 64"
definition kHeaderFieldOverheadBytes :: size_t where "kHeaderFieldOverheadBytes = 32"
definition kDefaultWindowSize :: nat where "kDefaultWindowSize = 65535"
definition kMaxWindowSize :: nat where "kMaxWindowSize = 0x7fffffff"
definition kMinFrameBytes :: nat where "kMinFrameBytes = 16384"
definition kMaxFrameBytes :: nat where "kMaxFrameBytes = 0xffffff"

text \<open>The member initialisers; durations in nanoseconds, the period of \<open>steady_clock\<close>.\<close>

definition default_options :: Http2Options where
  "default_options =
     \<lparr>maxConcurrentStreams = 64, maxApplicationTasks = 64, maxServerApplicationTasks = 4096,
      maxHeaderBytes = 8 * 1024, maxHeaderFields = 64, maxBodyBytes = 1024 * 1024,
      maxConnectionReceiveBytes = 8 * 1024 * 1024, maxConnectionSendBytes = 8 * 1024 * 1024,
      maxOutputBatchBytes = 64 * 1024, maxFilePrefetchBytes = 64 * 1024,
      maxResponseBytes = 16 * 1024 * 1024, maxClientConnectionReceiveBytes = 32 * 1024 * 1024,
      maxConnectionsPerOrigin = 2, maxQueuedRequestsPerOrigin = 256,
      initialStreamWindow = 65535, initialConnectionWindow = 65535,
      maxFrameBytes = 16384, headerTableBytes = 4096,
      negotiationTimeout = 10 * 1000000000, headerTimeout = 10 * 1000000000,
      bodyTimeout = 30 * 1000000000, writeTimeout = 30 * 1000000000,
      queueTimeout = 30 * 1000000000\<rparr>"

text \<open>The first configuration error, or the empty string.\<close>

definition validationError :: "Http2Options \<Rightarrow> string" where
  "validationError opt =
     (if maxConcurrentStreams opt = 0 \<or> maxConcurrentStreams opt > kMaxWindowSize
         \<or> maxApplicationTasks opt = 0 \<or> maxServerApplicationTasks opt = 0
      then ''stream and task limits must be positive, streams at most 2^31-1''
      else if maxHeaderFields opt = 0 \<or> maxHeaderFields opt > kMaxHeaderFields \<or> maxHeaderBytes opt = 0
      then ''header budget must be positive, fields at most 64''
      else if maxBodyBytes opt = 0 \<or> maxConnectionReceiveBytes opt < maxBodyBytes opt
         \<or> maxConnectionSendBytes opt = 0
      then ''body and connection budgets must be positive, body within connection budget''
      else if maxOutputBatchBytes opt = 0 \<or> maxOutputBatchBytes opt > maxConnectionSendBytes opt
         \<or> maxFilePrefetchBytes opt = 0 \<or> maxFilePrefetchBytes opt > maxConnectionSendBytes opt
      then ''output batch and prefetch must be positive and within the send budget''
      else if maxResponseBytes opt = 0 \<or> maxClientConnectionReceiveBytes opt < maxResponseBytes opt
         \<or> maxConnectionsPerOrigin opt = 0 \<or> maxQueuedRequestsPerOrigin opt = 0
      then ''client budgets must be positive, response within connection budget''
      else if initialStreamWindow opt > kMaxWindowSize \<or> initialConnectionWindow opt < kDefaultWindowSize
         \<or> initialConnectionWindow opt > kMaxWindowSize \<or> maxFrameBytes opt < kMinFrameBytes
         \<or> maxFrameBytes opt > kMaxFrameBytes
      then ''window or frame size outside the protocol range''
      else if negotiationTimeout opt \<le> 0 \<or> headerTimeout opt \<le> 0 \<or> bodyTimeout opt \<le> 0
         \<or> writeTimeout opt \<le> 0 \<or> queueTimeout opt \<le> 0
      then ''phase timeouts must be positive''
      else [])"

definition options_valid :: "Http2Options \<Rightarrow> bool" where
  "options_valid opt \<longleftrightarrow> validationError opt = []"

lemma options_validD:
  assumes "options_valid opt"
  shows "0 < maxHeaderFields opt" "maxHeaderFields opt \<le> 64" "0 < maxBodyBytes opt"
    "maxBodyBytes opt \<le> maxConnectionReceiveBytes opt"
    "maxResponseBytes opt \<le> maxClientConnectionReceiveBytes opt"
  using assms by (auto simp: options_valid_def validationError_def kMaxHeaderFields_def split: if_splits)

lemma default_options_valid: "options_valid default_options"
  by (simp add: options_valid_def validationError_def default_options_def kMaxHeaderFields_def
      kDefaultWindowSize_def kMaxWindowSize_def kMinFrameBytes_def kMaxFrameBytes_def)

section \<open>State\<close>

datatype Resource = hProtocolStream | hApplicationTask | hReceiveBytes | hSendBytes

fun resource_index :: "Resource \<Rightarrow> nat" where
  "resource_index hProtocolStream = 0"
| "resource_index hApplicationTask = 1"
| "resource_index hReceiveBytes = 2"
| "resource_index hSendBytes = 3"

lemma resource_index_inject: "resource_index a = resource_index b \<longleftrightarrow> a = b"
  by (cases a; cases b) simp_all

text \<open>The enumeration is compared by its underlying value.\<close>

instantiation Resource :: linorder
begin

definition less_eq_Resource :: "Resource \<Rightarrow> Resource \<Rightarrow> bool" where
  "less_eq_Resource a b \<longleftrightarrow> resource_index a \<le> resource_index b"

definition less_Resource :: "Resource \<Rightarrow> Resource \<Rightarrow> bool" where
  "less_Resource a b \<longleftrightarrow> resource_index a < resource_index b"

instance
  by standard (auto simp: less_eq_Resource_def less_Resource_def resource_index_inject)

end

datatype Role = hClient | hServer

record ServiceState =
  svc_limit :: size_t
  svc_used :: size_t

record BudgetState =
  used :: "Resource \<Rightarrow> size_t"
  limits :: "Resource \<Rightarrow> size_t"
  streamReceiveLimit :: size_t
  service :: "nat option"

record budgets =
  services :: "nat \<Rightarrow> ServiceState option"
  conns :: "nat \<Rightarrow> BudgetState option"

record Lease =
  lease_state :: "nat option"
  lease_resource :: Resource
  lease_amount :: size_t
  lease_limit :: size_t

record Http2Budget =
  budget_role :: Role
  budget_state :: nat

text \<open>\<open>Lease {}\<close>, which holds nothing.\<close>

definition empty_lease :: Lease where
  "empty_lease =
     \<lparr>lease_state = None, lease_resource = hProtocolStream, lease_amount = 0, lease_limit = 0\<rparr>"

definition lease_held :: "Lease \<Rightarrow> bool" where
  "lease_held l \<longleftrightarrow> lease_state l \<noteq> None"

definition set_conn :: "budgets \<Rightarrow> nat \<Rightarrow> BudgetState \<Rightarrow> budgets" where
  "set_conn b c st = b\<lparr>conns := (conns b)(c \<mapsto> st)\<rparr>"

definition set_service :: "budgets \<Rightarrow> nat \<Rightarrow> ServiceState \<Rightarrow> budgets" where
  "set_service b s sv = b\<lparr>services := (services b)(s \<mapsto> sv)\<rparr>"

section \<open>Operations of the service budget\<close>

text \<open>
  \<open>Http2ServiceBudget\<close>: the address of the new state is the allocator's choice, an argument here.
\<close>

definition new_service :: "budgets \<Rightarrow> nat \<Rightarrow> size_t \<Rightarrow> string + budgets" where
  "new_service b s maxTasks =
     (if maxTasks = 0 then Inl ''service task limit must be positive''
      else Inr (set_service b s \<lparr>svc_limit = maxTasks, svc_used = 0\<rparr>))"

text \<open>
  \<open>State::acquire\<close> as one atomic step: the loop of compare-and-exchange attempts either
  increments \<open>used\<close> from a value below the limit or observes a value not below it. The loop
  itself, interleaved with other threads, is the subject of theory \<open>H2_Service\<close>.
\<close>

definition service_acquire :: "ServiceState \<Rightarrow> bool \<times> ServiceState" where
  "service_acquire sv =
     (if svc_used sv < svc_limit sv then (True, sv\<lparr>svc_used := size_add (svc_used sv) 1\<rparr>)
      else (False, sv))"

definition service_release :: "ServiceState \<Rightarrow> ServiceState" where
  "service_release sv = sv\<lparr>svc_used := size_sub (svc_used sv) 1\<rparr>"

section \<open>Operations of the connection budget\<close>

definition new_budget ::
  "budgets \<Rightarrow> nat \<Rightarrow> Role \<Rightarrow> Http2Options \<Rightarrow> nat option \<Rightarrow> string + (Http2Budget \<times> budgets)" where
  "new_budget b c role opt svc =
     (if validationError opt \<noteq> [] then Inl (validationError opt)
      else if role = hServer \<and> svc = None then Inl ''server without shared service budget''
      else
        let server = (role = hServer);
            lim = (\<lambda>r. case r of
                     hProtocolStream \<Rightarrow> maxConcurrentStreams opt
                   | hApplicationTask \<Rightarrow> maxApplicationTasks opt
                   | hReceiveBytes \<Rightarrow> (if server then maxConnectionReceiveBytes opt
                                      else maxClientConnectionReceiveBytes opt)
                   | hSendBytes \<Rightarrow> maxConnectionSendBytes opt);
            st = \<lparr>used = (\<lambda>_. 0), limits = lim,
                  streamReceiveLimit = (if server then maxBodyBytes opt else maxResponseBytes opt),
                  service = svc\<rparr>
        in Inr (\<lparr>budget_role = role, budget_state = c\<rparr>, set_conn b c st))"

text \<open>
  \<open>Http2Budget::acquire\<close>. The handle always points to a live state; an address without one
  yields the empty lease.
\<close>

definition acquire ::
  "budgets \<Rightarrow> nat \<Rightarrow> Resource \<Rightarrow> size_t \<Rightarrow> size_t \<Rightarrow> Lease \<times> budgets" where
  "acquire b c r amount limit =
     (case conns b c of
        None \<Rightarrow> (empty_lease, b)
      | Some st \<Rightarrow>
          if amount > limit \<or> amount > size_sub (limits st r) (used st r) then (empty_lease, b)
          else
            let lease = \<lparr>lease_state = Some c, lease_resource = r, lease_amount = amount,
                         lease_limit = limit\<rparr>;
                st' = st\<lparr>used := (used st)(r := size_add (used st r) amount)\<rparr>
            in (case (if r = hApplicationTask then service st else None) of
                  None \<Rightarrow> (lease, set_conn b c st')
                | Some s \<Rightarrow>
                    (case services b s of
                       None \<Rightarrow> (empty_lease, b)
                     | Some sv \<Rightarrow>
                         (case service_acquire sv of
                            (False, _) \<Rightarrow> (empty_lease, b)
                          | (True, sv') \<Rightarrow> (lease, set_conn (set_service b s sv') c st')))))"

definition tryAcquireProtocolStream :: "budgets \<Rightarrow> Http2Budget \<Rightarrow> nat \<Rightarrow> Lease \<times> budgets" where
  "tryAcquireProtocolStream b h peerLimit =
     (case conns b (budget_state h) of
        None \<Rightarrow> (empty_lease, b)
      | Some st \<Rightarrow>
          if budget_role h = hClient \<and> used st hProtocolStream \<ge> peerLimit then (empty_lease, b)
          else acquire b (budget_state h) hProtocolStream 1 1)"

definition tryAcquireApplicationTask :: "budgets \<Rightarrow> Http2Budget \<Rightarrow> Lease \<times> budgets" where
  "tryAcquireApplicationTask b h = acquire b (budget_state h) hApplicationTask 1 1"

definition tryAcquireReceive :: "budgets \<Rightarrow> Http2Budget \<Rightarrow> size_t \<Rightarrow> Lease \<times> budgets" where
  "tryAcquireReceive b h bytes =
     (case conns b (budget_state h) of
        None \<Rightarrow> (empty_lease, b)
      | Some st \<Rightarrow> acquire b (budget_state h) hReceiveBytes bytes (streamReceiveLimit st))"

definition tryAcquireSend :: "budgets \<Rightarrow> Http2Budget \<Rightarrow> size_t \<Rightarrow> Lease \<times> budgets" where
  "tryAcquireSend b h bytes =
     (case conns b (budget_state h) of
        None \<Rightarrow> (empty_lease, b)
      | Some st \<Rightarrow> acquire b (budget_state h) hSendBytes bytes (limits st hSendBytes))"

section \<open>Operations of a lease\<close>

definition tryResize :: "budgets \<Rightarrow> Lease \<Rightarrow> size_t \<Rightarrow> bool \<times> Lease \<times> budgets" where
  "tryResize b l bytes =
     (case lease_state l of
        None \<Rightarrow> (False, l, b)
      | Some c \<Rightarrow>
          if lease_resource l < hReceiveBytes \<or> bytes > lease_limit l then (False, l, b)
          else
            (case conns b c of
               None \<Rightarrow> (False, l, b)
             | Some st \<Rightarrow>
                 let r = lease_resource l
                 in if bytes > lease_amount l
                    then
                      let growth = size_sub bytes (lease_amount l)
                      in if growth > size_sub (limits st r) (used st r) then (False, l, b)
                         else (True, l\<lparr>lease_amount := bytes\<rparr>,
                               set_conn b c (st\<lparr>used := (used st)(r := size_add (used st r) growth)\<rparr>))
                    else (True, l\<lparr>lease_amount := bytes\<rparr>,
                          set_conn b c (st\<lparr>used := (used st)
                            (r := size_sub (used st r) (size_sub (lease_amount l) bytes))\<rparr>))))"

definition lease_reset :: "budgets \<Rightarrow> Lease \<Rightarrow> Lease \<times> budgets" where
  "lease_reset b l =
     (case lease_state l of
        None \<Rightarrow> (l, b)
      | Some c \<Rightarrow>
          (case conns b c of
             None \<Rightarrow> (l\<lparr>lease_state := None, lease_amount := 0\<rparr>, b)
           | Some st \<Rightarrow>
               let r = lease_resource l;
                   b' = set_conn b c
                          (st\<lparr>used := (used st)(r := size_sub (used st r) (lease_amount l))\<rparr>);
                   b'' = (case (if r = hApplicationTask then service st else None) of
                            None \<Rightarrow> b'
                          | Some s \<Rightarrow>
                              (case services b' s of
                                 None \<Rightarrow> b'
                               | Some sv \<Rightarrow> set_service b' s (service_release sv)))
               in (l\<lparr>lease_state := None, lease_amount := 0\<rparr>, b'')))"

text \<open>Move construction and move assignment: the new owner and what is left in the source.\<close>

definition lease_take :: "Lease \<Rightarrow> Lease \<times> Lease" where
  "lease_take other = (other, other\<lparr>lease_state := None, lease_amount := 0\<rparr>)"

definition lease_assign :: "budgets \<Rightarrow> Lease \<Rightarrow> Lease \<Rightarrow> Lease \<times> Lease \<times> budgets" where
  "lease_assign b this other =
     (let (_, b') = lease_reset b this; (this', other') = lease_take other in (this', other', b'))"

section \<open>Accounting invariant\<close>

text \<open>
  The share of a lease in the counters of its connection and of the service its connection
  belongs to; \<open>owner\<close> gives the service of a connection.
\<close>


definition lease_share :: "nat \<Rightarrow> Resource \<Rightarrow> Lease \<Rightarrow> nat" where
  "lease_share c r l = (if lease_state l = Some c \<and> lease_resource l = r then lease_amount l else 0)"

definition service_share :: "(nat \<Rightarrow> nat option) \<Rightarrow> nat \<Rightarrow> Lease \<Rightarrow> nat" where
  "service_share own s l =
     (case lease_state l of None \<Rightarrow> 0
      | Some c \<Rightarrow> if lease_resource l = hApplicationTask \<and> own c = Some s then 1 else 0)"

definition owner :: "budgets \<Rightarrow> nat \<Rightarrow> nat option" where
  "owner b c = (case conns b c of None \<Rightarrow> None | Some st \<Rightarrow> service st)"

definition lease_ok :: "budgets \<Rightarrow> Lease \<Rightarrow> bool" where
  "lease_ok b l \<longleftrightarrow>
     (case lease_state l of None \<Rightarrow> lease_amount l = 0
      | Some c \<Rightarrow> conns b c \<noteq> None \<and> lease_amount l \<le> lease_limit l
          \<and> (lease_resource l < hReceiveBytes \<longrightarrow> lease_amount l = 1))"

text \<open>
  The counters of a connection (of a service) are the sums over the live leases, never above
  the limit, and the limits fit \<open>size_t\<close>, so that none of the unsigned operations wraps.
\<close>

definition conn_ok :: "budgets \<Rightarrow> Lease multiset \<Rightarrow> nat \<Rightarrow> BudgetState \<Rightarrow> bool" where
  "conn_ok b M c st \<longleftrightarrow>
     (\<forall>r. used st r = (\<Sum>l\<in>#M. lease_share c r l) \<and> used st r \<le> limits st r
          \<and> limits st r < size_modulus)
     \<and> (\<forall>s. service st = Some s \<longrightarrow> services b s \<noteq> None)"

definition service_ok :: "budgets \<Rightarrow> Lease multiset \<Rightarrow> nat \<Rightarrow> ServiceState \<Rightarrow> bool" where
  "service_ok b M s sv \<longleftrightarrow>
     svc_used sv = (\<Sum>l\<in>#M. service_share (owner b) s l) \<and> svc_used sv \<le> svc_limit sv
     \<and> svc_limit sv < size_modulus"

definition budgets_ok :: "budgets \<Rightarrow> Lease multiset \<Rightarrow> bool" where
  "budgets_ok b M \<longleftrightarrow>
     (\<forall>c st. conns b c = Some st \<longrightarrow> conn_ok b M c st)
     \<and> (\<forall>s sv. services b s = Some sv \<longrightarrow> service_ok b M s sv)
     \<and> (\<forall>l\<in>#M. lease_ok b l)"

lemma conn_okD:
  assumes "conn_ok b M c st"
  shows "used st r = (\<Sum>l\<in>#M. lease_share c r l)" and "used st r \<le> limits st r"
    and "limits st r < size_modulus" and "service st = Some s \<Longrightarrow> \<exists>sv. services b s = Some sv"
  using assms unfolding conn_ok_def by blast+

lemma conn_ok_cong:
  assumes "conn_ok b M c st"
    and "\<And>r. (\<Sum>l\<in>#M'. lease_share c r l) = (\<Sum>l\<in>#M. lease_share c r l)"
    and "\<And>s. services b s \<noteq> None \<Longrightarrow> services b' s \<noteq> None"
  shows "conn_ok b' M' c st"
  using assms unfolding conn_ok_def by metis

lemma budgets_okD:
  assumes "budgets_ok b M"
  shows "conns b c = Some st \<Longrightarrow> conn_ok b M c st" and "services b s = Some sv \<Longrightarrow> service_ok b M s sv"
    and "l \<in># M \<Longrightarrow> lease_ok b l"
  using assms unfolding budgets_ok_def by blast+

lemma conns_set [simp]:
  "conns (set_conn b c st) = (conns b)(c \<mapsto> st)" "services (set_conn b c st) = services b"
  "conns (set_service b s sv) = conns b" "services (set_service b s sv) = (services b)(s \<mapsto> sv)"
  by (simp_all add: set_conn_def set_service_def)

lemma owner_set_conn [simp]:
  "conns b c = Some st \<Longrightarrow> service st' = service st \<Longrightarrow> owner (set_conn b c st') = owner b"
  by (auto simp: owner_def)

lemma owner_set_service [simp]: "owner (set_service b s sv) = owner b"
  by (auto simp: owner_def)

lemma shares_empty [simp]:
  "lease_state l = None \<Longrightarrow> lease_share c r l = 0" "lease_state l = None \<Longrightarrow> service_share own s l = 0"
  by (simp_all add: lease_share_def service_share_def)

lemma empty_lease_simps [simp]:
  "lease_state empty_lease = None" "lease_amount empty_lease = 0" "\<not> lease_held empty_lease"
  by (simp_all add: empty_lease_def lease_held_def)

lemma budgets_ok_add_empty [simp]:
  "lease_state l = None \<Longrightarrow> lease_amount l = 0 \<Longrightarrow> budgets_ok b (add_mset l M) \<longleftrightarrow> budgets_ok b M"
  by (simp add: budgets_ok_def conn_ok_def service_ok_def lease_ok_def)

text \<open>Replacing one lease's share of a connection and, for application tasks, of its service.\<close>

lemma budgets_ok_update:
  assumes ok: "budgets_ok b (add_mset l M)"
    and st: "conns b c = Some st"
    and l: "lease_state l = None \<or> lease_state l = Some c \<and> lease_resource l = r"
    and l': "lease_state l' = None \<or> lease_state l' = Some c \<and> lease_resource l' = r"
    and used': "used st' = (used st)(r := used st r - lease_share c r l + lease_share c r l')"
    and rest: "limits st' = limits st" "service st' = service st"
    and bound: "used st r - lease_share c r l + lease_share c r l' \<le> limits st r"
    and lok: "lease_ok b l'"
    and b': "conns b' = (conns b)(c \<mapsto> st')"
    and sv: "services b' = (case (if r = hApplicationTask then service st else None) of
        None \<Rightarrow> services b
      | Some s \<Rightarrow> (services b)(s \<mapsto> (the (services b s))\<lparr>svc_used := svc_used (the (services b s))
            - service_share (owner b) s l + service_share (owner b) s l'\<rparr>))"
    and svb: "\<And>s. r = hApplicationTask \<Longrightarrow> service st = Some s \<Longrightarrow>
        svc_used (the (services b s)) - service_share (owner b) s l + service_share (owner b) s l'
          \<le> svc_limit (the (services b s))"
  shows "budgets_ok b' (add_mset l' M)"
proof -
  have own: "owner b' = owner b"
    using b' rest(2) st by (auto simp: owner_def)
  have cok: "conn_ok b (add_mset l M) c st" using ok st by (auto simp: budgets_ok_def)
  have svdom: "services b' s = None \<longleftrightarrow> services b s = None" for s
    using sv cok by (auto simp: conn_ok_def split: option.splits if_splits)
  have "conn_ok b' (add_mset l' M) x sx" if "conns b' x = Some sx" for x sx
  proof (cases "x = c")
    case True
    with that b' have "sx = st'" by simp
    have q: "used st q = lease_share c q l + (\<Sum>l\<in>#M. lease_share c q l)"
      "used st q \<le> limits st q" "limits st q < size_modulus" for q
      using conn_okD [OF cok] by simp_all
    have other: "lease_share c q l = 0" "lease_share c q l' = 0" if "q \<noteq> r" for q
      using l l' that by (auto simp: lease_share_def)
    have "used st' q = (\<Sum>l\<in>#add_mset l' M. lease_share c q l) \<and> used st' q \<le> limits st' q
        \<and> limits st' q < size_modulus" for q
      using q [of q] bound other [of q] used' rest by (cases "q = r") simp_all
    moreover have "\<forall>s. service st' = Some s \<longrightarrow> services b' s \<noteq> None"
      using conn_okD(4) [OF cok] rest svdom by auto
    ultimately show ?thesis
      using \<open>sx = st'\<close> True unfolding conn_ok_def by blast
  next
    case False
    with that b' have "conns b x = Some sx" by simp
    with ok have cx: "conn_ok b (add_mset l M) x sx" by (simp add: budgets_ok_def)
    have zero: "lease_share x q l = 0" "lease_share x q l' = 0" for q
      using l l' False by (auto simp: lease_share_def)
    from cx show ?thesis by (rule conn_ok_cong) (simp_all add: zero svdom)
  qed
  moreover have "service_ok b' (add_mset l' M) s sv'" if "services b' s = Some sv'" for s sv'
  proof (cases "r = hApplicationTask \<and> service st = Some s")
    case True
    then obtain sv0 where "services b s = Some sv0" using cok by (auto simp: conn_ok_def)
    with True ok have "service_ok b (add_mset l M) s sv0" by (simp add: budgets_ok_def)
    with True that sv svb [of s] \<open>services b s = Some sv0\<close> show ?thesis
      by (auto simp: service_ok_def own)
  next
    case False
    then have "services b s = Some sv'" using that sv by (auto split: if_splits option.splits)
    with ok have "service_ok b (add_mset l M) s sv'" by (simp add: budgets_ok_def)
    moreover have "service_share (owner b) s l = 0" "service_share (owner b) s l' = 0"
      using l l' False st by (auto simp: service_share_def owner_def split: option.splits)
    ultimately show ?thesis by (simp add: service_ok_def own)
  qed
  moreover have "lease_ok b' k" if "k \<in># add_mset l' M" for k
  proof -
    have "lease_ok b k" using that lok ok by (auto simp: budgets_ok_def)
    then show ?thesis using b' st by (auto simp: lease_ok_def split: option.splits)
  qed
  ultimately show ?thesis by (simp add: budgets_ok_def)
qed

lemma shares_le_used:
  assumes "budgets_ok b (add_mset l M)" "lease_state l = Some c" "conns b c = Some st"
  shows "lease_amount l \<le> used st (lease_resource l)"
    and "used st r \<le> limits st r" and "limits st r < size_modulus"
proof -
  from assms have ok: "conn_ok b (add_mset l M) c st" by (simp add: budgets_okD(1))
  from conn_okD(1) [OF ok, of "lease_resource l"] show "lease_amount l \<le> used st (lease_resource l)"
    using assms(2) by (simp add: lease_share_def)
  show "used st r \<le> limits st r" and "limits st r < size_modulus"
    using conn_okD(2,3) [OF ok] by simp_all
qed

lemma acquire_ok:
  assumes ok: "budgets_ok b M" and acq: "acquire b c r amount limit = (l, b')"
    and slot: "r < hReceiveBytes \<Longrightarrow> amount = 1"
  shows "budgets_ok b' (add_mset l M)"
proof (cases "l = empty_lease")
  case True
  then have "b' = b" using acq
    by (auto simp: acquire_def empty_lease_def Let_def split: option.splits if_splits prod.splits bool.splits)
  with True ok show ?thesis by simp
next
  case False
  then obtain st where st: "conns b c = Some st" and le: "amount \<le> limit"
    and room: "amount \<le> size_sub (limits st r) (used st r)"
    and l: "l = \<lparr>lease_state = Some c, lease_resource = r, lease_amount = amount, lease_limit = limit\<rparr>"
    using acq by (auto simp: acquire_def Let_def not_less split: option.splits if_splits prod.splits bool.splits)
  have cok: "conn_ok b M c st" using ok st by (simp add: budgets_ok_def)
  then have lim: "used st r \<le> limits st r" "limits st r < size_modulus" using conn_okD(2,3) by blast+
  then have fits: "used st r + amount \<le> limits st r" using room by (simp add: size_arith)
  then have add: "size_add (used st r) amount = used st r + amount" using lim by (simp add: size_arith)
  let ?st' = "st\<lparr>used := (used st)(r := used st r + amount)\<rparr>"
  have b': "conns b' = (conns b)(c \<mapsto> ?st')"
    using acq False st add room le
    by (auto simp: acquire_def Let_def split: option.splits if_splits prod.splits bool.splits)
  have svc: "\<exists>sv. services b s = Some sv \<and> svc_used sv < svc_limit sv
      \<and> services b' = (services b)(s \<mapsto> sv\<lparr>svc_used := svc_used sv + 1\<rparr>)"
    if "r = hApplicationTask" "service st = Some s" for s
  proof -
    from that conn_okD(4) [OF cok] obtain sv where sv: "services b s = Some sv" by blast
    then have "service_ok b M s sv" using ok by (simp add: budgets_okD(2))
    then have "svc_used sv < svc_limit sv \<Longrightarrow> size_add (svc_used sv) 1 = svc_used sv + 1"
      by (simp add: service_ok_def size_arith)
    with sv that acq False st room le show ?thesis
      by (auto simp: acquire_def service_acquire_def Let_def split: if_splits)
  qed
  show ?thesis
  proof (rule budgets_ok_update [where l = empty_lease and b = b and c = c and r = r and st = st and st' = ?st'])
    show "budgets_ok b (add_mset empty_lease M)" using ok by simp
    show "lease_ok b l" using l le slot st by (simp add: lease_ok_def)
    show "services b' = (case (if r = hApplicationTask then service st else None) of
        None \<Rightarrow> services b
      | Some s \<Rightarrow> (services b)(s \<mapsto> (the (services b s))\<lparr>svc_used := svc_used (the (services b s))
            - service_share (owner b) s empty_lease + service_share (owner b) s l\<rparr>))"
    proof (cases "if r = hApplicationTask then service st else None")
      case None
      with acq False st room le show ?thesis by (auto simp: acquire_def Let_def split: if_splits)
    next
      case (Some s)
      then have "r = hApplicationTask" "service st = Some s" by (auto split: if_splits)
      with svc [of s] st l show ?thesis by (auto simp: service_share_def owner_def)
    qed
  next
    fix s assume "r = hApplicationTask" "service st = Some s"
    then show "svc_used (the (services b s)) - service_share (owner b) s empty_lease
        + service_share (owner b) s l \<le> svc_limit (the (services b s))"
      using svc [of s] st l by (auto simp: service_share_def owner_def)
  qed (use st l fits b' in \<open>simp_all add: lease_share_def\<close>)
qed

lemma tryResize_fail: "tryResize b l n = (False, l', b') \<Longrightarrow> l' = l \<and> b' = b"
  by (auto simp: tryResize_def Let_def split: option.splits if_splits)

lemma tryResize_ok:
  assumes ok: "budgets_ok b (add_mset l M)" and rs: "tryResize b l n = (True, l', b')"
  shows "budgets_ok b' (add_mset l' M)" and "l' = l\<lparr>lease_amount := n\<rparr>" and "lease_held l'"
    and "n \<le> lease_limit l"
proof -
  from rs obtain c st where c: "lease_state l = Some c" and st: "conns b c = Some st"
    and pay: "\<not> lease_resource l < hReceiveBytes" and le: "n \<le> lease_limit l"
    and l': "l' = l\<lparr>lease_amount := n\<rparr>"
    by (auto simp: tryResize_def Let_def split: option.splits if_splits)
  let ?r = "lease_resource l" and ?a = "lease_amount l"
  let ?st' = "st\<lparr>used := (used st)(?r := used st ?r - ?a + n)\<rparr>"
  note share = shares_le_used [OF ok c st]
  have b': "b' = set_conn b c ?st'" and fits: "used st ?r - ?a + n \<le> limits st ?r"
    using rs c st pay le share(1) share(2,3) [of ?r]
    by (auto simp: tryResize_def Let_def size_arith split: if_splits)
  have app: "?r \<noteq> hApplicationTask" using pay by (auto simp: less_Resource_def)
  show "budgets_ok b' (add_mset l' M)"
  proof (rule budgets_ok_update [OF ok st, where r = ?r and st' = ?st'])
    show "lease_ok b l'" using l' c st le pay by (simp add: lease_ok_def)
  qed (use c l' fits b' app in \<open>simp_all add: lease_share_def\<close>)
  show "l' = l\<lparr>lease_amount := n\<rparr>" and "lease_held l'" and "n \<le> lease_limit l"
    using l' c le by (simp_all add: lease_held_def)
qed

lemma lease_reset_ok:
  assumes ok: "budgets_ok b (add_mset l M)" and rs: "lease_reset b l = (l', b')"
  shows "budgets_ok b' (add_mset l' M)" and "\<not> lease_held l'" and "lease_amount l' = 0"
proof -
  have lok: "lease_ok b l" using ok by (simp add: budgets_okD)
  show held: "\<not> lease_held l'" and amount: "lease_amount l' = 0"
    using rs lok by (auto simp: lease_reset_def lease_held_def lease_ok_def Let_def split: option.splits)
  show "budgets_ok b' (add_mset l' M)"
  proof (cases "lease_state l")
    case None
    with rs ok show ?thesis by (auto simp: lease_reset_def)
  next
    case (Some c)
    then obtain st where st: "conns b c = Some st" using lok by (auto simp: lease_ok_def)
    let ?r = "lease_resource l"
    let ?st' = "st\<lparr>used := (used st)(?r := used st ?r - lease_amount l)\<rparr>"
    note share = shares_le_used [OF ok Some st]
    have cok: "conn_ok b (add_mset l M) c st" using ok st by (simp add: budgets_okD)
    have svc: "\<exists>sv. services b s = Some sv \<and> 1 \<le> svc_used sv \<and> svc_used sv \<le> svc_limit sv"
      if "?r = hApplicationTask" "service st = Some s" for s
    proof -
      from that conn_okD(4) [OF cok] obtain sv where sv: "services b s = Some sv" by blast
      then have "service_ok b (add_mset l M) s sv" using ok by (simp add: budgets_okD(2))
      with sv that Some st show ?thesis by (auto simp: service_ok_def service_share_def owner_def)
    qed
    have b': "conns b' = (conns b)(c \<mapsto> ?st')"
      using rs Some st share(1)
      by (auto simp: lease_reset_def Let_def size_arith split: option.splits if_splits)
    have l': "l' = l\<lparr>lease_state := None, lease_amount := 0\<rparr>"
      using rs Some st by (auto simp: lease_reset_def Let_def)
    show ?thesis
    proof (rule budgets_ok_update [OF ok st, where r = ?r and st' = ?st'])
      show "services b' = (case (if ?r = hApplicationTask then service st else None) of
          None \<Rightarrow> services b
        | Some s \<Rightarrow> (services b)(s \<mapsto> (the (services b s))\<lparr>svc_used := svc_used (the (services b s))
              - service_share (owner b) s l + service_share (owner b) s l'\<rparr>))"
      proof (cases "if ?r = hApplicationTask then service st else None")
        case None
        with rs Some st show ?thesis by (auto simp: lease_reset_def Let_def split: if_splits)
      next
        case (Some s)
        then have app: "?r = hApplicationTask" "service st = Some s" by (auto split: if_splits)
        with svc [of s] rs \<open>lease_state l = Some c\<close> st l' show ?thesis
          by (auto simp: lease_reset_def Let_def service_release_def service_share_def owner_def size_arith)
      qed
    next
      fix s assume "?r = hApplicationTask" "service st = Some s"
      then show "svc_used (the (services b s)) - service_share (owner b) s l
          + service_share (owner b) s l' \<le> svc_limit (the (services b s))"
        using svc [of s] l' by auto
    qed (use Some l' b' share(1) share(2) [of ?r] in \<open>simp_all add: lease_share_def lease_ok_def\<close>)
  qed
qed


section \<open>The interface the streams rely on\<close>

text \<open>
  What a user of leases relies on: a ledger (here: the store and the multiset of live leases)
  in which resizing and returning one lease accounts for exactly that lease.
\<close>

fun reset_all :: "('w \<Rightarrow> 'l \<Rightarrow> 'l \<times> 'w) \<Rightarrow> 'w \<Rightarrow> 'l list \<Rightarrow> 'l list \<times> 'w" where
  "reset_all rst w [] = ([], w)"
| "reset_all rst w (l # ls) =
     (let (l', w') = rst w l; (ls', w'') = reset_all rst w' ls in (l' # ls', w''))"

locale lease_ledger =
  fixes ok :: "'w \<Rightarrow> 'l multiset \<Rightarrow> bool"
    and resize :: "'w \<Rightarrow> 'l \<Rightarrow> nat \<Rightarrow> bool \<times> 'l \<times> 'w"
    and rst :: "'w \<Rightarrow> 'l \<Rightarrow> 'l \<times> 'w"
    and held :: "'l \<Rightarrow> bool"
    and amount :: "'l \<Rightarrow> nat"
  assumes resize_ok: "ok w (add_mset l M) \<Longrightarrow> resize w l n = (True, l', w') \<Longrightarrow>
      ok w' (add_mset l' M) \<and> held l' \<and> amount l' = n"
    and resize_fail: "resize w l n = (False, l', w') \<Longrightarrow> l' = l \<and> w' = w"
    and rst_ok: "ok w (add_mset l M) \<Longrightarrow> rst w l = (l', w') \<Longrightarrow>
      ok w' (add_mset l' M) \<and> \<not> held l' \<and> amount l' = 0"
    and rst_idle: "\<not> held l \<Longrightarrow> rst w l = (l, w)"
begin

lemma resize_preserves:
  "ok w (add_mset l M) \<Longrightarrow> resize w l n = (res, l', w') \<Longrightarrow> ok w' (add_mset l' M)"
  by (cases res) (auto dest: resize_ok resize_fail)

lemma rst_twice:
  assumes "ok w (add_mset l M)" and "rst w l = (l', w')"
  shows "rst w' l' = (l', w')"
  using rst_ok [OF assms] rst_idle by blast

lemma reset_all_ok:
  "ok w (mset ls + M) \<Longrightarrow> reset_all rst w ls = (ls', w') \<Longrightarrow>
   ok w' (mset ls' + M) \<and> (\<forall>l\<in>set ls'. \<not> held l \<and> amount l = 0)"
proof (induction ls arbitrary: w ls' w' M)
  case Nil
  then show ?case by simp
next
  case (Cons l ls)
  obtain l1 w1 where r: "rst w l = (l1, w1)" by force
  obtain ls2 w2 where rs: "reset_all rst w1 ls = (ls2, w2)" by force
  from Cons.prems r rs have eq: "ls' = l1 # ls2" "w' = w2" by auto
  have "ok w (add_mset l (mset ls + M))" using Cons.prems(1) by simp
  then have l1: "ok w1 (add_mset l1 (mset ls + M)) \<and> \<not> held l1 \<and> amount l1 = 0" using r rst_ok by blast
  then have "ok w1 (mset ls + add_mset l1 M)" by simp
  from Cons.IH [OF this rs] l1 eq show ?case by simp
qed

end

interpretation ledger: lease_ledger budgets_ok tryResize lease_reset lease_held lease_amount
proof unfold_locales
  show "budgets_ok w' (add_mset l' M) \<and> lease_held l' \<and> lease_amount l' = n"
    if "budgets_ok w (add_mset l M)" "tryResize w l n = (True, l', w')" for w l M n l' w'
    using tryResize_ok [OF that] by simp
  show "l' = l \<and> w' = w" if "tryResize w l n = (False, l', w')" for w l n l' w'
    using tryResize_fail [OF that] .
  show "budgets_ok w' (add_mset l' M) \<and> \<not> lease_held l' \<and> lease_amount l' = 0"
    if "budgets_ok w (add_mset l M)" "lease_reset w l = (l', w')" for w l M l' w'
    using lease_reset_ok [OF that] by simp
  show "lease_reset w l = (l, w)" if "\<not> lease_held l" for w l
    using that by (simp add: lease_reset_def lease_held_def)
qed

lemma lease_assign_ok:
  assumes "budgets_ok b (add_mset this (add_mset other M))"
    and "lease_assign b this other = (this', other', b')"
  shows "budgets_ok b' (add_mset this' (add_mset other' M))"
proof -
  obtain t b1 where r: "lease_reset b this = (t, b1)" by force
  with assms have eq: "this' = other" "other' = other\<lparr>lease_state := None, lease_amount := 0\<rparr>" "b' = b1"
    by (auto simp: lease_assign_def lease_take_def)
  from lease_reset_ok [OF assms(1) r] have "budgets_ok b1 (add_mset other M)"
    using budgets_ok_add_empty [of t b1 "add_mset other M"] by (simp add: lease_held_def)
  then have "budgets_ok b1 (add_mset other' (add_mset other M))" using eq by simp
  with eq show ?thesis by (simp add: add_mset_commute [of other])
qed


section \<open>Reachable stores\<close>

text \<open>
  The values of \<open>size_t\<close> and \<open>uint32_t\<close> configuration fields that become limits lie in the range
  of their types.
\<close>

definition options_range :: "Http2Options \<Rightarrow> bool" where
  "options_range opt \<longleftrightarrow>
     maxConcurrentStreams opt < 2 ^ 32 \<and> maxApplicationTasks opt < 2 ^ 32
     \<and> maxConnectionReceiveBytes opt < size_modulus
     \<and> maxClientConnectionReceiveBytes opt < size_modulus
     \<and> maxConnectionSendBytes opt < size_modulus"

text \<open>
  One operation of any thread that owns a connection or lease: creating services and budgets,
  acquiring, resizing, returning, moving and destroying leases, in any order.
\<close>

inductive budget_step :: "budgets \<times> Lease multiset \<Rightarrow> budgets \<times> Lease multiset \<Rightarrow> bool" where
  open_service: "services b s = None \<Longrightarrow> (\<forall>c. owner b c \<noteq> Some s) \<Longrightarrow> n < size_modulus \<Longrightarrow>
     new_service b s n = Inr b' \<Longrightarrow> budget_step (b, M) (b', M)"
| open_connection: "conns b c = None \<Longrightarrow> options_range opt \<Longrightarrow> (\<forall>s. svc = Some s \<longrightarrow> services b s \<noteq> None) \<Longrightarrow>
     new_budget b c role opt svc = Inr (h, b') \<Longrightarrow> budget_step (b, M) (b', M)"
| acquire_protocol: "tryAcquireProtocolStream b h peer = (l, b') \<Longrightarrow> budget_step (b, M) (b', add_mset l M)"
| acquire_task: "tryAcquireApplicationTask b h = (l, b') \<Longrightarrow> budget_step (b, M) (b', add_mset l M)"
| acquire_receive: "tryAcquireReceive b h n = (l, b') \<Longrightarrow> budget_step (b, M) (b', add_mset l M)"
| acquire_send: "tryAcquireSend b h n = (l, b') \<Longrightarrow> budget_step (b, M) (b', add_mset l M)"
| resize: "tryResize b l n = (res, l', b') \<Longrightarrow> budget_step (b, add_mset l M) (b', add_mset l' M)"
| reset: "lease_reset b l = (l', b') \<Longrightarrow> budget_step (b, add_mset l M) (b', add_mset l' M)"
| assign: "lease_assign b this other = (this', other', b') \<Longrightarrow>
     budget_step (b, add_mset this (add_mset other M)) (b', add_mset this' (add_mset other' M))"
| destroy: "lease_reset b l = (l', b') \<Longrightarrow> budget_step (b, add_mset l M) (b', M)"

definition no_budgets :: budgets where
  "no_budgets = \<lparr>services = (\<lambda>_. None), conns = (\<lambda>_. None)\<rparr>"

inductive budget_reachable :: "budgets \<times> Lease multiset \<Rightarrow> bool" where
  start: "budget_reachable (no_budgets, {#})"
| step: "budget_reachable x \<Longrightarrow> budget_step x y \<Longrightarrow> budget_reachable y"

lemma sum_lease_share_new:
  assumes "budgets_ok b M" "conns b c = None"
  shows "(\<Sum>l\<in>#M. lease_share c r l) = 0"
proof -
  have "lease_share c r l = 0" if "l \<in># M" for l
    using budgets_okD(3) [OF assms(1) that] assms(2) by (auto simp: lease_share_def lease_ok_def)
  then show ?thesis by simp
qed

lemma owner_new_conn:
  "conns b c = None \<Longrightarrow> owner (set_conn b c st) = (owner b)(c := service st)"
  by (auto simp: owner_def)

lemma new_budget_ok:
  assumes ok: "budgets_ok b M" and fresh: "conns b c = None" and rng: "options_range opt"
    and svc: "\<forall>s. svc = Some s \<longrightarrow> services b s \<noteq> None"
    and new: "new_budget b c role opt svc = Inr (h, b')"
  shows "budgets_ok b' M"
proof -
  obtain st where b': "b' = set_conn b c st" and st: "used st = (\<lambda>_. 0)" "service st = svc"
    "\<And>r. limits st r < size_modulus"
    using new rng
    by (auto simp: new_budget_def options_range_def size_modulus_def Let_def split: if_splits Resource.splits)
  have own: "service_share (owner b') s l = service_share (owner b) s l" if "l \<in># M" for s l
    using budgets_okD(3) [OF ok that] fresh
    by (auto simp: b' service_share_def lease_ok_def owner_new_conn split: option.splits)
  have "conn_ok b' M x sx" if "conns b' x = Some sx" for x sx
  proof (cases "x = c")
    case True
    with that b' st svc sum_lease_share_new [OF ok fresh] show ?thesis by (auto simp: conn_ok_def)
  next
    case False
    with that b' ok have "conn_ok b M x sx" by (simp add: budgets_okD)
    then show ?thesis by (rule conn_ok_cong) (simp_all add: b')
  qed
  moreover have "service_ok b' M s sv" if "services b' s = Some sv" for s sv
  proof -
    from that b' ok have "service_ok b M s sv" by (simp add: budgets_okD)
    moreover have "image_mset (service_share (owner b') s) M = image_mset (service_share (owner b) s) M"
      using own by (auto intro: image_mset_cong)
    ultimately show ?thesis by (simp add: service_ok_def)
  qed
  moreover have "lease_ok b' l" if "l \<in># M" for l
    using budgets_okD(3) [OF ok that] by (auto simp: lease_ok_def b' split: option.splits)
  ultimately show ?thesis by (simp add: budgets_ok_def)
qed

lemma new_service_ok:
  assumes ok: "budgets_ok b M" and "\<forall>c. owner b c \<noteq> Some s" and "n < size_modulus"
    and "new_service b s n = Inr b'" and "services b s = None"
  shows "budgets_ok b' M"
proof -
  have b': "b' = set_service b s \<lparr>svc_limit = n, svc_used = 0\<rparr>"
    using assms(4) by (auto simp: new_service_def split: if_splits)
  have zero: "service_share (owner b) s l = 0" for l
    using assms(2) by (auto simp: service_share_def split: option.splits)
  have "conn_ok b' M x sx" if "conns b' x = Some sx" for x sx
  proof -
    from that b' ok have "conn_ok b M x sx" by (simp add: budgets_okD)
    then show ?thesis by (rule conn_ok_cong) (simp_all add: b')
  qed
  moreover have "service_ok b' M t sv" if "services b' t = Some sv" for t sv
  proof (cases "t = s")
    case True
    with that b' assms(3) zero show ?thesis by (auto simp: service_ok_def)
  next
    case False
    with that b' ok have "service_ok b M t sv" by (simp add: budgets_okD)
    then show ?thesis by (simp add: b' service_ok_def)
  qed
  moreover have "lease_ok b' l" if "l \<in># M" for l
    using budgets_okD(3) [OF ok that] by (auto simp: lease_ok_def b' split: option.splits)
  ultimately show ?thesis by (simp add: budgets_ok_def)
qed

lemma acquire_result:
  assumes "budgets_ok b M" and "r < hReceiveBytes \<Longrightarrow> n = 1"
    and "x = (empty_lease, b) \<or> x = acquire b c r n limit" and "x = (l, b')"
  shows "budgets_ok b' (add_mset l M)"
  using assms by (auto intro: acquire_ok [of b M c r n limit])

lemma tryAcquireProtocolStream_ok:
  assumes "budgets_ok b M" and "tryAcquireProtocolStream b h peer = (l, b')"
  shows "budgets_ok b' (add_mset l M)"
proof (rule acquire_result [OF assms(1) _ _ assms(2)])
  show "tryAcquireProtocolStream b h peer = (empty_lease, b)
      \<or> tryAcquireProtocolStream b h peer = acquire b (budget_state h) hProtocolStream 1 1"
    by (simp add: tryAcquireProtocolStream_def split: option.splits)
qed simp

lemma tryAcquireApplicationTask_ok:
  assumes "budgets_ok b M" and "tryAcquireApplicationTask b h = (l, b')"
  shows "budgets_ok b' (add_mset l M)"
  by (rule acquire_result [OF assms(1) _ _ assms(2), of hApplicationTask 1 "budget_state h" 1])
    (simp_all add: tryAcquireApplicationTask_def)

lemma tryAcquireReceive_ok:
  assumes "budgets_ok b M" and "tryAcquireReceive b h n = (l, b')"
  shows "budgets_ok b' (add_mset l M)"
  using assms
  by (cases "conns b (budget_state h)")
    (auto simp: tryAcquireReceive_def less_Resource_def intro: acquire_ok)

lemma tryAcquireSend_ok:
  assumes "budgets_ok b M" and "tryAcquireSend b h n = (l, b')"
  shows "budgets_ok b' (add_mset l M)"
  using assms
  by (cases "conns b (budget_state h)")
    (auto simp: tryAcquireSend_def less_Resource_def intro: acquire_ok)

lemmas tryAcquire_ok = tryAcquireProtocolStream_ok tryAcquireApplicationTask_ok
  tryAcquireReceive_ok tryAcquireSend_ok

lemma budget_step_ok: "budget_step x y \<Longrightarrow> budgets_ok (fst x) (snd x) \<Longrightarrow> budgets_ok (fst y) (snd y)"
proof (induction rule: budget_step.induct)
  case (open_service b s n b' M)
  then show ?case using new_service_ok [of b M s n b'] by simp
next
  case (open_connection b c opt svc role h b' M)
  then show ?case using new_budget_ok [of b M c opt svc role h b'] by simp
next
  case (resize b l n res l' b' M)
  then show ?case using ledger.resize_preserves [of b l M n res l' b'] by simp
next
  case (reset b l l' b' M)
  then show ?case using lease_reset_ok(1) [of b l M l' b'] by simp
next
  case (assign b this other this' other' b' M)
  then show ?case using lease_assign_ok [of b this other M this' other' b'] by simp
next
  case (destroy b l l' b' M)
  then have "budgets_ok b' (add_mset l' M)" "\<not> lease_held l'" "lease_amount l' = 0"
    using lease_reset_ok [of b l M l' b'] by simp_all
  then show ?case by (simp add: lease_held_def)
qed (simp_all only: fst_conv snd_conv tryAcquire_ok)

lemma budget_reachable_ok: "budget_reachable x \<Longrightarrow> budgets_ok (fst x) (snd x)"
proof (induction rule: budget_reachable.induct)
  case start
  then show ?case by (simp add: budgets_ok_def no_budgets_def)
next
  case (step x y)
  then show ?case using budget_step_ok by blast
qed

section \<open>Properties\<close>

text \<open>
  C5. In every reachable store, whatever the interleaving of operations, the counter of each
  resource of each connection equals the total held by the live leases of that connection and
  does not exceed the configured limit, and the service counter equals the number of live
  application tasks of all its connections and does not exceed the service limit.
\<close>

theorem budget_limits_hold:
  assumes "budget_reachable (b, M)"
  shows "(\<forall>c st r. conns b c = Some st \<longrightarrow>
           used st r = (\<Sum>l\<in>#M. lease_share c r l) \<and> used st r \<le> limits st r)
       \<and> (\<forall>s sv. services b s = Some sv \<longrightarrow>
           svc_used sv = (\<Sum>l\<in>#M. service_share (owner b) s l) \<and> svc_used sv \<le> svc_limit sv)"
proof -
  have ok: "budgets_ok b M" using budget_reachable_ok [OF assms] by simp
  then show ?thesis
    using conn_okD(1,2) budgets_okD(1,2) unfolding service_ok_def by metis
qed

text \<open>A small reachable store: one service, one server connection, one running task.\<close>

definition sample_store :: "budgets \<times> Lease" where
  "sample_store =
     (case new_service no_budgets 0 2 of Inl _ \<Rightarrow> (no_budgets, empty_lease)
      | Inr b1 \<Rightarrow>
        (case new_budget b1 0 hServer default_options (Some 0) of Inl _ \<Rightarrow> (b1, empty_lease)
         | Inr (h, b2) \<Rightarrow> (case tryAcquireApplicationTask b2 h of (l, b3) \<Rightarrow> (b3, l))))"

lemma sample_store_reachable: "budget_reachable (fst sample_store, {#snd sample_store#})"
proof -
  obtain b1 where b1: "new_service no_budgets 0 2 = Inr b1" by (simp add: new_service_def)
  have v: "validationError default_options = []"
    using default_options_valid by (simp add: options_valid_def)
  then obtain h b2 where b2: "new_budget b1 0 hServer default_options (Some 0) = Inr (h, b2)"
    by (simp add: new_budget_def Let_def)
  obtain l b3 where b3: "tryAcquireApplicationTask b2 h = (l, b3)" by force
  have "budget_step (no_budgets, {#}) (b1, {#})"
    by (rule budget_step.open_service [OF _ _ _ b1])
      (simp_all add: no_budgets_def owner_def size_modulus_def)
  moreover have "budget_step (b1, {#}) (b2, {#})"
    by (rule budget_step.open_connection [OF _ _ _ b2])
      (use b1 in \<open>auto simp: new_service_def no_budgets_def options_range_def default_options_def
        size_modulus_def split: if_splits\<close>)
  moreover have "budget_step (b2, {#}) (b3, {#l#})"
    by (rule budget_step.acquire_task [OF b3])
  ultimately have "budget_reachable (b3, {#l#})"
    by (blast intro: budget_reachable.intros)
  then show ?thesis by (simp add: sample_store_def b1 b2 b3)
qed

lemma sample_store_conn:
  "\<exists>st. conns (fst sample_store) 0 = Some st \<and> used st hApplicationTask = 1 \<and> lease_held (snd sample_store)"
  using default_options_valid
  by (simp add: sample_store_def new_service_def new_budget_def options_valid_def Let_def
      tryAcquireApplicationTask_def acquire_def default_options_def service_acquire_def no_budgets_def
      size_sub_def size_add_def size_modulus_def lease_held_def)

theorem budget_limits_hold_witness:
  "\<exists>b M st. budget_reachable (b, M) \<and> conns b 0 = Some st \<and> used st hApplicationTask = 1
     \<and> used st hApplicationTask = (\<Sum>l\<in>#M. lease_share 0 hApplicationTask l)
     \<and> used st hApplicationTask \<le> limits st hApplicationTask"
  using budget_limits_hold [OF sample_store_reachable] sample_store_conn sample_store_reachable by blast

text \<open>
  C6. No leak: when every live lease has been returned, every counter of every connection and of
  every service is back at zero, and no lease is held any more.
\<close>

theorem budget_no_leak:
  assumes "budget_reachable (b, mset ls)" and "reset_all lease_reset b ls = (ls', b')"
  shows "(\<forall>l \<in> set ls'. \<not> lease_held l)
    \<and> (\<forall>c st r. conns b' c = Some st \<longrightarrow> used st r = 0)
    \<and> (\<forall>s sv. services b' s = Some sv \<longrightarrow> svc_used sv = 0)"
proof -
  have "budgets_ok b (mset ls + {#})" using budget_reachable_ok [OF assms(1)] by simp
  from ledger.reset_all_ok [OF this assms(2)]
  have ok: "budgets_ok b' (mset ls')" and free: "\<forall>l\<in>set ls'. \<not> lease_held l \<and> lease_amount l = 0"
    by simp_all
  have none: "lease_state l = None" if "l \<in># mset ls'" for l
    using free that by (auto simp: lease_held_def)
  have "used st r = 0" if "conns b' c = Some st" for c st r
    using conn_okD(1) [OF budgets_okD(1) [OF ok that], of r] none by simp
  moreover have "svc_used sv = 0" if "services b' s = Some sv" for s sv
    using budgets_okD(2) [OF ok that] none by (simp add: service_ok_def)
  ultimately show ?thesis using free by blast
qed

theorem budget_no_leak_witness:
  "\<exists>ls' b'. reset_all lease_reset (fst sample_store) [snd sample_store] = (ls', b')
     \<and> (\<forall>l \<in> set ls'. \<not> lease_held l)
     \<and> (\<forall>c st r. conns b' c = Some st \<longrightarrow> used st r = 0)
     \<and> (\<forall>s sv. services b' s = Some sv \<longrightarrow> svc_used sv = 0)"
proof -
  obtain ls' b' where r: "reset_all lease_reset (fst sample_store) [snd sample_store] = (ls', b')"
    by force
  have "budget_reachable (fst sample_store, mset [snd sample_store])"
    using sample_store_reachable by simp
  from budget_no_leak [OF this r] r show ?thesis by blast
qed

text \<open>
  Admission is exact: in a reachable store a slot or a number of bytes is granted if and only
  if it fits the per-lease limit, the remaining connection budget and, for application tasks of
  a connection with a service, the remaining service budget; a refusal changes nothing.
\<close>

theorem acquire_exact:
  assumes "budget_reachable (b, M)" and "conns b c = Some st" and "acquire b c r n limit = (l, b')"
  shows "(lease_held l \<longleftrightarrow>
            n \<le> limit \<and> used st r + n \<le> limits st r
            \<and> (\<forall>s sv. r = hApplicationTask \<and> service st = Some s \<and> services b s = Some sv \<longrightarrow>
                  svc_used sv < svc_limit sv))
    \<and> (\<not> lease_held l \<longrightarrow> b' = b)"
proof -
  have ok: "budgets_ok b M" using budget_reachable_ok [OF assms(1)] by simp
  have cok: "conn_ok b M c st" using budgets_okD(1) [OF ok assms(2)] .
  have room: "n \<le> size_sub (limits st r) (used st r) \<longleftrightarrow> used st r + n \<le> limits st r"
    using conn_okD(2) [OF cok, of r] by (auto simp: size_arith)
  show ?thesis
  proof (cases "r = hApplicationTask \<and> service st \<noteq> None")
    case True
    then obtain s sv where s: "service st = Some s" "services b s = Some sv"
      using conn_okD(4) [OF cok] by blast
    with True assms(2,3) room show ?thesis
      by (auto simp: acquire_def service_acquire_def Let_def not_less lease_held_def split: if_splits)
  next
    case False
    with assms(2,3) room show ?thesis
      by (auto simp: acquire_def Let_def not_less lease_held_def split: if_splits option.splits)
  qed
qed

theorem acquire_exact_witness:
  "\<exists>st l b'. conns (fst sample_store) 0 = Some st
     \<and> acquire (fst sample_store) 0 hReceiveBytes 10 20 = (l, b')
     \<and> (lease_held l \<longleftrightarrow> (10::nat) \<le> 20 \<and> used st hReceiveBytes + 10 \<le> limits st hReceiveBytes
          \<and> (\<forall>s sv. hReceiveBytes = hApplicationTask \<and> service st = Some s
               \<and> services (fst sample_store) s = Some sv \<longrightarrow> svc_used sv < svc_limit sv))
     \<and> (\<not> lease_held l \<longrightarrow> b' = fst sample_store)"
proof -
  obtain st where st: "conns (fst sample_store) 0 = Some st" using sample_store_conn by blast
  obtain l b' where a: "acquire (fst sample_store) 0 hReceiveBytes 10 20 = (l, b')" by force
  from acquire_exact [OF sample_store_reachable st a] st a show ?thesis by blast
qed

end
