(* ===== verification/H2_Service.thy ===== *)
theory H2_Service
  imports H2_Budget
begin

text \<open>
  The service budget under concurrency: \<open>Http2ServiceBudget::State\<close> of
  \<^verbatim>\<open>src/src/core/http2/Http2Budget.h\<close>. All worker threads of a server share one atomic counter;
  \<open>acquire\<close> is a loop of weak compare-and-exchange attempts, \<open>release\<close> a \<open>fetch_sub\<close>. Each
  atomic access is one step of a thread, and the threads interleave freely.
\<close>

section \<open>Threads\<close>

text \<open>
  Where a caller of \<open>acquire\<close> stands: outside, in the loop with the value it last read, holding
  a task, or refused.
\<close>

datatype caller = Outside | Trying (seen: size_t) | Holding | Refused

record service_sys =
  shared :: ServiceState
  callers :: "nat \<Rightarrow> caller"

definition set_caller :: "service_sys \<Rightarrow> nat \<Rightarrow> caller \<Rightarrow> service_sys" where
  "set_caller s i k = s\<lparr>callers := (callers s)(i := k)\<rparr>"

definition set_used :: "service_sys \<Rightarrow> size_t \<Rightarrow> service_sys" where
  "set_used s n = s\<lparr>shared := (shared s)\<lparr>svc_used := n\<rparr>\<rparr>"

text \<open>
  \<open>acquire\<close>: \<open>load\<close>, then while the value read is below the limit a compare-and-exchange, which
  either stores the incremented value or (also spuriously) refreshes the value read.
\<close>

inductive service_step :: "service_sys \<Rightarrow> service_sys \<Rightarrow> bool" where
  load: "callers s i = Outside \<Longrightarrow>
     service_step s (set_caller s i (Trying (svc_used (shared s))))"
| cas_success: "callers s i = Trying cur \<Longrightarrow> cur < svc_limit (shared s) \<Longrightarrow>
     svc_used (shared s) = cur \<Longrightarrow>
     service_step s (set_caller (set_used s (size_add cur 1)) i Holding)"
| cas_failure: "callers s i = Trying cur \<Longrightarrow> cur < svc_limit (shared s) \<Longrightarrow>
     service_step s (set_caller s i (Trying (svc_used (shared s))))"
| refuse: "callers s i = Trying cur \<Longrightarrow> \<not> cur < svc_limit (shared s) \<Longrightarrow>
     service_step s (set_caller s i Refused)"
| release: "callers s i = Holding \<Longrightarrow>
     service_step s (set_caller (set_used s (size_sub (svc_used (shared s)) 1)) i Outside)"
| give_up: "callers s i = Refused \<Longrightarrow> service_step s (set_caller s i Outside)"

inductive_cases service_stepE: "service_step s t"

definition initial_service :: "size_t \<Rightarrow> service_sys" where
  "initial_service n = \<lparr>shared = \<lparr>svc_limit = n, svc_used = 0\<rparr>, callers = (\<lambda>_. Outside)\<rparr>"

inductive service_run :: "service_sys \<Rightarrow> service_sys \<Rightarrow> bool" where
  run_nil: "service_run s s"
| run_step: "service_run s t \<Longrightarrow> service_step t u \<Longrightarrow> service_run s u"

section \<open>Invariant\<close>

definition holders :: "service_sys \<Rightarrow> nat set" where
  "holders s = {i. callers s i = Holding}"

definition service_inv :: "service_sys \<Rightarrow> bool" where
  "service_inv s \<longleftrightarrow>
     finite (holders s) \<and> svc_used (shared s) = card (holders s)
     \<and> svc_used (shared s) \<le> svc_limit (shared s) \<and> svc_limit (shared s) < size_modulus"

lemma service_sys_simps [simp]:
  "callers (set_caller s i k) = (callers s)(i := k)" "shared (set_caller s i k) = shared s"
  "callers (set_used s n) = callers s" "svc_used (shared (set_used s n)) = n"
  "svc_limit (shared (set_used s n)) = svc_limit (shared s)"
  by (simp_all add: set_caller_def set_used_def)

lemma holders_set_caller:
  "holders (set_caller s i k) = (if k = Holding then insert i (holders s) else holders s - {i})"
  by (auto simp: holders_def)

lemma holders_set_used [simp]: "holders (set_used s n) = holders s"
  by (simp add: holders_def)

lemma not_holder: "callers s i \<noteq> Holding \<Longrightarrow> i \<notin> holders s"
  by (simp add: holders_def)

lemma service_inv_frame:
  assumes "service_inv s" "callers s i \<noteq> Holding" "k \<noteq> Holding"
  shows "service_inv (set_caller s i k)"
  using assms not_holder [of s i] by (simp add: service_inv_def holders_set_caller)

lemma service_step_inv: "service_step s t \<Longrightarrow> service_inv s \<Longrightarrow> service_inv t"
proof (induction rule: service_step.induct)
  case (cas_success s i cur)
  then have "i \<notin> holders s" by (simp add: holders_def)
  with cas_success show ?case
    by (simp add: service_inv_def holders_set_caller size_arith)
next
  case (release s i)
  then have i: "i \<in> holders s" and fin: "finite (holders s)" by (simp_all add: holders_def service_inv_def)
  then have "0 < card (holders s)" using card_gt_0_iff by blast
  moreover have "svc_used (shared s) = card (holders s)" "svc_used (shared s) \<le> svc_limit (shared s)"
    "svc_limit (shared s) < size_modulus" using release by (auto simp: service_inv_def)
  ultimately show ?case using i fin
    by (simp add: service_inv_def holders_set_caller size_arith card_Diff_singleton)
qed (simp_all add: service_inv_frame)

lemma service_step_limit: "service_step s t \<Longrightarrow> svc_limit (shared t) = svc_limit (shared s)"
  by (induction rule: service_step.induct) simp_all

lemma service_run_inv: "service_run s t \<Longrightarrow> service_inv s \<Longrightarrow> service_inv t"
  by (induction rule: service_run.induct) (auto dest: service_step_inv)

lemma service_run_limit: "service_run s t \<Longrightarrow> svc_limit (shared t) = svc_limit (shared s)"
  by (induction rule: service_run.induct) (auto dest: service_step_limit)

lemma initial_service_inv: "n < size_modulus \<Longrightarrow> service_inv (initial_service n)"
  by (simp add: service_inv_def initial_service_def holders_def)

lemma service_run_trans: "service_run t u \<Longrightarrow> service_run s t \<Longrightarrow> service_run s u"
  by (induction rule: service_run.induct) (auto intro: run_step)

lemma service_run_exact:
  assumes "n < 2 ^ 64" and "service_run (initial_service n) s"
  shows "finite {i. callers s i = Holding}" "svc_used (shared s) = card {i. callers s i = Holding}"
    "svc_used (shared s) \<le> n" "svc_limit (shared s) = n"
proof -
  have inv: "service_inv s"
    using service_run_inv [OF assms(2)] initial_service_inv assms(1) by (simp add: size_modulus_def)
  show lim: "svc_limit (shared s) = n"
    using service_run_limit [OF assms(2)] by (simp add: initial_service_def)
  show "finite {i. callers s i = Holding}" "svc_used (shared s) = card {i. callers s i = Holding}"
    "svc_used (shared s) \<le> n"
    using inv lim by (auto simp: service_inv_def holders_def)
qed

lemma solo_acquire:
  assumes "callers s i = Outside" "svc_used (shared s) < svc_limit (shared s)"
  shows "\<exists>t. service_run s t \<and> callers t i = Holding"
proof -
  let ?u = "set_caller s i (Trying (svc_used (shared s)))"
  have "service_step s ?u" using assms(1) by (rule service_step.load)
  moreover have "service_step ?u (set_caller (set_used ?u (size_add (svc_used (shared s)) 1)) i Holding)"
    by (rule service_step.cas_success) (use assms(2) in simp_all)
  ultimately have "service_run s (set_caller (set_used ?u (size_add (svc_used (shared s)) 1)) i Holding)"
    using run_step [OF run_step [OF run_nil]] by blast
  then show ?thesis by (auto intro!: exI)
qed

section \<open>Properties\<close>

text \<open>
  C18. However the worker threads interleave and however often compare-and-exchange fails, the
  shared counter is exactly the number of threads that hold a task, and it never passes the
  limit the service was created with.
\<close>

theorem service_counter_exact:
  assumes "n < 2 ^ 64" and "service_run (initial_service n) s"
  shows "finite {i. callers s i = Holding} \<and> svc_used (shared s) = card {i. callers s i = Holding}
    \<and> card {i. callers s i = Holding} \<le> n"
  using service_run_exact [OF assms] by simp

theorem service_counter_exact_witness:
  "\<exists>s. service_run (initial_service 1) s \<and> callers s 7 = Holding
     \<and> svc_used (shared s) = card {i. callers s i = Holding} \<and> card {i. callers s i = Holding} \<le> 1"
proof -
  obtain s where "service_run (initial_service 1) s" "callers s 7 = Holding"
    using solo_acquire [of "initial_service 1" 7] by (auto simp: initial_service_def)
  with service_counter_exact [of 1 s] show ?thesis by auto
qed

text \<open>
  The loop implements the atomic operations the rest of the model uses: a step leaves the
  shared state alone, or is a successful atomic acquisition that makes a thread a holder, or the
  release by a holder; and a thread is refused only after reading a value at the limit.
\<close>

theorem service_loop_refines_atomic:
  assumes "service_step s t"
  shows "(shared t = shared s \<and> {i. callers t i = Holding} = {i. callers s i = Holding})
    \<or> (\<exists>i. service_acquire (shared s) = (True, shared t) \<and> callers s i \<noteq> Holding
          \<and> {j. callers t j = Holding} = insert i {j. callers s j = Holding})
    \<or> (\<exists>i. callers s i = Holding \<and> shared t = service_release (shared s)
          \<and> {j. callers t j = Holding} = {j. callers s j = Holding} - {i})"
  using assms
proof (cases rule: service_step.cases)
  case (cas_success i cur)
  then have "service_acquire (shared s) = (True, shared t)"
    by (simp add: service_acquire_def set_used_def set_caller_def)
  moreover have "{j. callers t j = Holding} = insert i {j. callers s j = Holding}"
    using cas_success by auto
  moreover have "callers s i \<noteq> Holding" using cas_success by simp
  ultimately show ?thesis by blast
next
  case (release i)
  then have "shared t = service_release (shared s)"
    by (simp add: service_release_def set_used_def set_caller_def)
  moreover have "{j. callers t j = Holding} = {j. callers s j = Holding} - {i}"
    using release by auto
  ultimately show ?thesis using release by blast
qed auto

theorem service_loop_refines_atomic_witness:
  "\<exists>s t. service_step s t \<and> shared s = \<lparr>svc_limit = 1, svc_used = 0\<rparr>
    \<and> ((shared t = shared s \<and> {i. callers t i = Holding} = {i. callers s i = Holding})
    \<or> (\<exists>i. service_acquire (shared s) = (True, shared t) \<and> callers s i \<noteq> Holding
          \<and> {j. callers t j = Holding} = insert i {j. callers s j = Holding})
    \<or> (\<exists>i. callers s i = Holding \<and> shared t = service_release (shared s)
          \<and> {j. callers t j = Holding} = {j. callers s j = Holding} - {i}))"
proof -
  let ?s = "initial_service 1"
  have "service_step ?s (set_caller ?s 3 (Trying (svc_used (shared ?s))))"
    by (rule service_step.load) (simp add: initial_service_def)
  from service_loop_refines_atomic [OF this] this show ?thesis
    by (intro exI [of _ ?s] exI conjI) (assumption | simp add: initial_service_def)+
qed

text \<open>
  Availability: whenever a task slot is free, a caller that runs its loop alone obtains it,
  so the compare-and-exchange loop never refuses while there is room and no interference.
\<close>

theorem service_acquire_available:
  assumes "service_run (initial_service n) s" and "n < 2 ^ 64"
    and "card {j. callers s j = Holding} < n" and "callers s i = Outside"
  shows "\<exists>t. service_run (initial_service n) t \<and> callers t i = Holding
    \<and> svc_used (shared t) = card {j. callers t j = Holding}"
proof -
  have "svc_used (shared s) < svc_limit (shared s)"
    using service_run_exact [OF assms(2,1)] assms(3) by simp
  then obtain t where t: "service_run s t" "callers t i = Holding"
    using solo_acquire [OF assms(4)] by blast
  then have "service_run (initial_service n) t" using service_run_trans assms(1) by blast
  moreover have "svc_used (shared t) = card {j. callers t j = Holding}"
    using service_run_exact(2) [OF assms(2) calculation] .
  ultimately show ?thesis using t(2) by blast
qed

theorem service_acquire_available_witness:
  "\<exists>t. service_run (initial_service 2) t \<and> callers t 5 = Holding
    \<and> svc_used (shared t) = card {j. callers t j = Holding}"
  by (rule service_acquire_available [OF run_nil]) (simp_all add: initial_service_def)

end
