(* ===== verification/H2_Headers.thy ===== *)
theory H2_Headers
  imports H2_Budget Header_Map
begin

text \<open>
  Header blocks of HTTP/2: \<^verbatim>\<open>src/src/core/http2/Http2Headers.cpp\<close>. A block stores the bytes of
  all its fields in one string and each field as four offsets into it; it validates every field
  when it is appended and the block as a whole when it is sealed.

  \<open>boost::asio::ip::make_address_v6\<close> is code of a library: it is the argument \<open>v6\<close> of the
  definitions that use it, giving the sixteen bytes of the address or \<open>None\<close>.
\<close>

section \<open>Character classes and small parsers\<close>

definition kConnectionFields :: "string list" where
  "kConnectionFields = [''connection'', ''keep-alive'', ''proxy-connection'', ''transfer-encoding'', ''upgrade'']"

definition kForbiddenTrailers :: "string list" where
  "kForbiddenTrailers =
     [''content-length'', ''host'', ''te'', ''trailer'', ''authorization'', ''proxy-authorization'',
      ''proxy-authenticate'', ''www-authenticate'', ''cookie'', ''set-cookie'', ''content-encoding'',
      ''content-type'', ''content-range'', ''content-location'', ''range'', ''expect'', ''max-forwards'',
      ''cache-control'', ''age'', ''expires'', ''date'', ''location'', ''retry-after'', ''vary'']"

definition kNotFound :: size_t where "kNotFound = kMaxHeaderFields"
definition kMaxPort :: nat where "kMaxPort = 65535"

definition alpha :: "char \<Rightarrow> bool" where
  "alpha c \<longleftrightarrow> 97 \<le> ord c \<and> ord c \<le> 122 \<or> 65 \<le> ord c \<and> ord c \<le> 90"

definition digit :: "char \<Rightarrow> bool" where
  "digit c \<longleftrightarrow> 48 \<le> ord c \<and> ord c \<le> 57"

definition kSpecial :: string where
  "kSpecial = ''!#$%&'' @ [CHR 0x27] @ ''*+-.^_'' @ [CHR 0x60] @ ''|~''"

definition token :: "string \<Rightarrow> bool \<Rightarrow> bool" where
  "token txt lowercaseOnly \<longleftrightarrow>
     txt \<noteq> [] \<and>
     list_all (\<lambda>c. alpha c \<and> (\<not> lowercaseOnly \<or> ord c < 65 \<or> ord c > 90)
                  \<or> digit c \<or> c \<in> set kSpecial) txt"

definition validValue :: "string \<Rightarrow> bool" where
  "validValue val \<longleftrightarrow>
     \<not> (val \<noteq> [] \<and> (ord (hd val) = 32 \<or> ord (hd val) = 9 \<or> ord (last val) = 32 \<or> ord (last val) = 9))
     \<and> list_all (\<lambda>c. ord c \<ge> 0x20 \<and> ord c \<noteq> 0x7f \<or> ord c = 9) val"

text \<open>
  \<open>std::from_chars\<close> on digits only: the decimal value, or a range error from \<open>2 ^ 64\<close> on.
\<close>

definition decimal_value :: "string \<Rightarrow> nat" where
  "decimal_value s = foldl (\<lambda>n c. 10 * n + (ord c - 48)) 0 s"

definition unsignedDecimal :: "string \<Rightarrow> nat option" where
  "unsignedDecimal val =
     (if val = [] \<or> \<not> list_all digit val then None
      else if decimal_value val \<ge> 2 ^ 64 \<or> decimal_value val > 2 ^ 63 - 1 then None
      else Some (decimal_value val))"

definition validScheme :: "string \<Rightarrow> bool" where
  "validScheme scheme \<longleftrightarrow>
     scheme \<noteq> [] \<and> alpha (hd scheme)
     \<and> list_all (\<lambda>c. alpha c \<or> digit c \<or> c = CHR ''+'' \<or> c = CHR ''-'' \<or> c = CHR ''.'') scheme"

text \<open>\<open>std::string_view::find\<close> of a character.\<close>

fun find_char :: "char \<Rightarrow> string \<Rightarrow> nat option" where
  "find_char c [] = None"
| "find_char c (x # xs) = (if x = c then Some 0 else map_option Suc (find_char c xs))"

record Authority =
  auth_host :: string
  auth_port :: "nat option"
  auth_ipv6 :: "byte list option"

definition kHostSpecial :: string where
  "kHostSpecial = ''!$%&'' @ [CHR 0x27] @ ''()*+,-.;=_~''"

text \<open>The host part: the host, the address bytes of a bracketed literal, and the text of the port.\<close>

definition parseHost ::
  "(string \<Rightarrow> byte list option) \<Rightarrow> string \<Rightarrow> (string \<times> byte list option \<times> string option) option" where
  "parseHost v6 val =
     (if hd val = CHR ''[''
      then
        (case find_char (CHR '']'') val of
           None \<Rightarrow> None
         | Some end \<Rightarrow>
             if end = 1 \<or> CHR ''%'' \<in> set (take (end - 1) (drop 1 val)) then None
             else
               (case v6 (take (end - 1) (drop 1 val)) of
                  None \<Rightarrow> None
                | Some addr \<Rightarrow>
                    if end + 1 \<noteq> length val
                    then (if val ! (end + 1) \<noteq> CHR '':'' then None
                          else Some (take (end + 1) val, Some addr, Some (drop (end + 2) val)))
                    else Some (take (end + 1) val, Some addr, None)))
      else
        (let separator = find_char (CHR '':'') val;
             host = (case separator of None \<Rightarrow> val | Some i \<Rightarrow> take i val);
             port = (case separator of None \<Rightarrow> None | Some i \<Rightarrow> Some (drop (i + 1) val))
         in if (case separator of None \<Rightarrow> False | Some i \<Rightarrow> CHR '':'' \<in> set (drop (i + 1) val)) then None
            else if host = [] \<or> \<not> list_all (\<lambda>c. alpha c \<or> digit c \<or> c \<in> set kHostSpecial) host then None
            else Some (host, None, port)))"

definition parseAuthority :: "(string \<Rightarrow> byte list option) \<Rightarrow> string \<Rightarrow> Authority option" where
  "parseAuthority v6 val =
     (if val = [] \<or> list_ex (\<lambda>c. c \<in> set (''@/?#'' @ [CHR 0x5C])) val then None
      else
        (case parseHost v6 val of
           None \<Rightarrow> None
         | Some (host, ip, None) \<Rightarrow> Some \<lparr>auth_host = host, auth_port = None, auth_ipv6 = ip\<rparr>
         | Some (host, ip, Some port) \<Rightarrow>
             (case unsignedDecimal port of
                None \<Rightarrow> None
              | Some n \<Rightarrow>
                  if n > kMaxPort then None
                  else Some \<lparr>auth_host = host, auth_port = Some n, auth_ipv6 = ip\<rparr>)))"

definition sameAuthority :: "Authority \<Rightarrow> Authority \<Rightarrow> string \<Rightarrow> bool" where
  "sameAuthority a b scheme =
     (if auth_ipv6 a \<noteq> auth_ipv6 b \<or> (auth_ipv6 a = None \<and> \<not> iequals (auth_host a) (auth_host b))
      then False
      else
        let defaultPort = (if iequals scheme ''https'' then Some 443
                           else if iequals scheme ''http'' then Some 80 else None)
        in (if auth_port a \<noteq> None then auth_port a else defaultPort)
           = (if auth_port b \<noteq> None then auth_port b else defaultPort))"

section \<open>Storage\<close>

datatype HeaderKind = hRequest | hResponse | hTrailers

record Offset =
  off_name :: size_t
  off_nameSize :: size_t
  off_value :: size_t
  off_valueSize :: size_t

text \<open>
  The fixed arrays \<open>entries_\<close> and \<open>views_\<close> with their counts are lists; that no count passes the
  64 slots is proved below. A view is modelled by the text it shows.
\<close>

type_synonym Field = "string \<times> string"

record Storage =
  kind :: HeaderKind
  streamId :: int
  maxFields :: size_t
  maxBytes :: size_t
  decodedFields :: size_t
  decodedBytes :: size_t
  entries :: "Offset list"
  views :: "Field list"
  bytes :: string
  contentLength :: "nat option"
  status :: nat
  regularSeen :: bool
  sealed :: bool
  hdr_error :: NetworkError

definition new_storage :: "HeaderKind \<Rightarrow> int \<Rightarrow> Http2Options \<Rightarrow> string + Storage" where
  "new_storage k sid opt =
     (if validationError opt \<noteq> [] then Inl (validationError opt)
      else if sid \<le> 0 then Inl ''invalid header block role or stream id''
      else Inr \<lparr>kind = k, streamId = sid, maxFields = maxHeaderFields opt, maxBytes = maxHeaderBytes opt,
                decodedFields = 0, decodedBytes = 0, entries = [], views = [], bytes = [],
                contentLength = None, status = 0, regularSeen = False, sealed = False,
                hdr_error = ok_error\<rparr>)"

definition field_of :: "string \<Rightarrow> Offset \<Rightarrow> Field" where
  "field_of bs off =
     (take (off_nameSize off) (drop (off_name off) bs), take (off_valueSize off) (drop (off_value off) bs))"

fun findEntry_from :: "string \<Rightarrow> Offset list \<Rightarrow> string \<Rightarrow> size_t \<Rightarrow> size_t" where
  "findEntry_from bs [] name i = kNotFound"
| "findEntry_from bs (off # offs) name i =
     (if fst (field_of bs off) = name then i else findEntry_from bs offs name (Suc i))"

definition findEntry :: "Storage \<Rightarrow> string \<Rightarrow> size_t" where
  "findEntry st name = findEntry_from (bytes st) (entries st) name 0"

definition value_of :: "Storage \<Rightarrow> string \<Rightarrow> string" where
  "value_of st name =
     (let i = findEntry st name
      in if i = kNotFound then [] else snd (field_of (bytes st) (entries st ! i)))"

section \<open>Validation\<close>

text \<open>\<open>Storage::fail\<close>: only the first error is recorded.\<close>

definition hdr_fail :: "Storage \<Rightarrow> string \<Rightarrow> bool \<Rightarrow> NetworkError \<times> Storage" where
  "hdr_fail st msg resource =
     (if is_error (hdr_error st) then (hdr_error st, st)
      else
        let e = h2_error (if resource then hResourceLimitExceeded else hHttp2StreamError) msg
                  (if resource then h2EnhanceYourCalm else h2ProtocolError) (streamId st)
        in (e, st\<lparr>hdr_error := e\<rparr>))"

definition validatePseudo ::
  "(string \<Rightarrow> byte list option) \<Rightarrow> Storage \<Rightarrow> string \<Rightarrow> string \<Rightarrow> NetworkError \<times> Storage" where
  "validatePseudo v6 st name val =
     (if regularSeen st \<or> kind st = hTrailers \<or> val = [] \<or> findEntry st name \<noteq> kNotFound
      then hdr_fail st ''pseudo header out of order, repeated or in the wrong block'' False
      else if kind st = hResponse
      then (if name \<noteq> '':status'' \<or> length val \<noteq> 3 \<or> \<not> list_all digit val \<or> hd val = CHR ''0''
              \<or> val = ''101''
            then hdr_fail st ''response needs one three-digit :status other than 101'' False
            else (ok_error, st))
      else if name = '':method'' \<and> token val False then (ok_error, st)
      else if name = '':scheme'' \<and> validScheme val then (ok_error, st)
      else if name = '':authority'' \<and> parseAuthority v6 val \<noteq> None then (ok_error, st)
      else if name = '':path'' \<and> CHR ''#'' \<notin> set val
        \<and> list_all (\<lambda>c. ord c > 0x20 \<and> ord c \<noteq> 0x7f) val then (ok_error, st)
      else hdr_fail st ''unknown or invalid pseudo header'' False)"

definition starts_with :: "string \<Rightarrow> string \<Rightarrow> bool" where
  "starts_with s p \<longleftrightarrow> take (length p) s = p"

definition validateRegular ::
  "(string \<Rightarrow> byte list option) \<Rightarrow> Storage \<Rightarrow> string \<Rightarrow> string \<Rightarrow> NetworkError \<times> Storage" where
  "validateRegular v6 st name val =
     (if name \<in> set kConnectionFields then hdr_fail st ''connection-specific field'' False
      else if kind st = hTrailers \<and> (starts_with name ''if-'' \<or> name \<in> set kForbiddenTrailers)
      then hdr_fail st ''field not allowed in trailers'' False
      else if name = ''te'' \<and> (kind st \<noteq> hRequest \<or> \<not> iequals val ''trailers'')
      then hdr_fail st ''TE other than trailers'' False
      else if name = ''content-length'' \<and> (contentLength st \<noteq> None \<or> unsignedDecimal val = None)
      then hdr_fail st ''Content-Length repeated or invalid'' False
      else if kind st = hRequest \<and> name = ''host''
        \<and> (findEntry st name \<noteq> kNotFound \<or> parseAuthority v6 val = None)
      then hdr_fail st ''Host repeated or invalid'' False
      else (ok_error, st))"

text \<open>
  \<open>Storage::append\<close>. The budget test subtracts only what the preceding comparison has shown to
  be there.
\<close>

definition store_field :: "Storage \<Rightarrow> string \<Rightarrow> string \<Rightarrow> Storage" where
  "store_field st name val =
     st\<lparr>bytes := bytes st @ name @ val,
        entries := entries st @ [\<lparr>off_name = length (bytes st), off_nameSize = length name,
                                  off_value = length (bytes st) + length name,
                                  off_valueSize = length val\<rparr>],
        decodedFields := Suc (decodedFields st),
        decodedBytes := decodedBytes st + (kHeaderFieldOverheadBytes + length name + length val),
        regularSeen := regularSeen st \<or> \<not> starts_with name '':'',
        contentLength := (if name = ''content-length'' then unsignedDecimal val else contentLength st)\<rparr>"

definition hdr_append ::
  "(string \<Rightarrow> byte list option) \<Rightarrow> Storage \<Rightarrow> string \<Rightarrow> string \<Rightarrow> NetworkError \<times> Storage" where
  "hdr_append v6 st name val =
     (if sealed st then (net_error hInvalidConfiguration ''append after seal'', st)
      else if is_error (hdr_error st) then (hdr_error st, st)
      else
        let remaining = size_sub (maxBytes st) (decodedBytes st);
            pseudo = starts_with name '':''
        in if decodedFields st \<ge> maxFields st \<or> kHeaderFieldOverheadBytes > remaining
              \<or> length name > size_sub remaining kHeaderFieldOverheadBytes
              \<or> length val > size_sub (size_sub remaining kHeaderFieldOverheadBytes) (length name)
           then hdr_fail st ''too many fields or header bytes'' True
           else if \<not> token (if pseudo then drop 1 name else name) True \<or> \<not> validValue val
           then hdr_fail st ''invalid field name or value'' False
           else
             (case (if pseudo then validatePseudo v6 st name val else validateRegular v6 st name val) of
                (e, st') \<Rightarrow> if is_error e then (e, st') else (ok_error, store_field st' name val)))"

section \<open>Sealing\<close>

definition validateComplete ::
  "(string \<Rightarrow> byte list option) \<Rightarrow> Storage \<Rightarrow> NetworkError \<times> Storage" where
  "validateComplete v6 st =
     (case kind st of
        hResponse \<Rightarrow>
          (case unsignedDecimal (value_of st '':status'') of
             None \<Rightarrow> hdr_fail st ''response without :status'' False
           | Some code \<Rightarrow>
               let st' = st\<lparr>status := code mod 2 ^ 16\<rparr>
               in if status st' div 100 = 1 \<and> contentLength st' \<noteq> None
                  then hdr_fail st' ''informational response with Content-Length'' False
                  else (ok_error, st'))
      | hTrailers \<Rightarrow> (ok_error, st)
      | hRequest \<Rightarrow>
          let mth = value_of st '':method''; scheme = value_of st '':scheme'';
              path = value_of st '':path''; authority = value_of st '':authority'';
              host = value_of st ''host'';
              connect = (mth = ''CONNECT'');
              httpScheme = (iequals scheme ''http'' \<or> iequals scheme ''https'');
              parsed = parseAuthority v6 authority
          in if mth = [] \<or> (connect \<and> (authority = [] \<or> scheme \<noteq> [] \<or> path \<noteq> []))
                \<or> (\<not> connect \<and> (scheme = [] \<or> path = []))
             then hdr_fail st ''missing pseudo header, or CONNECT with scheme or path'' False
             else if \<not> connect \<and> httpScheme
                \<and> ((authority = [] \<and> host = [])
                   \<or> (hd path \<noteq> CHR ''/'' \<and> \<not> (mth = ''OPTIONS'' \<and> path = ''*'')))
             then hdr_fail st ''no authority, or invalid request target'' False
             else if connect \<and> (case parsed of None \<Rightarrow> True | Some a \<Rightarrow> auth_port a = None)
             then hdr_fail st ''CONNECT authority without port'' False
             else if authority \<noteq> [] \<and> host \<noteq> []
                \<and> (case (parsed, parseAuthority v6 host) of
                     (Some a, Some h) \<Rightarrow> \<not> sameAuthority a h scheme
                   | _ \<Rightarrow> False)
             then hdr_fail st '':authority and Host name different targets'' False
             else (ok_error, st))"

text \<open>
  \<open>combineCookies\<close>: the inner loop appends the values of the cookie fields from the current index
  on, the outer loop rebuilds bytes and offsets with the later cookie fields left out.
\<close>

fun append_cookies :: "string \<Rightarrow> Offset list \<Rightarrow> bool \<Rightarrow> string \<Rightarrow> string" where
  "append_cookies src [] first out = out"
| "append_cookies src (off # offs) first out =
     (if fst (field_of src off) \<noteq> ''cookie'' then append_cookies src offs first out
      else append_cookies src offs False
             ((if first then out else out @ ''; '') @ snd (field_of src off)))"

fun normalize_from ::
  "string \<Rightarrow> Offset list \<Rightarrow> bool \<Rightarrow> string \<Rightarrow> Offset list \<Rightarrow> string \<times> Offset list" where
  "normalize_from src [] combined out acc = (out, acc)"
| "normalize_from src (off # offs) combined out acc =
     (let (name, val) = field_of src off
      in if name = ''cookie'' \<and> combined then normalize_from src offs combined out acc
         else
           let out1 = out @ name;
               out2 = (if name = ''cookie'' then append_cookies src (off # offs) True out1 else out1 @ val)
           in normalize_from src offs (combined \<or> name = ''cookie'') out2
                (acc @ [\<lparr>off_name = length out, off_nameSize = length name, off_value = length out1,
                         off_valueSize = length out2 - length out1\<rparr>]))"

definition combineCookies :: "Storage \<Rightarrow> Storage" where
  "combineCookies st =
     (if kind st \<noteq> hRequest \<or> findEntry st ''cookie'' = kNotFound then st
      else
        let firstCookie = findEntry st ''cookie'';
            multiple = list_ex (\<lambda>off. fst (field_of (bytes st) off) = ''cookie'')
                         (drop (firstCookie + 1) (entries st))
        in if \<not> multiple then st
           else (case normalize_from (bytes st) (entries st) False [] [] of
                   (bs, offs) \<Rightarrow> st\<lparr>bytes := bs, entries := offs\<rparr>))"

fun build_views ::
  "HeaderKind \<Rightarrow> string \<Rightarrow> string \<Rightarrow> Offset list \<Rightarrow> bool \<Rightarrow> Field list \<Rightarrow> bool \<times> Field list" where
  "build_views k authority bs [] hasHost vs = (hasHost, vs)"
| "build_views k authority bs (off # offs) hasHost vs =
     (let (name, val) = field_of bs off
      in if starts_with name '':'' then build_views k authority bs offs hasHost vs
         else if k = hRequest \<and> name = ''host''
         then build_views k authority bs offs True
                (vs @ [(name, if authority \<noteq> [] then authority else val)])
         else build_views k authority bs offs hasHost (vs @ [(name, val)]))"

definition hdr_seal :: "(string \<Rightarrow> byte list option) \<Rightarrow> Storage \<Rightarrow> NetworkError \<times> Storage" where
  "hdr_seal v6 st =
     (if is_error (hdr_error st) \<or> sealed st then (hdr_error st, st)
      else
        (case validateComplete v6 st of
           (e, st1) \<Rightarrow>
             if is_error e then (e, st1)
             else
               let st2 = combineCookies st1;
                   authority = value_of st2 '':authority'';
                   (hasHost, vs) = build_views (kind st2) authority (bytes st2) (entries st2) False (views st2);
                   vs' = (if kind st2 = hRequest \<and> \<not> hasHost \<and> authority \<noteq> []
                          then vs @ [(''host'', authority)] else vs)
               in (ok_error, st2\<lparr>views := vs', sealed := True\<rparr>)))"

section \<open>Accessors of a sealed block\<close>

text \<open>
  \<open>Http2Headers\<close> owns its storage through a \<open>unique_ptr\<close>; \<open>None\<close> is a block that was moved away.
\<close>

type_synonym Http2Headers = "Storage option"

definition headers_append ::
  "(string \<Rightarrow> byte list option) \<Rightarrow> Http2Headers \<Rightarrow> string \<Rightarrow> string \<Rightarrow> NetworkError \<times> Http2Headers" where
  "headers_append v6 h name val =
     (case h of None \<Rightarrow> (net_error hInvalidConfiguration ''header block moved away'', None)
      | Some st \<Rightarrow> (case hdr_append v6 st name val of (e, st') \<Rightarrow> (e, Some st')))"

definition headers_seal ::
  "(string \<Rightarrow> byte list option) \<Rightarrow> Http2Headers \<Rightarrow> NetworkError \<times> Http2Headers" where
  "headers_seal v6 h =
     (case h of None \<Rightarrow> (net_error hInvalidConfiguration ''header block moved away'', None)
      | Some st \<Rightarrow> (case hdr_seal v6 st of (e, st') \<Rightarrow> (e, Some st')))"

definition headers_sealed :: "Http2Headers \<Rightarrow> bool" where
  "headers_sealed h = (case h of None \<Rightarrow> False | Some st \<Rightarrow> sealed st)"

definition headers_fields :: "Http2Headers \<Rightarrow> Field list" where
  "headers_fields h = (case h of None \<Rightarrow> [] | Some st \<Rightarrow> if sealed st then views st else [])"

fun find_in :: "Field list \<Rightarrow> string \<Rightarrow> string" where
  "find_in [] name = []"
| "find_in ((n, v) # fs) name = (if iequals name n then v else find_in fs name)"

definition headers_find :: "Http2Headers \<Rightarrow> string \<Rightarrow> string" where
  "headers_find h name = find_in (headers_fields h) name"

definition request_value :: "Http2Headers \<Rightarrow> string \<Rightarrow> string" where
  "request_value h name =
     (case h of None \<Rightarrow> [] | Some st \<Rightarrow> if sealed st \<and> kind st = hRequest then value_of st name else [])"

definition rawMethod :: "Http2Headers \<Rightarrow> string" where
  "rawMethod h = request_value h '':method''"

definition scheme_of :: "Http2Headers \<Rightarrow> string" where
  "scheme_of h = request_value h '':scheme''"

definition authority_of :: "Http2Headers \<Rightarrow> string" where
  "authority_of h =
     (if request_value h '':authority'' = [] then request_value h ''host'' else request_value h '':authority'')"

definition isConnect :: "Http2Headers \<Rightarrow> bool" where
  "isConnect h \<longleftrightarrow> rawMethod h = ''CONNECT''"

definition target_of :: "Http2Headers \<Rightarrow> string" where
  "target_of h = (if isConnect h then authority_of h else request_value h '':path'')"

definition headers_status :: "Http2Headers \<Rightarrow> nat" where
  "headers_status h = (case h of None \<Rightarrow> 0 | Some st \<Rightarrow> if sealed st then status st else 0)"

definition headers_contentLength :: "Http2Headers \<Rightarrow> nat option" where
  "headers_contentLength h =
     (case h of None \<Rightarrow> None | Some st \<Rightarrow> if sealed st then contentLength st else None)"

definition decodedFieldCount :: "Http2Headers \<Rightarrow> size_t" where
  "decodedFieldCount h = (case h of None \<Rightarrow> 0 | Some st \<Rightarrow> decodedFields st)"

section \<open>The fields behind the offsets\<close>

text \<open>Data abstraction: the list of fields a storage represents.\<close>

definition fields_of :: "Storage \<Rightarrow> Field list" where
  "fields_of st = map (field_of (bytes st)) (entries st)"

definition offset_ok :: "string \<Rightarrow> Offset \<Rightarrow> bool" where
  "offset_ok bs off \<longleftrightarrow>
     off_name off + off_nameSize off \<le> length bs \<and> off_value off + off_valueSize off \<le> length bs"

lemma field_of_append [simp]: "offset_ok bs off \<Longrightarrow> field_of (bs @ x) off = field_of bs off"
  by (simp add: offset_ok_def field_of_def)

lemma offset_ok_append [simp]: "offset_ok bs off \<Longrightarrow> offset_ok (bs @ x) off"
  by (simp add: offset_ok_def)

lemma fields_extend:
  "list_all (offset_ok bs) offs \<Longrightarrow> map (field_of (bs @ x)) offs = map (field_of bs) offs"
  by (auto simp: list_all_iff)

lemma offsets_extend: "list_all (offset_ok bs) offs \<Longrightarrow> list_all (offset_ok (bs @ x)) offs"
  by (auto simp: list_all_iff)

lemma fields_of_store:
  assumes "list_all (offset_ok (bytes st)) (entries st)"
  shows "fields_of (store_field st name val) = fields_of st @ [(name, val)]"
    and "list_all (offset_ok (bytes (store_field st name val))) (entries (store_field st name val))"
  using assms fields_extend [OF assms, of "name @ val"] offsets_extend [OF assms, of "name @ val"]
  by (simp_all add: fields_of_def store_field_def field_of_def offset_ok_def)

text \<open>Lookup by name is lookup in that list.\<close>

lemma findEntry_from_spec:
  assumes "i + length offs \<le> kNotFound"
  shows "case map_of (map (field_of bs) offs) name of
      None \<Rightarrow> findEntry_from bs offs name i = kNotFound
    | Some v \<Rightarrow> (let r = findEntry_from bs offs name i
                in i \<le> r \<and> r < i + length offs \<and> snd (field_of bs (offs ! (r - i))) = v)"
  using assms
proof (induction offs arbitrary: i)
  case Nil
  then show ?case by simp
next
  case (Cons off offs)
  show ?case
  proof (cases "fst (field_of bs off) = name")
    case True
    then show ?thesis by (cases "field_of bs off") (simp add: Let_def)
  next
    case False
    with Cons.IH [of "Suc i"] Cons.prems show ?thesis
      by (cases "field_of bs off") (auto simp: Let_def nth_Cons' split: option.splits)
  qed
qed

lemma findEntry_none:
  assumes "length (entries st) \<le> kNotFound"
  shows "findEntry st name = kNotFound \<longleftrightarrow> name \<notin> fst ` set (fields_of st)"
proof -
  have "map_of (fields_of st) name = None \<longleftrightarrow> name \<notin> fst ` set (fields_of st)"
    by (rule map_of_eq_None_iff)
  then show ?thesis
    using findEntry_from_spec [of 0 "entries st" "bytes st" name] assms
    by (auto simp: findEntry_def fields_of_def [symmetric] Let_def split: option.splits)
qed

lemma value_of_map_of:
  assumes "length (entries st) \<le> kNotFound"
  shows "value_of st name = (case map_of (fields_of st) name of None \<Rightarrow> [] | Some v \<Rightarrow> v)"
  using findEntry_from_spec [of 0 "entries st" "bytes st" name] assms
  by (auto simp: value_of_def findEntry_def fields_of_def Let_def split: option.splits)

section \<open>Cookie merging on lists\<close>

fun later_cookies :: "string list \<Rightarrow> string" where
  "later_cookies [] = []"
| "later_cookies (v # vs) = ''; '' @ v @ later_cookies vs"

definition join_cookies :: "string list \<Rightarrow> string" where
  "join_cookies vs = (case vs of [] \<Rightarrow> [] | v # vs' \<Rightarrow> v @ later_cookies vs')"

definition cookie_values :: "Field list \<Rightarrow> string list" where
  "cookie_values fs = map snd (filter (\<lambda>f. fst f = ''cookie'') fs)"

fun merge_from :: "bool \<Rightarrow> Field list \<Rightarrow> Field list" where
  "merge_from combined [] = []"
| "merge_from combined ((n, v) # fs) =
     (if n = ''cookie''
      then (if combined then merge_from combined fs
            else (n, join_cookies (cookie_values ((n, v) # fs))) # merge_from True fs)
      else (n, v) # merge_from combined fs)"

definition merge_cookies :: "Field list \<Rightarrow> Field list" where
  "merge_cookies fs = merge_from False fs"

lemma append_cookies_later:
  "append_cookies src offs False out
     = out @ later_cookies (cookie_values (map (field_of src) offs))"
  by (induction offs arbitrary: out) (simp_all add: cookie_values_def)

lemma append_cookies_first:
  "append_cookies src offs True out = out @ join_cookies (cookie_values (map (field_of src) offs))"
  by (induction offs arbitrary: out)
    (simp_all add: append_cookies_later cookie_values_def join_cookies_def)

lemma normalize_from_spec:
  assumes "list_all (offset_ok out) acc" and "normalize_from src offs combined out acc = (out', acc')"
  shows "map (field_of out') acc' = map (field_of out) acc @ merge_from combined (map (field_of src) offs)
    \<and> list_all (offset_ok out') acc'"
  using assms
proof (induction offs arbitrary: combined out acc)
  case Nil
  then show ?case by simp
next
  case (Cons off offs)
  obtain n v where f: "field_of src off = (n, v)" by force
  show ?case
  proof (cases "n = ''cookie'' \<and> combined")
    case True
    with Cons f show ?thesis by simp
  next
    case False
    define joined where "joined = (if n = ''cookie''
      then join_cookies (cookie_values (map (field_of src) (off # offs))) else v)"
    have joined: "(if n = ''cookie'' then append_cookies src (off # offs) True (out @ n) else (out @ n) @ v)
        = (out @ n) @ joined"
      unfolding joined_def append_cookies_first by simp
    define o1 where "o1 = \<lparr>off_name = length out, off_nameSize = length n, off_value = length (out @ n),
      off_valueSize = length joined\<rparr>"
    have step: "normalize_from src offs (combined \<or> n = ''cookie'') ((out @ n) @ joined) (acc @ [o1]) = (out', acc')"
      using Cons.prems(2) False unfolding normalize_from.simps f Let_def prod.case joined
      by (simp add: o1_def)
    have fo: "field_of ((out @ n) @ joined) o1 = (n, joined)" "offset_ok ((out @ n) @ joined) o1"
      by (simp_all add: o1_def field_of_def offset_ok_def)
    have ok: "list_all (offset_ok ((out @ n) @ joined)) (acc @ [o1])"
      using Cons.prems(1) fo(2) by (auto simp: list_all_iff)
    have "map (field_of out') acc' = map (field_of ((out @ n) @ joined)) (acc @ [o1])
        @ merge_from (combined \<or> n = ''cookie'') (map (field_of src) offs) \<and> list_all (offset_ok out') acc'"
      by (rule Cons.IH [OF ok step])
    moreover have "map (field_of ((out @ n) @ joined)) (acc @ [o1]) = map (field_of out) acc @ [(n, joined)]"
      using fields_extend [OF Cons.prems(1), of "n @ joined"] fo(1) by simp
    moreover have "merge_from combined (map (field_of src) (off # offs))
        = (n, joined) # merge_from (combined \<or> n = ''cookie'') (map (field_of src) offs)"
      using False f by (auto simp: joined_def)
    ultimately show ?thesis by simp
  qed
qed

lemma merge_from_True: "merge_from True fs = filter (\<lambda>f. fst f \<noteq> ''cookie'') fs"
  by (induction "True" fs rule: merge_from.induct) auto

lemma merge_none: "''cookie'' \<notin> fst ` set fs \<Longrightarrow> merge_from c fs = fs"
  by (induction c fs rule: merge_from.induct) auto

lemma cookie_values_none: "''cookie'' \<notin> fst ` set fs \<Longrightarrow> cookie_values fs = []"
  by (induction fs) (auto simp: cookie_values_def)

lemma cookie_values_Cons [simp]:
  "cookie_values ((n, v) # fs) = (if n = ''cookie'' then v # cookie_values fs else cookie_values fs)"
  by (simp add: cookie_values_def)

lemma merge_single:
  "''cookie'' \<notin> fst ` set pre \<Longrightarrow> ''cookie'' \<notin> fst ` set post \<Longrightarrow>
   merge_cookies (pre @ (''cookie'', v) # post) = pre @ (''cookie'', v) # post"
  unfolding merge_cookies_def
  by (induction pre) (auto simp: merge_none cookie_values_none join_cookies_def)

lemma map_of_merge:
  "n \<noteq> ''cookie'' \<Longrightarrow> map_of (merge_from c fs) n = map_of fs n"
  by (induction c fs rule: merge_from.induct) auto

lemma length_merge: "length (merge_from c fs) \<le> length fs"
  by (induction c fs rule: merge_from.induct) auto

lemma findEntry_split:
  assumes "i + length offs \<le> kNotFound" and "findEntry_from bs offs name i = r" and "r \<noteq> kNotFound"
  shows "i \<le> r \<and> r - i < length offs \<and> fst (field_of bs (offs ! (r - i))) = name
    \<and> name \<notin> fst ` set (map (field_of bs) (take (r - i) offs))"
  using assms
proof (induction offs arbitrary: i)
  case Nil
  then show ?case by simp
next
  case (Cons off offs)
  show ?case
  proof (cases "fst (field_of bs off) = name")
    case True
    with Cons.prems show ?thesis by simp
  next
    case False
    then have "Suc i \<le> r \<and> r - Suc i < length offs \<and> fst (field_of bs (offs ! (r - Suc i))) = name
        \<and> name \<notin> fst ` set (map (field_of bs) (take (r - Suc i) offs))"
      using Cons.IH [of "Suc i"] Cons.prems by simp
    with False show ?thesis by (auto simp: nth_Cons' take_Cons' Suc_diff_le)
  qed
qed

lemma combineCookies_spec:
  assumes ok: "list_all (offset_ok (bytes st)) (entries st)" and len: "length (entries st) \<le> kNotFound"
  shows "fields_of (combineCookies st) = (if kind st = hRequest then merge_cookies (fields_of st) else fields_of st)"
    and "list_all (offset_ok (bytes (combineCookies st))) (entries (combineCookies st))"
    and "combineCookies st = st\<lparr>bytes := bytes (combineCookies st), entries := entries (combineCookies st)\<rparr>"
proof -
  obtain bs offs where n: "normalize_from (bytes st) (entries st) False [] [] = (bs, offs)" by force
  have spec: "map (field_of bs) offs = merge_cookies (fields_of st) \<and> list_all (offset_ok bs) offs"
    using normalize_from_spec [OF _ n] by (simp add: merge_cookies_def fields_of_def)
  show "combineCookies st = st\<lparr>bytes := bytes (combineCookies st), entries := entries (combineCookies st)\<rparr>"
    by (simp add: combineCookies_def Let_def split: prod.splits)
  show "list_all (offset_ok (bytes (combineCookies st))) (entries (combineCookies st))"
    using ok n spec by (simp add: combineCookies_def Let_def)
  let ?r = "findEntry st ''cookie''"
  show "fields_of (combineCookies st) = (if kind st = hRequest then merge_cookies (fields_of st) else fields_of st)"
  proof (cases "kind st = hRequest \<and> ?r \<noteq> kNotFound")
    case False
    moreover have "merge_cookies (fields_of st) = fields_of st" if "?r = kNotFound"
      using that findEntry_none [OF len] merge_none by (simp add: merge_cookies_def)
    ultimately show ?thesis by (auto simp: combineCookies_def)
  next
    case True
    let ?multi = "list_ex (\<lambda>off. fst (field_of (bytes st) off) = ''cookie'') (drop (?r + 1) (entries st))"
    show ?thesis
    proof (cases ?multi)
      case multi: True
      with True n spec show ?thesis by (simp add: combineCookies_def Let_def fields_of_def)
    next
      case single: False
      let ?f = "map (field_of (bytes st))"
      from findEntry_split [of 0 "entries st" "bytes st" "''cookie''" ?r] len True
      have r: "?r < length (entries st)" "fst (field_of (bytes st) (entries st ! ?r)) = ''cookie''"
        "''cookie'' \<notin> fst ` set (?f (take ?r (entries st)))"
        by (auto simp: findEntry_def)
      have fs: "fields_of st = ?f (take ?r (entries st))
          @ (''cookie'', snd (field_of (bytes st) (entries st ! ?r))) # ?f (drop (?r + 1) (entries st))"
        using arg_cong [OF id_take_nth_drop [OF r(1)], of ?f] r(2)
        by (cases "field_of (bytes st) (entries st ! ?r)")
          (simp only: fields_of_def map_append list.map fst_conv snd_conv Suc_eq_plus1)
      have post: "''cookie'' \<notin> fst ` set (?f (drop (?r + 1) (entries st)))"
        using single by (auto simp: list_ex_iff)
      have "merge_cookies (fields_of st) = fields_of st"
        unfolding fs by (rule merge_single [OF r(3) post])
      with single True show ?thesis by (simp add: combineCookies_def Let_def)
    qed
  qed
qed

section \<open>What an accepted list of fields satisfies\<close>

definition pseudo :: "Field \<Rightarrow> bool" where
  "pseudo f \<longleftrightarrow> starts_with (fst f) '':''"

definition pseudo_ok :: "(string \<Rightarrow> byte list option) \<Rightarrow> HeaderKind \<Rightarrow> string \<Rightarrow> string \<Rightarrow> bool" where
  "pseudo_ok v6 k n v \<longleftrightarrow>
     k \<noteq> hTrailers \<and> v \<noteq> [] \<and>
     (if k = hResponse
      then n = '':status'' \<and> length v = 3 \<and> list_all digit v \<and> hd v \<noteq> CHR ''0'' \<and> v \<noteq> ''101''
      else n = '':method'' \<and> token v False \<or> n = '':scheme'' \<and> validScheme v
        \<or> n = '':authority'' \<and> parseAuthority v6 v \<noteq> None
        \<or> n = '':path'' \<and> CHR ''#'' \<notin> set v \<and> list_all (\<lambda>c. ord c > 0x20 \<and> ord c \<noteq> 0x7f) v)"

definition regular_ok :: "(string \<Rightarrow> byte list option) \<Rightarrow> HeaderKind \<Rightarrow> string \<Rightarrow> string \<Rightarrow> bool" where
  "regular_ok v6 k n v \<longleftrightarrow>
     n \<notin> set kConnectionFields
     \<and> \<not> (k = hTrailers \<and> (starts_with n ''if-'' \<or> n \<in> set kForbiddenTrailers))
     \<and> \<not> (n = ''te'' \<and> (k \<noteq> hRequest \<or> \<not> iequals v ''trailers''))
     \<and> \<not> (n = ''content-length'' \<and> unsignedDecimal v = None)
     \<and> \<not> (k = hRequest \<and> n = ''host'' \<and> parseAuthority v6 v = None)"

definition field_ok :: "(string \<Rightarrow> byte list option) \<Rightarrow> HeaderKind \<Rightarrow> Field \<Rightarrow> bool" where
  "field_ok v6 k f \<longleftrightarrow>
     token (if pseudo f then drop 1 (fst f) else fst f) True \<and> validValue (snd f)
     \<and> (if pseudo f then pseudo_ok v6 k (fst f) (snd f) else regular_ok v6 k (fst f) (snd f))"

definition occurrences :: "string \<Rightarrow> Field list \<Rightarrow> nat" where
  "occurrences n fs = length (filter (\<lambda>f. fst f = n) fs)"

definition header_list_ok :: "(string \<Rightarrow> byte list option) \<Rightarrow> HeaderKind \<Rightarrow> Field list \<Rightarrow> bool" where
  "header_list_ok v6 k fs \<longleftrightarrow>
     list_all (field_ok v6 k) fs
     \<and> sorted_wrt (\<lambda>a b. pseudo b \<longrightarrow> pseudo a) fs
     \<and> distinct (map fst (filter pseudo fs))
     \<and> occurrences ''content-length'' fs \<le> 1
     \<and> (k = hRequest \<longrightarrow> occurrences ''host'' fs \<le> 1)"

definition header_list_size :: "Field list \<Rightarrow> nat" where
  "header_list_size fs = (\<Sum>(n, v) \<leftarrow> fs. 32 + length n + length v)"

text \<open>The state of a block that has accepted exactly the fields \<open>fs\<close>.\<close>

definition storage_inv ::
  "(string \<Rightarrow> byte list option) \<Rightarrow> Storage \<Rightarrow> Field list \<Rightarrow> bool" where
  "storage_inv v6 st fs \<longleftrightarrow>
     list_all (offset_ok (bytes st)) (entries st) \<and> fields_of st = fs
     \<and> decodedFields st = length fs \<and> length fs \<le> maxFields st \<and> maxFields st \<le> kMaxHeaderFields
     \<and> decodedBytes st = header_list_size fs \<and> header_list_size fs \<le> maxBytes st
     \<and> maxBytes st < size_modulus
     \<and> \<not> sealed st \<and> views st = [] \<and> hdr_error st = ok_error
     \<and> header_list_ok v6 (kind st) fs
     \<and> (regularSeen st \<longleftrightarrow> \<not> list_all pseudo fs)
     \<and> contentLength st = Option.bind (map_of fs ''content-length'') unsignedDecimal"

lemma storage_invD:
  assumes "storage_inv v6 st fs"
  shows "list_all (offset_ok (bytes st)) (entries st)" "fields_of st = fs"
    "decodedFields st = length fs" "length fs \<le> maxFields st" "maxFields st \<le> kMaxHeaderFields"
    "decodedBytes st = header_list_size fs" "header_list_size fs \<le> maxBytes st" "maxBytes st < size_modulus"
    "\<not> sealed st" "views st = []" "hdr_error st = ok_error" "header_list_ok v6 (kind st) fs"
    "regularSeen st \<longleftrightarrow> \<not> list_all pseudo fs"
    "contentLength st = Option.bind (map_of fs ''content-length'') unsignedDecimal"
    "length (entries st) \<le> kNotFound" "length (entries st) = length fs"
proof -
  show "length (entries st) \<le> kNotFound" "length (entries st) = length fs"
    using assms by (auto simp: storage_inv_def kNotFound_def fields_of_def)
qed (use assms in \<open>simp_all add: storage_inv_def\<close>)

lemma hdr_fail_error: "is_error (fst (hdr_fail st m r))"
  by (simp add: hdr_fail_def Let_def)

lemma hdr_fail_sticky:
  "hdr_fail st m r = (e, st') \<Longrightarrow> is_error e \<and> st' = st\<lparr>hdr_error := e\<rparr>"
  by (auto simp: hdr_fail_def Let_def split: if_splits)

lemma occurrences_map_of: "map_of fs n = None \<longleftrightarrow> occurrences n fs = 0"
  by (induction fs) (auto simp: occurrences_def)

lemma validatePseudo_success:
  assumes "validatePseudo v6 st n v = (e, st')" "\<not> is_error e"
  shows "st' = st" "pseudo_ok v6 (kind st) n v" "\<not> regularSeen st" "findEntry st n = kNotFound"
  using assms hdr_fail_error [of st]
  by (auto simp: validatePseudo_def pseudo_ok_def split: if_splits dest: hdr_fail_sticky)

lemma validateRegular_success:
  assumes "validateRegular v6 st n v = (e, st')" "\<not> is_error e"
  shows "st' = st" "regular_ok v6 (kind st) n v" "n = ''content-length'' \<Longrightarrow> contentLength st = None"
    "kind st = hRequest \<Longrightarrow> n = ''host'' \<Longrightarrow> findEntry st n = kNotFound"
  using assms hdr_fail_error [of st]
  by (auto simp: validateRegular_def regular_ok_def split: if_splits dest: hdr_fail_sticky)

lemma validate_error:
  assumes "is_error e"
  shows "validatePseudo v6 st n v = (e, st') \<Longrightarrow> st' = st\<lparr>hdr_error := e\<rparr>"
    and "validateRegular v6 st n v = (e, st') \<Longrightarrow> st' = st\<lparr>hdr_error := e\<rparr>"
proof -
  have ok: "(ok_error, st) \<noteq> (e, st')" using assms by auto
  show "validatePseudo v6 st n v = (e, st') \<Longrightarrow> st' = st\<lparr>hdr_error := e\<rparr>"
    unfolding validatePseudo_def using ok hdr_fail_sticky [of st _ _ e st'] by (simp only: split: if_split_asm) blast+
  show "validateRegular v6 st n v = (e, st') \<Longrightarrow> st' = st\<lparr>hdr_error := e\<rparr>"
    unfolding validateRegular_def using ok hdr_fail_sticky [of st _ _ e st'] by (simp only: split: if_split_asm) blast+
qed

text \<open>An append that fails records its error; one that succeeds stores exactly the field.\<close>

lemma hdr_append_error:
  assumes "hdr_append v6 st n v = (e, st')" "is_error e" "\<not> sealed st"
  shows "st' = st\<lparr>hdr_error := e\<rparr>"
  using assms
  by (auto simp: hdr_append_def Let_def split: if_splits prod.splits
      dest: hdr_fail_sticky validate_error)

lemma hdr_append_success:
  assumes "hdr_append v6 st n v = (e, st')" "\<not> is_error e"
  shows "e = ok_error" "st' = store_field st n v" "\<not> sealed st" "\<not> is_error (hdr_error st)"
    "decodedFields st < maxFields st"
    "kHeaderFieldOverheadBytes \<le> size_sub (maxBytes st) (decodedBytes st)"
    "length n \<le> size_sub (size_sub (maxBytes st) (decodedBytes st)) kHeaderFieldOverheadBytes"
    "length v \<le> size_sub (size_sub (size_sub (maxBytes st) (decodedBytes st)) kHeaderFieldOverheadBytes) (length n)"
    "token (if pseudo (n, v) then drop 1 n else n) True" "validValue v"
    "if pseudo (n, v) then pseudo_ok v6 (kind st) n v \<and> \<not> regularSeen st \<and> findEntry st n = kNotFound
     else regular_ok v6 (kind st) n v \<and> (n = ''content-length'' \<longrightarrow> contentLength st = None)
       \<and> (kind st = hRequest \<longrightarrow> n = ''host'' \<longrightarrow> findEntry st n = kNotFound)"
proof -
  from assms show "\<not> sealed st" "\<not> is_error (hdr_error st)"
    by (auto simp: hdr_append_def split: if_splits)
  with assms hdr_fail_error [of st]
  show "decodedFields st < maxFields st"
    "kHeaderFieldOverheadBytes \<le> size_sub (maxBytes st) (decodedBytes st)"
    "length n \<le> size_sub (size_sub (maxBytes st) (decodedBytes st)) kHeaderFieldOverheadBytes"
    "length v \<le> size_sub (size_sub (size_sub (maxBytes st) (decodedBytes st)) kHeaderFieldOverheadBytes) (length n)"
    "token (if pseudo (n, v) then drop 1 n else n) True" "validValue v"
    by (auto simp: hdr_append_def Let_def pseudo_def split: if_splits dest: hdr_fail_sticky)
  obtain e1 st1 where val: "(if pseudo (n, v) then validatePseudo v6 st n v else validateRegular v6 st n v) = (e1, st1)"
    by force
  have "\<not> is_error e1" and res: "e = ok_error" "st' = store_field st1 n v"
    using assms val hdr_fail_error [of st]
    by (auto simp: hdr_append_def Let_def pseudo_def split: if_splits dest: hdr_fail_sticky)
  then have "st1 = st"
    using val by (auto split: if_splits dest: validatePseudo_success(1) validateRegular_success(1))
  with res show "e = ok_error" "st' = store_field st n v" by simp_all
  show "if pseudo (n, v) then pseudo_ok v6 (kind st) n v \<and> \<not> regularSeen st \<and> findEntry st n = kNotFound
     else regular_ok v6 (kind st) n v \<and> (n = ''content-length'' \<longrightarrow> contentLength st = None)
       \<and> (kind st = hRequest \<longrightarrow> n = ''host'' \<longrightarrow> findEntry st n = kNotFound)"
    using val \<open>\<not> is_error e1\<close> validatePseudo_success [of v6 st n v e1 st1] validateRegular_success [of v6 st n v e1 st1]
    by (auto split: if_splits)
qed

lemma occurrences_append [simp]:
  "occurrences n (fs @ [(m, v)]) = occurrences n fs + (if m = n then 1 else 0)"
  by (simp add: occurrences_def)

lemma header_list_size_append [simp]:
  "header_list_size (fs @ [(n, v)]) = header_list_size fs + (32 + length n + length v)"
  by (simp add: header_list_size_def)

lemma header_list_ok_snoc:
  assumes "header_list_ok v6 k fs" "field_ok v6 k (n, v)"
    and "pseudo (n, v) \<Longrightarrow> list_all pseudo fs \<and> n \<notin> fst ` set fs"
    and "n = ''content-length'' \<Longrightarrow> occurrences n fs = 0"
    and "k = hRequest \<Longrightarrow> n = ''host'' \<Longrightarrow> occurrences n fs = 0"
  shows "header_list_ok v6 k (fs @ [(n, v)])"
proof -
  have "sorted_wrt (\<lambda>a b. pseudo b \<longrightarrow> pseudo a) (fs @ [(n, v)])"
    using assms(1,3) by (auto simp: header_list_ok_def sorted_wrt_append list_all_iff)
  moreover have "distinct (map fst (filter pseudo (fs @ [(n, v)])))"
    using assms(1,3) by (auto simp: header_list_ok_def)
  ultimately show ?thesis
    using assms by (simp add: header_list_ok_def)
qed

lemma store_field_sel [simp]:
  "kind (store_field st n v) = kind st" "streamId (store_field st n v) = streamId st"
  "maxFields (store_field st n v) = maxFields st" "maxBytes (store_field st n v) = maxBytes st"
  "sealed (store_field st n v) = sealed st" "views (store_field st n v) = views st"
  "hdr_error (store_field st n v) = hdr_error st"
  "decodedFields (store_field st n v) = Suc (decodedFields st)"
  by (simp_all add: store_field_def)

lemma hdr_append_inv:
  assumes inv: "storage_inv v6 st fs" and app: "hdr_append v6 st n v = (e, st')" "\<not> is_error e"
  shows "storage_inv v6 st' (fs @ [(n, v)])" "kind st' = kind st" "maxFields st' = maxFields st"
    "maxBytes st' = maxBytes st"
proof -
  note i = storage_invD [OF inv] and s = hdr_append_success [OF app]
  show "kind st' = kind st" "maxFields st' = maxFields st" "maxBytes st' = maxBytes st"
    using s(2) by simp_all
  have room: "header_list_size fs + (32 + length n + length v) \<le> maxBytes st"
    using s(6-8) i(6,7) by (simp add: size_arith kHeaderFieldOverheadBytes_def)
  have cl0: "occurrences n fs = 0" if "n = ''content-length''"
  proof -
    have "\<not> pseudo (n, v)" using that by (simp add: pseudo_def starts_with_def)
    then have "contentLength st = None" using s(11) that by simp
    then have bnd: "Option.bind (map_of fs n) unsignedDecimal = None" using i(14) that by simp
    show ?thesis
    proof (cases "map_of fs n")
      case None
      then show ?thesis by (simp add: occurrences_map_of)
    next
      case (Some w)
      then have "(n, w) \<in> set fs" by (rule map_of_SomeD)
      then have "field_ok v6 (kind st) (n, w)" using i(12) by (auto simp: header_list_ok_def list_all_iff)
      then have "unsignedDecimal w \<noteq> None"
        using that \<open>\<not> pseudo (n, v)\<close> by (simp add: field_ok_def regular_ok_def pseudo_def)
      with bnd Some show ?thesis by simp
    qed
  qed
  have host0: "occurrences n fs = 0" if "kind st = hRequest" "n = ''host''"
  proof -
    have "\<not> pseudo (n, v)" using that by (simp add: pseudo_def starts_with_def)
    then have "findEntry st n = kNotFound" using s(11) that by simp
    then show ?thesis
      using findEntry_none [OF i(15)] i(2) by (simp add: occurrences_map_of [symmetric] map_of_eq_None_iff)
  qed
  have ok: "header_list_ok v6 (kind st) (fs @ [(n, v)])"
  proof (rule header_list_ok_snoc [OF i(12) _ _ cl0 host0])
    show "field_ok v6 (kind st) (n, v)" using s(9-11) by (simp add: field_ok_def split: if_splits)
    show "list_all pseudo fs \<and> n \<notin> fst ` set fs" if "pseudo (n, v)"
      using that s(11) i(2,13) findEntry_none [OF i(15)] by simp
  qed
  have cl: "contentLength st' = Option.bind (map_of (fs @ [(n, v)]) ''content-length'') unsignedDecimal"
  proof (cases "n = ''content-length''")
    case True
    then have "map_of fs n = None" using cl0 by (simp add: occurrences_map_of)
    then have "map_of (fs @ [(n, v)]) n = Some v" by (simp add: map_add_def)
    with True show ?thesis unfolding s(2) store_field_def by simp
  next
    case False
    then have "map_of (fs @ [(n, v)]) ''content-length'' = map_of fs ''content-length''"
      by (auto simp: map_add_def split: option.splits)
    with False i(14) show ?thesis unfolding s(2) store_field_def by simp
  qed
  have reg: "regularSeen st' \<longleftrightarrow> \<not> list_all pseudo (fs @ [(n, v)])"
    using i(13) unfolding s(2) store_field_def by (auto simp: pseudo_def)
  have bytes: "decodedBytes st' = header_list_size (fs @ [(n, v)])"
    using i(6) unfolding s(2) store_field_def by (simp add: kHeaderFieldOverheadBytes_def)
  show "storage_inv v6 st' (fs @ [(n, v)])"
    unfolding storage_inv_def
    using fields_of_store [OF i(1), of n v] i s(2,5) ok cl reg bytes room by simp
qed

text \<open>Appending the fields of a block one after the other, up to the first error.\<close>

fun hdr_append_all ::
  "(string \<Rightarrow> byte list option) \<Rightarrow> Storage \<Rightarrow> Field list \<Rightarrow> NetworkError \<times> Storage" where
  "hdr_append_all v6 st [] = (ok_error, st)"
| "hdr_append_all v6 st ((n, v) # fs) =
     (case hdr_append v6 st n v of
        (e, st') \<Rightarrow> if is_error e then (e, st') else hdr_append_all v6 st' fs)"

lemma hdr_append_all_inv:
  assumes "storage_inv v6 st gs" and "hdr_append_all v6 st fs = (e, st')" and "\<not> is_error e"
  shows "storage_inv v6 st' (gs @ fs) \<and> kind st' = kind st \<and> maxFields st' = maxFields st
    \<and> maxBytes st' = maxBytes st"
  using assms
proof (induction fs arbitrary: st gs)
  case Nil
  then show ?case by simp
next
  case (Cons f fs)
  obtain n v where f: "f = (n, v)" by force
  obtain e1 st1 where a: "hdr_append v6 st n v = (e1, st1)" by force
  with Cons.prems f have e1: "\<not> is_error e1" and rest: "hdr_append_all v6 st1 fs = (e, st')"
    by (auto split: if_splits)
  note step = hdr_append_inv [OF Cons.prems(1) a e1]
  from Cons.IH [OF step(1) rest Cons.prems(3)] step f show ?case by simp
qed

lemma new_storage_inv:
  assumes "new_storage k sid opt = Inr st" and "maxHeaderBytes opt < size_modulus"
  shows "storage_inv v6 st []" "kind st = k" "maxFields st = maxHeaderFields opt" "maxBytes st = maxHeaderBytes opt"
proof -
  have "maxHeaderFields opt \<le> kMaxHeaderFields"
    using assms options_validD(2) [of opt]
    by (auto simp: new_storage_def options_valid_def kMaxHeaderFields_def split: if_splits)
  with assms show "storage_inv v6 st []" "kind st = k" "maxFields st = maxHeaderFields opt"
    "maxBytes st = maxHeaderBytes opt"
    by (auto simp: new_storage_def storage_inv_def fields_of_def header_list_size_def header_list_ok_def
        occurrences_def split: if_splits)
qed

section \<open>What sealing exposes\<close>

definition authority_value :: "Field list \<Rightarrow> string" where
  "authority_value fs = (case map_of fs '':authority'' of None \<Rightarrow> [] | Some v \<Rightarrow> v)"

definition put_host :: "string \<Rightarrow> Field \<Rightarrow> Field" where
  "put_host a f = (if fst f = ''host'' \<and> a \<noteq> [] then (fst f, a) else f)"

lemma put_host_Nil [simp]: "put_host [] = id"
  by (simp add: put_host_def fun_eq_iff)

text \<open>The fields the application sees, as a function of the fields received.\<close>

definition visible_fields :: "HeaderKind \<Rightarrow> Field list \<Rightarrow> Field list" where
  "visible_fields k fs =
     (if k = hRequest
      then let a = authority_value fs;
               regular = map (put_host a) (filter (\<lambda>f. \<not> pseudo f) (merge_cookies fs))
           in if a \<noteq> [] \<and> ''host'' \<notin> fst ` set fs then regular @ [(''host'', a)] else regular
      else filter (\<lambda>f. \<not> pseudo f) fs)"

lemma build_views_spec:
  "build_views k a bs offs h vs =
     (h \<or> k = hRequest \<and> ''host'' \<in> fst ` set (map (field_of bs) offs),
      vs @ map (if k = hRequest then put_host a else id) (filter (\<lambda>f. \<not> pseudo f) (map (field_of bs) offs)))"
proof (induction offs arbitrary: h vs)
  case Nil
  then show ?case by simp
next
  case (Cons off offs)
  obtain n v where f: "field_of bs off = (n, v)" by force
  have hp: "n = ''host'' \<Longrightarrow> \<not> starts_with n '':''" by (simp add: starts_with_def)
  show ?case
    using hp Cons.IH by (cases "a = []") (auto simp: f pseudo_def put_host_def)
qed

lemma host_in_merge: "''host'' \<in> fst ` set (merge_from c fs) \<longleftrightarrow> ''host'' \<in> fst ` set fs"
proof -
  have "map_of (merge_from c fs) ''host'' = map_of fs ''host''" by (rule map_of_merge) simp
  moreover have "n \<in> fst ` set xs \<longleftrightarrow> map_of xs n \<noteq> None" for n and xs :: "Field list"
    by (simp add: map_of_eq_None_iff)
  ultimately show ?thesis by simp
qed

lemma validateComplete_success:
  assumes "validateComplete v6 st = (e, st')" "\<not> is_error e"
  shows "st' = st\<lparr>status := status st'\<rparr>"
  using assms
  by (auto simp: validateComplete_def Let_def split: HeaderKind.splits option.splits if_splits
      dest: hdr_fail_sticky)

lemma value_of_cong:
  "bytes a = bytes b \<Longrightarrow> entries a = entries b \<Longrightarrow> value_of a n = value_of b n"
  by (simp add: value_of_def findEntry_def Let_def)

lemma hdr_seal_success:
  assumes inv: "storage_inv v6 st fs" and seal: "hdr_seal v6 st = (e, st')" "\<not> is_error e"
  shows "sealed st'" "views st' = visible_fields (kind st) fs" "kind st' = kind st"
    "contentLength st' = contentLength st"
    "\<exists>st1. validateComplete v6 st = (ok_error, st1) \<and> status st' = status st1"
    "value_of st' n = (case map_of (if kind st = hRequest then merge_cookies fs else fs) n of
        None \<Rightarrow> [] | Some v \<Rightarrow> v)"
proof -
  note i = storage_invD [OF inv]
  obtain e1 st1 where vc: "validateComplete v6 st = (e1, st1)" by force
  have e1: "\<not> is_error e1" using seal vc i(9,11) by (auto simp: hdr_seal_def split: if_splits)
  then have st1: "st1 = st\<lparr>status := status st1\<rparr>" using validateComplete_success vc by blast
  define st2 where "st2 = combineCookies st1"
  have same: "bytes st1 = bytes st" "entries st1 = entries st" "kind st1 = kind st" "views st1 = []"
    "contentLength st1 = contentLength st" "fields_of st1 = fs"
    by (subst st1, simp add: fields_of_def i(10) i(2) [unfolded fields_of_def])+
  have ok1: "list_all (offset_ok (bytes st1)) (entries st1)" "length (entries st1) \<le> kNotFound"
    using i(1,15) same by simp_all
  note cc = combineCookies_spec [OF ok1, folded st2_def]
  have st2: "kind st2 = kind st" "views st2 = []" "contentLength st2 = contentLength st" "status st2 = status st1"
    by (subst cc(3), simp add: same)+
  define gs where "gs = (if kind st = hRequest then merge_cookies fs else fs)"
  have fs2: "map (field_of (bytes st2)) (entries st2) = gs"
    using cc(1) same by (simp add: fields_of_def gs_def)
  have "length (entries st2) \<le> length fs"
    using arg_cong [OF fs2, of length] length_merge [of False fs] by (simp add: gs_def merge_cookies_def split: if_splits)
  then have len2: "length (entries st2) \<le> kNotFound" using i(15,16) by simp
  have val2: "value_of st2 m = (case map_of gs m of None \<Rightarrow> [] | Some v \<Rightarrow> v)" for m
    using value_of_map_of [OF len2] fs2 by (simp add: fields_of_def)
  have auth: "value_of st2 '':authority'' = authority_value fs" if "kind st = hRequest"
    using that by (simp add: val2 gs_def authority_value_def merge_cookies_def map_of_merge)
  obtain h vs where bv: "build_views (kind st2) (value_of st2 '':authority'') (bytes st2) (entries st2) False (views st2) = (h, vs)"
    by force
  have st': "e = ok_error" "st' = st2\<lparr>views := (if kind st2 = hRequest \<and> \<not> h \<and> value_of st2 '':authority'' \<noteq> []
      then vs @ [(''host'', value_of st2 '':authority'')] else vs), sealed := True\<rparr>"
    using seal vc e1 i(9,11) bv by (auto simp: hdr_seal_def st2_def [symmetric] Let_def split: if_splits)
  show "sealed st'" "kind st' = kind st" "contentLength st' = contentLength st"
    using st' st2 by simp_all
  show "\<exists>st1. validateComplete v6 st = (ok_error, st1) \<and> status st' = status st1"
  proof -
    have "e1 = ok_error" using vc e1
      by (auto simp: validateComplete_def Let_def split: HeaderKind.splits option.splits if_splits dest: hdr_fail_sticky)
    then show ?thesis using vc st' st2 by auto
  qed
  have "value_of st' n = value_of st2 n" by (rule value_of_cong) (simp_all add: st'(2))
  then show "value_of st' n = (case map_of (if kind st = hRequest then merge_cookies fs else fs) n of
        None \<Rightarrow> [] | Some v \<Rightarrow> v)"
    using val2 gs_def by simp
  have hv: "h = (kind st = hRequest \<and> ''host'' \<in> fst ` set gs)"
    "vs = map (if kind st = hRequest then put_host (value_of st2 '':authority'') else id) (filter (\<lambda>f. \<not> pseudo f) gs)"
    using bv unfolding build_views_spec fs2 st2 by simp_all
  show "views st' = visible_fields (kind st) fs"
  proof (cases "kind st = hRequest")
    case True
    then show ?thesis
      using hv st' st2 auth host_in_merge [of False fs]
      by (simp add: visible_fields_def gs_def merge_cookies_def Let_def)
  next
    case False
    then show ?thesis using hv st' st2 by (simp add: visible_fields_def gs_def)
  qed
qed

text \<open>A sealed request with \<open>:authority\<close> has that pseudo header among its fields.\<close>

lemma visible_fields_length:
  assumes "length fs \<le> 64"
  shows "length (visible_fields k fs) \<le> 64"
proof -
  have merged: "length (merge_cookies fs) \<le> length fs"
    by (simp add: merge_cookies_def length_merge)
  have le: "length (filter (\<lambda>f. \<not> pseudo f) (merge_cookies fs)) \<le> 64"
    using assms merged length_filter_le [of "\<lambda>f. \<not> pseudo f" "merge_cookies fs"] by linarith
  have "length (filter (\<lambda>f. \<not> pseudo f) (merge_cookies fs)) < 64" if "authority_value fs \<noteq> []"
  proof -
    have "map_of (merge_cookies fs) '':authority'' \<noteq> None"
      using that by (auto simp: authority_value_def merge_cookies_def map_of_merge split: option.splits)
    then obtain v where "('':authority'', v) \<in> set (merge_cookies fs)" by (auto dest: map_of_SomeD)
    moreover have "pseudo ('':authority'', v)" by (simp add: pseudo_def starts_with_def)
    ultimately have "length (filter (\<lambda>f. \<not> pseudo f) (merge_cookies fs)) < length (merge_cookies fs)"
      by (intro length_filter_less) auto
    then show ?thesis using assms merged by linarith
  qed
  moreover have "length (filter (\<lambda>f. \<not> pseudo f) fs) \<le> 64"
    using length_filter_le [of "\<lambda>f. \<not> pseudo f" fs] assms by linarith
  ultimately show ?thesis
    using le by (auto simp: visible_fields_def Let_def)
qed

lemma merge_subset: "f \<in> set (merge_from c fs) \<Longrightarrow> fst f \<in> fst ` set fs"
  by (induction c fs rule: merge_from.induct) (auto split: if_splits)

lemma occurrences_filter_cookie: "n \<noteq> ''cookie'' \<Longrightarrow> occurrences n (merge_from c fs) = occurrences n fs"
  by (induction c fs rule: merge_from.induct) (auto simp: occurrences_def)

lemma occurrences_cookie: "occurrences ''cookie'' (merge_from c fs) \<le> (if c then 0 else 1)"
  by (induction c fs rule: merge_from.induct) (auto simp: occurrences_def split: if_splits)

lemma occurrences_regular:
  "\<not> starts_with n '':'' \<Longrightarrow> occurrences n (filter (\<lambda>f. \<not> pseudo f) fs) = occurrences n fs"
  by (induction fs) (auto simp: occurrences_def pseudo_def)

lemma occurrences_put_host: "occurrences n (map (put_host a) fs) = occurrences n fs"
  by (induction fs) (auto simp: occurrences_def put_host_def)

lemma occurrences_snoc: "occurrences n (fs @ [(m, v)]) = occurrences n fs + (if m = n then 1 else 0)"
  by (rule occurrences_append)

lemma occurrences_absent: "n \<notin> fst ` set fs \<Longrightarrow> occurrences n fs = 0"
  by (simp add: occurrences_map_of [symmetric] map_of_eq_None_iff)

lemma visible_host:
  assumes "occurrences ''host'' fs \<le> 1" and "authority_value fs \<noteq> []"
  shows "occurrences ''host'' (visible_fields hRequest fs) = 1
    \<and> (\<forall>f \<in> set (visible_fields hRequest fs). fst f = ''host'' \<longrightarrow> snd f = authority_value fs)"
proof -
  let ?reg = "map (put_host (authority_value fs)) (filter (\<lambda>f. \<not> pseudo f) (merge_cookies fs))"
  have host: "\<not> starts_with ''host'' '':''" by (simp add: starts_with_def)
  have occ: "occurrences ''host'' ?reg = occurrences ''host'' fs"
    by (simp add: occurrences_put_host occurrences_regular [OF host] merge_cookies_def
        occurrences_filter_cookie)
  have vals: "\<forall>f \<in> set ?reg. fst f = ''host'' \<longrightarrow> snd f = authority_value fs"
    using assms(2) by (auto simp: put_host_def)
  show ?thesis
  proof (cases "''host'' \<in> fst ` set fs")
    case True
    then have "occurrences ''host'' fs \<noteq> 0"
      using occurrences_map_of [of fs "''host''"] by (simp add: map_of_eq_None_iff)
    with True assms occ vals show ?thesis by (simp add: visible_fields_def Let_def)
  next
    case False
    with assms occ vals occurrences_absent [OF False] show ?thesis
      by (auto simp: visible_fields_def Let_def occurrences_snoc)
  qed
qed

lemma visible_no_pseudo: "f \<in> set (visible_fields k fs) \<Longrightarrow> \<not> pseudo f"
  by (auto simp: visible_fields_def Let_def put_host_def pseudo_def starts_with_def split: if_splits)

text \<open>A complete request as sealing requires it.\<close>

definition request_complete :: "(string \<Rightarrow> byte list option) \<Rightarrow> Field list \<Rightarrow> bool" where
  "request_complete v6 fs \<longleftrightarrow>
     (let get = (\<lambda>n. case map_of fs n of None \<Rightarrow> [] | Some v \<Rightarrow> v)
      in get '':method'' \<noteq> []
         \<and> (if get '':method'' = ''CONNECT''
            then get '':authority'' \<noteq> [] \<and> get '':scheme'' = [] \<and> get '':path'' = []
              \<and> (\<exists>a. parseAuthority v6 (get '':authority'') = Some a \<and> auth_port a \<noteq> None)
            else get '':scheme'' \<noteq> [] \<and> get '':path'' \<noteq> []
              \<and> (iequals (get '':scheme'') ''http'' \<or> iequals (get '':scheme'') ''https'' \<longrightarrow>
                  (get '':authority'' \<noteq> [] \<or> get ''host'' \<noteq> [])
                  \<and> (hd (get '':path'') = CHR ''/'' \<or> get '':method'' = ''OPTIONS'' \<and> get '':path'' = ''*''))))"

lemma validateComplete_request:
  assumes "storage_inv v6 st fs" "kind st = hRequest" "validateComplete v6 st = (e, st')" "\<not> is_error e"
  shows "request_complete v6 fs"
proof -
  note i = storage_invD [OF assms(1)]
  have val: "value_of st n = (case map_of fs n of None \<Rightarrow> [] | Some v \<Rightarrow> v)" for n
    using value_of_map_of [OF i(15)] i(2) by simp
  show ?thesis
    using assms(2-4)
    unfolding validateComplete_def request_complete_def Let_def val
    by (simp split: if_split_asm) (auto dest!: hdr_fail_sticky split: option.split_asm)
qed

lemma map_of_merge_cookie:
  "map_of (merge_from False fs) ''cookie''
     = (if cookie_values fs = [] then None else Some (join_cookies (cookie_values fs)))"
  by (induction "False" fs rule: merge_from.induct) (auto simp: cookie_values_def)

lemma map_of_filter_regular:
  "\<not> starts_with n '':'' \<Longrightarrow> map_of (filter (\<lambda>f. \<not> pseudo f) fs) n = map_of fs n"
  by (induction fs) (auto simp: pseudo_def)

lemma map_of_put_host: "n \<noteq> ''host'' \<Longrightarrow> map_of (map (put_host a) fs) n = map_of fs n"
  by (induction fs) (auto simp: put_host_def)

lemma visible_cookie:
  "occurrences ''cookie'' (visible_fields hRequest fs) \<le> 1"
  "map_of (visible_fields hRequest fs) ''cookie''
     = (if cookie_values fs = [] then None else Some (join_cookies (cookie_values fs)))"
proof -
  have ck: "\<not> starts_with ''cookie'' '':''" by (simp add: starts_with_def)
  have tail: "occurrences ''cookie'' (xs @ [(''host'', a)]) = occurrences ''cookie'' xs"
    "map_of (xs @ [(''host'', a)]) ''cookie'' = map_of xs ''cookie''" for xs a
    by (auto simp: map_add_def split: option.splits)
  let ?reg = "map (put_host (authority_value fs)) (filter (\<lambda>f. \<not> pseudo f) (merge_cookies fs))"
  have "occurrences ''cookie'' ?reg \<le> 1"
    using occurrences_cookie [of False fs]
    by (simp add: occurrences_put_host occurrences_regular [OF ck] merge_cookies_def)
  then show "occurrences ''cookie'' (visible_fields hRequest fs) \<le> 1"
    unfolding visible_fields_def Let_def using tail(1) [of ?reg] by simp
  have "map_of ?reg ''cookie'' = map_of (merge_cookies fs) ''cookie''"
    by (simp add: map_of_put_host map_of_filter_regular [OF ck])
  then show "map_of (visible_fields hRequest fs) ''cookie''
      = (if cookie_values fs = [] then None else Some (join_cookies (cookie_values fs)))"
    unfolding visible_fields_def Let_def
    using tail(2) [of ?reg] map_of_merge_cookie [of fs] by (simp add: merge_cookies_def)
qed

text \<open>From a new block to a sealed one.\<close>

lemma block_pipeline:
  assumes "new_storage k sid opt = Inr st0" "maxHeaderBytes opt < 2 ^ 64"
    and "hdr_append_all v6 st0 fs = (e, st)" "\<not> is_error e"
  shows "storage_inv v6 st fs" "kind st = k" "maxFields st = maxHeaderFields opt" "maxBytes st = maxHeaderBytes opt"
proof -
  have "maxHeaderBytes opt < size_modulus" using assms(2) by (simp add: size_modulus_def)
  note new = new_storage_inv [OF assms(1) this]
  from hdr_append_all_inv [of v6 st0 "[]" fs e st] new assms(3,4)
  show "storage_inv v6 st fs" "kind st = k" "maxFields st = maxHeaderFields opt" "maxBytes st = maxHeaderBytes opt"
    by simp_all
qed

section \<open>A sample request\<close>

definition sample_fields :: "Field list" where
  "sample_fields =
     [('':method'', ''GET''), ('':scheme'', ''https''), ('':path'', ''/''), ('':authority'', ''a.org''),
      (''cookie'', ''x=1''), (''accept'', ''*/*''), (''cookie'', ''y=2'')]"

definition sample_block :: Storage where
  "sample_block = (case new_storage hRequest 1 default_options of Inr st \<Rightarrow> st)"

lemma sample_block_new: "new_storage hRequest 1 default_options = Inr sample_block"
  using default_options_valid by (simp add: sample_block_def new_storage_def options_valid_def)


lemmas eval_headers = hdr_append_def validatePseudo_def validateRegular_def store_field_def token_def
  validValue_def alpha_def digit_def ord_def kSpecial_def starts_with_def size_sub_def kHeaderFieldOverheadBytes_def
  findEntry_def field_of_def kNotFound_def kMaxHeaderFields_def validScheme_def parseAuthority_def parseHost_def
  kHostSpecial_def kConnectionFields_def Let_def


lemmas eval_seal = hdr_seal_def validateComplete_def value_of_def iequals_lower lower_def toLower_eq
  combineCookies_def

lemma sample_accepted:
  "\<exists>st st'. hdr_append_all (\<lambda>_. None) sample_block sample_fields = (ok_error, st)
     \<and> hdr_seal (\<lambda>_. None) st = (ok_error, st')"
  using default_options_valid
  by (simp add: sample_fields_def sample_block_def new_storage_def options_valid_def eval_headers
      eval_seal default_options_def)

section \<open>Properties\<close>

text \<open>
  C40. Whatever fields the peer sends, a block without error holds exactly the fields received, in
  order; their number and their size (32 bytes of overhead each, pseudo headers included) are
  within the configured budget, which is at most the 64 slots of the arrays; and the list obeys
  the rules of HTTP/2: lower-case token names, clean values, pseudo headers first, known, not
  repeated and not in trailers, no connection-specific fields, at most one Content-Length and,
  in requests, at most one Host.
\<close>

theorem headers_accepted_exactly:
  assumes "new_storage k sid opt = Inr st0" and "maxHeaderBytes opt < 2 ^ 64"
    and "hdr_append_all v6 st0 fs = (e, st)" and "\<not> is_error e"
  shows "fields_of st = fs \<and> decodedFields st = length fs \<and> length fs \<le> maxHeaderFields opt
    \<and> maxHeaderFields opt \<le> 64 \<and> decodedBytes st = header_list_size fs
    \<and> header_list_size fs \<le> maxHeaderBytes opt \<and> header_list_ok v6 k fs"
  using block_pipeline [OF assms] storage_invD [of v6 st fs] by (simp add: kMaxHeaderFields_def)

theorem headers_accepted_exactly_witness:
  "\<exists>st. hdr_append_all (\<lambda>_. None) sample_block sample_fields = (ok_error, st)
    \<and> fields_of st = sample_fields \<and> decodedFields st = length sample_fields
    \<and> length sample_fields \<le> maxHeaderFields default_options
    \<and> decodedBytes st = header_list_size sample_fields
    \<and> header_list_ok (\<lambda>_. None) hRequest sample_fields"
proof -
  obtain st where st: "hdr_append_all (\<lambda>_. None) sample_block sample_fields = (ok_error, st)"
    using sample_accepted by blast
  have "maxHeaderBytes default_options < 2 ^ 64" by (simp add: default_options_def)
  from headers_accepted_exactly [OF sample_block_new this st is_error_ok] st show ?thesis by blast
qed

text \<open>
  Sealing exposes exactly the specified fields: no pseudo header is visible, the cookie fields
  of a request are merged into one, separated by semicolons and in order, and even with the
  synthesised Host field at most 64 views are written, so the fixed array is never overrun.
\<close>

theorem sealed_views:
  assumes "new_storage k sid opt = Inr st0" and "maxHeaderBytes opt < 2 ^ 64"
    and "hdr_append_all v6 st0 fs = (e, st)" and "\<not> is_error e"
    and "hdr_seal v6 st = (e', st')" and "\<not> is_error e'"
  shows "headers_fields (Some st') = visible_fields k fs \<and> length (headers_fields (Some st')) \<le> 64
    \<and> (\<forall>f \<in> set (headers_fields (Some st')). \<not> pseudo f)
    \<and> (k = hRequest \<longrightarrow> occurrences ''cookie'' (headers_fields (Some st')) \<le> 1
        \<and> map_of (headers_fields (Some st')) ''cookie''
            = (if cookie_values fs = [] then None else Some (join_cookies (cookie_values fs))))"
proof -
  note p = block_pipeline [OF assms(1-4)]
  note s = hdr_seal_success [OF p(1) assms(5,6)]
  have "length fs \<le> 64" using storage_invD(4,5) [OF p(1)] by (simp add: kMaxHeaderFields_def)
  from visible_fields_length [OF this, of k] visible_no_pseudo [of _ k fs] visible_cookie [of fs] s(1,2) p(2)
  show ?thesis by (simp add: headers_fields_def)
qed

theorem sealed_views_witness:
  "\<exists>st st'. hdr_append_all (\<lambda>_. None) sample_block sample_fields = (ok_error, st)
    \<and> hdr_seal (\<lambda>_. None) st = (ok_error, st')
    \<and> headers_fields (Some st') = visible_fields hRequest sample_fields
    \<and> length (headers_fields (Some st')) \<le> 64
    \<and> map_of (headers_fields (Some st')) ''cookie'' = Some (''x=1; y=2'')"
proof -
  obtain st st' where st: "hdr_append_all (\<lambda>_. None) sample_block sample_fields = (ok_error, st)"
    "hdr_seal (\<lambda>_. None) st = (ok_error, st')"
    using sample_accepted by blast
  have "maxHeaderBytes default_options < 2 ^ 64" by (simp add: default_options_def)
  from sealed_views [OF sample_block_new this st(1) is_error_ok st(2) is_error_ok] st
  show ?thesis
    by (auto simp: sample_fields_def cookie_values_def join_cookies_def)
qed

text \<open>
  One target per request: a sealed request carries the pseudo headers its method requires
  (a CONNECT request an authority with port and neither scheme nor path), and whenever
  \<open>:authority\<close> is present the application sees exactly one Host field, equal to it.
\<close>

theorem sealed_request_target:
  assumes "new_storage hRequest sid opt = Inr st0" and "maxHeaderBytes opt < 2 ^ 64"
    and "hdr_append_all v6 st0 fs = (e, st)" and "\<not> is_error e"
    and "hdr_seal v6 st = (e', st')" and "\<not> is_error e'"
  shows "request_complete v6 fs
    \<and> (authority_value fs \<noteq> [] \<longrightarrow>
         occurrences ''host'' (headers_fields (Some st')) = 1
         \<and> (\<forall>f \<in> set (headers_fields (Some st')). fst f = ''host'' \<longrightarrow> snd f = authority_value fs)
         \<and> authority_of (Some st') = authority_value fs)"
proof -
  note p = block_pipeline [OF assms(1-4)]
  note s = hdr_seal_success [OF p(1) assms(5,6)]
  have "request_complete v6 fs"
    using s(5) validateComplete_request [OF p(1,2)] by auto
  moreover have "occurrences ''host'' fs \<le> 1"
    using storage_invD(12) [OF p(1)] p(2) by (simp add: header_list_ok_def)
  moreover have "request_value (Some st') '':authority'' = authority_value fs"
    using s(1,3) s(6) [of "'':authority''"] p(2)
    by (simp add: request_value_def authority_value_def merge_cookies_def map_of_merge)
  ultimately show ?thesis
    using visible_host [of fs] s(1,2) p(2) by (simp add: headers_fields_def authority_of_def)
qed

theorem sealed_request_target_witness:
  "\<exists>st st'. hdr_append_all (\<lambda>_. None) sample_block sample_fields = (ok_error, st)
    \<and> hdr_seal (\<lambda>_. None) st = (ok_error, st')
    \<and> request_complete (\<lambda>_. None) sample_fields
    \<and> occurrences ''host'' (headers_fields (Some st')) = 1 \<and> authority_of (Some st') = ''a.org''"
proof -
  obtain st st' where st: "hdr_append_all (\<lambda>_. None) sample_block sample_fields = (ok_error, st)"
    "hdr_seal (\<lambda>_. None) st = (ok_error, st')"
    using sample_accepted by blast
  have "maxHeaderBytes default_options < 2 ^ 64" by (simp add: default_options_def)
  from sealed_request_target [OF sample_block_new this st(1) is_error_ok st(2) is_error_ok] st
  show ?thesis
    by (auto simp: sample_fields_def authority_value_def)
qed

text \<open>
  The first error of a block is final: every later append and the seal return that same error
  and change nothing, so a rejected block can never be sealed.
\<close>

theorem header_error_is_final:
  assumes "hdr_append v6 st n v = (e, st')" and "is_error e" and "\<not> sealed st"
  shows "hdr_append v6 st' m w = (e, st') \<and> hdr_seal v6 st' = (e, st') \<and> \<not> headers_sealed (Some st')"
  using hdr_append_error [OF assms] assms(2,3)
  by (simp add: hdr_append_def hdr_seal_def headers_sealed_def)

theorem header_error_is_final_witness:
  "\<exists>e st'. hdr_append (\<lambda>_. None) sample_block ''Upper'' ''x'' = (e, st') \<and> is_error e
    \<and> hdr_append (\<lambda>_. None) st' ''a'' ''b'' = (e, st') \<and> hdr_seal (\<lambda>_. None) st' = (e, st')
    \<and> \<not> headers_sealed (Some st')"
proof -
  obtain e st' where a: "hdr_append (\<lambda>_. None) sample_block ''Upper'' ''x'' = (e, st')" "is_error e"
    using default_options_valid
    by (simp add: sample_block_def new_storage_def options_valid_def eval_headers default_options_def
        hdr_fail_def)
  moreover have "\<not> sealed sample_block"
    using default_options_valid by (simp add: sample_block_def new_storage_def options_valid_def)
  ultimately show ?thesis using header_error_is_final [of _ sample_block _ _ e st'] by blast
qed

end
