(* ===== verification/H2_Stream.thy ===== *)
theory H2_Stream
  imports H2_Headers
begin

text \<open>
  One HTTP/2 stream: \<^verbatim>\<open>src/src/core/http2/Http2Stream.h\<close> and \<^verbatim>\<open>Http2Stream.cpp\<close>. A stream owns
  four leases of the connection budget (protocol slot, application slot, received bytes, bytes
  to send), its header blocks, the body received so far and the gate that says whether the body
  is complete.

  Every operation takes and returns the store of budgets. \<open>Clock::now()\<close> is the argument \<open>now\<close>;
  a time point is an integer. Waiting on the body is a coroutine: it is modelled by what it does
  before it suspends (\<open>waitBody_begin\<close>) and after its timer fires or is cancelled
  (\<open>waitBody_resume\<close>). A moved-from string is empty.
\<close>

section \<open>State\<close>

record Http2Stream =
  stream_id :: int
  incomingKind :: HeaderKind
  initialHeaders :: Http2Headers
  trailers :: Http2Headers
  protocol :: Lease
  application :: Lease
  receive :: Lease
  send :: Lease
  request_body :: string
  response_body :: string
  pendingBody :: string
  bodyWaiters :: "(nat \<times> bool) list" \<comment> \<open>timers, with the flag that they were cancelled\<close>
  stream_error :: NetworkError
  bodyCompletedAt :: int
  bodyComplete :: bool
  bodyFailed :: bool
  bodyPublished :: bool
  applicationStarted :: bool
  applicationFinished :: bool

record StreamConfig =
  cfg_streamId :: int
  cfg_incomingKind :: HeaderKind
  cfg_peerLimit :: nat
  cfg_options :: Http2Options

text \<open>\<open>std::string::max_size()\<close> of a 64-bit standard library.\<close>

definition string_max_size :: size_t where "string_max_size = 2 ^ 63 - 1"

section \<open>Creation\<close>

text \<open>
  \<open>Http2Stream::create\<close>: an exception (\<open>Inl\<close>), no stream, or the stream. A protocol slot that was
  acquired before the application slot was refused is returned by the destructor of
  \<open>Reservations\<close>.
\<close>

definition stream_create ::
  "budgets \<Rightarrow> StreamConfig \<Rightarrow> Http2Budget \<Rightarrow> string + (Http2Stream option \<times> budgets)" where
  "stream_create b cfg h =
     (if validationError (cfg_options cfg) \<noteq> [] then Inl (validationError (cfg_options cfg))
      else if cfg_streamId cfg \<le> 0 \<or> cfg_incomingKind cfg \<notin> {hRequest, hResponse}
      then Inl ''invalid stream id or role''
      else
        (case tryAcquireProtocolStream b h (cfg_peerLimit cfg) of
           (p, b1) \<Rightarrow>
             if \<not> lease_held p then Inr (None, b1)
             else
               (case tryAcquireApplicationTask b1 h of
                  (a, b2) \<Rightarrow>
                    if \<not> lease_held a then Inr (None, snd (lease_reset b2 p))
                    else
                      (case tryAcquireReceive b2 h 0 of
                         (r, b3) \<Rightarrow>
                           (case tryAcquireSend b3 h 0 of
                              (s, b4) \<Rightarrow>
                                (case (new_storage (cfg_incomingKind cfg) (cfg_streamId cfg) (cfg_options cfg),
                                       new_storage hTrailers (cfg_streamId cfg) (cfg_options cfg)) of
                                   (Inr ih, Inr th) \<Rightarrow>
                                     Inr (Some \<lparr>stream_id = cfg_streamId cfg,
                                       incomingKind = cfg_incomingKind cfg,
                                       initialHeaders = Some ih, trailers = Some th,
                                       protocol = p, application = a, receive = r, send = s,
                                       request_body = [], response_body = [], pendingBody = [],
                                       bodyWaiters = [], stream_error = ok_error, bodyCompletedAt = 0,
                                       bodyComplete = False, bodyFailed = False, bodyPublished = False,
                                       applicationStarted = False, applicationFinished = False\<rparr>, b4)
                                 | _ \<Rightarrow> Inl ''invalid header block''))))))"

section \<open>Operations\<close>

definition protocolOpen :: "Http2Stream \<Rightarrow> bool" where
  "protocolOpen s = lease_held (protocol s)"

definition receivedBytes :: "Http2Stream \<Rightarrow> size_t" where
  "receivedBytes s = lease_amount (receive s)"

definition startApplication :: "Http2Stream \<Rightarrow> bool \<times> Http2Stream" where
  "startApplication s =
     (if \<not> lease_held (protocol s) \<or> applicationStarted s \<or> applicationFinished s then (False, s)
      else (True, s\<lparr>applicationStarted := True\<rparr>))"

text \<open>\<open>finishApplication\<close>, which the guard of a running application calls when it is reset.\<close>

definition finishApplication :: "budgets \<Rightarrow> Http2Stream \<Rightarrow> Http2Stream \<times> budgets" where
  "finishApplication b s =
     (case lease_reset b (application s) of
        (a, b') \<Rightarrow> (s\<lparr>applicationFinished := True, application := a\<rparr>, b'))"

definition completeBodyOnce :: "Http2Stream \<Rightarrow> bool \<Rightarrow> int \<Rightarrow> Http2Stream" where
  "completeBodyOnce s failed now =
     (if bodyComplete s then s
      else s\<lparr>bodyCompletedAt := now, bodyFailed := failed, bodyComplete := True,
             bodyWaiters := map (\<lambda>(t, _). (t, True)) (bodyWaiters s)\<rparr>)"

definition stream_fail ::
  "budgets \<Rightarrow> Http2Stream \<Rightarrow> NetworkError \<Rightarrow> int \<Rightarrow> NetworkError \<times> Http2Stream \<times> budgets" where
  "stream_fail b s error now =
     (if \<not> lease_held (protocol s) then (stream_error s, s, b)
      else
        let error' = (if is_error error then error else net_error hOperationAborted ''stream cancelled'')
        in (case lease_reset b (protocol s) of
              (p, b1) \<Rightarrow>
                let s1 = s\<lparr>stream_error := error', protocol := p\<rparr>
                in (case (if \<not> applicationStarted s1 then finishApplication b1 s1 else (s1, b1)) of
                      (s2, b2) \<Rightarrow> (error', completeBodyOnce s2 True now, b2))))"

definition stream_reset ::
  "budgets \<Rightarrow> Http2Stream \<Rightarrow> Http2Code \<Rightarrow> int \<Rightarrow> NetworkError \<times> Http2Stream \<times> budgets" where
  "stream_reset b s code now =
     stream_fail b s (h2_error hHttp2StreamError ''stream reset'' code (stream_id s)) now"

text \<open>
  \<open>appendBody\<close>. The last argument tells whether \<open>std::string::append\<close> finds memory: if not, the
  reservation is restored and the exception rethrown (\<open>Inl\<close>).
\<close>

definition appendBody ::
  "budgets \<Rightarrow> Http2Stream \<Rightarrow> string \<Rightarrow> int \<Rightarrow> bool \<Rightarrow> (string + NetworkError) \<times> Http2Stream \<times> budgets" where
  "appendBody b s data now memory =
     (if is_error (stream_error s) then (Inr (stream_error s), s, b)
      else if bodyComplete s \<or> \<not> lease_held (protocol s) \<or> \<not> headers_sealed (initialHeaders s)
      then
        let e = h2_error hHttp2StreamError ''DATA outside the body phase'' h2StreamClosed (stream_id s)
        in if lease_held (protocol s)
           then (case stream_fail b s e now of (r, s', b') \<Rightarrow> (Inr r, s', b'))
           else (Inr e, s, b)
      else
        let previous = lease_amount (receive s);
            over = (case stream_fail b s
                      (h2_error hResourceLimitExceeded ''body over budget'' h2EnhanceYourCalm (stream_id s)) now
                    of (r, s', b') \<Rightarrow> (Inr r, s', b'))
        in if length data > size_sub string_max_size previous then over
           else
             (case tryResize b (receive s) (size_add previous (length data)) of
                (False, _, _) \<Rightarrow> over
              | (True, r, b1) \<Rightarrow>
                  if memory then (Inr ok_error, s\<lparr>receive := r, pendingBody := pendingBody s @ data\<rparr>, b1)
                  else (case tryResize b1 r previous of
                          (_, r', b2) \<Rightarrow> (Inl ''bad_alloc'', s\<lparr>receive := r'\<rparr>, b2))))"

definition completeBody ::
  "budgets \<Rightarrow> Http2Stream \<Rightarrow> int \<Rightarrow> NetworkError \<times> Http2Stream \<times> budgets" where
  "completeBody b s now =
     (if bodyComplete s then (if bodyFailed s then stream_error s else ok_error, s, b)
      else if \<not> headers_sealed (initialHeaders s)
      then stream_fail b s
             (h2_error hHttp2StreamError ''body ends before the header block'' h2ProtocolError (stream_id s)) now
      else (ok_error, completeBodyOnce s False now, b))"

definition publishBody :: "Http2Stream \<Rightarrow> NetworkError \<times> Http2Stream" where
  "publishBody s =
     (if is_error (stream_error s) then (stream_error s, s)
      else if \<not> bodyComplete s then (net_error hOperationInProgress ''body incomplete'', s)
      else if bodyPublished s then (ok_error, s)
      else (ok_error,
            (if incomingKind s = hRequest
             then s\<lparr>request_body := pendingBody s, pendingBody := [], bodyPublished := True\<rparr>
             else s\<lparr>response_body := pendingBody s, pendingBody := [], bodyPublished := True\<rparr>)))"

definition bodyResult ::
  "budgets \<Rightarrow> Http2Stream \<Rightarrow> int \<Rightarrow> int \<Rightarrow> NetworkError \<times> Http2Stream \<times> budgets" where
  "bodyResult b s deadline now =
     (if bodyFailed s then (stream_error s, s, b)
      else if bodyCompletedAt s \<le> deadline then (ok_error, s, b)
      else
        let timeout = net_error hTimedOut ''body completed after the deadline''
        in if \<not> lease_held (protocol s) then (timeout, s, b)
           else (case stream_fail b s timeout now of
                   (_, s', b') \<Rightarrow> (stream_error s', s'\<lparr>bodyFailed := True\<rparr>, b')))"

definition closeProtocol :: "budgets \<Rightarrow> Http2Stream \<Rightarrow> int \<Rightarrow> Http2Stream \<times> budgets" where
  "closeProtocol b s now =
     (if \<not> bodyComplete s
      then snd (stream_fail b s
             (h2_error hHttp2StreamError ''closed before the body was complete'' h2StreamClosed (stream_id s)) now)
      else
        (case lease_reset b (protocol s) of
           (p, b1) \<Rightarrow>
             let s1 = s\<lparr>protocol := p\<rparr>
             in if \<not> applicationStarted s1 then finishApplication b1 s1 else (s1, b1)))"

text \<open>
  \<open>waitBodyOwned\<close>: a completed body is answered at once; otherwise timer \<open>t\<close> is registered and the
  coroutine suspends. When it resumes, \<open>timer_error\<close> is the error of the wait (\<open>None\<close> when the
  deadline passed), already translated by \<open>toNetworkError\<close>.
\<close>

definition waitBody_begin ::
  "budgets \<Rightarrow> Http2Stream \<Rightarrow> nat \<Rightarrow> int \<Rightarrow> int \<Rightarrow> NetworkError option \<times> Http2Stream \<times> budgets" where
  "waitBody_begin b s t deadline now =
     (if bodyComplete s
      then (case bodyResult b s deadline now of (e, s', b') \<Rightarrow> (Some e, s', b'))
      else (None, s\<lparr>bodyWaiters := bodyWaiters s @ [(t, False)]\<rparr>, b))"

definition waitBody_resume ::
  "budgets \<Rightarrow> Http2Stream \<Rightarrow> nat \<Rightarrow> NetworkError option \<Rightarrow> int \<Rightarrow> int
     \<Rightarrow> NetworkError \<times> Http2Stream \<times> budgets" where
  "waitBody_resume b s t timer_error deadline now =
     (case (if \<not> bodyComplete s
            then snd (stream_fail b s
                   (case timer_error of Some e \<Rightarrow> e | None \<Rightarrow> net_error hTimedOut ''body wait timed out'') now)
            else (s, b)) of
        (s1, b1) \<Rightarrow>
          (case bodyResult b1 s1 deadline now of
             (e, s2, b2) \<Rightarrow> (e, s2\<lparr>bodyWaiters := filter (\<lambda>w. fst w \<noteq> t) (bodyWaiters s2)\<rparr>, b2)))"

definition reserveSend :: "budgets \<Rightarrow> Http2Stream \<Rightarrow> size_t \<Rightarrow> bool \<times> Http2Stream \<times> budgets" where
  "reserveSend b s n =
     (if lease_held (protocol s) \<or> n \<le> lease_amount (send s)
      then (case tryResize b (send s) n of (r, l, b') \<Rightarrow> (r, s\<lparr>send := l\<rparr>, b'))
      else (False, s, b))"

definition stream_body :: "Http2Stream \<Rightarrow> string" where
  "stream_body s =
     (if \<not> bodyComplete s \<or> bodyFailed s then []
      else if \<not> bodyPublished s then pendingBody s
      else if incomingKind s = hRequest then request_body s else response_body s)"

text \<open>
  The destructor (\<open>= default\<close>) destroys the members in the reverse of their order of declaration.
\<close>

definition stream_destroy :: "budgets \<Rightarrow> Http2Stream \<Rightarrow> budgets" where
  "stream_destroy b s = snd (reset_all lease_reset b [send s, receive s, application s, protocol s])"

section \<open>Invariant\<close>

text \<open>
  The leases a stream holds, the bytes it stores, and what ties them to its flags. \<open>stream_ok\<close> adds
  that the counters of the store are the sums over the leases of the stream and of everybody else.
\<close>

definition stream_leases :: "Http2Stream \<Rightarrow> Lease multiset" where
  "stream_leases s = {#protocol s, application s, receive s, send s#}"

definition stored_body :: "Http2Stream \<Rightarrow> string" where
  "stored_body s =
     (if \<not> bodyPublished s then pendingBody s
      else if incomingKind s = hRequest then request_body s else response_body s)"

definition slots_ok :: "Lease \<Rightarrow> Lease \<Rightarrow> bool" where
  "slots_ok p a \<longleftrightarrow> (lease_held p \<longrightarrow> lease_resource p = hProtocolStream) \<and> (lease_held a \<longrightarrow> lease_resource a = hApplicationTask)"

lemma slots_ok_release: "slots_ok p a \<Longrightarrow> \<not> lease_held p' \<Longrightarrow> slots_ok p' a" "slots_ok p a \<Longrightarrow> \<not> lease_held a' \<Longrightarrow> slots_ok p a'"
    "\<not> lease_held p' \<Longrightarrow> \<not> lease_held a' \<Longrightarrow> slots_ok p' a'"
  by (simp_all add: slots_ok_def)

definition stream_inv :: "Http2Stream \<Rightarrow> bool" where
  "stream_inv s \<longleftrightarrow>
     (is_error (stream_error s) \<longrightarrow> \<not> lease_held (protocol s))
   \<and> (\<not> lease_held (protocol s) \<longrightarrow> bodyComplete s \<and> (applicationStarted s \<or> applicationFinished s))
   \<and> (bodyFailed s \<longrightarrow> is_error (stream_error s))
   \<and> (bodyPublished s \<longrightarrow> bodyComplete s)
   \<and> (\<not> bodyPublished s \<longrightarrow> request_body s = [] \<and> response_body s = [])
   \<and> (lease_held (application s) \<longleftrightarrow> \<not> applicationFinished s)
   \<and> (bodyComplete s \<longrightarrow> (\<forall>w\<in>set (bodyWaiters s). snd w))
   \<and> lease_held (receive s) \<and> lease_held (send s)
   \<and> lease_resource (receive s) = hReceiveBytes \<and> lease_resource (send s) = hSendBytes
   \<and> slots_ok (protocol s) (application s)
   \<and> lease_amount (receive s) = length (stored_body s)
   \<and> length (stored_body s) \<le> string_max_size"

definition stream_ok :: "budgets \<Rightarrow> Lease multiset \<Rightarrow> Http2Stream \<Rightarrow> bool" where
  "stream_ok b M s \<longleftrightarrow> budgets_ok b (stream_leases s + M) \<and> stream_inv s"

lemma stream_leases_update:
  "stream_leases (s\<lparr>protocol := p\<rparr>) = {#p, application s, receive s, send s#}"
  "stream_leases (s\<lparr>application := a\<rparr>) = {#protocol s, a, receive s, send s#}"
  "stream_leases (s\<lparr>receive := r\<rparr>) = {#protocol s, application s, r, send s#}"
  "stream_leases (s\<lparr>send := x\<rparr>) = {#protocol s, application s, receive s, x#}"
  by (simp_all add: stream_leases_def)

lemma stream_leases_ghost [simp]:
  "stream_leases (s\<lparr>applicationFinished := f\<rparr>) = stream_leases s"
  "stream_leases (s\<lparr>applicationStarted := f\<rparr>) = stream_leases s"
  "stream_leases (s\<lparr>stream_error := e\<rparr>) = stream_leases s"
  "stream_leases (s\<lparr>bodyFailed := f\<rparr>) = stream_leases s"
  "stream_leases (s\<lparr>bodyComplete := f\<rparr>) = stream_leases s"
  "stream_leases (s\<lparr>bodyPublished := f\<rparr>) = stream_leases s"
  "stream_leases (s\<lparr>bodyCompletedAt := t\<rparr>) = stream_leases s"
  "stream_leases (s\<lparr>bodyWaiters := w\<rparr>) = stream_leases s"
  "stream_leases (s\<lparr>pendingBody := x\<rparr>) = stream_leases s"
  "stream_leases (s\<lparr>request_body := x\<rparr>) = stream_leases s"
  "stream_leases (s\<lparr>response_body := x\<rparr>) = stream_leases s"
  "stream_leases (s\<lparr>initialHeaders := h\<rparr>) = stream_leases s"
  "stream_leases (s\<lparr>trailers := h\<rparr>) = stream_leases s"
  "stream_leases (completeBodyOnce s f now) = stream_leases s"
  by (simp_all add: stream_leases_def completeBodyOnce_def)

lemma reset_protocol_ok:
  assumes "budgets_ok b (stream_leases s + M)" and "lease_reset b (protocol s) = (p, b')"
  shows "budgets_ok b' (stream_leases (s\<lparr>protocol := p\<rparr>) + M)" and "\<not> lease_held p"
  using ledger.rst_ok [of b "protocol s" "{#application s, receive s, send s#} + M" p b'] assms
  by (simp_all add: stream_leases_update stream_leases_def)

lemma reset_application_ok:
  assumes "budgets_ok b (stream_leases s + M)" and "lease_reset b (application s) = (a, b')"
  shows "budgets_ok b' (stream_leases (s\<lparr>application := a\<rparr>) + M)" and "\<not> lease_held a"
  using ledger.rst_ok [of b "application s" "{#protocol s, receive s, send s#} + M" a b'] assms
  by (simp_all add: stream_leases_update stream_leases_def add_mset_commute)

lemma resize_receive_ok:
  assumes "budgets_ok b (stream_leases s + M)" and "tryResize b (receive s) n = (True, r, b')"
  shows "budgets_ok b' (stream_leases (s\<lparr>receive := r\<rparr>) + M)" and "r = (receive s)\<lparr>lease_amount := n\<rparr>"
  using tryResize_ok(1,2) [of b "receive s" "{#protocol s, application s, send s#} + M" n r b'] assms
  by (simp_all add: stream_leases_update stream_leases_def add_mset_commute)

lemma resize_send_ok:
  assumes "budgets_ok b (stream_leases s + M)" and "tryResize b (send s) n = (True, r, b')"
  shows "budgets_ok b' (stream_leases (s\<lparr>send := r\<rparr>) + M)" and "r = (send s)\<lparr>lease_amount := n\<rparr>"
  using tryResize_ok(1,2) [of b "send s" "{#protocol s, application s, receive s#} + M" n r b'] assms
  by (simp_all add: stream_leases_update stream_leases_def add_mset_commute)

lemma finishApplication_ok:
  assumes "budgets_ok b (stream_leases s + M)" and "finishApplication b s = (s', b')"
  shows "budgets_ok b' (stream_leases s' + M)"
    and "\<exists>a. s' = s\<lparr>applicationFinished := True, application := a\<rparr> \<and> \<not> lease_held a"
proof -
  obtain a b1 where r: "lease_reset b (application s) = (a, b1)" by force
  with assms(2) have s': "s' = s\<lparr>applicationFinished := True, application := a\<rparr>" "b' = b1"
    by (simp_all add: finishApplication_def)
  from reset_application_ok [OF assms(1) r] show "budgets_ok b' (stream_leases s' + M)"
    by (simp add: s' stream_leases_def)
  from s'(1) reset_application_ok(2) [OF assms(1) r]
  show "\<exists>a. s' = s\<lparr>applicationFinished := True, application := a\<rparr> \<and> \<not> lease_held a" by blast
qed

lemma stored_body_simps [simp]:
  "stored_body (s\<lparr>protocol := p\<rparr>) = stored_body s"
  "stored_body (s\<lparr>application := a\<rparr>) = stored_body s"
  "stored_body (s\<lparr>receive := r\<rparr>) = stored_body s"
  "stored_body (s\<lparr>send := r\<rparr>) = stored_body s"
  "stored_body (s\<lparr>applicationFinished := f\<rparr>) = stored_body s"
  "stored_body (s\<lparr>applicationStarted := f\<rparr>) = stored_body s"
  "stored_body (s\<lparr>stream_error := e\<rparr>) = stored_body s"
  "stored_body (s\<lparr>bodyFailed := f\<rparr>) = stored_body s"
  "stored_body (s\<lparr>bodyComplete := f\<rparr>) = stored_body s"
  "stored_body (s\<lparr>bodyCompletedAt := t\<rparr>) = stored_body s"
  "stored_body (s\<lparr>bodyWaiters := w\<rparr>) = stored_body s"
  "stored_body (s\<lparr>initialHeaders := h\<rparr>) = stored_body s"
  "stored_body (s\<lparr>trailers := h\<rparr>) = stored_body s"
  "stored_body (completeBodyOnce s f now) = stored_body s"
  by (simp_all add: stored_body_def completeBodyOnce_def)

text \<open>What \<open>fail\<close> does to an open stream.\<close>

definition failed_error :: "NetworkError \<Rightarrow> NetworkError" where
  "failed_error e = (if is_error e then e else net_error hOperationAborted ''stream cancelled'')"

lemma failed_error_is_error [simp]: "is_error (failed_error e)"
  by (simp add: failed_error_def)

lemma stream_fail_closed: "\<not> lease_held (protocol s) \<Longrightarrow> stream_fail b s e now = (stream_error s, s, b)"
  by (simp add: stream_fail_def)

lemma stream_fail_open:
  assumes "budgets_ok b (stream_leases s + M)" and "lease_held (protocol s)"
    and "stream_fail b s e now = (r, s', b')"
  shows "budgets_ok b' (stream_leases s' + M)"
    and "\<exists>p a f. s' = completeBodyOnce (s\<lparr>stream_error := failed_error e, protocol := p,
             application := a, applicationFinished := f\<rparr>) True now
           \<and> \<not> lease_held p
           \<and> (if applicationStarted s then a = application s \<and> f = applicationFinished s
              else \<not> lease_held a \<and> f)"
    and "r = failed_error e"
proof -
  obtain p b1 where p: "lease_reset b (protocol s) = (p, b1)" by force
  let ?s1 = "s\<lparr>stream_error := failed_error e, protocol := p\<rparr>"
  obtain s2 b2 where f: "(if \<not> applicationStarted ?s1 then finishApplication b1 ?s1 else (?s1, b1)) = (s2, b2)"
    by force
  have eq: "r = failed_error e" "s' = completeBodyOnce s2 True now" "b' = b2"
    using assms(2,3) p f by (simp_all add: stream_fail_def Let_def flip: failed_error_def)
  note 1 = reset_protocol_ok [OF assms(1) p]
  then have ok1: "budgets_ok b1 (stream_leases ?s1 + M)" by (simp add: stream_leases_def)
  have ok2: "budgets_ok b2 (stream_leases s2 + M)"
    using f ok1 finishApplication_ok(1) [OF ok1, of s2 b2] by (auto split: if_splits)
  have s2: "\<exists>a f. s2 = ?s1\<lparr>application := a, applicationFinished := f\<rparr> \<and>
      (if applicationStarted s then a = application s \<and> f = applicationFinished s
              else \<not> lease_held a \<and> f)"
  proof (cases "applicationStarted s")
    case True
    with f have "s2 = ?s1" by simp
    with True show ?thesis
      by (intro exI [of _ "application s"] exI [of _ "applicationFinished s"]) (cases s, simp)
  next
    case False
    with f finishApplication_ok(2) [OF ok1, of s2 b2] obtain a
      where "s2 = ?s1\<lparr>applicationFinished := True, application := a\<rparr>" "\<not> lease_held a" by auto
    with False show ?thesis by (intro exI [of _ a] exI [of _ True]) simp
  qed
  show "r = failed_error e" by (rule eq)
  show "budgets_ok b' (stream_leases s' + M)" using ok2 by (simp add: eq)
  show "\<exists>p a f. s' = completeBodyOnce (s\<lparr>stream_error := failed_error e, protocol := p,
             application := a, applicationFinished := f\<rparr>) True now
           \<and> \<not> lease_held p
           \<and> (if applicationStarted s then a = application s \<and> f = applicationFinished s
              else \<not> lease_held a \<and> f)"
    using s2 1(2) unfolding eq by blast
qed

lemma completeBodyOnce_inv:
  assumes "stream_inv s" and "failed \<longrightarrow> is_error (stream_error s)"
  shows "stream_inv (completeBodyOnce s failed now)"
  using assms by (auto simp: stream_inv_def completeBodyOnce_def)

lemma stream_fail_ok:
  assumes "stream_ok b M s" and "stream_fail b s e now = (r, s', b')"
  shows "stream_ok b' M s'"
proof (cases "lease_held (protocol s)")
  case False
  with assms show ?thesis by (simp add: stream_fail_closed)
next
  case True
  note ok = assms(1) [unfolded stream_ok_def]
  from stream_fail_open [OF conjunct1 [OF ok] True assms(2)] ok True
  show ?thesis
    by (auto simp: stream_ok_def stream_inv_def completeBodyOnce_def split: if_splits intro: slots_ok_release)
qed


lemma stored_body_fail [simp]:
  "stream_fail b s e now = (r, s', b') \<Longrightarrow> stored_body s' = stored_body s"
  by (auto simp: stream_fail_def Let_def finishApplication_def split: prod.splits if_splits)

lemma startApplication_ok:
  assumes "stream_ok b M s" and "startApplication s = (r, s')"
  shows "stream_ok b M s'"
  using assms by (auto simp: startApplication_def stream_ok_def stream_inv_def split: if_splits)

lemma guard_reset_ok:
  assumes "stream_ok b M s" and "finishApplication b s = (s', b')"
  shows "stream_ok b' M s'"
proof -
  from assms(1) have bok: "budgets_ok b (stream_leases s + M)" and inv: "stream_inv s"
    by (simp_all add: stream_ok_def)
  from finishApplication_ok [OF bok assms(2)] obtain a
    where "budgets_ok b' (stream_leases s' + M)" "\<not> lease_held a"
      "s' = s\<lparr>applicationFinished := True, application := a\<rparr>" by blast
  with inv slots_ok_release(2) [of "protocol s" "application s" a] show ?thesis
    by (simp add: stream_ok_def stream_inv_def)
qed

lemma stream_inv_receive:
  assumes "stream_inv s" and "\<not> bodyComplete s"
    and "length data \<le> size_sub string_max_size (lease_amount (receive s))"
  shows "stream_inv (s\<lparr>receive := (receive s)\<lparr>lease_amount := size_add (lease_amount (receive s)) (length data)\<rparr>,
    pendingBody := pendingBody s @ data\<rparr>)"
    and "size_add (lease_amount (receive s)) (length data) = lease_amount (receive s) + length data"
proof -
  have "lease_amount (receive s) + length data \<le> string_max_size"
    using assms size_sub_exact [of "lease_amount (receive s)" string_max_size]
    unfolding stream_inv_def by linarith
  moreover have "string_max_size < size_modulus" by (simp add: string_max_size_def size_modulus_def)
  ultimately show "size_add (lease_amount (receive s)) (length data) = lease_amount (receive s) + length data"
    by (simp add: size_arith)
  with \<open>_ \<le> string_max_size\<close> assms(1,2) show "stream_inv (s\<lparr>receive := (receive s)\<lparr>lease_amount := size_add (lease_amount (receive s)) (length data)\<rparr>,
    pendingBody := pendingBody s @ data\<rparr>)"
    by (auto simp: stream_inv_def stored_body_def lease_held_def)
qed

text \<open>Giving restored part of a payload lease always succeeds: the assertion of \<open>appendBody\<close>.\<close>

lemma tryResize_shrink:
  assumes "budgets_ok b (add_mset l M)" and "lease_held l" and "\<not> lease_resource l < hReceiveBytes"
    and "n \<le> lease_amount l"
  shows "\<exists>b'. tryResize b l n = (True, l\<lparr>lease_amount := n\<rparr>, b')"
proof -
  obtain c where c: "lease_state l = Some c" using assms(2) by (auto simp: lease_held_def)
  have "lease_ok b l" using assms(1) by (simp add: budgets_okD)
  with c obtain st where "conns b c = Some st" "lease_amount l \<le> lease_limit l"
    by (auto simp: lease_ok_def)
  with assms c show ?thesis by (simp add: tryResize_def Let_def)
qed

lemma shrink_receive:
  assumes "budgets_ok b (stream_leases s + M)" and "lease_held (receive s)"
    and "lease_resource (receive s) = hReceiveBytes" and "n \<le> lease_amount (receive s)"
  shows "\<exists>b'. tryResize b (receive s) n = (True, (receive s)\<lparr>lease_amount := n\<rparr>, b')"
  using tryResize_shrink [of b "receive s" "{#protocol s, application s, send s#} + M" n] assms
  by (simp add: stream_leases_def add_mset_commute)

text \<open>
  \<open>appendBody\<close>: either the stream fails or stays as it was, or the bytes are charged and stored; when
  the allocation fails, the charge has been taken restored.
\<close>

lemma appendBody_cases:
  assumes ok: "stream_ok b M s" and app: "appendBody b s data now memory = (r, s', b')"
  obtains (same) "s' = s" "b' = b" "is_error (stream_error s) \<or> \<not> lease_held (protocol s)" "\<exists>e. r = Inr e \<and> is_error e"
  | (failed) e e' where "stream_fail b s e now = (e', s', b')" "lease_held (protocol s)" "r = Inr e'"
  | (stored) "r = Inr ok_error" "\<not> bodyComplete s" "memory" "headers_sealed (initialHeaders s)"
      "length data \<le> size_sub string_max_size (lease_amount (receive s))"
      "s' = s\<lparr>receive := (receive s)\<lparr>lease_amount := size_add (lease_amount (receive s)) (length data)\<rparr>,
              pendingBody := pendingBody s @ data\<rparr>"
      "budgets_ok b' (stream_leases s' + M)"
  | (thrown) "r = Inl ''bad_alloc''" "s' = s" "\<not> memory" "budgets_ok b' (stream_leases s' + M)"
proof (cases "is_error (stream_error s) \<or> bodyComplete s \<or> \<not> lease_held (protocol s)
    \<or> \<not> headers_sealed (initialHeaders s)")
  case True
  then show thesis using app same failed
    by (auto simp: appendBody_def Let_def split: if_splits prod.splits)
next
  case False
  let ?n = "size_add (lease_amount (receive s)) (length data)"
  from ok have inv: "stream_inv s" and bok: "budgets_ok b (stream_leases s + M)" by (simp_all add: stream_ok_def)
  show thesis
  proof (cases "length data > size_sub string_max_size (lease_amount (receive s))
      \<or> \<not> fst (tryResize b (receive s) ?n)")
    case True
    then show thesis using False app failed
      by (auto simp: appendBody_def Let_def split: if_splits prod.splits bool.splits)
  next
    case fits: False
    then obtain l1 b1 where rs: "tryResize b (receive s) ?n = (True, l1, b1)"
      by (cases "tryResize b (receive s) ?n") auto
    note grown = resize_receive_ok [OF bok rs]
    show thesis
    proof (cases memory)
      case True
      with False fits rs app have "r = Inr ok_error" "s' = s\<lparr>receive := l1, pendingBody := pendingBody s @ data\<rparr>"
        "b' = b1" by (auto simp: appendBody_def Let_def)
      with True False fits grown show thesis by (intro stored) (simp_all add: stream_leases_def)
    next
      case nomem: False
      let ?s1 = "s\<lparr>receive := l1\<rparr>"
      from inv grown fits have "lease_held l1" "lease_resource l1 = hReceiveBytes"
        "lease_amount (receive s) \<le> lease_amount l1"
        using stream_inv_receive(2) [of s data] False
        by (auto simp: stream_inv_def lease_held_def)
      from shrink_receive [of b1 ?s1 M "lease_amount (receive s)"] this grown(1) obtain b2
        where r2: "tryResize b1 l1 (lease_amount (receive s)) = (True, l1\<lparr>lease_amount := lease_amount (receive s)\<rparr>, b2)"
        by auto
      have restored: "l1\<lparr>lease_amount := lease_amount (receive s)\<rparr> = receive s"
        using grown(2) by (cases "receive s") simp
      from resize_receive_ok(1) [of b1 ?s1 M, OF grown(1)] r2 restored
      have "budgets_ok b2 (stream_leases s + M)" by (simp add: stream_leases_def)
      moreover from False fits rs app nomem r2 restored have "r = Inl ''bad_alloc''" "s' = s" "b' = b2"
        by (auto simp: appendBody_def Let_def)
      ultimately show thesis using nomem by (intro thrown) simp_all
    qed
  qed
qed

lemma appendBody_ok:
  assumes ok: "stream_ok b M s" and app: "appendBody b s data now memory = (r, s', b')"
  shows "stream_ok b' M s'"
proof (cases rule: appendBody_cases [OF ok app, case_names same failed stored thrown])
  case same
  then show ?thesis using ok by simp
next
  case (failed e e')
  then show ?thesis using stream_fail_ok [OF ok] by blast
next
  case stored
  then show ?thesis using ok stream_inv_receive(1) [of s data] by (simp add: stream_ok_def)
next
  case thrown
  then show ?thesis using ok by (simp add: stream_ok_def)
qed


lemma completeBody_ok:
  assumes "stream_ok b M s" and "completeBody b s now = (r, s', b')"
  shows "stream_ok b' M s'"
  using assms completeBodyOnce_inv [of s False now] stream_fail_ok [OF assms(1)]
  by (auto simp: completeBody_def stream_ok_def split: if_splits)

lemma publishBody_cases:
  assumes "publishBody s = (r, s')"
  obtains (same) "s' = s"
  | (moved) "bodyComplete s" "\<not> bodyPublished s" "r = ok_error"
      "s' = (if incomingKind s = hRequest
             then s\<lparr>request_body := pendingBody s, pendingBody := [], bodyPublished := True\<rparr>
             else s\<lparr>response_body := pendingBody s, pendingBody := [], bodyPublished := True\<rparr>)"
proof (cases "s' = s")
  case False
  with assms have c: "\<not> is_error (stream_error s)" "bodyComplete s" "\<not> bodyPublished s"
    by (auto simp: publishBody_def split: if_splits)
  with assms show thesis by (intro moved) (simp_all add: publishBody_def)
qed

lemma publishBody_ok:
  assumes "stream_ok b M s" and "publishBody s = (r, s')"
  shows "stream_ok b M s'" and "stored_body s' = stored_body s"
proof -
  have "stream_ok b M s' \<and> stored_body s' = stored_body s"
    using assms(2)
  proof (cases rule: publishBody_cases)
    case same
    with assms(1) show ?thesis by simp
  next
    case moved
    have st: "stored_body s' = stored_body s" by (simp add: moved(2,4) stored_body_def)
    moreover have "stream_leases s' = stream_leases s" by (simp add: moved(4))
    ultimately show ?thesis
      using assms(1) moved(1) unfolding stream_ok_def stream_inv_def st
      by (cases "incomingKind s = hRequest") (simp_all add: moved(4))
  qed
  then show "stream_ok b M s'" and "stored_body s' = stored_body s" by simp_all
qed

lemma bodyResult_ok:
  assumes "stream_ok b M s" and "bodyComplete s" and "bodyResult b s deadline now = (r, s', b')"
  shows "stream_ok b' M s'"
proof (cases "bodyFailed s \<or> bodyCompletedAt s \<le> deadline \<or> \<not> lease_held (protocol s)")
  case True
  with assms show ?thesis by (auto simp: bodyResult_def Let_def split: if_splits)
next
  case False
  let ?e = "net_error hTimedOut ''body completed after the deadline''"
  obtain x s1 b1 where f: "stream_fail b s ?e now = (x, s1, b1)" by (cases "stream_fail b s ?e now") auto
  with False assms(3) have "s' = s1\<lparr>bodyFailed := True\<rparr>" "b' = b1" by (auto simp: bodyResult_def Let_def)
  moreover have "stream_ok b1 M s1" by (rule stream_fail_ok [OF assms(1) f])
  moreover have "is_error (stream_error s1)"
    using stream_fail_open(2) [OF _ _ f, of M] assms(1) False
    by (auto simp: stream_ok_def completeBodyOnce_def)
  ultimately show ?thesis by (auto simp: stream_ok_def stream_inv_def)
qed

lemma closeProtocol_ok:
  assumes "stream_ok b M s" and "closeProtocol b s now = (s', b')"
  shows "stream_ok b' M s'"
proof (cases "bodyComplete s")
  case False
  with assms show ?thesis
    by (cases "stream_fail b s (h2_error hHttp2StreamError ''closed before the body was complete'' h2StreamClosed (stream_id s)) now")
      (auto simp: closeProtocol_def intro: stream_fail_ok)
next
  case True
  obtain p b1 where p: "lease_reset b (protocol s) = (p, b1)" by force
  let ?s1 = "s\<lparr>protocol := p\<rparr>"
  from reset_protocol_ok [OF _ p, of M] assms(1)
  have ok1: "budgets_ok b1 (stream_leases ?s1 + M)" and np: "\<not> lease_held p" by (simp_all add: stream_ok_def)
  from assms(2) True p have eq: "(if \<not> applicationStarted s then finishApplication b1 ?s1 else (?s1, b1)) = (s', b')"
    by (simp add: closeProtocol_def Let_def)
  show ?thesis
  proof (cases "applicationStarted s")
    case started: True
    with eq have "s' = ?s1" "b' = b1" by simp_all
    with started ok1 np assms(1) True show ?thesis by (auto simp: stream_ok_def stream_inv_def intro: slots_ok_release)
  next
    case idle: False
    with eq have "finishApplication b1 ?s1 = (s', b')" by simp
    from finishApplication_ok [OF ok1 this] np assms(1) True show ?thesis
      by (auto simp: stream_ok_def stream_inv_def intro: slots_ok_release)
  qed
qed

lemma bodyResult_decided:
  assumes "stream_ok b M s" and "bodyComplete s" and "bodyResult b s deadline now = (r, s', b')"
  shows "bodyComplete s' \<and> (is_error r \<longleftrightarrow> bodyFailed s' \<or> deadline < bodyCompletedAt s')"
proof (cases "bodyFailed s \<or> bodyCompletedAt s \<le> deadline \<or> \<not> lease_held (protocol s)")
  case True
  have "bodyFailed s \<Longrightarrow> is_error (stream_error s)" using assms(1) by (simp add: stream_ok_def stream_inv_def)
  with True assms(2,3) show ?thesis by (auto simp: bodyResult_def Let_def split: if_splits)
next
  case False
  let ?e = "net_error hTimedOut ''body completed after the deadline''"
  obtain x s1 b1 where f: "stream_fail b s ?e now = (x, s1, b1)" by (cases "stream_fail b s ?e now") auto
  with False assms(3) have "s' = s1\<lparr>bodyFailed := True\<rparr>" "r = stream_error s1"
    by (auto simp: bodyResult_def Let_def)
  with stream_fail_open(2) [OF _ _ f, of M] assms(1,2) False
  show ?thesis by (auto simp: stream_ok_def completeBodyOnce_def)
qed

lemma waitBody_begin_ok:
  assumes "stream_ok b M s" and "waitBody_begin b s t deadline now = (r, s', b')"
  shows "stream_ok b' M s'"
proof (cases "bodyComplete s")
  case True
  with assms(2) obtain x where "bodyResult b s deadline now = (x, s', b')"
    by (auto simp: waitBody_begin_def split: prod.splits)
  with bodyResult_ok [OF assms(1) True] show ?thesis by blast
next
  case False
  with assms show ?thesis by (auto simp: waitBody_begin_def stream_ok_def stream_inv_def)
qed

lemma bodyComplete_fail:
  assumes "stream_inv s" and "stream_fail b s e now = (r, s', b')"
  shows "bodyComplete s'"
proof (cases "lease_held (protocol s)")
  case True
  have "bodyComplete (completeBodyOnce x f n)" for x f n by (simp add: completeBodyOnce_def)
  with True assms(2) show ?thesis by (auto simp: stream_fail_def Let_def split: prod.splits)
next
  case False
  with assms show ?thesis by (simp add: stream_fail_closed stream_inv_def)
qed

lemma bodyResult_keeps:
  assumes "bodyResult b s deadline now = (r, s', b')"
  shows "stored_body s' = stored_body s"
  using assms by (auto simp: bodyResult_def Let_def split: prod.splits if_splits)

lemma waitBody_resume_split:
  assumes "stream_inv s" and "waitBody_resume b s t te deadline now = (r, s', b')"
  obtains s1 b1 s2 e r0 where "(s1, b1) = (s, b) \<or> stream_fail b s e now = (r0, s1, b1)" and "bodyComplete s1"
    and "bodyResult b1 s1 deadline now = (r, s2, b')"
    and "s' = s2\<lparr>bodyWaiters := filter (\<lambda>w. fst w \<noteq> t) (bodyWaiters s2)\<rparr>"
proof (cases "bodyComplete s")
  case True
  obtain x s2 b2 where br: "bodyResult b s deadline now = (x, s2, b2)"
    by (cases "bodyResult b s deadline now") auto
  have "x = r" "b2 = b'" "s' = s2\<lparr>bodyWaiters := filter (\<lambda>w. fst w \<noteq> t) (bodyWaiters s2)\<rparr>"
    using assms(2) True unfolding waitBody_resume_def by (simp_all add: br)
  with that [of s b] br True show thesis by simp
next
  case False
  let ?e = "case te of Some e \<Rightarrow> e | None \<Rightarrow> net_error hTimedOut ''body wait timed out''"
  obtain r0 s1 b1 where f: "stream_fail b s ?e now = (r0, s1, b1)" by (cases "stream_fail b s ?e now") auto
  obtain x s2 b2 where br: "bodyResult b1 s1 deadline now = (x, s2, b2)"
    by (cases "bodyResult b1 s1 deadline now") auto
  have "x = r" "b2 = b'" "s' = s2\<lparr>bodyWaiters := filter (\<lambda>w. fst w \<noteq> t) (bodyWaiters s2)\<rparr>"
    using assms(2) False unfolding waitBody_resume_def by (simp_all add: f br)
  with that f br bodyComplete_fail [OF assms(1) f] show thesis by blast
qed

lemma stream_ok_waiters:
  "stream_ok b M s \<Longrightarrow> stream_ok b M (s\<lparr>bodyWaiters := filter P (bodyWaiters s)\<rparr>)"
  by (auto simp: stream_ok_def stream_inv_def)

lemma waitBody_resume_ok:
  assumes "stream_ok b M s" and "waitBody_resume b s t te deadline now = (r, s', b')"
  shows "stream_ok b' M s'" and "stored_body s' = stored_body s"
proof -
  have "stream_inv s" using assms(1) by (simp add: stream_ok_def)
  from waitBody_resume_split [OF this assms(2)] obtain s1 b1 s2 e r0
    where 1: "(s1, b1) = (s, b) \<or> stream_fail b s e now = (r0, s1, b1)" "bodyComplete s1"
      and 2: "bodyResult b1 s1 deadline now = (r, s2, b')"
      and 3: "s' = s2\<lparr>bodyWaiters := filter (\<lambda>w. fst w \<noteq> t) (bodyWaiters s2)\<rparr>" .
  from 1 assms(1) have "stream_ok b1 M s1" using stream_fail_ok by blast
  from bodyResult_ok [OF this 1(2) 2] show "stream_ok b' M s'" unfolding 3 by (rule stream_ok_waiters)
  from 1 bodyResult_keeps [OF 2] show "stored_body s' = stored_body s" by (auto simp: 3)
qed

lemma reserveSend_ok:
  assumes "stream_ok b M s" and "reserveSend b s n = (r, s', b')"
  shows "stream_ok b' M s'"
proof (cases "lease_held (protocol s) \<or> n \<le> lease_amount (send s)")
  case True
  then obtain l where t: "tryResize b (send s) n = (r, l, b')" and s': "s' = s\<lparr>send := l\<rparr>"
    using assms(2) by (auto simp: reserveSend_def split: prod.splits)
  show ?thesis
  proof (cases r)
    case True
    with resize_send_ok [of b s M n l b'] t assms(1) show ?thesis
      by (auto simp: s' stream_ok_def stream_inv_def lease_held_def)
  next
    case False
    with t have "tryResize b (send s) n = (False, l, b')" by simp
    from tryResize_fail [OF this] have "l = send s" "b' = b" by simp_all
    with assms(1) show ?thesis by (simp add: s')
  qed
next
  case False
  with assms show ?thesis by (auto simp: reserveSend_def)
qed

lemma stream_destroy_ok:
  assumes "stream_ok b M s"
  shows "budgets_ok (stream_destroy b s) M"
proof -
  let ?ls = "[send s, receive s, application s, protocol s]"
  obtain ls' b' where r: "reset_all lease_reset b ?ls = (ls', b')" by force
  have "budgets_ok b (mset ?ls + M)"
    using assms by (simp add: stream_ok_def stream_leases_def add_mset_commute)
  from ledger.reset_all_ok [OF this r]
  have "budgets_ok b' (mset ls' + M)" and "\<forall>l\<in>set ls'. \<not> lease_held l \<and> lease_amount l = 0" by simp_all
  then have "budgets_ok b' M" by (induction ls') (auto simp: lease_held_def)
  then show ?thesis unfolding stream_destroy_def r by simp
qed


lemma stream_body_stored: "stream_body s = (if bodyComplete s \<and> \<not> bodyFailed s then stored_body s else [])"
  by (simp add: stream_body_def stored_body_def)

lemma lease_of_acquire:
  assumes "acquire b c r n limit = (l, b')"
  shows "lease_held l \<Longrightarrow> lease_resource l = r \<and> lease_amount l = n"
    and "conns b c \<noteq> None \<Longrightarrow> conns b' c \<noteq> None"
  using assms by (auto simp: acquire_def lease_held_def empty_lease_def Let_def split: option.splits if_splits prod.splits bool.splits)

lemma acquire_zero:
  assumes "conns b c \<noteq> None" and "r \<noteq> hApplicationTask" and "acquire b c r 0 limit = (l, b')"
  shows "lease_held l" and "lease_resource l = r" and "lease_amount l = 0"
  using assms by (auto simp: acquire_def lease_held_def Let_def split: option.splits if_splits)

lemma acquire_held_conn:
  "acquire b c r n limit = (l, b') \<Longrightarrow> lease_held l \<Longrightarrow> conns b' c \<noteq> None"
  by (auto simp: acquire_def Let_def split: option.splits if_splits prod.splits bool.splits)

lemma stream_create_ok:
  assumes ok: "budgets_ok b M" and cr: "stream_create b cfg h = Inr (Some s, b')"
  shows "stream_ok b' M s" and "stored_body s = []" and "lease_held (protocol s)"
proof -
  obtain p b1 where p: "tryAcquireProtocolStream b h (cfg_peerLimit cfg) = (p, b1)" by force
  obtain a b2 where a: "tryAcquireApplicationTask b1 h = (a, b2)" by force
  obtain r b3 where r: "tryAcquireReceive b2 h 0 = (r, b3)" by force
  obtain x b4 where x: "tryAcquireSend b3 h 0 = (x, b4)" by force
  from cr p a r x obtain ih th where held: "lease_held p" "lease_held a"
    and s: "s = \<lparr>stream_id = cfg_streamId cfg, incomingKind = cfg_incomingKind cfg,
               initialHeaders = Some ih, trailers = Some th, protocol = p, application = a, receive = r, send = x,
               request_body = [], response_body = [], pendingBody = [],
               bodyWaiters = [], stream_error = ok_error, bodyCompletedAt = 0,
               bodyComplete = False, bodyFailed = False, bodyPublished = False,
               applicationStarted = False, applicationFinished = False\<rparr>" and b': "b' = b4"
    by (auto simp: stream_create_def split: if_splits sum.splits)
  from tryAcquireProtocolStream_ok [OF ok p] have "budgets_ok b1 (add_mset p M)" .
  from tryAcquireApplicationTask_ok [OF this a] have "budgets_ok b2 (add_mset a (add_mset p M))" .
  from tryAcquireReceive_ok [OF this r] have "budgets_ok b3 (add_mset r (add_mset a (add_mset p M)))" .
  from tryAcquireSend_ok [OF this x]
  have bok: "budgets_ok b4 (add_mset x (add_mset r (add_mset a (add_mset p M))))" .
  have c2: "conns b2 (budget_state h) \<noteq> None"
    using a held(2) acquire_held_conn by (auto simp: tryAcquireApplicationTask_def)
  then obtain st2 where "conns b2 (budget_state h) = Some st2" by blast
  with r have r': "acquire b2 (budget_state h) hReceiveBytes 0 (streamReceiveLimit st2) = (r, b3)"
    by (simp add: tryAcquireReceive_def)
  note rr = acquire_zero [OF c2 _ r']
  have c3: "conns b3 (budget_state h) \<noteq> None" using lease_of_acquire(2) [OF r'] c2 by blast
  then obtain st3 where "conns b3 (budget_state h) = Some st3" by blast
  with x have x': "acquire b3 (budget_state h) hSendBytes 0 (limits st3 hSendBytes) = (x, b4)"
    by (simp add: tryAcquireSend_def)
  note xx = acquire_zero [OF c3 _ x']
  have "slots_ok p a" using p a unfolding tryAcquireProtocolStream_def tryAcquireApplicationTask_def slots_ok_def
    by (auto split: option.splits if_splits dest!: lease_of_acquire(1))
  then show "stream_ok b' M s"
    using bok held rr xx
    by (simp add: s b' stream_ok_def stream_inv_def stream_leases_def stored_body_def add_mset_commute)
  show "stored_body s = []" "lease_held (protocol s)" using held by (simp_all add: s stored_body_def)
qed

section \<open>Histories of a stream\<close>

text \<open>
  A state of the world of one stream: the store, the stream, the leases of everybody else, and
  the bytes its successful \<open>appendBody\<close> calls were given so far, in order. The others use the store
  at any time.
\<close>

type_synonym stream_world = "budgets \<times> Http2Stream \<times> Lease multiset \<times> string"

inductive stream_step :: "stream_world \<Rightarrow> stream_world \<Rightarrow> bool" where
  start: "startApplication s = (r, s') \<Longrightarrow> stream_step (b, s, M, acc) (b, s', M, acc)"
| finish: "finishApplication b s = (s', b') \<Longrightarrow> applicationStarted s \<Longrightarrow>
     stream_step (b, s, M, acc) (b', s', M, acc)"
| headers: "stream_step (b, s, M, acc) (b, s\<lparr>initialHeaders := ih, trailers := th\<rparr>, M, acc)"
| append_data: "appendBody b s data now memory = (r, s', b') \<Longrightarrow>
     acc' = (if r = Inr ok_error then acc @ data else acc) \<Longrightarrow>
     stream_step (b, s, M, acc) (b', s', M, acc')"
| complete: "completeBody b s now = (r, s', b') \<Longrightarrow> stream_step (b, s, M, acc) (b', s', M, acc)"
| publish: "publishBody s = (r, s') \<Longrightarrow> stream_step (b, s, M, acc) (b, s', M, acc)"
| failure: "stream_fail b s e now = (r, s', b') \<Longrightarrow> stream_step (b, s, M, acc) (b', s', M, acc)"
| rst: "stream_reset b s code now = (r, s', b') \<Longrightarrow> stream_step (b, s, M, acc) (b', s', M, acc)"
| close: "closeProtocol b s now = (s', b') \<Longrightarrow> stream_step (b, s, M, acc) (b', s', M, acc)"
| wait_begin: "waitBody_begin b s t deadline now = (r', s', b') \<Longrightarrow> stream_step (b, s, M, acc) (b', s', M, acc)"
| wait_resume: "waitBody_resume b s t te deadline now = (r, s', b') \<Longrightarrow>
     stream_step (b, s, M, acc) (b', s', M, acc)"
| reserve: "reserveSend b s n = (res, s', b') \<Longrightarrow> stream_step (b, s, M, acc) (b', s', M, acc)"
| others: "budget_step (b, stream_leases s + M) (b', stream_leases s + M') \<Longrightarrow>
     stream_step (b, s, M, acc) (b', s, M', acc)"

inductive stream_run :: "stream_world \<Rightarrow> bool" where
  create: "budget_reachable (b, M) \<Longrightarrow> stream_create b cfg h = Inr (Some s, b') \<Longrightarrow>
     stream_run (b', s, M, [])"
| step: "stream_run x \<Longrightarrow> stream_step x y \<Longrightarrow> stream_run y"

fun world_ok :: "stream_world \<Rightarrow> bool" where
  "world_ok (b, s, M, acc) \<longleftrightarrow> stream_ok b M s \<and> stored_body s = acc"

lemma stored_body_keeps:
  "startApplication s = (q, s') \<Longrightarrow> stored_body s' = stored_body s"
  "finishApplication b s = (s', b') \<Longrightarrow> stored_body s' = stored_body s"
  "completeBody b s now = (r, s', b') \<Longrightarrow> stored_body s' = stored_body s"
  "closeProtocol b s now = (s', b') \<Longrightarrow> stored_body s' = stored_body s"
  "waitBody_begin b s t deadline now = (r', s', b') \<Longrightarrow> stored_body s' = stored_body s"
  "reserveSend b s n = (q, s', b') \<Longrightarrow> stored_body s' = stored_body s"
       apply (auto simp: startApplication_def split: if_splits) [1]
      apply (auto simp: finishApplication_def split: prod.splits) [1]
     apply (auto simp: completeBody_def split: if_splits) [1]
    apply (auto simp: closeProtocol_def finishApplication_def Let_def split: if_splits prod.splits) [1]
  subgoal using stored_body_fail by (metis prod.collapse)
   apply (auto simp: waitBody_begin_def dest: bodyResult_keeps split: if_splits prod.splits) [1]
  apply (auto simp: reserveSend_def split: if_splits prod.splits) [1]
  done


lemma stream_step_ok: "stream_step x y \<Longrightarrow> world_ok x \<Longrightarrow> world_ok y"
proof (induction rule: stream_step.induct)
  case (start s r s' b M acc)
  then show ?case using startApplication_ok stored_body_keeps(1) by auto
next
  case (finish b s s' b' M acc)
  then show ?case using guard_reset_ok stored_body_keeps(2) by auto
next
  case (headers b s M acc ih th)
  then show ?case by (auto simp: stream_ok_def stream_inv_def)
next
  case (append_data b s data now memory r s' b' acc' acc M)
  then have ok: "stream_ok b M s" and acc: "stored_body s = acc" by simp_all
  have "stored_body s' = acc'"
  proof (cases rule: appendBody_cases [OF ok append_data.hyps(1), case_names same failed stored thrown])
    case same
    then show ?thesis using append_data.hyps(2) acc by auto
  next
    case (failed e e')
    have "stored_body s' = stored_body s" using failed(1) by simp
    moreover have "e' \<noteq> ok_error"
      using stream_fail_open(3) [OF _ failed(2,1), of M] ok failed_error_is_error [of e]
      by (auto simp: stream_ok_def simp del: failed_error_is_error)
    ultimately show ?thesis using failed(3) append_data.hyps(2) acc by simp
  next
    case stored
    have "\<not> bodyPublished s" using ok stored(2) by (simp add: stream_ok_def stream_inv_def)
    then show ?thesis using stored(1,6) append_data.hyps(2) acc by (auto simp: stored_body_def)
  next
    case thrown
    then show ?thesis using append_data.hyps(2) acc by simp
  qed
  with appendBody_ok [OF ok append_data.hyps(1)] show ?case by simp
next
  case (complete b s now r s' b' M acc)
  then show ?case using completeBody_ok stored_body_keeps(3) by auto
next
  case (publish s r s' b M acc)
  then show ?case using publishBody_ok by auto
next
  case (failure b s e now r s' b' M acc)
  then show ?case using stream_fail_ok stored_body_fail by auto
next
  case (rst b s code now r s' b' M acc)
  then show ?case using stream_fail_ok stored_body_fail by (auto simp: stream_reset_def)
next
  case (close b s now s' b' M acc)
  then show ?case using closeProtocol_ok stored_body_keeps(4) by auto
next
  case (wait_begin b s t deadline now r' s' b' M acc)
  then show ?case using waitBody_begin_ok stored_body_keeps(5) by auto
next
  case (wait_resume b s t te deadline now r s' b' M acc)
  then show ?case using waitBody_resume_ok by auto
next
  case (reserve b s n res s' b' M acc)
  then show ?case using reserveSend_ok stored_body_keeps(6) by auto
next
  case (others b s M b' M' acc)
  then show ?case using budget_step_ok by (fastforce simp: stream_ok_def)
qed

lemma stream_run_ok: "stream_run x \<Longrightarrow> world_ok x"
proof (induction rule: stream_run.induct)
  case (create b M cfg h s b')
  then show ?case using stream_create_ok budget_reachable_ok [of "(b, M)"] by simp
next
  case (step x y)
  then show ?case using stream_step_ok by blast
qed

lemma stream_runD:
  assumes "stream_run (b, s, M, acc)"
  shows "stream_ok b M s" and "stream_inv s" and "budgets_ok b (stream_leases s + M)" and "stored_body s = acc"
  using stream_run_ok [OF assms] by (simp_all add: stream_ok_def)

text \<open>After the protocol side has ended, nothing of the message changes any more.\<close>

lemma closed_append:
  assumes "stream_ok b M s" and "\<not> lease_held (protocol s)" and "appendBody b s data now memory = (r, s', b')"
  shows "s' = s" and "r \<noteq> Inr ok_error"
proof -
  have "bodyComplete s" using assms(1,2) by (simp add: stream_ok_def stream_inv_def)
  moreover have "h2_error c m k i \<noteq> ok_error" if "c \<noteq> hNoError" for c m k i
    using that by (simp add: h2_error_def ok_error_def)
  ultimately show "s' = s" and "r \<noteq> Inr ok_error"
    using assms by (auto simp: appendBody_def Let_def split: if_splits)
qed

lemma closed_result:
  assumes "\<not> lease_held (protocol s)" and "bodyResult b s deadline now = (r, s', b')"
  shows "s' = s"
  using assms by (auto simp: bodyResult_def Let_def split: if_splits)

lemma closed_step:
  assumes "stream_step (b, s, M, acc) (b', s', M', acc')" and "world_ok (b, s, M, acc)"
    and "\<not> lease_held (protocol s)"
  shows "\<not> lease_held (protocol s') \<and> stream_error s' = stream_error s \<and> acc' = acc
     \<and> stored_body s' = stored_body s \<and> bodyFailed s' = bodyFailed s"
proof -
  have ok: "stream_ok b M s" and inv: "stream_inv s" using assms(2) by (simp_all add: stream_ok_def)
  have bc: "bodyComplete s" using inv assms(3) by (simp add: stream_inv_def)
  from assms(1) show ?thesis
  proof (cases rule: stream_step.cases)
    case (start r)
    then show ?thesis using assms(3) by (simp add: startApplication_def)
  next
    case finish
    then show ?thesis using assms(3) by (auto simp: finishApplication_def split: prod.splits)
  next
    case (headers ih th)
    then show ?thesis using assms(3) by simp
  next
    case (append_data data now memory r)
    then have "s' = s" "r \<noteq> Inr ok_error" using closed_append [OF ok assms(3)] by blast+
    with append_data assms(3) show ?thesis by simp
  next
    case (complete now r)
    then show ?thesis using assms(3) bc by (auto simp: completeBody_def)
  next
    case (publish r)
    then show ?thesis using assms(3) bc publishBody_ok(2) [OF ok, of r s']
      by (auto simp: publishBody_def split: if_splits)
  next
    case (failure e now r)
    then show ?thesis using assms(3) by (simp add: stream_fail_closed)
  next
    case (rst code now r)
    then show ?thesis using assms(3) by (simp add: stream_reset_def stream_fail_closed)
  next
    case (close now)
    then show ?thesis using assms(3) bc ledger.rst_idle
      by (auto simp: closeProtocol_def finishApplication_def Let_def split: if_splits prod.splits)
  next
    case (wait_begin t deadline now r')
    then obtain x where "bodyResult b s deadline now = (x, s', b')"
      using bc by (auto simp: waitBody_begin_def split: prod.splits)
    from closed_result [OF assms(3) this] wait_begin assms(3) show ?thesis by simp
  next
    case (wait_resume t te deadline now r)
    then obtain s2 where s2: "bodyResult b s deadline now = (r, s2, b')"
      and "s' = s2\<lparr>bodyWaiters := filter (\<lambda>w. fst w \<noteq> t) (bodyWaiters s2)\<rparr>"
      using bc by (auto simp: waitBody_resume_def split: prod.splits)
    with closed_result [OF assms(3) s2] wait_resume assms(3) show ?thesis by simp
  next
    case (reserve n res)
    then show ?thesis using assms(3) by (auto simp: reserveSend_def split: if_splits prod.splits)
  next
    case others
    then show ?thesis using assms(3) by simp
  qed
qed


inductive stream_steps :: "stream_world \<Rightarrow> stream_world \<Rightarrow> bool" where
  steps_refl: "stream_steps x x"
| steps_more: "stream_steps x y \<Longrightarrow> stream_step y z \<Longrightarrow> stream_steps x z"

lemma stream_steps_ok: "stream_steps x y \<Longrightarrow> world_ok x \<Longrightarrow> world_ok y"
  by (induction rule: stream_steps.induct) (auto dest: stream_step_ok)

fun world_closed :: "stream_world \<Rightarrow> NetworkError \<Rightarrow> string \<Rightarrow> bool \<Rightarrow> bool" where
  "world_closed (b, s, M, acc) e d f \<longleftrightarrow> \<not> lease_held (protocol s) \<and> stream_error s = e \<and> acc = d
     \<and> bodyFailed s = f"

lemma closed_steps:
  "stream_steps x y \<Longrightarrow> world_ok x \<Longrightarrow> world_closed x e d f \<Longrightarrow> world_closed y e d f"
proof (induction rule: stream_steps.induct)
  case (steps_more x y z)
  then have y: "world_ok y" "world_closed y e d f" using stream_steps_ok by blast+
  obtain b s M acc b' s' M' acc' where "y = (b, s, M, acc)" "z = (b', s', M', acc')" by (metis prod_cases4)
  with y steps_more.hyps(2) closed_step [of b s M acc b' s' M' acc'] show ?case by simp
qed

text \<open>A stream of the sample store that has received three bytes, for the witnesses.\<close>

definition sample_config :: StreamConfig where
  "sample_config = \<lparr>cfg_streamId = 1, cfg_incomingKind = hRequest, cfg_peerLimit = 4294967295,
     cfg_options = default_options\<rparr>"

definition sample_handle :: Http2Budget where
  "sample_handle = \<lparr>budget_role = hServer, budget_state = 0\<rparr>"

lemmas eval_budget = sample_store_def new_service_def new_budget_def options_valid_def
      tryAcquireApplicationTask_def acquire_def default_options_def service_acquire_def no_budgets_def
      size_sub_def size_add_def size_modulus_def lease_held_def set_conn_def set_service_def

lemma sample_create:
  "\<exists>s b. stream_create (fst sample_store) sample_config sample_handle = Inr (Some s, b)
     \<and> incomingKind s = hRequest \<and> \<not> applicationStarted s \<and> \<not> applicationFinished s \<and> lease_held (protocol s)
     \<and> \<not> bodyComplete s \<and> \<not> is_error (stream_error s) \<and> lease_amount (receive s) = 0
     \<and> lease_held (receive s) \<and> bodyWaiters s = []
     \<and> (\<exists>b'. tryResize b (receive s) 3 = (True, (receive s)\<lparr>lease_amount := 3\<rparr>, b'))"
  using default_options_valid
  by (simp add: eval_budget stream_create_def sample_config_def sample_handle_def
      tryAcquireProtocolStream_def tryAcquireReceive_def tryAcquireSend_def new_storage_def tryResize_def
      less_Resource_def)

lemma sample_stream:
  "\<exists>b s. stream_run (b, s, {#snd sample_store#}, ''abc'') \<and> protocolOpen s \<and> \<not> bodyComplete s
     \<and> applicationStarted s \<and> lease_held (application s) \<and> headers_sealed (initialHeaders s)
     \<and> incomingKind s = hRequest \<and> bodyWaiters s = [(7, False)]"
proof -
  let ?M = "{#snd sample_store#}"
  obtain s b b' where c: "stream_create (fst sample_store) sample_config sample_handle = Inr (Some s, b)"
    and s: "incomingKind s = hRequest" "\<not> applicationStarted s" "\<not> applicationFinished s" "lease_held (protocol s)" "\<not> bodyComplete s"
      "\<not> is_error (stream_error s)" "lease_amount (receive s) = 0" "lease_held (receive s)" "bodyWaiters s = []"
    and rs: "tryResize b (receive s) 3 = (True, (receive s)\<lparr>lease_amount := 3\<rparr>, b')"
    using sample_create by blast
  have run0: "stream_run (b, s, ?M, [])"
    using stream_run.create [OF _ c] sample_store_reachable by simp
  have inv0: "stream_inv s" using stream_runD [OF run0] by simp
  let ?s1 = "s\<lparr>initialHeaders := Some (sample_block\<lparr>sealed := True\<rparr>), trailers := trailers s\<rparr>"
  have "stream_run (b, ?s1, ?M, [])" using stream_run.step [OF run0 headers] by blast
  moreover have app: "appendBody b ?s1 ''abc'' 4 True = (Inr ok_error, ?s1\<lparr>receive := (receive s)\<lparr>lease_amount := 3\<rparr>, pendingBody := pendingBody s @ ''abc''\<rparr>, b')"
    using s rs by (simp add: appendBody_def headers_sealed_def size_add_def size_sub_def size_modulus_def string_max_size_def)
  ultimately have "stream_run (b', ?s1\<lparr>receive := (receive s)\<lparr>lease_amount := 3\<rparr>, pendingBody := pendingBody s @ ''abc''\<rparr>, ?M, ''abc'')"
    (is "stream_run (b', ?s2, ?M, _)")
    using stream_run.step [OF _ append_data] by fastforce
  moreover have st: "startApplication ?s2 = (True, ?s2\<lparr>applicationStarted := True\<rparr>)"
    using s inv0 by (simp add: startApplication_def stream_inv_def) 
  ultimately have "stream_run (b', ?s2\<lparr>applicationStarted := True\<rparr>, ?M, ''abc'')"
    (is "stream_run (b', ?s3, ?M, _)")
    using stream_run.step [OF _ start] by blast
  moreover have "waitBody_begin b' ?s3 7 10 4 = (None, ?s3\<lparr>bodyWaiters := [(7, False)]\<rparr>, b')"
    using s by (simp add: waitBody_begin_def)
  ultimately have "stream_run (b', ?s3\<lparr>bodyWaiters := [(7, False)]\<rparr>, ?M, ''abc'')"
    using stream_run.step [OF _ wait_begin] by blast
  with s inv0 show ?thesis
    by (intro exI [of _ b'] exI [of _ "?s3\<lparr>bodyWaiters := [(7, False)]\<rparr>"])
      (simp add: protocolOpen_def headers_sealed_def stream_inv_def)
qed

lemma sample_done:
  "\<exists>b s. stream_run (b, s, {#snd sample_store#}, ''abc'') \<and> \<not> protocolOpen s \<and> bodyComplete s
     \<and> \<not> bodyFailed s \<and> bodyPublished s \<and> incomingKind s = hRequest"
proof -
  let ?M = "{#snd sample_store#}"
  obtain b s where run: "stream_run (b, s, ?M, ''abc'')" and s: "protocolOpen s" "\<not> bodyComplete s"
    "applicationStarted s" "headers_sealed (initialHeaders s)" "incomingKind s = hRequest"
    using sample_stream by blast
  have inv: "stream_inv s" using stream_runD [OF run] by simp
  let ?s1 = "completeBodyOnce s False 5"
  have "completeBody b s 5 = (ok_error, ?s1, b)" using s by (simp add: completeBody_def)
  from stream_run.step [OF run complete [OF this]] have run1: "stream_run (b, ?s1, ?M, ''abc'')" .
  have s1: "bodyComplete ?s1" "\<not> bodyFailed ?s1" "\<not> bodyPublished ?s1" "incomingKind ?s1 = hRequest"
    "\<not> is_error (stream_error ?s1)" "applicationStarted ?s1"
    using s inv by (auto simp: completeBodyOnce_def stream_inv_def protocolOpen_def)
  let ?s2 = "?s1\<lparr>request_body := pendingBody ?s1, pendingBody := [], bodyPublished := True\<rparr>"
  have "publishBody ?s1 = (ok_error, ?s2)" using s1 by (simp add: publishBody_def)
  from stream_run.step [OF run1 publish [OF this]] have run2: "stream_run (b, ?s2, ?M, ''abc'')" .
  obtain p b3 where p: "lease_reset b (protocol ?s2) = (p, b3)" by force
  then have "closeProtocol b ?s2 9 = (?s2\<lparr>protocol := p\<rparr>, b3)" using s1 by (simp add: closeProtocol_def)
  from stream_run.step [OF run2 close [OF this]] have "stream_run (b3, ?s2\<lparr>protocol := p\<rparr>, ?M, ''abc'')" .
  moreover have "\<not> lease_held p" using reset_protocol_ok(2) [OF stream_runD(3) [OF run2] p] .
  ultimately show ?thesis using s1
    by (intro exI [of _ b3] exI [of _ "?s2\<lparr>protocol := p\<rparr>"]) (simp add: protocolOpen_def)
qed

section \<open>Properties\<close>

text \<open>
  C19. Accounting of a stream: whatever happened to it and to the rest of the service, the
  counters of every connection are the sums over the live leases and within their limits, the
  stream is charged exactly the bytes it accepted, an error means that its protocol slot has
  been returned, and its application slot is held as long as its application has not finished.
\<close>

theorem stream_accounting:
  assumes "stream_run (b, s, M, acc)"
  shows "receivedBytes s = length acc
    \<and> (\<forall>c st r. conns b c = Some st \<longrightarrow>
         used st r = (\<Sum>l\<in>#stream_leases s + M. lease_share c r l) \<and> used st r \<le> limits st r)
    \<and> (is_error (stream_error s) \<longrightarrow> \<not> protocolOpen s \<and> bodyComplete s)
    \<and> (lease_held (application s) \<longleftrightarrow> \<not> applicationFinished s)"
proof -
  note run = stream_runD [OF assms]
  have "used st r = (\<Sum>l\<in>#stream_leases s + M. lease_share c r l) \<and> used st r \<le> limits st r"
    if "conns b c = Some st" for c st r
    using conn_okD(1,2) [OF budgets_okD(1) [OF run(3) that]] by blast
  with run(2,4) show ?thesis
    unfolding receivedBytes_def protocolOpen_def stream_inv_def by metis
qed

theorem stream_accounting_witness:
  "\<exists>b s M. stream_run (b, s, M, ''abc'') \<and> receivedBytes s = 3 \<and> protocolOpen s"
  using sample_stream stream_accounting by fastforce

text \<open>
  C20. The body gate: the application sees nothing until the body is complete, sees nothing of a
  failed message, and otherwise sees exactly the bytes accepted, in order; the request or
  response object receives them only by publication, once.
\<close>

theorem stream_body_exact:
  assumes "stream_run (b, s, M, acc)"
  shows "stream_body s = (if bodyComplete s \<and> \<not> bodyFailed s then acc else [])
    \<and> (\<not> bodyPublished s \<longrightarrow> request_body s = [] \<and> response_body s = [])
    \<and> (bodyPublished s \<longrightarrow> (if incomingKind s = hRequest then request_body s else response_body s) = acc)"
proof -
  have "stored_body s = acc" "stream_inv s" using stream_runD [OF assms] by simp_all
  then show ?thesis unfolding stream_body_stored by (auto simp: stored_body_def stream_inv_def)
qed

theorem stream_body_exact_witness:
  "\<exists>b s M. stream_run (b, s, M, ''abc'') \<and> stream_body s = ''abc'' \<and> request_body s = ''abc''"
proof -
  obtain b s where "stream_run (b, s, {#snd sample_store#}, ''abc'')" "bodyComplete s" "\<not> bodyFailed s"
    "bodyPublished s" "incomingKind s = hRequest" using sample_done by blast
  with stream_body_exact [of b s "{#snd sample_store#}" "''abc''"] show ?thesis by auto
qed

text \<open>
  Ending is final: once the protocol side of a stream has ended, normally or by an error,
  no sequence of operations reopens it, changes the recorded error, turns the result of the
  body or adds a byte to it.
\<close>

theorem stream_end_final:
  assumes "stream_run (b, s, M, acc)" and "\<not> protocolOpen s"
    and "stream_steps (b, s, M, acc) (b', s', M', acc')"
  shows "\<not> protocolOpen s' \<and> stream_error s' = stream_error s \<and> acc' = acc
    \<and> bodyFailed s' = bodyFailed s \<and> stream_body s' = stream_body s"
proof -
  have ok: "world_ok (b, s, M, acc)" by (rule stream_run_ok [OF assms(1)])
  have "world_closed (b, s, M, acc) (stream_error s) acc (bodyFailed s)"
    using assms(2) by (simp add: protocolOpen_def)
  from closed_steps [OF assms(3) ok this] have c: "\<not> lease_held (protocol s')"
    "stream_error s' = stream_error s" "acc' = acc" "bodyFailed s' = bodyFailed s" by simp_all
  from ok stream_steps_ok [OF assms(3) ok] have inv: "stream_inv s" "stream_inv s'"
    and acc: "stored_body s = acc" "stored_body s' = acc'" by (simp_all add: stream_ok_def)
  from inv c(1) assms(2) have "bodyComplete s" "bodyComplete s'"
    by (simp_all add: protocolOpen_def stream_inv_def)
  with c acc show ?thesis by (simp add: protocolOpen_def stream_body_stored)
qed

theorem stream_end_final_witness:
  "\<exists>b s M r s' b'. stream_run (b, s, M, ''abc'') \<and> appendBody b s ''late'' 20 True = (r, s', b')
     \<and> stream_body s' = stream_body s \<and> stream_error s' = stream_error s"
proof -
  obtain b s where run: "stream_run (b, s, {#snd sample_store#}, ''abc'')" and closed: "\<not> protocolOpen s"
    using sample_done by blast
  obtain r s' b' where a: "appendBody b s ''late'' 20 True = (r, s', b')"
    by (cases "appendBody b s ''late'' 20 True") auto
  have "stream_steps (b, s, {#snd sample_store#}, ''abc'')
      (b', s', {#snd sample_store#}, if r = Inr ok_error then ''abc'' @ ''late'' else ''abc'')"
    by (rule steps_more [OF steps_refl append_data [OF a refl]])
  from stream_end_final [OF run closed this] run a show ?thesis by blast
qed

text \<open>
  A reset ends the protocol side at once but does not take the slot of a running
  application away: the slot stays charged until its guard is released. Every waiter is woken,
  and whenever the stream is destroyed afterwards the counters hold only the leases of the others.
\<close>

theorem stream_reset_releases:
  assumes "stream_run (b, s, M, acc)" and "protocolOpen s" and "stream_reset b s code now = (e, s', b')"
  shows "\<not> protocolOpen s' \<and> e = stream_error s' \<and> is_error e
    \<and> (lease_held (application s') \<longleftrightarrow> applicationStarted s \<and> lease_held (application s))
    \<and> (\<forall>w\<in>set (bodyWaiters s'). snd w) \<and> bodyComplete s'
    \<and> (\<forall>c st r. conns (stream_destroy b' s') c = Some st \<longrightarrow> used st r = (\<Sum>l\<in>#M. lease_share c r l))"
proof -
  note run = stream_runD [OF assms(1)]
  let ?e = "h2_error hHttp2StreamError ''stream reset'' code (stream_id s)"
  have f: "stream_fail b s ?e now = (e, s', b')" using assms(3) by (simp add: stream_reset_def)
  have held: "lease_held (protocol s)" using assms(2) by (simp add: protocolOpen_def)
  have ok': "stream_ok b' M s'" by (rule stream_fail_ok [OF run(1) f])
  have c: "used st r = (\<Sum>l\<in>#M. lease_share c r l)" if "conns (stream_destroy b' s') c = Some st" for c st r
    using conn_okD(1) [OF budgets_okD(1) [OF stream_destroy_ok [OF ok'] that]] .
  have d: "bodyComplete s'" by (rule bodyComplete_fail [OF run(2) f])
  from stream_fail_open(2,3) [OF run(3) held f]
  have "\<not> lease_held (protocol s') \<and> e = stream_error s' \<and> is_error e
    \<and> (lease_held (application s') \<longleftrightarrow> applicationStarted s \<and> lease_held (application s))"
    by (auto simp: completeBodyOnce_def split: if_splits)
  moreover have "\<forall>w\<in>set (bodyWaiters s'). snd w" using ok' d by (simp add: stream_ok_def stream_inv_def)
  ultimately show ?thesis using c d unfolding protocolOpen_def by blast
qed

theorem stream_reset_releases_witness:
  "\<exists>b s M e s' b'. stream_run (b, s, M, ''abc'') \<and> stream_reset b s h2Cancel 8 = (e, s', b')
     \<and> \<not> protocolOpen s' \<and> lease_held (application s') \<and> bodyComplete s'"
proof -
  obtain b s where s: "stream_run (b, s, {#snd sample_store#}, ''abc'')" "protocolOpen s"
    "applicationStarted s" "lease_held (application s)" using sample_stream by blast
  obtain e s' b' where r: "stream_reset b s h2Cancel 8 = (e, s', b')" by (cases "stream_reset b s h2Cancel 8") auto
  from stream_reset_releases [OF s(1,2) r] s r show ?thesis by blast
qed

text \<open>
  Waiting for the body is decided: when a waiter resumes, for whatever reason, the body is
  complete; the wait succeeds exactly if the message did not fail and was complete by the
  deadline, and otherwise it returns an error.
\<close>

theorem wait_body_decided:
  assumes "stream_run (b, s, M, acc)" and "waitBody_resume b s t te deadline now = (r, s', b')"
  shows "bodyComplete s' \<and> (is_error r \<longleftrightarrow> bodyFailed s' \<or> deadline < bodyCompletedAt s')
    \<and> t \<notin> fst ` set (bodyWaiters s') \<and> (\<forall>w\<in>set (bodyWaiters s'). snd w)"
proof -
  note run = stream_runD [OF assms(1)]
  from waitBody_resume_split [OF run(2) assms(2)] obtain s1 b1 s2 e r0
    where 1: "(s1, b1) = (s, b) \<or> stream_fail b s e now = (r0, s1, b1)" "bodyComplete s1"
      and 2: "bodyResult b1 s1 deadline now = (r, s2, b')"
      and 3: "s' = s2\<lparr>bodyWaiters := filter (\<lambda>w. fst w \<noteq> t) (bodyWaiters s2)\<rparr>" .
  have ok1: "stream_ok b1 M s1" using 1 run(1) stream_fail_ok by blast
  have ok': "stream_ok b' M s'" by (rule waitBody_resume_ok [OF run(1) assms(2)])
  have r: "bodyComplete s2 \<and> (is_error r \<longleftrightarrow> bodyFailed s2 \<or> deadline < bodyCompletedAt s2)"
    by (rule bodyResult_decided [OF ok1 1(2) 2])
  with ok' show ?thesis by (auto simp: 3 stream_ok_def stream_inv_def)
qed

theorem wait_body_decided_witness:
  "\<exists>b s M r s' b'. stream_run (b, s, M, ''abc'') \<and> waitBody_resume b s 7 None 10 10 = (r, s', b')
     \<and> bodyComplete s' \<and> 7 \<notin> fst ` set (bodyWaiters s')"
proof -
  obtain b s where s: "stream_run (b, s, {#snd sample_store#}, ''abc'')" using sample_stream by blast
  obtain r s' b' where r: "waitBody_resume b s 7 None 10 10 = (r, s', b')"
    by (cases "waitBody_resume b s 7 None 10 10") auto
  from wait_body_decided [OF s r] s r show ?thesis by blast
qed


end
