(* ===== verification/H2_Receive.thy ===== *)
theory H2_Receive
  imports H2_Stream
begin

text \<open>
  The receive adapter of a connection: \<^verbatim>\<open>src/src/core/http2/Http2Receive.h\<close> and
  \<^verbatim>\<open>Http2Receive.cpp\<close>. It owns the table of streams, turns the events of the protocol engine into
  operations of the streams, and decides which stream or connection error answers them.

  A \<open>shared_ptr\<close> to a stream is an address of the heap \<open>w_heap\<close>; a stream outlives its entry of the
  table as long as somebody else holds it, so the heap keeps it. The table is an association list
  with distinct keys; its order is the iteration order of the unordered map.

  The protocol engine is nghttp2 behind \<open>Http2Codec\<close>: its state \<open>'k\<close>, \<open>consume\<close> and \<open>reset\<close>
  are parameters of \<open>RxEnv\<close>, as are the two callbacks of the owner, the textual IPv6 parser
  of the header block and the allocator.
\<close>

section \<open>State\<close>

record Entry =
  ent_stream :: nat
  pendingHeaders :: "Http2Headers option"
  pendingKind :: HeaderKind
  expectedLength :: "nat option"
  headResponse :: bool
  bodyForbidden :: bool

record HeaderBlock =
  blk_streamId :: int
  blk_kind :: HeaderKind
  blk_statusCode :: nat
  blk_endStream :: bool

record 'k RxWorld =
  w_budgets :: budgets
  w_heap :: "nat \<Rightarrow> Http2Stream option"
  w_codec :: 'k
  rx_streams :: "(int \<times> Entry) list"
  connectionError :: NetworkError
  lastServerStreamId :: int

text \<open>What a call that may throw leaves behind: the exception's message or its value, and the state.\<close>

type_synonym ('k, 'r) rx_result = "(string + 'r) \<times> 'k RxWorld"

record 'k RxEnv =
  e_role :: Role
  e_options :: Http2Options
  e_budget :: Http2Budget
  e_v6 :: "string \<Rightarrow> byte list option"
  e_fresh :: "(nat \<Rightarrow> Http2Stream option) \<Rightarrow> nat"
  e_consume :: "'k \<Rightarrow> int \<Rightarrow> nat \<Rightarrow> NetworkError \<times> 'k"
  e_reset :: "'k \<Rightarrow> int \<Rightarrow> Http2Code \<Rightarrow> NetworkError \<times> 'k"
  e_headersReady :: "('k RxWorld \<Rightarrow> nat \<Rightarrow> ('k, unit) rx_result) option"
  e_informational :: "('k RxWorld \<Rightarrow> nat \<Rightarrow> Http2Headers \<Rightarrow> ('k, unit) rx_result) option"

definition table_erase :: "int \<Rightarrow> (int \<times> Entry) list \<Rightarrow> (int \<times> Entry) list" where
  "table_erase i t = filter (\<lambda>p. fst p \<noteq> i) t"

definition table_set :: "int \<Rightarrow> Entry \<Rightarrow> (int \<times> Entry) list \<Rightarrow> (int \<times> Entry) list" where
  "table_set i e t = map (\<lambda>p. if fst p = i then (i, e) else p) t"

text \<open>
  Calling an operation of the stream at an address. A null pointer does not occur (see the
  invariant below); the call is then skipped.
\<close>

definition stream_do ::
  "(budgets \<Rightarrow> Http2Stream \<Rightarrow> 'r \<times> Http2Stream \<times> budgets) \<Rightarrow> 'r \<Rightarrow> nat \<Rightarrow> 'k RxWorld \<Rightarrow> 'r \<times> 'k RxWorld" where
  "stream_do f r0 a w =
     (case w_heap w a of
        None \<Rightarrow> (r0, w)
      | Some s \<Rightarrow>
          (case f (w_budgets w) s of
             (r, s', b') \<Rightarrow> (r, w\<lparr>w_heap := (w_heap w)(a \<mapsto> s'), w_budgets := b'\<rparr>)))"

definition failStream :: "NetworkError \<Rightarrow> int \<Rightarrow> nat \<Rightarrow> 'k RxWorld \<Rightarrow> 'k RxWorld" where
  "failStream e now a w = snd (stream_do (\<lambda>b s. stream_fail b s e now) ok_error a w)"

section \<open>Errors\<close>

definition streamError :: "int \<Rightarrow> Http2Code \<Rightarrow> string \<Rightarrow> NetworkError" where
  "streamError i code message =
     h2_error (if code = h2EnhanceYourCalm then hResourceLimitExceeded else hHttp2StreamError) message code i"

definition rejectionCode :: "NetworkError \<Rightarrow> Http2Code" where
  "rejectionCode error =
     (case err_http2 error of
        Some info \<Rightarrow>
          if info_code info \<noteq> h2NoError then info_code info
          else if err_code error = hResourceLimitExceeded then h2EnhanceYourCalm else h2Cancel
      | None \<Rightarrow> if err_code error = hResourceLimitExceeded then h2EnhanceYourCalm else h2Cancel)"

definition reject :: "int \<Rightarrow> int \<Rightarrow> NetworkError \<Rightarrow> 'k RxWorld \<Rightarrow> Http2Code \<times> 'k RxWorld" where
  "reject now i error w =
     (rejectionCode error,
      (case map_of (rx_streams w) i of
         None \<Rightarrow> w
       | Some en \<Rightarrow> failStream error now (ent_stream en) (w\<lparr>rx_streams := table_erase i (rx_streams w)\<rparr>)))"

definition rx_fail :: "int \<Rightarrow> NetworkError \<Rightarrow> 'k RxWorld \<Rightarrow> 'k RxWorld" where
  "rx_fail now error w =
     (if is_error (connectionError w) then w
      else
        let error' = (if is_error error then error
                      else net_error hOperationAborted ''connection receive cancelled'')
        in fold (\<lambda>(_, en). failStream error' now (ent_stream en)) (rx_streams w)
             (w\<lparr>connectionError := error', rx_streams := []\<rparr>))"

text \<open>\<open>checkOperation\<close>: a failed engine operation ends the connection and throws.\<close>

definition checkOperation :: "int \<Rightarrow> NetworkError \<Rightarrow> 'k RxWorld \<Rightarrow> ('k, unit) rx_result" where
  "checkOperation now error w =
     (if \<not> is_error error then (Inr (), w)
      else
        let error' = error\<lparr>err_code := hHttp2ConnectionError,
                           err_http2 := Some \<lparr>info_code = h2InternalError, info_streamId = 0\<rparr>\<rparr>
        in (Inl (err_message error'), rx_fail now error' w))"

section \<open>Operations\<close>

text \<open>The constructor: an invalid configuration is refused by an exception.\<close>

definition rx_create ::
  "'k RxEnv \<Rightarrow> budgets \<Rightarrow> (nat \<Rightarrow> Http2Stream option) \<Rightarrow> 'k \<Rightarrow> string + 'k RxWorld" where
  "rx_create env b heap k =
     (if validationError (e_options env) \<noteq> [] then Inl (validationError (e_options env))
      else Inr \<lparr>w_budgets = b, w_heap = heap, w_codec = k, rx_streams = [],
                connectionError = ok_error, lastServerStreamId = 0\<rparr>)"

definition rx_destroy :: "int \<Rightarrow> 'k RxWorld \<Rightarrow> 'k RxWorld" where
  "rx_destroy now w = rx_fail now (net_error hOperationAborted ''receive adapter stopped'') w"

definition new_entry :: "nat \<Rightarrow> bool \<Rightarrow> Entry" where
  "new_entry a headOnly = \<lparr>ent_stream = a, pendingHeaders = None, pendingKind = hRequest,
     expectedLength = None, headResponse = headOnly, bodyForbidden = False\<rparr>"

definition addClientStream ::
  "'k RxEnv \<Rightarrow> nat option \<Rightarrow> bool \<Rightarrow> 'k RxWorld \<Rightarrow> NetworkError \<times> 'k RxWorld" where
  "addClientStream env p headOnly w =
     (if is_error (connectionError w) then (connectionError w, w)
      else
        (case Option.bind p (\<lambda>a. map_option (Pair a) (w_heap w a)) of
           None \<Rightarrow> (net_error hInvalidConfiguration ''invalid or registered client stream'', w)
         | Some (a, s) \<Rightarrow>
             if e_role env \<noteq> hClient \<or> stream_id s \<le> 0 \<or> stream_id s mod 2 = 0 \<or> \<not> protocolOpen s
                \<or> headers_sealed (initialHeaders s) \<or> map_of (rx_streams w) (stream_id s) \<noteq> None
             then (net_error hInvalidConfiguration ''invalid or registered client stream'', w)
             else (ok_error, w\<lparr>rx_streams := (stream_id s, new_entry a headOnly) # rx_streams w\<rparr>)))"

definition rx_find :: "int \<Rightarrow> 'k RxWorld \<Rightarrow> nat option" where
  "rx_find i w = map_option ent_stream (map_of (rx_streams w) i)"

text \<open>\<open>onBeginHeaders\<close>, after the entry has been found or created.\<close>

definition beginHeaders_entry ::
  "'k RxEnv \<Rightarrow> int \<Rightarrow> int \<Rightarrow> Entry \<Rightarrow> 'k RxWorld \<Rightarrow> ('k, Http2Code) rx_result" where
  "beginHeaders_entry env now i en w =
     (case w_heap w (ent_stream en) of
        None \<Rightarrow> (Inr h2StreamClosed, w)
      | Some s \<Rightarrow>
          if \<not> protocolOpen s
          then (case reject now i (stream_error s) w of (c, w') \<Rightarrow> (Inr c, w'))
          else if pendingHeaders en \<noteq> None \<or> bodyComplete s \<or> headers_sealed (trailers s)
          then (case reject now i (streamError i h2ProtocolError ''header blocks out of order'') w of
                  (c, w') \<Rightarrow> (Inr c, w'))
          else
            let k = (if headers_sealed (initialHeaders s) then hTrailers
                     else if e_role env = hServer then hRequest else hResponse)
            in (case new_storage k i (e_options env) of
                  Inl m \<Rightarrow> (Inl m, w\<lparr>rx_streams := table_set i (en\<lparr>pendingKind := k\<rparr>) (rx_streams w)\<rparr>)
                | Inr st \<Rightarrow>
                    (Inr h2NoError,
                     w\<lparr>rx_streams := table_set i
                         (en\<lparr>pendingKind := k, pendingHeaders := Some (Some st)\<rparr>) (rx_streams w)\<rparr>)))"

definition onBeginHeaders ::
  "'k RxEnv \<Rightarrow> int \<Rightarrow> int \<Rightarrow> 'k RxWorld \<Rightarrow> ('k, Http2Code) rx_result" where
  "onBeginHeaders env now i w =
     (if is_error (connectionError w) then (Inr h2InternalError, w)
      else
        (case map_of (rx_streams w) i of
           Some en \<Rightarrow> beginHeaders_entry env now i en w
         | None \<Rightarrow>
             if e_role env \<noteq> hServer \<or> i \<le> lastServerStreamId w \<or> i mod 2 = 0
             then (Inr h2StreamClosed, w)
             else
               let w1 = w\<lparr>lastServerStreamId := i\<rparr>;
                   cfg = \<lparr>cfg_streamId = i, cfg_incomingKind = hRequest, cfg_peerLimit = 4294967295,
                          cfg_options = e_options env\<rparr>
               in (case stream_create (w_budgets w1) cfg (e_budget env) of
                     Inl m \<Rightarrow> (Inl m, w1)
                   | Inr (None, b') \<Rightarrow> (Inr h2RefusedStream, w1\<lparr>w_budgets := b'\<rparr>)
                   | Inr (Some s, b') \<Rightarrow>
                       let a = e_fresh env (w_heap w1); en = new_entry a False
                       in beginHeaders_entry env now i en
                            (w1\<lparr>w_budgets := b', w_heap := (w_heap w1)(a \<mapsto> s),
                                rx_streams := (i, en) # rx_streams w1\<rparr>))))"

definition onHeader ::
  "'k RxEnv \<Rightarrow> int \<Rightarrow> int \<Rightarrow> string \<Rightarrow> string \<Rightarrow> 'k RxWorld \<Rightarrow> Http2Code \<times> 'k RxWorld" where
  "onHeader env now i name val w =
     (case map_of (rx_streams w) i of
        None \<Rightarrow> (h2StreamClosed, w)
      | Some en \<Rightarrow>
          (case pendingHeaders en of
             None \<Rightarrow> reject now i (streamError i h2ProtocolError ''field without header block'') w
           | Some h \<Rightarrow>
               (case headers_append (e_v6 env) h name val of
                  (e, h') \<Rightarrow>
                    let w1 = w\<lparr>rx_streams := table_set i (en\<lparr>pendingHeaders := Some h'\<rparr>) (rx_streams w)\<rparr>
                    in if is_error e then reject now i e w1 else (h2NoError, w1))))"

text \<open>The code a callback leaves: the error of the stream it was called for, if any.\<close>

definition code_after :: "nat \<Rightarrow> 'k RxWorld \<Rightarrow> Http2Code" where
  "code_after a w =
     (case w_heap w a of
        None \<Rightarrow> h2NoError
      | Some s \<Rightarrow> if is_error (stream_error s) then rejectionCode (stream_error s) else h2NoError)"

definition set_initial :: "Http2Headers \<Rightarrow> nat \<Rightarrow> 'k RxWorld \<Rightarrow> 'k RxWorld" where
  "set_initial h a w = snd (stream_do (\<lambda>b s. ((), s\<lparr>initialHeaders := h\<rparr>, b)) () a w)"

definition set_trailers :: "Http2Headers \<Rightarrow> nat \<Rightarrow> 'k RxWorld \<Rightarrow> 'k RxWorld" where
  "set_trailers h a w = snd (stream_do (\<lambda>b s. ((), s\<lparr>trailers := h\<rparr>, b)) () a w)"

definition finishInitial ::
  "'k RxEnv \<Rightarrow> int \<Rightarrow> HeaderBlock \<Rightarrow> Entry \<Rightarrow> Http2Headers \<Rightarrow> 'k RxWorld \<Rightarrow> ('k, Http2Code) rx_result" where
  "finishInitial env now blk en h w =
     (let i = blk_streamId blk; a = ent_stream en;
          len = headers_contentLength h;
          response = (e_role env = hClient);
          forbidden = (response \<and> (headResponse en \<or> blk_statusCode blk = 204 \<or> blk_statusCode blk = 304));
          en1 = en\<lparr>bodyForbidden := forbidden\<rparr>;
          w1 = w\<lparr>rx_streams := table_set i en1 (rx_streams w)\<rparr>
      in if response \<and> blk_statusCode blk = 204 \<and> len \<noteq> None
         then (case reject now i (streamError i h2ProtocolError ''204 with content-length'') w1 of
                 (c, w') \<Rightarrow> (Inr c, w'))
         else if \<not> forbidden
              \<and> (case len of None \<Rightarrow> False
                 | Some n \<Rightarrow> n > (if response then maxResponseBytes (e_options env) else maxBodyBytes (e_options env)))
         then (case reject now i (streamError i h2EnhanceYourCalm ''declared length over budget'') w1 of
                 (c, w') \<Rightarrow> (Inr c, w'))
         else
           let en2 = en1\<lparr>expectedLength := (if forbidden then expectedLength en1 else len),
                         pendingHeaders := None\<rparr>;
               w2 = (set_initial h a w1)\<lparr>rx_streams := table_set i en2 (rx_streams w1)\<rparr>
           in (case e_headersReady env of
                 None \<Rightarrow> (Inr (code_after a w2), w2)
               | Some cb \<Rightarrow>
                   (case cb w2 a of
                      (Inl m, w3) \<Rightarrow> (Inl m, w3)
                    | (Inr _, w3) \<Rightarrow> (Inr (code_after a w3), w3))))"

definition onEndHeaders ::
  "'k RxEnv \<Rightarrow> int \<Rightarrow> HeaderBlock \<Rightarrow> 'k RxWorld \<Rightarrow> ('k, Http2Code) rx_result" where
  "onEndHeaders env now blk w =
     (let i = blk_streamId blk;
          rej = (\<lambda>e w. case reject now i e w of (c, w') \<Rightarrow> (Inr c, w'))
      in (case map_of (rx_streams w) i of
            None \<Rightarrow> (Inr h2StreamClosed, w)
          | Some en \<Rightarrow>
              (case pendingHeaders en of
                 None \<Rightarrow> rej (streamError i h2ProtocolError ''header block role mismatch'') w
               | Some h \<Rightarrow>
                   if pendingKind en \<noteq> blk_kind blk
                   then rej (streamError i h2ProtocolError ''header block role mismatch'') w
                   else
                     (case headers_seal (e_v6 env) h of
                        (e, h') \<Rightarrow>
                          let en1 = en\<lparr>pendingHeaders := Some h'\<rparr>;
                              w1 = w\<lparr>rx_streams := table_set i en1 (rx_streams w)\<rparr>
                          in if is_error e then rej e w1
                             else if blk_kind blk = hTrailers
                             then
                               if \<not> blk_endStream blk
                               then rej (streamError i h2ProtocolError ''trailers must end the message'') w1
                               else (Inr h2NoError,
                                     (set_trailers h' (ent_stream en) w1)
                                       \<lparr>rx_streams := table_set i (en1\<lparr>pendingHeaders := None\<rparr>) (rx_streams w1)\<rparr>)
                             else if blk_kind blk = hResponse \<and> headers_status h' \<noteq> blk_statusCode blk
                             then rej (streamError i h2ProtocolError ''status differs from metadata'') w1
                             else if blk_kind blk = hResponse \<and> blk_statusCode blk < 200
                             then
                               if blk_endStream blk
                               then rej (streamError i h2ProtocolError ''interim response cannot end'') w1
                               else
                                 let w2 = w1\<lparr>rx_streams := table_set i (en1\<lparr>pendingHeaders := None\<rparr>) (rx_streams w1)\<rparr>
                                 in (case e_informational env of
                                       None \<Rightarrow> (Inr (code_after (ent_stream en) w2), w2)
                                     | Some cb \<Rightarrow>
                                         (case cb w2 (ent_stream en) h' of
                                            (Inl m, w3) \<Rightarrow> (Inl m, w3)
                                          | (Inr _, w3) \<Rightarrow> (Inr (code_after (ent_stream en) w3), w3)))
                             else finishInitial env now blk en1 h' w1))))"

definition onData ::
  "'k RxEnv \<Rightarrow> int \<Rightarrow> int \<Rightarrow> string \<Rightarrow> bool \<Rightarrow> 'k RxWorld \<Rightarrow> ('k, Http2Code) rx_result" where
  "onData env now i data memory w =
     (let rej = (\<lambda>e w. case reject now i e w of (c, w') \<Rightarrow> (Inr c, w'))
      in (case map_of (rx_streams w) i of
            None \<Rightarrow> (Inr h2StreamClosed, w)
          | Some en \<Rightarrow>
              (case w_heap w (ent_stream en) of
                 None \<Rightarrow> (Inr h2StreamClosed, w)
               | Some s \<Rightarrow>
                   if \<not> protocolOpen s then rej (stream_error s) w
                   else if \<not> headers_sealed (initialHeaders s) \<or> pendingHeaders en \<noteq> None
                      \<or> headers_sealed (trailers s) \<or> bodyComplete s \<or> bodyForbidden en \<and> data \<noteq> []
                   then rej (streamError i h2ProtocolError ''DATA outside the message'') w
                   else if (case expectedLength en of None \<Rightarrow> False
                            | Some n \<Rightarrow> receivedBytes s > n \<or> length data > n - receivedBytes s)
                   then rej (streamError i h2ProtocolError ''DATA over content-length'') w
                   else
                     (case stream_do (\<lambda>b s. appendBody b s data now memory) (Inr ok_error) (ent_stream en) w of
                        (Inl m, w1) \<Rightarrow> (Inl m, w1)
                      | (Inr e, w1) \<Rightarrow>
                          if is_error e then rej e w1
                          else
                            (case e_consume env (w_codec w1) i (length data) of
                               (ce, k') \<Rightarrow>
                                 (case checkOperation now ce (w1\<lparr>w_codec := k'\<rparr>) of
                                    (Inl m, w2) \<Rightarrow> (Inl m, w2)
                                  | (Inr _, w2) \<Rightarrow> (Inr h2NoError, w2)))))))"

definition onEndStream :: "'k RxEnv \<Rightarrow> int \<Rightarrow> int \<Rightarrow> 'k RxWorld \<Rightarrow> ('k, unit) rx_result" where
  "onEndStream env now i w =
     (case map_of (rx_streams w) i of
        None \<Rightarrow> (Inr (), w)
      | Some en \<Rightarrow>
          (case w_heap w (ent_stream en) of
             None \<Rightarrow> (Inr (), w)
           | Some s \<Rightarrow>
               (case (if \<not> protocolOpen s then (stream_error s, w)
                      else if \<not> headers_sealed (initialHeaders s) \<or> pendingHeaders en \<noteq> None
                         \<or> (case expectedLength en of None \<Rightarrow> False | Some n \<Rightarrow> receivedBytes s \<noteq> n)
                      then (streamError i h2ProtocolError ''incomplete message at its end'', w)
                      else stream_do (\<lambda>b s. completeBody b s now) ok_error (ent_stream en) w) of
                  (e, w1) \<Rightarrow>
                    if \<not> is_error e then (Inr (), w1)
                    else
                      (case reject now i e w1 of
                         (c, w2) \<Rightarrow>
                           (case e_reset env (w_codec w2) i c of
                              (ce, k') \<Rightarrow> checkOperation now ce (w2\<lparr>w_codec := k'\<rparr>))))))"

definition onStreamClose :: "int \<Rightarrow> int \<Rightarrow> Http2Code \<Rightarrow> 'k RxWorld \<Rightarrow> 'k RxWorld" where
  "onStreamClose now i code w =
     (case map_of (rx_streams w) i of
        None \<Rightarrow> w
      | Some en \<Rightarrow>
          let w1 = w\<lparr>rx_streams := table_erase i (rx_streams w)\<rparr>
          in if code = h2NoError
             then snd (stream_do (\<lambda>b s. ((), closeProtocol b s now)) () (ent_stream en) w1)
             else snd (stream_do (\<lambda>b s. stream_reset b s code now) ok_error (ent_stream en) w1))"

definition onError :: "int \<Rightarrow> NetworkError \<Rightarrow> 'k RxWorld \<Rightarrow> 'k RxWorld" where
  "onError now error w =
     (if \<not> is_error error then w
      else
        (case err_http2 error of
           Some info \<Rightarrow>
             if info_streamId info > 0 then snd (reject now (info_streamId info) error w)
             else rx_fail now error w
         | None \<Rightarrow> rx_fail now error w))"

definition rx_cancel :: "'k RxEnv \<Rightarrow> int \<Rightarrow> int \<Rightarrow> Http2Code \<Rightarrow> 'k RxWorld \<Rightarrow> ('k, unit) rx_result" where
  "rx_cancel env now i code w =
     (case rx_find i w of
        None \<Rightarrow> (Inr (), w)
      | Some a \<Rightarrow>
          let w1 = snd (stream_do (\<lambda>b s. stream_reset b s code now) ok_error a
                     (w\<lparr>rx_streams := table_erase i (rx_streams w)\<rparr>))
          in (case e_reset env (w_codec w1) i code of
                (ce, k') \<Rightarrow> checkOperation now ce (w1\<lparr>w_codec := k'\<rparr>)))"

section \<open>What the application and the owner may do to a stream\<close>

text \<open>
  \<open>stream_later s s'\<close>: the header block and the body are untouched, the protocol side was not reopened,
  a finished application stays finished, and a body that counts as received afterwards counted as
  received before.
\<close>

definition stream_later :: "Http2Stream \<Rightarrow> Http2Stream \<Rightarrow> bool" where
  "stream_later s s' \<longleftrightarrow>
     stream_id s' = stream_id s \<and> incomingKind s' = incomingKind s
   \<and> initialHeaders s' = initialHeaders s \<and> stored_body s' = stored_body s
   \<and> (lease_held (protocol s') \<longrightarrow> lease_held (protocol s))
   \<and> (applicationFinished s \<longrightarrow> applicationFinished s')
   \<and> (bodyComplete s' \<and> \<not> bodyFailed s' \<longrightarrow> bodyComplete s \<and> \<not> bodyFailed s)"

lemma stream_later_refl [simp]: "stream_later s s"
  by (simp add: stream_later_def)

lemma stream_later_trans: "stream_later s t \<Longrightarrow> stream_later t u \<Longrightarrow> stream_later s u"
  by (simp add: stream_later_def)

inductive app_step :: "budgets \<times> Http2Stream \<Rightarrow> budgets \<times> Http2Stream \<Rightarrow> bool" where
  app_start: "startApplication s = (r, s') \<Longrightarrow> app_step (b, s) (b, s')"
| app_finish: "finishApplication b s = (s', b') \<Longrightarrow> applicationStarted s \<Longrightarrow> app_step (b, s) (b', s')"
| app_publish: "publishBody s = (e, s') \<Longrightarrow> app_step (b, s) (b, s')"
| app_wait: "waitBody_begin b s t deadline now = (eo, s', b') \<Longrightarrow> app_step (b, s) (b', s')"
| app_resume: "waitBody_resume b s t te deadline now = (e, s', b') \<Longrightarrow> app_step (b, s) (b', s')"
| app_reserve: "reserveSend b s n = (r, s', b') \<Longrightarrow> app_step (b, s) (b', s')"
| app_fail: "stream_fail b s e0 now = (e, s', b') \<Longrightarrow> app_step (b, s) (b', s')"

lemma fail_later:
  assumes "stream_fail b s e now = (r, s', b')"
  shows "stream_later s s'"
proof (cases "lease_held (protocol s)")
  case False
  with assms show ?thesis by (simp add: stream_fail_closed)
next
  case True
  let ?e = "if is_error e then e else net_error hOperationAborted ''stream cancelled''"
  obtain p b1 where p: "lease_reset b (protocol s) = (p, b1)" by force
  let ?s1 = "s\<lparr>stream_error := ?e, protocol := p\<rparr>"
  obtain s2 b2 where s2: "(if \<not> applicationStarted ?s1 then finishApplication b1 ?s1 else (?s1, b1)) = (s2, b2)"
    by force
  with assms True p have s': "s' = completeBodyOnce s2 True now" by (simp add: stream_fail_def Let_def)
  obtain a f where "s2 = ?s1\<lparr>applicationFinished := f, application := a\<rparr>" "applicationFinished s \<longrightarrow> f"
  proof (cases "applicationStarted s")
    case True
    with s2 that [of "application s" "applicationFinished s"] show thesis by (cases s) simp
  next
    case False
    with s2 that show thesis by (auto simp: finishApplication_def split: prod.splits)
  qed
  then show ?thesis using True
    by (auto simp: s' stream_later_def completeBodyOnce_def)
qed

lemma result_later:
  assumes "bodyResult b s deadline now = (r, s', b')" and "bodyComplete s"
  shows "stream_later s s'"
proof (cases "bodyFailed s \<or> bodyCompletedAt s \<le> deadline \<or> \<not> lease_held (protocol s)")
  case True
  with assms show ?thesis by (auto simp: bodyResult_def Let_def split: if_splits)
next
  case False
  let ?e = "net_error hTimedOut ''body completed after the deadline''"
  obtain x s1 b1 where f: "stream_fail b s ?e now = (x, s1, b1)" by (cases "stream_fail b s ?e now") auto
  with False assms have "s' = s1\<lparr>bodyFailed := True\<rparr>" by (auto simp: bodyResult_def Let_def)
  with fail_later [OF f] show ?thesis by (auto simp: stream_later_def)
qed

lemma close_later:
  assumes "closeProtocol b s now = (s', b')"
  shows "stream_later s s'"
proof (cases "bodyComplete s")
  case False
  with assms show ?thesis
    by (cases "stream_fail b s (h2_error hHttp2StreamError ''closed before the body was complete'' h2StreamClosed (stream_id s)) now")
      (auto simp: closeProtocol_def intro: fail_later)
next
  case True
  with assms show ?thesis
    by (auto simp: closeProtocol_def stream_later_def finishApplication_def lease_reset_def lease_held_def Let_def
        split: if_splits prod.splits option.splits)
qed

lemma publish_later: "publishBody s = (e, s') \<Longrightarrow> stream_later s s'"
  by (erule publishBody_cases) (auto simp: stream_later_def stored_body_def)

lemma app_step_ok:
  "app_step (b, s) (b', s') \<Longrightarrow> stream_ok b M s \<Longrightarrow> stream_ok b' M s' \<and> stream_later s s'"
proof (induction "(b, s)" "(b', s')" rule: app_step.induct)
  case (app_start r)
  then show ?case using startApplication_ok
    by (auto simp: startApplication_def stream_later_def split: if_splits)
next
  case app_finish
  then show ?case using guard_reset_ok
    by (auto simp: finishApplication_def stream_later_def split: prod.splits)
next
  case (app_publish e)
  then show ?case using publishBody_ok(1) publish_later by blast
next
  case (app_wait t deadline now eo)
  show ?case
  proof (cases "bodyComplete s")
    case True
    with app_wait(1) obtain x where "bodyResult b s deadline now = (x, s', b')"
      by (auto simp: waitBody_begin_def split: prod.splits)
    with True app_wait result_later waitBody_begin_ok show ?thesis by blast
  next
    case False
    with app_wait waitBody_begin_ok [of b M s] show ?thesis by (auto simp: waitBody_begin_def stream_later_def)
  qed
next
  case (app_resume t te deadline now e)
  have "stream_inv s" using app_resume(2) by (simp add: stream_ok_def)
  from waitBody_resume_split [OF this app_resume(1)] obtain s1 b1 s2 e1 r0
    where 1: "(s1, b1) = (s, b) \<or> stream_fail b s e1 now = (r0, s1, b1)" "bodyComplete s1"
      and 2: "bodyResult b1 s1 deadline now = (e, s2, b')"
      and 3: "s' = s2\<lparr>bodyWaiters := filter (\<lambda>w. fst w \<noteq> t) (bodyWaiters s2)\<rparr>" .
  have "stream_later s s1" using 1 fail_later by auto
  then have "stream_later s s2" using result_later [OF 2 1(2)] stream_later_trans by blast
  then have "stream_later s s'" by (simp add: 3 stream_later_def)
  with waitBody_resume_ok(1) [OF app_resume(2,1)] show ?case by simp
next
  case (app_reserve n r)
  then show ?case using reserveSend_ok
    by (auto simp: reserveSend_def stream_later_def split: if_splits prod.splits)
next
  case (app_fail e0 now e)
  then show ?case using stream_fail_ok fail_later by blast
qed

section \<open>Accounting over the heap of streams\<close>

definition heap_leases :: "(nat \<Rightarrow> Http2Stream option) \<Rightarrow> Lease multiset" where
  "heap_leases h = (\<Sum>a\<in>dom h. stream_leases (the (h a)))"

definition heap_ok :: "Lease multiset \<Rightarrow> 'k RxWorld \<Rightarrow> bool" where
  "heap_ok M w \<longleftrightarrow> finite (dom (w_heap w)) \<and> budgets_ok (w_budgets w) (heap_leases (w_heap w) + M)
     \<and> (\<forall>a s. w_heap w a = Some s \<longrightarrow> stream_inv s)"

definition rest_leases :: "(nat \<Rightarrow> Http2Stream option) \<Rightarrow> nat \<Rightarrow> Lease multiset" where
  "rest_leases h a = (\<Sum>x\<in>dom h - {a}. stream_leases (the (h x)))"

lemma heap_leases_split:
  "finite (dom h) \<Longrightarrow> h a = Some s \<Longrightarrow> heap_leases h = stream_leases s + rest_leases h a"
  unfolding heap_leases_def rest_leases_def by (subst sum.remove [of _ a]) auto

lemma heap_leases_upd:
  "finite (dom h) \<Longrightarrow> heap_leases (h(a \<mapsto> s)) = stream_leases s + rest_leases h a"
proof -
  assume fin: "finite (dom h)"
  have "heap_leases (h(a \<mapsto> s)) = stream_leases s + (\<Sum>x\<in>dom h - {a}. stream_leases (the ((h(a \<mapsto> s)) x)))"
    unfolding heap_leases_def using fin
    by (simp add: sum.insert_remove)
  also have "(\<Sum>x\<in>dom h - {a}. stream_leases (the ((h(a \<mapsto> s)) x))) = rest_leases h a"
    unfolding rest_leases_def by (rule sum.cong) auto
  finally show ?thesis .
qed

lemma heap_ok_stream:
  "heap_ok M w \<Longrightarrow> w_heap w a = Some s \<Longrightarrow> stream_ok (w_budgets w) (rest_leases (w_heap w) a + M) s"
  using heap_leases_split [of "w_heap w" a s] by (auto simp: heap_ok_def stream_ok_def add.assoc)

lemma heap_ok_upd:
  assumes "heap_ok M w" and "stream_ok b' (rest_leases (w_heap w) a + M) s'"
  shows "heap_ok M (w\<lparr>w_heap := (w_heap w)(a \<mapsto> s'), w_budgets := b'\<rparr>)"
  using assms by (auto simp: heap_ok_def stream_ok_def heap_leases_upd add.assoc)

lemma heap_ok_cong [simp]:
  "heap_ok M (w\<lparr>rx_streams := t\<rparr>) = heap_ok M w"
  "heap_ok M (w\<lparr>connectionError := e\<rparr>) = heap_ok M w"
  "heap_ok M (w\<lparr>lastServerStreamId := i\<rparr>) = heap_ok M w"
  "heap_ok M (w\<lparr>w_codec := k\<rparr>) = heap_ok M w"
  by (simp_all add: heap_ok_def)

text \<open>
  The contract between the streams and their owner: an operation keeps \<open>stream_ok\<close> whatever else
  is charged to the budgets. The owner's side is proved once for every such operation.
\<close>

locale stream_operation =
  fixes f :: "budgets \<Rightarrow> Http2Stream \<Rightarrow> 'r \<times> Http2Stream \<times> budgets"
  assumes keeps: "stream_ok b M s \<Longrightarrow> f b s = (r, s', b') \<Longrightarrow> stream_ok b' M s'"
begin

lemma do_heap:
  assumes "heap_ok M w"
  shows "heap_ok M (snd (stream_do f r0 a w))"
proof (cases "w_heap w a")
  case None
  with assms show ?thesis by (simp add: stream_do_def)
next
  case (Some s)
  obtain r s' b' where r: "f (w_budgets w) s = (r, s', b')" by (cases "f (w_budgets w) s") auto
  from keeps [OF heap_ok_stream [OF assms Some] r] show ?thesis
    using heap_ok_upd [OF assms] by (simp add: stream_do_def Some r)
qed

lemma do_frame:
  "rx_streams (snd (stream_do f r0 a w)) = rx_streams w"
  "connectionError (snd (stream_do f r0 a w)) = connectionError w"
  "lastServerStreamId (snd (stream_do f r0 a w)) = lastServerStreamId w"
  "w_codec (snd (stream_do f r0 a w)) = w_codec w"
  "x \<noteq> a \<Longrightarrow> w_heap (snd (stream_do f r0 a w)) x = w_heap w x"
  by (auto simp: stream_do_def split: option.splits prod.splits)

end

interpretation fail_op: stream_operation "\<lambda>b s. stream_fail b s e now" for e now
  by unfold_locales (rule stream_fail_ok)

interpretation reset_op: stream_operation "\<lambda>b s. stream_reset b s code now" for code now
  by unfold_locales (auto simp: stream_reset_def intro: stream_fail_ok)

interpretation close_op: stream_operation "\<lambda>b s. ((), closeProtocol b s now)" for now
  by unfold_locales (auto intro: closeProtocol_ok)

interpretation append_op: stream_operation "\<lambda>b s. appendBody b s data now memory" for data now memory
  by unfold_locales (rule appendBody_ok)

interpretation complete_op: stream_operation "\<lambda>b s. completeBody b s now" for now
  by unfold_locales (rule completeBody_ok)

interpretation initial_op: stream_operation "\<lambda>b s. ((), s\<lparr>initialHeaders := h\<rparr>, b)" for h
  by unfold_locales (auto simp: stream_ok_def stream_inv_def)

interpretation trailers_op: stream_operation "\<lambda>b s. ((), s\<lparr>trailers := h\<rparr>, b)" for h
  by unfold_locales (auto simp: stream_ok_def stream_inv_def)

lemma failStream_heap [simp]: "heap_ok M w \<Longrightarrow> heap_ok M (failStream e now a w)"
  unfolding failStream_def by (rule fail_op.do_heap)

lemma failStream_frame [simp]:
  "rx_streams (failStream e now a w) = rx_streams w"
  "connectionError (failStream e now a w) = connectionError w"
  "lastServerStreamId (failStream e now a w) = lastServerStreamId w"
  "w_codec (failStream e now a w) = w_codec w"
  "x \<noteq> a \<Longrightarrow> w_heap (failStream e now a w) x = w_heap w x"
  unfolding failStream_def by (rule fail_op.do_frame; assumption?)+

lemma reject_heap: "heap_ok M w \<Longrightarrow> reject now i e w = (c, w') \<Longrightarrow> heap_ok M w'"
  by (auto simp: reject_def split: option.splits)

lemma fold_fail_heap:
  "heap_ok M w \<Longrightarrow> heap_ok M (fold (\<lambda>(_, en). failStream e now (ent_stream en)) t w)"
  by (induction t arbitrary: w) auto

lemma rx_fail_heap [simp]: "heap_ok M w \<Longrightarrow> heap_ok M (rx_fail now e w)"
  by (auto simp: rx_fail_def Let_def intro: fold_fail_heap)

lemma checkOperation_heap: "heap_ok M w \<Longrightarrow> checkOperation now e w = (r, w') \<Longrightarrow> heap_ok M w'"
  by (auto simp: checkOperation_def Let_def split: if_splits)

lemma heap_ok_create:
  assumes "heap_ok M w" and "w_heap w a = None" and "stream_create (w_budgets w) cfg h = Inr (Some s, b')"
  shows "heap_ok M (w\<lparr>w_budgets := b', w_heap := (w_heap w)(a \<mapsto> s)\<rparr>)"
proof -
  from assms(1,2) have "budgets_ok (w_budgets w) (rest_leases (w_heap w) a + M)" and fin: "finite (dom (w_heap w))"
    by (simp_all add: heap_ok_def heap_leases_def rest_leases_def domIff)
  from stream_create_ok(1) [OF this(1) assms(3)] fin assms(1) show ?thesis
    by (auto simp: heap_ok_def stream_ok_def heap_leases_upd add.assoc)
qed

lemma stream_create_refused:
  assumes ok: "budgets_ok b M" and cr: "stream_create b cfg h = Inr (None, b')"
  shows "budgets_ok b' M"
proof -
  obtain p b1 where p: "tryAcquireProtocolStream b h (cfg_peerLimit cfg) = (p, b1)" by force
  obtain a b2 where a: "tryAcquireApplicationTask b1 h = (a, b2)" by force
  note okp = tryAcquireProtocolStream_ok [OF ok p]
  note oka = tryAcquireApplicationTask_ok [OF okp a]
  have idle: "lease_state l = None \<and> lease_amount l = 0" if "budgets_ok c (add_mset l N)" "\<not> lease_held l" for c l N
    using budgets_okD(3) [OF that(1), of l] that(2) by (auto simp: lease_held_def lease_ok_def)
  show ?thesis
  proof (cases "lease_held p")
    case False
    then show ?thesis using cr p idle [OF okp] okp by (auto simp: stream_create_def split: if_splits)
  next
    case held: True
    have na: "\<not> lease_held a"
      using cr p a held by (auto simp: stream_create_def split: if_splits sum.splits prod.splits)
    obtain p' b3 where r: "lease_reset b2 p = (p', b3)" by force
    have "budgets_ok b2 (add_mset p M)" using oka idle [OF oka na] by simp
    from ledger.rst_ok [OF this r] have "budgets_ok b3 M" by (auto simp: lease_held_def)
    then show ?thesis using cr p a held na r by (auto simp: stream_create_def split: if_splits)
  qed
qed

text \<open>A stream nobody refers to any more is destroyed and gives its leases back.\<close>

lemma heap_ok_destroy:
  assumes "heap_ok M w" and "w_heap w a = Some s"
  shows "heap_ok M (w\<lparr>w_heap := (w_heap w)(a := None), w_budgets := stream_destroy (w_budgets w) s\<rparr>)"
proof -
  have "heap_leases ((w_heap w)(a := None)) = rest_leases (w_heap w) a"
    unfolding heap_leases_def rest_leases_def by (rule sum.cong) (auto simp: dom_def)
  with stream_destroy_ok [OF heap_ok_stream [OF assms]] assms(1) show ?thesis
    by (auto simp: heap_ok_def split: if_splits)
qed

section \<open>Invariant of a server's table\<close>

definition addresses :: "(int \<times> Entry) list \<Rightarrow> nat list" where
  "addresses t = map (\<lambda>p. ent_stream (snd p)) t"

text \<open>
  A message that counts as received was complete and has the declared length, as long as its
  application has not returned (afterwards the session discards the rest of the request and ends it
  without these checks, see \<open>rx_discard_end\<close> in theory \<open>H2_Receive_Inv\<close>).
\<close>

definition message_ok :: "Http2Stream \<Rightarrow> bool" where
  "message_ok s \<longleftrightarrow>
     incomingKind s = hRequest
   \<and> (bodyComplete s \<and> \<not> bodyFailed s \<and> \<not> applicationFinished s \<longrightarrow>
        headers_sealed (initialHeaders s)
      \<and> (\<forall>n. headers_contentLength (initialHeaders s) = Some n \<longrightarrow> length (stored_body s) = n))"

definition entry_ok :: "Entry \<Rightarrow> Http2Stream \<Rightarrow> bool" where
  "entry_ok en s \<longleftrightarrow>
     \<not> bodyForbidden en
   \<and> (headers_sealed (initialHeaders s) \<longrightarrow> expectedLength en = headers_contentLength (initialHeaders s))
   \<and> (\<not> headers_sealed (initialHeaders s) \<longrightarrow> expectedLength en = None \<and> stored_body s = [])
   \<and> (pendingHeaders en \<noteq> None \<and> pendingKind en \<noteq> hTrailers \<longrightarrow> \<not> headers_sealed (initialHeaders s))
   \<and> (\<forall>n. expectedLength en = Some n \<longrightarrow> length (stored_body s) \<le> n)"

text \<open>
  \<open>table_ok A w\<close>: the keys and the addresses of the table are distinct, each entry points to the live
  stream of its odd, positive id, no id is above the last one admitted, a failed connection has an
  empty table, and every open stream is in the table or in \<open>A\<close>.
\<close>

definition entry_points :: "'k RxWorld \<Rightarrow> int \<Rightarrow> Entry \<Rightarrow> bool" where
  "entry_points w i en \<longleftrightarrow>
     (\<exists>s. w_heap w (ent_stream en) = Some s \<and> stream_id s = i \<and> entry_ok en s)
   \<and> 0 < i \<and> odd i \<and> i \<le> lastServerStreamId w"

definition table_ok :: "nat set \<Rightarrow> 'k RxWorld \<Rightarrow> bool" where
  "table_ok A w \<longleftrightarrow>
     distinct (map fst (rx_streams w)) \<and> distinct (addresses (rx_streams w))
   \<and> (\<forall>(i, en)\<in>set (rx_streams w). entry_points w i en)
   \<and> (is_error (connectionError w) \<longrightarrow> rx_streams w = [])
   \<and> (\<forall>a s. w_heap w a = Some s \<longrightarrow> message_ok s
        \<and> (lease_held (protocol s) \<longrightarrow> a \<in> set (addresses (rx_streams w)) \<union> A))
   \<and> 0 \<le> lastServerStreamId w"

lemma table_okD:
  assumes "table_ok A w"
  shows "distinct (map fst (rx_streams w))" and "distinct (addresses (rx_streams w))"
    and "(i, en) \<in> set (rx_streams w) \<Longrightarrow> entry_points w i en"
    and "is_error (connectionError w) \<Longrightarrow> rx_streams w = []"
    and "w_heap w a = Some s \<Longrightarrow> message_ok s"
    and "w_heap w a = Some s \<Longrightarrow> lease_held (protocol s) \<Longrightarrow> a \<in> set (addresses (rx_streams w)) \<union> A"
    and "0 \<le> lastServerStreamId w"
  using assms unfolding table_ok_def by blast+

lemma table_lookup:
  assumes "table_ok A w" and "map_of (rx_streams w) i = Some en"
  obtains s where "w_heap w (ent_stream en) = Some s" "stream_id s = i" "entry_ok en s" "(i, en) \<in> set (rx_streams w)"
  using assms map_of_SomeD [OF assms(2)] table_okD(3) [OF assms(1)] unfolding entry_points_def by blast

lemma message_ok_later: "message_ok s \<Longrightarrow> stream_later s s' \<Longrightarrow> message_ok s'"
  by (auto simp: message_ok_def stream_later_def)

lemma entry_ok_later: "entry_ok en s \<Longrightarrow> stream_later s s' \<Longrightarrow> entry_ok en s'"
  by (auto simp: entry_ok_def stream_later_def)

text \<open>A stream is changed in place.\<close>

lemma table_ok_heap:
  assumes ok: "table_ok A w" and s: "w_heap w a = Some s" and "stream_id s' = stream_id s" and "message_ok s'"
    and "lease_held (protocol s') \<Longrightarrow> lease_held (protocol s)" and "\<And>en. entry_ok en s \<Longrightarrow> entry_ok en s'"
  shows "table_ok A (w\<lparr>w_heap := (w_heap w)(a \<mapsto> s'), w_budgets := b'\<rparr>)"
proof -
  have "entry_points (w\<lparr>w_heap := (w_heap w)(a \<mapsto> s'), w_budgets := b'\<rparr>) i en" if "entry_points w i en" for i en
    using that s assms(3,6) unfolding entry_points_def by auto
  then have "\<forall>(i, en)\<in>set (rx_streams w). entry_points (w\<lparr>w_heap := (w_heap w)(a \<mapsto> s'), w_budgets := b'\<rparr>) i en"
    using table_okD(3) [OF ok] by blast
  with assms(1,4,5) table_okD(6) [OF ok s] show ?thesis unfolding table_ok_def by auto
qed

lemma table_ok_later:
  assumes "table_ok A w" and "w_heap w a = Some s" and "stream_later s s'"
  shows "table_ok A (w\<lparr>w_heap := (w_heap w)(a \<mapsto> s'), w_budgets := b'\<rparr>)"
  by (rule table_ok_heap [OF assms(1,2)])
    (use message_ok_later [OF table_okD(5) [OF assms(1,2)] assms(3)] entry_ok_later assms(3) in
      \<open>auto simp: stream_later_def\<close>)

lemma table_ok_closed:
  assumes "table_ok (insert a A) w" and "\<And>s. w_heap w a = Some s \<Longrightarrow> \<not> lease_held (protocol s)"
  shows "table_ok A w"
  using assms unfolding table_ok_def by auto

lemma table_ok_empty:
  "table_ok A w \<Longrightarrow> table_ok (set (addresses (rx_streams w)) \<union> A) (w\<lparr>connectionError := e, rx_streams := []\<rparr>)"
  unfolding table_ok_def by (auto simp: addresses_def)

lemma set_erase: "set (table_erase i t) = {p \<in> set t. fst p \<noteq> i}"
  by (simp add: table_erase_def)

lemma addresses_erase:
  "distinct (map fst t) \<Longrightarrow> map_of t i = Some en \<Longrightarrow>
   set (addresses t) = insert (ent_stream en) (set (addresses (table_erase i t)))"
proof -
  assume d: "distinct (map fst t)" and m: "map_of t i = Some en"
  have "p = (i, en)" if "p \<in> set t" "fst p = i" for p
    using map_of_is_SomeI [OF d, of i "snd p"] that m by (cases p) auto
  then have "set t = insert (i, en) (set (table_erase i t))"
    using map_of_SomeD [OF m] unfolding set_erase by blast
  then have "(\<lambda>p. ent_stream (snd p)) ` set t = (\<lambda>p. ent_stream (snd p)) ` insert (i, en) (set (table_erase i t))"
    by (rule arg_cong)
  then show ?thesis by (simp add: addresses_def)
qed

lemma distinct_map_filter': "distinct (map f xs) \<Longrightarrow> distinct (map f (filter P xs))"
  by (induction xs) auto

lemma table_ok_erase:
  assumes "table_ok A w" and "map_of (rx_streams w) i = Some en"
  shows "table_ok (insert (ent_stream en) A) (w\<lparr>rx_streams := table_erase i (rx_streams w)\<rparr>)"
proof -
  have "entry_points (w\<lparr>rx_streams := t\<rparr>) j e = entry_points w j e" for j e t
    by (simp add: entry_points_def)
  then show ?thesis
    using assms(1) addresses_erase [OF table_okD(1) [OF assms(1)] assms(2)]
    unfolding table_ok_def set_erase
    by (auto simp: addresses_def table_erase_def distinct_map_filter')
qed


lemma table_set_keys [simp]: "map fst (table_set i en t) = map fst t"
  by (induction t) (auto simp: table_set_def)

lemma addresses_table_set:
  "distinct (map fst t) \<Longrightarrow> map_of t i = Some en \<Longrightarrow> ent_stream en' = ent_stream en \<Longrightarrow>
   addresses (table_set i en' t) = addresses t"
proof -
  assume d: "distinct (map fst t)" and m: "map_of t i = Some en" and e: "ent_stream en' = ent_stream en"
  have "snd p = en" if "p \<in> set t" "fst p = i" for p
    using map_of_is_SomeI [OF d, of i "snd p"] that m by (cases p) auto
  with e show ?thesis by (auto simp: addresses_def table_set_def)
qed

lemma set_table_set:
  "p \<in> set (table_set i en t) \<Longrightarrow> p = (i, en) \<or> p \<in> set t \<and> fst p \<noteq> i"
  by (auto simp: table_set_def)

lemma map_of_table_set:
  "map_of (table_set i en t) j = (if j = i then map_option (\<lambda>_. en) (map_of t i) else map_of t j)"
  by (induction t) (auto simp: table_set_def)

lemma table_ok_set:
  assumes ok: "table_ok A w" and m: "map_of (rx_streams w) i = Some en" and a: "ent_stream en' = ent_stream en"
    and e: "\<And>s. w_heap w (ent_stream en) = Some s \<Longrightarrow> entry_ok en s \<Longrightarrow> entry_ok en' s"
  shows "table_ok A (w\<lparr>rx_streams := table_set i en' (rx_streams w)\<rparr>)"
proof -
  have pt: "entry_points (w\<lparr>rx_streams := t\<rparr>) j x = entry_points w j x" for j x t
    by (simp add: entry_points_def)
  have "entry_points w i en" using table_okD(3) [OF ok map_of_SomeD [OF m]] .
  then have "entry_points w i en'" using e a by (auto simp: entry_points_def)
  then have p: "\<forall>(j, x)\<in>set (table_set i en' (rx_streams w)).
      entry_points (w\<lparr>rx_streams := table_set i en' (rx_streams w)\<rparr>) j x"
    unfolding pt using table_okD(3) [OF ok] set_table_set by fastforce
  have ne: "rx_streams w = [] \<longrightarrow> table_set i en' (rx_streams w) = []" by (simp add: table_set_def)
  show ?thesis
    using ok p ne addresses_table_set [OF table_okD(1) [OF ok] m a]
    unfolding table_ok_def by simp
qed

section \<open>Failing streams\<close>

lemma failStream_closed:
  "w_heap (failStream e now a w) a = Some s \<Longrightarrow> \<not> lease_held (protocol s)"
proof -
  assume s: "w_heap (failStream e now a w) a = Some s"
  then obtain s0 where s0: "w_heap w a = Some s0"
    by (auto simp: failStream_def stream_do_def split: option.splits)
  obtain r s' b' where f: "stream_fail (w_budgets w) s0 e now = (r, s', b')"
    by (cases "stream_fail (w_budgets w) s0 e now") auto
  with s s0 have "s = s'" by (simp add: failStream_def stream_do_def)
  moreover have "\<not> lease_held (protocol s')"
  proof (cases "lease_held (protocol s0)")
    case False
    with f show ?thesis by (simp add: stream_fail_closed)
  next
    case True
    obtain p b1 where p: "lease_reset (w_budgets w) (protocol s0) = (p, b1)" by force
    then have "\<not> lease_held p"
      by (auto simp: lease_reset_def lease_held_def Let_def split: option.splits)
    with f True p show ?thesis
      by (auto simp: stream_fail_def completeBodyOnce_def finishApplication_def Let_def split: prod.splits if_splits)
  qed
  ultimately show ?thesis by simp
qed

lemma failStream_table:
  assumes "table_ok A w"
  shows "table_ok A (failStream e now a w)"
proof (cases "w_heap w a")
  case None
  with assms show ?thesis by (simp add: failStream_def stream_do_def)
next
  case (Some s)
  obtain r s' b' where f: "stream_fail (w_budgets w) s e now = (r, s', b')"
    by (cases "stream_fail (w_budgets w) s e now") auto
  from table_ok_later [OF assms Some fail_later [OF f]] show ?thesis
    by (simp add: failStream_def stream_do_def Some f)
qed

lemma failStream_close_table:
  "table_ok (insert a A) w \<Longrightarrow> table_ok A (failStream e now a w)"
  using table_ok_closed [of a A "failStream e now a w"] failStream_table failStream_closed by blast

lemma reject_table:
  assumes "table_ok A w" and "reject now i e w = (c, w')"
  shows "table_ok A w'"
proof (cases "map_of (rx_streams w) i")
  case None
  with assms show ?thesis by (simp add: reject_def)
next
  case (Some en)
  from failStream_close_table [OF table_ok_erase [OF assms(1) Some]] assms(2) show ?thesis
    by (auto simp: reject_def Some)
qed

lemma fold_fail_table:
  "table_ok (set (addresses t) \<union> A) w \<Longrightarrow>
   table_ok A (fold (\<lambda>(_, en). failStream e now (ent_stream en)) t w)"
proof (induction t arbitrary: w)
  case Nil
  then show ?case by (simp add: addresses_def)
next
  case (Cons p t)
  then have "table_ok (insert (ent_stream (snd p)) (set (addresses t) \<union> A)) w" by (simp add: addresses_def)
  from Cons.IH [OF failStream_close_table [OF this]] show ?case by (simp add: case_prod_beta)
qed

lemma rx_fail_table:
  assumes "table_ok A w"
  shows "table_ok A (rx_fail now e w)"
  using assms fold_fail_table [OF table_ok_empty [OF assms]]
  by (simp add: rx_fail_def Let_def)

lemma checkOperation_table: "table_ok A w \<Longrightarrow> checkOperation now e w = (r, w') \<Longrightarrow> table_ok A w'"
  by (auto simp: checkOperation_def Let_def intro: rx_fail_table split: if_splits)

lemma table_ok_codec [simp]: "table_ok A (w\<lparr>w_codec := k\<rparr>) = table_ok A w"
  by (simp add: table_ok_def entry_points_def)

lemma table_ok_both:
  assumes ok: "table_ok A w" and m: "map_of (rx_streams w) i = Some en" and a: "ent_stream en' = ent_stream en"
    and s: "w_heap w (ent_stream en) = Some s"
    and sid: "stream_id s' = stream_id s" and msg: "message_ok s'"
    and held: "lease_held (protocol s') \<Longrightarrow> lease_held (protocol s)"
    and e: "entry_ok en s \<Longrightarrow> entry_ok en' s'"
  shows "table_ok A (w\<lparr>rx_streams := table_set i en' (rx_streams w),
    w_heap := (w_heap w)(ent_stream en \<mapsto> s'), w_budgets := b'\<rparr>)" (is "table_ok A ?w")
proof -
  have ien: "(i, en) \<in> set (rx_streams w)" by (rule map_of_SomeD [OF m])
  have pi: "entry_points w i en" using table_okD(3) [OF ok ien] .
  then have new: "entry_points ?w i en'" using e a s sid by (auto simp: entry_points_def)
  have old: "entry_points ?w j x" if jx: "(j, x) \<in> set (rx_streams w)" "j \<noteq> i" for j x
  proof -
    have inj: "inj_on (\<lambda>p. ent_stream (snd p)) (set (rx_streams w))"
      using table_okD(2) [OF ok] by (simp add: addresses_def distinct_map)
    have "ent_stream x \<noteq> ent_stream en" using inj_onD [OF inj _ jx(1) ien] jx(2) by auto
    then show ?thesis using table_okD(3) [OF ok jx(1)] by (simp add: entry_points_def)
  qed
  have "\<forall>(j, x)\<in>set (rx_streams ?w). entry_points ?w j x"
  proof (intro ballI, clarify)
    fix j x
    assume "(j, x) \<in> set (rx_streams ?w)"
    then have "(j, x) = (i, en') \<or> (j, x) \<in> set (rx_streams w) \<and> j \<noteq> i"
      using set_table_set [of "(j, x)" i en' "rx_streams w"] by auto
    then show "entry_points ?w j x" using new old by blast
  qed
  moreover have "addresses (rx_streams ?w) = addresses (rx_streams w)"
    using addresses_table_set [OF table_okD(1) [OF ok] m a] by simp
  moreover have "rx_streams w = [] \<longrightarrow> rx_streams ?w = []" by (simp add: table_set_def)
  moreover have "ent_stream en \<in> set (addresses (rx_streams w))" using ien by (force simp: addresses_def)
  ultimately show ?thesis using ok msg held s unfolding table_ok_def by auto
qed

lemma table_set_same:
  assumes "distinct (map fst t)" and "map_of t i = Some en"
  shows "table_set i en t = t"
proof -
  have "(if fst p = i then (i, en) else p) = p" if "p \<in> set t" for p
    using map_of_is_SomeI [OF assms(1), of i "snd p"] that assms(2) by (cases p) auto
  then show ?thesis unfolding table_set_def by (simp add: map_idI)
qed

lemma table_ok_stream:
  assumes ok: "table_ok A w" and m: "map_of (rx_streams w) i = Some en"
    and s: "w_heap w (ent_stream en) = Some s"
    and sid: "stream_id s' = stream_id s" and msg: "message_ok s'"
    and held: "lease_held (protocol s') \<Longrightarrow> lease_held (protocol s)"
    and e: "entry_ok en s \<Longrightarrow> entry_ok en s'"
  shows "table_ok A (w\<lparr>w_heap := (w_heap w)(ent_stream en \<mapsto> s'), w_budgets := b'\<rparr>)"
  using table_ok_both [OF ok m refl s sid msg held e, of b']
  by (simp add: table_set_same [OF table_okD(1) [OF ok] m])

section \<open>Every operation keeps the invariant\<close>

definition rx_ok :: "'k RxEnv \<Rightarrow> Lease multiset \<Rightarrow> 'k RxWorld \<Rightarrow> bool" where
  "rx_ok env M w \<longleftrightarrow> heap_ok M w \<and> (e_role env = hServer \<longrightarrow> table_ok {} w)"

lemma reject_ok: "rx_ok env M w \<Longrightarrow> reject now i e w = (c, w') \<Longrightarrow> rx_ok env M w'"
  using reject_heap reject_table by (auto simp: rx_ok_def)

lemma rx_fail_ok: "rx_ok env M w \<Longrightarrow> rx_ok env M (rx_fail now e w)"
  using rx_fail_table by (auto simp: rx_ok_def)

lemma checkOperation_ok: "rx_ok env M w \<Longrightarrow> checkOperation now e w = (r, w') \<Longrightarrow> rx_ok env M w'"
  using checkOperation_heap checkOperation_table by (auto simp: rx_ok_def)

lemma rx_ok_codec [simp]: "rx_ok env M (w\<lparr>w_codec := k\<rparr>) = rx_ok env M w"
  by (simp add: rx_ok_def)

lemma rx_ok_set:
  assumes "rx_ok env M w" and "map_of (rx_streams w) i = Some en" and "ent_stream en' = ent_stream en"
    and "\<And>s. e_role env = hServer \<Longrightarrow> w_heap w (ent_stream en) = Some s \<Longrightarrow> entry_ok en s \<Longrightarrow> entry_ok en' s"
  shows "rx_ok env M (w\<lparr>rx_streams := table_set i en' (rx_streams w)\<rparr>)"
  using assms table_ok_set [of "{}" w i en en'] by (auto simp: rx_ok_def)

text \<open>An entry is removed and its stream closed.\<close>

lemma erase_close_ok:
  fixes f :: "budgets \<Rightarrow> Http2Stream \<Rightarrow> 'r \<times> Http2Stream \<times> budgets" and w :: "'k RxWorld"
  assumes ok: "rx_ok env M w" and m: "map_of (rx_streams w) i = Some en"
    and h: "\<And>w' :: 'k RxWorld. heap_ok M w' \<Longrightarrow> heap_ok M (snd (stream_do f r0 (ent_stream en) w'))"
    and l: "\<And>b s r s' b'. f b s = (r, s', b') \<Longrightarrow> stream_later s s' \<and> \<not> lease_held (protocol s')"
  shows "rx_ok env M (snd (stream_do f r0 (ent_stream en) (w\<lparr>rx_streams := table_erase i (rx_streams w)\<rparr>)))"
proof -
  let ?w1 = "w\<lparr>rx_streams := table_erase i (rx_streams w)\<rparr>"
  let ?w2 = "snd (stream_do f r0 (ent_stream en) ?w1)"
  have "table_ok {} ?w2" if "e_role env = hServer"
  proof -
    have tok: "table_ok {} w" using ok that by (simp add: rx_ok_def)
    then obtain s where s: "w_heap w (ent_stream en) = Some s" using table_lookup m by blast
    obtain r s' b' where f: "f (w_budgets w) s = (r, s', b')" by (cases "f (w_budgets w) s") auto
    have w2: "?w2 = ?w1\<lparr>w_heap := (w_heap ?w1)(ent_stream en \<mapsto> s'), w_budgets := b'\<rparr>"
      by (simp add: stream_do_def s f)
    have "table_ok {ent_stream en} ?w2" unfolding w2
      by (rule table_ok_later [OF table_ok_erase [OF tok m]]) (use s l f in auto)
    then show ?thesis
      by (rule table_ok_closed) (use l f in \<open>auto simp: w2\<close>)
  qed
  moreover have "heap_ok M ?w2" by (rule h) (use ok in \<open>simp add: rx_ok_def\<close>)
  ultimately show ?thesis by (simp add: rx_ok_def)
qed

lemma fail_closes:
  "stream_fail b s e now = (r, s', b') \<Longrightarrow> stream_later s s' \<and> \<not> lease_held (protocol s')"
proof -
  assume f: "stream_fail b s e now = (r, s', b')"
  let ?w = "\<lparr>w_budgets = b, w_heap = [0 \<mapsto> s], w_codec = (), rx_streams = [], connectionError = ok_error,
     lastServerStreamId = 0\<rparr>"
  have "w_heap (failStream e now 0 ?w) 0 = Some s'" by (simp add: failStream_def stream_do_def f)
  from failStream_closed [OF this] fail_later [OF f] show ?thesis by simp
qed

lemma close_closes:
  assumes "closeProtocol b s now = (s', b')"
  shows "\<not> lease_held (protocol s')"
proof (cases "bodyComplete s")
  case False
  let ?e = "h2_error hHttp2StreamError ''closed before the body was complete'' h2StreamClosed (stream_id s)"
  obtain r s1 b1 where f: "stream_fail b s ?e now = (r, s1, b1)" by (cases "stream_fail b s ?e now") auto
  with assms False fail_closes [OF f] show ?thesis by (auto simp: closeProtocol_def)
next
  case True
  obtain p b1 where p: "lease_reset b (protocol s) = (p, b1)" by force
  then have "\<not> lease_held p" by (auto simp: lease_reset_def lease_held_def Let_def split: option.splits)
  with assms True p show ?thesis
    by (auto simp: closeProtocol_def finishApplication_def Let_def split: if_splits prod.splits)
qed

lemma onStreamClose_ok:
  assumes "rx_ok env M w"
  shows "rx_ok env M (onStreamClose now i code w)"
proof (cases "map_of (rx_streams w) i")
  case None
  with assms show ?thesis by (simp add: onStreamClose_def)
next
  case (Some en)
  have 1: "rx_ok env M (snd (stream_do (\<lambda>b s. ((), closeProtocol b s now)) () (ent_stream en)
      (w\<lparr>rx_streams := table_erase i (rx_streams w)\<rparr>)))"
    by (rule erase_close_ok [OF assms Some close_op.do_heap])
      (use close_later close_closes in auto)
  have 2: "rx_ok env M (snd (stream_do (\<lambda>b s. stream_reset b s code now) ok_error (ent_stream en)
      (w\<lparr>rx_streams := table_erase i (rx_streams w)\<rparr>)))"
    by (rule erase_close_ok [OF assms Some reset_op.do_heap])
      (use fail_closes in \<open>auto simp: stream_reset_def\<close>)
  show ?thesis using 1 2 by (simp add: onStreamClose_def Some Let_def)
qed

lemma rx_cancel_ok:
  assumes "rx_ok env M w" and "rx_cancel env now i code w = (r, w')"
  shows "rx_ok env M w'"
proof (cases "map_of (rx_streams w) i")
  case None
  with assms show ?thesis by (simp add: rx_cancel_def rx_find_def)
next
  case (Some en)
  let ?w1 = "snd (stream_do (\<lambda>b s. stream_reset b s code now) ok_error (ent_stream en)
      (w\<lparr>rx_streams := table_erase i (rx_streams w)\<rparr>))"
  have 2: "rx_ok env M ?w1"
    by (rule erase_close_ok [OF assms(1) Some reset_op.do_heap])
      (use fail_closes in \<open>auto simp: stream_reset_def\<close>)
  obtain ce k' where k: "e_reset env (w_codec ?w1) i code = (ce, k')" by force
  have "checkOperation now ce (?w1\<lparr>w_codec := k'\<rparr>) = (r, w')"
    using assms(2) k by (simp add: rx_cancel_def rx_find_def Some Let_def)
  from checkOperation_ok [OF _ this, of env M] 2 show ?thesis by simp
qed

lemma onError_ok: "rx_ok env M w \<Longrightarrow> rx_ok env M (onError now e w)"
  using reject_ok [of env M w now] rx_fail_ok [of env M w now]
  by (auto simp: onError_def split: option.splits) (metis prod.collapse)

lemma app_ok:
  assumes "rx_ok env M w" and "w_heap w a = Some s" and "app_step (w_budgets w, s) (b', s')"
  shows "rx_ok env M (w\<lparr>w_heap := (w_heap w)(a \<mapsto> s'), w_budgets := b'\<rparr>)"
proof -
  have "heap_ok M w" using assms(1) by (simp add: rx_ok_def)
  from app_step_ok [OF assms(3) heap_ok_stream [OF this assms(2)]] heap_ok_upd [OF this] table_ok_later
    assms(1,2)
  show ?thesis by (auto simp: rx_ok_def)
qed

section \<open>Callbacks\<close>

text \<open>
  What a callback of the owner may do, synchronously and as often as it likes: operations of the
  application on any stream, cancelling a stream, failing the connection. (The events of a request
  whose application has returned do not reach the adapter; they are steps of \<open>rx_step\<close>.)
\<close>

inductive rx_quiet :: "'k RxEnv \<Rightarrow> 'k RxWorld \<Rightarrow> 'k RxWorld \<Rightarrow> bool" for env where
  quiet_refl: "rx_quiet env w w"
| quiet_app: "rx_quiet env w0 w \<Longrightarrow> w_heap w a = Some s \<Longrightarrow> app_step (w_budgets w, s) (b', s') \<Longrightarrow>
     rx_quiet env w0 (w\<lparr>w_heap := (w_heap w)(a \<mapsto> s'), w_budgets := b'\<rparr>)"
| quiet_cancel: "rx_quiet env w0 w \<Longrightarrow> rx_cancel env now i code w = (r, w') \<Longrightarrow> rx_quiet env w0 w'"
| quiet_fail: "rx_quiet env w0 w \<Longrightarrow> rx_quiet env w0 (rx_fail now e w)"

definition callbacks_ok :: "'k RxEnv \<Rightarrow> bool" where
  "callbacks_ok env \<longleftrightarrow>
     (\<forall>cb w a. e_headersReady env = Some cb \<longrightarrow> rx_quiet env w (snd (cb w a)))
   \<and> (\<forall>cb w a h. e_informational env = Some cb \<longrightarrow> rx_quiet env w (snd (cb w a h)))"

definition allocator_ok :: "'k RxEnv \<Rightarrow> bool" where
  "allocator_ok env \<longleftrightarrow> (\<forall>h. finite (dom h) \<longrightarrow> h (e_fresh env h) = None)"

lemma rx_quiet_ok: "rx_quiet env w w' \<Longrightarrow> rx_ok env M w \<Longrightarrow> rx_ok env M w'"
  by (induction rule: rx_quiet.induct) (auto intro: app_ok rx_cancel_ok rx_fail_ok)

end
