(* ===== verification/H2_Receive_Inv.thy ===== *)
theory H2_Receive_Inv
  imports H2_Receive
begin

text \<open>
  Every operation of the receive adapter keeps the invariant of theory \<open>H2_Receive\<close>, the histories of
  a connection, and the properties of the adapter.
\<close>

lemma stream_create_fields:
  assumes "stream_create b cfg h = Inr (Some s, b')"
  shows "stream_id s = cfg_streamId cfg" and "incomingKind s = cfg_incomingKind cfg"
    and "\<not> headers_sealed (initialHeaders s)" and "\<not> bodyComplete s" and "stored_body s = []"
proof -
  from assms obtain ih th p a r x where n: "new_storage (cfg_incomingKind cfg) (cfg_streamId cfg) (cfg_options cfg) = Inr ih"
    and s: "s = \<lparr>stream_id = cfg_streamId cfg, incomingKind = cfg_incomingKind cfg,
               initialHeaders = Some ih, trailers = Some th, protocol = p, application = a, receive = r, send = x,
               request_body = [], response_body = [], pendingBody = [],
               bodyWaiters = [], stream_error = ok_error, bodyCompletedAt = 0,
               bodyComplete = False, bodyFailed = False, bodyPublished = False,
               applicationStarted = False, applicationFinished = False\<rparr>"
    by (auto simp: stream_create_def split: if_splits sum.splits prod.splits)
  have "\<not> sealed ih" using n by (auto simp: new_storage_def split: if_splits)
  with s show "stream_id s = cfg_streamId cfg" "incomingKind s = cfg_incomingKind cfg"
    "\<not> headers_sealed (initialHeaders s)" "\<not> bodyComplete s" "stored_body s = []"
    by (simp_all add: headers_sealed_def stored_body_def)
qed

lemma beginHeaders_entry_ok:
  assumes ok: "rx_ok env M w" and m: "map_of (rx_streams w) i = Some en"
    and b: "beginHeaders_entry env now i en w = (r, w')"
  shows "rx_ok env M w'"
proof (cases "w_heap w (ent_stream en)")
  case None
  with ok b show ?thesis by (simp add: beginHeaders_entry_def)
next
  case (Some s)
  let ?k = "if headers_sealed (initialHeaders s) then hTrailers else if e_role env = hServer then hRequest else hResponse"
  have 1: "rx_ok env M (snd (reject now i e w))" for e
    using reject_ok [OF ok] by (metis prod.collapse)
  show ?thesis
  proof (cases "\<not> protocolOpen s \<or> pendingHeaders en \<noteq> None \<or> bodyComplete s \<or> headers_sealed (trailers s)")
    case True
    with 1 b Some show ?thesis by (auto simp: beginHeaders_entry_def reject_def split: if_splits)
  next
    case False
    have 2: "rx_ok env M (w\<lparr>rx_streams := table_set i (en\<lparr>pendingKind := ?k\<rparr>) (rx_streams w)\<rparr>)"
      by (rule rx_ok_set [OF ok m]) (use False in \<open>auto simp: entry_ok_def\<close>)
    have 3: "rx_ok env M (w\<lparr>rx_streams := table_set i (en\<lparr>pendingKind := ?k, pendingHeaders := Some h\<rparr>) (rx_streams w)\<rparr>)" for h
      by (rule rx_ok_set [OF ok m]) (use False Some in \<open>auto simp: entry_ok_def\<close>)
    from False b Some 2 3 show ?thesis
      by (auto simp: beginHeaders_entry_def Let_def split: sum.splits if_splits)
  qed
qed

lemma rx_ok_admit:
  assumes ok: "rx_ok env M w" and role: "e_role env = hServer" and e: "\<not> is_error (connectionError w)"
    and i: "lastServerStreamId w < i" "odd i" and m: "map_of (rx_streams w) i = None"
    and c: "stream_create (w_budgets w) cfg h = Inr (Some s, b')"
    and cfg: "cfg_streamId cfg = i" "cfg_incomingKind cfg = hRequest"
    and a: "w_heap w a = None"
  shows "rx_ok env M (w\<lparr>lastServerStreamId := i, w_budgets := b', w_heap := (w_heap w)(a \<mapsto> s),
    rx_streams := (i, new_entry a False) # rx_streams w\<rparr>)" (is "rx_ok env M ?w")
proof -
  have tok: "table_ok {} w" using ok role by (simp add: rx_ok_def)
  note f = stream_create_fields [OF c]
  have pos: "0 < i" using table_okD(7) [OF tok] i(1) by simp
  have new: "entry_points ?w i (new_entry a False)"
    using f cfg pos i(2) by (auto simp: entry_points_def new_entry_def entry_ok_def)
  have other: "entry_points ?w j x" if "(j, x) \<in> set (rx_streams w)" for j x
  proof -
    have p: "entry_points w j x" using table_okD(3) [OF tok that] .
    then have "ent_stream x \<noteq> a" using a by (auto simp: entry_points_def)
    with p i(1) show ?thesis by (auto simp: entry_points_def)
  qed
  have notin: "a \<notin> set (addresses (rx_streams w))"
    using table_okD(3) [OF tok] a by (fastforce simp: addresses_def entry_points_def)
  have "message_ok s" using f cfg by (simp add: message_ok_def)
  with tok new other notin e pos m have "table_ok {} ?w"
    unfolding table_ok_def by (auto simp: addresses_def new_entry_def map_of_eq_None_iff)
  moreover have "heap_ok M ?w"
    using heap_ok_create [OF _ a c, of M] ok by (simp add: rx_ok_def heap_ok_def)
  ultimately show ?thesis by (simp add: rx_ok_def)
qed

lemma onBeginHeaders_ok:
  assumes ok: "rx_ok env M w" and al: "allocator_ok env" and b: "onBeginHeaders env now i w = (r, w')"
  shows "rx_ok env M w'"
proof (cases "map_of (rx_streams w) i")
  case (Some en)
  with ok b beginHeaders_entry_ok [OF ok Some] show ?thesis
    by (auto simp: onBeginHeaders_def split: if_splits)
next
  case None
  let ?cfg = "\<lparr>cfg_streamId = i, cfg_incomingKind = hRequest, cfg_peerLimit = 4294967295,
                          cfg_options = e_options env\<rparr>"
  show ?thesis
  proof (cases "is_error (connectionError w) \<or> e_role env \<noteq> hServer \<or> i \<le> lastServerStreamId w \<or> i mod 2 = 0")
    case True
    with ok b None show ?thesis by (auto simp: onBeginHeaders_def split: if_splits)
  next
    case False
    have odd: "odd i" using False by presburger
    have heap: "heap_ok M w" and tok: "table_ok {} w" using ok False by (simp_all add: rx_ok_def)
    have last: "rx_ok env M (w\<lparr>lastServerStreamId := i\<rparr>)"
      using heap tok False unfolding rx_ok_def table_ok_def entry_points_def by fastforce
    let ?a = "e_fresh env (w_heap w)"
    have a: "w_heap w ?a = None" using al heap by (simp add: allocator_ok_def heap_ok_def)
    show ?thesis
    proof (cases "stream_create (w_budgets w) ?cfg (e_budget env)")
      case (Inl msg)
      with b None False last show ?thesis by (simp add: onBeginHeaders_def)
    next
      case (Inr res)
      obtain so b' where res: "res = (so, b')" by force
      show ?thesis
      proof (cases so)
        case None
        have "budgets_ok b' (heap_leases (w_heap w) + M)"
          using stream_create_refused [of "w_budgets w" "heap_leases (w_heap w) + M" ?cfg "e_budget env" b'] heap Inr res None
          by (simp add: heap_ok_def)
        then have "rx_ok env M (w\<lparr>lastServerStreamId := i, w_budgets := b'\<rparr>)"
          using last by (simp add: rx_ok_def heap_ok_def table_ok_def entry_points_def)
        with b \<open>map_of (rx_streams w) i = None\<close> False Inr res None show ?thesis
          by (simp add: onBeginHeaders_def)
      next
        case (Some s)
        let ?w1 = "w\<lparr>lastServerStreamId := i, w_budgets := b', w_heap := (w_heap w)(?a \<mapsto> s),
            rx_streams := (i, new_entry ?a False) # rx_streams w\<rparr>"
        have "rx_ok env M ?w1"
          by (rule rx_ok_admit [OF ok _ _ _ odd \<open>map_of _ i = None\<close> _ _ _ a, of ?cfg "e_budget env" s b'])
            (use False Inr res Some in auto)
        moreover have "beginHeaders_entry env now i (new_entry ?a False) ?w1 = (r, w')"
          using b \<open>map_of (rx_streams w) i = None\<close> False Inr res Some by (simp add: onBeginHeaders_def Let_def)
        ultimately show ?thesis using beginHeaders_entry_ok [of env M ?w1 i] by simp
      qed
    qed
  qed
qed

lemma onHeader_ok:
  assumes ok: "rx_ok env M w" and b: "onHeader env now i name val w = (c, w')"
  shows "rx_ok env M w'"
proof (cases "map_of (rx_streams w) i")
  case None
  with ok b show ?thesis by (simp add: onHeader_def)
next
  case (Some en)
  show ?thesis
  proof (cases "pendingHeaders en")
    case None
    with b Some reject_ok [OF ok] show ?thesis by (auto simp: onHeader_def)
  next
    case pend: (Some h)
    obtain e h' where h': "headers_append (e_v6 env) h name val = (e, h')" by force
    have "rx_ok env M (w\<lparr>rx_streams := table_set i (en\<lparr>pendingHeaders := Some h'\<rparr>) (rx_streams w)\<rparr>)"
      by (rule rx_ok_set [OF ok Some]) (use pend in \<open>auto simp: entry_ok_def\<close>)
    with b Some pend h' show ?thesis by (auto simp: onHeader_def Let_def dest: reject_ok split: if_splits)
  qed
qed

lemma seal_sealed: "headers_seal v6 h = (e, h') \<Longrightarrow> \<not> is_error e \<Longrightarrow> headers_sealed h'"
  by (auto simp: headers_seal_def headers_sealed_def hdr_seal_def Let_def
      split: option.splits prod.splits if_splits)

lemma rx_ok_stream_do:
  assumes ok: "rx_ok env M w" and m: "map_of (rx_streams w) i = Some en"
    and h: "heap_ok M (snd (stream_do f r0 (ent_stream en) w))"
    and l: "\<And>s r s' b'. e_role env = hServer \<Longrightarrow> w_heap w (ent_stream en) = Some s \<Longrightarrow> message_ok s \<Longrightarrow> entry_ok en s \<Longrightarrow>
       f (w_budgets w) s = (r, s', b') \<Longrightarrow>
       stream_id s' = stream_id s \<and> message_ok s' \<and> entry_ok en s' \<and> (lease_held (protocol s') \<longrightarrow> lease_held (protocol s))"
  shows "rx_ok env M (snd (stream_do f r0 (ent_stream en) w))"
proof -
  have "table_ok {} (snd (stream_do f r0 (ent_stream en) w))" if "e_role env = hServer"
  proof -
    have tok: "table_ok {} w" using ok that by (simp add: rx_ok_def)
    then obtain s where s: "w_heap w (ent_stream en) = Some s" "entry_ok en s" using table_lookup m by blast
    obtain r s' b' where f: "f (w_budgets w) s = (r, s', b')" by (cases "f (w_budgets w) s") auto
    from l [OF that s(1) table_okD(5) [OF tok s(1)] s(2) f] show ?thesis
      using table_ok_stream [OF tok m s(1), of s' b'] by (simp add: stream_do_def s f)
  qed
  with h show ?thesis by (simp add: rx_ok_def)
qed

lemma reject_pair:
  "(case reject now i e w of (c, w') \<Rightarrow> (Inr c, w')) = (Inr (rejectionCode e), snd (reject now i e w))"
  by (simp add: reject_def)

lemma finishInitial_ok:
  assumes ok: "rx_ok env M w" and m: "map_of (rx_streams w) (blk_streamId blk) = Some en"
    and cb: "callbacks_ok env" and p: "pendingHeaders en \<noteq> None" "pendingKind en \<noteq> hTrailers"
    and h: "headers_sealed h" and f: "finishInitial env now blk en h w = (r, w')"
  shows "rx_ok env M w'"
proof -
  let ?i = "blk_streamId blk" and ?a = "ent_stream en"
  define forbidden where "forbidden \<longleftrightarrow> e_role env = hClient \<and> (headResponse en \<or> blk_statusCode blk = 204 \<or> blk_statusCode blk = 304)"
  define en1 where "en1 = en\<lparr>bodyForbidden := forbidden\<rparr>"
  define w1 where "w1 = w\<lparr>rx_streams := table_set ?i en1 (rx_streams w)\<rparr>"
  define en2 where "en2 = en1\<lparr>expectedLength := (if forbidden then expectedLength en1 else headers_contentLength h), pendingHeaders := None\<rparr>"
  define w2 where "w2 = (set_initial h ?a w1)\<lparr>rx_streams := table_set ?i en2 (rx_streams w1)\<rparr>"
  have ok1: "rx_ok env M w1" unfolding w1_def
    by (rule rx_ok_set [OF ok m]) (auto simp: entry_ok_def en1_def forbidden_def)
  have rej: "rx_ok env M (snd (reject now ?i e w1))" for e
    using reject_ok [OF ok1] by (metis prod.collapse)
  have ok2: "rx_ok env M w2"
  proof -
    have "heap_ok M w2"
      using initial_op.do_heap [of M w1 h "()" ?a] ok1 by (simp add: rx_ok_def set_initial_def w2_def)
    moreover have "table_ok {} w2" if role: "e_role env = hServer"
    proof -
      have tok: "table_ok {} w" using ok role by (simp add: rx_ok_def)
      then obtain s where s: "w_heap w ?a = Some s" "entry_ok en s" using table_lookup m by blast
      have ms: "message_ok s" using table_okD(5) [OF tok s(1)] .
      let ?s' = "s\<lparr>initialHeaders := h\<rparr>"
      have ns: "\<not> headers_sealed (initialHeaders s)" using s(2) p by (simp add: entry_ok_def)
      have "message_ok ?s'" using ms ns by (auto simp: message_ok_def)
      moreover have "entry_ok en2 ?s'" using s(2) ns h role by (simp add: entry_ok_def en2_def en1_def forbidden_def)
      moreover have "ent_stream en2 = ent_stream en" by (simp add: en2_def en1_def)
      ultimately have "table_ok {} (w\<lparr>rx_streams := table_set ?i en2 (rx_streams w),
          w_heap := (w_heap w)(?a \<mapsto> ?s'), w_budgets := w_budgets w\<rparr>)"
        by (intro table_ok_both [OF tok m _ s(1)]) simp_all
      moreover have "table_set ?i en2 (table_set ?i en1 (rx_streams w)) = table_set ?i en2 (rx_streams w)"
        by (auto simp: table_set_def)
      then have "w2 = w\<lparr>rx_streams := table_set ?i en2 (rx_streams w),
          w_heap := (w_heap w)(?a \<mapsto> ?s'), w_budgets := w_budgets w\<rparr>"
        by (simp add: w2_def w1_def set_initial_def stream_do_def s(1))
      ultimately show ?thesis by simp
    qed
    ultimately show ?thesis by (simp add: rx_ok_def)
  qed
  have ok3: "rx_ok env M (snd (c w2 ?a))" if "e_headersReady env = Some c" for c
    using cb that by (intro rx_quiet_ok [OF _ ok2]) (simp add: callbacks_ok_def)
  have f': "(r, w') = (if e_role env = hClient \<and> blk_statusCode blk = 204 \<and> headers_contentLength h \<noteq> None
         then (case reject now ?i (streamError ?i h2ProtocolError ''204 with content-length'') w1 of (c, w') \<Rightarrow> (Inr c, w'))
         else if \<not> forbidden
              \<and> (case headers_contentLength h of None \<Rightarrow> False
                 | Some n \<Rightarrow> n > (if e_role env = hClient then maxResponseBytes (e_options env) else maxBodyBytes (e_options env)))
         then (case reject now ?i (streamError ?i h2EnhanceYourCalm ''declared length over budget'') w1 of (c, w') \<Rightarrow> (Inr c, w'))
         else (case e_headersReady env of
                 None \<Rightarrow> (Inr (code_after ?a w2), w2)
               | Some cb \<Rightarrow>
                   (case cb w2 ?a of
                      (Inl m, w3) \<Rightarrow> (Inl m, w3)
                    | (Inr _, w3) \<Rightarrow> (Inr (code_after ?a w3), w3))))"
    unfolding f [symmetric] finishInitial_def Let_def en1_def w1_def en2_def w2_def forbidden_def by (rule refl)
  let ?c1 = "e_role env = hClient \<and> blk_statusCode blk = 204 \<and> headers_contentLength h \<noteq> None"
  let ?c2 = "\<not> forbidden \<and> (case headers_contentLength h of None \<Rightarrow> False
     | Some n \<Rightarrow> n > (if e_role env = hClient then maxResponseBytes (e_options env) else maxBodyBytes (e_options env)))"
  show ?thesis
  proof (cases "?c1 \<or> ?c2")
    case True
    then show ?thesis
    proof (cases "?c1")
      case True
      have "w' = snd (reject now ?i (streamError ?i h2ProtocolError ''204 with content-length'') w1)"
        using f' unfolding reject_pair if_P [OF True] by simp
      with rej show ?thesis by simp
    next
      case no: False
      with True have c2: "?c2" by blast
      have "w' = snd (reject now ?i (streamError ?i h2EnhanceYourCalm ''declared length over budget'') w1)"
        using f' unfolding reject_pair if_not_P [OF no] if_P [OF c2] by simp
      with rej show ?thesis by simp
    qed
  next
    case False
    then have f2: "(r, w') = (case e_headersReady env of
                 None \<Rightarrow> (Inr (code_after ?a w2), w2)
               | Some cb \<Rightarrow>
                   (case cb w2 ?a of
                      (Inl m, w3) \<Rightarrow> (Inl m, w3)
                    | (Inr _, w3) \<Rightarrow> (Inr (code_after ?a w3), w3)))"
    proof -
      from False have no: "\<not> ?c1" "\<not> ?c2" by blast+
      show ?thesis using f' unfolding if_not_P [OF no(1)] if_not_P [OF no(2)] .
    qed
    show ?thesis
    proof (cases "e_headersReady env")
      case None
      with f2 ok2 show ?thesis by simp
    next
      case (Some c)
      obtain x v where v: "c w2 ?a = (x, v)" by force
      with f2 Some have "w' = v" by (cases x) simp_all
      with ok3 [OF Some] v show ?thesis by simp
    qed
  qed
qed

lemma onEndHeaders_ok:
  assumes ok: "rx_ok env M w" and cb: "callbacks_ok env" and b: "onEndHeaders env now blk w = (r, w')"
  shows "rx_ok env M w'"
proof (cases "map_of (rx_streams w) (blk_streamId blk)")
  case None
  with ok b show ?thesis by (simp add: onEndHeaders_def)
next
  case m: (Some en)
  let ?i = "blk_streamId blk"
  have rej: "rx_ok env M (snd (reject now ?i e v))" if "rx_ok env M v" for e v
    using reject_ok [OF that] by (metis prod.collapse)
  show ?thesis
  proof (cases "pendingHeaders en = None \<or> pendingKind en \<noteq> blk_kind blk")
    case True
    with b m rej [OF ok] show ?thesis
      by (auto simp: onEndHeaders_def reject_def Let_def split: option.splits)
  next
    case False
    then obtain h where h: "pendingHeaders en = Some h" and k: "pendingKind en = blk_kind blk" by auto
    obtain e h' where s: "headers_seal (e_v6 env) h = (e, h')" by force
    define en1 where "en1 = en\<lparr>pendingHeaders := Some h'\<rparr>"
    define w1 where "w1 = w\<lparr>rx_streams := table_set ?i en1 (rx_streams w)\<rparr>"
    define w2 where "w2 = w1\<lparr>rx_streams := table_set ?i (en1\<lparr>pendingHeaders := None\<rparr>) (rx_streams w1)\<rparr>"
    define w3 where "w3 = (set_trailers h' (ent_stream en) w1)
        \<lparr>rx_streams := table_set ?i (en1\<lparr>pendingHeaders := None\<rparr>) (rx_streams w1)\<rparr>"
    have ok1: "rx_ok env M w1" unfolding w1_def
      by (rule rx_ok_set [OF ok m]) (use h in \<open>auto simp: entry_ok_def en1_def\<close>)
    have m1: "map_of (rx_streams w1) ?i = Some en1" by (simp add: w1_def map_of_table_set m)
    have ok2: "rx_ok env M w2" unfolding w2_def
      by (rule rx_ok_set [OF ok1 m1]) (auto simp: entry_ok_def)
    have okt: "rx_ok env M (set_trailers h' (ent_stream en1) w1)" unfolding set_trailers_def
      by (rule rx_ok_stream_do [OF ok1 m1 trailers_op.do_heap])
        (use ok1 in \<open>auto simp: rx_ok_def message_ok_def entry_ok_def\<close>)
    have mt: "map_of (rx_streams (set_trailers h' (ent_stream en1) w1)) ?i = Some en1"
      using m1 by (simp add: set_trailers_def trailers_op.do_frame)
    have "rx_ok env M ((set_trailers h' (ent_stream en1) w1)
        \<lparr>rx_streams := table_set ?i (en1\<lparr>pendingHeaders := None\<rparr>) (rx_streams (set_trailers h' (ent_stream en1) w1))\<rparr>)"
      by (rule rx_ok_set [OF okt mt]) (auto simp: entry_ok_def)
    then have ok3: "rx_ok env M w3" by (simp add: w3_def en1_def set_trailers_def trailers_op.do_frame)
    have ok4: "rx_ok env M (snd (c w2 (ent_stream en) h'))" if "e_informational env = Some c" for c
      using cb that by (intro rx_quiet_ok [OF _ ok2]) (simp add: callbacks_ok_def)
    have ok5: "rx_ok env M w'" if "\<not> is_error e" "blk_kind blk \<noteq> hTrailers" "finishInitial env now blk en1 h' w1 = (r, w')"
      by (rule finishInitial_ok [OF ok1 m1 cb _ _ seal_sealed [OF s] that(3)]) (use that k en1_def in auto)
    have eq: "(r, w') = (if is_error e then (case reject now ?i e w1 of (c, w') \<Rightarrow> (Inr c, w'))
         else if blk_kind blk = hTrailers
         then if \<not> blk_endStream blk
              then (case reject now ?i (streamError ?i h2ProtocolError ''trailers must end the message'') w1 of (c, w') \<Rightarrow> (Inr c, w'))
              else (Inr h2NoError, w3)
         else if blk_kind blk = hResponse \<and> headers_status h' \<noteq> blk_statusCode blk
         then (case reject now ?i (streamError ?i h2ProtocolError ''status differs from metadata'') w1 of (c, w') \<Rightarrow> (Inr c, w'))
         else if blk_kind blk = hResponse \<and> blk_statusCode blk < 200
         then if blk_endStream blk
              then (case reject now ?i (streamError ?i h2ProtocolError ''interim response cannot end'') w1 of (c, w') \<Rightarrow> (Inr c, w'))
              else (case e_informational env of
                      None \<Rightarrow> (Inr (code_after (ent_stream en) w2), w2)
                    | Some cb \<Rightarrow>
                        (case cb w2 (ent_stream en) h' of
                           (Inl m, w3) \<Rightarrow> (Inl m, w3)
                         | (Inr _, w3) \<Rightarrow> (Inr (code_after (ent_stream en) w3), w3)))
         else finishInitial env now blk en1 h' w1)"
      using b m h k s unfolding onEndHeaders_def en1_def w1_def w2_def w3_def Let_def by simp
    show ?thesis
    proof (cases "is_error e \<or> blk_kind blk = hTrailers \<and> \<not> blk_endStream blk
        \<or> blk_kind blk = hResponse \<and> headers_status h' \<noteq> blk_statusCode blk
        \<or> blk_kind blk = hResponse \<and> blk_statusCode blk < 200 \<and> blk_endStream blk")
      case True
      then have "\<exists>x. w' = snd (reject now ?i x w1)"
        using eq unfolding reject_pair by (cases "is_error e"; cases "blk_kind blk") (auto split: if_splits)
      with rej [OF ok1] show ?thesis by auto
    next
      case good: False
      consider (trail) "blk_kind blk = hTrailers" | (info) "blk_kind blk = hResponse" "blk_statusCode blk < 200"
        | (initial) "blk_kind blk \<noteq> hTrailers" "\<not> (blk_kind blk = hResponse \<and> blk_statusCode blk < 200)" by blast
      then show ?thesis
      proof cases
        case trail
        with eq good ok3 show ?thesis by simp
      next
        case info
        show ?thesis
        proof (cases "e_informational env")
          case None
          with eq good info ok2 show ?thesis by simp
        next
          case (Some c)
          obtain x v where v: "c w2 (ent_stream en) h' = (x, v)" by force
          with eq good info Some have "w' = v" by (cases x) simp_all
          with ok4 [OF Some] v show ?thesis by simp
        qed
      next
        case initial
        from good have no: "\<not> is_error e" "\<not> (blk_kind blk = hResponse \<and> headers_status h' \<noteq> blk_statusCode blk)"
          by blast+
        from eq have "finishInitial env now blk en1 h' w1 = (r, w')"
          unfolding if_not_P [OF no(1)] if_not_P [OF initial(1)] if_not_P [OF no(2)] if_not_P [OF initial(2)]
          by (rule sym)
        with ok5 no(1) initial show ?thesis by blast
      qed
    qed
  qed
qed


text \<open>The two ways through \<open>onData\<close>: the data does not fit the message, or it is stored.\<close>

definition data_fits :: "Entry \<Rightarrow> Http2Stream \<Rightarrow> string \<Rightarrow> bool" where
  "data_fits en s data \<longleftrightarrow> protocolOpen s \<and> headers_sealed (initialHeaders s) \<and> pendingHeaders en = None
     \<and> \<not> headers_sealed (trailers s) \<and> \<not> bodyComplete s \<and> (bodyForbidden en \<longrightarrow> data = [])
     \<and> (\<forall>n. expectedLength en = Some n \<longrightarrow> receivedBytes s \<le> n \<and> length data \<le> n - receivedBytes s)"

lemma onData_refused:
  assumes "map_of (rx_streams w) i = Some en" and "w_heap w (ent_stream en) = Some s" and "\<not> data_fits en s data"
  shows "\<exists>e. onData env now i data memory w = (Inr (rejectionCode e), snd (reject now i e w))"
proof -
  let ?bad = "\<not> headers_sealed (initialHeaders s) \<or> pendingHeaders en \<noteq> None
        \<or> headers_sealed (trailers s) \<or> bodyComplete s \<or> bodyForbidden en \<and> data \<noteq> []"
  let ?over = "case expectedLength en of None \<Rightarrow> False
        | Some n \<Rightarrow> receivedBytes s > n \<or> length data > n - receivedBytes s"
  have "\<not> protocolOpen s \<or> ?bad \<or> ?over" using assms(3) by (auto simp: data_fits_def split: option.splits)
  then consider "\<not> protocolOpen s" | "\<not> \<not> protocolOpen s" "?bad" | "\<not> \<not> protocolOpen s" "\<not> ?bad" "?over" by blast
  then show ?thesis
  proof cases
    case 1
    show ?thesis unfolding onData_def Let_def assms(1,2) option.case reject_pair if_P [OF 1] by blast
  next
    case 2
    show ?thesis unfolding onData_def Let_def assms(1,2) option.case reject_pair if_not_P [OF 2(1)] if_P [OF 2(2)] by blast
  next
    case 3
    show ?thesis
      unfolding onData_def Let_def assms(1,2) option.case(2) reject_pair if_not_P [OF 3(1)] if_not_P [OF 3(2)] if_P [OF 3(3)]
      by blast
  qed
qed

lemma onData_stored:
  assumes m: "map_of (rx_streams w) i = Some en" and s: "w_heap w (ent_stream en) = Some s" and fits: "data_fits en s data"
    and a: "appendBody (w_budgets w) s data now memory = (x, s', b')"
    and w1: "w1 = w\<lparr>w_heap := (w_heap w)(ent_stream en \<mapsto> s'), w_budgets := b'\<rparr>"
  shows "onData env now i data memory w =
    (case x of Inl m \<Rightarrow> (Inl m, w1)
     | Inr e \<Rightarrow> if is_error e then (Inr (rejectionCode e), snd (reject now i e w1))
        else (case e_consume env (w_codec w1) i (length data) of
               (ce, k') \<Rightarrow> (case checkOperation now ce (w1\<lparr>w_codec := k'\<rparr>) of
                   (Inl m, w2) \<Rightarrow> (Inl m, w2) | (Inr _, w2) \<Rightarrow> (Inr h2NoError, w2))))"
proof -
  have 1: "\<not> \<not> protocolOpen s" using fits by (simp add: data_fits_def)
  have 2: "\<not> (\<not> headers_sealed (initialHeaders s) \<or> pendingHeaders en \<noteq> None
        \<or> headers_sealed (trailers s) \<or> bodyComplete s \<or> bodyForbidden en \<and> data \<noteq> [])"
    using fits by (simp add: data_fits_def)
  have 3: "\<not> (case expectedLength en of None \<Rightarrow> False
        | Some n \<Rightarrow> receivedBytes s > n \<or> length data > n - receivedBytes s)"
    using fits by (auto simp: data_fits_def not_less split: option.split)
  have sd: "stream_do (\<lambda>b s. appendBody b s data now memory) (Inr ok_error) (ent_stream en) w = (x, w1)"
    by (simp add: stream_do_def s a w1)
  show ?thesis
    unfolding onData_def Let_def m s option.case(2) reject_pair if_not_P [OF 1] if_not_P [OF 2] if_not_P [OF 3] sd prod.case
    by (rule refl)
qed

lemma append_keeps_table:
  assumes sok: "stream_ok b M s" and h: "message_ok s" "entry_ok en s" and fits: "data_fits en s data"
    and a: "appendBody b s data now memory = (r, s', b')"
  shows "stream_id s' = stream_id s \<and> message_ok s' \<and> entry_ok en s'
     \<and> (lease_held (protocol s') \<longrightarrow> lease_held (protocol s))"
proof (cases rule: appendBody_cases [OF sok a, case_names same failed stored thrown])
  case (failed e e')
  from fail_later [OF failed(1)] h message_ok_later entry_ok_later show ?thesis
    by (auto simp: stream_later_def)
next
  case stored
  have inv: "stream_inv s" using sok by (simp add: stream_ok_def)
  have np: "\<not> bodyPublished s" using inv stored(2) by (simp add: stream_inv_def)
  have len: "receivedBytes s = length (stored_body s)"
    using inv by (simp add: receivedBytes_def stream_inv_def)
  have st: "stored_body s' = stored_body s @ data" using np by (simp add: stored(6) stored_body_def)
  have "message_ok s'" using h(1) stored(2) by (simp add: stored(6) message_ok_def)
  moreover have "length (stored_body s') \<le> n" if "expectedLength en = Some n" for n
    using fits that len by (auto simp: data_fits_def st)
  then have "entry_ok en s'"
    using h(2) stored(4) by (auto simp: entry_ok_def stored(6))
  ultimately show ?thesis by (simp add: stored(6))
qed (use h in simp_all)

lemma onData_ok:
  assumes ok: "rx_ok env M w" and b: "onData env now i data memory w = (r, w')"
  shows "rx_ok env M w'"
proof (cases "map_of (rx_streams w) i")
  case None
  with ok b show ?thesis by (simp add: onData_def)
next
  case m: (Some en)
  have rej: "rx_ok env M (snd (reject now i e v))" if "rx_ok env M v" for e v
    using reject_ok [OF that] by (metis prod.collapse)
  show ?thesis
  proof (cases "w_heap w (ent_stream en)")
    case None
    with m ok b show ?thesis by (simp add: onData_def)
  next
    case s: (Some s)
    show ?thesis
    proof (cases "data_fits en s data")
      case False
      from onData_refused [OF m s False, of env now memory] b rej [OF ok] show ?thesis by auto
    next
      case fits: True
      obtain x s' b' where a: "appendBody (w_budgets w) s data now memory = (x, s', b')"
        by (cases "appendBody (w_budgets w) s data now memory") auto
      define w1 where "w1 = w\<lparr>w_heap := (w_heap w)(ent_stream en \<mapsto> s'), w_budgets := b'\<rparr>"
      have heap: "heap_ok M w" using ok by (simp add: rx_ok_def)
      have sd: "snd (stream_do (\<lambda>b s. appendBody b s data now memory) (Inr ok_error) (ent_stream en) w) = w1"
        by (simp add: stream_do_def s a w1_def)
      have "rx_ok env M (snd (stream_do (\<lambda>b s. appendBody b s data now memory) (Inr ok_error) (ent_stream en) w))"
        by (rule rx_ok_stream_do [OF ok m append_op.do_heap [OF heap]])
          (use append_keeps_table [OF heap_ok_stream [OF heap]] fits s in force)
      then have ok1: "rx_ok env M w1" unfolding sd .
      note eq = onData_stored [OF m s fits a w1_def, of env, unfolded b]
      show ?thesis
      proof (cases x)
        case (Inl msg)
        with eq ok1 show ?thesis by simp
      next
        case (Inr e)
        show ?thesis
        proof (cases "is_error e")
          case True
          with eq Inr rej [OF ok1] show ?thesis by simp
        next
          case no: False
          obtain ce k' where k: "e_consume env (w_codec w1) i (length data) = (ce, k')" by force
          obtain y v where v: "checkOperation now ce (w1\<lparr>w_codec := k'\<rparr>) = (y, v)" by force
          have "w' = v" using eq Inr no k v by (cases y) simp_all
          with checkOperation_ok [OF _ v, of env M] ok1 show ?thesis by simp
        qed
      qed
    qed
  qed
qed

lemma complete_keeps_table:
  assumes inv: "stream_inv s" and h: "message_ok s" "entry_ok en s"
    and len: "\<And>n. expectedLength en = Some n \<Longrightarrow> receivedBytes s = n"
    and sealed: "headers_sealed (initialHeaders s)" and c: "completeBody b s now = (e, s', b')"
  shows "stream_id s' = stream_id s \<and> message_ok s' \<and> entry_ok en s'
     \<and> (lease_held (protocol s') \<longrightarrow> lease_held (protocol s))"
proof (cases "bodyComplete s")
  case True
  with h c show ?thesis by (auto simp: completeBody_def)
next
  case False
  with c sealed have s': "s' = completeBodyOnce s False now" by (simp add: completeBody_def)
  have "length (stored_body s) = n" if "expectedLength en = Some n" for n
    using len [OF that] inv by (simp add: receivedBytes_def stream_inv_def)
  then have "message_ok s'" using h sealed by (simp add: s' message_ok_def entry_ok_def completeBodyOnce_def)
  moreover have "entry_ok en s'" using h(2) by (simp add: s' entry_ok_def completeBodyOnce_def)
  ultimately show ?thesis by (simp add: s' completeBodyOnce_def)
qed

lemma onEndStream_ok:
  assumes ok: "rx_ok env M w" and b: "onEndStream env now i w = (r, w')"
  shows "rx_ok env M w'"
proof (cases "map_of (rx_streams w) i")
  case None
  with ok b show ?thesis by (simp add: onEndStream_def)
next
  case m: (Some en)
  show ?thesis
  proof (cases "w_heap w (ent_stream en)")
    case None
    with m ok b show ?thesis by (simp add: onEndStream_def)
  next
    case s: (Some s)
    let ?bad = "\<not> headers_sealed (initialHeaders s) \<or> pendingHeaders en \<noteq> None
       \<or> (case expectedLength en of None \<Rightarrow> False | Some n \<Rightarrow> receivedBytes s \<noteq> n)"
    define q where "q = (if \<not> protocolOpen s then (stream_error s, w)
        else if ?bad then (streamError i h2ProtocolError ''incomplete message at its end'', w)
        else stream_do (\<lambda>b s. completeBody b s now) ok_error (ent_stream en) w)"
    have heap: "heap_ok M w" using ok by (simp add: rx_ok_def)
    have okc: "rx_ok env M (snd (stream_do (\<lambda>b s. completeBody b s now) ok_error (ent_stream en) w))"
      if "\<not> ?bad"
    proof (rule rx_ok_stream_do [OF ok m complete_op.do_heap [OF heap]])
      fix s0 r0 s1 b1
      assume "w_heap w (ent_stream en) = Some s0" "message_ok s0" "entry_ok en s0"
        and c: "completeBody (w_budgets w) s0 now = (r0, s1, b1)"
      moreover have "stream_inv s" using heap_ok_stream [OF heap s] by (simp add: stream_ok_def)
      moreover have "expectedLength en = Some n \<Longrightarrow> receivedBytes s = n" for n using that by auto
      ultimately show "stream_id s1 = stream_id s0 \<and> message_ok s1 \<and> entry_ok en s1
          \<and> (lease_held (protocol s1) \<longrightarrow> lease_held (protocol s0))"
        using complete_keeps_table [of s0 en "w_budgets w" now r0 s1 b1] s that by simp
    qed
    have okq: "rx_ok env M (snd q)"
    proof (cases "protocolOpen s \<and> \<not> ?bad")
      case True
      then have "q = stream_do (\<lambda>b s. completeBody b s now) ok_error (ent_stream en) w"
        unfolding q_def using if_not_P by metis
      with okc True show ?thesis by metis
    next
      case False
      then have "snd q = w" unfolding q_def by (auto split: if_splits)
      with ok show ?thesis by simp
    qed
    obtain e w1 where q: "q = (e, w1)" by force
    have eq: "(r, w') = (if \<not> is_error e then (Inr (), w1)
        else (case reject now i e w1 of (c, w2) \<Rightarrow>
               (case e_reset env (w_codec w2) i c of (ce, k') \<Rightarrow> checkOperation now ce (w2\<lparr>w_codec := k'\<rparr>))))"
      using b unfolding onEndStream_def m s option.case(2) q_def [symmetric] q prod.case by (rule sym)
    show ?thesis
    proof (cases "is_error e")
      case False
      with eq okq q show ?thesis by simp
    next
      case True
      obtain c w2 where r: "reject now i e w1 = (c, w2)" by force
      obtain ce k' where k: "e_reset env (w_codec w2) i c = (ce, k')" by force
      have "checkOperation now ce (w2\<lparr>w_codec := k'\<rparr>) = (r, w')" using eq True r k by simp
      from checkOperation_ok [OF _ this, of env M] reject_ok [OF _ r, of env M] okq q show ?thesis by simp
    qed
  qed
qed

lemma addClientStream_ok:
  assumes ok: "rx_ok env M w" and b: "addClientStream env p h w = (e, w')"
  shows "rx_ok env M w'"
proof (cases "e_role env = hServer")
  case True
  with b ok show ?thesis by (auto simp: addClientStream_def split: if_splits option.splits)
next
  case False
  then show ?thesis using b ok
    by (auto simp: addClientStream_def rx_ok_def split: if_splits option.splits)
qed

section \<open>Histories of a connection\<close>

text \<open>
  The events of the protocol engine, the calls of the owner and of the applications, and the use
  of the shared budgets by everybody else (the leases \<open>M\<close>), in any order.

  When the application of a request has returned before the request has ended, the session
  (\<^verbatim>\<open>Http2ServerSession.cpp\<close>, \<open>discardIncoming\<close>) takes the events of that stream itself: DATA is only
  credited, trailers go directly into the stream, and the end of the request is \<open>completeBody\<close> on the
  stream, without the length check of the adapter. \<open>application\<close> is a parameter of the coroutine
  \<open>dispatchOwned\<close>, so its guard has been reset when \<open>discardIncoming\<close> is set: the guard of these steps is
  \<open>applicationFinished\<close>. A stream outside the table is destroyed when the last reference to it is gone;
  its destructor gives all its leases back (\<open>rx_dropped\<close>).
\<close>

definition discarded :: "int \<Rightarrow> nat \<Rightarrow> Http2Stream \<Rightarrow> 'k RxWorld \<Rightarrow> bool" where
  "discarded i a s w \<longleftrightarrow> rx_find i w = Some a \<and> w_heap w a = Some s \<and> applicationFinished s"

inductive rx_step :: "'k RxEnv \<Rightarrow> 'k RxWorld \<times> Lease multiset \<Rightarrow> 'k RxWorld \<times> Lease multiset \<Rightarrow> bool" for env where
  rx_begin: "onBeginHeaders env now i w = (r, w') \<Longrightarrow> rx_step env (w, M) (w', M)"
| rx_header: "onHeader env now i name val w = (c, w') \<Longrightarrow> rx_step env (w, M) (w', M)"
| rx_end_headers: "onEndHeaders env now blk w = (r, w') \<Longrightarrow> rx_step env (w, M) (w', M)"
| rx_data: "onData env now i data memory w = (r, w') \<Longrightarrow> rx_step env (w, M) (w', M)"
| rx_end: "onEndStream env now i w = (u, w') \<Longrightarrow> rx_step env (w, M) (w', M)"
| rx_close: "rx_step env (w, M) (onStreamClose now i code w, M)"
| rx_error: "rx_step env (w, M) (onError now e w, M)"
| rx_stop: "rx_step env (w, M) (rx_destroy now w, M)"
| rx_add: "addClientStream env p h w = (e, w') \<Longrightarrow> rx_step env (w, M) (w', M)"
| rx_calls: "rx_quiet env w w' \<Longrightarrow> rx_step env (w, M) (w', M)"
| rx_discard_data: "discarded i a s w \<Longrightarrow> e_consume env (w_codec w) i n = (ce, k') \<Longrightarrow>
     rx_step env (w, M) (w\<lparr>w_codec := k'\<rparr>, M)"
| rx_discard_header: "discarded i a s w \<Longrightarrow> headers_append (e_v6 env) (trailers s) name val = (e, h) \<Longrightarrow>
     rx_step env (w, M) (set_trailers h a w, M)"
| rx_discard_trailers: "discarded i a s w \<Longrightarrow> headers_seal (e_v6 env) (trailers s) = (e, h) \<Longrightarrow>
     rx_step env (w, M) (set_trailers h a w, M)"
| rx_discard_end: "w_heap w a = Some s \<Longrightarrow> applicationFinished s \<Longrightarrow> completeBody (w_budgets w) s now = (e, s', b') \<Longrightarrow>
     rx_step env (w, M) (w\<lparr>w_heap := (w_heap w)(a \<mapsto> s'), w_budgets := b'\<rparr>, M)"
| rx_dropped: "w_heap w a = Some s \<Longrightarrow> a \<notin> set (addresses (rx_streams w)) \<Longrightarrow>
     rx_step env (w, M) (w\<lparr>w_heap := (w_heap w)(a := None), w_budgets := stream_destroy (w_budgets w) s\<rparr>, M)"
| rx_others: "budget_step (b, heap_leases (w_heap w) + M) (b', heap_leases (w_heap w) + M') \<Longrightarrow> b = w_budgets w \<Longrightarrow>
     rx_step env (w, M) (w\<lparr>w_budgets := b'\<rparr>, M')"

inductive rx_run :: "'k RxEnv \<Rightarrow> 'k RxWorld \<times> Lease multiset \<Rightarrow> bool" for env where
  rx_created: "budget_reachable (b, M) \<Longrightarrow> rx_create env b Map.empty k = Inr w \<Longrightarrow> rx_run env (w, M)"
| rx_stepped: "rx_run env x \<Longrightarrow> rx_step env x y \<Longrightarrow> rx_run env y"

lemma rx_ok_others:
  assumes ok: "rx_ok env M w"
    and st: "budget_step (w_budgets w, heap_leases (w_heap w) + M) (b', heap_leases (w_heap w) + M')"
  shows "rx_ok env M' (w\<lparr>w_budgets := b'\<rparr>)"
proof -
  have "budgets_ok b' (heap_leases (w_heap w) + M')"
    using budget_step_ok [OF st] ok by (simp add: rx_ok_def heap_ok_def)
  with ok show ?thesis by (simp add: rx_ok_def heap_ok_def table_ok_def entry_points_def)
qed

lemma rx_ok_trailers:
  assumes "rx_ok env M w"
  shows "rx_ok env M (set_trailers h a w)"
proof -
  have "table_ok {} (set_trailers h a w)" if "table_ok {} w"
  proof (cases "w_heap w a")
    case None
    with that show ?thesis by (simp add: set_trailers_def stream_do_def)
  next
    case (Some s)
    from table_ok_later [OF that Some, of "s\<lparr>trailers := h\<rparr>" "w_budgets w"] show ?thesis
      by (simp add: set_trailers_def stream_do_def Some stream_later_def stored_body_def)
  qed
  with assms trailers_op.do_heap show ?thesis by (auto simp: rx_ok_def set_trailers_def)
qed

lemma rx_ok_discard_end:
  assumes ok: "rx_ok env M w" and s: "w_heap w a = Some s" and f: "applicationFinished s"
    and c: "completeBody (w_budgets w) s now = (e, s', b')"
  shows "rx_ok env M (w\<lparr>w_heap := (w_heap w)(a \<mapsto> s'), w_budgets := b'\<rparr>)"
proof -
  have heap: "heap_ok M w" using ok by (simp add: rx_ok_def)
  have h: "heap_ok M (w\<lparr>w_heap := (w_heap w)(a \<mapsto> s'), w_budgets := b'\<rparr>)"
    by (rule heap_ok_upd [OF heap completeBody_ok [OF heap_ok_stream [OF heap s] c]])
  consider "stream_later s s'" | "s' = completeBodyOnce s False now"
    using c fail_later by (auto simp: completeBody_def split: if_splits)
  then have "table_ok {} (w\<lparr>w_heap := (w_heap w)(a \<mapsto> s'), w_budgets := b'\<rparr>)" if "table_ok {} w"
  proof cases
    case 1
    then show ?thesis by (rule table_ok_later [OF that s])
  next
    case 2
    show ?thesis
      by (rule table_ok_heap [OF that s])
        (use table_okD(5) [OF that s] f in \<open>auto simp: 2 completeBodyOnce_def message_ok_def entry_ok_def split: if_splits\<close>)
  qed
  with ok h show ?thesis by (simp add: rx_ok_def)
qed

lemma rx_ok_dropped:
  assumes ok: "rx_ok env M w" and s: "w_heap w a = Some s" and a: "a \<notin> set (addresses (rx_streams w))"
  shows "rx_ok env M (w\<lparr>w_heap := (w_heap w)(a := None), w_budgets := stream_destroy (w_budgets w) s\<rparr>)" (is "rx_ok env M ?w")
proof -
  have "table_ok {} ?w" if t: "table_ok {} w"
  proof -
    have "entry_points ?w i en" if "(i, en) \<in> set (rx_streams w)" for i en
    proof -
      have "ent_stream en \<noteq> a" using a that by (force simp: addresses_def)
      with table_okD(3) [OF t that] show ?thesis by (simp add: entry_points_def)
    qed
    with t show ?thesis unfolding table_ok_def by auto
  qed
  with ok heap_ok_destroy [OF _ s, of M] show ?thesis by (simp add: rx_ok_def)
qed

lemma rx_step_ok:
  assumes "callbacks_ok env" and "allocator_ok env"
  shows "rx_step env x y \<Longrightarrow> rx_ok env (snd x) (fst x) \<Longrightarrow> rx_ok env (snd y) (fst y)"
proof (induction rule: rx_step.induct)
  case (rx_begin now i w r w' M)
  then show ?case using onBeginHeaders_ok [OF _ assms(2) rx_begin(1)] by simp
next
  case (rx_header now i name val w c w' M)
  then show ?case using onHeader_ok [OF _ rx_header(1)] by simp
next
  case (rx_end_headers now blk w r w' M)
  then show ?case using onEndHeaders_ok [OF _ assms(1) rx_end_headers(1)] by simp
next
  case (rx_data now i data memory w r w' M)
  then show ?case using onData_ok [OF _ rx_data(1)] by simp
next
  case (rx_end now i w u w' M)
  then show ?case using onEndStream_ok [OF _ rx_end(1)] by simp
next
  case (rx_close w M now i code)
  then show ?case using onStreamClose_ok by simp
next
  case (rx_error w M now e)
  then show ?case using onError_ok by simp
next
  case (rx_stop w M now)
  then show ?case using rx_fail_ok by (simp add: rx_destroy_def)
next
  case (rx_add p h w e w' M)
  then show ?case using addClientStream_ok [OF _ rx_add(1)] by simp
next
  case (rx_calls w w' M)
  then show ?case using rx_quiet_ok by simp
next
  case (rx_discard_data i a s w n ce k' M)
  then show ?case by simp
next
  case (rx_discard_header i a s w name val e h M)
  then show ?case using rx_ok_trailers by simp
next
  case (rx_discard_trailers i a s w e h M)
  then show ?case using rx_ok_trailers by simp
next
  case (rx_discard_end w a s now e s' b' M)
  then show ?case using rx_ok_discard_end by simp
next
  case (rx_dropped w a s M)
  then show ?case using rx_ok_dropped by simp
next
  case (rx_others b w M b' M')
  then show ?case using rx_ok_others by simp
qed

lemma rx_created_ok:
  assumes "budgets_ok b M" and "rx_create env b Map.empty k = Inr w"
  shows "rx_ok env M w"
  using assms by (auto simp: rx_create_def rx_ok_def heap_ok_def table_ok_def heap_leases_def addresses_def split: if_splits)

lemma rx_run_ok:
  assumes "callbacks_ok env" and "allocator_ok env"
  shows "rx_run env x \<Longrightarrow> rx_ok env (snd x) (fst x)"
proof (induction rule: rx_run.induct)
  case (rx_created b M k w)
  then show ?case using rx_created_ok budget_reachable_ok [of "(b, M)"] by simp
next
  case (rx_stepped x y)
  then show ?case using rx_step_ok [OF assms] by blast
qed


section \<open>Stream identifiers are not reused\<close>

definition ids_later :: "'k RxWorld \<Rightarrow> 'k RxWorld \<Rightarrow> bool" where
  "ids_later w w' \<longleftrightarrow> lastServerStreamId w \<le> lastServerStreamId w'
     \<and> (\<forall>i \<in> fst ` set (rx_streams w'). i \<in> fst ` set (rx_streams w) \<or> lastServerStreamId w < i)"

lemma ids_later_refl [simp]: "ids_later w w" by (simp add: ids_later_def)

lemma ids_later_trans: "ids_later u v \<Longrightarrow> ids_later v w \<Longrightarrow> ids_later u w"
  unfolding ids_later_def by fastforce

lemma ids_later_frame:
  "rx_streams w' = rx_streams w \<Longrightarrow> lastServerStreamId w' = lastServerStreamId w \<Longrightarrow> ids_later w w'"
  by (simp add: ids_later_def)

lemma ids_later_set: "ids_later w (w\<lparr>rx_streams := table_set i en (rx_streams w)\<rparr>)"
proof -
  have "fst ` set (table_set i en t) = fst ` set t" for t
    by (metis list.set_map table_set_keys)
  then show ?thesis by (simp add: ids_later_def)
qed

lemma ids_later_erase: "ids_later w (w\<lparr>rx_streams := table_erase i (rx_streams w)\<rparr>)"
  by (auto simp: ids_later_def set_erase)

lemma stream_do_frame:
  "rx_streams (snd (stream_do f r0 a w)) = rx_streams w"
  "lastServerStreamId (snd (stream_do f r0 a w)) = lastServerStreamId w"
  by (auto simp: stream_do_def split: option.splits prod.splits)

lemma ids_later_do: "ids_later w (snd (stream_do f r0 a w))"
  by (rule ids_later_frame) (simp_all add: stream_do_frame)

lemma ids_later_erase_do: "ids_later w (snd (stream_do f r0 a (w\<lparr>rx_streams := table_erase i (rx_streams w)\<rparr>)))"
  by (rule ids_later_trans [OF ids_later_erase ids_later_do])

lemma reject_ids: "ids_later w (snd (reject now i e w))"
  by (auto simp: reject_def failStream_def ids_later_erase_do split: option.split)

lemma fold_fail_frame:
  "rx_streams (fold (\<lambda>(_, en). failStream e now (ent_stream en)) t w) = rx_streams w"
  "lastServerStreamId (fold (\<lambda>(_, en). failStream e now (ent_stream en)) t w) = lastServerStreamId w"
  "connectionError (fold (\<lambda>(_, en). failStream e now (ent_stream en)) t w) = connectionError w"
  by (induction t arbitrary: w) (auto simp: case_prod_beta)

lemma rx_fail_ids: "ids_later w (rx_fail now e w)"
  by (auto simp: rx_fail_def Let_def ids_later_def fold_fail_frame)

lemma checkOperation_ids: "ids_later w (snd (checkOperation now e w))"
  by (simp add: checkOperation_def Let_def rx_fail_ids)

lemma codec_ids: "ids_later w (w\<lparr>w_codec := k\<rparr>)"
  by (simp add: ids_later_def)

lemma onStreamClose_ids: "ids_later w (onStreamClose now i code w)"
  by (auto simp: onStreamClose_def Let_def ids_later_erase_do split: option.split)

lemma rx_cancel_ids: "ids_later w (snd (rx_cancel env now i code w))"
proof (cases "rx_find i w")
  case None
  then show ?thesis by (simp add: rx_cancel_def)
next
  case (Some a)
  let ?w1 = "snd (stream_do (\<lambda>b s. stream_reset b s code now) ok_error a (w\<lparr>rx_streams := table_erase i (rx_streams w)\<rparr>))"
  obtain ce k' where k: "e_reset env (w_codec ?w1) i code = (ce, k')" by force
  have "ids_later ?w1 (snd (checkOperation now ce (?w1\<lparr>w_codec := k'\<rparr>)))"
    by (rule ids_later_trans [OF codec_ids checkOperation_ids])
  then show ?thesis
    using ids_later_trans [OF ids_later_erase_do] by (simp add: rx_cancel_def Some Let_def k)
qed

lemma onError_ids: "ids_later w (onError now e w)"
  by (auto simp: onError_def reject_ids rx_fail_ids split: option.split)

lemma app_ids: "ids_later w (w\<lparr>w_heap := h, w_budgets := b\<rparr>)"
  by (simp add: ids_later_def)

lemma rx_quiet_ids: "rx_quiet env w w' \<Longrightarrow> ids_later w w'"
proof (induction rule: rx_quiet.induct)
  case (quiet_cancel w0 w now i code r w')
  then show ?case using ids_later_trans rx_cancel_ids [of w env now i code] by (metis snd_conv)
qed (auto intro: ids_later_trans app_ids rx_fail_ids)

lemma beginHeaders_entry_ids: "ids_later w (snd (beginHeaders_entry env now i en w))"
  by (auto simp: beginHeaders_entry_def Let_def reject_pair reject_ids ids_later_set split: option.split sum.split)

lemma onBeginHeaders_ids: "ids_later w (snd (onBeginHeaders env now i w))"
proof -
  let ?cfg = "\<lparr>cfg_streamId = i, cfg_incomingKind = hRequest, cfg_peerLimit = 4294967295,
                          cfg_options = e_options env\<rparr>"
  have "ids_later w (snd (beginHeaders_entry env now i en
      (w\<lparr>lastServerStreamId := i, w_budgets := b', w_heap := h, rx_streams := (i, en) # rx_streams w\<rparr>)))"
    if "lastServerStreamId w < i" for en b' h
    by (rule ids_later_trans [OF _ beginHeaders_entry_ids]) (use that in \<open>auto simp: ids_later_def\<close>)
  moreover have "ids_later w (w\<lparr>lastServerStreamId := i\<rparr>)" "ids_later w (w\<lparr>lastServerStreamId := i, w_budgets := b'\<rparr>)"
    if "lastServerStreamId w < i" for b'
    using that by (auto simp: ids_later_def)
  ultimately show ?thesis
    by (auto simp: onBeginHeaders_def beginHeaders_entry_ids Let_def split: option.split sum.split prod.split)
qed

lemma onHeader_ids: "ids_later w (snd (onHeader env now i name val w))"
proof -
  have "ids_later w (snd (reject now i e (w\<lparr>rx_streams := table_set i en (rx_streams w)\<rparr>)))" for e en
    by (rule ids_later_trans [OF ids_later_set reject_ids])
  then show ?thesis
    by (auto simp: onHeader_def reject_ids ids_later_set Let_def split: option.split prod.split)
qed


lemma snd_callback:
  "snd (case y of (Inl m, v) \<Rightarrow> (Inl m, v) | (Inr _, v) \<Rightarrow> (Inr (f v), v)) = snd y"
  by (auto split: prod.split sum.split)

lemma finishInitial_ids:
  assumes "callbacks_ok env"
  shows "ids_later w (snd (finishInitial env now blk en h w))"
proof -
  let ?i = "blk_streamId blk" and ?a = "ent_stream en"
  have rej: "ids_later w (snd (reject now ?i e (w\<lparr>rx_streams := table_set ?i x (rx_streams w)\<rparr>)))" for e x
    by (rule ids_later_trans [OF ids_later_set reject_ids])
  have two: "ids_later w ((set_initial h ?a v)\<lparr>rx_streams := table_set ?i y (rx_streams v)\<rparr>)"
    if "v = w\<lparr>rx_streams := table_set ?i x (rx_streams w)\<rparr>" for x y v
  proof -
    have "ids_later (set_initial h ?a v) ((set_initial h ?a v)\<lparr>rx_streams := table_set ?i y (rx_streams (set_initial h ?a v))\<rparr>)"
      by (rule ids_later_set)
    moreover have "ids_later v (set_initial h ?a v)" unfolding set_initial_def by (rule ids_later_do)
    moreover have "ids_later w v" unfolding that by (rule ids_later_set)
    moreover have "rx_streams (set_initial h ?a v) = rx_streams v" by (simp add: set_initial_def stream_do_frame)
    ultimately show ?thesis using ids_later_trans by metis
  qed
  have cb: "ids_later v (snd (c v ?a))" if "e_headersReady env = Some c" for c v
    using assms that by (intro rx_quiet_ids [of env]) (simp add: callbacks_ok_def)
  have end': "ids_later w (snd (case e_headersReady env of None \<Rightarrow> (Inr (code_after ?a v), v)
      | Some cb \<Rightarrow> (case cb v ?a of (Inl m, w3) \<Rightarrow> (Inl m, w3) | (Inr _, w3) \<Rightarrow> (Inr (code_after ?a w3), w3))))"
    if "ids_later w v" for v
    using that ids_later_trans [OF that cb] by (cases "e_headersReady env") (simp_all add: snd_callback)
  show ?thesis
    unfolding finishInitial_def Let_def reject_pair
    by (simp only: split: if_split) (use rej end' [OF two [OF refl]] in simp)
qed


lemma onEndHeaders_ids:
  assumes "callbacks_ok env"
  shows "ids_later w (snd (onEndHeaders env now blk w))"
proof (cases "map_of (rx_streams w) (blk_streamId blk)")
  case None
  then show ?thesis by (simp add: onEndHeaders_def)
next
  case m: (Some en)
  let ?i = "blk_streamId blk" and ?a = "ent_stream en"
  show ?thesis
  proof (cases "pendingHeaders en")
    case None
    with m show ?thesis by (simp add: onEndHeaders_def Let_def reject_pair reject_ids)
  next
    case p: (Some h)
    obtain e h' where s: "headers_seal (e_v6 env) h = (e, h')" by force
    define en1 where "en1 = en\<lparr>pendingHeaders := Some h'\<rparr>"
    define w1 where "w1 = w\<lparr>rx_streams := table_set ?i en1 (rx_streams w)\<rparr>"
    have w1: "ids_later w w1" unfolding w1_def by (rule ids_later_set)
    have rej: "ids_later w (snd (reject now ?i x w1))" for x by (rule ids_later_trans [OF w1 reject_ids])
    have w2: "ids_later w (w1\<lparr>rx_streams := table_set ?i y (rx_streams w1)\<rparr>)" for y
      by (rule ids_later_trans [OF w1 ids_later_set])
    have w3: "ids_later w ((set_trailers h' ?a w1)\<lparr>rx_streams := table_set ?i y (rx_streams w1)\<rparr>)" for y
      using w2 [of y] by (simp add: ids_later_def set_trailers_def stream_do_frame)
    have fin: "ids_later w (snd (finishInitial env now blk en1 h' w1))"
      by (rule ids_later_trans [OF w1 finishInitial_ids [OF assms]])
    have cb: "ids_later v (snd (c v ?a h'))" if "e_informational env = Some c" for c v
      using assms that by (intro rx_quiet_ids [of env]) (simp add: callbacks_ok_def)
    have info: "ids_later w (snd (case e_informational env of None \<Rightarrow> (Inr (code_after ?a v), v)
        | Some cb \<Rightarrow> (case cb v ?a h' of (Inl m, w3) \<Rightarrow> (Inl m, w3) | (Inr _, w3) \<Rightarrow> (Inr (code_after ?a w3), w3))))"
      if "ids_later w v" for v
      using that ids_later_trans [OF that cb] by (cases "e_informational env") (simp_all add: snd_callback)
    show ?thesis
      unfolding onEndHeaders_def Let_def m p option.case(2) s prod.case(1) en1_def [symmetric] w1_def [symmetric] reject_pair
      by (simp only: split: if_split) (use rej w2 w3 fin info [OF w2] in \<open>simp add: reject_ids\<close>)
  qed
qed

lemma onData_ids: "ids_later w (snd (onData env now i data memory w))"
proof (cases "map_of (rx_streams w) i")
  case None
  then show ?thesis by (simp add: onData_def)
next
  case m: (Some en)
  show ?thesis
  proof (cases "w_heap w (ent_stream en)")
    case None
    with m show ?thesis by (simp add: onData_def)
  next
    case s: (Some s)
    show ?thesis
    proof (cases "data_fits en s data")
      case False
      from onData_refused [OF m s False, of env now memory] reject_ids show ?thesis by auto
    next
      case fits: True
      obtain x s' b' where a: "appendBody (w_budgets w) s data now memory = (x, s', b')"
        by (cases "appendBody (w_budgets w) s data now memory") auto
      define w1 where "w1 = w\<lparr>w_heap := (w_heap w)(ent_stream en \<mapsto> s'), w_budgets := b'\<rparr>"
      have w1: "ids_later w w1" unfolding w1_def by (rule app_ids)
      have chk: "ids_later w (snd (checkOperation now ce (w1\<lparr>w_codec := k'\<rparr>)))" for ce k'
        by (rule ids_later_trans [OF w1 ids_later_trans [OF codec_ids checkOperation_ids]])
      have rej: "ids_later w (snd (reject now i e w1))" for e by (rule ids_later_trans [OF w1 reject_ids])
      show ?thesis
        unfolding onData_stored [OF m s fits a w1_def]
        using w1 chk rej by (cases x) (simp_all add: case_prod_beta split: sum.split)
    qed
  qed
qed

lemma onEndStream_ids: "ids_later w (snd (onEndStream env now i w))"
proof -
  have r: "ids_later w (snd (case reject now i e v of (c, w2) \<Rightarrow>
       (case e_reset env (w_codec w2) i c of (ce, k') \<Rightarrow> checkOperation now ce (w2\<lparr>w_codec := k'\<rparr>))))"
    if "ids_later w v" for e v
    using ids_later_trans [OF ids_later_trans [OF that reject_ids] ids_later_trans [OF codec_ids checkOperation_ids]]
    by (simp add: case_prod_beta)
  show ?thesis
    unfolding onEndStream_def
    by (auto simp: r r [OF ids_later_do, unfolded case_prod_beta] ids_later_do case_prod_beta [of _ "stream_do _ _ _ _"] split: option.split)
qed


lemma rx_step_ids:
  assumes "callbacks_ok env" and "e_role env = hServer" and "rx_step env (w, M) (w', M')"
  shows "ids_later w w'"
  using assms(3)
proof (cases rule: rx_step.cases)
  case (rx_begin now i r)
  then show ?thesis using onBeginHeaders_ids [of w env now i] by simp
next
  case (rx_header now i name val c)
  then show ?thesis using onHeader_ids [of w env now i name val] by simp
next
  case (rx_end_headers now blk r)
  then show ?thesis using onEndHeaders_ids [OF assms(1), of w now blk] by simp
next
  case (rx_data now i data memory r)
  then show ?thesis using onData_ids [of w env now i data memory] by simp
next
  case (rx_end now i u)
  then show ?thesis using onEndStream_ids [of w env now i] by simp
next
  case (rx_close now i code)
  then show ?thesis by (simp add: onStreamClose_ids)
next
  case (rx_error now e)
  then show ?thesis by (simp add: onError_ids)
next
  case (rx_stop now)
  then show ?thesis by (simp add: rx_destroy_def rx_fail_ids)
next
  case (rx_add p h e)
  then show ?thesis using assms(2) by (auto simp: addClientStream_def split: if_splits option.splits)
next
  case rx_calls
  then show ?thesis by (simp add: rx_quiet_ids)
next
  case (rx_others b b')
  then show ?thesis by (simp add: ids_later_def)
next
  case (rx_discard_header i a s name val e h)
  then show ?thesis by (simp add: ids_later_do set_trailers_def)
next
  case (rx_discard_trailers i a s e h)
  then show ?thesis by (simp add: ids_later_do set_trailers_def)
qed (simp_all add: ids_later_def)

inductive rx_steps :: "'k RxEnv \<Rightarrow> 'k RxWorld \<times> Lease multiset \<Rightarrow> 'k RxWorld \<times> Lease multiset \<Rightarrow> bool" for env where
  rx_none: "rx_steps env x x"
| rx_next: "rx_steps env x y \<Longrightarrow> rx_step env y z \<Longrightarrow> rx_steps env x z"

lemma rx_steps_ids:
  assumes "callbacks_ok env" and "e_role env = hServer"
  shows "rx_steps env x y \<Longrightarrow> ids_later (fst x) (fst y)"
proof (induction rule: rx_steps.induct)
  case (rx_next x y z)
  obtain w M w' M' where "y = (w, M)" "z = (w', M')" by (metis prod.collapse)
  with rx_next rx_step_ids [OF assms, of w M w' M'] ids_later_trans show ?case by auto
qed simp


lemma rejectionCode_error: "rejectionCode e \<noteq> h2NoError"
  by (simp add: rejectionCode_def split: option.split)

lemma reject_effect:
  assumes "map_of (rx_streams w) i = Some en" and "w_heap w (ent_stream en) = Some s"
  shows "w_codec (snd (reject now i e w)) = w_codec w \<and> rx_find i (snd (reject now i e w)) = None
    \<and> (\<exists>s'. w_heap (snd (reject now i e w)) (ent_stream en) = Some s' \<and> stored_body s' = stored_body s
         \<and> \<not> protocolOpen s')"
proof -
  let ?w1 = "w\<lparr>rx_streams := table_erase i (rx_streams w)\<rparr>"
  obtain r s' b' where f: "stream_fail (w_budgets w) s e now = (r, s', b')"
    by (cases "stream_fail (w_budgets w) s e now") auto
  have "snd (reject now i e w) = ?w1\<lparr>w_heap := (w_heap w)(ent_stream en \<mapsto> s'), w_budgets := b'\<rparr>"
    by (simp add: reject_def assms failStream_def stream_do_def f)
  moreover have "map_of (table_erase i (rx_streams w)) i = None"
    by (auto simp: map_of_eq_None_iff set_erase)
  moreover have "stored_body s' = stored_body s" "\<not> protocolOpen s'"
    using fail_closes [OF f] by (simp_all add: stream_later_def protocolOpen_def)
  ultimately show ?thesis by (simp add: rx_find_def)
qed

lemma append_error_keeps:
  assumes "stream_ok b M s" and "appendBody b s data now memory = (Inr e, s', b')" and "is_error e"
  shows "stored_body s' = stored_body s"
proof (cases rule: appendBody_cases [OF assms(1,2), case_names same failed stored thrown])
  case (failed e e')
  from fail_later [OF failed(1)] show ?thesis by (simp add: stream_later_def)
qed (use assms(3) in auto)

lemma append_success:
  assumes "stream_ok b M s" and "appendBody b s data now memory = (Inr e, s', b')" and "\<not> is_error e"
  shows "stored_body s' = stored_body s @ data"
proof (cases rule: appendBody_cases [OF assms(1,2), case_names same failed stored thrown])
  case same
  with assms(3) show ?thesis by auto
next
  case (failed e0 e')
  have "is_error e'" using stream_fail_open(3) [OF _ failed(2,1), of M] assms(1) by (simp add: stream_ok_def)
  with failed(3) assms(3) show ?thesis by simp
next
  case stored
  have "\<not> bodyPublished s" using assms(1) stored(2) by (simp add: stream_ok_def stream_inv_def)
  then show ?thesis by (simp add: stored(6) stored_body_def)
next
  case thrown
  then show ?thesis by simp
qed

section \<open>A sample exchange\<close>

definition sample_env :: "nat RxEnv" where
  "sample_env = \<lparr>e_role = hServer, e_options = default_options, e_budget = sample_handle, e_v6 = (\<lambda>_. None),
     e_fresh = (\<lambda>h. Suc (\<Sum>(dom h))),
     e_consume = (\<lambda>k i n. (ok_error, k + n)), e_reset = (\<lambda>k i c. (ok_error, k)),
     e_headersReady = Some (\<lambda>w a. (Inr (),
       case w_heap w a of None \<Rightarrow> w
       | Some s \<Rightarrow> w\<lparr>w_heap := (w_heap w)(a \<mapsto> snd (startApplication s)), w_budgets := w_budgets w\<rparr>)),
     e_informational = None\<rparr>"

lemma sample_env_ok: "callbacks_ok sample_env" "allocator_ok sample_env" "e_role sample_env = hServer"
proof -
  have "rx_quiet sample_env w (case w_heap w a of None \<Rightarrow> w
       | Some s \<Rightarrow> w\<lparr>w_heap := (w_heap w)(a \<mapsto> snd (startApplication s)), w_budgets := w_budgets w\<rparr>)" for w a
  proof (cases "w_heap w a")
    case None
    then show ?thesis by (simp add: quiet_refl)
  next
    case (Some s)
    have "app_step (w_budgets w, s) (w_budgets w, snd (startApplication s))"
      by (rule app_start [of _ "fst (startApplication s)"]) simp
    from quiet_app [OF quiet_refl Some this] show ?thesis by (simp add: Some)
  qed
  then show "callbacks_ok sample_env" by (simp add: callbacks_ok_def sample_env_def)
  have "Suc (\<Sum>A) \<notin> A" if "finite A" for A :: "nat set"
    using sum_nonneg_leq_bound [of A id "\<Sum>A" "Suc (\<Sum>A)"] that by auto
  then show "allocator_ok sample_env" by (auto simp: allocator_ok_def sample_env_def domIff)
  show "e_role sample_env = hServer" by (simp add: sample_env_def)
qed

definition sample_request :: "Field list" where
  "sample_request = sample_fields @ [(''content-length'', ''3'')]"

lemma sample_request_accepted:
  "\<exists>st st'. hdr_append_all (\<lambda>_. None) sample_block sample_request = (ok_error, st)
     \<and> hdr_seal (\<lambda>_. None) st = (ok_error, st') \<and> sealed st' \<and> contentLength st' = Some 3"
  using default_options_valid
  by (simp add: sample_request_def sample_fields_def sample_block_def new_storage_def options_valid_def eval_headers
      eval_seal default_options_def unsignedDecimal_def decimal_value_def)

lemma rx_run_steps: "rx_steps env x y \<Longrightarrow> rx_run env x \<Longrightarrow> rx_run env y"
  by (induction rule: rx_steps.induct) (auto intro: rx_stepped)

lemma headers_run:
  "hdr_append_all (e_v6 env) st fs = (ok_error, st') \<Longrightarrow> map_of (rx_streams w) i = Some en \<Longrightarrow>
   distinct (map fst (rx_streams w)) \<Longrightarrow> pendingHeaders en = Some (Some st) \<Longrightarrow>
   rx_steps env (w, M) (w\<lparr>rx_streams := table_set i (en\<lparr>pendingHeaders := Some (Some st')\<rparr>) (rx_streams w)\<rparr>, M)"
proof (induction fs arbitrary: st w en)
  case Nil
  then have "en\<lparr>pendingHeaders := Some (Some st')\<rparr> = en" by (cases en) simp
  with Nil show ?case by (simp add: table_set_same rx_none)
next
  case (Cons f fs)
  obtain n v where f: "f = (n, v)" by force
  obtain e st1 where a: "hdr_append (e_v6 env) st n v = (e, st1)" by force
  have ok: "\<not> is_error e" and rest: "hdr_append_all (e_v6 env) st1 fs = (ok_error, st')"
    using Cons.prems(1) f a by (auto split: if_splits)
  let ?en1 = "en\<lparr>pendingHeaders := Some (Some st1)\<rparr>"
  let ?w1 = "w\<lparr>rx_streams := table_set i ?en1 (rx_streams w)\<rparr>"
  have "onHeader env 0 i n v w = (h2NoError, ?w1)"
    using Cons.prems(2,4) a ok by (simp add: onHeader_def headers_append_def)
  then have s1: "rx_step env (w, M) (?w1, M)" by (rule rx_header)
  have m1: "map_of (rx_streams ?w1) i = Some ?en1" using Cons.prems(2) by (simp add: map_of_table_set)
  have "rx_steps env (?w1, M) (?w1\<lparr>rx_streams := table_set i (?en1\<lparr>pendingHeaders := Some (Some st')\<rparr>) (rx_streams ?w1)\<rparr>, M)"
    using Cons.IH [OF rest m1] Cons.prems(3) by simp
  moreover have "table_set i y (table_set i x t) = table_set i y t" for x y t
    by (auto simp: table_set_def)
  ultimately have s2: "rx_steps env (?w1, M)
      (w\<lparr>rx_streams := table_set i (en\<lparr>pendingHeaders := Some (Some st')\<rparr>) (rx_streams w)\<rparr>, M)" by simp
  have "rx_steps env x z" if "rx_steps env y z" "rx_step env x y" for x y z
    using that by (induction rule: rx_steps.induct) (auto intro: rx_none rx_next)
  from this [OF s2 s1] show ?case .
qed

lemma sample_open:
  "\<exists>w en s b1. rx_run sample_env (w, {#snd sample_store#}) \<and> map_of (rx_streams w) 1 = Some en
     \<and> w_heap w (ent_stream en) = Some s \<and> data_fits en s ''abc'' \<and> expectedLength en = Some 3
     \<and> lastServerStreamId w = 1 \<and> w_codec w = 0
     \<and> headers_contentLength (initialHeaders s) = Some 3 \<and> receivedBytes s = 0 \<and> \<not> applicationFinished s
     \<and> tryResize (w_budgets w) (receive s) 3 = (True, (receive s)\<lparr>lease_amount := 3\<rparr>, b1)"
proof -
  let ?M = "{#snd sample_store#}"
  obtain st st' where st: "hdr_append_all (\<lambda>_. None) sample_block sample_request = (ok_error, st)"
    "hdr_seal (\<lambda>_. None) st = (ok_error, st')" "sealed st'" "contentLength st' = Some 3"
    using sample_request_accepted by blast
  obtain s b b1 where c: "stream_create (fst sample_store) sample_config sample_handle = Inr (Some s, b)"
    and s: "lease_held (protocol s)" "\<not> bodyComplete s" "\<not> is_error (stream_error s)" "lease_amount (receive s) = 0"
       "\<not> applicationStarted s"
    and rs: "tryResize b (receive s) 3 = (True, (receive s)\<lparr>lease_amount := 3\<rparr>, b1)"
    using sample_create by blast
  note f = stream_create_fields [OF c]
  have nt: "\<not> headers_sealed (trailers s)"
    using c by (auto simp: stream_create_def headers_sealed_def new_storage_def split: if_splits sum.splits prod.splits)
  let ?w0 = "\<lparr>w_budgets = fst sample_store, w_heap = Map.empty, w_codec = 0, rx_streams = [],
                connectionError = ok_error, lastServerStreamId = 0\<rparr> :: nat RxWorld"
  have "rx_create sample_env (fst sample_store) Map.empty 0 = Inr ?w0"
    using default_options_valid by (simp add: rx_create_def sample_env_def options_valid_def)
  then have r0: "rx_run sample_env (?w0, ?M)" using rx_created sample_store_reachable by fastforce
  let ?en1 = "(new_entry 1 False)\<lparr>pendingKind := hRequest, pendingHeaders := Some (Some sample_block)\<rparr>"
  let ?w1 = "\<lparr>w_budgets = b, w_heap = [1 \<mapsto> s], w_codec = 0, rx_streams = [(1, ?en1)],
                connectionError = ok_error, lastServerStreamId = 1\<rparr> :: nat RxWorld"
  have "onBeginHeaders sample_env 0 1 ?w0 = (Inr h2NoError, ?w1)"
    using c s f(3) nt sample_block_new
    by (simp add: onBeginHeaders_def sample_env_def sample_config_def Let_def beginHeaders_entry_def new_entry_def
        protocolOpen_def table_set_def)
  from rx_stepped [OF r0 rx_begin [OF this]] have r1: "rx_run sample_env (?w1, ?M)" .
  let ?en2 = "?en1\<lparr>pendingHeaders := Some (Some st)\<rparr>"
  let ?w2 = "?w1\<lparr>rx_streams := [(1, ?en2)]\<rparr>"
  have "rx_steps sample_env (?w1, ?M) (?w1\<lparr>rx_streams := table_set 1 (?en1\<lparr>pendingHeaders := Some (Some st)\<rparr>) (rx_streams ?w1)\<rparr>, ?M)"
    by (rule headers_run [OF _ _ _ , of _ sample_block sample_request]) (use st in \<open>simp_all add: sample_env_def\<close>)
  then have "rx_steps sample_env (?w1, ?M) (?w2, ?M)" by (simp add: table_set_def)
  from rx_run_steps [OF this r1] have r2: "rx_run sample_env (?w2, ?M)" .
  let ?s3 = "s\<lparr>initialHeaders := Some st', applicationStarted := True\<rparr>"
  let ?en3 = "?en2\<lparr>bodyForbidden := False, expectedLength := Some 3, pendingHeaders := None\<rparr>"
  let ?w3 = "?w1\<lparr>rx_streams := [(1, ?en3)], w_heap := [1 \<mapsto> ?s3]\<rparr>"
  have af: "\<not> applicationFinished s" using c by (auto simp: stream_create_def split: if_splits sum.splits prod.splits)
  have "onEndHeaders sample_env 0 \<lparr>blk_streamId = 1, blk_kind = hRequest, blk_statusCode = 0, blk_endStream = False\<rparr> ?w2
      = (Inr h2NoError, ?w3)"
    using st s af
    by (simp add: onEndHeaders_def finishInitial_def sample_env_def Let_def headers_seal_def headers_contentLength_def
        set_initial_def stream_do_def table_set_def default_options_def startApplication_def code_after_def new_entry_def)
  from rx_stepped [OF r2 rx_end_headers [OF this]] have r3: "rx_run sample_env (?w3, ?M)" .
  have "data_fits ?en3 ?s3 ''abc''"
    using s st nt by (simp add: data_fits_def protocolOpen_def headers_sealed_def receivedBytes_def)
  with r3 s st rs af show ?thesis
    by (intro exI [of _ ?w3] exI [of _ ?en3] exI [of _ ?s3] exI [of _ b1])
      (simp add: new_entry_def headers_contentLength_def receivedBytes_def)
qed

lemma sample_data:
  "\<exists>w en s w' s'. rx_run sample_env (w, {#snd sample_store#}) \<and> map_of (rx_streams w) 1 = Some en
     \<and> w_heap w (ent_stream en) = Some s \<and> onData sample_env 5 1 ''abc'' True w = (Inr h2NoError, w')
     \<and> map_of (rx_streams w') 1 = Some en \<and> w_heap w' (ent_stream en) = Some s' \<and> lastServerStreamId w' = 1
     \<and> protocolOpen s' \<and> headers_sealed (initialHeaders s') \<and> pendingHeaders en = None \<and> expectedLength en = Some 3
     \<and> receivedBytes s' = 3 \<and> \<not> bodyComplete s' \<and> headers_contentLength (initialHeaders s') = Some 3 \<and> \<not> applicationFinished s'"
proof -
  obtain w en s b1 where run: "rx_run sample_env (w, {#snd sample_store#})" and m: "map_of (rx_streams w) 1 = Some en"
    and h: "w_heap w (ent_stream en) = Some s" and fits: "data_fits en s ''abc''"
    and e: "expectedLength en = Some 3" "lastServerStreamId w = 1" "headers_contentLength (initialHeaders s) = Some 3"
    and z: "receivedBytes s = 0" and af: "\<not> applicationFinished s" and rs: "tryResize (w_budgets w) (receive s) 3 = (True, (receive s)\<lparr>lease_amount := 3\<rparr>, b1)"
    using sample_open by blast
  have inv: "stream_inv s"
    using rx_run_ok [OF sample_env_ok(1,2) run] h by (auto simp: rx_ok_def heap_ok_def)
  have f: "protocolOpen s" "headers_sealed (initialHeaders s)" "pendingHeaders en = None" "\<not> bodyComplete s"
    using fits by (simp_all add: data_fits_def)
  then have ne: "\<not> is_error (stream_error s)" using inv by (auto simp: stream_inv_def protocolOpen_def)
  let ?s' = "s\<lparr>receive := (receive s)\<lparr>lease_amount := 3\<rparr>, pendingBody := pendingBody s @ ''abc''\<rparr>"
  have a: "appendBody (w_budgets w) s ''abc'' 5 True = (Inr ok_error, ?s', b1)"
    using f ne z rs by (simp add: appendBody_def protocolOpen_def receivedBytes_def size_add_def size_sub_def size_modulus_def string_max_size_def)
  let ?w1 = "w\<lparr>w_heap := (w_heap w)(ent_stream en \<mapsto> ?s'), w_budgets := b1\<rparr>"
  have d: "onData sample_env 5 1 ''abc'' True w = (Inr h2NoError, ?w1\<lparr>w_codec := w_codec w + 3\<rparr>)"
    unfolding onData_stored [OF m h fits a refl]
    by (simp add: sample_env_def checkOperation_def)
  show ?thesis
    by (intro exI [of _ w] exI [of _ en] exI [of _ s] exI [of _ "?w1\<lparr>w_codec := w_codec w + 3\<rparr>"] exI [of _ ?s'])
      (use run m h d e f af in \<open>simp add: receivedBytes_def protocolOpen_def\<close>)
qed

lemma sample_message:
  "\<exists>w a s. rx_run sample_env (w, {#snd sample_store#}) \<and> w_heap w a = Some s \<and> bodyComplete s \<and> \<not> bodyFailed s
     \<and> headers_contentLength (initialHeaders s) = Some 3 \<and> lastServerStreamId w = 1 \<and> \<not> applicationFinished s"
proof -
  obtain w en s w' s' where run: "rx_run sample_env (w, {#snd sample_store#})"
    and d: "onData sample_env 5 1 ''abc'' True w = (Inr h2NoError, w')"
    and m: "map_of (rx_streams w') 1 = Some en" and h: "w_heap w' (ent_stream en) = Some s'"
    and f: "protocolOpen s'" "headers_sealed (initialHeaders s')" "pendingHeaders en = None" "expectedLength en = Some 3"
      "receivedBytes s' = 3" "\<not> bodyComplete s'" "headers_contentLength (initialHeaders s') = Some 3" "lastServerStreamId w' = 1"
      "\<not> applicationFinished s'"
    using sample_data by blast
  from rx_stepped [OF run rx_data [OF d]] have run': "rx_run sample_env (w', {#snd sample_store#})" .
  let ?s2 = "completeBodyOnce s' False 6"
  let ?w2 = "w'\<lparr>w_heap := (w_heap w')(ent_stream en \<mapsto> ?s2), w_budgets := w_budgets w'\<rparr>"
  have "onEndStream sample_env 6 1 w' = (Inr (), ?w2)"
    using m h f by (simp add: onEndStream_def stream_do_def completeBody_def)
  from rx_stepped [OF run' rx_end [OF this]] have "rx_run sample_env (?w2, {#snd sample_store#})" .
  with f show ?thesis
    by (intro exI [of _ ?w2] exI [of _ "ent_stream en"] exI [of _ ?s2]) (simp add: completeBodyOnce_def)
qed

section \<open>Shares of the streams\<close>

definition holds_slot :: "nat \<Rightarrow> 'k RxWorld \<Rightarrow> int \<times> Entry \<Rightarrow> bool" where
  "holds_slot c w p \<longleftrightarrow>
     (case w_heap w (ent_stream (snd p)) of None \<Rightarrow> False | Some s \<Rightarrow> lease_state (protocol s) = Some c)"

lemma stream_shares:
  assumes "stream_ok b M s"
  shows "(\<Sum>l\<in>#stream_leases s. lease_share c hProtocolStream l) = (if lease_state (protocol s) = Some c then 1 else 0)"
    and "(\<Sum>l\<in>#stream_leases s. lease_share c hReceiveBytes l) = (if lease_state (receive s) = Some c then length (stored_body s) else 0)"
proof -
  from assms have inv: "stream_inv s" and ok: "budgets_ok b (stream_leases s + M)" by (simp_all add: stream_ok_def)
  have res: "lease_held (protocol s) \<Longrightarrow> lease_resource (protocol s) = hProtocolStream"
    "lease_held (application s) \<Longrightarrow> lease_resource (application s) = hApplicationTask"
    "lease_resource (receive s) = hReceiveBytes" "lease_resource (send s) = hSendBytes"
    "lease_amount (receive s) = length (stored_body s)"
    using inv by (simp_all add: stream_inv_def slots_ok_def)
  have "lease_ok b (protocol s)" using budgets_okD(3) [OF ok] by (simp add: stream_leases_def)
  then have one: "lease_amount (protocol s) = 1" if "lease_state (protocol s) = Some c"
    using inv that by (simp add: lease_ok_def stream_inv_def slots_ok_def lease_held_def less_Resource_def)
  show "(\<Sum>l\<in>#stream_leases s. lease_share c hProtocolStream l) = (if lease_state (protocol s) = Some c then 1 else 0)"
    using res one by (auto simp: stream_leases_def lease_held_def lease_share_def)
  show "(\<Sum>l\<in>#stream_leases s. lease_share c hReceiveBytes l) = (if lease_state (receive s) = Some c then length (stored_body s) else 0)"
    using res by (auto simp: stream_leases_def lease_held_def lease_share_def)
qed

lemma heap_shares:
  assumes "finite (dom h)"
  shows "(\<Sum>l\<in>#heap_leases h. f l) = (\<Sum>a\<in>dom h. \<Sum>l\<in>#stream_leases (the (h a)). f l)"
  unfolding heap_leases_def using assms by (induction rule: finite_induct) simp_all

lemma slots_in_table:
  assumes tok: "table_ok {} w" and fin: "finite (dom (w_heap w))"
  shows "(\<Sum>a\<in>dom (w_heap w). if lease_state (protocol (the (w_heap w a))) = Some c then 1 else 0 :: nat)
    = length (filter (holds_slot c w) (rx_streams w))"
proof -
  let ?P = "\<lambda>a. lease_state (protocol (the (w_heap w a))) = Some c"
  let ?f = "\<lambda>p :: int \<times> Entry. ent_stream (snd p)"
  have "{a \<in> dom (w_heap w). ?P a} = ?f ` set (filter (holds_slot c w) (rx_streams w))"
  proof (intro set_eqI iffI)
    fix a
    assume "a \<in> {a \<in> dom (w_heap w). ?P a}"
    then obtain s where s: "w_heap w a = Some s" "lease_state (protocol s) = Some c" by auto
    then have "a \<in> set (addresses (rx_streams w))"
      using table_okD(6) [OF tok s(1)] by (simp add: lease_held_def)
    then obtain p where "p \<in> set (rx_streams w)" "?f p = a" by (auto simp: addresses_def)
    with s show "a \<in> ?f ` set (filter (holds_slot c w) (rx_streams w))" by (auto simp: holds_slot_def intro!: image_eqI [of _ _ p])
  next
    fix a
    assume "a \<in> ?f ` set (filter (holds_slot c w) (rx_streams w))"
    then show "a \<in> {a \<in> dom (w_heap w). ?P a}" by (auto simp: holds_slot_def split: option.splits)
  qed
  moreover have "distinct (map ?f (filter (holds_slot c w) (rx_streams w)))"
    using distinct_map_filter' table_okD(2) [OF tok] by (simp add: addresses_def)
  then have "card (?f ` set (filter (holds_slot c w) (rx_streams w))) = length (filter (holds_slot c w) (rx_streams w))"
    using distinct_card by fastforce
  ultimately show ?thesis using fin by (simp add: sum.If_cases Int_def)
qed

section \<open>Properties\<close>

text \<open>
  C7. Accounting of a server's connection: whatever events, calls and callbacks happened in whatever
  order, streams destroyed meanwhile included, and whatever the rest of the service does with the
  shared budgets, every counter of a connection is the sum over the leases of the live streams and of
  the others, within its limit. The stream slots taken are exactly those of the entries of the
  table whose stream is still open (a stream that left the table has given its slot back), and the
  receive bytes charged are exactly the bytes of the bodies the live streams store.
\<close>

theorem receive_accounting:
  assumes "callbacks_ok env" and "allocator_ok env" and "e_role env = hServer" and "rx_run env (w, M)"
    and "conns (w_budgets w) c = Some st"
  shows "used st r = (\<Sum>l\<in>#heap_leases (w_heap w) + M. lease_share c r l) \<and> used st r \<le> limits st r
    \<and> used st hProtocolStream = length (filter (holds_slot c w) (rx_streams w)) + (\<Sum>l\<in>#M. lease_share c hProtocolStream l)
    \<and> used st hReceiveBytes =
        (\<Sum>a\<in>dom (w_heap w). if lease_state (receive (the (w_heap w a))) = Some c
           then length (stored_body (the (w_heap w a))) else 0) + (\<Sum>l\<in>#M. lease_share c hReceiveBytes l)"
proof -
  from rx_run_ok [OF assms(1,2,4)] assms(3) have heap: "heap_ok M w" and tok: "table_ok {} w" by (simp_all add: rx_ok_def)
  then have fin: "finite (dom (w_heap w))" and bok: "budgets_ok (w_budgets w) (heap_leases (w_heap w) + M)"
    by (simp_all add: heap_ok_def)
  note c = conn_okD(1,2) [OF budgets_okD(1) [OF bok assms(5)]]
  have sok: "stream_ok (w_budgets w) (rest_leases (w_heap w) a + M) (the (w_heap w a))" if "a \<in> dom (w_heap w)" for a
    using heap_ok_stream [OF heap] that by auto
  have "(\<Sum>l\<in>#heap_leases (w_heap w). lease_share c hProtocolStream l) = length (filter (holds_slot c w) (rx_streams w))"
    unfolding heap_shares [OF fin] slots_in_table [OF tok fin, symmetric]
    by (rule sum.cong [OF refl stream_shares(1) [OF sok]])
  moreover have "(\<Sum>l\<in>#heap_leases (w_heap w). lease_share c hReceiveBytes l)
     = (\<Sum>a\<in>dom (w_heap w). if lease_state (receive (the (w_heap w a))) = Some c then length (stored_body (the (w_heap w a))) else 0)"
    unfolding heap_shares [OF fin] by (rule sum.cong [OF refl stream_shares(2) [OF sok]])
  ultimately show ?thesis using c [of r] c(1) [of hProtocolStream] c(1) [of hReceiveBytes] by simp
qed

theorem receive_accounting_witness:
  "\<exists>w en c st. rx_run sample_env (w, {#snd sample_store#}) \<and> map_of (rx_streams w) 1 = Some en
     \<and> conns (w_budgets w) c = Some st \<and> 0 < used st hProtocolStream
     \<and> used st hProtocolStream = length (filter (holds_slot c w) (rx_streams w))
         + (\<Sum>l\<in>#{#snd sample_store#}. lease_share c hProtocolStream l)"
proof -
  obtain w en s where w: "rx_run sample_env (w, {#snd sample_store#})" "map_of (rx_streams w) 1 = Some en"
    "w_heap w (ent_stream en) = Some s" "protocolOpen s"
    using sample_open by (auto simp: data_fits_def)
  from w(4) obtain c where c: "lease_state (protocol s) = Some c" by (auto simp: protocolOpen_def lease_held_def)
  have heap: "heap_ok {#snd sample_store#} w" using rx_run_ok [OF sample_env_ok(1,2) w(1)] by (simp add: rx_ok_def)
  have "lease_ok (w_budgets w) (protocol s)"
    using heap_ok_stream [OF heap w(3)] budgets_okD(3) by (auto simp: stream_ok_def stream_leases_def)
  with c obtain st where st: "conns (w_budgets w) c = Some st" by (auto simp: lease_ok_def)
  have "(1, en) \<in> set (filter (holds_slot c w) (rx_streams w))"
    using map_of_SomeD [OF w(2)] w(3) c by (simp add: holds_slot_def)
  then have "0 < length (filter (holds_slot c w) (rx_streams w))" by (rule length_pos_if_in_set)
  with receive_accounting [OF sample_env_ok w(1) st] w st show ?thesis by fastforce
qed

text \<open>
  C12. No application sees a request with a wrong length: on a server, whenever a stream's body
  counts as received while its application has not returned, its header block was sealed, and if
  the block declares a content length, the body has exactly that many bytes. (After the application has
  returned, the session ends a request whose remaining DATA it dropped without this check.)
\<close>

theorem request_length_exact:
  assumes "callbacks_ok env" and "allocator_ok env" and "e_role env = hServer" and "rx_run env (w, M)"
    and "w_heap w a = Some s" and "bodyComplete s" and "\<not> bodyFailed s" and "\<not> applicationFinished s"
  shows "headers_sealed (initialHeaders s)
    \<and> (\<forall>n. headers_contentLength (initialHeaders s) = Some n \<longrightarrow> length (stream_body s) = n)"
proof -
  have "table_ok {} w" using rx_run_ok [OF assms(1,2,4)] assms(3) by (simp add: rx_ok_def)
  from table_okD(5) [OF this assms(5)] show ?thesis
    using assms(6-8) by (simp add: message_ok_def stream_body_stored)
qed

theorem request_length_exact_witness:
  "\<exists>w a s. rx_run sample_env (w, {#snd sample_store#}) \<and> w_heap w a = Some s \<and> \<not> applicationFinished s
     \<and> length (stream_body s) = 3"
proof -
  obtain w a s where s: "rx_run sample_env (w, {#snd sample_store#})" "w_heap w a = Some s" "bodyComplete s" "\<not> bodyFailed s"
    "\<not> applicationFinished s" "headers_contentLength (initialHeaders s) = Some 3" using sample_message by blast
  from request_length_exact [OF sample_env_ok s(1-5)] s show ?thesis by blast
qed

text \<open>
  C23. The table of a server: its keys are distinct, odd and positive, every entry points to the
  stream with that id, an open stream is always in the table, and after a connection error the
  table is empty and no stream is open.
\<close>

theorem receive_table:
  assumes "callbacks_ok env" and "allocator_ok env" and "e_role env = hServer" and "rx_run env (w, M)"
  shows "distinct (map fst (rx_streams w))
    \<and> (\<forall>i en. map_of (rx_streams w) i = Some en \<longrightarrow>
         0 < i \<and> odd i \<and> (\<exists>s. w_heap w (ent_stream en) = Some s \<and> stream_id s = i))
    \<and> (\<forall>a s. w_heap w a = Some s \<and> protocolOpen s \<longrightarrow>
         (\<exists>i en. map_of (rx_streams w) i = Some en \<and> ent_stream en = a))
    \<and> (is_error (connectionError w) \<longrightarrow> rx_streams w = [] \<and> (\<forall>a s. w_heap w a = Some s \<longrightarrow> \<not> protocolOpen s))"
proof -
  have tok: "table_ok {} w" using rx_run_ok [OF assms(1,2,4)] assms(3) by (simp add: rx_ok_def)
  have 1: "0 < i \<and> odd i \<and> (\<exists>s. w_heap w (ent_stream en) = Some s \<and> stream_id s = i)"
    if "map_of (rx_streams w) i = Some en" for i en
    using table_okD(3) [OF tok map_of_SomeD [OF that]] by (auto simp: entry_points_def)
  have 2: "\<exists>i en. map_of (rx_streams w) i = Some en \<and> ent_stream en = a"
    if "w_heap w a = Some s" "protocolOpen s" for a s
  proof -
    have "a \<in> set (addresses (rx_streams w))"
      using table_okD(6) [OF tok that(1)] that(2) by (simp add: protocolOpen_def)
    then obtain i en where "(i, en) \<in> set (rx_streams w)" "ent_stream en = a" by (auto simp: addresses_def)
    with map_of_is_SomeI [OF table_okD(1) [OF tok]] show ?thesis by blast
  qed
  have 3: "is_error (connectionError w) \<longrightarrow> rx_streams w = []" using table_okD(4) [OF tok] by blast
  with 2 have "is_error (connectionError w) \<longrightarrow> (\<forall>a s. w_heap w a = Some s \<longrightarrow> \<not> protocolOpen s)"
    by fastforce
  with 1 2 3 table_okD(1) [OF tok] show ?thesis by blast
qed

theorem receive_table_witness:
  "\<exists>w en. rx_run sample_env (w, {#snd sample_store#}) \<and> map_of (rx_streams w) 1 = Some en
     \<and> (\<exists>s. w_heap w (ent_stream en) = Some s \<and> stream_id s = 1)"
proof -
  obtain w en where w: "rx_run sample_env (w, {#snd sample_store#})" "map_of (rx_streams w) 1 = Some en"
    using sample_open by blast
  from receive_table [OF sample_env_ok w(1)] w show ?thesis by blast
qed

text \<open>
  Stream identifiers are not reused: an id that is not in the table although it is not above
  the last one admitted never comes back into it, whatever happens later.
\<close>

theorem stream_id_not_reused:
  assumes "callbacks_ok env" and "e_role env = hServer"
    and "map_of (rx_streams w) i = None" and "i \<le> lastServerStreamId w"
    and "rx_steps env (w, M) (w', M')"
  shows "rx_find i w' = None \<and> i \<le> lastServerStreamId w'"
  using rx_steps_ids [OF assms(1,2,5)] assms(3,4)
  by (auto simp: ids_later_def rx_find_def map_of_eq_None_iff)

theorem stream_id_not_reused_witness:
  "\<exists>w w'. rx_run sample_env (w, {#snd sample_store#})
     \<and> rx_steps sample_env (onStreamClose 9 1 h2NoError w, {#snd sample_store#}) (w', {#snd sample_store#})
     \<and> onBeginHeaders sample_env 9 1 (onStreamClose 9 1 h2NoError w) = (Inr h2StreamClosed, w')
     \<and> rx_find 1 w' = None"
proof -
  obtain w en where w: "rx_run sample_env (w, {#snd sample_store#})" "map_of (rx_streams w) 1 = Some en" "lastServerStreamId w = 1"
    using sample_open by blast
  let ?w1 = "onStreamClose 9 1 h2NoError w"
  have l: "lastServerStreamId ?w1 = 1" using w by (simp add: onStreamClose_def stream_do_frame)
  have n: "map_of (rx_streams ?w1) 1 = None"
    using w by (auto simp: onStreamClose_def stream_do_frame map_of_eq_None_iff set_erase)
  have ce: "\<not> is_error (connectionError ?w1)"
  proof -
    have "table_ok {} w" using rx_run_ok [OF sample_env_ok(1,2) w(1)] sample_env_ok(3) by (simp add: rx_ok_def)
    from table_okD(4) [OF this] w(2) show ?thesis by (auto simp: onStreamClose_def close_op.do_frame)
  qed
  have b: "onBeginHeaders sample_env 9 1 ?w1 = (Inr h2StreamClosed, ?w1)"
    using l n ce by (simp add: onBeginHeaders_def)
  have "rx_steps sample_env (?w1, {#snd sample_store#}) (?w1, {#snd sample_store#})"
    by (rule rx_next [OF rx_none rx_begin [OF b]])
  from stream_id_not_reused [OF sample_env_ok(1,3) n _ this] l w b this show ?thesis by auto
qed

text \<open>
  DATA is stored before it is credited: when \<open>onData\<close> accepts, exactly the bytes received are
  appended to the body and exactly their number is given back to the flow-control window, once;
  otherwise no credit is given, the stream is closed and out of the table and its body is what
  it was.
\<close>

theorem data_stored_then_credited:
  assumes "callbacks_ok env" and "allocator_ok env" and "rx_run env (w, M)"
    and "map_of (rx_streams w) i = Some en" and "w_heap w (ent_stream en) = Some s"
    and "onData env now i data memory w = (Inr c, w')"
  shows "\<exists>s'. w_heap w' (ent_stream en) = Some s'
    \<and> (if c = h2NoError
       then stored_body s' = stored_body s @ data
          \<and> (\<exists>ce. \<not> is_error ce \<and> e_consume env (w_codec w) i (length data) = (ce, w_codec w'))
       else stored_body s' = stored_body s \<and> w_codec w' = w_codec w \<and> rx_find i w' = None \<and> \<not> protocolOpen s')"
proof (cases "data_fits en s data")
  case False
  from onData_refused [OF assms(4,5) False, of env now memory] obtain e
    where "c = rejectionCode e" "w' = snd (reject now i e w)" using assms(6) by auto
  with reject_effect [OF assms(4,5), of now e] rejectionCode_error [of e] show ?thesis by auto
next
  case fits: True
  obtain x s1 b' where a: "appendBody (w_budgets w) s data now memory = (x, s1, b')"
    by (cases "appendBody (w_budgets w) s data now memory") auto
  define w1 where "w1 = w\<lparr>w_heap := (w_heap w)(ent_stream en \<mapsto> s1), w_budgets := b'\<rparr>"
  note eq = onData_stored [OF assms(4,5) fits a w1_def, of env, unfolded assms(6)]
  have sok: "stream_ok (w_budgets w) (rest_leases (w_heap w) (ent_stream en) + M) s"
    using rx_run_ok [OF assms(1-3)] assms(5) heap_ok_stream by (auto simp: rx_ok_def)
  obtain e where x: "x = Inr e" using eq by (cases x) auto
  show ?thesis
  proof (cases "is_error e")
    case True
    have st: "stored_body s1 = stored_body s" using append_error_keeps [OF sok a [unfolded x]] True by blast
    have m1: "map_of (rx_streams w1) i = Some en" and h1: "w_heap w1 (ent_stream en) = Some s1"
      using assms(4) by (simp_all add: w1_def)
    have cw: "c = rejectionCode e" "w' = snd (reject now i e w1)" using eq x True by auto
    from reject_effect [OF m1 h1, of now e] rejectionCode_error [of e] st show ?thesis
      by (auto simp: cw w1_def)
  next
    case False
    obtain ce k' where k: "e_consume env (w_codec w1) i (length data) = (ce, k')" by force
    have ce: "\<not> is_error ce"
      using eq x False k by (auto simp: checkOperation_def Let_def split: if_splits)
    with eq x False k have w': "w' = w1\<lparr>w_codec := k'\<rparr>" "c = h2NoError" by (auto simp: checkOperation_def)
    have "stored_body s1 = stored_body s @ data" using append_success [OF sok a [unfolded x]] False by blast
    with ce k show ?thesis by (auto simp: w' w1_def)
  qed
qed

theorem data_stored_then_credited_witness:
  "\<exists>w (en :: Entry) s w' s'. onData sample_env 5 1 ''abc'' True w = (Inr h2NoError, w') \<and> w_heap w (ent_stream en) = Some s
     \<and> w_heap w' (ent_stream en) = Some s' \<and> stored_body s' = stored_body s @ ''abc''
     \<and> (\<exists>ce. \<not> is_error ce \<and> e_consume sample_env (w_codec w) 1 (length ''abc'') = (ce, w_codec w'))"
proof -
  obtain w en s w' where w: "rx_run sample_env (w, {#snd sample_store#})" "map_of (rx_streams w) 1 = Some en"
    "w_heap w (ent_stream en) = Some s" "onData sample_env 5 1 ''abc'' True w = (Inr h2NoError, w')"
    using sample_data by blast
  from data_stored_then_credited [OF sample_env_ok(1,2) w]
  have "\<exists>s'. w_heap w' (ent_stream en) = Some s' \<and> stored_body s' = stored_body s @ ''abc''
     \<and> (\<exists>ce. \<not> is_error ce \<and> e_consume sample_env (w_codec w) 1 (length ''abc'') = (ce, w_codec w'))"
    by (simp only: if_True simp_thms)
  then obtain s' where "w_heap w' (ent_stream en) = Some s' \<and> stored_body s' = stored_body s @ ''abc''
     \<and> (\<exists>ce. \<not> is_error ce \<and> e_consume sample_env (w_codec w) 1 (length ''abc'') = (ce, w_codec w'))" ..
  then show ?thesis using w(3,4)
    by - (rule exI [of _ w], rule exI [of _ en], rule exI [of _ s], rule exI [of _ w'], rule exI [of _ s'], blast)
qed

end
