(* ===== verification/H2_Output.thy ===== *)
theory H2_Output
  imports H2_Headers "HOL-Library.Sublist"
begin

unbundle bit_operations_syntax

text \<open>
  The output side of an HTTP/2 connection: \<^verbatim>\<open>src/src/core/http2/Http2Output.cpp\<close>. Producers queue the bytes
  of a body, the codec reads them while it serialises a batch, and the writer acknowledges what it wrote.
  Queued bytes, reserved file reads and the batch are charged to the send budget of the connection.

  A producer is shared by the application and the codec; it is an address of the heap, and the table of
  producers has weak pointers to it. The codec wraps nghttp2, which is not part of the sources: what it
  answers to the calls of an operation is an argument (\<open>Codec\<close>), and \<open>memSend\<close> is the list of callbacks
  it makes and its result. Callbacks of the application only signal; they are counted. Allocation failures
  are arguments.
\<close>

section \<open>State\<close>

definition kFrameHeaderBytes :: nat where "kFrameHeaderBytes = 9"
definition kClientPrefaceBytes :: nat where "kClientPrefaceBytes = 24"
definition kMinimumWireCapacity :: nat where "kMinimumWireCapacity = 128"
definition kHeaderEncodingSlack :: nat where "kHeaderEncodingSlack = 32"
definition kMaxProducerChunks :: nat where "kMaxProducerChunks = 64"
definition kEndHeaders :: byte where "kEndHeaders = 0x04"
definition kEndStream :: byte where "kEndStream = 0x01"
definition hData :: byte where "hData = 0"
definition hHeaders :: byte where "hHeaders = 1"
definition hContinuation :: byte where "hContinuation = 9"

definition cancelledError :: "int \<Rightarrow> NetworkError" where
  "cancelledError sid = h2_error hOperationAborted ''HTTP/2 output stopped'' h2Cancel sid"

definition resourceError :: "int \<Rightarrow> NetworkError" where
  "resourceError sid = h2_error hResourceLimitExceeded ''HTTP/2 send queue limit'' h2EnhanceYourCalm sid"

definition allocationError :: "int \<Rightarrow> NetworkError" where
  "allocationError sid = h2_error hResourceLimitExceeded [] h2InternalError sid"

text \<open>
  \<open>Producer::Impl\<close>. \<open>appended\<close> and \<open>taken\<close> record the bytes the application has queued and the codec has
  read, \<open>trailerBytes\<close> what \<open>finish\<close> was charged for the trailers.
\<close>

record Producer =
  p_lease :: Lease
  chunks :: "string list"
  trailerBlock :: "Http2Headers option"
  frontOffset :: nat
  p_streamId :: int
  finished :: bool
  cancelled :: bool
  deferred :: bool
  eofRead :: bool
  readStarted :: bool
  cancelHandler :: bool
  appended :: string
  taken :: string
  trailerBytes :: nat

text \<open>\<open>ReadPermit\<close>; \<open>pm_live\<close> is that \<open>state_\<close> is not null.\<close>

record ReadPermit =
  pm_live :: bool
  pm_lease :: Lease
  pm_streamId :: int

text \<open>
  \<open>State\<close> and \<open>Impl\<close>, with the budgets of the process. \<open>readers\<close> are the timers of waiting file readers
  and whether each has been cancelled; timers that are gone have no effect. \<open>permits\<close> are the permits file
  readers hold, \<open>signals\<close> counts the calls of the wake-up and of the cancel handlers.
\<close>

record Output =
  o_budgets :: budgets
  o_budget :: Http2Budget
  o_options :: Http2Options
  wireCapacity :: size_t
  queuedBytes :: size_t
  o_closed :: bool
  pumping :: bool
  readCredit :: bool
  selectedStream :: int
  lastReadStream :: int
  wakeup :: bool
  producers :: "(int \<times> nat) list"
  pendingEnds :: "int list"
  readers :: "(nat \<times> bool) list"
  wireLease :: Lease
  batch :: "byte list"
  offset :: nat
  prefaceRemaining :: nat
  frameHeader :: "byte list"
  headerUsed :: nat
  payloadRemaining :: nat
  continuedEndStream :: int
  heap :: "nat \<Rightarrow> Producer option"
  permits :: "ReadPermit list"
  signals :: nat

record Codec =
  codec_role :: Role
  peerWindow :: "int \<Rightarrow> int"
  activeLocalStreamCount :: nat
  peerMaxConcurrentStreams :: nat
  resume :: "int \<Rightarrow> NetworkError"
  submitTrailers :: "int \<Rightarrow> Field list \<Rightarrow> NetworkError"

definition wake :: "Output \<Rightarrow> Output" where
  "wake o1 = (if wakeup o1 then o1\<lparr>signals := Suc (signals o1)\<rparr> else o1)"

definition notifyReaders :: "Output \<Rightarrow> Output" where
  "notifyReaders o1 = o1\<lparr>readers := map (\<lambda>(t, _). (t, True)) (readers o1)\<rparr>"

definition set_producer :: "nat \<Rightarrow> Producer \<Rightarrow> Output \<Rightarrow> Output" where
  "set_producer a p o1 = o1\<lparr>heap := (heap o1)(a \<mapsto> p)\<rparr>"

text \<open>\<open>State\<close> and \<open>Impl\<close>: an exception, or the output.\<close>

definition new_output :: "budgets \<Rightarrow> Role \<Rightarrow> Http2Budget \<Rightarrow> Http2Options \<Rightarrow> string + Output" where
  "new_output b role bud opt =
     (let headerFrames = maxHeaderBytes opt div kMinFrameBytes + 1;
          headerOverhead = kHeaderEncodingSlack + headerFrames * kFrameHeaderBytes;
          cap = max kMinimumWireCapacity (max (maxOutputBatchBytes opt) (maxHeaderBytes opt + headerOverhead))
      in if validationError opt \<noteq> [] then Inl (validationError opt)
         else if maxHeaderBytes opt > maxConnectionSendBytes opt
              \<or> headerOverhead \<ge> size_sub (maxConnectionSendBytes opt) (maxHeaderBytes opt)
         then Inl ''send budget too small for a bounded header block and payload''
         else if cap \<ge> maxConnectionSendBytes opt then Inl ''wire reservation must be below the send budget''
         else case tryAcquireSend b bud cap of
                (l, b') \<Rightarrow>
                  if \<not> lease_held l then Inl ''connection budget too small for the wire reservation''
                  else Inr \<lparr>o_budgets = b', o_budget = bud, o_options = opt, wireCapacity = cap, queuedBytes = 0, o_closed = False,
                    pumping = False, readCredit = False, selectedStream = 0, lastReadStream = 0, wakeup = False, producers = [],
                    pendingEnds = [], readers = [], wireLease = l, batch = [], offset = 0,
                    prefaceRemaining = (if role = hClient then kClientPrefaceBytes else 0), frameHeader = replicate kFrameHeaderBytes 0,
                    headerUsed = 0, payloadRemaining = 0, continuedEndStream = 0, heap = (\<lambda>_. None), permits = [], signals = 0\<rparr>)"

section \<open>Producers\<close>

definition canProduce :: "Output \<Rightarrow> Producer \<Rightarrow> NetworkError" where
  "canProduce o1 p =
     (if o_closed o1 \<or> cancelled p then cancelledError (p_streamId p)
      else if finished p then net_error hInvalidConfiguration ''producer already finished''
      else ok_error)"

text \<open>\<open>Impl::resize\<close>. Operations on a producer take it out of the heap and put it back.\<close>

definition p_resize :: "nat \<Rightarrow> Producer \<times> Output \<Rightarrow> bool \<times> Producer \<times> Output" where
  "p_resize n q =
     (case q of (p, o1) \<Rightarrow>
        case tryResize (o_budgets o1) (p_lease p) n of
          (False, l, b) \<Rightarrow> (False, p\<lparr>p_lease := l\<rparr>, o1\<lparr>o_budgets := b\<rparr>)
        | (True, l, b) \<Rightarrow>
            (True, p\<lparr>p_lease := l\<rparr>,
             o1\<lparr>o_budgets := b, queuedBytes := size_add (size_sub (queuedBytes o1) (lease_amount (p_lease p))) n\<rparr>))"

text \<open>\<open>Impl::ready\<close>; the codec is there as long as the output is not closed.\<close>

definition p_ready :: "Codec \<Rightarrow> Producer \<times> Output \<Rightarrow> NetworkError \<times> Producer \<times> Output" where
  "p_ready cd q =
     (case q of (p, o1) \<Rightarrow>
        if deferred p \<and> \<not> o_closed o1
        then let e = resume cd (p_streamId p)
             in if is_error e then (e, p, o1) else (ok_error, p\<lparr>deferred := False\<rparr>, wake o1)
        else (ok_error, p, wake o1))"

definition new_producer :: "int \<Rightarrow> Output \<Rightarrow> Producer \<times> Output" where
  "new_producer sid o1 =
     (case tryAcquireSend (o_budgets o1) (o_budget o1) 0 of
        (l, b) \<Rightarrow> (\<lparr>p_lease = l, chunks = [], trailerBlock = None, frontOffset = 0, p_streamId = sid, finished = False, cancelled = False,
          deferred = False, eofRead = False, readStarted = False, cancelHandler = False, appended = [], taken = [], trailerBytes = 0\<rparr>,
          o1\<lparr>o_budgets := b\<rparr>))"

text \<open>\<open>~Producer\<close>, after the last owner has dropped it.\<close>

definition drop_producer :: "nat \<Rightarrow> Output \<Rightarrow> Output" where
  "drop_producer a o1 =
     (case heap o1 a of
        None \<Rightarrow> o1
      | Some p \<Rightarrow>
          (case lease_reset (o_budgets o1) (p_lease p) of
             (_, b) \<Rightarrow> o1\<lparr>queuedBytes := size_sub (queuedBytes o1) (lease_amount (p_lease p)), o_budgets := b, heap := (heap o1)(a := None)\<rparr>))"

text \<open>
  Queuing \<open>bytes\<close> that are not empty: the common part of \<open>append\<close>, \<open>appendOwned\<close> and \<open>appendChunks\<close>. \<open>memory\<close> is whether the
  allocation succeeds.
\<close>

definition enqueue :: "Codec \<Rightarrow> bool \<Rightarrow> string \<Rightarrow> Producer \<times> Output \<Rightarrow> NetworkError \<times> Producer \<times> Output" where
  "enqueue cd memory dat q =
     (let p = fst q; previous = lease_amount (p_lease p) in
      if length (chunks p) \<ge> kMaxProducerChunks \<or> length dat > (size_modulus - 1) - previous then (resourceError (p_streamId p), q)
      else case p_resize (previous + length dat) q of
             (False, q1) \<Rightarrow> (resourceError (p_streamId p), q1)
           | (True, q1) \<Rightarrow>
               if \<not> memory then (allocationError (p_streamId p), snd (p_resize previous q1))
               else case q1 of (p1, o1) \<Rightarrow>
                      (case p_ready cd (p1\<lparr>chunks := chunks p1 @ [dat], appended := appended p1 @ dat\<rparr>, o1) of
                         (e, p2, o2) \<Rightarrow>
                           if is_error e
                           then (e, snd (p_resize previous (p2\<lparr>chunks := butlast (chunks p2), appended := appended p1\<rparr>, o2)))
                           else (e, p2, o2)))"

definition with_producer :: "nat \<Rightarrow> (Producer \<times> Output \<Rightarrow> 'r \<times> Producer \<times> Output) \<Rightarrow> 'r \<Rightarrow> Output \<Rightarrow> 'r \<times> Output" where
  "with_producer a f none o1 =
     (case heap o1 a of
        None \<Rightarrow> (none, o1)
      | Some p \<Rightarrow> (case f (p, o1) of (r, p', o2) \<Rightarrow> (r, set_producer a p' o2)))"

definition p_append :: "Codec \<Rightarrow> bool \<Rightarrow> string \<Rightarrow> Producer \<times> Output \<Rightarrow> NetworkError \<times> Producer \<times> Output" where
  "p_append cd memory dat q =
     (let e = canProduce (snd q) (fst q) in
      if is_error e then (e, q)
      else if dat = [] then (ok_error, q)
      else enqueue cd memory dat q)"

text \<open>\<open>appendOwned\<close>: what is left in the caller's string is the second result.\<close>

definition appendOwned :: "Codec \<Rightarrow> bool \<Rightarrow> string \<Rightarrow> Producer \<times> Output \<Rightarrow> (NetworkError \<times> string) \<times> Producer \<times> Output" where
  "appendOwned cd memory dat q =
     (let e = canProduce (snd q) (fst q) in
      if is_error e then ((e, dat), q)
      else if dat = [] then ((ok_error, dat), q)
      else case enqueue cd memory dat q of (e', q') \<Rightarrow> ((e', if is_error e' then dat else []), q'))"

fun chunks_total :: "string list \<Rightarrow> nat \<Rightarrow> nat option" where
  "chunks_total [] amount = Some amount"
| "chunks_total (c # cs) amount =
     (if length c > (size_modulus - 1) - amount then None else chunks_total cs (amount + length c))"

definition appendChunks :: "Codec \<Rightarrow> bool \<Rightarrow> string list \<Rightarrow> Producer \<times> Output \<Rightarrow> NetworkError \<times> Producer \<times> Output" where
  "appendChunks cd memory cs q =
     (let e = canProduce (snd q) (fst q) in
      if is_error e then (e, q)
      else case chunks_total cs 0 of
             None \<Rightarrow> (resourceError (p_streamId (fst q)), q)
           | Some amount \<Rightarrow> if amount = 0 then (ok_error, q) else enqueue cd memory (concat cs) q)"

text \<open>The loop over the trailers in \<open>finish\<close>: their charge, unless one limit is exceeded.\<close>

fun trailer_size :: "size_t \<Rightarrow> Field list \<Rightarrow> nat \<Rightarrow> nat option" where
  "trailer_size limit [] acc = Some acc"
| "trailer_size limit ((n, v) # fs) acc =
     (if length n > limit \<or> length v > limit - length n \<or> kHeaderFieldOverheadBytes > limit - length n - length v then None
      else let sz = length n + length v + kHeaderFieldOverheadBytes
           in if sz > limit - acc then None else trailer_size limit fs (acc + sz))"

fun append_trailers :: "(string \<Rightarrow> byte list option) \<Rightarrow> Field list \<Rightarrow> Http2Headers \<Rightarrow> NetworkError \<times> Http2Headers" where
  "append_trailers v6 [] h = (ok_error, h)"
| "append_trailers v6 ((n, v) # fs) h =
     (case headers_append v6 h n v of (e, h') \<Rightarrow> if is_error e then (e, h') else append_trailers v6 fs h')"

text \<open>The sealed block of the trailers, none if there are no trailers.\<close>

definition trailer_block ::
  "(string \<Rightarrow> byte list option) \<Rightarrow> int \<Rightarrow> Http2Options \<Rightarrow> Field list \<Rightarrow> string + (NetworkError \<times> Http2Headers option)" where
  "trailer_block v6 sid opt fs =
     (if fs = [] then Inr (ok_error, None)
      else case new_storage hTrailers sid opt of
             Inl m \<Rightarrow> Inl m
           | Inr st \<Rightarrow>
               (case append_trailers v6 fs (Some st) of
                  (e, h) \<Rightarrow> if is_error e then Inr (e, None)
                            else case headers_seal v6 h of (e', h') \<Rightarrow> Inr (e', Some h')))"

text \<open>\<open>finish\<close>: \<open>Inl\<close> is an exception of the constructor of the header block.\<close>

definition p_finish ::
  "(string \<Rightarrow> byte list option) \<Rightarrow> Codec \<Rightarrow> bool \<Rightarrow> Field list \<Rightarrow> Producer \<times> Output \<Rightarrow> (string + NetworkError) \<times> Producer \<times> Output" where
  "p_finish v6 cd memory fs q =
     (let p = fst q; e0 = canProduce (snd q) p; previous = lease_amount (p_lease p) in
      if is_error e0 then (Inr e0, q)
      else case trailer_size (maxHeaderBytes (o_options (snd q))) fs 0 of
        None \<Rightarrow> (Inr (resourceError (p_streamId p)), q)
      | Some tb \<Rightarrow>
          if tb > (size_modulus - 1) - previous then (Inr (resourceError (p_streamId p)), q)
          else case p_resize (previous + tb) q of
            (False, q1) \<Rightarrow> (Inr (resourceError (p_streamId p)), q1)
          | (True, p1, o1) \<Rightarrow>
              if \<not> memory then (Inr (allocationError (p_streamId p)), snd (p_resize previous (p1, o1)))
              else
                (case trailer_block v6 (p_streamId p) (o_options o1) fs of
                   Inl m \<Rightarrow> (Inl m, p1, o1)
                 | Inr (e, blk) \<Rightarrow>
                     if is_error e then (Inr e, snd (p_resize previous (p1, o1)))
                     else case p_ready cd (p1\<lparr>trailerBlock := (if fs = [] then trailerBlock p1 else blk), trailerBytes := tb, finished := True\<rparr>, o1) of
                            (e', p2, o2) \<Rightarrow>
                              if is_error e'
                              then (Inr e', snd (p_resize previous (p2\<lparr>finished := False, trailerBlock := None, trailerBytes := 0\<rparr>, o2)))
                              else (Inr e', p2, o2)))"

definition p_stop :: "bool \<Rightarrow> Producer \<times> Output \<Rightarrow> Producer \<times> Output" where
  "p_stop cancelPending q =
     (case q of (p, o0) \<Rightarrow>
        let o1 = (if cancelPending then o0\<lparr>pendingEnds := removeAll (p_streamId p) (pendingEnds o0)\<rparr> else o0) in
        if cancelled p then (p, o1)
        else let o2 = (if selectedStream o1 = p_streamId p then o1\<lparr>selectedStream := 0, readCredit := False\<rparr> else o1);
                 p1 = p\<lparr>cancelled := True, chunks := [], trailerBlock := None, trailerBytes := 0, frontOffset := 0\<rparr>
             in (case p_resize 0 (p1, o2) of
                   (_, p2, o3) \<Rightarrow>
                     let o4 = notifyReaders o3
                     in (p2, wake (if cancelHandler p2 then o4\<lparr>signals := Suc (signals o4)\<rparr> else o4))))"

definition p_cancel :: "Producer \<times> Output \<Rightarrow> Producer \<times> Output" where
  "p_cancel q = p_stop True q"

definition setCancelHandler :: "bool \<Rightarrow> Producer \<times> Output \<Rightarrow> Producer \<times> Output" where
  "setCancelHandler present q =
     (case q of (p, o1) \<Rightarrow>
        (p\<lparr>cancelHandler := present\<rparr>, if cancelled p \<and> present then o1\<lparr>signals := Suc (signals o1)\<rparr> else o1))"

definition acquireApplicationTask :: "Producer \<times> Output \<Rightarrow> Lease \<times> Output" where
  "acquireApplicationTask q =
     (case q of (p, o1) \<Rightarrow>
        if is_error (canProduce o1 p) then (empty_lease, o1)
        else case tryAcquireApplicationTask (o_budgets o1) (o_budget o1) of (l, b) \<Rightarrow> (l, o1\<lparr>o_budgets := b\<rparr>))"

record DataRead =
  dr_bytes :: string
  dr_eof :: bool
  dr_deferred :: bool
  dr_error :: NetworkError

text \<open>How much \<open>read\<close> copies, given the buffer and what is left of the first chunk, and the copy, which removes the chunk if it ends.\<close>

definition read_count :: "nat \<Rightarrow> Output \<Rightarrow> nat \<Rightarrow> nat" where
  "read_count room o1 left =
     (let batchLimit = maxOutputBatchBytes (o_options o1);
          quantum = (if batchLimit > kFrameHeaderBytes then batchLimit - kFrameHeaderBytes else 1)
      in min room (min (wireCapacity o1 - kFrameHeaderBytes) (min quantum left)))"

definition p_take :: "nat \<Rightarrow> Producer \<times> Output \<Rightarrow> string \<times> Producer \<times> Output" where
  "p_take k q =
     (case q of (p, o1) \<Rightarrow>
        let chunk = hd (chunks p); got = take k (drop (frontOffset p) chunk);
            p1 = p\<lparr>frontOffset := frontOffset p + k, taken := taken p @ got\<rparr> in
        if frontOffset p1 = length chunk
        then (case p_resize (size_sub (lease_amount (p_lease p1)) (length chunk)) (p1\<lparr>chunks := tl (chunks p1), frontOffset := 0\<rparr>, o1) of
                (_, p2, o2) \<Rightarrow> (got, p2, notifyReaders o2))
        else (got, p1, o1))"

text \<open>\<open>read\<close> into a buffer of \<open>room\<close> bytes.\<close>

definition p_read :: "nat \<Rightarrow> Producer \<times> Output \<Rightarrow> DataRead \<times> Producer \<times> Output" where
  "p_read room q =
     (case q of (p, o1) \<Rightarrow>
        let wait = (\<lparr>dr_bytes = [], dr_eof = False, dr_deferred = True, dr_error = ok_error\<rparr>, p\<lparr>deferred := True\<rparr>, o1) in
        if o_closed o1 \<or> cancelled p
        then (\<lparr>dr_bytes = [], dr_eof = False, dr_deferred = False, dr_error = cancelledError (p_streamId p)\<rparr>, p, o1)
        else if chunks p = [] \<and> \<not> finished p then wait
        else if selectedStream o1 \<noteq> p_streamId p \<or> \<not> readCredit o1 then wait
        else
          let o2 = o1\<lparr>readCredit := False, lastReadStream := p_streamId p\<rparr>; p1 = p\<lparr>readStarted := True\<rparr> in
          if chunks p1 = []
          then (\<lparr>dr_bytes = [], dr_eof = True, dr_deferred = False, dr_error = ok_error\<rparr>, p1\<lparr>eofRead := True\<rparr>, o2)
          else if wireCapacity o2 \<le> kFrameHeaderBytes \<or> room = 0
          then (\<lparr>dr_bytes = [], dr_eof = False, dr_deferred = False, dr_error = resourceError (p_streamId p)\<rparr>, p1, o2)
          else
            (case p_take (read_count room o2 (length (hd (chunks p1)) - frontOffset p1)) (p1, o2) of
               (got, p3, o3) \<Rightarrow>
                 let eof = finished p3 \<and> chunks p3 = []
                 in (\<lparr>dr_bytes = got, dr_eof = eof, dr_deferred = False, dr_error = ok_error\<rparr>, p3\<lparr>eofRead := eof\<rparr>, o3)))"

definition p_trailers :: "Producer \<Rightarrow> Field list" where
  "p_trailers p = (case trailerBlock p of Some h \<Rightarrow> headers_fields h | None \<Rightarrow> [])"

definition drop_entry :: "int \<Rightarrow> Output \<Rightarrow> Output" where
  "drop_entry sid o1 = o1\<lparr>producers := filter (\<lambda>(i, _). i \<noteq> sid) (producers o1)\<rparr>"

definition p_onClose :: "Http2Code \<Rightarrow> Producer \<times> Output \<Rightarrow> Producer \<times> Output" where
  "p_onClose code q = (case p_stop (code \<noteq> h2NoError) q of (p, o1) \<Rightarrow> (p, drop_entry (p_streamId p) o1))"

section \<open>File readers\<close>

text \<open>\<open>ReadPermit::release\<close>.\<close>

definition release :: "ReadPermit \<Rightarrow> Output \<Rightarrow> ReadPermit \<times> Output" where
  "release pm o1 =
     (case lease_reset (o_budgets o1) (pm_lease pm) of
        (l, b) \<Rightarrow> (pm\<lparr>pm_lease := l, pm_live := False\<rparr>,
                   if pm_live pm then notifyReaders (o1\<lparr>o_budgets := b\<rparr>) else o1\<lparr>o_budgets := b\<rparr>))"

datatype attempt = Granted ReadPermit | Refused NetworkError | Waits

text \<open>\<open>reserveOwned\<close> up to its loop, and one round of the loop; timer \<open>t\<close> waits after it if it says so.\<close>

definition reserve_begin :: "nat \<Rightarrow> nat \<Rightarrow> Output \<Rightarrow> NetworkError \<times> Output" where
  "reserve_begin t maximum o1 =
     (if maximum = 0 \<or> maximum > maxFilePrefetchBytes (o_options o1)
      then (net_error hInvalidConfiguration ''invalid prefetch size'', o1)
      else (ok_error, o1\<lparr>readers := readers o1 @ [(t, False)]\<rparr>))"

definition send_used :: "Output \<Rightarrow> size_t" where
  "send_used o1 = (case conns (o_budgets o1) (budget_state (o_budget o1)) of None \<Rightarrow> 0 | Some st \<Rightarrow> used st hSendBytes)"

definition reserve_round ::
  "Codec \<Rightarrow> nat \<Rightarrow> nat \<Rightarrow> int \<Rightarrow> int \<Rightarrow> Producer \<Rightarrow> Output \<Rightarrow> attempt \<times> Output" where
  "reserve_round cd t maximum deadline now p o1 =
     (let leave = (\<lambda>o2. o2\<lparr>readers := filter (\<lambda>(x, _). x \<noteq> t) (readers o2)\<rparr>);
          wait = (\<lambda>o2. o2\<lparr>readers := map (\<lambda>(x, c). (x, if x = t then False else c)) (readers o2)\<rparr>);
          e = canProduce o1 p in
      if is_error e then (Refused e, leave o1)
      else if now \<ge> deadline then (Refused (net_error hTimedOut ''file read past the deadline of the response''), leave o1)
      else
        let cw = peerWindow cd 0; sw = peerWindow cd (p_streamId p);
            available = size_sub (maxConnectionSendBytes (o_options o1)) (send_used o1) in
        if chunks p = [] \<and> cw > 0 \<and> sw > 0 \<and> available > 0
        then (case tryAcquireSend (o_budgets o1) (o_budget o1) (min maximum (min available (min (nat cw) (nat sw)))) of
                (l, b) \<Rightarrow>
                  if lease_held l
                  then let pm = \<lparr>pm_live = True, pm_lease = l, pm_streamId = p_streamId p\<rparr>
                       in (Granted pm, leave (o1\<lparr>o_budgets := b, permits := pm # permits o1\<rparr>))
                  else (Waits, wait (o1\<lparr>o_budgets := b\<rparr>)))
        else (Waits, wait o1))"

text \<open>The permit is an argument by value and ends with the call; \<open>k\<close> is its place among those held.\<close>

definition appendReserved :: "Codec \<Rightarrow> bool \<Rightarrow> string \<Rightarrow> nat \<Rightarrow> Producer \<times> Output \<Rightarrow> (NetworkError \<times> string) \<times> Producer \<times> Output" where
  "appendReserved cd memory dat k q =
     (case q of (p, o0) \<Rightarrow>
        let pm = permits o0 ! k; o1 = o0\<lparr>permits := take k (permits o0) @ drop (Suc k) (permits o0)\<rparr> in
        if \<not> pm_live pm \<or> pm_streamId pm \<noteq> p_streamId p \<or> length dat > lease_amount (pm_lease pm)
        then ((net_error hInvalidConfiguration ''permit of another producer or too many bytes'', dat), p, snd (release pm o1))
        else appendOwned cd memory dat (p, snd (release pm o1)))"

definition drop_permit :: "nat \<Rightarrow> Output \<Rightarrow> Output" where
  "drop_permit k o1 =
     snd (release (permits o1 ! k) (o1\<lparr>permits := take k (permits o1) @ drop (Suc k) (permits o1)\<rparr>))"

section \<open>Streams\<close>

definition setWakeup :: "bool \<Rightarrow> Output \<Rightarrow> Output" where
  "setWakeup present o1 = (if o_closed o1 then o1 else o1\<lparr>wakeup := present\<rparr>)"

text \<open>Where an allocation fails: not at all, before the codec takes the headers, at the table of producers, at the pending ends.\<close>

datatype memory = Enough | FailsFirst | FailsProducers | FailsEnds

record OpenResult =
  or_streamId :: int
  or_producer :: "nat option"
  or_error :: NetworkError

definition open_failed :: "NetworkError \<Rightarrow> OpenResult" where
  "open_failed e = \<lparr>or_streamId = 0, or_producer = None, or_error = e\<rparr>"

definition on_producer :: "nat \<Rightarrow> (Producer \<times> Output \<Rightarrow> Producer \<times> Output) \<Rightarrow> Output \<Rightarrow> Output" where
  "on_producer a f o1 = (case heap o1 a of None \<Rightarrow> o1 | Some p \<Rightarrow> (case f (p, o1) of (p', o2) \<Rightarrow> set_producer a p' o2))"

text \<open>\<open>emplace\<close> keeps an entry that exists.\<close>

definition add_entry :: "int \<Rightarrow> nat \<Rightarrow> Output \<Rightarrow> Output" where
  "add_entry sid a o1 = (if map_of (producers o1) sid = None then o1\<lparr>producers := (sid, a) # producers o1\<rparr> else o1)"

definition add_end :: "int \<Rightarrow> Output \<Rightarrow> Output" where
  "add_end sid o1 = (if sid \<in> set (pendingEnds o1) then o1 else o1\<lparr>pendingEnds := sid # pendingEnds o1\<rparr>)"

text \<open>
  The part that \<open>submitRequest\<close> and \<open>submitResponse\<close> share, for a new producer at the free address \<open>a\<close> and the
  answer of the codec, a stream or an error. The codec keeps the producer of a submission it accepted, so that it
  stays in the heap when the caller gets none.
\<close>

definition open_stream :: "memory \<Rightarrow> NetworkError + int \<Rightarrow> int \<Rightarrow> nat \<Rightarrow> Output \<Rightarrow> OpenResult \<times> Output" where
  "open_stream mem answer given a o0 =
     (case new_producer given o0 of
        (p, o1) \<Rightarrow>
          let o2 = set_producer a p o1 in
          if mem = FailsFirst then (open_failed (allocationError given), drop_producer a o2)
          else case answer of
                 Inl e \<Rightarrow> (open_failed e, drop_producer a o2)
               | Inr sid \<Rightarrow>
                   let o3 = set_producer a (p\<lparr>p_streamId := sid\<rparr>) o2 in
                   if mem = FailsProducers then (open_failed (allocationError sid), on_producer a p_cancel o3)
                   else let o4 = add_entry sid a o3 in
                        if mem = FailsEnds then (open_failed (allocationError sid), on_producer a p_cancel o4)
                        else (\<lparr>or_streamId = sid, or_producer = Some a, or_error = ok_error\<rparr>, wake (add_end sid o4)))"

definition submitRequest :: "memory \<Rightarrow> NetworkError + int \<Rightarrow> nat \<Rightarrow> Output \<Rightarrow> OpenResult \<times> Output" where
  "submitRequest mem answer a o1 =
     (if o_closed o1 then (open_failed (cancelledError 0), o1) else open_stream mem answer 0 a o1)"

definition submitResponse :: "memory \<Rightarrow> NetworkError \<Rightarrow> int \<Rightarrow> nat \<Rightarrow> Output \<Rightarrow> OpenResult \<times> Output" where
  "submitResponse mem answer sid a o1 =
     (if o_closed o1 then (open_failed (cancelledError sid), o1)
      else open_stream mem (if is_error answer then Inl answer else Inr sid) sid a o1)"

definition submitResponseHeaders :: "bool \<Rightarrow> NetworkError \<Rightarrow> int \<Rightarrow> Output \<Rightarrow> OpenResult \<times> Output" where
  "submitResponseHeaders memory answer sid o1 =
     (let undo = (\<lambda>o2. o2\<lparr>pendingEnds := removeAll sid (pendingEnds o2)\<rparr>) in
      if o_closed o1 then (open_failed (cancelledError sid), o1)
      else if \<not> memory then (open_failed (allocationError sid), undo o1)
      else if sid \<in> set (pendingEnds o1) then (open_failed (net_error hOperationInProgress ''response already submitted''), o1)
      else if is_error answer then (open_failed answer, undo (add_end sid o1))
      else (\<lparr>or_streamId = sid, or_producer = None, or_error = ok_error\<rparr>, wake (add_end sid o1)))"

definition cancelStream :: "int \<Rightarrow> Output \<Rightarrow> Output" where
  "cancelStream sid o0 =
     (let o1 = o0\<lparr>pendingEnds := removeAll sid (pendingEnds o0)\<rparr> in
      wake (case map_of (producers o1) sid of
              None \<Rightarrow> o1
            | Some a \<Rightarrow> on_producer a p_cancel (drop_entry sid o1)))"

definition onStreamClose :: "int \<Rightarrow> Http2Code \<Rightarrow> Output \<Rightarrow> Output" where
  "onStreamClose sid code o1 =
     (if code \<noteq> h2NoError then cancelStream sid o1
      else case map_of (producers o1) sid of
             None \<Rightarrow> o1
           | Some a \<Rightarrow> on_producer a (p_onClose code) (drop_entry sid o1))"

fun cancel_all :: "(int \<times> nat) list \<Rightarrow> Output \<Rightarrow> Output" where
  "cancel_all [] o1 = o1"
| "cancel_all ((_, a) # ps) o1 = cancel_all ps (on_producer a p_cancel o1)"

text \<open>\<open>close\<close>; the codec drops its buffered output and is not used any more.\<close>

definition o_close :: "Output \<Rightarrow> Output" where
  "o_close o1 =
     (if o_closed o1 then o1
      else (wake (cancel_all (producers o1) (o1\<lparr>o_closed := True, pendingEnds := [], producers := []\<rparr>)))\<lparr>wakeup := False\<rparr>)"

section \<open>Batches\<close>

definition o_ready :: "Codec \<Rightarrow> Producer \<Rightarrow> bool \<Rightarrow> bool" where
  "o_ready cd p mayOpenStream \<longleftrightarrow>
     (if cancelled p \<or> eofRead p \<or> (chunks p = [] \<and> \<not> finished p) then False
      else let window = peerWindow cd (p_streamId p); unknown = (window = -1 \<and> \<not> readStarted p) in
           if unknown \<and> \<not> mayOpenStream then False
           else chunks p = [] \<or> (peerWindow cd 0 > 0 \<and> (window > 0 \<or> unknown)))"

fun final_headers :: "Codec \<Rightarrow> (int \<times> nat) list \<Rightarrow> Output \<Rightarrow> NetworkError \<times> Output" where
  "final_headers cd [] o1 = (ok_error, o1)"
| "final_headers cd ((sid, a) # ps) o1 =
     (case heap o1 a of
        None \<Rightarrow> final_headers cd ps o1
      | Some p \<Rightarrow>
          if cancelled p \<or> \<not> finished p \<or> chunks p \<noteq> [] \<or> eofRead p then final_headers cd ps o1
          else if codec_role cd = hClient \<and> peerWindow cd sid = -1 \<and> \<not> readStarted p then final_headers cd ps o1
          else let e = submitTrailers cd sid (p_trailers p) in
               if is_error e then (e, o1)
               else let o2 = set_producer a (p\<lparr>eofRead := True\<rparr>) o1
                    in final_headers cd ps (if selectedStream o2 = sid then o2\<lparr>readCredit := False, selectedStream := 0\<rparr> else o2))"

definition prepareFinalHeaders :: "Codec \<Rightarrow> Output \<Rightarrow> NetworkError \<times> Output" where
  "prepareFinalHeaders cd o1 = final_headers cd (producers o1) o1"

text \<open>The loop of \<open>selectProducer\<close>: the entries \<open>first\<close> and \<open>next\<close>. \<open>sidOf\<close> is the stream of the producer at an address.\<close>

fun pick :: "(nat \<Rightarrow> bool) \<Rightarrow> (nat \<Rightarrow> int) \<Rightarrow> int \<Rightarrow> (int \<times> nat) list \<Rightarrow> nat option \<Rightarrow> nat option \<Rightarrow> nat option" where
  "pick rdy sidOf lastRead [] first nxt = (if nxt = None then first else nxt)"
| "pick rdy sidOf lastRead ((sid, a) # ps) first nxt =
     (if \<not> rdy a then pick rdy sidOf lastRead ps first nxt
      else pick rdy sidOf lastRead ps
             (case first of None \<Rightarrow> Some a | Some f \<Rightarrow> if sid < sidOf f then Some a else first)
             (if sid > lastRead \<and> (case nxt of None \<Rightarrow> True | Some x \<Rightarrow> sid < sidOf x) then Some a else nxt))"

definition entry_ready :: "Codec \<Rightarrow> bool \<Rightarrow> Output \<Rightarrow> nat \<Rightarrow> bool" where
  "entry_ready cd mayOpen o1 a \<longleftrightarrow> (case heap o1 a of None \<Rightarrow> False | Some p \<Rightarrow> o_ready cd p mayOpen)"

definition mayOpenStream :: "Codec \<Rightarrow> bool" where
  "mayOpenStream cd \<longleftrightarrow> codec_role cd \<noteq> hClient \<or> activeLocalStreamCount cd < peerMaxConcurrentStreams cd"

definition selectProducer :: "Codec \<Rightarrow> Output \<Rightarrow> NetworkError \<times> Output" where
  "selectProducer cd o0 =
     (let may = mayOpenStream cd in
      if readCredit o0 \<and> (case map_of (producers o0) (selectedStream o0) of None \<Rightarrow> False | Some a \<Rightarrow> entry_ready cd may o0 a)
      then (ok_error, o0)
      else
        let o1 = o0\<lparr>readCredit := False, selectedStream := 0\<rparr> in
        case pick (entry_ready cd may o1) (\<lambda>a. p_streamId (the (heap o1 a))) (lastReadStream o1) (producers o1) None None of
          None \<Rightarrow> (ok_error, o1)
        | Some a \<Rightarrow>
            (case heap o1 a of
               None \<Rightarrow> (ok_error, o1)
             | Some p \<Rightarrow>
                 let e = (if deferred p then resume cd (p_streamId p) else ok_error) in
                 if is_error e then (e, o1)
                 else (ok_error, set_producer a (p\<lparr>deferred := False\<rparr>) (o1\<lparr>selectedStream := p_streamId p, readCredit := True\<rparr>))))"

text \<open>What \<open>memSend\<close> calls while it serialises: \<open>read\<close> and \<open>onClose\<close> of a data source, and \<open>onStreamClose\<close> through its listener.\<close>

datatype callback = CallRead nat nat | CallClose nat Http2Code | CallStreamClose int Http2Code

definition callback_run :: "callback \<Rightarrow> Output \<Rightarrow> Output" where
  "callback_run c o1 =
     (case c of
        CallRead a room \<Rightarrow> (case heap o1 a of None \<Rightarrow> o1 | Some p \<Rightarrow> (case p_read room (p, o1) of (_, p', o2) \<Rightarrow> set_producer a p' o2))
      | CallClose a code \<Rightarrow> on_producer a (p_onClose code) o1
      | CallStreamClose sid code \<Rightarrow> onStreamClose sid code o1)"

definition memSend :: "callback list \<Rightarrow> Output \<Rightarrow> Output" where
  "memSend cbs o1 = fold callback_run cbs o1"

text \<open>\<open>nextBatch\<close>; \<open>result\<close> is what \<open>memSend\<close> returns, \<open>None\<close> if it runs out of memory.\<close>

definition nextBatch :: "Codec \<Rightarrow> callback list \<Rightarrow> (NetworkError + byte list) option \<Rightarrow> Output \<Rightarrow> (NetworkError + byte list) \<times> Output" where
  "nextBatch cd cbs result o0 =
     (if o_closed o0 then (Inl (cancelledError 0), o0)
      else if offset o0 < length (batch o0) then (Inr (drop (offset o0) (batch o0)), o0)
      else case prepareFinalHeaders cd (notifyReaders o0) of
        (e, o1) \<Rightarrow>
          if is_error e then (Inl e, o_close o1)
          else case selectProducer cd o1 of
            (e', o2) \<Rightarrow>
              if is_error e' then (Inl e', o_close o2)
              else let o3 = (memSend cbs (o2\<lparr>pumping := True\<rparr>))\<lparr>pumping := False\<rparr> in
                   case result of
                     None \<Rightarrow> (Inl (allocationError 0), o_close o3)
                   | Some (Inl e'') \<Rightarrow> (Inl e'', o_close o3)
                   | Some (Inr bs) \<Rightarrow> (Inr bs, o3\<lparr>batch := bs, offset := 0\<rparr>))"

section \<open>Acknowledgement\<close>

definition frame_stream :: "byte list \<Rightarrow> int" where
  "frame_stream h = uint ((push_bit 24 (ucast (h ! 5 AND 0x7f)) OR push_bit 16 (ucast (h ! 6))
     OR push_bit 8 (ucast (h ! 7)) OR ucast (h ! 8)) :: u32)"

definition frameComplete :: "Output \<Rightarrow> int list \<Rightarrow> Output \<times> int list" where
  "frameComplete o1 ended =
     (let type = frameHeader o1 ! 3; flags = frameHeader o1 ! 4; sid = frame_stream (frameHeader o1);
          report = (if sid \<in> set (pendingEnds o1) then ended @ [sid] else ended);
          (o2, ended2) =
            (if type = hHeaders \<and> flags AND kEndStream \<noteq> 0
             then if flags AND kEndHeaders \<noteq> 0 then (o1, report) else (o1\<lparr>continuedEndStream := sid\<rparr>, ended)
             else if type = hContinuation \<and> flags AND kEndHeaders \<noteq> 0 \<and> continuedEndStream o1 = sid
             then (o1\<lparr>continuedEndStream := 0\<rparr>, report)
             else if type = hData \<and> flags AND kEndStream \<noteq> 0 then (o1, report)
             else (o1, ended))
      in (o2\<lparr>headerUsed := 0\<rparr>, ended2))"

lemma frameComplete_headerUsed [simp]: "headerUsed (fst (frameComplete o1 ended)) = 0"
  by (simp add: frameComplete_def Let_def split: prod.splits)

definition frame_length :: "byte list \<Rightarrow> nat" where
  "frame_length h = unat ((push_bit 16 (ucast (h ! 0)) OR push_bit 8 (ucast (h ! 1)) OR ucast (h ! 2)) :: u64)"

text \<open>One round of the loop of \<open>parseAcknowledged\<close>, with the number of bytes it removes.\<close>

definition parse_round :: "byte list \<Rightarrow> Output \<Rightarrow> int list \<Rightarrow> nat \<times> Output \<times> int list" where
  "parse_round dat o1 ended =
     (if prefaceRemaining o1 \<noteq> 0
      then let k = min (prefaceRemaining o1) (length dat)
           in (k, o1\<lparr>prefaceRemaining := prefaceRemaining o1 - k\<rparr>, ended)
      else if headerUsed o1 < kFrameHeaderBytes
      then let k = min (kFrameHeaderBytes - headerUsed o1) (length dat);
               o2 = o1\<lparr>frameHeader := take (headerUsed o1) (frameHeader o1) @ take k dat @ drop (headerUsed o1 + k) (frameHeader o1),
                       headerUsed := headerUsed o1 + k\<rparr>
           in if headerUsed o2 \<noteq> kFrameHeaderBytes then (k, o2, ended)
              else let o3 = o2\<lparr>payloadRemaining := frame_length (frameHeader o2)\<rparr>
                   in if payloadRemaining o3 = 0 then (k, frameComplete o3 ended) else (k, o3, ended)
      else let k = min (payloadRemaining o1) (length dat);
               o2 = o1\<lparr>payloadRemaining := payloadRemaining o1 - k\<rparr>
           in if payloadRemaining o2 = 0 then (k, frameComplete o2 ended) else (k, o2, ended))"

definition parse_left :: "byte list \<Rightarrow> Output \<Rightarrow> nat" where
  "parse_left dat o1 = 2 * length dat + (if headerUsed o1 < kFrameHeaderBytes then 0 else 1)"

lemma parse_round_less:
  assumes "dat \<noteq> []" and "parse_round dat o1 ended = (k, o2, e2)"
  shows "parse_left (drop k dat) o2 < parse_left dat o1"
proof -
  have c: "frameComplete x e = (y, z) \<Longrightarrow> headerUsed y = 0" for x e y z by (metis frameComplete_headerUsed fst_conv)
  have "length dat > 0" using assms(1) by simp
  consider "prefaceRemaining o1 \<noteq> 0" | "prefaceRemaining o1 = 0" "headerUsed o1 < kFrameHeaderBytes"
    | "prefaceRemaining o1 = 0" "\<not> headerUsed o1 < kFrameHeaderBytes" by blast
  then show ?thesis
  proof cases
    case 1
    then show ?thesis using assms(2) \<open>length dat > 0\<close> by (auto simp: parse_round_def parse_left_def Let_def)
  next
    case 2
    then have "k = min (kFrameHeaderBytes - headerUsed o1) (length dat)"
      using assms(2) by (auto simp: parse_round_def Let_def split: if_splits)
    then have "k > 0" "k \<le> length dat" using 2 \<open>length dat > 0\<close> by simp_all
    then show ?thesis using 2 by (auto simp: parse_left_def)
  next
    case 3
    then have k: "k = min (payloadRemaining o1) (length dat)" using assms(2) by (auto simp: parse_round_def Let_def split: if_splits)
    show ?thesis
    proof (cases "payloadRemaining o1 - k = 0")
      case True
      then have "headerUsed o2 = 0" using 3 assms(2) k by (auto simp: parse_round_def Let_def dest!: c)
      then show ?thesis using 3 by (auto simp: parse_left_def kFrameHeaderBytes_def)
    next
      case False
      then have "o2 = o1\<lparr>payloadRemaining := payloadRemaining o1 - k\<rparr>" "k > 0" "k \<le> length dat"
        using 3 assms(2) k \<open>length dat > 0\<close> by (auto simp: parse_round_def Let_def split: if_splits)
      then show ?thesis by (auto simp: parse_left_def)
    qed
  qed
qed

function parseAcknowledged :: "byte list \<Rightarrow> Output \<Rightarrow> int list \<Rightarrow> Output \<times> int list" where
  "parseAcknowledged dat o1 ended =
     (if dat = [] then (o1, ended)
      else case parse_round dat o1 ended of (k, o2, ended2) \<Rightarrow> parseAcknowledged (drop k dat) o2 ended2)"
  by pat_completeness auto
termination
  by (relation "measure (\<lambda>(dat, o1, _). parse_left dat o1)") (auto intro: parse_round_less dest: sym)

declare parseAcknowledged.simps [simp del]

definition acknowledge :: "bool \<Rightarrow> nat \<Rightarrow> Output \<Rightarrow> (int list \<times> NetworkError) \<times> Output" where
  "acknowledge memory n o0 =
     (if n > length (batch o0) - offset o0
      then (([], net_error hInvalidConfiguration ''acknowledged more than the batch''), o0)
      else
        let ((ended, e), o1) =
              (if o_closed o0 then (([], ok_error), o0)
               else if \<not> memory then (([], allocationError 0), o_close o0)
               else case parseAcknowledged (take n (drop (offset o0) (batch o0))) o0 [] of (o', ended) \<Rightarrow> ((ended, ok_error), o'));
            o2 = o1\<lparr>pendingEnds := filter (\<lambda>i. i \<notin> set ended) (pendingEnds o1), offset := offset o1 + n\<rparr>;
            o3 = notifyReaders o2
        in ((ended, e), if offset o3 = length (batch o3) then o3\<lparr>batch := [], offset := 0\<rparr> else o3))"

definition bufferedWireBytes :: "nat \<Rightarrow> Output \<Rightarrow> nat" where
  "bufferedWireBytes bufferedOutputBytes o1 = length (batch o1) + (if o_closed o1 then 0 else bufferedOutputBytes)"

definition hasPendingOutput :: "bool \<Rightarrow> Output \<Rightarrow> bool" where
  "hasPendingOutput wantWrite o1 \<longleftrightarrow>
     \<not> o_closed o1 \<and> (pumping o1 \<or> pendingEnds o1 \<noteq> [] \<or> offset o1 < length (batch o1) \<or> wantWrite)"

end
