(* ===== verification/H2_Output_Inv.thy ===== *)
theory H2_Output_Inv
  imports H2_Output
begin

text \<open>
  Invariants of the output side of HTTP/2: what is charged to the send budget and what the codec
  reads, for every sequence of operations, answers of the codec and allocation failures.
\<close>

section \<open>Invariant\<close>

abbreviation out_conn :: "Output \<Rightarrow> nat" where
  "out_conn o1 \<equiv> budget_state (o_budget o1)"

definition send_lease :: "nat \<Rightarrow> Lease \<Rightarrow> bool" where
  "send_lease c l \<longleftrightarrow> lease_state l = Some c \<and> lease_resource l = hSendBytes"

definition producer_ok :: "nat \<Rightarrow> Producer \<Rightarrow> bool" where
  "producer_ok c p \<longleftrightarrow> send_lease c (p_lease p) \<and> p_streamId p > 0
     \<and> lease_amount (p_lease p) = length (concat (chunks p)) + trailerBytes p
     \<and> [] \<notin> set (chunks p) \<and> (if chunks p = [] then frontOffset p = 0 else frontOffset p < length (hd (chunks p)))
     \<and> (cancelled p \<longrightarrow> chunks p = [] \<and> trailerBytes p = 0)
     \<and> prefix (taken p) (appended p) \<and> (\<not> cancelled p \<longrightarrow> taken p @ drop (frontOffset p) (concat (chunks p)) = appended p)
     \<and> (eofRead p \<longrightarrow> finished p \<and> chunks p = [] \<and> taken p = appended p)
     \<and> (\<not> finished p \<longrightarrow> trailerBytes p = 0)"

definition producer_leases :: "(nat \<Rightarrow> Producer option) \<Rightarrow> Lease multiset" where
  "producer_leases h = image_mset (\<lambda>a. p_lease (the (h a))) (mset_set (dom h))"

definition heap_bytes :: "(nat \<Rightarrow> Producer option) \<Rightarrow> nat" where
  "heap_bytes h = (\<Sum>l\<in>#producer_leases h. lease_amount l)"

definition own_leases :: "Output \<Rightarrow> Lease multiset" where
  "own_leases o1 = add_mset (wireLease o1) (producer_leases (heap o1) + mset (map pm_lease (permits o1)))"

definition base_ok :: "Output \<Rightarrow> bool" where
  "base_ok o1 \<longleftrightarrow> conns (o_budgets o1) (out_conn o1) \<noteq> None \<and> validationError (o_options o1) = []
     \<and> send_lease (out_conn o1) (wireLease o1) \<and> lease_amount (wireLease o1) = wireCapacity o1
     \<and> list_all (\<lambda>pm. send_lease (out_conn o1) (pm_lease pm)) (permits o1)"

definition out_ok :: "Lease multiset \<Rightarrow> Output \<Rightarrow> bool" where
  "out_ok M o1 \<longleftrightarrow> base_ok o1 \<and> budgets_ok (o_budgets o1) (own_leases o1 + M) \<and> finite (dom (heap o1))
     \<and> queuedBytes o1 = heap_bytes (heap o1) \<and> (\<forall>a p. heap o1 a = Some p \<longrightarrow> producer_ok (out_conn o1) p)"

text \<open>A producer that has been taken out of the heap, with the leases \<open>R\<close> and the bytes \<open>n\<close> of the rest.\<close>

definition pair_ok :: "Lease multiset \<Rightarrow> nat \<Rightarrow> Producer \<times> Output \<Rightarrow> bool" where
  "pair_ok R n q \<longleftrightarrow> (case q of (p, o1) \<Rightarrow>
     base_ok o1 \<and> budgets_ok (o_budgets o1) (add_mset (p_lease p) R) \<and> send_lease (out_conn o1) (p_lease p)
     \<and> queuedBytes o1 = lease_amount (p_lease p) + n \<and> n \<le> (\<Sum>l\<in>#R. lease_share (out_conn o1) hSendBytes l))"

definition frame :: "Output \<Rightarrow> Output \<Rightarrow> bool" where
  "frame o1 o2 \<longleftrightarrow> heap o2 = heap o1 \<and> permits o2 = permits o1 \<and> wireLease o2 = wireLease o1 \<and> wireCapacity o2 = wireCapacity o1
     \<and> o_options o2 = o_options o1 \<and> o_budget o2 = o_budget o1"

lemma frame_refl [simp]: "frame o1 o1"
  by (simp add: frame_def)

lemma frame_trans: "frame o1 o2 \<Longrightarrow> frame o2 o3 \<Longrightarrow> frame o1 o3"
  by (simp add: frame_def)

section \<open>The heap\<close>

lemma producers_split:
  assumes "finite (dom h)" and "h a = Some p"
  shows "producer_leases h = add_mset (p_lease p) (producer_leases (h(a := None)))"
proof -
  have d: "dom h = insert a (dom (h(a := None)))" "a \<notin> dom (h(a := None))" using assms(2) by auto
  have f: "finite (dom (h(a := None)))" using assms(1) by simp
  have "mset_set (dom h) = add_mset a (mset_set (dom (h(a := None))))" by (subst d(1)) (rule mset_set.insert [OF f d(2)])
  moreover have "image_mset (\<lambda>x. p_lease (the (h x))) (mset_set (dom (h(a := None)))) = producer_leases (h(a := None))"
    unfolding producer_leases_def using f by (intro image_mset_cong) auto
  ultimately show ?thesis using assms(2) by (simp add: producer_leases_def)
qed

lemma producers_put:
  assumes "finite (dom h)"
  shows "producer_leases (h(a \<mapsto> p)) = add_mset (p_lease p) (producer_leases (h(a := None)))"
  using producers_split [of "h(a \<mapsto> p)" a p] assms by simp

lemma heap_bytes_put: "finite (dom h) \<Longrightarrow> heap_bytes (h(a \<mapsto> p)) = lease_amount (p_lease p) + heap_bytes (h(a := None))"
  by (simp add: heap_bytes_def producers_put)

lemma heap_share:
  assumes "finite (dom h)" and "\<forall>a p. h a = Some p \<longrightarrow> send_lease c (p_lease p)"
  shows "(\<Sum>l\<in>#producer_leases h. lease_share c hSendBytes l) = heap_bytes h"
proof -
  have "\<forall>l\<in>#producer_leases h. lease_share c hSendBytes l = lease_amount l"
    using assms by (auto simp: producer_leases_def send_lease_def lease_share_def)
  then show ?thesis unfolding heap_bytes_def by (metis (mono_tags, lifting) image_mset_cong)
qed

text \<open>Taking a producer out and putting it back.\<close>

definition rest_of :: "Lease multiset \<Rightarrow> nat \<Rightarrow> Output \<Rightarrow> Lease multiset" where
  "rest_of M a o1 = add_mset (wireLease o1) (producer_leases ((heap o1)(a := None)) + mset (map pm_lease (permits o1)) + M)"

lemma out_pair:
  assumes "out_ok M o1" and "heap o1 a = Some p"
  shows "pair_ok (rest_of M a o1) (heap_bytes ((heap o1)(a := None))) (p, o1) \<and> producer_ok (out_conn o1) p"
proof -
  let ?h = "(heap o1)(a := None)"
  have f: "finite (dom (heap o1))" "finite (dom ?h)" using assms(1) by (simp_all add: out_ok_def)
  have sp: "producer_leases (heap o1) = add_mset (p_lease p) (producer_leases ?h)" by (rule producers_split [OF f(1) assms(2)])
  have p: "producer_ok (out_conn o1) p" using assms by (simp add: out_ok_def)
  have "\<forall>x q. ?h x = Some q \<longrightarrow> send_lease (out_conn o1) (p_lease q)" using assms(1) by (auto simp: out_ok_def producer_ok_def)
  then have "(\<Sum>l\<in>#producer_leases ?h. lease_share (out_conn o1) hSendBytes l) = heap_bytes ?h" by (rule heap_share [OF f(2)])
  moreover have "queuedBytes o1 = lease_amount (p_lease p) + heap_bytes ?h"
    using assms(1) sp by (simp add: out_ok_def heap_bytes_def)
  moreover have "budgets_ok (o_budgets o1) (add_mset (p_lease p) (rest_of M a o1))"
    using assms(1) sp by (simp add: out_ok_def own_leases_def rest_of_def add_mset_commute)
  ultimately show ?thesis using assms(1) p by (simp add: pair_ok_def out_ok_def producer_ok_def rest_of_def)
qed

lemma pair_out:
  assumes "pair_ok (rest_of M a o1) (heap_bytes ((heap o1)(a := None))) (p', o2)" and "frame o1 o2" and "producer_ok (out_conn o1) p'"
    and "finite (dom (heap o1))" and "\<forall>x q. x \<noteq> a \<longrightarrow> heap o1 x = Some q \<longrightarrow> producer_ok (out_conn o1) q"
  shows "out_ok M (set_producer a p' o2)"
proof -
  have fr: "heap o2 = heap o1" "permits o2 = permits o1" "wireLease o2 = wireLease o1" "o_budget o2 = o_budget o1"
    using assms(2) by (simp_all add: frame_def)
  have "budgets_ok (o_budgets o2) (own_leases (set_producer a p' o2) + M)"
    using assms(1) fr assms(4)
    by (simp add: pair_ok_def own_leases_def set_producer_def rest_of_def producers_put add_mset_commute)
  moreover have "queuedBytes o2 = heap_bytes ((heap o1)(a \<mapsto> p'))"
    using assms(1,4) by (simp add: pair_ok_def heap_bytes_put)
  moreover have "base_ok (set_producer a p' o2)" using assms(1) by (simp add: pair_ok_def base_ok_def set_producer_def)
  ultimately show ?thesis using assms(3-5) fr by (simp add: out_ok_def set_producer_def)
qed

section \<open>Operations on a producer\<close>

lemma pair_fits:
  assumes "pair_ok R n (p, o1)"
  shows "lease_amount (p_lease p) + n < size_modulus"
proof -
  let ?c = "out_conn o1"
  obtain st where st: "conns (o_budgets o1) ?c = Some st" using assms by (auto simp: pair_ok_def base_ok_def)
  have "conn_ok (o_budgets o1) (add_mset (p_lease p) R) ?c st" using assms st by (auto simp: pair_ok_def budgets_ok_def)
  note u = conn_okD(1-3) [OF this, of hSendBytes]
  have "lease_share ?c hSendBytes (p_lease p) = lease_amount (p_lease p)" using assms by (simp add: pair_ok_def send_lease_def lease_share_def)
  then show ?thesis using u assms by (simp add: pair_ok_def)
qed

lemma tryResize_conns: "tryResize b l n = (r, l', b') \<Longrightarrow> conns b c \<noteq> None \<Longrightarrow> conns b' c \<noteq> None"
  by (auto simp: tryResize_def Let_def split: option.splits if_splits)

lemma resize_pair:
  assumes "pair_ok R n (p, o1)" and "p_resize m (p, o1) = (r, p', o2)"
  shows "pair_ok R n (p', o2) \<and> frame o1 o2 \<and> o_closed o2 = o_closed o1
    \<and> (\<exists>l. p' = p\<lparr>p_lease := l\<rparr> \<and> send_lease (out_conn o1) l \<and> lease_amount l = (if r then m else lease_amount (p_lease p)))"
proof -
  obtain l b where t: "tryResize (o_budgets o1) (p_lease p) m = (r, l, b)"
    using assms(2) by (cases "tryResize (o_budgets o1) (p_lease p) m") (auto simp: p_resize_def split: bool.splits)
  have ok: "budgets_ok (o_budgets o1) (add_mset (p_lease p) R)" using assms(1) by (simp add: pair_ok_def)
  show ?thesis
  proof (cases r)
    case False
    then have "l = p_lease p \<and> b = o_budgets o1" using tryResize_fail [of "o_budgets o1" "p_lease p" m l b] t by simp
    then have "p' = p\<lparr>p_lease := p_lease p\<rparr>" "o2 = o1" using assms(2) t False by (simp_all add: p_resize_def)
    then show ?thesis using assms(1) False by (auto simp: pair_ok_def intro!: exI [of _ "p_lease p"])
  next
    case True
    have t': "tryResize (o_budgets o1) (p_lease p) m = (True, l, b)" using t True by simp
    note k = tryResize_ok [OF ok t']
    have p': "p' = p\<lparr>p_lease := l\<rparr>" "o2 = o1\<lparr>o_budgets := b, queuedBytes := size_add (size_sub (queuedBytes o1) (lease_amount (p_lease p))) m\<rparr>"
      using assms(2) t True by (simp_all add: p_resize_def)
    have c: "conns b (out_conn o1) \<noteq> None" using tryResize_conns [OF t] assms(1) by (auto simp: pair_ok_def base_ok_def)
    then obtain st where st: "conns b (out_conn o1) = Some st" by blast
    have "conn_ok b (add_mset l R) (out_conn o1) st" using k(1) st by (auto simp: budgets_ok_def)
    note u = conn_okD(1-3) [OF this, of hSendBytes]
    have "lease_share (out_conn o1) hSendBytes l = m" using k(2) assms(1) by (simp add: pair_ok_def send_lease_def lease_share_def)
    then have "n + m < size_modulus" using u assms(1) by (simp add: pair_ok_def)
    then have "queuedBytes o2 = m + n" using assms(1) pair_fits [OF assms(1)] by (simp add: p' pair_ok_def size_sub_def size_add_def)
    moreover have "send_lease (out_conn o1) l" using k(2) assms(1) by (simp add: pair_ok_def send_lease_def)
    ultimately show ?thesis using assms(1) k c True unfolding p' by (auto simp: pair_ok_def frame_def base_ok_def)
  qed
qed

text \<open>Giving bytes back succeeds.\<close>

lemma resize_down:
  assumes "pair_ok R n (p, o1)" and "m \<le> lease_amount (p_lease p)"
  shows "fst (p_resize m (p, o1))"
proof -
  have "lease_ok (o_budgets o1) (p_lease p)" using assms(1) by (simp add: pair_ok_def budgets_ok_def)
  then have "\<exists>l b. tryResize (o_budgets o1) (p_lease p) m = (True, l, b)"
    using assms by (auto simp: pair_ok_def base_ok_def send_lease_def lease_ok_def tryResize_def Let_def less_Resource_def)
  then show ?thesis by (auto simp: p_resize_def)
qed

lemma wake_pair [simp]: "pair_ok R n (p, wake o1) = pair_ok R n (p, o1)" "frame o1 (wake o2) = frame o1 o2" "o_closed (wake o1) = o_closed o1"
  by (simp_all add: wake_def pair_ok_def base_ok_def frame_def)

lemma notify_pair [simp]: "pair_ok R n (p, notifyReaders o1) = pair_ok R n (p, o1)" "frame o1 (notifyReaders o2) = frame o1 o2"
  by (simp_all add: notifyReaders_def pair_ok_def base_ok_def frame_def)

lemma pair_frame_upd [simp]:
  "pair_ok R n (p, o1\<lparr>pendingEnds := x1\<rparr>) = pair_ok R n (p, o1)" "pair_ok R n (p, o1\<lparr>signals := x2\<rparr>) = pair_ok R n (p, o1)"
  "pair_ok R n (p, o1\<lparr>readCredit := x3, lastReadStream := x4\<rparr>) = pair_ok R n (p, o1)"
  "pair_ok R n (p, o1\<lparr>selectedStream := x5, readCredit := x6\<rparr>) = pair_ok R n (p, o1)"
  "pair_ok R n (p, o1\<lparr>producers := x7\<rparr>) = pair_ok R n (p, o1)"
  "frame o0 (o1\<lparr>pendingEnds := x1\<rparr>) = frame o0 o1" "frame o0 (o1\<lparr>signals := x2\<rparr>) = frame o0 o1"
  "frame o0 (o1\<lparr>readCredit := x3, lastReadStream := x4\<rparr>) = frame o0 o1"
  "frame o0 (o1\<lparr>selectedStream := x5, readCredit := x6\<rparr>) = frame o0 o1" "frame o0 (o1\<lparr>producers := x7\<rparr>) = frame o0 o1"
  by (simp_all add: pair_ok_def base_ok_def frame_def)

lemma pair_lease_only: "p_lease p' = p_lease p \<Longrightarrow> pair_ok R n (p', o1) = pair_ok R n (p, o1)"
  by (simp add: pair_ok_def)

lemma resize_back:
  assumes "pair_ok R n (p, o1)" and "m \<le> lease_amount (p_lease p)"
  obtains l o2 where "p_resize m (p, o1) = (True, p\<lparr>p_lease := l\<rparr>, o2)" "pair_ok R n (p\<lparr>p_lease := l\<rparr>, o2)" "frame o1 o2"
    "send_lease (out_conn o1) l" "lease_amount l = m" "o_closed o2 = o_closed o1"
proof -
  obtain r p' o2 where rs: "p_resize m (p, o1) = (r, p', o2)" by (metis prod_cases3)
  have "r" using resize_down [OF assms] rs by simp
  with resize_pair [OF assms(1) rs] rs that show ?thesis by auto
qed

lemma ready_pair:
  assumes "pair_ok R n (p, o1)" and "p_ready cd (p, o1) = (e, p', o2)"
  shows "pair_ok R n (p', o2) \<and> frame o1 o2 \<and> (\<exists>d. p' = p\<lparr>deferred := d\<rparr>) \<and> o_closed o2 = o_closed o1"
proof -
  have "pair_ok R n (p\<lparr>deferred := False\<rparr>, o1)" using assms(1) by (simp add: pair_ok_def)
  moreover have "\<exists>d. x = x\<lparr>deferred := d\<rparr>" for x :: Producer by (rule exI [of _ "deferred x"]) simp
  ultimately show ?thesis using assms by (auto simp: p_ready_def Let_def split: if_splits)
qed

text \<open>The invariant of the producer does not depend on some flags, nor on more of the lease than its amount.\<close>

lemma producer_ok_flags [simp]: "producer_ok c (p\<lparr>deferred := d\<rparr>) = producer_ok c p" "producer_ok c (p\<lparr>readStarted := d\<rparr>) = producer_ok c p"
    "producer_ok c (p\<lparr>cancelHandler := d\<rparr>) = producer_ok c p"
  by (simp_all add: producer_ok_def)

lemma producer_ok_lease:
  "producer_ok c p \<Longrightarrow> send_lease c l \<Longrightarrow> lease_amount l = lease_amount (p_lease p) \<Longrightarrow> producer_ok c (p\<lparr>p_lease := l\<rparr>)"
  by (simp add: producer_ok_def)

lemma can_produce: "\<not> is_error (canProduce o1 p) \<Longrightarrow> \<not> cancelled p \<and> \<not> finished p"
  by (auto simp: canProduce_def cancelledError_def split: if_splits)

lemma errors [simp]: "is_error (resourceError x)" "is_error (allocationError x)" "is_error (cancelledError x)"
  by (simp_all add: resourceError_def allocationError_def cancelledError_def)

lemma producer_ok_push:
  assumes "producer_ok c p" and "\<not> cancelled p" and "\<not> finished p" and "dat \<noteq> []" and "send_lease c l"
    and "lease_amount l = lease_amount (p_lease p) + length dat"
  shows "producer_ok c (p\<lparr>p_lease := l, chunks := chunks p @ [dat], appended := appended p @ dat\<rparr>)"
proof -
  have "taken p @ drop (frontOffset p) (concat (chunks p @ [dat])) = appended p @ dat"
    using assms(1,2) by (cases "chunks p") (auto simp: producer_ok_def)
  then show ?thesis using assms by (cases "chunks p") (auto simp: producer_ok_def)
qed

lemma enqueue_ok:
  assumes "pair_ok R n (p, o1)" and "producer_ok (out_conn o1) p" and "\<not> is_error (canProduce o1 p)" and "dat \<noteq> []"
    and "enqueue cd mem dat (p, o1) = (e, p', o2)"
  shows "pair_ok R n (p', o2) \<and> frame o1 o2 \<and> producer_ok (out_conn o1) p'"
proof -
  let ?c = "out_conn o1" and ?prev = "lease_amount (p_lease p)"
  note np = can_produce [OF assms(3)]
  consider "length (chunks p) \<ge> kMaxProducerChunks \<or> length dat > (size_modulus - 1) - ?prev"
    | p1 o3 where "\<not> (length (chunks p) \<ge> kMaxProducerChunks \<or> length dat > (size_modulus - 1) - ?prev)"
        "p_resize (?prev + length dat) (p, o1) = (False, p1, o3)"
    | p1 o3 where "\<not> (length (chunks p) \<ge> kMaxProducerChunks \<or> length dat > (size_modulus - 1) - ?prev)"
        "p_resize (?prev + length dat) (p, o1) = (True, p1, o3)" by (metis (full_types) prod_cases3)
  then show ?thesis
  proof cases
    case 1
    then show ?thesis using assms by (auto simp: enqueue_def Let_def)
  next
    case 2
    then have r: "p' = p1" "o2 = o3" using assms(5) by (auto simp: enqueue_def Let_def)
    show ?thesis using resize_pair [OF assms(1) 2(2)] producer_ok_lease [OF assms(2)] unfolding r by auto
  next
    case 3
    from resize_pair [OF assms(1) 3(2)] obtain l where l: "pair_ok R n (p1, o3)" "frame o1 o3" "p1 = p\<lparr>p_lease := l\<rparr>" "send_lease ?c l"
      "lease_amount l = ?prev + length dat" by auto
    have c3: "out_conn o3 = ?c" using l(2) by (simp add: frame_def)
    show ?thesis
    proof (cases mem)
      case False
      obtain l' o4 where b: "p_resize ?prev (p1, o3) = (True, p1\<lparr>p_lease := l'\<rparr>, o4)" "pair_ok R n (p1\<lparr>p_lease := l'\<rparr>, o4)" "frame o3 o4"
        "send_lease ?c l'" "lease_amount l' = ?prev" by (rule resize_back [OF l(1), of ?prev]) (use l c3 in auto)
      have r: "p' = p\<lparr>p_lease := l'\<rparr>" "o2 = o4" using assms(5) 3 b(1) False l(3) by (auto simp: enqueue_def Let_def)
      show ?thesis using b l producer_ok_lease [OF assms(2) b(4,5)] frame_trans [OF l(2) b(3)] unfolding r by simp
    next
      case True
      let ?p2 = "p\<lparr>p_lease := l, chunks := chunks p @ [dat], appended := appended p @ dat\<rparr>"
      have p2: "producer_ok ?c ?p2" using producer_ok_push [OF assms(2) _ _ assms(4) l(4,5)] np by blast
      obtain e2 p2 o4 where rd: "p_ready cd (?p2, o3) = (e2, p2, o4)" by (metis prod_cases3)
      have "pair_ok R n (?p2, o3)" using l(1,3) by (simp add: pair_ok_def)
      from ready_pair [OF this rd] obtain d where d: "p2 = ?p2\<lparr>deferred := d\<rparr>" "pair_ok R n (p2, o4)" "frame o3 o4" by blast
      note fr = frame_trans [OF l(2) d(3)]
      show ?thesis
      proof (cases "is_error e2")
        case False
        have r: "p' = p2" "o2 = o4" using assms(5) 3 l(3) rd True False by (simp_all add: enqueue_def Let_def)
        show ?thesis using d fr p2 unfolding r by simp
      next
        case err: True
        let ?p3 = "p2\<lparr>chunks := butlast (chunks p2), appended := appended p\<rparr>"
        have "pair_ok R n (?p3, o4)" using d(2) by (simp add: pair_ok_def)
        then obtain l' o5 where b: "p_resize ?prev (?p3, o4) = (True, ?p3\<lparr>p_lease := l'\<rparr>, o5)" "pair_ok R n (?p3\<lparr>p_lease := l'\<rparr>, o5)" "frame o4 o5"
          "send_lease (out_conn o4) l'" "lease_amount l' = ?prev" by (rule resize_back [of _ _ _ _ ?prev]) (use l d in auto)
        have c4: "out_conn o4 = ?c" using fr by (simp add: frame_def)
        have r: "p' = p\<lparr>deferred := d, p_lease := l'\<rparr>" "o2 = o5" using assms(5) 3 l(3) rd True err b(1) d(1) by (auto simp: enqueue_def Let_def)
        have "producer_ok ?c (p\<lparr>deferred := d, p_lease := l'\<rparr>)" by (rule producer_ok_lease) (use assms(2) b(4,5) c4 in simp_all)
        then show ?thesis using b(2) frame_trans [OF fr b(3)] d(1) unfolding r by simp
      qed
    qed
  qed
qed

lemma append_ok:
  assumes "pair_ok R n (p, o1)" and "producer_ok (out_conn o1) p" and "p_append cd mem dat (p, o1) = (e, p', o2)"
  shows "pair_ok R n (p', o2) \<and> frame o1 o2 \<and> producer_ok (out_conn o1) p'"
  using assms enqueue_ok [OF assms(1,2), of dat cd mem e p' o2] by (auto simp: p_append_def Let_def split: if_splits)

lemma appendOwned_ok:
  assumes "pair_ok R n (p, o1)" and "producer_ok (out_conn o1) p" and "appendOwned cd mem dat (p, o1) = (e, p', o2)"
  shows "pair_ok R n (p', o2) \<and> frame o1 o2 \<and> producer_ok (out_conn o1) p'"
  using assms enqueue_ok [OF assms(1,2), of dat cd mem "fst e" p' o2] by (auto simp: appendOwned_def Let_def split: if_splits prod.splits)

lemma chunks_total_sum: "chunks_total cs a = Some t \<Longrightarrow> t = a + length (concat cs)"
proof (induction cs arbitrary: a)
  case (Cons c cs)
  then have "t = (a + length c) + length (concat cs)" by (intro Cons.IH) (simp split: if_splits)
  then show ?case by simp
qed simp

lemma appendChunks_ok:
  assumes "pair_ok R n (p, o1)" and "producer_ok (out_conn o1) p" and "appendChunks cd mem cs (p, o1) = (e, p', o2)"
  shows "pair_ok R n (p', o2) \<and> frame o1 o2 \<and> producer_ok (out_conn o1) p'"
  using assms enqueue_ok [OF assms(1,2), of "concat cs" cd mem e p' o2] chunks_total_sum [of cs 0]
  by (auto simp: appendChunks_def Let_def simp del: concat_eq_Nil_conv split: if_splits option.splits)

lemma finish_ok:
  assumes "pair_ok R n (p, o1)" and "producer_ok (out_conn o1) p" and "p_finish v6 cd mem fs (p, o1) = (e, p', o2)"
  shows "pair_ok R n (p', o2) \<and> frame o1 o2 \<and> producer_ok (out_conn o1) p'"
proof (cases "is_error (canProduce o1 p)")
  case True
  then show ?thesis using assms by (auto simp: p_finish_def Let_def)
next
  case canp: False
  let ?c = "out_conn o1" and ?prev = "lease_amount (p_lease p)"
  note np = can_produce [OF canp]
  have nt: "trailerBytes p = 0" "\<not> eofRead p" using assms(2) np by (auto simp: producer_ok_def)
  have early: "p' = p \<and> o2 = o1" if "trailer_size (maxHeaderBytes (o_options o1)) fs 0 = None
      \<or> (\<exists>tb. trailer_size (maxHeaderBytes (o_options o1)) fs 0 = Some tb \<and> tb > (size_modulus - 1) - ?prev)"
    using assms(3) canp that by (auto simp: p_finish_def Let_def)
  consider "p' = p" "o2 = o1"
    | tb p1 o3 where "trailer_size (maxHeaderBytes (o_options o1)) fs 0 = Some tb" "\<not> tb > (size_modulus - 1) - ?prev"
        "p_resize (?prev + tb) (p, o1) = (False, p1, o3)"
    | tb p1 o3 where "trailer_size (maxHeaderBytes (o_options o1)) fs 0 = Some tb" "\<not> tb > (size_modulus - 1) - ?prev"
        "p_resize (?prev + tb) (p, o1) = (True, p1, o3)"
    using early by (metis (full_types) not_None_eq prod_cases3)
  then show ?thesis
  proof cases
    case 1
    then show ?thesis using assms(1,2) by simp
  next
    case 2
    then have r: "p' = p1" "o2 = o3" using assms(3) canp by (auto simp: p_finish_def Let_def)
    show ?thesis using resize_pair [OF assms(1) 2(3)] producer_ok_lease [OF assms(2)] unfolding r by auto
  next
    case 3
    from resize_pair [OF assms(1) 3(3)] obtain l where l: "pair_ok R n (p1, o3)" "frame o1 o3" "p1 = p\<lparr>p_lease := l\<rparr>" "send_lease ?c l"
      "lease_amount l = ?prev + tb" by auto
    have c3: "out_conn o3 = ?c" and valid: "validationError (o_options o3) = []" using l(1,2) by (simp_all add: frame_def pair_ok_def base_ok_def)
    obtain l' o4 where b: "p_resize ?prev (p1, o3) = (True, p1\<lparr>p_lease := l'\<rparr>, o4)" "pair_ok R n (p1\<lparr>p_lease := l'\<rparr>, o4)" "frame o3 o4"
      "send_lease ?c l'" "lease_amount l' = ?prev" by (rule resize_back [OF l(1), of ?prev]) (use l c3 in auto)
    have undo: ?thesis if "p' = p1\<lparr>p_lease := l'\<rparr>" "o2 = o4"
      using b l producer_ok_lease [OF assms(2) b(4,5)] frame_trans [OF l(2) b(3)] unfolding that by simp
    have "\<exists>e1 blk. trailer_block v6 (p_streamId p) (o_options o3) fs = Inr (e1, blk)"
      using valid assms(2) by (auto simp: trailer_block_def new_storage_def producer_ok_def split: prod.splits)
    then obtain e1 blk where blk': "trailer_block v6 (p_streamId p) (o_options o3) fs = Inr (e1, blk)" by blast
    show ?thesis
    proof (cases "mem \<and> \<not> is_error e1")
      case False
      then show ?thesis using assms(3) canp 3 b(1) blk' by (intro undo) (auto simp: p_finish_def Let_def split: if_splits)
    next
      case True
      let ?p2 = "p1\<lparr>trailerBlock := (if fs = [] then trailerBlock p1 else blk), trailerBytes := tb, finished := True\<rparr>"
      have ok2: "producer_ok ?c ?p2" using assms(2) l(3-5) nt np by (auto simp: producer_ok_def)
      obtain e2 p2 o5 where rd: "p_ready cd (?p2, o3) = (e2, p2, o5)" by (metis prod_cases3)
      have "pair_ok R n (?p2, o3)" using l(1) by (simp add: pair_ok_def)
      from ready_pair [OF this rd] obtain d where d: "p2 = ?p2\<lparr>deferred := d\<rparr>" "pair_ok R n (p2, o5)" "frame o3 o5" by blast
      note fr = frame_trans [OF l(2) d(3)]
      have fin: "p_finish v6 cd mem fs (p, o1) = (if is_error e2
          then (Inr e2, snd (p_resize ?prev (p2\<lparr>finished := False, trailerBlock := None, trailerBytes := 0\<rparr>, o5))) else (Inr e2, p2, o5))"
        using canp 3 True blk' rd unfolding p_finish_def by (simp add: Let_def)
      show ?thesis
      proof (cases "is_error e2")
        case False
        have r: "p' = p2" "o2 = o5" using assms(3) fin False by simp_all
        show ?thesis using d fr ok2 unfolding r by simp
      next
        case err: True
        let ?p3 = "p2\<lparr>finished := False, trailerBlock := None, trailerBytes := 0\<rparr>"
        have "pair_ok R n (?p3, o5)" using d(2) by (simp add: pair_ok_def)
        then obtain l3 o6 where b3: "p_resize ?prev (?p3, o5) = (True, ?p3\<lparr>p_lease := l3\<rparr>, o6)" "pair_ok R n (?p3\<lparr>p_lease := l3\<rparr>, o6)" "frame o5 o6"
          "send_lease (out_conn o5) l3" "lease_amount l3 = ?prev" by (rule resize_back [of _ _ _ _ ?prev]) (use l d in auto)
        have c5: "out_conn o5 = ?c" using fr by (simp add: frame_def)
        have r: "p' = ?p3\<lparr>p_lease := l3\<rparr>" "o2 = o6" using assms(3) fin err b3(1) by simp_all
        have "producer_ok ?c (?p3\<lparr>p_lease := l3\<rparr>)" using assms(2) b3(4,5) c5 nt np unfolding d(1) l(3) by (auto simp: producer_ok_def)
        then show ?thesis using b3(2) frame_trans [OF fr b3(3)] unfolding r by simp
      qed
    qed
  qed
qed

lemma producer_ok_stopped:
  assumes "producer_ok c p" and "send_lease c l" and "lease_amount l = 0"
  shows "producer_ok c (p\<lparr>cancelled := True, chunks := [], trailerBlock := None, trailerBytes := 0, frontOffset := 0, p_lease := l\<rparr>)"
  using assms by (simp add: producer_ok_def)

lemma stop_ok:
  assumes "pair_ok R n (p, o1)" and "producer_ok (out_conn o1) p" and "p_stop b (p, o1) = (p', o2)"
  shows "pair_ok R n (p', o2) \<and> frame o1 o2 \<and> producer_ok (out_conn o1) p' \<and> p_streamId p' = p_streamId p \<and> cancelled p'"
proof -
  let ?o1 = "if b then o1\<lparr>pendingEnds := removeAll (p_streamId p) (pendingEnds o1)\<rparr> else o1"
  let ?o2 = "if selectedStream ?o1 = p_streamId p then ?o1\<lparr>selectedStream := 0, readCredit := False\<rparr> else ?o1"
  let ?p1 = "p\<lparr>cancelled := True, chunks := [], trailerBlock := None, trailerBytes := 0, frontOffset := 0\<rparr>"
  have f1: "frame o1 ?o1" "pair_ok R n (p, ?o1)" using assms(1) by simp_all
  have f2: "frame o1 ?o2" "pair_ok R n (?p1, ?o2)" using assms(1) by (auto simp: pair_lease_only [of ?p1 p])
  show ?thesis
  proof (cases "cancelled p")
    case True
    then show ?thesis using assms f1 by (simp add: p_stop_def Let_def)
  next
    case False
    obtain l o3 where b: "p_resize 0 (?p1, ?o2) = (True, ?p1\<lparr>p_lease := l\<rparr>, o3)" "pair_ok R n (?p1\<lparr>p_lease := l\<rparr>, o3)" "frame ?o2 o3"
      "send_lease (out_conn ?o2) l" "lease_amount l = 0" by (rule resize_back [OF f2(2), of 0]) simp_all
    have c: "out_conn ?o2 = out_conn o1" by simp
    have r: "p' = ?p1\<lparr>p_lease := l\<rparr>" "o2 = wake (if cancelHandler p then (notifyReaders o3)\<lparr>signals := Suc (signals (notifyReaders o3))\<rparr> else notifyReaders o3)"
      using assms(3) False b(1) unfolding p_stop_def by (simp_all add: Let_def split: if_splits)
    have "producer_ok (out_conn o1) p'" unfolding r(1) using producer_ok_stopped [OF assms(2)] b(4,5) unfolding c by blast
    then show ?thesis using b(2) frame_trans [OF f2(1) b(3)] unfolding r by simp
  qed
qed

lemma onClose_ok:
  assumes "pair_ok R n (p, o1)" and "producer_ok (out_conn o1) p" and "p_onClose code (p, o1) = (p', o2)"
  shows "pair_ok R n (p', o2) \<and> frame o1 o2 \<and> producer_ok (out_conn o1) p'"
  using stop_ok [OF assms(1,2)] assms(3) by (auto simp: p_onClose_def drop_entry_def split: prod.splits)

lemma setCancelHandler_ok:
  assumes "pair_ok R n (p, o1)" and "producer_ok (out_conn o1) p" and "setCancelHandler b (p, o1) = (p', o2)"
  shows "pair_ok R n (p', o2) \<and> frame o1 o2 \<and> producer_ok (out_conn o1) p'"
  using assms by (auto simp: setCancelHandler_def pair_lease_only [of "p\<lparr>cancelHandler := b\<rparr>" p])

text \<open>Reading \<open>k\<close> bytes of the first chunk.\<close>

lemma producer_ok_part:
  assumes "producer_ok c p" and "chunks p = x # xs" and "frontOffset p + k < length x" and "\<not> cancelled p"
  shows "producer_ok c (p\<lparr>frontOffset := frontOffset p + k, taken := taken p @ take k (drop (frontOffset p) x), eofRead := False\<rparr>)"
proof -
  have a: "taken p @ drop (frontOffset p) (x @ concat xs) = appended p" using assms by (simp add: producer_ok_def)
  have "drop (frontOffset p) (x @ concat xs) = take k (drop (frontOffset p) x) @ drop (frontOffset p + k) (x @ concat xs)"
    using assms(3) append_take_drop_id [of k "drop (frontOffset p) (x @ concat xs)"] by (simp add: add.commute)
  then have "(taken p @ take k (drop (frontOffset p) x)) @ drop (frontOffset p + k) (x @ concat xs) = appended p"
    using a by simp
  moreover then have "prefix (taken p @ take k (drop (frontOffset p) x)) (appended p)" by (metis prefixI)
  ultimately show ?thesis using assms by (simp add: producer_ok_def)
qed

lemma producer_ok_whole:
  assumes "producer_ok c p" and "chunks p = x # xs" and "frontOffset p + k = length x" and "\<not> cancelled p"
    and "send_lease c l" and "lease_amount l = lease_amount (p_lease p) - length x"
  shows "producer_ok c (p\<lparr>taken := taken p @ take k (drop (frontOffset p) x), chunks := xs, frontOffset := 0, p_lease := l,
    eofRead := (finished p \<and> xs = [])\<rparr>)"
proof -
  have a: "taken p @ drop (frontOffset p) (x @ concat xs) = appended p" using assms by (simp add: producer_ok_def)
  have "take k (drop (frontOffset p) x) = drop (frontOffset p) x" using assms(3) by simp
  then have "(taken p @ take k (drop (frontOffset p) x)) @ concat xs = appended p" using a assms(3) by simp
  moreover then have "prefix (taken p @ take k (drop (frontOffset p) x)) (appended p)" by (metis prefixI)
  ultimately show ?thesis using assms by (cases xs) (auto simp: producer_ok_def)
qed

lemma take_ok:
  assumes "pair_ok R n (p, o1)" and "producer_ok (out_conn o1) p" and "chunks p = x # xs" and "\<not> cancelled p"
    and "frontOffset p + k \<le> length x" and "p_take k (p, o1) = (got, p', o2)"
  shows "pair_ok R n (p', o2) \<and> frame o1 o2 \<and> producer_ok (out_conn o1) (p'\<lparr>eofRead := (finished p' \<and> chunks p' = [])\<rparr>)"
proof (cases "frontOffset p + k = length x")
  case False
  have r: "p' = p\<lparr>frontOffset := frontOffset p + k, taken := taken p @ take k (drop (frontOffset p) x)\<rparr>" "o2 = o1"
    using assms(3,6) False by (auto simp: p_take_def Let_def)
  have "pair_ok R n (p', o2)" using assms(1) unfolding r by (simp add: pair_ok_def base_ok_def)
  then show ?thesis using producer_ok_part [OF assms(2,3) _ assms(4), of k] assms(3,5) False unfolding r by simp
next
  case True
  let ?p3 = "p\<lparr>taken := taken p @ take k (drop (frontOffset p) x), chunks := xs, frontOffset := 0\<rparr>"
  have am: "length x \<le> lease_amount (p_lease p)" using assms(2,3) by (simp add: producer_ok_def)
  have "pair_ok R n (?p3, o1)" using assms(1) by (simp add: pair_ok_def base_ok_def)
  then obtain l o3 where b: "p_resize (lease_amount (p_lease p) - length x) (?p3, o1) = (True, ?p3\<lparr>p_lease := l\<rparr>, o3)"
    "pair_ok R n (?p3\<lparr>p_lease := l\<rparr>, o3)" "frame o1 o3" "send_lease (out_conn o1) l" "lease_amount l = lease_amount (p_lease p) - length x"
    by (rule resize_back [of _ _ _ _ "lease_amount (p_lease p) - length x"]) simp_all
  have r: "p' = ?p3\<lparr>p_lease := l\<rparr>" "o2 = notifyReaders o3"
    using assms(3,6) True b(1) am unfolding p_take_def by (auto simp: Let_def size_sub_def)
  show ?thesis using b(2,3) producer_ok_whole [OF assms(2,3) True assms(4) b(4,5)] unfolding r by simp
qed

lemma read_ok:
  assumes "pair_ok R n (p, o1)" and "producer_ok (out_conn o1) p" and "p_read room (p, o1) = (d, p', o2)"
  shows "pair_ok R n (p', o2) \<and> frame o1 o2 \<and> producer_ok (out_conn o1) p'"
proof -
  let ?c = "out_conn o1" and ?o2 = "o1\<lparr>readCredit := False, lastReadStream := p_streamId p\<rparr>" and ?p1 = "p\<lparr>readStarted := True\<rparr>"
  have q: "pair_ok R n (p\<lparr>deferred := True\<rparr>, o1)" "pair_ok R n (?p1, ?o2)" "pair_ok R n (?p1\<lparr>eofRead := True\<rparr>, ?o2)"
    using assms(1) by (simp_all add: pair_ok_def base_ok_def)
  show ?thesis
  proof (cases "o_closed o1 \<or> cancelled p \<or> chunks p = [] \<and> \<not> finished p \<or> selectedStream o1 \<noteq> p_streamId p \<or> \<not> readCredit o1")
    case True
    then have "(p' = p \<or> p' = p\<lparr>deferred := True\<rparr>) \<and> o2 = o1" using assms(3) unfolding p_read_def by (auto simp: Let_def split: if_splits)
    then show ?thesis using assms q by auto
  next
    case False
    show ?thesis
    proof (cases "chunks p")
      case Nil
      then have r: "p' = ?p1\<lparr>eofRead := True\<rparr>" "o2 = ?o2" using assms(3) False unfolding p_read_def by (auto simp: Let_def)
      have "producer_ok ?c (?p1\<lparr>eofRead := True\<rparr>)" using assms(2) Nil False by (auto simp: producer_ok_def)
      then show ?thesis using q(3) unfolding r by simp
    next
      case (Cons x xs)
      let ?k = "read_count room ?o2 (length x - frontOffset p)"
      show ?thesis
      proof (cases "wireCapacity o1 \<le> kFrameHeaderBytes \<or> room = 0")
        case True
        then have "p' = ?p1" "o2 = ?o2" using assms(3) False Cons unfolding p_read_def by (auto simp: Let_def)
        then show ?thesis using assms(2) q(2) by simp
      next
        case ok: False
        obtain got p3 o3 where t: "p_take ?k (?p1, ?o2) = (got, p3, o3)" by (metis prod_cases3)
        have r: "p' = p3\<lparr>eofRead := (finished p3 \<and> chunks p3 = [])\<rparr>" "o2 = o3"
          using assms(3) False Cons ok t unfolding p_read_def by (auto simp: Let_def)
        have "frontOffset p < length x" using assms(2) Cons by (simp add: producer_ok_def)
        moreover have "?k \<le> length x - frontOffset p" by (auto simp: read_count_def Let_def)
        ultimately have "frontOffset ?p1 + ?k \<le> length x" by simp
        from take_ok [OF q(2) _ _ _ this t, of xs] have "pair_ok R n (p3, o3) \<and> frame ?o2 o3 \<and> producer_ok ?c (p3\<lparr>eofRead := (finished p3 \<and> chunks p3 = [])\<rparr>)"
          using assms(2) Cons False by simp
        moreover then have "pair_ok R n (p3\<lparr>eofRead := (finished p3 \<and> chunks p3 = [])\<rparr>, o3)" by (simp add: pair_ok_def)
        ultimately show ?thesis unfolding r by (simp add: frame_def)
      qed
    qed
  qed
qed

section \<open>Operations on the output\<close>

text \<open>What the operations on one producer keep carries over to the output.\<close>

lemma with_producer_ok:
  assumes "out_ok M o1"
    and "\<And>R n p r p' o2. pair_ok R n (p, o1) \<Longrightarrow> producer_ok (out_conn o1) p \<Longrightarrow> f (p, o1) = (r, p', o2)
      \<Longrightarrow> pair_ok R n (p', o2) \<and> frame o1 o2 \<and> producer_ok (out_conn o1) p'"
  shows "out_ok M (snd (with_producer a f none o1))"
proof (cases "heap o1 a")
  case (Some p)
  obtain r p' o2 where f: "f (p, o1) = (r, p', o2)" by (metis prod_cases3)
  from out_pair [OF assms(1) Some] assms(2) [OF _ _ f]
  have "pair_ok (rest_of M a o1) (heap_bytes ((heap o1)(a := None))) (p', o2)" "frame o1 o2" "producer_ok (out_conn o1) p'" by blast+
  then have "out_ok M (set_producer a p' o2)" using assms(1) by (intro pair_out) (auto simp: out_ok_def)
  then show ?thesis using Some f by (simp add: with_producer_def)
qed (use assms(1) in \<open>simp add: with_producer_def\<close>)

lemma on_producer_with: "on_producer a f o1 = snd (with_producer a (\<lambda>q. ((), f q)) () o1)"
  by (simp add: on_producer_def with_producer_def split: option.splits prod.splits)

lemma on_producer_ok:
  assumes "out_ok M o1"
    and "\<And>R n p p' o2. pair_ok R n (p, o1) \<Longrightarrow> producer_ok (out_conn o1) p \<Longrightarrow> f (p, o1) = (p', o2)
      \<Longrightarrow> pair_ok R n (p', o2) \<and> frame o1 o2 \<and> producer_ok (out_conn o1) p'"
  shows "out_ok M (on_producer a f o1)"
  unfolding on_producer_with
proof (rule with_producer_ok [OF assms(1)])
  fix R n p r p' o2
  assume "pair_ok R n (p, o1)" "producer_ok (out_conn o1) p" "((), f (p, o1)) = (r, p', o2)"
  then show "pair_ok R n (p', o2) \<and> frame o1 o2 \<and> producer_ok (out_conn o1) p'" by (intro assms(2)) simp_all
qed

lemma out_upd [simp]:
  "out_ok M (o1\<lparr>pendingEnds := x1\<rparr>) = out_ok M o1" "out_ok M (o1\<lparr>producers := x2\<rparr>) = out_ok M o1" "out_ok M (o1\<lparr>signals := x3\<rparr>) = out_ok M o1"
  "out_ok M (o1\<lparr>readers := x4\<rparr>) = out_ok M o1" "out_ok M (o1\<lparr>wakeup := x5\<rparr>) = out_ok M o1" "out_ok M (o1\<lparr>o_closed := x6\<rparr>) = out_ok M o1"
  "out_ok M (o1\<lparr>pumping := x7\<rparr>) = out_ok M o1" "out_ok M (o1\<lparr>readCredit := x8\<rparr>) = out_ok M o1" "out_ok M (o1\<lparr>selectedStream := x9\<rparr>) = out_ok M o1"
  "out_ok M (o1\<lparr>batch := y1\<rparr>) = out_ok M o1" "out_ok M (o1\<lparr>offset := y2\<rparr>) = out_ok M o1" "out_ok M (o1\<lparr>headerUsed := y3\<rparr>) = out_ok M o1"
  "out_ok M (o1\<lparr>prefaceRemaining := y4\<rparr>) = out_ok M o1" "out_ok M (o1\<lparr>frameHeader := y5\<rparr>) = out_ok M o1"
  "out_ok M (o1\<lparr>payloadRemaining := y6\<rparr>) = out_ok M o1" "out_ok M (o1\<lparr>continuedEndStream := y7\<rparr>) = out_ok M o1"
  by (simp_all add: out_ok_def base_ok_def own_leases_def)

lemma out_wake [simp]: "out_ok M (wake o1) = out_ok M o1" "out_ok M (notifyReaders o1) = out_ok M o1" "out_ok M (drop_entry sid o1) = out_ok M o1"
    "out_ok M (add_entry sid a o1) = out_ok M o1" "out_ok M (add_end sid o1) = out_ok M o1"
  by (simp_all add: wake_def notifyReaders_def drop_entry_def add_entry_def add_end_def)

lemma cancel_ok: "out_ok M o1 \<Longrightarrow> out_ok M (on_producer a p_cancel o1)"
  unfolding p_cancel_def by (rule on_producer_ok) (blast dest: stop_ok)+

lemma close_producer_ok: "out_ok M o1 \<Longrightarrow> out_ok M (on_producer a (p_onClose code) o1)"
  by (rule on_producer_ok) (blast dest: onClose_ok)+

lemma cancelStream_ok: "out_ok M o1 \<Longrightarrow> out_ok M (cancelStream sid o1)"
  by (simp add: cancelStream_def Let_def cancel_ok split: option.splits)

lemma output_stream_closed_ok: "out_ok M o1 \<Longrightarrow> out_ok M (onStreamClose sid code o1)"
  by (simp add: onStreamClose_def cancelStream_ok close_producer_ok split: option.splits)

lemma cancel_all_ok: "out_ok M o1 \<Longrightarrow> out_ok M (cancel_all ps o1)"
  by (induction ps o1 rule: cancel_all.induct) (simp_all add: cancel_ok)

lemma o_close_ok: "out_ok M o1 \<Longrightarrow> out_ok M (o_close o1)"
  by (simp add: o_close_def cancel_all_ok)

lemma callback_ok: "out_ok M o1 \<Longrightarrow> out_ok M (callback_run cb o1)"
proof (cases cb)
  case (CallRead a room)
  assume o: "out_ok M o1"
  have "callback_run cb o1 = snd (with_producer a (p_read room) undefined o1)"
    by (simp add: CallRead callback_run_def with_producer_def split: option.splits prod.splits)
  then show ?thesis using with_producer_ok [OF o read_ok] by simp
qed (simp_all add: callback_run_def close_producer_ok output_stream_closed_ok)

lemma memSend_ok: "out_ok M o1 \<Longrightarrow> out_ok M (memSend cbs o1)"
  unfolding memSend_def by (induction cbs arbitrary: o1) (simp_all add: callback_ok)

text \<open>Changing flags of a producer in place.\<close>

lemma set_flags_ok:
  assumes "out_ok M o1" and "heap o1 a = Some p" and "p_lease p' = p_lease p" and "producer_ok (out_conn o1) p'"
  shows "out_ok M (set_producer a p' o1)"
proof -
  have "pair_ok (rest_of M a o1) (heap_bytes ((heap o1)(a := None))) (p', o1)"
    using out_pair [OF assms(1,2)] assms(3) by (simp add: pair_lease_only [of p' p])
  then show ?thesis using assms by (intro pair_out) (auto simp: out_ok_def)
qed

lemma final_headers_ok: "out_ok M o1 \<Longrightarrow> final_headers cd ps o1 = (e, o2) \<Longrightarrow> out_ok M o2"
proof (induction cd ps o1 rule: final_headers.induct)
  case (2 cd sid a ps o1)
  show ?case
  proof (cases "heap o1 a")
    case None
    then show ?thesis using 2 by simp
  next
    case (Some p)
    show ?thesis
    proof (cases "cancelled p \<or> \<not> finished p \<or> chunks p \<noteq> [] \<or> eofRead p")
      case True
      then show ?thesis using 2 Some by simp
    next
      case False
      have p: "producer_ok (out_conn o1) p" using "2.prems"(1) Some by (simp add: out_ok_def)
      then have "producer_ok (out_conn o1) (p\<lparr>eofRead := True\<rparr>)" using False by (auto simp: producer_ok_def)
      then have "out_ok M (set_producer a (p\<lparr>eofRead := True\<rparr>) o1)" by (intro set_flags_ok [OF "2.prems"(1) Some]) simp_all
      then show ?thesis using 2 Some False by (auto simp: Let_def split: if_splits)
    qed
  qed
qed simp

lemma selectProducer_ok: "out_ok M o1 \<Longrightarrow> selectProducer cd o1 = (e, o2) \<Longrightarrow> out_ok M o2"
proof -
  assume o: "out_ok M o1" and s: "selectProducer cd o1 = (e, o2)"
  let ?o1 = "o1\<lparr>readCredit := False, selectedStream := 0\<rparr>"
  have "out_ok M (set_producer a (p\<lparr>deferred := False\<rparr>) (?o1\<lparr>selectedStream := x, readCredit := True\<rparr>))" if "heap o1 a = Some p" for a p x
  proof -
    have "producer_ok (out_conn o1) p" using o that by (simp add: out_ok_def)
    then show ?thesis using o that by (intro set_flags_ok [where p = p]) simp_all
  qed
  then show ?thesis using o s by (auto simp: selectProducer_def Let_def split: if_splits option.splits)
qed

lemma nextBatch_ok: "out_ok M o1 \<Longrightarrow> nextBatch cd cbs res o1 = (e, o2) \<Longrightarrow> out_ok M o2"
  by (auto simp: nextBatch_def prepareFinalHeaders_def Let_def split: if_splits prod.splits option.splits sum.splits
      intro!: o_close_ok memSend_ok dest!: final_headers_ok [rotated] selectProducer_ok [rotated])

lemma frameComplete_ok: "out_ok M (fst (frameComplete o1 ended)) = out_ok M o1"
  by (simp add: frameComplete_def Let_def)

text \<open>The parser of acknowledged bytes only touches its own variables.\<close>

definition tracked :: "Output \<Rightarrow> Output" where
  "tracked o1 = o1\<lparr>prefaceRemaining := 0, frameHeader := [], headerUsed := 0, payloadRemaining := 0, continuedEndStream := 0\<rparr>"

lemma tracked_upd [simp]:
  "tracked (o1\<lparr>prefaceRemaining := x1\<rparr>) = tracked o1" "tracked (o1\<lparr>frameHeader := x2\<rparr>) = tracked o1"
  "tracked (o1\<lparr>payloadRemaining := x4\<rparr>) = tracked o1" "tracked (o1\<lparr>continuedEndStream := x5\<rparr>) = tracked o1" "tracked (o1\<lparr>headerUsed := x6\<rparr>) = tracked o1"
  by (simp_all add: tracked_def)

lemma tracked_complete [simp]: "tracked (fst (frameComplete o1 ended)) = tracked o1"
  by (simp add: frameComplete_def Let_def)

lemma tracked_round: "parse_round dat o1 ended = (k, o2, e2) \<Longrightarrow> tracked o2 = tracked o1"
proof -
  have c: "frameComplete x e = (y, z) \<Longrightarrow> tracked y = tracked x" for x e y z by (metis tracked_complete fst_conv)
  show "parse_round dat o1 ended = (k, o2, e2) \<Longrightarrow> tracked o2 = tracked o1"
    by (auto simp: parse_round_def Let_def dest!: c split: if_splits)
qed

lemma tracked_parse: "tracked (fst (parseAcknowledged dat o1 ended)) = tracked o1"
proof (induction dat o1 ended rule: parseAcknowledged.induct)
  case (1 dat o1 ended)
  then show ?case by (subst parseAcknowledged.simps) (auto split: prod.splits dest: tracked_round)
qed

lemma parse_ok: "out_ok M (fst (parseAcknowledged dat o1 ended)) = out_ok M o1"
  using tracked_parse [of dat o1 ended] out_upd(12-16) unfolding tracked_def by metis

lemma acknowledge_ok: "out_ok M o1 \<Longrightarrow> out_ok M (snd (acknowledge mem n o1))"
  using parse_ok [of M "take n (drop (offset o1) (batch o1))" o1 "[]"] by (auto simp: acknowledge_def Let_def o_close_ok split: prod.splits)

lemma acquire_conns: "acquire b c r n m = (l, b') \<Longrightarrow> conns b x \<noteq> None \<Longrightarrow> conns b' x \<noteq> None"
  by (auto simp: acquire_def Let_def split: option.splits if_splits prod.splits bool.splits)

lemma reset_conns: "lease_reset b l = (l', b') \<Longrightarrow> conns b x \<noteq> None \<Longrightarrow> conns b' x \<noteq> None"
  by (auto simp: lease_reset_def Let_def split: option.splits if_splits prod.splits)

lemma acquireSend_props:
  assumes "tryAcquireSend b h n = (l, b')" and "conns b (budget_state h) \<noteq> None"
  shows "conns b' x = None \<longleftrightarrow> conns b x = None" and "lease_held l \<Longrightarrow> send_lease (budget_state h) l \<and> lease_amount l = n"
    and "n = 0 \<Longrightarrow> lease_held l" and "\<not> lease_held l \<Longrightarrow> l = empty_lease"
  using assms by (auto simp: tryAcquireSend_def acquire_def Let_def send_lease_def lease_held_def split: option.splits if_splits)

lemma drop_producer_ok:
  assumes "out_ok M o1"
  shows "out_ok M (drop_producer a o1)"
proof (cases "heap o1 a")
  case (Some p)
  let ?h = "(heap o1)(a := None)"
  obtain l b where l: "lease_reset (o_budgets o1) (p_lease p) = (l, b)" by fastforce
  have q: "pair_ok (rest_of M a o1) (heap_bytes ?h) (p, o1)" using out_pair [OF assms Some] by simp
  then have "budgets_ok (o_budgets o1) (add_mset (p_lease p) (rest_of M a o1))" by (simp add: pair_ok_def)
  note r = lease_reset_ok [OF this l]
  then have b: "budgets_ok b (rest_of M a o1)" by (simp add: lease_held_def)
  have "size_sub (queuedBytes o1) (lease_amount (p_lease p)) = heap_bytes ?h" using q by (simp add: pair_ok_def size_sub_def)
  moreover have "conns b (out_conn o1) \<noteq> None" using reset_conns [OF l] assms by (auto simp: out_ok_def base_ok_def)
  ultimately show ?thesis using Some l b assms
    by (auto simp: drop_producer_def out_ok_def base_ok_def own_leases_def rest_of_def split: if_splits)
qed (use assms in \<open>simp add: drop_producer_def\<close>)

text \<open>A new producer at a free address.\<close>

lemma new_producer_ok:
  assumes "out_ok M o1" and "heap o1 a = None" and "new_producer sid o1 = (p, o2)" and "x > 0"
  shows "out_ok M (set_producer a (p\<lparr>p_streamId := x\<rparr>) o2)" and "heap o2 = heap o1"
proof -
  obtain l b where l: "tryAcquireSend (o_budgets o1) (o_budget o1) 0 = (l, b)" by fastforce
  have c: "conns (o_budgets o1) (out_conn o1) \<noteq> None" using assms(1) by (simp add: out_ok_def base_ok_def)
  note a = acquireSend_props [OF l c]
  have p: "p_lease p = l" "o2 = o1\<lparr>o_budgets := b\<rparr>" using assms(3) l by (auto simp: new_producer_def)
  have sl: "send_lease (out_conn o1) l" "lease_amount l = 0" using a by auto
  have h: "(heap o1)(a := None) = heap o1" using assms(2) by auto
  have f: "finite (dom (heap o1))" using assms(1) by (simp add: out_ok_def)
  have "budgets_ok b (add_mset l (own_leases o1 + M))" using tryAcquireSend_ok [OF _ l] assms(1) by (simp add: out_ok_def)
  then have "budgets_ok b (own_leases (set_producer a (p\<lparr>p_streamId := x\<rparr>) o2) + M)"
    using p h f by (simp add: own_leases_def set_producer_def producers_put add_mset_commute)
  moreover have "producer_ok (out_conn o1) (p\<lparr>p_streamId := x\<rparr>)"
    using assms(3,4) l sl by (auto simp: new_producer_def producer_ok_def)
  moreover have "heap_bytes ((heap o1)(a \<mapsto> p\<lparr>p_streamId := x\<rparr>)) = heap_bytes (heap o1)" using f h sl p by (simp add: heap_bytes_put)
  ultimately show "out_ok M (set_producer a (p\<lparr>p_streamId := x\<rparr>) o2)"
    using assms(1) a(1) p by (auto simp: out_ok_def base_ok_def set_producer_def)
  show "heap o2 = heap o1" using p by simp
qed

lemma open_stream_ok:
  assumes "out_ok M o1" and "heap o1 a = None" and "\<And>sid. answer = Inr sid \<Longrightarrow> sid > 0" and "open_stream mem answer given a o1 = (r, o2)"
  shows "out_ok M o2"
proof -
  obtain p o3 where n: "new_producer given o1 = (p, o3)" by fastforce
  note ok = new_producer_ok [OF assms(1,2) n]
  have set: "set_producer a x (set_producer a y o3) = set_producer a x o3" for x y by (simp add: set_producer_def)
  have drop: "out_ok M (drop_producer a (set_producer a p o3))"
  proof -
    have "drop_producer a (set_producer a p o3) = drop_producer a (set_producer a (p\<lparr>p_streamId := 1\<rparr>) o3)"
      by (simp add: drop_producer_def set_producer_def)
    then show ?thesis using drop_producer_ok [OF ok(1) [of 1]] by simp
  qed
  show ?thesis
  proof (cases answer)
    case (Inl e)
    then show ?thesis using assms(4) n drop by (auto simp: open_stream_def Let_def split: if_splits)
  next
    case (Inr sid)
    then have "out_ok M (set_producer a (p\<lparr>p_streamId := sid\<rparr>) o3)" using ok(1) assms(3) by simp
    then show ?thesis using assms(4) n drop Inr by (auto simp: open_stream_def Let_def set cancel_ok split: if_splits)
  qed
qed

section \<open>File readers\<close>

lemma release_ok:
  assumes "out_ok M o1" and "k < length (permits o1)"
  shows "out_ok M (drop_permit k o1)"
proof -
  let ?pm = "permits o1 ! k" and ?ps = "take k (permits o1) @ drop (Suc k) (permits o1)"
  obtain l b where l: "lease_reset (o_budgets o1) (pm_lease ?pm) = (l, b)" by fastforce
  have "permits o1 = take k (permits o1) @ ?pm # drop (Suc k) (permits o1)" using assms(2) by (rule id_take_nth_drop)
  then have "mset (permits o1) = add_mset ?pm (mset ?ps)" by (metis mset.simps(2) mset_append union_mset_add_mset_right)
  then have sp: "mset (map pm_lease (permits o1)) = add_mset (pm_lease ?pm) (mset (map pm_lease ?ps))" by (metis image_mset_add_mset mset_map)
  let ?R = "own_leases (o1\<lparr>permits := ?ps\<rparr>) + M"
  have "own_leases o1 + M = add_mset (pm_lease ?pm) ?R" unfolding own_leases_def by (simp only: sp) simp
  then have "budgets_ok (o_budgets o1) (add_mset (pm_lease ?pm) ?R)" using assms(1) by (simp add: out_ok_def)
  from lease_reset_ok [OF this l] have b: "budgets_ok b ?R" by (simp add: lease_held_def)
  have "conns b (out_conn o1) \<noteq> None" using reset_conns [OF l] assms(1) by (auto simp: out_ok_def base_ok_def)
  moreover have "set ?ps \<subseteq> set (permits o1)" by (auto dest: in_set_takeD in_set_dropD)
  ultimately have "out_ok M (o1\<lparr>permits := ?ps, o_budgets := b\<rparr>)"
    using assms(1) b unfolding out_ok_def base_ok_def own_leases_def by (auto simp: list_all_iff)
  then show ?thesis using l by (simp add: drop_permit_def release_def)
qed

lemma reserve_ok:
  assumes "out_ok M o1" and "reserve_round cd t maximum deadline now p o1 = (r, o2)"
  shows "out_ok M o2"
proof -
  define n where "n = min maximum (min (size_sub (maxConnectionSendBytes (o_options o1)) (send_used o1)) (min (nat (peerWindow cd 0)) (nat (peerWindow cd (p_streamId p)))))"
  obtain l b where l: "tryAcquireSend (o_budgets o1) (o_budget o1) n = (l, b)" by fastforce
  have c: "conns (o_budgets o1) (out_conn o1) \<noteq> None" using assms(1) by (simp add: out_ok_def base_ok_def)
  note a = acquireSend_props [OF l c]
  have b: "budgets_ok b (add_mset l (own_leases o1 + M))" using tryAcquireSend_ok [OF _ l] assms(1) by (simp add: out_ok_def)
  have got: "out_ok M (o1\<lparr>o_budgets := b, permits := \<lparr>pm_live = True, pm_lease = l, pm_streamId = x\<rparr> # permits o1\<rparr>)" if "lease_held l" for x
  proof -
    have "own_leases (o1\<lparr>o_budgets := b, permits := \<lparr>pm_live = True, pm_lease = l, pm_streamId = x\<rparr> # permits o1\<rparr>) = add_mset l (own_leases o1)"
      by (simp add: own_leases_def)
    then show ?thesis using assms(1) a(1) [of "out_conn o1"] a(2) [OF that] b unfolding out_ok_def base_ok_def by simp
  qed
  have none: "out_ok M (o1\<lparr>o_budgets := b\<rparr>)" if "\<not> lease_held l"
    using assms(1) a(1) [of "out_conn o1"] a(4) [OF that] b by (simp add: out_ok_def base_ok_def own_leases_def)
  let ?leave = "\<lambda>o2 :: Output. o2\<lparr>readers := filter (\<lambda>(x, _). x \<noteq> t) (readers o2)\<rparr>"
  let ?wait = "\<lambda>o2 :: Output. o2\<lparr>readers := map (\<lambda>(x, c). (x, if x = t then False else c)) (readers o2)\<rparr>"
  have "o2 = ?leave o1 \<or> o2 = ?wait o1 \<or> lease_held l \<and> o2 = ?leave (o1\<lparr>o_budgets := b, permits := \<lparr>pm_live = True, pm_lease = l, pm_streamId = p_streamId p\<rparr> # permits o1\<rparr>)
      \<or> \<not> lease_held l \<and> o2 = ?wait (o1\<lparr>o_budgets := b\<rparr>)"
    using assms(2) l unfolding reserve_round_def Let_def n_def [symmetric] by (simp split: if_splits)
  then show ?thesis using assms(1) got [of "p_streamId p"] none by (elim disjE) (simp_all only: out_upd, simp_all)
qed

lemma appendReserved_drop:
  "appendReserved cd mem dat k (p, o1) = (r, p', o2) \<Longrightarrow>
     (p' = p \<and> o2 = drop_permit k o1) \<or> appendOwned cd mem dat (p, drop_permit k o1) = (r, p', o2)"
  by (auto simp: appendReserved_def drop_permit_def Let_def split: if_splits)

lemma drop_permit_heap [simp]: "heap (drop_permit k o1) = heap o1" "o_budget (drop_permit k o1) = o_budget o1"
  by (simp_all add: drop_permit_def release_def notifyReaders_def split: prod.splits)

lemma appendReserved_ok:
  assumes "out_ok M o1" and "k < length (permits o1)"
  shows "out_ok M (snd (with_producer a (appendReserved cd mem dat k) none o1))"
proof (cases "heap o1 a")
  case (Some p)
  let ?o = "drop_permit k o1"
  have o: "out_ok M ?o" using assms by (rule release_ok)
  obtain r p' o2 where r: "appendReserved cd mem dat k (p, o1) = (r, p', o2)" by (metis prod_cases3)
  have w: "with_producer a (appendReserved cd mem dat k) none o1 = (r, set_producer a p' o2)" using Some r by (simp add: with_producer_def)
  from appendReserved_drop [OF r] show ?thesis
  proof
    assume "p' = p \<and> o2 = ?o"
    moreover have "set_producer a p ?o = ?o" using Some by (simp add: set_producer_def fun_upd_idem)
    ultimately show ?thesis using w o by simp
  next
    assume "appendOwned cd mem dat (p, ?o) = (r, p', o2)"
    then have e: "snd (with_producer a (appendOwned cd mem dat) none ?o) = set_producer a p' o2" using Some by (simp add: with_producer_def)
    have "out_ok M (snd (with_producer a (appendOwned cd mem dat) none ?o))" by (rule with_producer_ok [OF o]) (rule appendOwned_ok)
    then show ?thesis unfolding e w by simp
  qed
qed (use assms(1) in \<open>simp add: with_producer_def\<close>)

section \<open>Histories\<close>

text \<open>
  The operations in any order, with any answers of the codec; \<open>M\<close> are the leases everybody else holds. A new
  producer gets an address that no pointer has, and streams have positive numbers.
\<close>

inductive out_step :: "Lease multiset \<times> Output \<Rightarrow> Lease multiset \<times> Output \<Rightarrow> bool" where
  append: "out_step (M, o1) (M, snd (with_producer a (p_append cd mem dat) ok_error o1))"
| append_owned: "out_step (M, o1) (M, snd (with_producer a (appendOwned cd mem dat) (ok_error, []) o1))"
| append_chunks: "out_step (M, o1) (M, snd (with_producer a (appendChunks cd mem cs) ok_error o1))"
| finish: "out_step (M, o1) (M, snd (with_producer a (p_finish v6 cd mem fs) (Inr ok_error) o1))"
| cancel: "out_step (M, o1) (M, on_producer a p_cancel o1)"
| set_cancel: "out_step (M, o1) (M, on_producer a (setCancelHandler present) o1)"
| dropped: "out_step (M, o1) (M, drop_producer a o1)"
| task: "heap o1 a = Some p \<Longrightarrow> acquireApplicationTask (p, o1) = (l, o2) \<Longrightarrow> out_step (M, o1) (add_mset l M, o2)"
| reserve_start: "out_step (M, o1) (M, snd (reserve_begin t maximum o1))"
| reserve: "heap o1 a = Some p \<Longrightarrow> reserve_round cd t maximum deadline now p o1 = (r, o2) \<Longrightarrow> out_step (M, o1) (M, o2)"
| append_reserved: "k < length (permits o1) \<Longrightarrow> out_step (M, o1) (M, snd (with_producer a (appendReserved cd mem dat k) (ok_error, []) o1))"
| permit_dropped: "k < length (permits o1) \<Longrightarrow> out_step (M, o1) (M, drop_permit k o1)"
| set_wakeup: "out_step (M, o1) (M, setWakeup present o1)"
| request: "heap o1 a = None \<Longrightarrow> a \<notin> snd ` set (producers o1) \<Longrightarrow> (\<And>sid. answer = Inr sid \<Longrightarrow> sid > 0) \<Longrightarrow> out_step (M, o1) (M, snd (submitRequest memo answer a o1))"
| response: "heap o1 a = None \<Longrightarrow> a \<notin> snd ` set (producers o1) \<Longrightarrow> sid > 0 \<Longrightarrow> out_step (M, o1) (M, snd (submitResponse memo answ sid a o1))"
| response_headers: "out_step (M, o1) (M, snd (submitResponseHeaders mem answ sid o1))"
| stream_cancel: "out_step (M, o1) (M, cancelStream sid o1)"
| stream_close: "out_step (M, o1) (M, onStreamClose sid code o1)"
| source_close: "out_step (M, o1) (M, on_producer a (p_onClose code) o1)"
| batch: "nextBatch cd cbs res o1 = (r, o2) \<Longrightarrow> out_step (M, o1) (M, o2)"
| written: "out_step (M, o1) (M, snd (acknowledge mem n o1))"
| closing: "out_step (M, o1) (M, o_close o1)"
| others: "budget_step (o_budgets o1, own_leases o1 + M) (b, own_leases o1 + M') \<Longrightarrow> out_step (M, o1) (M', o1\<lparr>o_budgets := b\<rparr>)"

inductive out_run :: "Lease multiset \<times> Output \<Rightarrow> bool" where
  created: "budgets_ok b M \<Longrightarrow> conns b (budget_state bud) \<noteq> None \<Longrightarrow> new_output b role bud opt = Inr o1 \<Longrightarrow> out_run (M, o1)"
| stepped: "out_run x \<Longrightarrow> out_step x y \<Longrightarrow> out_run y"

lemma budget_step_conns: "budget_step x y \<Longrightarrow> conns (fst x) c \<noteq> None \<Longrightarrow> conns (fst y) c \<noteq> None"
proof (induction rule: budget_step.induct)
  case (assign b this other this' other' b' M)
  then show ?case by (auto simp: lease_assign_def lease_take_def Let_def split: prod.splits dest: reset_conns)
qed (auto simp: new_service_def new_budget_def Let_def tryAcquireProtocolStream_def tryAcquireApplicationTask_def tryAcquireReceive_def
      tryAcquireSend_def split: if_splits option.splits dest: acquire_conns reset_conns tryResize_conns)

lemma created_ok:
  assumes "budgets_ok b M" and "conns b (budget_state bud) \<noteq> None" and "new_output b role bud opt = Inr o1"
  shows "out_ok M o1"
proof -
  obtain cap l b' where l: "tryAcquireSend b bud cap = (l, b')" "lease_held l" "o_budgets o1 = b'" "o_budget o1 = bud" "wireLease o1 = l"
      "wireCapacity o1 = cap" "heap o1 = (\<lambda>_. None)" "permits o1 = []" "queuedBytes o1 = 0" "o_options o1 = opt" "validationError opt = []"
    using assms(3) by (auto simp: new_output_def Let_def split: if_splits prod.splits)
  note a = acquireSend_props [OF l(1) assms(2)]
  have "budgets_ok b' (add_mset l M)" using tryAcquireSend_ok [OF assms(1) l(1)] .
  then show ?thesis using a(1) [of "budget_state bud"] a(2) [OF l(2)] assms(2) l
    by (simp add: out_ok_def base_ok_def own_leases_def producer_leases_def heap_bytes_def)
qed

lemma task_ok:
  assumes "out_ok M o1" and "acquireApplicationTask (p, o1) = (l, o2)"
  shows "out_ok (add_mset l M) o2"
proof (cases "is_error (canProduce o1 p)")
  case True
  then show ?thesis using assms by (auto simp: acquireApplicationTask_def out_ok_def)
next
  case False
  obtain l' b where t: "tryAcquireApplicationTask (o_budgets o1) (o_budget o1) = (l', b)" by fastforce
  then have r: "l' = l" "o2 = o1\<lparr>o_budgets := b\<rparr>" using assms(2) False by (auto simp: acquireApplicationTask_def)
  have "budgets_ok b (add_mset l (own_leases o1 + M))" using tryAcquireApplicationTask_ok [OF _ t] assms(1) r by (simp add: out_ok_def)
  moreover have "conns b (out_conn o1) \<noteq> None"
    using acquire_conns t assms(1) unfolding tryAcquireApplicationTask_def out_ok_def base_ok_def by blast
  ultimately show ?thesis using assms(1) unfolding r by (simp add: out_ok_def base_ok_def own_leases_def)
qed

lemma others_ok:
  assumes "out_ok M o1" and "budget_step (o_budgets o1, own_leases o1 + M) (b, own_leases o1 + M')"
  shows "out_ok M' (o1\<lparr>o_budgets := b\<rparr>)"
proof -
  have "budgets_ok b (own_leases o1 + M')" using budget_step_ok [OF assms(2)] assms(1) by (simp add: out_ok_def)
  moreover have "conns b (out_conn o1) \<noteq> None" using budget_step_conns [OF assms(2)] assms(1) by (simp add: out_ok_def base_ok_def)
  ultimately show ?thesis using assms(1) by (simp add: out_ok_def base_ok_def own_leases_def)
qed

lemma submit_ok:
  "out_ok M o1 \<Longrightarrow> heap o1 a = None \<Longrightarrow> (\<And>sid. answer = Inr sid \<Longrightarrow> sid > 0) \<Longrightarrow> out_ok M (snd (submitRequest memo answer a o1))"
  "out_ok M o1 \<Longrightarrow> heap o1 a = None \<Longrightarrow> sid > 0 \<Longrightarrow> out_ok M (snd (submitResponse memo answ sid a o1))"
  "out_ok M o1 \<Longrightarrow> out_ok M (snd (submitResponseHeaders mem answ sid o1))"
proof -
  have o: "out_ok M (snd (open_stream memo ans given a o1))" if "out_ok M o1" "heap o1 a = None" "\<And>sid. ans = Inr sid \<Longrightarrow> sid > 0" for ans given
    by (rule open_stream_ok [OF that prod.collapse [symmetric]])
  show "out_ok M o1 \<Longrightarrow> heap o1 a = None \<Longrightarrow> (\<And>sid. answer = Inr sid \<Longrightarrow> sid > 0) \<Longrightarrow> out_ok M (snd (submitRequest memo answer a o1))"
    using o by (simp add: submitRequest_def)
  show "out_ok M o1 \<Longrightarrow> heap o1 a = None \<Longrightarrow> sid > 0 \<Longrightarrow> out_ok M (snd (submitResponse memo answ sid a o1))"
    using o [of "Inl answ" sid] o [of "Inr sid" sid] by (simp add: submitResponse_def)
  show "out_ok M o1 \<Longrightarrow> out_ok M (snd (submitResponseHeaders mem answ sid o1))"
    by (simp add: submitResponseHeaders_def Let_def)
qed

lemma out_step_ok: "out_step x y \<Longrightarrow> out_ok (fst x) (snd x) \<Longrightarrow> out_ok (fst y) (snd y)"
proof (induction rule: out_step.induct)
  case (append M o1 a cd mem dat)
  then show ?case by simp (rule with_producer_ok, assumption, rule append_ok)
next
  case (append_owned M o1 a cd mem dat)
  then show ?case by simp (rule with_producer_ok, assumption, rule appendOwned_ok)
next
  case (append_chunks M o1 a cd mem cs)
  then show ?case by simp (rule with_producer_ok, assumption, rule appendChunks_ok)
next
  case (finish M o1 a v6 cd mem fs)
  then show ?case by simp (rule with_producer_ok, assumption, rule finish_ok)
next
  case (set_cancel M o1 a present)
  then show ?case by simp (rule on_producer_ok, assumption, rule setCancelHandler_ok)
next
  case (task o1 a p l o2 M)
  then show ?case using task_ok by simp
next
  case (reserve o1 a p cd t maximum deadline now r o2 M)
  then show ?case using reserve_ok [OF _ reserve(2)] by simp
next
  case (batch cd cbs res o1 r o2 M)
  then show ?case using nextBatch_ok [OF _ batch(1)] by simp
next
  case (request o1 a answer M memo)
  then show ?case using submit_ok(1) by simp
next
  case (others o1 M b M')
  then show ?case using others_ok by simp
qed (simp_all add: cancel_ok drop_producer_ok reserve_begin_def appendReserved_ok release_ok setWakeup_def submit_ok(2,3)
      cancelStream_ok output_stream_closed_ok close_producer_ok acknowledge_ok o_close_ok)

lemma out_run_ok: "out_run x \<Longrightarrow> out_ok (fst x) (snd x)"
  by (induction rule: out_run.induct) (auto simp: created_ok intro: out_step_ok)

section \<open>A sample output\<close>

text \<open>Two responses with a body each.\<close>

definition out_handle :: Http2Budget where
  "out_handle = \<lparr>budget_role = hServer, budget_state = 0\<rparr>"

definition sample_codec :: Codec where
  "sample_codec = \<lparr>codec_role = hServer, peerWindow = (\<lambda>_. 65535), activeLocalStreamCount = 0, peerMaxConcurrentStreams = 100,
     resume = (\<lambda>_. ok_error), submitTrailers = (\<lambda>_ _. ok_error)\<rparr>"

definition sample_out :: Output where
  "sample_out = projr (new_output (fst sample_store) hServer out_handle default_options)"

lemmas eval_out = sample_store_def new_service_def new_budget_def options_valid_def
      tryAcquireApplicationTask_def acquire_def default_options_def service_acquire_def no_budgets_def
      size_sub_def size_add_def size_modulus_def lease_held_def set_conn_def set_service_def
  out_handle_def tryAcquireSend_def kMinFrameBytes_def kHeaderEncodingSlack_def kFrameHeaderBytes_def kMinimumWireCapacity_def

lemma sample_out_new: "new_output (fst sample_store) hServer out_handle default_options = Inr sample_out"
  using default_options_valid
  by (simp add: sample_out_def new_output_def Let_def eval_out)

lemma out_run_sample: "out_run ({#snd sample_store#}, sample_out)"
proof -
  have "budgets_ok (fst sample_store) {#snd sample_store#}" using budget_reachable_ok [OF sample_store_reachable] by simp
  moreover have "conns (fst sample_store) (budget_state out_handle) \<noteq> None" using sample_store_conn by (auto simp: out_handle_def)
  ultimately show ?thesis using created [OF _ _ sample_out_new] by blast
qed

definition open_and_append :: "int \<Rightarrow> nat \<Rightarrow> string \<Rightarrow> Output \<Rightarrow> Output" where
  "open_and_append sid a dat o1 = snd (with_producer a (p_append sample_codec True dat) ok_error (snd (submitResponse Enough ok_error sid a o1)))"

lemma run_open_append: "out_run (M, o1) \<Longrightarrow> heap o1 a = None \<Longrightarrow> a \<notin> snd ` set (producers o1) \<Longrightarrow> sid > 0 \<Longrightarrow> out_run (M, open_and_append sid a dat o1)"
  unfolding open_and_append_def by (blast intro: stepped append response)

lemma sample_out_fields: "producers sample_out = []" "heap sample_out = (\<lambda>_. None)" "pendingEnds sample_out = []" "\<not> o_closed sample_out"
    "readCredit sample_out = False" "lastReadStream sample_out = 0" "batch sample_out = []" "offset sample_out = 0" "readers sample_out = []"
    "o_options sample_out = default_options" "wireCapacity sample_out = 65536" "permits sample_out = []" "wakeup sample_out = False" "o_budget sample_out = out_handle"
    "queuedBytes sample_out = 0"
  using default_options_valid
  by (simp_all add: sample_out_def new_output_def Let_def eval_out)

lemma sample_out_conn: "\<exists>st. conns (o_budgets sample_out) 0 = Some st \<and> used st hSendBytes = 65536 \<and> limits st hSendBytes = 8388608"
  using default_options_valid
  by (simp add: sample_out_def new_output_def Let_def eval_out)

definition charged :: "nat \<Rightarrow> Output \<Rightarrow> BudgetState \<Rightarrow> budgets" where
  "charged n o1 st = (o_budgets o1)\<lparr>conns := (conns (o_budgets o1))(0 \<mapsto> st\<lparr>used := (used st)(hSendBytes := used st hSendBytes + n)\<rparr>)\<rparr>"

definition sample_producer :: "int \<Rightarrow> string \<Rightarrow> Producer" where
  "sample_producer sid dat = \<lparr>p_lease = \<lparr>lease_state = Some 0, lease_resource = hSendBytes, lease_amount = length dat, lease_limit = 8388608\<rparr>, chunks = [dat],
     trailerBlock = None, frontOffset = 0, p_streamId = sid, finished = False, cancelled = False, deferred = False, eofRead = False, readStarted = False,
     cancelHandler = False, appended = dat, taken = [], trailerBytes = 0\<rparr>"

lemma open_append_fields:
  assumes "conns (o_budgets o1) 0 = Some st" "limits st hSendBytes = 8388608" "used st hSendBytes + length dat \<le> 8388608" "dat \<noteq> []" "length dat = n" "o_budget o1 = out_handle"
    "\<not> o_closed o1" "heap o1 a = None" "map_of (producers o1) sid = None" "sid \<notin> set (pendingEnds o1)" "wakeup o1 = False" "queuedBytes o1 + length dat < size_modulus"
  shows "open_and_append sid a dat o1 = o1\<lparr>producers := (sid, a) # producers o1, pendingEnds := sid # pendingEnds o1, o_budgets := charged n o1 st,
     queuedBytes := queuedBytes o1 + n, heap := (heap o1)(a \<mapsto> sample_producer sid dat)\<rparr>"
proof -
  have "\<not> 8388608 - used st hSendBytes < length dat" using assms(3) by simp
  then show ?thesis using assms
    by (simp add: open_and_append_def submitResponse_def open_stream_def new_producer_def tryAcquireSend_def acquire_def with_producer_def p_append_def
      canProduce_def enqueue_def p_resize_def p_ready_def tryResize_def Let_def set_producer_def add_entry_def add_end_def wake_def out_handle_def
      lease_held_def kMaxProducerChunks_def size_sub_def size_add_def size_modulus_def set_conn_def less_Resource_def charged_def sample_producer_def)
qed

definition one_body :: Output where "one_body = open_and_append 1 0 ''abc'' sample_out"
definition two_bodies :: Output where "two_bodies = open_and_append 3 1 ''de'' one_body"

lemma one_body_eq:
  "\<exists>st. one_body = sample_out\<lparr>producers := [(1, 0)], pendingEnds := [1], o_budgets := charged 3 sample_out st, queuedBytes := 3, heap := [0 \<mapsto> sample_producer 1 ''abc'']\<rparr>
    \<and> conns (charged 3 sample_out st) 0 = Some (st\<lparr>used := (used st)(hSendBytes := 65539)\<rparr>) \<and> limits st hSendBytes = 8388608"
proof -
  obtain st where st: "conns (o_budgets sample_out) 0 = Some st" "used st hSendBytes = 65536" "limits st hSendBytes = 8388608" using sample_out_conn by blast
  have "one_body = sample_out\<lparr>producers := [(1, 0)], pendingEnds := [1], o_budgets := charged 3 sample_out st, queuedBytes := 3, heap := [0 \<mapsto> sample_producer 1 ''abc'']\<rparr>"
    unfolding one_body_def using open_append_fields [OF st(1,3), of "''abc''" 3 0 1] st by (simp add: sample_out_fields size_modulus_def)
  then show ?thesis using st by (intro exI [of _ st]) (simp add: charged_def)
qed

lemma two_bodies_eq:
  "\<exists>b. two_bodies = sample_out\<lparr>producers := [(3, 1), (1, 0)], pendingEnds := [3, 1], o_budgets := b, queuedBytes := 5,
      heap := [0 \<mapsto> sample_producer 1 ''abc'', 1 \<mapsto> sample_producer 3 ''de'']\<rparr>"
proof -
  obtain st where st: "one_body = sample_out\<lparr>producers := [(1, 0)], pendingEnds := [1], o_budgets := charged 3 sample_out st, queuedBytes := 3, heap := [0 \<mapsto> sample_producer 1 ''abc'']\<rparr>"
    "conns (charged 3 sample_out st) 0 = Some (st\<lparr>used := (used st)(hSendBytes := 65539)\<rparr>)" "limits st hSendBytes = 8388608" using one_body_eq by blast
  let ?s = "st\<lparr>used := (used st)(hSendBytes := 65539)\<rparr>"
  have "two_bodies = one_body\<lparr>producers := (3, 1) # producers one_body, pendingEnds := 3 # pendingEnds one_body, o_budgets := charged 2 one_body ?s,
      queuedBytes := queuedBytes one_body + 2, heap := (heap one_body)(1 \<mapsto> sample_producer 3 ''de'')\<rparr>"
    unfolding two_bodies_def using open_append_fields [of one_body ?s "''de''" 2 1 3] st(2,3) by (simp add: st(1) sample_out_fields size_modulus_def)
  then show ?thesis unfolding st(1) by (intro exI) simp
qed

lemma run_bodies: "out_run ({#snd sample_store#}, one_body)" "out_run ({#snd sample_store#}, two_bodies)"
proof -
  show 1: "out_run ({#snd sample_store#}, one_body)" unfolding one_body_def by (rule run_open_append [OF out_run_sample]) (simp_all add: sample_out_fields)
  obtain st where st: "one_body = sample_out\<lparr>producers := [(1, 0)], pendingEnds := [1], o_budgets := charged 3 sample_out st, queuedBytes := 3, heap := [0 \<mapsto> sample_producer 1 ''abc'']\<rparr>"
    using one_body_eq by blast
  show "out_run ({#snd sample_store#}, two_bodies)" unfolding two_bodies_def by (rule run_open_append [OF 1]) (simp_all add: st)
qed

section \<open>Properties\<close>

lemma share_send: "send_lease c l \<Longrightarrow> lease_share c hSendBytes l = lease_amount l"
  by (simp add: send_lease_def lease_share_def)

lemma permits_share: "list_all (\<lambda>pm. send_lease c (pm_lease pm)) ps \<Longrightarrow>
    (\<Sum>l\<in>#mset (map pm_lease ps). lease_share c hSendBytes l) = sum_list (map (lease_amount \<circ> pm_lease) ps)"
  by (induction ps) (simp_all add: share_send)

lemma heap_bytes_sum:
  assumes "finite (dom h)" and "\<forall>a p. h a = Some p \<longrightarrow> producer_ok c p"
  shows "heap_bytes h = (\<Sum>a\<in>dom h. length (concat (chunks (the (h a)))) + trailerBytes (the (h a)))"
proof -
  have "heap_bytes h = (\<Sum>a\<in>dom h. lease_amount (p_lease (the (h a))))"
    by (simp add: heap_bytes_def producer_leases_def sum_unfold_sum_mset comp_def image_mset.compositionality)
  also have "\<dots> = (\<Sum>a\<in>dom h. length (concat (chunks (the (h a)))) + trailerBytes (the (h a)))"
    using assms(2) by (intro sum.cong) (auto simp: producer_ok_def)
  finally show ?thesis .
qed

text \<open>
  C8. The send budget of a connection is charged exactly for what is buffered. In every state the output can reach,
  whatever the producers, file readers, the codec and everybody else did, in whatever order, and whatever
  failed: the counter \<open>queuedBytes\<close> is the sum of the queued chunks and the trailers of the live producers, and
  the use of the connection's budget is the reservation of the batch, these bytes, the file
  reads that are permitted, and what others hold, and it does not exceed the limit.
\<close>

theorem send_budget_exact:
  assumes "out_run (M, o1)" and "conns (o_budgets o1) (out_conn o1) = Some st"
  shows "queuedBytes o1 = (\<Sum>a\<in>dom (heap o1). length (concat (chunks (the (heap o1 a)))) + trailerBytes (the (heap o1 a)))
    \<and> used st hSendBytes = wireCapacity o1 + queuedBytes o1 + sum_list (map (lease_amount \<circ> pm_lease) (permits o1))
        + (\<Sum>l\<in>#M. lease_share (out_conn o1) hSendBytes l)
    \<and> used st hSendBytes \<le> limits st hSendBytes"
proof -
  have o: "out_ok M o1" using out_run_ok [OF assms(1)] by simp
  have f: "finite (dom (heap o1))" "\<forall>a p. heap o1 a = Some p \<longrightarrow> producer_ok (out_conn o1) p" using o by (simp_all add: out_ok_def)
  have "conn_ok (o_budgets o1) (own_leases o1 + M) (out_conn o1) st" using o assms(2) by (auto simp: out_ok_def budgets_ok_def)
  note u = conn_okD(1,2) [OF this, of hSendBytes]
  have "(\<Sum>l\<in>#producer_leases (heap o1). lease_share (out_conn o1) hSendBytes l) = queuedBytes o1"
    using heap_share [OF f(1), of "out_conn o1"] f(2) o by (simp add: producer_ok_def out_ok_def)
  moreover have "(\<Sum>l\<in>#mset (map pm_lease (permits o1)). lease_share (out_conn o1) hSendBytes l) = sum_list (map (lease_amount \<circ> pm_lease) (permits o1))"
  proof -
    have "list_all (\<lambda>pm. send_lease (out_conn o1) (pm_lease pm)) (permits o1)" using o by (simp add: out_ok_def base_ok_def)
    then show ?thesis by (rule permits_share)
  qed
  moreover have "lease_share (out_conn o1) hSendBytes (wireLease o1) = wireCapacity o1" using o by (simp add: out_ok_def base_ok_def share_send)
  moreover have "queuedBytes o1 = (\<Sum>a\<in>dom (heap o1). length (concat (chunks (the (heap o1 a)))) + trailerBytes (the (heap o1 a)))"
    using heap_bytes_sum [OF f] o by (simp add: out_ok_def)
  ultimately show ?thesis using u unfolding own_leases_def by simp
qed

theorem send_budget_exact_witness:
  "\<exists>M o1 st. out_run (M, o1) \<and> conns (o_budgets o1) (out_conn o1) = Some st \<and> queuedBytes o1 = 3
    \<and> used st hSendBytes = wireCapacity o1 + queuedBytes o1 + sum_list (map (lease_amount \<circ> pm_lease) (permits o1))
        + (\<Sum>l\<in>#M. lease_share (out_conn o1) hSendBytes l)"
proof -
  obtain st where st: "one_body = sample_out\<lparr>producers := [(1, 0)], pendingEnds := [1], o_budgets := charged 3 sample_out st, queuedBytes := 3, heap := [0 \<mapsto> sample_producer 1 ''abc'']\<rparr>"
    "conns (charged 3 sample_out st) 0 = Some (st\<lparr>used := (used st)(hSendBytes := 65539)\<rparr>)" using one_body_eq by blast
  have q: "queuedBytes one_body = 3" by (simp add: st(1))
  have "conns (o_budgets one_body) (out_conn one_body) = Some (st\<lparr>used := (used st)(hSendBytes := 65539)\<rparr>)"
    unfolding st(1) using st(2) by (simp add: sample_out_fields out_handle_def)
  from send_budget_exact [OF run_bodies(1) this] this run_bodies(1) q show ?thesis by blast
qed

lemma take_bytes: "p_take k (p, o1) = (got, p', o2) \<Longrightarrow> taken p' = taken p @ got \<and> appended p' = appended p \<and> finished p' = finished p"
  by (auto simp: p_take_def p_resize_def Let_def split: if_splits prod.splits bool.splits)

lemma read_bytes:
  assumes "p_read room (p, o1) = (d, p', o2)"
  shows "taken p' = taken p @ dr_bytes d \<and> appended p' = appended p \<and> (dr_eof d \<longrightarrow> eofRead p')"
  using assms unfolding p_read_def Let_def by (auto split: if_splits prod.splits dest: take_bytes)

lemma take_length: "p_take k (p, o1) = (got, p', o2) \<Longrightarrow> length got \<le> k"
  by (auto simp: p_take_def Let_def split: if_splits prod.splits)

text \<open>
  C9. The codec gets the body of a stream as the application queued it. In every state the output can reach, what has
  been read from a producer that exists is a beginning of what was queued; the next call of \<open>read\<close>
  delivers bytes that continue it, at most as many as the buffer takes, and says that the body
  has ended only after \<open>finish\<close> and when every byte has been read.
\<close>

theorem producer_body_exact:
  assumes "out_run (M, o1)" and "heap o1 a = Some p" and "p_read room (p, o1) = (d, p', o2)"
  shows "prefix (taken p) (appended p) \<and> taken p' = taken p @ dr_bytes d \<and> appended p' = appended p \<and> prefix (taken p') (appended p')
    \<and> length (dr_bytes d) \<le> room \<and> (dr_eof d \<longrightarrow> finished p' \<and> taken p' = appended p')"
proof -
  have o: "out_ok M o1" using out_run_ok [OF assms(1)] by simp
  from out_pair [OF this assms(2)] have q: "pair_ok (rest_of M a o1) (heap_bytes ((heap o1)(a := None))) (p, o1)" "producer_ok (out_conn o1) p" by blast+
  have p': "producer_ok (out_conn o1) p'" using read_ok [OF q assms(3)] by blast
  note b = read_bytes [OF assms(3)]
  have "length (dr_bytes d) \<le> room"
    using assms(3) take_length unfolding p_read_def Let_def by (fastforce simp: read_count_def Let_def split: if_splits prod.splits)
  then show ?thesis using b q(2) p' by (auto simp: producer_ok_def)
qed

theorem producer_body_exact_witness:
  "\<exists>M o1 p d p' o2. out_run (M, o1) \<and> heap o1 0 = Some p \<and> p_read 2 (p, o1) = (d, p', o2) \<and> dr_bytes d = ''ab'' \<and> taken p' = ''ab'' \<and> prefix (taken p') (appended p')"
proof -
  obtain st where st: "one_body = sample_out\<lparr>producers := [(1, 0)], pendingEnds := [1], o_budgets := charged 3 sample_out st, queuedBytes := 3, heap := [0 \<mapsto> sample_producer 1 ''abc'']\<rparr>"
    using one_body_eq by blast
  obtain r o1 where n: "nextBatch sample_codec [] (Some (Inr [])) one_body = (r, o1)" by fastforce
  have run: "out_run ({#snd sample_store#}, o1)" by (rule stepped [OF run_bodies(1) batch [OF n]])
  have o: "heap o1 0 = Some (sample_producer 1 ''abc'')" "\<not> o_closed o1" "selectedStream o1 = 1" "readCredit o1" "o_options o1 = default_options" "wireCapacity o1 = 65536"
    using n by (auto simp: nextBatch_def prepareFinalHeaders_def selectProducer_def notifyReaders_def st sample_out_fields sample_producer_def
        entry_ready_def o_ready_def sample_codec_def mayOpenStream_def memSend_def set_producer_def Let_def)
  obtain d p' o2 where r: "p_read 2 (sample_producer 1 ''abc'', o1) = (d, p', o2)" by (metis prod_cases3)
  have "dr_bytes d = ''ab''"
    using r o by (auto simp: p_read_def sample_producer_def p_take_def read_count_def default_options_def kFrameHeaderBytes_def Let_def)
  moreover have "taken (sample_producer 1 ''abc'') = []" "appended (sample_producer 1 ''abc'') = ''abc''" by (simp_all add: sample_producer_def)
  ultimately have "taken p' = ''ab''" "prefix (taken p') (appended p')" using producer_body_exact [OF run o(1) r] by auto
  with run o(1) r \<open>dr_bytes d = ''ab''\<close> show ?thesis by blast
qed

end
