(* ===== verification/H2_Output_Wire.thy ===== *)
theory H2_Output_Wire
  imports H2_Output_Inv
begin

unbundle bit_operations_syntax

text \<open>
  What the writer's acknowledgements report, as a function of the bytes that were written, and the
  order in which producers are served.
\<close>

section \<open>The frame tracker as a machine over bytes\<close>

record Track =
  t_preface :: nat
  t_header :: "byte list"
  t_used :: nat
  t_payload :: nat
  t_cont :: int

definition track :: "Output \<Rightarrow> Track" where
  "track o1 = \<lparr>t_preface = prefaceRemaining o1, t_header = frameHeader o1, t_used = headerUsed o1, t_payload = payloadRemaining o1,
     t_cont = continuedEndStream o1\<rparr>"

definition with_track :: "Track \<Rightarrow> Output \<Rightarrow> Output" where
  "with_track t o1 = o1\<lparr>prefaceRemaining := t_preface t, frameHeader := t_header t, headerUsed := t_used t, payloadRemaining := t_payload t,
     continuedEndStream := t_cont t\<rparr>"

lemma track_simps [simp]: "with_track (track o1) o1 = o1" "track (with_track t o1) = t" "pendingEnds (with_track t o1) = pendingEnds o1"
    "with_track t (with_track t' o1) = with_track t o1" "o_closed (with_track t o1) = o_closed o1" "batch (with_track t o1) = batch o1"
    "offset (with_track t o1) = offset o1"
  by (simp_all add: track_def with_track_def)







definition track_ok :: "Track \<Rightarrow> bool" where
  "track_ok t \<longleftrightarrow> t_used t \<le> 9 \<and> length (t_header t) = 9 \<and> (t_used t = 9 \<longrightarrow> t_payload t > 0)"











lemma track_fields [simp]: "t_preface (track o1) = prefaceRemaining o1" "t_used (track o1) = headerUsed o1" "t_payload (track o1) = payloadRemaining o1"
    "t_header (track o1) = frameHeader o1" "t_cont (track o1) = continuedEndStream o1"
  by (simp_all add: track_def)








section \<open>Frames and messages on the wire\<close>














lemma types_distinct [simp]: "hHeaders \<noteq> hData" "hContinuation \<noteq> hData" "hContinuation \<noteq> hHeaders" "hData \<noteq> hHeaders" "hData \<noteq> hContinuation" "hHeaders \<noteq> hContinuation"
  by (simp_all add: hHeaders_def hData_def hContinuation_def)










section \<open>Acknowledgements\<close>




text \<open>Outputs with the state \<open>t\<close> of the tracker and the pending ends \<open>P\<close>.\<close>

definition acking :: "Track \<Rightarrow> int list \<Rightarrow> Output \<Rightarrow> bool" where
  "acking t P o1 \<longleftrightarrow> \<not> o_closed o1 \<and> track o1 = t \<and> track_ok t \<and> pendingEnds o1 = P"

lemma acking_batch [simp]: "acking t P (o1\<lparr>batch := x\<rparr>) = acking t P o1" "acking t P (o1\<lparr>offset := y\<rparr>) = acking t P o1"
  by (simp_all add: acking_def track_def)

lemma acking_notify [simp]: "acking t P (notifyReaders o1) = acking t P o1"
  by (simp add: notifyReaders_def acking_def track_def)





section \<open>The order of producers\<close>


definition ids :: "(nat \<Rightarrow> bool) \<Rightarrow> (int \<times> nat) list \<Rightarrow> int set" where
  "ids rdy es = fst ` set (filter (\<lambda>(_, a). rdy a) es)"

lemma ids_simps [simp]: "ids rdy [] = {}" "ids rdy ((sid, a) # es) = (if rdy a then insert sid (ids rdy es) else ids rdy es)" "finite (ids rdy es)"
  by (simp_all add: ids_def)
















section \<open>The table of producers\<close>

definition keeps_ids :: "Producer \<times> Output \<Rightarrow> Producer \<times> Output \<Rightarrow> bool" where
  "keeps_ids q q' \<longleftrightarrow> p_streamId (fst q') = p_streamId (fst q) \<and> heap (snd q') = heap (snd q) \<and> set (producers (snd q')) \<subseteq> set (producers (snd q))"

lemma keeps_refl [simp]: "keeps_ids q q"
  by (simp add: keeps_ids_def)



lemma ids_wake [simp]: "heap (wake o1) = heap o1" "producers (wake o1) = producers o1" "heap (notifyReaders o1) = heap o1" "producers (notifyReaders o1) = producers o1"
  by (simp_all add: wake_def notifyReaders_def)













definition table_le :: "Output \<Rightarrow> Output \<Rightarrow> bool" where
  "table_le o1 o2 \<longleftrightarrow> set (producers o2) \<subseteq> set (producers o1) \<and> (\<forall>a p'. heap o2 a = Some p' \<longrightarrow> (\<exists>p. heap o1 a = Some p \<and> p_streamId p = p_streamId p'))"




lemma table_le_upd [simp]: "table_le o0 (o1\<lparr>pendingEnds := u\<rparr>) = table_le o0 o1" "table_le o0 (o1\<lparr>offset := v\<rparr>) = table_le o0 o1"
    "table_le o0 (o1\<lparr>batch := w\<rparr>) = table_le o0 o1" "table_le o0 (notifyReaders o1) = table_le o0 o1" "table_le o0 (wake o1) = table_le o0 o1"
  by (simp_all add: table_le_def)





























section \<open>Sample batches\<close>






section \<open>Properties\<close>





end
