(* ===== verification/Perfect_Hash.thy ===== *)
theory Perfect_Hash
  imports Http_Request
begin

text \<open>
  The perfect hash of the static routes: \<^verbatim>\<open>src/src/core/PerfectHashRouter.h\<close>. A multiply-shift hash
  with a seed searched by brute force, for a key set known at compile time (\<open>PerfectHashRouter\<close>) or at
  run time (\<open>RuntimePerfectHashLookup\<close>). All hashing is on 64-bit words.
\<close>

section \<open>Bit tricks and hashing\<close>

text \<open>The last step of \<open>nextPow2\<close> is taken because \<open>size_t\<close> has eight bytes.\<close>

definition nextPow2 :: "u64 \<Rightarrow> u64" where
  "nextPow2 x =
     (if x = 0 then 1
      else let x = x - 1;
               x = x OR drop_bit 1 x;
               x = x OR drop_bit 2 x;
               x = x OR drop_bit 4 x;
               x = x OR drop_bit 8 x;
               x = x OR drop_bit 16 x;
               x = x OR drop_bit 32 x
           in x + 1)"

function log2Floor_from :: "nat \<Rightarrow> u64 \<Rightarrow> nat" where
  "log2Floor_from r x = (if drop_bit 1 x = 0 then r else log2Floor_from (r + 1) (drop_bit 1 x))"
  by pat_completeness auto
termination
proof (relation "measure (unat \<circ> snd)")
  fix r :: nat and x :: u64
  assume "drop_bit 1 x \<noteq> 0"
  then have "unat (drop_bit 1 x) \<noteq> 0" by (simp add: unat_eq_zero)
  moreover have "unat (drop_bit 1 x) = unat x div 2" unfolding unat_drop_bit_eq by (simp add: drop_bit_eq_div)
  ultimately show "((r + 1, drop_bit 1 x), (r, x)) \<in> measure (unat \<circ> snd)" by simp
qed simp

declare log2Floor_from.simps [simp del]

definition log2Floor :: "u64 \<Rightarrow> nat" where
  "log2Floor x = log2Floor_from 0 x"

definition hash_step :: "u64 \<Rightarrow> nat \<Rightarrow> u64" where
  "hash_step h c = (push_bit 5 h + h) + word_of_nat c"

definition hashPathMethod :: "string \<Rightarrow> HttpMethod \<Rightarrow> u64" where
  "hashPathMethod path m =
     (let h = foldl (\<lambda>h c. hash_step h (ord c)) 5381 path;
          h = hash_step h (method_index m);
          h = h XOR drop_bit 33 h;
          h = h * 0xFF51AFD7ED558CCD
      in h XOR drop_bit 33 h)"

section \<open>The table\<close>

type_synonym RouteKey = "HttpMethod \<times> string"

record PhEntry =
  ph_method :: HttpMethod
  ph_path :: string
  ph_index :: nat

definition table_size :: "nat \<Rightarrow> nat" where
  "table_size n = unat (nextPow2 (word_of_nat (if n > 1 then n + n div 2 else 2)))"

definition table_shift :: "nat \<Rightarrow> nat" where
  "table_shift n = 64 - log2Floor (word_of_nat (table_size n))"

text \<open>\<open>static_cast<size_t>((h * seed) >> shift)\<close>.\<close>

definition slot_of :: "u64 \<Rightarrow> nat \<Rightarrow> u64 \<Rightarrow> nat" where
  "slot_of seed shift h = unat (drop_bit shift (h * seed))"

text \<open>The inner loop: \<open>occupied\<close> maps a slot to the index of its key, \<open>-1\<close> for free; \<open>True\<close> is a conflict.\<close>

fun place_all :: "u64 \<Rightarrow> nat \<Rightarrow> nat \<Rightarrow> u64 list \<Rightarrow> int list \<Rightarrow> bool" where
  "place_all cand shift i [] occupied = False"
| "place_all cand shift i (h # hs) occupied =
     (let slot = slot_of cand shift h in
      if occupied ! slot \<ge> 0 then True else place_all cand shift (Suc i) hs (occupied[slot := int i]))"

text \<open>The search of an odd seed below 100000.\<close>

function search_seed :: "nat \<Rightarrow> nat \<Rightarrow> u64 list \<Rightarrow> nat \<Rightarrow> u64 option" where
  "search_seed sz shift hs cand =
     (if cand < 100000
      then if \<not> place_all (word_of_nat cand) shift 0 hs (replicate sz (- 1))
           then Some (word_of_nat cand) else search_seed sz shift hs (cand + 2)
      else None)"
  by pat_completeness auto
termination by (relation "measure (\<lambda>(_, _, _, c). 100000 - c)") auto

declare search_seed.simps [simp del]

definition write_entries :: "u64 \<Rightarrow> nat \<Rightarrow> PhEntry list \<Rightarrow> PhEntry option list \<Rightarrow> PhEntry option list" where
  "write_entries seed shift keys t =
     foldl (\<lambda>t k. t[slot_of seed shift (hashPathMethod (ph_path k) (ph_method k)) := Some k]) t keys"

text \<open>\<open>RuntimePerfectHashLookup\<close>; an entry whose \<open>string_view\<close> is null is \<open>None\<close>.\<close>

record PhLookup =
  ph_keys :: "PhEntry list"
  ph_seed :: u64
  ph_shift :: nat
  ph_entries :: "PhEntry option list"

definition ph_empty :: PhLookup where
  "ph_empty = \<lparr>ph_keys = [], ph_seed = 0, ph_shift = 0, ph_entries = []\<rparr>"

definition ph_make :: "PhEntry list \<Rightarrow> u64 \<Rightarrow> nat \<Rightarrow> PhLookup" where
  "ph_make keys seed shift =
     \<lparr>ph_keys = keys, ph_seed = seed, ph_shift = shift,
      ph_entries = write_entries seed shift keys (replicate (2 ^ (64 - shift)) None)\<rparr>"

definition entries_of :: "RouteKey list \<Rightarrow> PhEntry list" where
  "entries_of keys = map (\<lambda>i. \<lparr>ph_method = fst (keys ! i), ph_path = snd (keys ! i), ph_index = i\<rparr>) [0..<length keys]"

definition buildFromKeys :: "RouteKey list \<Rightarrow> PhLookup" where
  "buildFromKeys keys =
     (if keys = [] \<or> length keys > 256 then ph_empty
      else let n = length keys; shift = table_shift n;
               hashes = map (\<lambda>k. hashPathMethod (snd k) (fst k)) keys
           in case search_seed (table_size n) shift hashes 1 of
                Some seed \<Rightarrow> ph_make (entries_of keys) seed shift
              | None \<Rightarrow> ph_empty)"

text \<open>\<open>SIZE_MAX\<close> is \<open>None\<close>.\<close>

definition ph_lookup :: "PhLookup \<Rightarrow> HttpMethod \<Rightarrow> string \<Rightarrow> nat option" where
  "ph_lookup t m p =
     (if ph_seed t = 0 then None
      else let slot = slot_of (ph_seed t) (ph_shift t) (hashPathMethod p m) in
           case ph_entries t ! slot of
             None \<Rightarrow> None
           | Some e \<Rightarrow> if ph_method e = m \<and> ph_path e = p then Some (ph_index e) else None)"

definition ph_valid :: "PhLookup \<Rightarrow> bool" where
  "ph_valid t \<longleftrightarrow> ph_seed t \<noteq> 0"

definition keyCount :: "PhLookup \<Rightarrow> nat" where
  "keyCount t = length (ph_keys t)"

text \<open>
  \<open>PerfectHashRouter<N>\<close>: the keys carry their own index, and an unsuccessful search throws (\<open>None\<close>).
\<close>

record PhRouter =
  phr_keys :: "PhEntry list"
  phr_seed :: u64
  phr_entries :: "PhEntry option list"

definition phr_make :: "PhEntry list \<Rightarrow> PhRouter option" where
  "phr_make keys =
     (let n = length keys; shift = table_shift n;
          hashes = map (\<lambda>k. hashPathMethod (ph_path k) (ph_method k)) keys
      in case search_seed (table_size n) shift hashes 1 of
           Some seed \<Rightarrow> Some \<lparr>phr_keys = keys, phr_seed = seed,
             phr_entries = write_entries seed shift keys (replicate (table_size n) None)\<rparr>
         | None \<Rightarrow> None)"

definition phr_lookup :: "PhRouter \<Rightarrow> HttpMethod \<Rightarrow> string \<Rightarrow> PhEntry option" where
  "phr_lookup t m p =
     (let slot = slot_of (phr_seed t) (table_shift (length (phr_keys t))) (hashPathMethod p m) in
      case phr_entries t ! slot of
        None \<Rightarrow> None
      | Some e \<Rightarrow> if ph_method e = m \<and> ph_path e = p then Some e else None)"

section \<open>The size of the table\<close>

lemma bit_smear:
  assumes "\<And>n. bit (a :: u64) n \<longleftrightarrow> (\<exists>j < s. bit y (n + j))"
  shows "bit (a OR drop_bit s a) n \<longleftrightarrow> (\<exists>j < s + s. bit y (n + j))"
proof -
  have "bit (a OR drop_bit s a) n \<longleftrightarrow> (\<exists>j < s. bit y (n + j)) \<or> (\<exists>j < s. bit y (s + n + j))"
    by (simp add: bit_or_iff bit_drop_bit_eq assms ac_simps)
  also have "\<dots> \<longleftrightarrow> (\<exists>j < s + s. bit y (n + j))"
  proof
    assume "(\<exists>j < s. bit y (n + j)) \<or> (\<exists>j < s. bit y (s + n + j))"
    then show "\<exists>j < s + s. bit y (n + j)"
    proof
      assume "\<exists>j < s. bit y (s + n + j)"
      then obtain j where "j < s" "bit y (s + n + j)" by blast
      then show ?thesis by (intro exI [of _ "s + j"]) (simp add: ac_simps)
    qed (meson trans_less_add1)
  next
    assume "\<exists>j < s + s. bit y (n + j)"
    then obtain j where j: "j < s + s" "bit y (n + j)" by blast
    show "(\<exists>j < s. bit y (n + j)) \<or> (\<exists>j < s. bit y (s + n + j))"
    proof (cases "j < s")
      case False
      then have "j - s < s \<and> bit y (s + n + (j - s))" using j by (simp add: ac_simps)
      then show ?thesis by blast
    qed (use j in blast)
  qed
  finally show ?thesis .
qed

lemma unat_power_u64: "k < 64 \<Longrightarrow> unat (2 ^ k :: u64) = 2 ^ k"
proof -
  assume "k < 64"
  then have "(2 :: nat) ^ k < 2 ^ 64" by (intro power_strict_increasing) simp_all
  moreover have "(2 ^ k :: u64) = word_of_nat (2 ^ k)" by simp
  ultimately show ?thesis by (simp only: unat_of_nat len_of_numeral_defs) simp
qed

lemma nextPow2_exact:
  assumes "2 ^ k < unat x" and "unat x \<le> 2 ^ Suc k" and "Suc k < 64"
  shows "unat (nextPow2 x) = 2 ^ Suc k"
proof -
  let ?y = "x - 1"
  have x0: "x \<noteq> 0" using assms(1) by (intro notI) simp
  have uy: "unat ?y = unat x - 1" using x0 by (simp add: unat_minus_one)
  have lo: "2 ^ k \<le> unat ?y" and hi: "unat ?y < 2 ^ Suc k" using assms(1,2) uy by linarith+
  define z where "z = (let x = x - 1; x = x OR drop_bit 1 x; x = x OR drop_bit 2 x; x = x OR drop_bit 4 x;
      x = x OR drop_bit 8 x; x = x OR drop_bit 16 x; x = x OR drop_bit 32 x in x)"
  have b0: "bit ?y n \<longleftrightarrow> (\<exists>j < 1. bit ?y (n + j))" for n by simp
  note b1 = bit_smear [OF b0, simplified one_add_one]
  note b2 = bit_smear [OF b1, unfolded numeral_Bit0 [symmetric]]
  note b3 = bit_smear [OF b2, unfolded numeral_Bit0 [symmetric]]
  note b4 = bit_smear [OF b3, unfolded numeral_Bit0 [symmetric]]
  note b5 = bit_smear [OF b4, unfolded numeral_Bit0 [symmetric]]
  note b6 = bit_smear [OF b5, unfolded numeral_Bit0 [symmetric]]
  have bz: "bit z n \<longleftrightarrow> (\<exists>j < 64. bit ?y (n + j))" for n
    unfolding z_def Let_def using b6 [of n] by simp
  have bity: "bit ?y m \<longleftrightarrow> odd (unat ?y div 2 ^ m)" for m
  proof -
    have "bit ?y m \<longleftrightarrow> bit (unat ?y) m" by (simp add: bit_simps)
    then show ?thesis by (simp add: bit_iff_odd)
  qed
  have top: "bit ?y k"
  proof -
    have "unat ?y div 2 ^ k = 1" using lo hi by (intro div_nat_eqI) auto
    then show ?thesis by (simp add: bity)
  qed
  have above: "\<not> bit ?y m" if "Suc k \<le> m" for m
  proof -
    have "unat ?y < 2 ^ m" using hi power_increasing [OF that, of "2 :: nat"] by linarith
    then show ?thesis by (simp add: bity)
  qed
  have "bit z n \<longleftrightarrow> n < Suc k" for n
  proof
    assume "bit z n"
    then obtain j where "bit ?y (n + j)" using bz by blast
    then show "n < Suc k" using above [of "n + j"] by linarith
  next
    assume "n < Suc k"
    then have "k - n < 64 \<and> bit ?y (n + (k - n))" using top assms(3) by simp
    then show "bit z n" using bz by blast
  qed
  then have "z = mask (Suc k)" using assms(3) by (intro bit_word_eqI) (simp add: bit_mask_iff)
  moreover have "nextPow2 x = z + 1" using x0 by (simp add: nextPow2_def z_def Let_def)
  ultimately have "nextPow2 x = 2 ^ Suc k" by (simp add: mask_eq_exp_minus_1)
  then show ?thesis using assms(3) by (simp add: unat_power_u64 del: power_Suc)
qed

lemma log2Floor_from_power: "k < 64 \<Longrightarrow> log2Floor_from r (2 ^ k) = r + k"
proof (induction k arbitrary: r)
  case 0
  show ?case by (subst log2Floor_from.simps) simp
next
  case (Suc k)
  have "drop_bit 1 (2 ^ Suc k :: u64) = 2 ^ k"
    using Suc.prems by (intro bit_word_eqI) (auto simp: bit_simps)
  moreover have "(2 ^ k :: u64) \<noteq> 0" using Suc.prems by simp
  ultimately show ?case using Suc by (subst log2Floor_from.simps) simp
qed

lemma table_geometry:
  assumes "1 \<le> n" and "n \<le> 256"
  obtains k where "1 \<le> k" and "k \<le> 9" and "table_size n = 2 ^ k" and "table_shift n = 64 - k"
proof -
  define m where "m = (if n > 1 then n + n div 2 else 2)"
  have m: "2 \<le> m" "m \<le> 384" using assms by (auto simp: m_def)
  obtain k where k: "2 ^ k < m" "m \<le> 2 ^ Suc k" using ex_power_ivl2 [of 2 m] m(1) by auto
  have "(2 :: nat) ^ k < 2 ^ 9" using k(1) m(2) by simp
  then have k8: "k < 9" by (rule power_less_imp_less_exp [rotated]) simp
  have um: "unat (word_of_nat m :: u64) = m" using m(2) by (simp add: unat_of_nat)
  have "unat (nextPow2 (word_of_nat m)) = 2 ^ Suc k"
    using k k8 by (intro nextPow2_exact) (simp_all add: um del: power_Suc)
  then have size: "table_size n = 2 ^ Suc k" by (simp add: table_size_def m_def)
  have "log2Floor (word_of_nat (table_size n)) = Suc k"
    using log2Floor_from_power [of "Suc k" 0] k8 by (simp add: log2Floor_def size del: power_Suc)
  then have "table_shift n = 64 - Suc k" by (simp add: table_shift_def)
  with size k8 show ?thesis by (intro that [of "Suc k"]) auto
qed

lemma slot_bound: "shift \<le> 64 \<Longrightarrow> slot_of seed shift h < 2 ^ (64 - shift)"
proof -
  assume s: "shift \<le> 64"
  have "unat (h * seed) < 2 ^ 64" using unsigned_less [of "h * seed"] by simp
  also have "(2 :: nat) ^ 64 = 2 ^ (64 - shift) * 2 ^ shift" using s by (simp add: power_add [symmetric])
  finally show ?thesis
    unfolding slot_of_def unat_drop_bit_eq drop_bit_eq_div [of _ "unat _"] by (rule less_mult_imp_div_less)
qed

section \<open>The search and the table it leads to\<close>

lemma place_all_distinct:
  assumes "\<not> place_all cand shift i hs occ" and "\<forall>h \<in> set hs. slot_of cand shift h < length occ"
  shows "distinct (map (slot_of cand shift) hs) \<and> (\<forall>h \<in> set hs. occ ! slot_of cand shift h < 0)"
  using assms
proof (induction cand shift i hs occ rule: place_all.induct)
  case (2 cand shift i h hs occ)
  let ?s = "slot_of cand shift"
  have free: "occ ! ?s h < 0" and rest: "\<not> place_all cand shift (Suc i) hs (occ[?s h := int i])"
    using 2(2) by (auto simp: Let_def split: if_splits)
  from 2(1) [OF refl _ rest] free 2(3)
  have ih: "distinct (map ?s hs)" "\<forall>h' \<in> set hs. occ[?s h := int i] ! ?s h' < 0" by auto
  have ne: "?s h' \<noteq> ?s h" if "h' \<in> set hs" for h' using ih(2) that 2(3) by force
  then have "occ ! ?s h' < 0" if "h' \<in> set hs" for h' using ih(2) that by (metis nth_list_update_neq)
  with ne show ?case using ih(1) free by (auto simp: image_iff) (metis ne)
qed simp

lemma search_seed_Some:
  assumes "search_seed sz shift hs c = Some seed" and "odd c"
  shows "seed \<noteq> 0 \<and> \<not> place_all seed shift 0 hs (replicate sz (- 1))"
  using assms
proof (induction sz shift hs c rule: search_seed.induct)
  case (1 sz shift hs c)
  show ?case
  proof (cases "c < 100000 \<and> \<not> place_all (word_of_nat c) shift 0 hs (replicate sz (- 1))")
    case True
    then have "seed = word_of_nat c" using 1(2) by (subst (asm) search_seed.simps) simp
    moreover have "unat (word_of_nat c :: u64) = c" using True by (simp add: unat_of_nat)
    moreover have "c \<noteq> 0" using 1(3) by (intro notI) simp
    ultimately show ?thesis using True by auto
  next
    case False
    have "c < 100000" using 1(2) by (subst (asm) search_seed.simps) (simp split: if_splits)
    with False have "search_seed sz shift hs (c + 2) = Some seed" using 1(2) by (subst (asm) search_seed.simps) simp
    with 1(1,3) False \<open>c < 100000\<close> show ?thesis by auto
  qed
qed

lemma nth_foldl_write:
  assumes "distinct (map f ks)" and "\<forall>k \<in> set ks. f k < length t" and "j < length t"
  shows "foldl (\<lambda>t k. t[f k := Some k]) t ks ! j = (case find (\<lambda>k. f k = j) ks of Some k \<Rightarrow> Some k | None \<Rightarrow> t ! j)"
  using assms
proof (induction ks arbitrary: t)
  case (Cons k ks)
  have "find (\<lambda>k. f k = j) ks = None" if "f k = j" using that Cons.prems(1)
    by (auto simp: find_None_iff image_iff)
  with Cons show ?case by (auto split: option.split)
qed simp

text \<open>What both tables have in common: a table written without a conflict answers exactly for its keys.\<close>

definition entry_slot :: "u64 \<Rightarrow> nat \<Rightarrow> PhEntry \<Rightarrow> nat" where
  "entry_slot seed shift k = slot_of seed shift (hashPathMethod (ph_path k) (ph_method k))"

lemma table_answers:
  fixes ks :: "PhEntry list"
  assumes "distinct (map (entry_slot seed shift) ks)" and "shift \<le> 64" and "sz = 2 ^ (64 - shift)"
    and "t = write_entries seed shift ks (replicate sz None)"
  shows "length t = sz"
    and "(case t ! slot_of seed shift (hashPathMethod p m) of
            None \<Rightarrow> None | Some e \<Rightarrow> if ph_method e = m \<and> ph_path e = p then Some (e :: PhEntry) else None)
         = find (\<lambda>e. ph_method e = m \<and> ph_path e = p) ks"
proof -
  have w: "t = foldl (\<lambda>t k. t[entry_slot seed shift k := Some k]) (replicate sz None) ks"
    by (simp add: assms(4) write_entries_def entry_slot_def)
  have "length (foldl (\<lambda>t k. t[f k := Some k]) u ks) = length u" for f :: "PhEntry \<Rightarrow> nat" and u
    by (induction ks arbitrary: u) simp_all
  then show "length t = sz" unfolding w by simp
  let ?j = "slot_of seed shift (hashPathMethod p m)"
  have bound: "slot_of seed shift h < sz" for h unfolding assms(3) by (rule slot_bound [OF assms(2)])
  have at: "t ! ?j = find (\<lambda>k. entry_slot seed shift k = ?j) ks"
    unfolding w using bound
    by (subst nth_foldl_write [OF assms(1)]) (auto simp: entry_slot_def split: option.split)
  show "(case t ! ?j of None \<Rightarrow> None | Some e \<Rightarrow> if ph_method e = m \<and> ph_path e = p then Some (e :: PhEntry) else None)
      = find (\<lambda>e. ph_method e = m \<and> ph_path e = p) ks"
    unfolding at using assms(1)
  proof (induction ks)
    case (Cons k ks)
    have hit: "ph_method k = m \<and> ph_path k = p \<Longrightarrow> entry_slot seed shift k = ?j" by (auto simp: entry_slot_def)
    have "find (\<lambda>e. ph_method e = m \<and> ph_path e = p) ks = None" if "entry_slot seed shift k = ?j"
      using that Cons.prems by (force simp: find_None_iff entry_slot_def)
    with Cons hit show ?case by (auto split: option.split)
  qed simp
qed

lemma length_entries_of [simp]: "length (entries_of keys) = length keys"
  by (simp add: entries_of_def)

lemma nth_entries_of:
  "i < length keys \<Longrightarrow> entries_of keys ! i = \<lparr>ph_method = fst (keys ! i), ph_path = snd (keys ! i), ph_index = i\<rparr>"
  by (simp add: entries_of_def)

lemma slots_of_entries:
  "map (entry_slot seed shift) (entries_of keys) = map (slot_of seed shift) (map (\<lambda>k. hashPathMethod (snd k) (fst k)) keys)"
  by (rule nth_equalityI) (simp_all add: nth_entries_of entry_slot_def)

lemma distinct_slots_keys: "distinct (map (entry_slot seed shift) (entries_of keys)) \<Longrightarrow> distinct keys"
  unfolding slots_of_entries by (auto simp: distinct_map)

lemma build_cases:
  obtains (invalid) "buildFromKeys keys = ph_empty"
  | (valid) seed shift where "keys \<noteq> []" and "length keys \<le> 256" and "seed \<noteq> 0" and "shift \<le> 64"
      and "buildFromKeys keys = ph_make (entries_of keys) seed shift"
      and "distinct (map (entry_slot seed shift) (entries_of keys))"
proof (cases "keys = [] \<or> length keys > 256")
  case True
  then show ?thesis by (intro invalid) (simp add: buildFromKeys_def)
next
  case False
  let ?n = "length keys"
  let ?hs = "map (\<lambda>k. hashPathMethod (snd k) (fst k)) keys"
  from False have n: "1 \<le> ?n" "?n \<le> 256" by (cases keys, auto)
  obtain k where k: "1 \<le> k" "k \<le> 9" "table_size ?n = 2 ^ k" "table_shift ?n = 64 - k" by (rule table_geometry [OF n])
  show ?thesis
  proof (cases "search_seed (table_size ?n) (table_shift ?n) ?hs 1")
    case None
    then show ?thesis using False by (intro invalid) (simp add: buildFromKeys_def Let_def)
  next
    case (Some seed)
    note sd = search_seed_Some [OF Some]
    have "slot_of seed (table_shift ?n) h < table_size ?n" for h
      using slot_bound [of "table_shift ?n" seed h] k by simp
    with sd have "distinct (map (slot_of seed (table_shift ?n)) ?hs)"
      using place_all_distinct [of seed "table_shift ?n" 0 ?hs "replicate (table_size ?n) (- 1)"] by auto
    then show ?thesis
      using False Some sd k by (intro valid [of seed "table_shift ?n"]) (simp_all add: buildFromKeys_def Let_def slots_of_entries)
  qed
qed

lemma find_entries:
  assumes "distinct keys"
  shows "map_option ph_index (find (\<lambda>e. ph_method e = m \<and> ph_path e = p) (entries_of keys)) = Some i
    \<longleftrightarrow> i < length keys \<and> keys ! i = (m, p)"
proof
  assume "map_option ph_index (find (\<lambda>e. ph_method e = m \<and> ph_path e = p) (entries_of keys)) = Some i"
  then obtain e where e: "find (\<lambda>e. ph_method e = m \<and> ph_path e = p) (entries_of keys) = Some e" "ph_index e = i" by auto
  then obtain j where "j < length keys" "ph_method (entries_of keys ! j) = m \<and> ph_path (entries_of keys ! j) = p"
    "e = entries_of keys ! j" by (auto simp: find_Some_iff)
  with e(2) show "i < length keys \<and> keys ! i = (m, p)" by (auto simp: nth_entries_of)
next
  assume i: "i < length keys \<and> keys ! i = (m, p)"
  then have "entries_of keys ! i \<in> set (entries_of keys)" by simp
  moreover have "ph_method (entries_of keys ! i) = m \<and> ph_path (entries_of keys ! i) = p" using i by (simp add: nth_entries_of)
  ultimately obtain e where e: "find (\<lambda>e. ph_method e = m \<and> ph_path e = p) (entries_of keys) = Some e"
    by (cases "find (\<lambda>e. ph_method e = m \<and> ph_path e = p) (entries_of keys)") (auto simp: find_None_iff)
  then obtain j where j: "j < length keys" "ph_method (entries_of keys ! j) = m \<and> ph_path (entries_of keys ! j) = p"
    "e = entries_of keys ! j" by (auto simp: find_Some_iff)
  then have "keys ! j = (m, p)" by (simp add: nth_entries_of prod_eq_iff)
  with i j(1) have "j = i" using nth_eq_iff_index_eq [OF assms] by metis
  with e j show "map_option ph_index (find (\<lambda>e. ph_method e = m \<and> ph_path e = p) (entries_of keys)) = Some i"
    by (simp add: nth_entries_of)
qed

lemma ph_lookup_valid:
  assumes "ph_valid (buildFromKeys keys)"
  shows "distinct keys" and "ph_keys (buildFromKeys keys) = entries_of keys"
    and "slot_of (ph_seed (buildFromKeys keys)) (ph_shift (buildFromKeys keys)) h < length (ph_entries (buildFromKeys keys))"
    and "ph_lookup (buildFromKeys keys) m p = Some i \<longleftrightarrow> i < length keys \<and> keys ! i = (m, p)"
proof -
  from assms obtain seed shift where b: "seed \<noteq> 0" "shift \<le> 64" "buildFromKeys keys = ph_make (entries_of keys) seed shift"
    "distinct (map (entry_slot seed shift) (entries_of keys))"
    by (cases keys rule: build_cases) (auto simp: ph_valid_def ph_empty_def)
  show d: "distinct keys" by (rule distinct_slots_keys [OF b(4)])
  show "ph_keys (buildFromKeys keys) = entries_of keys" by (simp add: b(3) ph_make_def)
  let ?t = "write_entries seed shift (entries_of keys) (replicate (2 ^ (64 - shift)) None)"
  note ans = table_answers [OF b(4,2) refl refl]
  show "slot_of (ph_seed (buildFromKeys keys)) (ph_shift (buildFromKeys keys)) h < length (ph_entries (buildFromKeys keys))"
    using ans(1) slot_bound [OF b(2)] by (simp add: b(3) ph_make_def)
  have "ph_lookup (buildFromKeys keys) m p = map_option ph_index (case ?t ! slot_of seed shift (hashPathMethod p m) of
      None \<Rightarrow> None | Some e \<Rightarrow> if ph_method e = m \<and> ph_path e = p then Some e else None)"
    using b(1) by (simp add: ph_lookup_def b(3) ph_make_def Let_def split: option.split)
  then show "ph_lookup (buildFromKeys keys) m p = Some i \<longleftrightarrow> i < length keys \<and> keys ! i = (m, p)"
    unfolding ans(2) by (simp only: find_entries [OF d])
qed

lemma ph_lookup_invalid: "\<not> ph_valid t \<Longrightarrow> ph_lookup t m p = None"
  by (simp add: ph_valid_def ph_lookup_def)

text \<open>A single key never conflicts, so the first seed is taken.\<close>

lemma single_key_valid: "ph_valid (buildFromKeys [k])"
proof -
  obtain b where b: "1 \<le> b" "b \<le> 9" "table_size 1 = 2 ^ b" "table_shift 1 = 64 - b" by (rule table_geometry [of 1]) auto
  have "slot_of 1 (table_shift 1) h < table_size 1" for h using slot_bound [of "table_shift 1" 1 h] b by simp
  then have "search_seed (table_size 1) (table_shift 1) [h] 1 = Some 1" for h
    by (subst search_seed.simps) (simp add: Let_def)
  then show ?thesis by (simp add: buildFromKeys_def ph_valid_def ph_make_def Let_def)
qed

section \<open>Properties\<close>

text \<open>
  The perfect hash is exact: a table that was built finds for every method and path the index of
  that key in the list it was built from, and nothing for any other; every slot it reads, for
  whatever request, is inside the table; and a table is only built from distinct keys.
\<close>

theorem perfect_hash_exact:
  assumes "ph_valid (buildFromKeys keys)"
  shows "(ph_lookup (buildFromKeys keys) m p = Some i \<longleftrightarrow> i < length keys \<and> keys ! i = (m, p)) \<and> distinct keys
    \<and> slot_of (ph_seed (buildFromKeys keys)) (ph_shift (buildFromKeys keys)) (hashPathMethod p m)
        < length (ph_entries (buildFromKeys keys))"
  using ph_lookup_valid [OF assms] by blast

theorem perfect_hash_exact_witness:
  "ph_lookup (buildFromKeys [(hGet, ''/'')]) hGet ''/'' = Some 0 \<and> ph_lookup (buildFromKeys [(hGet, ''/'')]) hGet ''/x'' = None"
proof -
  let ?t = "buildFromKeys [(hGet, ''/'')]"
  have v: "ph_valid ?t" by (rule single_key_valid)
  have "ph_lookup ?t hGet ''/'' = Some 0" using perfect_hash_exact [OF v, of hGet "''/''" 0] by simp
  moreover have "ph_lookup ?t hGet ''/x'' \<noteq> Some i" for i
    using perfect_hash_exact [OF v, of hGet "''/x''" i] by (cases i) simp_all
  ultimately show ?thesis by auto
qed

text \<open>The compile-time table, which throws instead of being invalid, answers exactly for its keys too.\<close>

lemma phr_lookup_exact:
  assumes "phr_make keys = Some t" and "1 \<le> length keys" and "length keys \<le> 256"
  shows "phr_lookup t m p = find (\<lambda>e. ph_method e = m \<and> ph_path e = p) keys"
proof -
  let ?n = "length keys"
  let ?hs = "map (\<lambda>k. hashPathMethod (ph_path k) (ph_method k)) keys"
  obtain k where k: "1 \<le> k" "k \<le> 9" "table_size ?n = 2 ^ k" "table_shift ?n = 64 - k" by (rule table_geometry [OF assms(2,3)])
  obtain seed where seed: "search_seed (table_size ?n) (table_shift ?n) ?hs 1 = Some seed"
    and t: "t = \<lparr>phr_keys = keys, phr_seed = seed, phr_entries = write_entries seed (table_shift ?n) keys (replicate (table_size ?n) None)\<rparr>"
    using assms(1) by (auto simp: phr_make_def Let_def split: option.splits)
  have "slot_of seed (table_shift ?n) h < table_size ?n" for h
    using slot_bound [of "table_shift ?n" seed h] k by simp
  with search_seed_Some [OF seed] have "distinct (map (slot_of seed (table_shift ?n)) ?hs)"
    using place_all_distinct [of seed "table_shift ?n" 0 ?hs "replicate (table_size ?n) (- 1)"] by auto
  then have "distinct (map (entry_slot seed (table_shift ?n)) keys)" by (simp add: entry_slot_def [abs_def] comp_def)
  from table_answers(2) [OF this _ _ refl, of "table_size ?n"] k show ?thesis
    by (simp add: phr_lookup_def t Let_def)
qed

end
