(* ===== verification/Router.thy ===== *)
theory Router
  imports Perfect_Hash "HOL-Library.AList"
begin

text \<open>
  The router: \<^verbatim>\<open>src/src/core/Router.h\<close> and \<^verbatim>\<open>Router.cpp\<close>. Registration of static, parameter and wildcard
  routes with the first-segment index of the 404/405 path, of WebSocket and SSE routes; matching; and
  the dispatch of a resolved request.

  An \<open>unordered_map\<close> is an association list with distinct keys; its iteration order is unspecified
  in the library, and the results below do not depend on it. A handler is of the type \<open>'h\<close> until it
  is called, a WebSocket or SSE callback of the type \<open>'c\<close>. A pointer to a static route, which stays
  valid while the node of its key is overwritten in place, is the key.
\<close>

section \<open>Data\<close>

record 'h RouteEntry =
  re_asyncHandler :: "'h option"
  re_syncHandler :: "'h option"
  re_compileTimeChain :: "'h option"

record 'h ParamRouteEntry =
  pe_method :: HttpMethod
  pe_path :: string
  pe_handler :: "'h option"
  pe_syncHandler :: "'h option"
  pe_compileTimeChain :: "'h option"

record 'h WildcardRouteEntry =
  we_method :: HttpMethod
  we_pattern :: string
  we_prefix :: string
  we_paramName :: string
  we_handler :: "'h option"
  we_syncHandler :: "'h option"
  we_compileTimeChain :: "'h option"

record WsOptions =
  wo_allowedOrigins :: "string list"
  wo_enableCompression :: bool
  wo_serverMaxWindowBits :: int
  wo_clientMaxWindowBits :: int
  wo_serverNoContextTakeover :: bool
  wo_pingInterval :: int
  wo_maxMissedPongs :: nat
  wo_pingPayload :: string
  wo_subprotocols :: "string list"

definition default_wsOptions :: WsOptions where
  "default_wsOptions = \<lparr>wo_allowedOrigins = [], wo_enableCompression = False, wo_serverMaxWindowBits = 15,
     wo_clientMaxWindowBits = 15, wo_serverNoContextTakeover = False, wo_pingInterval = 0, wo_maxMissedPongs = 3,
     wo_pingPayload = [], wo_subprotocols = []\<rparr>"

record 'c WsRoute =
  ws_path :: string
  ws_onMessage :: "'c option"
  ws_onTypedMessage :: "'c option"
  ws_onConnect :: "'c option"
  ws_onDisconnect :: "'c option"
  ws_options :: WsOptions

record 'c SseRoute =
  sse_path :: string
  sse_onConnect :: "'c option"

datatype RouteKind = kStatic | kParam | kWildcard

record ('h, 'c) Router =
  staticRoutes :: "(RouteKey \<times> 'h RouteEntry) list"
  paramRoutesByMethod :: "(HttpMethod \<times> 'h ParamRouteEntry list) list"
  wildcardRoutesByMethod :: "(HttpMethod \<times> 'h WildcardRouteEntry list) list"
  staticPathMethods :: "(string \<times> HttpMethod list) list"
  firstSegmentMethodMasks :: "(string \<times> u32) list"
  dynamicFirstSegmentMask :: u32
  wildcardSegmentPrefixMasks :: "(string \<times> u32) list"
  wsRoutes :: "'c WsRoute list"
  sseRoutes :: "'c SseRoute list"
  phrLookup :: PhLookup
  phrEntryMap :: "RouteKey option list"

definition new_router :: "('h, 'c) Router" where
  "new_router = \<lparr>staticRoutes = [], paramRoutesByMethod = [], wildcardRoutesByMethod = [], staticPathMethods = [],
     firstSegmentMethodMasks = [], dynamicFirstSegmentMask = 0, wildcardSegmentPrefixMasks = [], wsRoutes = [],
     sseRoutes = [], phrLookup = ph_empty, phrEntryMap = []\<rparr>"

text \<open>\<open>m[k]\<close>, which inserts the default, followed by a change of the value.\<close>

definition at_key :: "'k \<Rightarrow> 'v \<Rightarrow> ('v \<Rightarrow> 'v) \<Rightarrow> ('k \<times> 'v) list \<Rightarrow> ('k \<times> 'v) list" where
  "at_key k d f m = AList.update k (f (case map_of m k of Some v \<Rightarrow> v | None \<Rightarrow> d)) m"

section \<open>Paths\<close>

definition kMaxPathSegments :: nat where "kMaxPathSegments = 32"
definition kMaxParamValueLength :: nat where "kMaxParamValueLength = 1024"

definition methodBit :: "HttpMethod \<Rightarrow> u32" where
  "methodBit m = push_bit (method_index m) 1"

definition kMethods :: "HttpMethod list" where
  "kMethods = [hGet, hPost, hPut, hDelete, hPatch, hHead, hOptions]"

fun methods_from_mask :: "u32 \<Rightarrow> string \<Rightarrow> HttpMethod list \<Rightarrow> string" where
  "methods_from_mask msk out [] = out"
| "methods_from_mask msk out (m # ms) =
     (if msk AND methodBit m = 0 then methods_from_mask msk out ms
      else methods_from_mask msk ((if out \<noteq> [] then out @ '', '' else out) @ httpMethodToString m) ms)"

definition allowedMethodsFromMask :: "u32 \<Rightarrow> string" where
  "allowedMethodsFromMask msk = methods_from_mask msk [] kMethods"

definition drop_slash :: "string \<Rightarrow> string" where
  "drop_slash s = (case s of c # s' \<Rightarrow> if c = CHR ''/'' then s' else s | [] \<Rightarrow> [])"

definition firstPathSegment :: "string \<Rightarrow> string" where
  "firstPathSegment path =
     (let path = drop_slash path in case find_char (CHR ''/'') path of None \<Rightarrow> path | Some slash \<Rightarrow> take slash path)"

definition isParamSegment :: "string \<Rightarrow> bool" where
  "isParamSegment seg \<longleftrightarrow> length seg \<ge> 3 \<and> hd seg = CHR ''{'' \<and> last seg = CHR ''}''"

definition isParamRoute :: "string \<Rightarrow> bool" where
  "isParamRoute path \<longleftrightarrow> find_char (CHR ''{'') path \<noteq> None"

definition isWildcardRoute :: "string \<Rightarrow> bool" where
  "isWildcardRoute path \<longleftrightarrow> (case find_char (CHR ''*'') path of None \<Rightarrow> False | Some starPos \<Rightarrow> starPos + 1 < length path)"

type_synonym ParamList = "(string \<times> string) list"

text \<open>The segment loop of \<open>matchParamPath\<close>; \<open>None\<close> is the result false.\<close>

function match_segments :: "nat \<Rightarrow> string \<Rightarrow> string \<Rightarrow> ParamList \<Rightarrow> ParamList option" where
  "match_segments segmentCount pattern path captures =
     (if pattern \<noteq> [] \<and> path \<noteq> []
      then if segmentCount + 1 > kMaxPathSegments then None
           else let (patSeg, pattern') = cut_at (CHR ''/'') pattern;
                    (reqSeg, path') = cut_at (CHR ''/'') path
                in if length patSeg \<ge> 3 \<and> hd patSeg = CHR ''{'' \<and> last patSeg = CHR ''}''
                   then if length reqSeg > kMaxParamValueLength then None
                        else match_segments (segmentCount + 1) pattern' path'
                               (captures @ [(take (length patSeg - 2) (drop 1 patSeg), reqSeg)])
                   else if patSeg \<noteq> reqSeg then None
                   else match_segments (segmentCount + 1) pattern' path' captures
      else if pattern \<noteq> [] \<or> path \<noteq> [] then None
      else Some captures)"
  by pat_completeness auto
termination
  by (relation "measure (\<lambda>(_, p, _, _). length p)") (auto simp: cut_at_def split: option.splits)

declare match_segments.simps [simp del]

definition matchParamPath :: "string \<Rightarrow> string \<Rightarrow> ParamList option" where
  "matchParamPath pattern path = match_segments 0 (drop_slash pattern) (drop_slash path) []"

text \<open>The result of \<open>matchWildcardPath\<close> and what it leaves in \<open>params\<close>.\<close>

definition matchWildcardPath :: "string \<Rightarrow> string \<Rightarrow> string \<Rightarrow> bool \<times> ParamList" where
  "matchWildcardPath prefix paramName path =
     (let captured = drop (length prefix) path in
      if length captured > kMaxParamValueLength then (False, [])
      else (True, if paramName \<noteq> [] then [(paramName, captured)] else []))"

section \<open>Registration\<close>

fun or_prefix_mask :: "string \<Rightarrow> u32 \<Rightarrow> (string \<times> u32) list \<Rightarrow> (string \<times> u32) list" where
  "or_prefix_mask prefix bt [] = [(prefix, bt)]"
| "or_prefix_mask prefix bt ((token, msk) # ms) =
     (if token = prefix then (token, msk OR bt) # ms else (token, msk) # or_prefix_mask prefix bt ms)"

definition indexWildcardSegmentPrefix :: "HttpMethod \<Rightarrow> string \<Rightarrow> ('h, 'c) Router \<Rightarrow> ('h, 'c) Router" where
  "indexWildcardSegmentPrefix m prefix r =
     r\<lparr>wildcardSegmentPrefixMasks := or_prefix_mask prefix (methodBit m) (wildcardSegmentPrefixMasks r)\<rparr>"

definition or_segment_mask :: "string \<Rightarrow> u32 \<Rightarrow> ('h, 'c) Router \<Rightarrow> ('h, 'c) Router" where
  "or_segment_mask seg bt r =
     r\<lparr>firstSegmentMethodMasks := at_key seg 0 (\<lambda>msk. msk OR bt) (firstSegmentMethodMasks r)\<rparr>"

definition or_dynamic_mask :: "u32 \<Rightarrow> ('h, 'c) Router \<Rightarrow> ('h, 'c) Router" where
  "or_dynamic_mask bt r = r\<lparr>dynamicFirstSegmentMask := dynamicFirstSegmentMask r OR bt\<rparr>"

text \<open>\<open>path.substr(0, path.find('*'))\<close> and \<open>path.substr(path.find('*') + 1)\<close> of a wildcard route.\<close>

definition star_prefix :: "string \<Rightarrow> string" where
  "star_prefix path = (case find_char (CHR ''*'') path of Some n \<Rightarrow> take n path | None \<Rightarrow> path)"

definition star_name :: "string \<Rightarrow> string" where
  "star_name path = (case find_char (CHR ''*'') path of Some n \<Rightarrow> drop (n + 1) path | None \<Rightarrow> path)"

definition indexRouteFirstSegment :: "HttpMethod \<Rightarrow> string \<Rightarrow> RouteKind \<Rightarrow> ('h, 'c) Router \<Rightarrow> ('h, 'c) Router" where
  "indexRouteFirstSegment m path kind r =
     (let bt = methodBit m in
      if kind = kWildcard
      then let prefix = star_prefix path in
           if prefix = [] \<or> hd prefix \<noteq> CHR ''/'' then or_dynamic_mask bt r
           else let rest = tl prefix in
                case find_char (CHR ''/'') rest of
                  None \<Rightarrow> indexWildcardSegmentPrefix m rest r
                | Some slash \<Rightarrow> or_segment_mask (take slash rest) bt r
      else let segment = firstPathSegment path in
           if kind = kParam \<and> isParamSegment segment then or_dynamic_mask bt r
           else or_segment_mask segment bt r)"

text \<open>The three branches of \<open>route\<close>, with the handler in one of its three places.\<close>

definition add_route ::
  "HttpMethod \<Rightarrow> string \<Rightarrow> 'h option \<Rightarrow> 'h option \<Rightarrow> 'h option \<Rightarrow> ('h, 'c) Router \<Rightarrow> ('h, 'c) Router" where
  "add_route m path handler syncHandler chain r =
     (if isWildcardRoute path
      then let we = \<lparr>we_method = m, we_pattern = path, we_prefix = star_prefix path, we_paramName = star_name path,
                     we_handler = handler, we_syncHandler = syncHandler, we_compileTimeChain = chain\<rparr>
           in indexRouteFirstSegment m path kWildcard
                (r\<lparr>wildcardRoutesByMethod := at_key m [] (\<lambda>es. es @ [we]) (wildcardRoutesByMethod r)\<rparr>)
      else if isParamRoute path
      then let pe = \<lparr>pe_method = m, pe_path = path, pe_handler = handler, pe_syncHandler = syncHandler,
                     pe_compileTimeChain = chain\<rparr>
           in indexRouteFirstSegment m path kParam
                (r\<lparr>paramRoutesByMethod := at_key m [] (\<lambda>es. es @ [pe]) (paramRoutesByMethod r)\<rparr>)
      else let re = \<lparr>re_asyncHandler = handler, re_syncHandler = syncHandler, re_compileTimeChain = chain\<rparr>
           in indexRouteFirstSegment m path kStatic
                (r\<lparr>staticRoutes := AList.update (m, path) re (staticRoutes r),
                   staticPathMethods := at_key path [] (\<lambda>ms. ms @ [m]) (staticPathMethods r)\<rparr>))"

definition route_async :: "HttpMethod \<Rightarrow> string \<Rightarrow> 'h \<Rightarrow> ('h, 'c) Router \<Rightarrow> ('h, 'c) Router" where
  "route_async m path h r = add_route m path (Some h) None None r"

definition route_sync :: "HttpMethod \<Rightarrow> string \<Rightarrow> 'h \<Rightarrow> ('h, 'c) Router \<Rightarrow> ('h, 'c) Router" where
  "route_sync m path h r = add_route m path None (Some h) None r"

text \<open>\<open>chain\<close> is the compile-time chain built around the handler.\<close>

definition compileTimeRoute :: "HttpMethod \<Rightarrow> string \<Rightarrow> 'h \<Rightarrow> ('h, 'c) Router \<Rightarrow> ('h, 'c) Router" where
  "compileTimeRoute m path chain r = add_route m path None None (Some chain) r"

text \<open>The shorthands, overloaded for coroutine handlers and synchronous ones.\<close>

definition router_get :: "bool \<Rightarrow> string \<Rightarrow> 'h \<Rightarrow> ('h, 'c) Router \<Rightarrow> ('h, 'c) Router" where
  "router_get sync path h r = (if sync then route_sync hGet path h r else route_async hGet path h r)"

definition router_post :: "bool \<Rightarrow> string \<Rightarrow> 'h \<Rightarrow> ('h, 'c) Router \<Rightarrow> ('h, 'c) Router" where
  "router_post sync path h r = (if sync then route_sync hPost path h r else route_async hPost path h r)"

definition router_put :: "bool \<Rightarrow> string \<Rightarrow> 'h \<Rightarrow> ('h, 'c) Router \<Rightarrow> ('h, 'c) Router" where
  "router_put sync path h r = (if sync then route_sync hPut path h r else route_async hPut path h r)"

definition router_del :: "bool \<Rightarrow> string \<Rightarrow> 'h \<Rightarrow> ('h, 'c) Router \<Rightarrow> ('h, 'c) Router" where
  "router_del sync path h r = (if sync then route_sync hDelete path h r else route_async hDelete path h r)"

definition router_ws ::
  "string \<Rightarrow> 'c option \<Rightarrow> 'c option \<Rightarrow> 'c option \<Rightarrow> ('h, 'c) Router \<Rightarrow> ('h, 'c) Router" where
  "router_ws path onMessage onConnect onDisconnect r =
     r\<lparr>wsRoutes := wsRoutes r @ [\<lparr>ws_path = path, ws_onMessage = onMessage, ws_onTypedMessage = None,
        ws_onConnect = onConnect, ws_onDisconnect = onDisconnect, ws_options = default_wsOptions\<rparr>]\<rparr>"

definition router_ws_options ::
  "string \<Rightarrow> WsOptions \<Rightarrow> 'c option \<Rightarrow> 'c option \<Rightarrow> 'c option \<Rightarrow> ('h, 'c) Router \<Rightarrow> ('h, 'c) Router" where
  "router_ws_options path opts onMessage onConnect onDisconnect r =
     r\<lparr>wsRoutes := wsRoutes r @ [\<lparr>ws_path = path, ws_onMessage = onMessage, ws_onTypedMessage = None,
        ws_onConnect = onConnect, ws_onDisconnect = onDisconnect, ws_options = opts\<rparr>]\<rparr>"

definition router_ws_typed ::
  "string \<Rightarrow> 'c option \<Rightarrow> 'c option \<Rightarrow> 'c option \<Rightarrow> ('h, 'c) Router \<Rightarrow> ('h, 'c) Router" where
  "router_ws_typed path onTyped onConnect onDisconnect r =
     r\<lparr>wsRoutes := wsRoutes r @ [\<lparr>ws_path = path, ws_onMessage = None, ws_onTypedMessage = onTyped,
        ws_onConnect = onConnect, ws_onDisconnect = onDisconnect, ws_options = default_wsOptions\<rparr>]\<rparr>"

definition router_ws_typed_options ::
  "string \<Rightarrow> WsOptions \<Rightarrow> 'c option \<Rightarrow> 'c option \<Rightarrow> 'c option \<Rightarrow> ('h, 'c) Router \<Rightarrow> ('h, 'c) Router" where
  "router_ws_typed_options path opts onTyped onConnect onDisconnect r =
     r\<lparr>wsRoutes := wsRoutes r @ [\<lparr>ws_path = path, ws_onMessage = None, ws_onTypedMessage = onTyped,
        ws_onConnect = onConnect, ws_onDisconnect = onDisconnect, ws_options = opts\<rparr>]\<rparr>"

definition router_sse :: "string \<Rightarrow> 'c option \<Rightarrow> ('h, 'c) Router \<Rightarrow> ('h, 'c) Router" where
  "router_sse path onConnect r = r\<lparr>sseRoutes := sseRoutes r @ [\<lparr>sse_path = path, sse_onConnect = onConnect\<rparr>]\<rparr>"

text \<open>
  \<open>setPerfectHashLookup\<close>: the pointers are collected by looking up every static route.
\<close>

definition collect_entries :: "PhLookup \<Rightarrow> RouteKey list \<Rightarrow> RouteKey option list \<Rightarrow> RouteKey option list" where
  "collect_entries t keys em =
     foldl (\<lambda>em k. case ph_lookup t (fst k) (snd k) of
                     Some idx \<Rightarrow> if idx < length em then em[idx := Some k] else em
                   | None \<Rightarrow> em) em keys"

definition setPerfectHashLookup :: "PhLookup \<Rightarrow> ('h, 'c) Router \<Rightarrow> ('h, 'c) Router" where
  "setPerfectHashLookup t r =
     r\<lparr>phrLookup := t, phrEntryMap := collect_entries t (map fst (staticRoutes r)) (replicate (keyCount t) None)\<rparr>"

text \<open>
  \<open>registerRoutes\<close> of \<^verbatim>\<open>MetaRoutes.h\<close>: register a table of routes, then accelerate its static ones.
\<close>

definition registerOneRoute :: "HttpMethod \<times> string \<times> bool \<times> 'h \<Rightarrow> ('h, 'c) Router \<Rightarrow> ('h, 'c) Router" where
  "registerOneRoute t r =
     (case t of (m, path, sync, h) \<Rightarrow> if sync then route_sync m path h r else route_async m path h r)"

definition registerAll :: "(HttpMethod \<times> string \<times> bool \<times> 'h) list \<Rightarrow> ('h, 'c) Router \<Rightarrow> ('h, 'c) Router" where
  "registerAll table r = foldl (\<lambda>r t. registerOneRoute t r) r table"

definition collectStaticRouteKeys :: "(HttpMethod \<times> string \<times> bool \<times> 'h) list \<Rightarrow> RouteKey list" where
  "collectStaticRouteKeys table =
     [(m, path). (m, path, sync, h) \<leftarrow> table, find_char (CHR ''{'') path = None \<and> find_char (CHR ''*'') path = None]"

definition registerRoutes :: "(HttpMethod \<times> string \<times> bool \<times> 'h) list \<Rightarrow> ('h, 'c) Router \<Rightarrow> ('h, 'c) Router" where
  "registerRoutes table r =
     (let r1 = registerAll table r;
          keys = collectStaticRouteKeys table in
      if keys = [] then r1
      else let t = buildFromKeys keys in if ph_valid t then setPerfectHashLookup t r1 else r1)"

section \<open>Matching\<close>

record 'h ResolveResult =
  rr_static :: "'h RouteEntry option"
  rr_param :: "'h ParamRouteEntry option"
  rr_wildcard :: "'h WildcardRouteEntry option"
  allowedMethods :: string
  pathTooDeep :: bool

definition no_result :: "'h ResolveResult" where
  "no_result = \<lparr>rr_static = None, rr_param = None, rr_wildcard = None, allowedMethods = [], pathTooDeep = False\<rparr>"

definition isMatch :: "'h ResolveResult \<Rightarrow> bool" where
  "isMatch x \<longleftrightarrow> rr_static x \<noteq> None \<or> rr_param x \<noteq> None \<or> rr_wildcard x \<noteq> None"

definition isMethodNotAllowed :: "'h ResolveResult \<Rightarrow> bool" where
  "isMethodNotAllowed x \<longleftrightarrow> \<not> isMatch x \<and> allowedMethods x \<noteq> []"

definition needsDecode :: "string \<Rightarrow> bool" where
  "needsDecode path \<longleftrightarrow> (\<exists>c \<in> set path. c = CHR ''%'' \<or> c = CHR ''+'')"

definition segmentCount :: "string \<Rightarrow> nat" where
  "segmentCount path = length (filter (\<lambda>c. c = CHR ''/'') path)"

definition decoded_path :: "string \<Rightarrow> string" where
  "decoded_path raw = (if needsDecode raw then urlDecode raw else raw)"

definition set_params :: "ParamList \<Rightarrow> 'v HttpRequest \<Rightarrow> 'v HttpRequest" where
  "set_params ps req = foldl (\<lambda>req (n, v). setParam n v req) req ps"

text \<open>The first parameter route whose pattern matches, with its captures.\<close>

fun find_param_route :: "'h ParamRouteEntry list \<Rightarrow> string \<Rightarrow> ('h ParamRouteEntry \<times> ParamList) option" where
  "find_param_route [] path = None"
| "find_param_route (e # es) path =
     (case matchParamPath (pe_path e) path of Some ps \<Rightarrow> Some (e, ps) | None \<Rightarrow> find_param_route es path)"

definition prefix_matches :: "'h WildcardRouteEntry \<Rightarrow> string \<Rightarrow> bool" where
  "prefix_matches e path \<longleftrightarrow> length path \<ge> length (we_prefix e) \<and> take (length (we_prefix e)) path = we_prefix e"

fun find_wildcard_route :: "'h WildcardRouteEntry list \<Rightarrow> string \<Rightarrow> 'h WildcardRouteEntry option" where
  "find_wildcard_route [] path = None"
| "find_wildcard_route (e # es) path = (if prefix_matches e path then Some e else find_wildcard_route es path)"

definition entries_for :: "HttpMethod \<Rightarrow> (HttpMethod \<times> 'e list) list \<Rightarrow> 'e list" where
  "entries_for m groups = (case map_of groups m of Some es \<Rightarrow> es | None \<Rightarrow> [])"

definition candidate_mask :: "('h, 'c) Router \<Rightarrow> string \<Rightarrow> u32" where
  "candidate_mask r path =
     (let seg = firstPathSegment path;
          c1 = dynamicFirstSegmentMask r;
          c2 = (case map_of (firstSegmentMethodMasks r) seg of Some k \<Rightarrow> c1 OR k | None \<Rightarrow> c1)
      in foldl (\<lambda>c (p, k). if take (length p) seg = p then c OR k else c) c2 (wildcardSegmentPrefixMasks r))"

definition static_allow :: "('h, 'c) Router \<Rightarrow> HttpMethod \<Rightarrow> string \<Rightarrow> u32 \<Rightarrow> u32" where
  "static_allow r reqMethod path a =
     (case map_of (staticPathMethods r) path of
        Some ms \<Rightarrow> foldl (\<lambda>a m. if m \<noteq> reqMethod then a OR methodBit m else a) a ms
      | None \<Rightarrow> a)"

definition group_allow :: "u32 \<Rightarrow> ('e \<Rightarrow> bool) \<Rightarrow> (HttpMethod \<times> 'e list) list \<Rightarrow> u32 \<Rightarrow> u32" where
  "group_allow otherMethods hit groups a =
     foldl (\<lambda>a (m, es). if otherMethods AND methodBit m = 0 then a
                        else if list_ex hit es then a OR methodBit m else a) a groups"

definition allow_mask :: "('h, 'c) Router \<Rightarrow> HttpMethod \<Rightarrow> string \<Rightarrow> u32" where
  "allow_mask r reqMethod path =
     (let otherMethods = candidate_mask r path AND NOT (methodBit reqMethod) in
      if otherMethods \<noteq> 0
      then group_allow otherMethods (\<lambda>e. prefix_matches e path) (wildcardRoutesByMethod r)
             (group_allow otherMethods (\<lambda>e. matchParamPath (pe_path e) path \<noteq> None) (paramRoutesByMethod r)
               (static_allow r reqMethod path 0))
      else 0)"

text \<open>Steps 1b to 4 of \<open>resolveRoute\<close>.\<close>

definition resolve_tables :: "('h, 'c) Router \<Rightarrow> string \<Rightarrow> 'v HttpRequest \<Rightarrow> 'h ResolveResult \<times> 'v HttpRequest" where
  "resolve_tables r path req =
     (case map_of (staticRoutes r) (rq_method req, path) of
        Some e \<Rightarrow> (no_result\<lparr>rr_static := Some e\<rparr>, req)
      | None \<Rightarrow>
         (case find_param_route (entries_for (rq_method req) (paramRoutesByMethod r)) path of
            Some (e, ps) \<Rightarrow> (no_result\<lparr>rr_param := Some e\<rparr>, set_params ps req)
          | None \<Rightarrow>
             (case find_wildcard_route (entries_for (rq_method req) (wildcardRoutesByMethod r)) path of
                Some e \<Rightarrow> (no_result\<lparr>rr_wildcard := Some e\<rparr>,
                           set_params (snd (matchWildcardPath (we_prefix e) (we_paramName e) path)) req)
              | None \<Rightarrow> (no_result\<lparr>allowedMethods := allowedMethodsFromMask (allow_mask r (rq_method req) path)\<rparr>, req))))"

definition resolveRoute :: "('h, 'c) Router \<Rightarrow> 'v HttpRequest \<Rightarrow> 'h ResolveResult \<times> 'v HttpRequest" where
  "resolveRoute r req =
     (let rawPath = rq_path req in
      if segmentCount rawPath > kMaxPathSegments then (no_result\<lparr>pathTooDeep := True\<rparr>, req)
      else let path = decoded_path rawPath in
           if ph_valid (phrLookup r)
           then (case ph_lookup (phrLookup r) (rq_method req) path of
                   Some idx \<Rightarrow>
                     if idx < length (phrEntryMap r)
                     then (no_result\<lparr>rr_static := Option.bind (phrEntryMap r ! idx) (map_of (staticRoutes r))\<rparr>, req)
                     else resolve_tables r path req
                 | None \<Rightarrow> resolve_tables r path req)
           else resolve_tables r path req)"

definition router_exists :: "('h, 'c) Router \<Rightarrow> HttpMethod \<Rightarrow> string \<Rightarrow> bool" where
  "router_exists r m raw =
     (let path = decoded_path raw in
      if map_of (staticRoutes r) (m, path) \<noteq> None then True
      else list_ex (\<lambda>e. matchParamPath (pe_path e) path \<noteq> None) (entries_for m (paramRoutesByMethod r)))"

definition routeCount :: "('h, 'c) Router \<Rightarrow> nat" where
  "routeCount r =
     length (staticRoutes r) + foldl (\<lambda>n (m, es). n + length es) 0 (paramRoutesByMethod r)
     + foldl (\<lambda>n (m, es). n + length es) 0 (wildcardRoutesByMethod r) + length (wsRoutes r) + length (sseRoutes r)"

text \<open>The two passes over the WebSocket and the SSE routes: exact paths first.\<close>

fun find_exact :: "('e \<Rightarrow> string) \<Rightarrow> 'e list \<Rightarrow> string \<Rightarrow> 'e option" where
  "find_exact pth [] path = None"
| "find_exact pth (e # es) path = (if \<not> isParamRoute (pth e) \<and> pth e = path then Some e else find_exact pth es path)"

fun find_pattern :: "('e \<Rightarrow> string) \<Rightarrow> 'e list \<Rightarrow> string \<Rightarrow> ('e \<times> ParamList) option" where
  "find_pattern pth [] path = None"
| "find_pattern pth (e # es) path =
     (if isParamRoute (pth e)
      then (case matchParamPath (pth e) path of Some ps \<Rightarrow> Some (e, ps) | None \<Rightarrow> find_pattern pth es path)
      else find_pattern pth es path)"

definition find_route :: "('e \<Rightarrow> string) \<Rightarrow> 'e list \<Rightarrow> string \<Rightarrow> ('e \<times> ParamList) option" where
  "find_route pth es path =
     (case find_exact pth es path of Some e \<Rightarrow> Some (e, []) | None \<Rightarrow> find_pattern pth es path)"

definition findWsRoute :: "('h, 'c) Router \<Rightarrow> string \<Rightarrow> ('c WsRoute \<times> ParamList) option" where
  "findWsRoute r path = find_route ws_path (wsRoutes r) path"

definition findSseRoute :: "('h, 'c) Router \<Rightarrow> string \<Rightarrow> ('c SseRoute \<times> ParamList) option" where
  "findSseRoute r path = find_route sse_path (sseRoutes r) path"

section \<open>Dispatch\<close>

text \<open>
  A handler acts on the request and on the rest of the application's state, and gives a response or
  throws. Calling an empty \<open>std::function\<close> throws \<open>bad_function_call\<close>.
\<close>

type_synonym ('v, 's) handler_result = "(string + NativeResponse) \<times> 'v HttpRequest \<times> 's"
type_synonym ('v, 's) handler = "'v HttpRequest \<Rightarrow> 's \<Rightarrow> ('v, 's) handler_result"

definition call_handler :: "('v, 's) handler option \<Rightarrow> 'v HttpRequest \<Rightarrow> 's \<Rightarrow> ('v, 's) handler_result" where
  "call_handler h req st = (case h of Some f \<Rightarrow> f req st | None \<Rightarrow> (Inl ''bad_function_call'', req, st))"

text \<open>The three handler slots of an entry, as \<open>dispatchResolved\<close> tries them.\<close>

definition call_entry ::
  "('v, 's) handler option \<Rightarrow> ('v, 's) handler option \<Rightarrow> ('v, 's) handler option \<Rightarrow>
   'v HttpRequest \<Rightarrow> 's \<Rightarrow> ('v, 's) handler_result" where
  "call_entry chain sync async req st =
     (if chain \<noteq> None then call_handler chain req st
      else if sync \<noteq> None then call_handler sync req st
      else call_handler async req st)"

definition methodNotAllowed :: "string \<Rightarrow> NativeResponse" where
  "methodNotAllowed allow =
     setBodyType ''Method Not Allowed'' ''text/plain'' (setHeader ''Allow'' allow (setStatus hMethodNotAllowed new_response))"

definition dispatchResolved ::
  "('v, 's) handler ResolveResult \<Rightarrow> 'v HttpRequest \<Rightarrow> 's \<Rightarrow> ('v, 's) handler_result" where
  "dispatchResolved x req st =
     (if pathTooDeep x then (Inr (badRequest ''Path too deep''), req, st)
      else case rr_static x of
        Some e \<Rightarrow> call_entry (re_compileTimeChain e) (re_syncHandler e) (re_asyncHandler e) req st
      | None \<Rightarrow> (case rr_param x of
          Some e \<Rightarrow> call_entry (pe_compileTimeChain e) (pe_syncHandler e) (pe_handler e) req st
        | None \<Rightarrow> (case rr_wildcard x of
            Some e \<Rightarrow> call_entry (we_compileTimeChain e) (we_syncHandler e) (we_handler e) req st
          | None \<Rightarrow>
              if allowedMethods x \<noteq> [] then (Inr (methodNotAllowed (allowedMethods x)), req, st)
              else (Inr notFound, req, st))))"

definition call_sync ::
  "('v, 's) handler option \<Rightarrow> ('v, 's) handler option \<Rightarrow> 'v HttpRequest \<Rightarrow> 's \<Rightarrow> ('v, 's) handler_result option" where
  "call_sync chain sync req st =
     (if chain \<noteq> None then None else if sync \<noteq> None then Some (call_handler sync req st) else None)"

definition dispatchSyncResolved ::
  "('v, 's) handler ResolveResult \<Rightarrow> 'v HttpRequest \<Rightarrow> 's \<Rightarrow> ('v, 's) handler_result option" where
  "dispatchSyncResolved x req st =
     (if pathTooDeep x then Some (Inr (badRequest ''Path too deep''), req, st)
      else case rr_static x of
        Some e \<Rightarrow> call_sync (re_compileTimeChain e) (re_syncHandler e) req st
      | None \<Rightarrow> (case rr_param x of
          Some e \<Rightarrow> call_sync (pe_compileTimeChain e) (pe_syncHandler e) req st
        | None \<Rightarrow> (case rr_wildcard x of
            Some e \<Rightarrow> call_sync (we_compileTimeChain e) (we_syncHandler e) req st
          | None \<Rightarrow> None)))"

definition dispatch :: "(('v, 's) handler, 'c) Router \<Rightarrow> 'v HttpRequest \<Rightarrow> 's \<Rightarrow> ('v, 's) handler_result" where
  "dispatch r req st = (let (x, req1) = resolveRoute r req in dispatchResolved x req1 st)"

definition dispatchSync :: "(('v, 's) handler, 'c) Router \<Rightarrow> 'v HttpRequest \<Rightarrow> 's \<Rightarrow> ('v, 's) handler_result option" where
  "dispatchSync r req st = (let (x, req1) = resolveRoute r req in dispatchSyncResolved x req1 st)"

end
