(* ===== verification/Router_Inv.thy ===== *)
theory Router_Inv
  imports Router
begin

text \<open>
  Correctness of the router: parameter patterns match segment by segment, the first-segment index of
  the 404/405 path loses no method, the perfect hash is transparent, and so matching is the plain
  search through the routes in the order static, parameter, wildcard, with the exact set of other
  methods when nothing matches.
\<close>

section \<open>Segments\<close>

function segments :: "string \<Rightarrow> string list" where
  "segments s = (if s = [] then [] else fst (cut_at (CHR ''/'') s) # segments (snd (cut_at (CHR ''/'') s)))"
  by pat_completeness auto
termination by (relation "measure length") (auto simp: cut_at_shorter)

declare segments.simps [simp del]

lemma segments_Nil [simp]: "segments [] = []"
  by (subst segments.simps) simp

lemma segments_step: "s \<noteq> [] \<Longrightarrow> segments s = fst (cut_at (CHR ''/'') s) # segments (snd (cut_at (CHR ''/'') s))"
  by (subst segments.simps) simp

lemma segments_eq_Nil [simp]: "segments s = [] \<longleftrightarrow> s = []"
  by (cases "s = []") (simp_all add: segments_step)

definition seg_match :: "string \<Rightarrow> string \<Rightarrow> bool" where
  "seg_match pat seg \<longleftrightarrow> (if isParamSegment pat then length seg \<le> kMaxParamValueLength else pat = seg)"

definition param_name :: "string \<Rightarrow> string" where
  "param_name pat = take (length pat - 2) (drop 1 pat)"

fun captures :: "string list \<Rightarrow> string list \<Rightarrow> ParamList" where
  "captures (p # ps) (s # ss) = (if isParamSegment p then [(param_name p, s)] else []) @ captures ps ss"
| "captures _ _ = []"

lemma match_segments_spec:
  "match_segments n pat path caps =
     (if list_all2 seg_match (segments pat) (segments path) \<and> n + length (segments path) \<le> kMaxPathSegments \<or> pat = [] \<and> path = []
      then Some (caps @ captures (segments pat) (segments path)) else None)"
proof (induction n pat path caps rule: match_segments.induct)
  case (1 n pat path caps)
  show ?case
  proof (cases "pat \<noteq> [] \<and> path \<noteq> []")
    case False
    then show ?thesis by (subst match_segments.simps) auto
  next
    case True
    obtain a b where c1: "cut_at (CHR ''/'') pat = (a, b)" by (cases "cut_at (CHR ''/'') pat")
    obtain a' b' where c2: "cut_at (CHR ''/'') path = (a', b')" by (cases "cut_at (CHR ''/'') path")
    have segs: "segments pat = a # segments b" "segments path = a' # segments b'"
      using True segments_step [of pat] segments_step [of path] c1 c2 by simp_all
    have step: "match_segments n pat path caps =
      (if n + 1 > kMaxPathSegments then None
       else if isParamSegment a
       then if length a' > kMaxParamValueLength then None else match_segments (n + 1) b b' (caps @ [(param_name a, a')])
       else if a \<noteq> a' then None else match_segments (n + 1) b b' caps)"
      using True c1 c2 by (subst match_segments.simps) (simp add: isParamSegment_def param_name_def)
    have bb: "b = [] \<and> b' = [] \<Longrightarrow> list_all2 seg_match (segments b) (segments b')" by simp
    show ?thesis
    proof (cases "n + 1 > kMaxPathSegments")
      case True
      then show ?thesis using \<open>pat \<noteq> [] \<and> path \<noteq> []\<close> by (auto simp: step segs)
    next
      case False
      have ih: "match_segments (n + 1) b b' cs =
          (if list_all2 seg_match (segments b) (segments b') \<and> Suc (n + length (segments b')) \<le> kMaxPathSegments
           then Some (cs @ captures (segments b) (segments b')) else None)"
        if "isParamSegment a \<and> length a' \<le> kMaxParamValueLength \<and> cs = caps @ [(param_name a, a')] \<or> \<not> isParamSegment a \<and> a = a' \<and> cs = caps" for cs
        using that False \<open>pat \<noteq> [] \<and> path \<noteq> []\<close> "1.IH" c1 c2 bb
        by (auto simp: isParamSegment_def param_name_def not_less)
      show ?thesis using False ih \<open>pat \<noteq> [] \<and> path \<noteq> []\<close> by (auto simp: step segs seg_match_def [of a a'])
    qed
  qed
qed

section \<open>Method masks\<close>

definition has_bit :: "u32 \<Rightarrow> HttpMethod \<Rightarrow> bool" where
  "has_bit k m \<longleftrightarrow> bit k (method_index m)"

lemma method_index_less: "method_index m < 32"
  by (cases m) simp_all

lemma method_index_inj [simp]: "method_index m = method_index n \<longleftrightarrow> m = n"
  by (cases m; cases n) simp_all

lemma bit_methodBit [simp]: "bit (methodBit m) n \<longleftrightarrow> n = method_index m"
  using method_index_less [of m] by (auto simp: methodBit_def bit_simps)

lemma has_bit_simps [simp]:
  "\<not> has_bit 0 m" "has_bit (k OR k') m \<longleftrightarrow> has_bit k m \<or> has_bit k' m" "has_bit (methodBit n) m \<longleftrightarrow> m = n"
  "has_bit (k AND NOT (methodBit n)) m \<longleftrightarrow> has_bit k m \<and> m \<noteq> n"
  using method_index_less [of m] by (auto simp: has_bit_def bit_simps)

lemma and_methodBit: "k AND methodBit m = 0 \<longleftrightarrow> \<not> has_bit k m"
proof
  assume "k AND methodBit m = 0"
  then have "\<not> bit (k AND methodBit m) (method_index m)" by simp
  then show "\<not> has_bit k m" by (simp add: has_bit_def bit_and_iff)
next
  assume "\<not> has_bit k m"
  then show "k AND methodBit m = 0" by (intro bit_word_eqI) (auto simp: has_bit_def bit_and_iff)
qed

fun join_comma :: "string list \<Rightarrow> string" where
  "join_comma [] = []"
| "join_comma [x] = x"
| "join_comma (x # xs) = x @ '', '' @ join_comma xs"

lemma method_name_not_Nil [simp]: "httpMethodToString m \<noteq> []"
  by (cases m) simp_all

lemma join_comma_Cons: "join_comma (x # xs) = x @ concat (map (\<lambda>n. '', '' @ n) xs)"
  by (induction xs arbitrary: x) simp_all

lemma methods_from_mask_join:
  "methods_from_mask k out ms =
     (let ns = map httpMethodToString (filter (has_bit k) ms) in
      if out = [] then join_comma ns else out @ concat (map (\<lambda>n. '', '' @ n) ns))"
  by (induction ms arbitrary: out) (simp_all add: and_methodBit Let_def join_comma_Cons comp_def)

lemma allowedMethods_join: "allowedMethodsFromMask k = join_comma (map httpMethodToString (filter (has_bit k) kMethods))"
  by (simp add: allowedMethodsFromMask_def methods_from_mask_join)

section \<open>The first-segment index\<close>

text \<open>The routes of a method that match a path.\<close>

definition known :: "('h, 'c) Router \<Rightarrow> HttpMethod \<Rightarrow> string \<Rightarrow> bool" where
  "known r m path \<longleftrightarrow>
     map_of (staticRoutes r) (m, path) \<noteq> None
     \<or> (\<exists>e \<in> set (entries_for m (paramRoutesByMethod r)). matchParamPath (pe_path e) path \<noteq> None)
     \<or> (\<exists>e \<in> set (entries_for m (wildcardRoutesByMethod r)). prefix_matches e path)"

lemma foldl_or_bits:
  "has_bit (foldl (\<lambda>c (p, k). if P p then c OR k else c) c ms) m \<longleftrightarrow> has_bit c m \<or> (\<exists>(p, k) \<in> set ms. P p \<and> has_bit k m)"
  by (induction ms arbitrary: c) (auto split: if_splits)

lemma candidate_bits:
  "has_bit (candidate_mask r path) m \<longleftrightarrow>
     has_bit (dynamicFirstSegmentMask r) m
     \<or> (\<exists>k. map_of (firstSegmentMethodMasks r) (firstPathSegment path) = Some k \<and> has_bit k m)
     \<or> (\<exists>(p, k) \<in> set (wildcardSegmentPrefixMasks r). take (length p) (firstPathSegment path) = p \<and> has_bit k m)"
  unfolding candidate_mask_def Let_def foldl_or_bits by (auto split: option.split)

lemma take_find_char:
  "(case find_char c s of None \<Rightarrow> s | Some n \<Rightarrow> take n s) = takeWhile (\<lambda>x. x \<noteq> c) s"
proof (induction s)
  case (Cons x s)
  then show ?case by (cases "find_char c s") (auto simp del: find_char_None)
qed simp

lemma fst_cut_at: "fst (cut_at c s) = takeWhile (\<lambda>x. x \<noteq> c) s"
  unfolding take_find_char [symmetric] cut_at_def by (cases "find_char c s") (simp_all del: find_char_None)

lemma firstPathSegment_cut: "firstPathSegment p = fst (cut_at (CHR ''/'') (drop_slash p))"
  unfolding fst_cut_at take_find_char [symmetric] by (simp add: firstPathSegment_def Let_def)

lemma match_first_segment:
  assumes "matchParamPath pat path \<noteq> None" and "isParamRoute pat" and "\<not> isParamSegment (firstPathSegment pat)"
  shows "firstPathSegment path = firstPathSegment pat"
proof -
  have "drop_slash pat \<noteq> []"
    using assms(2) by (auto simp: isParamRoute_def drop_slash_def split: list.splits if_splits)
  moreover from this assms(1) have m: "list_all2 seg_match (segments (drop_slash pat)) (segments (drop_slash path))"
    by (simp add: matchParamPath_def match_segments_spec split: if_splits)
  ultimately have "drop_slash path \<noteq> []" by (auto dest: list_all2_lengthD)
  with m \<open>drop_slash pat \<noteq> []\<close> have "seg_match (firstPathSegment pat) (firstPathSegment path)"
    by (simp add: segments_step firstPathSegment_cut)
  with assms(3) show ?thesis by (simp add: seg_match_def)
qed

lemma prefix_first_segment:
  assumes "take (length pre) path = pre" and "pre = CHR ''/'' # rest"
  shows "case find_char (CHR ''/'') rest of
           None \<Rightarrow> take (length rest) (firstPathSegment path) = rest
         | Some n \<Rightarrow> firstPathSegment path = take n rest"
proof -
  obtain u where path: "path = CHR ''/'' # rest @ u" using assms by (metis append_Cons append_take_drop_id)
  then have ds: "drop_slash path = rest @ u" by (simp add: drop_slash_def)
  show ?thesis
  proof (cases "find_char (CHR ''/'') rest")
    case None
    then have no: "CHR ''/'' \<notin> set rest" by simp
    then have "fst (cut_at (CHR ''/'') (rest @ u)) = rest @ fst (cut_at (CHR ''/'') u)"
      unfolding fst_cut_at by (intro takeWhile_append2) auto
    with None show ?thesis by (simp add: firstPathSegment_cut ds del: find_char_None)
  next
    case (Some n)
    note f = find_char_Some [OF Some]
    from f have n: "CHR ''/'' \<notin> set (take n rest)" by blast
    from f have "rest = take n rest @ CHR ''/'' # drop (Suc n) rest" by blast
    then have "rest @ u = take n rest @ CHR ''/'' # (drop (Suc n) rest @ u)" by (metis append.assoc append_Cons)
    with n have "fst (cut_at (CHR ''/'') (rest @ u)) = take n rest" by (metis cut_at_here fst_conv)
    with Some show ?thesis by (simp add: firstPathSegment_cut ds)
  qed
qed

section \<open>Registration keeps the index sound\<close>

definition methods_at :: "('h, 'c) Router \<Rightarrow> string \<Rightarrow> HttpMethod set" where
  "methods_at r path = set (case map_of (staticPathMethods r) path of Some ms \<Rightarrow> ms | None \<Rightarrow> [])"

definition index_sound :: "('h, 'c) Router \<Rightarrow> bool" where
  "index_sound r \<longleftrightarrow> (\<forall>m path. known r m path \<longrightarrow> has_bit (candidate_mask r path) m)"

definition groups_ok :: "('h, 'c) Router \<Rightarrow> bool" where
  "groups_ok r \<longleftrightarrow> distinct (map fst (paramRoutesByMethod r)) \<and> distinct (map fst (wildcardRoutesByMethod r))
     \<and> (\<forall>m path. map_of (staticRoutes r) (m, path) \<noteq> None \<longleftrightarrow> m \<in> methods_at r path)"

definition phr_ok :: "('h, 'c) Router \<Rightarrow> bool" where
  "phr_ok r \<longleftrightarrow> (ph_valid (phrLookup r) \<longrightarrow>
     (\<exists>keys. phrLookup r = buildFromKeys keys \<and> length (phrEntryMap r) = length keys
        \<and> (\<forall>i < length keys. phrEntryMap r ! i = Some (keys ! i) \<and> map_of (staticRoutes r) (keys ! i) \<noteq> None)))"

definition router_inv :: "('h, 'c) Router \<Rightarrow> bool" where
  "router_inv r \<longleftrightarrow> index_sound r \<and> groups_ok r \<and> phr_ok r"

lemma map_of_at_key: "map_of (at_key k d f m) k' =
   (if k' = k then Some (f (case map_of m k of Some v \<Rightarrow> v | None \<Rightarrow> d)) else map_of m k')"
  by (simp add: at_key_def update_conv')

lemma distinct_at_key: "distinct (map fst m) \<Longrightarrow> distinct (map fst (at_key k d f m))"
  by (simp add: at_key_def distinct_update)

lemma entries_for_at_key: "entries_for m (at_key m' [] f g) = (if m = m' then f (entries_for m g) else entries_for m g)"
  by (simp add: entries_for_def map_of_at_key)

lemma or_prefix_bits:
  "(\<exists>(p, k) \<in> set (or_prefix_mask pre b ms). P p \<and> has_bit k m) \<longleftrightarrow>
   (\<exists>(p, k) \<in> set ms. P p \<and> has_bit k m) \<or> P pre \<and> has_bit b m"
  by (induction pre b ms rule: or_prefix_mask.induct) auto

text \<open>What the index step of a registration adds to the candidates of a path.\<close>

definition index_covers :: "string \<Rightarrow> RouteKind \<Rightarrow> string \<Rightarrow> bool" where
  "index_covers path0 kind path \<longleftrightarrow>
     (if kind = kWildcard
      then let prefix = star_prefix path0 in
           prefix = [] \<or> hd prefix \<noteq> CHR ''/''
           \<or> (case find_char (CHR ''/'') (tl prefix) of
                None \<Rightarrow> take (length (tl prefix)) (firstPathSegment path) = tl prefix
              | Some n \<Rightarrow> firstPathSegment path = take n (tl prefix))
      else kind = kParam \<and> isParamSegment (firstPathSegment path0) \<or> firstPathSegment path = firstPathSegment path0)"

lemma candidates_or_dynamic:
  "has_bit (candidate_mask (or_dynamic_mask b r) path) m \<longleftrightarrow> has_bit (candidate_mask r path) m \<or> has_bit b m"
  by (auto simp: candidate_bits or_dynamic_mask_def)

lemma candidates_or_segment:
  "has_bit (candidate_mask (or_segment_mask seg b r) path) m \<longleftrightarrow>
   has_bit (candidate_mask r path) m \<or> firstPathSegment path = seg \<and> has_bit b m"
  by (auto simp: candidate_bits or_segment_mask_def map_of_at_key split: option.splits)

lemma candidates_or_prefix:
  "has_bit (candidate_mask (indexWildcardSegmentPrefix m0 pre r) path) m \<longleftrightarrow>
   has_bit (candidate_mask r path) m \<or> take (length pre) (firstPathSegment path) = pre \<and> m = m0"
  unfolding candidate_bits indexWildcardSegmentPrefix_def
  using or_prefix_bits [of pre "methodBit m0" "wildcardSegmentPrefixMasks r"
      "\<lambda>p. take (length p) (firstPathSegment path) = p" m] by auto

lemma candidates_index:
  "has_bit (candidate_mask (indexRouteFirstSegment m0 path0 kind r) path) m \<longleftrightarrow>
   has_bit (candidate_mask r path) m \<or> m = m0 \<and> index_covers path0 kind path"
proof (cases "kind = kWildcard")
  case False
  then show ?thesis
    by (auto simp: indexRouteFirstSegment_def Let_def index_covers_def candidates_or_dynamic candidates_or_segment)
next
  case True
  show ?thesis
  proof (cases "star_prefix path0 = [] \<or> hd (star_prefix path0) \<noteq> CHR ''/''")
    case c: True
    then have "indexRouteFirstSegment m0 path0 kind r = or_dynamic_mask (methodBit m0) r"
      using True by (simp add: indexRouteFirstSegment_def Let_def)
    moreover have "index_covers path0 kind path" using c True by (auto simp: index_covers_def)
    ultimately show ?thesis by (auto simp: candidates_or_dynamic)
  next
    case c: False
    then have "indexRouteFirstSegment m0 path0 kind r = (case find_char (CHR ''/'') (tl (star_prefix path0)) of
        None \<Rightarrow> indexWildcardSegmentPrefix m0 (tl (star_prefix path0)) r
      | Some n \<Rightarrow> or_segment_mask (take n (tl (star_prefix path0))) (methodBit m0) r)"
      using True by (simp add: indexRouteFirstSegment_def Let_def)
    moreover have "index_covers path0 kind path \<longleftrightarrow> (case find_char (CHR ''/'') (tl (star_prefix path0)) of
        None \<Rightarrow> take (length (tl (star_prefix path0))) (firstPathSegment path) = tl (star_prefix path0)
      | Some n \<Rightarrow> firstPathSegment path = take n (tl (star_prefix path0)))"
      using c True by (simp add: index_covers_def Let_def)
    ultimately show ?thesis
      by (cases "find_char (CHR ''/'') (tl (star_prefix path0))")
        (auto simp: candidates_or_prefix candidates_or_segment simp del: find_char_None)
  qed
qed

lemma index_keeps [simp]:
  "staticRoutes (indexRouteFirstSegment m p k r) = staticRoutes r"
  "paramRoutesByMethod (indexRouteFirstSegment m p k r) = paramRoutesByMethod r"
  "wildcardRoutesByMethod (indexRouteFirstSegment m p k r) = wildcardRoutesByMethod r"
  "staticPathMethods (indexRouteFirstSegment m p k r) = staticPathMethods r"
  "phrLookup (indexRouteFirstSegment m p k r) = phrLookup r"
  "phrEntryMap (indexRouteFirstSegment m p k r) = phrEntryMap r"
  by (simp_all add: indexRouteFirstSegment_def Let_def or_dynamic_mask_def or_segment_mask_def
      indexWildcardSegmentPrefix_def split: option.split)

lemma candidate_mask_cong:
  "dynamicFirstSegmentMask r' = dynamicFirstSegmentMask r \<Longrightarrow> firstSegmentMethodMasks r' = firstSegmentMethodMasks r \<Longrightarrow>
   wildcardSegmentPrefixMasks r' = wildcardSegmentPrefixMasks r \<Longrightarrow> candidate_mask r' path = candidate_mask r path"
  by (simp add: candidate_mask_def)

text \<open>
  A registration of the kind \<open>kind\<close>: \<open>r1\<close> is the router with the route in its container, and the
  only new matches are those of the new route.
\<close>

lemma index_step:
  assumes "index_sound r" and "\<And>path. candidate_mask r1 path = candidate_mask r path"
    and "\<And>m path. known r1 m path \<Longrightarrow> known r m path \<or> m = m0 \<and> covers path"
    and "\<And>path. covers path \<Longrightarrow> index_covers path0 kind path"
  shows "index_sound (indexRouteFirstSegment m0 path0 kind r1)"
  unfolding index_sound_def
proof (intro allI impI)
  fix m path assume "known (indexRouteFirstSegment m0 path0 kind r1) m path"
  then have "known r1 m path" by (simp add: known_def)
  then have "known r m path \<or> m = m0 \<and> index_covers path0 kind path" using assms(3,4) by blast
  with assms(1,2) show "has_bit (candidate_mask (indexRouteFirstSegment m0 path0 kind r1) path) m"
    by (auto simp: candidates_index index_sound_def)
qed

lemma star_prefix_match:
  assumes "take (length (star_prefix path0)) path = star_prefix path0"
  shows "index_covers path0 kWildcard path"
proof (cases "star_prefix path0 = [] \<or> hd (star_prefix path0) \<noteq> CHR ''/''")
  case True
  then show ?thesis by (auto simp: index_covers_def)
next
  case False
  then obtain rest where "star_prefix path0 = CHR ''/'' # rest" by (cases "star_prefix path0") auto
  with prefix_first_segment [OF assms this] show ?thesis
    by (cases "find_char (CHR ''/'') rest") (simp_all add: index_covers_def Let_def del: find_char_None)
qed

lemma groups_ok_update_static:
  assumes "groups_ok r"
  shows "groups_ok (r\<lparr>staticRoutes := AList.update (m, path) e (staticRoutes r),
           staticPathMethods := at_key path [] (\<lambda>ms. ms @ [m]) (staticPathMethods r)\<rparr>)"
  using assms by (auto simp: groups_ok_def methods_at_def update_conv' map_of_at_key split: option.splits)

lemma add_route_inv:
  assumes "router_inv r"
  shows "router_inv (add_route m0 path0 h s c r)"
proof -
  have snd: "index_sound r" and grp: "groups_ok r" and ph: "phr_ok r" using assms by (simp_all add: router_inv_def)
  consider (wild) "isWildcardRoute path0" | (param) "\<not> isWildcardRoute path0" "isParamRoute path0"
    | (static) "\<not> isWildcardRoute path0" "\<not> isParamRoute path0" by blast
  then show ?thesis
  proof cases
    case wild
    define we where "we = \<lparr>we_method = m0, we_pattern = path0, we_prefix = star_prefix path0, we_paramName = star_name path0,
                     we_handler = h, we_syncHandler = s, we_compileTimeChain = c\<rparr>"
    define r1 where "r1 = r\<lparr>wildcardRoutesByMethod := at_key m0 [] (\<lambda>es. es @ [we]) (wildcardRoutesByMethod r)\<rparr>"
    have add: "add_route m0 path0 h s c r = indexRouteFirstSegment m0 path0 kWildcard r1"
      using wild by (simp add: add_route_def we_def r1_def)
    have "index_sound (indexRouteFirstSegment m0 path0 kWildcard r1)"
    proof (rule index_step [OF snd, where covers = "prefix_matches we"])
      show "candidate_mask r1 path = candidate_mask r path" for path by (rule candidate_mask_cong) (simp_all add: r1_def)
      show "known r1 m path \<Longrightarrow> known r m path \<or> m = m0 \<and> prefix_matches we path" for m path
        by (auto simp: known_def r1_def entries_for_at_key split: if_splits)
      show "prefix_matches we path \<Longrightarrow> index_covers path0 kWildcard path" for path
        by (simp add: prefix_matches_def we_def star_prefix_match)
    qed
    moreover have "groups_ok (indexRouteFirstSegment m0 path0 kWildcard r1)"
      using grp by (simp add: groups_ok_def methods_at_def r1_def distinct_at_key)
    moreover have "phr_ok (indexRouteFirstSegment m0 path0 kWildcard r1)" using ph by (simp add: phr_ok_def r1_def)
    ultimately show ?thesis by (simp add: router_inv_def add)
  next
    case param
    define pe where "pe = \<lparr>pe_method = m0, pe_path = path0, pe_handler = h, pe_syncHandler = s, pe_compileTimeChain = c\<rparr>"
    define r1 where "r1 = r\<lparr>paramRoutesByMethod := at_key m0 [] (\<lambda>es. es @ [pe]) (paramRoutesByMethod r)\<rparr>"
    have add: "add_route m0 path0 h s c r = indexRouteFirstSegment m0 path0 kParam r1"
      using param by (simp add: add_route_def pe_def r1_def)
    have "index_sound (indexRouteFirstSegment m0 path0 kParam r1)"
    proof (rule index_step [OF snd, where covers = "\<lambda>path. matchParamPath path0 path \<noteq> None"])
      show "candidate_mask r1 path = candidate_mask r path" for path by (rule candidate_mask_cong) (simp_all add: r1_def)
      show "known r1 m path \<Longrightarrow> known r m path \<or> m = m0 \<and> matchParamPath path0 path \<noteq> None" for m path
        by (auto simp: known_def r1_def pe_def entries_for_at_key split: if_splits)
      show "matchParamPath path0 path \<noteq> None \<Longrightarrow> index_covers path0 kParam path" for path
        using match_first_segment [OF _ param(2)] by (auto simp: index_covers_def)
    qed
    moreover have "groups_ok (indexRouteFirstSegment m0 path0 kParam r1)"
      using grp by (simp add: groups_ok_def methods_at_def r1_def distinct_at_key)
    moreover have "phr_ok (indexRouteFirstSegment m0 path0 kParam r1)" using ph by (simp add: phr_ok_def r1_def)
    ultimately show ?thesis by (simp add: router_inv_def add)
  next
    case static
    define re where "re = \<lparr>re_asyncHandler = h, re_syncHandler = s, re_compileTimeChain = c\<rparr>"
    define r1 where "r1 = r\<lparr>staticRoutes := AList.update (m0, path0) re (staticRoutes r),
        staticPathMethods := at_key path0 [] (\<lambda>ms. ms @ [m0]) (staticPathMethods r)\<rparr>"
    have add: "add_route m0 path0 h s c r = indexRouteFirstSegment m0 path0 kStatic r1"
      using static by (simp add: add_route_def re_def r1_def)
    have "index_sound (indexRouteFirstSegment m0 path0 kStatic r1)"
    proof (rule index_step [OF snd, where covers = "\<lambda>path. path = path0"])
      show "candidate_mask r1 path = candidate_mask r path" for path by (rule candidate_mask_cong) (simp_all add: r1_def)
      show "known r1 m path \<Longrightarrow> known r m path \<or> m = m0 \<and> path = path0" for m path
        by (auto simp: known_def r1_def update_conv' split: if_splits)
      show "path = path0 \<Longrightarrow> index_covers path0 kStatic path" for path by (simp add: index_covers_def)
    qed
    moreover have "groups_ok (indexRouteFirstSegment m0 path0 kStatic r1)"
      using groups_ok_update_static [OF grp, where m = m0 and path = path0 and e = re] by (simp add: groups_ok_def methods_at_def r1_def)
    moreover have "phr_ok (indexRouteFirstSegment m0 path0 kStatic r1)"
      using ph by (auto simp: phr_ok_def r1_def update_conv')
    ultimately show ?thesis by (simp add: router_inv_def add)
  qed
qed

lemma add_route_static: "map_of (staticRoutes r) k \<noteq> None \<Longrightarrow> map_of (staticRoutes (add_route m p h s c r)) k \<noteq> None"
  by (simp add: add_route_def Let_def update_conv')

section \<open>The perfect hash\<close>

lemma collect_entries_exact:
  assumes "ph_valid (buildFromKeys keys)" and "length em = length keys" and "i < length keys"
  shows "length (collect_entries (buildFromKeys keys) ks em) = length keys
    \<and> collect_entries (buildFromKeys keys) ks em ! i = (if keys ! i \<in> set ks then Some (keys ! i) else em ! i)"
  using assms(2,3)
proof (induction ks arbitrary: em)
  case Nil
  then show ?case by (simp add: collect_entries_def)
next
  case (Cons k ks)
  let ?t = "buildFromKeys keys"
  define em1 where "em1 = (case ph_lookup ?t (fst k) (snd k) of
      Some idx \<Rightarrow> if idx < length em then em[idx := Some k] else em | None \<Rightarrow> em)"
  have fold: "collect_entries ?t (k # ks) em = collect_entries ?t ks em1" by (simp add: collect_entries_def em1_def)
  have len: "length em1 = length keys" using Cons.prems by (simp add: em1_def split: option.split)
  have at: "em1 ! i = (if keys ! i = k then Some k else em ! i)"
  proof (cases "ph_lookup ?t (fst k) (snd k)")
    case None
    then have "keys ! i \<noteq> k" using ph_lookup_valid(4) [OF assms(1), of "fst k" "snd k" i] Cons.prems(2) by auto
    with None show ?thesis by (simp add: em1_def)
  next
    case (Some idx)
    then have idx: "idx < length keys" "keys ! idx = k"
      using ph_lookup_valid(4) [OF assms(1), of "fst k" "snd k" idx] by auto
    have "keys ! i = k \<longleftrightarrow> i = idx"
      using nth_eq_iff_index_eq [OF ph_lookup_valid(1) [OF assms(1)] Cons.prems(2) idx(1)] idx(2) by simp
    with Some idx Cons.prems show ?thesis by (auto simp: em1_def)
  qed
  from Cons.IH [OF len Cons.prems(2)] at show ?case by (auto simp: fold)
qed

lemma setPerfectHashLookup_inv:
  assumes "router_inv r" and "ph_valid (buildFromKeys keys)" and "\<forall>k \<in> set keys. map_of (staticRoutes r) k \<noteq> None"
  shows "router_inv (setPerfectHashLookup (buildFromKeys keys) r)"
proof -
  let ?t = "buildFromKeys keys"
  have kc: "keyCount ?t = length keys" using ph_lookup_valid(2) [OF assms(2)] by (simp add: keyCount_def)
  have mem: "k \<in> set (map fst (staticRoutes r))" if "k \<in> set keys" for k
    using assms(3) that by (force simp: map_of_eq_None_iff)
  have ne: "keys \<noteq> []" using assms(2) by (auto simp: buildFromKeys_def ph_valid_def ph_empty_def)
  note ce = collect_entries_exact [OF assms(2), of "replicate (length keys) None" _ "map fst (staticRoutes r)"]
  have "phr_ok (setPerfectHashLookup ?t r)"
    unfolding phr_ok_def
  proof (intro impI exI [of _ keys] conjI allI)
    show "length (phrEntryMap (setPerfectHashLookup ?t r)) = length keys"
      using ce [of 0] ne by (simp add: setPerfectHashLookup_def kc)
    show "phrEntryMap (setPerfectHashLookup ?t r) ! i = Some (keys ! i)" if "i < length keys" for i
      using ce [of i] that mem [OF nth_mem [OF that]] by (simp add: setPerfectHashLookup_def kc)
    show "map_of (staticRoutes (setPerfectHashLookup ?t r)) (keys ! i) \<noteq> None" if "i < length keys" for i
      using assms(3) that by (simp add: setPerfectHashLookup_def)
  qed (simp add: setPerfectHashLookup_def)
  moreover have "index_sound (setPerfectHashLookup ?t r)" "groups_ok (setPerfectHashLookup ?t r)"
    using assms(1) by (simp_all add: router_inv_def index_sound_def known_def candidate_mask_def groups_ok_def
        methods_at_def setPerfectHashLookup_def)
  ultimately show ?thesis by (simp add: router_inv_def)
qed

section \<open>The routers that registration builds\<close>

inductive router_built :: "('h, 'c) Router \<Rightarrow> bool" where
  rb_new: "router_built new_router"
| rb_async: "router_built r \<Longrightarrow> router_built (route_async m path h r)"
| rb_sync: "router_built r \<Longrightarrow> router_built (route_sync m path h r)"
| rb_chain: "router_built r \<Longrightarrow> router_built (compileTimeRoute m path h r)"
| rb_table: "router_built r \<Longrightarrow> router_built (registerRoutes table r)"
| rb_ws: "router_built r \<Longrightarrow> router_built (router_ws_options path opts a b c r)"
| rb_ws_typed: "router_built r \<Longrightarrow> router_built (router_ws_typed_options path opts a b c r)"
| rb_sse: "router_built r \<Longrightarrow> router_built (router_sse path a r)"

lemma new_router_inv: "router_inv (new_router :: ('h, 'c) Router)"
  by (simp add: router_inv_def index_sound_def known_def groups_ok_def methods_at_def phr_ok_def new_router_def
      entries_for_def ph_valid_def ph_empty_def)

lemma router_inv_cong:
  assumes "router_inv r" and "staticRoutes r' = staticRoutes r" and "paramRoutesByMethod r' = paramRoutesByMethod r"
    and "wildcardRoutesByMethod r' = wildcardRoutesByMethod r" and "staticPathMethods r' = staticPathMethods r"
    and "firstSegmentMethodMasks r' = firstSegmentMethodMasks r" and "dynamicFirstSegmentMask r' = dynamicFirstSegmentMask r"
    and "wildcardSegmentPrefixMasks r' = wildcardSegmentPrefixMasks r" and "phrLookup r' = phrLookup r"
    and "phrEntryMap r' = phrEntryMap r"
  shows "router_inv r'"
  using assms(1) unfolding router_inv_def index_sound_def known_def groups_ok_def methods_at_def phr_ok_def
    candidate_mask_def assms(2-10) .

lemma registerOneRoute_add:
  "registerOneRoute t r = (case t of (m, path, sync, h) \<Rightarrow>
     add_route m path (if sync then None else Some h) (if sync then Some h else None) None r)"
  by (simp add: registerOneRoute_def route_sync_def route_async_def split: prod.split)

lemma registerAll_simps [simp]:
  "registerAll [] r = r" "registerAll (t # table) r = registerAll table (registerOneRoute t r)"
  by (simp_all add: registerAll_def)

lemma registerAll_inv: "router_inv r \<Longrightarrow> router_inv (registerAll table r)"
  by (induction table arbitrary: r) (auto simp: registerOneRoute_add add_route_inv split: prod.split)

lemma registerOneRoute_keeps:
  "map_of (staticRoutes r) k \<noteq> None \<Longrightarrow> map_of (staticRoutes (registerOneRoute t r)) k \<noteq> None"
proof (cases t)
  case (fields m path sync h)
  assume "map_of (staticRoutes r) k \<noteq> None"
  then show ?thesis unfolding fields registerOneRoute_add prod.case by (rule add_route_static)
qed

lemma collectStaticRouteKeys_Cons:
  "collectStaticRouteKeys ((m, path, sync, h) # table) =
     (if CHR ''{'' \<notin> set path \<and> CHR ''*'' \<notin> set path then [(m, path)] else []) @ collectStaticRouteKeys table"
  by (simp add: collectStaticRouteKeys_def)

lemma registerAll_keeps:
  "map_of (staticRoutes r) k \<noteq> None \<Longrightarrow> map_of (staticRoutes (registerAll table r)) k \<noteq> None"
proof (induction table arbitrary: r)
  case (Cons t table)
  from Cons.IH [OF registerOneRoute_keeps [OF Cons.prems]] show ?case by simp
qed simp

lemma static_key_registered:
  "k \<in> set (collectStaticRouteKeys table) \<Longrightarrow> map_of (staticRoutes (registerAll table r)) k \<noteq> None"
proof (induction table arbitrary: r)
  case Nil
  then show ?case by (simp add: collectStaticRouteKeys_def)
next
  case (Cons t table)
  obtain m path sync h where t: "t = (m, path, sync, h)" by (cases t)
  show ?case
  proof (cases "k \<in> set (collectStaticRouteKeys table)")
    case True
    from Cons.IH [OF this] show ?thesis by simp
  next
    case False
    then have k: "k = (m, path)" "CHR ''{'' \<notin> set path" "CHR ''*'' \<notin> set path"
      using Cons.prems by (auto simp: t collectStaticRouteKeys_Cons split: if_splits)
    then have "find_char (CHR ''*'') path = None" "find_char (CHR ''{'') path = None" by simp_all
    then have "\<not> isWildcardRoute path" "\<not> isParamRoute path"
      by (simp_all add: isWildcardRoute_def isParamRoute_def del: find_char_None)
    then have "map_of (staticRoutes (registerOneRoute t r)) k \<noteq> None"
      by (simp add: registerOneRoute_add t add_route_def k(1) update_conv')
    from registerAll_keeps [OF this] show ?thesis by simp
  qed
qed

lemma registerRoutes_inv: "router_inv r \<Longrightarrow> router_inv (registerRoutes table r)"
  by (simp add: registerRoutes_def Let_def registerAll_inv setPerfectHashLookup_inv static_key_registered)

lemma router_built_inv: "router_built r \<Longrightarrow> router_inv r"
proof (induction rule: router_built.induct)
  case rb_new
  show ?case by (rule new_router_inv)
next
  case (rb_ws r path opts a b c)
  from rb_ws.IH show ?case by (rule router_inv_cong) (simp_all add: router_ws_options_def)
next
  case (rb_ws_typed r path opts a b c)
  from rb_ws_typed.IH show ?case by (rule router_inv_cong) (simp_all add: router_ws_typed_options_def)
next
  case (rb_sse r path a)
  from rb_sse.IH show ?case by (rule router_inv_cong) (simp_all add: router_sse_def)
qed (simp_all add: route_async_def route_sync_def compileTimeRoute_def add_route_inv registerRoutes_inv)

section \<open>The Allow set\<close>

lemma static_allow_bits:
  "has_bit (static_allow r q path a) m \<longleftrightarrow> has_bit a m \<or> m \<noteq> q \<and> m \<in> methods_at r path"
proof -
  have "has_bit (foldl (\<lambda>a m. if m \<noteq> q then a OR methodBit m else a) a ms) m \<longleftrightarrow> has_bit a m \<or> m \<noteq> q \<and> m \<in> set ms" for ms
    by (induction ms arbitrary: a) auto
  then show ?thesis by (simp add: static_allow_def methods_at_def split: option.split)
qed

lemma group_allow_bits:
  assumes "distinct (map fst groups)"
  shows "has_bit (group_allow ot hit groups a) m \<longleftrightarrow> has_bit a m \<or> has_bit ot m \<and> (\<exists>e \<in> set (entries_for m groups). hit e)"
proof -
  have bits: "has_bit (group_allow ot hit gs a) m \<longleftrightarrow>
      has_bit a m \<or> has_bit ot m \<and> (\<exists>es. (m, es) \<in> set gs \<and> list_ex hit es)" for gs
  proof (induction gs arbitrary: a)
    case Nil
    show ?case by (simp add: group_allow_def)
  next
    case (Cons g gs)
    obtain n es where g: "g = (n, es)" by (cases g)
    define a1 where "a1 = (if ot AND methodBit n = 0 then a else if list_ex hit es then a OR methodBit n else a)"
    have a1: "has_bit a1 m \<longleftrightarrow> has_bit a m \<or> m = n \<and> has_bit ot n \<and> list_ex hit es" by (simp add: a1_def and_methodBit)
    have "group_allow ot hit (g # gs) a = group_allow ot hit gs a1" by (simp add: group_allow_def g a1_def)
    with Cons [of a1] a1 show ?case unfolding g by auto
  qed
  have "(\<exists>es. (m, es) \<in> set groups \<and> list_ex hit es) \<longleftrightarrow> (\<exists>e \<in> set (entries_for m groups). hit e)"
  proof (cases "map_of groups m")
    case None
    then have "(m, es) \<notin> set groups" for es by (auto simp: map_of_eq_None_iff image_iff)
    with None show ?thesis by (simp add: entries_for_def)
  next
    case (Some es0)
    then have "(m, es) \<in> set groups \<longleftrightarrow> es = es0" for es
      using map_of_eq_Some_iff [OF assms, of m] by (metis option.inject)
    with Some show ?thesis by (auto simp: entries_for_def list_ex_iff)
  qed
  with bits show ?thesis by simp
qed

lemma allow_mask_bits:
  assumes "router_inv r"
  shows "has_bit (allow_mask r q path) m \<longleftrightarrow> m \<noteq> q \<and> known r m path"
proof -
  let ?ot = "candidate_mask r path AND NOT (methodBit q)"
  have snd: "known r m path \<Longrightarrow> m \<noteq> q \<Longrightarrow> has_bit ?ot m" for m
    using assms by (simp add: router_inv_def index_sound_def)
  have grp: "groups_ok r" using assms by (simp add: router_inv_def)
  show ?thesis
  proof (cases "?ot = 0")
    case True
    then have "\<not> (known r m path \<and> m \<noteq> q)" using snd [of m] by auto
    moreover have "allow_mask r q path = 0" unfolding allow_mask_def Let_def using True by simp
    ultimately show ?thesis by auto
  next
    case False
    then have "allow_mask r q path = group_allow ?ot (\<lambda>e. prefix_matches e path) (wildcardRoutesByMethod r)
             (group_allow ?ot (\<lambda>e. matchParamPath (pe_path e) path \<noteq> None) (paramRoutesByMethod r)
               (static_allow r q path 0))" by (simp add: allow_mask_def Let_def)
    moreover have "m \<in> methods_at r path \<longleftrightarrow> map_of (staticRoutes r) (m, path) \<noteq> None"
      and "distinct (map fst (paramRoutesByMethod r))" and "distinct (map fst (wildcardRoutesByMethod r))"
      using grp by (simp_all add: groups_ok_def)
    ultimately have "has_bit (allow_mask r q path) m \<longleftrightarrow>
        (m \<noteq> q \<and> map_of (staticRoutes r) (m, path) \<noteq> None
         \<or> has_bit ?ot m \<and> (\<exists>e \<in> set (entries_for m (paramRoutesByMethod r)). matchParamPath (pe_path e) path \<noteq> None))
        \<or> has_bit ?ot m \<and> (\<exists>e \<in> set (entries_for m (wildcardRoutesByMethod r)). prefix_matches e path)"
      by (simp only: group_allow_bits static_allow_bits has_bit_simps(1) simp_thms)
    moreover have "has_bit ?ot m \<Longrightarrow> m \<noteq> q" by simp
    ultimately show ?thesis using snd [of m] unfolding known_def by blast
  qed
qed

section \<open>Matching as a plain search\<close>

text \<open>
  The reference: decode the path, look for a static route, then for the first matching parameter
  route, then for the first matching wildcard route of the method; otherwise list the other methods
  that have a matching route. No index and no perfect hash.
\<close>

definition resolve_reference :: "('h, 'c) Router \<Rightarrow> 'v HttpRequest \<Rightarrow> 'h ResolveResult \<times> 'v HttpRequest" where
  "resolve_reference r req =
     (let path = urlDecode (rq_path req); m = rq_method req in
      if segmentCount (rq_path req) > kMaxPathSegments then (no_result\<lparr>pathTooDeep := True\<rparr>, req)
      else case map_of (staticRoutes r) (m, path) of
        Some e \<Rightarrow> (no_result\<lparr>rr_static := Some e\<rparr>, req)
      | None \<Rightarrow> (case find (\<lambda>e. matchParamPath (pe_path e) path \<noteq> None) (entries_for m (paramRoutesByMethod r)) of
          Some e \<Rightarrow> (no_result\<lparr>rr_param := Some e\<rparr>, set_params (the (matchParamPath (pe_path e) path)) req)
        | None \<Rightarrow> (case find (\<lambda>e. prefix_matches e path) (entries_for m (wildcardRoutesByMethod r)) of
            Some e \<Rightarrow> (no_result\<lparr>rr_wildcard := Some e\<rparr>,
              set_params (if we_paramName e \<noteq> [] \<and> length path - length (we_prefix e) \<le> kMaxParamValueLength
                          then [(we_paramName e, drop (length (we_prefix e)) path)] else []) req)
          | None \<Rightarrow> (no_result\<lparr>allowedMethods := join_comma (map httpMethodToString
                      (filter (\<lambda>m'. m' \<noteq> m \<and> known r m' path) kMethods))\<rparr>, req))))"

lemma decoded_path_eq: "decoded_path s = urlDecode s"
proof (cases "needsDecode s")
  case False
  then have "CHR ''%'' \<notin> set s" "CHR ''+'' \<notin> set s" by (force simp: needsDecode_def)+
  then show ?thesis using False by (simp add: decoded_path_def urlDecode_plain)
qed (simp add: decoded_path_def)

lemma find_param_route_find:
  "find_param_route es path =
     map_option (\<lambda>e. (e, the (matchParamPath (pe_path e) path))) (find (\<lambda>e. matchParamPath (pe_path e) path \<noteq> None) es)"
proof (induction es)
  case (Cons e es)
  then show ?case by (cases "matchParamPath (pe_path e) path") simp_all
qed simp

lemma find_wildcard_route_find: "find_wildcard_route es path = find (\<lambda>e. prefix_matches e path) es"
  by (induction es) auto

lemma resolve_tables_reference:
  assumes "router_inv r" and "\<not> segmentCount (rq_path req) > kMaxPathSegments"
  shows "resolve_tables r (urlDecode (rq_path req)) req = resolve_reference r req"
proof -
  let ?path = "urlDecode (rq_path req)"
  have "allowedMethodsFromMask (allow_mask r (rq_method req) ?path)
      = join_comma (map httpMethodToString (filter (\<lambda>m'. m' \<noteq> rq_method req \<and> known r m' ?path) kMethods))"
  proof -
    have "has_bit (allow_mask r (rq_method req) ?path) = (\<lambda>m'. m' \<noteq> rq_method req \<and> known r m' ?path)"
      by (rule ext) (rule allow_mask_bits [OF assms(1)])
    then show ?thesis by (simp add: allowedMethods_join)
  qed
  with assms(2) show ?thesis
    unfolding resolve_tables_def resolve_reference_def Let_def find_param_route_find find_wildcard_route_find
    by (simp add: matchWildcardPath_def Let_def not_less split: option.split)
qed

lemma resolve_is_reference:
  assumes "router_inv r"
  shows "resolveRoute r req = resolve_reference r req"
proof (cases "segmentCount (rq_path req) > kMaxPathSegments")
  case True
  then show ?thesis by (simp add: resolveRoute_def resolve_reference_def)
next
  case False
  let ?path = "urlDecode (rq_path req)"
  note tables = resolve_tables_reference [OF assms False]
  show ?thesis
  proof (cases "ph_valid (phrLookup r)")
    case nv: False
    then show ?thesis using False tables by (simp add: resolveRoute_def decoded_path_eq)
  next
    case valid: True
    then obtain keys where k: "phrLookup r = buildFromKeys keys" "length (phrEntryMap r) = length keys"
      "\<And>i. i < length keys \<Longrightarrow> phrEntryMap r ! i = Some (keys ! i) \<and> map_of (staticRoutes r) (keys ! i) \<noteq> None"
      using assms by (auto simp: router_inv_def phr_ok_def)
    show ?thesis
    proof (cases "ph_lookup (phrLookup r) (rq_method req) ?path")
      case None
      then show ?thesis using False valid tables by (simp add: resolveRoute_def decoded_path_eq)
    next
      case (Some i)
      then have i: "i < length keys" "keys ! i = (rq_method req, ?path)"
        using ph_lookup_valid(4) [of keys "rq_method req" ?path i] valid k(1) by auto
      with k(3) obtain e where e: "map_of (staticRoutes r) (rq_method req, ?path) = Some e" by fastforce
      have "resolveRoute r req = (no_result\<lparr>rr_static := Some e\<rparr>, req)"
        using False valid Some i k e by (simp add: resolveRoute_def decoded_path_eq)
      moreover have "resolve_reference r req = (no_result\<lparr>rr_static := Some e\<rparr>, req)"
        using False e by (simp add: resolve_reference_def)
      ultimately show ?thesis by simp
    qed
  qed
qed

section \<open>Properties\<close>

text \<open>
  C30. Matching with the perfect hash and the first-segment index is the plain search: for every router
  that registration can build, every request is resolved to the static route of its decoded path,
  else to the first matching parameter route, else to the first matching wildcard route of its
  method; and if there is none, the \<open>Allow\<close> text lists, in the order of the enumeration and
  without repetition, exactly the other methods under which some route matches the path.
\<close>

theorem resolve_equals_search:
  assumes "router_built r"
  shows "resolveRoute r req = resolve_reference r req"
  by (rule resolve_is_reference [OF router_built_inv [OF assms]])

definition sample_router :: "(nat, nat) Router" where
  "sample_router = route_sync hPost ''/files*x'' 3 (route_async hPut ''/u/{id}'' 2 (route_async hGet ''/u/7'' 1 new_router))"

theorem resolve_equals_search_witness:
  "allowedMethods (fst (resolveRoute sample_router (setTarget ''/u/7'' (setMethod hDelete new_request) :: nat HttpRequest)))
     = ''GET, PUT''"
proof -
  let ?q = "setTarget ''/u/7'' (setMethod hDelete new_request) :: nat HttpRequest"
  have "router_built sample_router" unfolding sample_router_def by (intro router_built.intros)
  from resolve_equals_search [OF this, of ?q] have "resolveRoute sample_router ?q = resolve_reference sample_router ?q" .
  moreover have "allowedMethods (fst (resolve_reference sample_router ?q)) = ''GET, PUT''"
    by code_simp
  ultimately show ?thesis by simp
qed

text \<open>
  A parameter pattern matches a path exactly if both have the same number of segments, at most 32,
  each segment of the pattern is either a parameter, which takes any segment of at most 1024
  bytes, or equal to the segment of the path; the captures are the parameter segments in order.
\<close>

theorem param_match_segments:
  "matchParamPath pattern path =
     (let ps = segments (drop_slash pattern); ss = segments (drop_slash path) in
      if list_all2 seg_match ps ss \<and> length ss \<le> kMaxPathSegments then Some (captures ps ss) else None)"
  by (auto simp: matchParamPath_def match_segments_spec Let_def kMaxPathSegments_def)

text \<open>
  The synchronous dispatch never disagrees with the general one: whenever it handles a request, the
  general dispatch gives the same outcome on the same state, and it declines exactly when the
  matched entry has a compile-time chain or no synchronous handler, or when nothing matched.
\<close>

theorem dispatch_sync_agrees:
  "case dispatchSync r req st of
     Some out \<Rightarrow> dispatch r req st = out
   | None \<Rightarrow> (let x = fst (resolveRoute r req) in
       \<not> pathTooDeep x
       \<and> (case rr_static x of
            Some e \<Rightarrow> re_compileTimeChain e \<noteq> None \<or> re_syncHandler e = None
          | None \<Rightarrow> (case rr_param x of
              Some e \<Rightarrow> pe_compileTimeChain e \<noteq> None \<or> pe_syncHandler e = None
            | None \<Rightarrow> (case rr_wildcard x of
                Some e \<Rightarrow> we_compileTimeChain e \<noteq> None \<or> we_syncHandler e = None
              | None \<Rightarrow> True))))"
proof -
  obtain x req1 where x: "resolveRoute r req = (x, req1)" by (cases "resolveRoute r req")
  have entry: "call_sync c s q t = Some out \<Longrightarrow> call_entry c s a q t = out" for c s a q t out
    by (auto simp: call_sync_def call_entry_def split: if_splits)
  have decline: "call_sync c s q t = None \<longleftrightarrow> c \<noteq> None \<or> s = None" for c s :: "('v, 's) handler option" and q t
    by (simp add: call_sync_def)
  show ?thesis
    unfolding dispatchSync_def dispatch_def x Let_def prod.case fst_conv dispatchSyncResolved_def dispatchResolved_def
    by (auto simp: decline entry split: option.splits if_splits)
qed

definition sample_handler :: "(nat, nat) handler" where
  "sample_handler req st = (Inr (ok_text ''hi''), req, Suc st)"

theorem dispatch_sync_agrees_witness:
  "dispatch (route_sync hGet ''/a'' sample_handler new_router :: ((nat, nat) handler, nat) Router)
     (setTarget ''/a'' (setMethod hGet new_request)) 0
   = (Inr (ok_text ''hi''), setTarget ''/a'' (setMethod hGet new_request), 1)"
proof -
  let ?r = "route_sync hGet ''/a'' sample_handler new_router :: ((nat, nat) handler, nat) Router"
  let ?q = "setTarget ''/a'' (setMethod hGet new_request) :: nat HttpRequest"
  have "resolveRoute ?r ?q = resolve_reference ?r ?q"
    by (rule resolve_is_reference) (intro router_built_inv router_built.intros)
  also have "\<dots> = (no_result\<lparr>rr_static := Some \<lparr>re_asyncHandler = None, re_syncHandler = Some sample_handler,
      re_compileTimeChain = None\<rparr>\<rparr>, ?q)"
    by (simp add: resolve_reference_def rq_path_def setTarget_def setMethod_def route_sync_def add_route_def
        isWildcardRoute_def isParamRoute_def new_router_def segmentCount_def kMaxPathSegments_def)
  finally have "dispatchSync ?r ?q 0 = Some (sample_handler ?q 0)"
    by (simp add: dispatchSync_def dispatchSyncResolved_def no_result_def call_sync_def call_handler_def)
  with dispatch_sync_agrees [of ?r ?q 0] show ?thesis by (simp add: sample_handler_def)
qed



end
