(* ===== verification/Middleware.thy ===== *)
theory Middleware
  imports Router_Inv
begin

text \<open>
  The middleware pipeline: \<^verbatim>\<open>src/src/core/Middleware.h\<close> and \<^verbatim>\<open>Middleware.cpp\<close>, built without the profiling
  option. A chain is a function on a state \<open>'q\<close>, the request together with whatever else the
  handlers change, that gives a response \<open>'r\<close> or throws; a coroutine is its run to completion.
\<close>

section \<open>Types\<close>

type_synonym ('q, 'r) chain = "'q \<Rightarrow> (string + 'r) \<times> 'q"
type_synonym ('q, 'r) async_handler = "('q, 'r) chain \<Rightarrow> ('q, 'r) chain"
type_synonym ('q, 'r) before_handler = "'q \<Rightarrow> (string + 'r option) \<times> 'q"
type_synonym ('q, 'r) after_handler = "'q \<Rightarrow> 'r \<Rightarrow> (string + 'r) \<times> 'q"

datatype MwType = hAsync | hSync

record ('q, 'r) MiddlewareEntry =
  mw_type :: MwType
  mw_name :: string
  mw_async :: "('q, 'r) async_handler option"
  mw_before :: "('q, 'r) before_handler option"
  mw_after :: "('q, 'r) after_handler option"
  mw_needsBody :: bool

record ('q, 'r) Pipeline =
  mw_entries :: "('q, 'r) MiddlewareEntry list"
  cachedChain :: "('q, 'r) chain option"

definition new_pipeline :: "('q, 'r) Pipeline" where
  "new_pipeline = \<lparr>mw_entries = [], cachedChain = None\<rparr>"

section \<open>The body gate\<close>

text \<open>
  \<open>slot q\<close> is the \<open>readBody\<close> function of the request's dispatch context, \<open>None\<close> if there is no context
  or no such function; it may answer with an error response.
\<close>

type_synonym ('q, 'r) body_slot = "'q \<Rightarrow> ('q \<Rightarrow> (string + 'r option) \<times> 'q) option"

definition bodyGate :: "('q, 'r) body_slot \<Rightarrow> ('q, 'r) async_handler" where
  "bodyGate slot nxt q =
     (case slot q of
        Some readBody \<Rightarrow>
          (case readBody q of
             (Inl ex, q1) \<Rightarrow> (Inl ex, q1)
           | (Inr (Some err), q1) \<Rightarrow> (Inr err, q1)
           | (Inr None, q1) \<Rightarrow> nxt q1)
      | None \<Rightarrow> nxt q)"

definition gate_entry :: "('q, 'r) body_slot \<Rightarrow> ('q, 'r) MiddlewareEntry" where
  "gate_entry slot = \<lparr>mw_type = hAsync, mw_name = ''body_gate'', mw_async = Some (bodyGate slot),
     mw_before = None, mw_after = None, mw_needsBody = False\<rparr>"

fun first_needing :: "nat \<Rightarrow> ('q, 'r) MiddlewareEntry list \<Rightarrow> nat" where
  "first_needing i [] = i"
| "first_needing i (e # es) = (if mw_needsBody e then i else first_needing (Suc i) es)"

definition withBodyGate ::
  "('q, 'r) body_slot \<Rightarrow> ('q, 'r) MiddlewareEntry list \<Rightarrow> ('q, 'r) MiddlewareEntry list option" where
  "withBodyGate slot entries =
     (let firstNeedsBody = first_needing 0 entries in
      if firstNeedsBody = length entries then None
      else Some (take firstNeedsBody entries @ [gate_entry slot] @ drop firstNeedsBody entries))"

section \<open>Building a chain\<close>

definition call_async :: "('q, 'r) async_handler option \<Rightarrow> ('q, 'r) chain \<Rightarrow> ('q, 'r) chain" where
  "call_async h nxt q = (case h of Some mw \<Rightarrow> mw nxt q | None \<Rightarrow> (Inl ''bad_function_call'', q))"

text \<open>\<open>buildChainFrom\<close> wraps from the last middleware to the first.\<close>

definition buildChainFrom :: "('q, 'r) async_handler option list \<Rightarrow> ('q, 'r) chain \<Rightarrow> ('q, 'r) chain" where
  "buildChainFrom mws final =
     (if mws = [] then final else foldl (\<lambda>current mw. call_async mw current) final (rev mws))"

fun run_befores :: "('q, 'r) before_handler list \<Rightarrow> 'q \<Rightarrow> (string + 'r option) \<times> 'q" where
  "run_befores [] q = (Inr None, q)"
| "run_befores (b # bs) q =
     (case b q of
        (Inl ex, q1) \<Rightarrow> (Inl ex, q1)
      | (Inr (Some res), q1) \<Rightarrow> (Inr (Some res), q1)
      | (Inr None, q1) \<Rightarrow> run_befores bs q1)"

text \<open>The list is the one to run in order, the registration order reversed.\<close>

fun run_afters :: "('q, 'r) after_handler list \<Rightarrow> 'q \<Rightarrow> 'r \<Rightarrow> (string + 'r) \<times> 'q" where
  "run_afters [] q res = (Inr res, q)"
| "run_afters (a # as) q res =
     (case a q res of (Inl ex, q1) \<Rightarrow> (Inl ex, q1) | (Inr res1, q1) \<Rightarrow> run_afters as q1 res1)"

text \<open>The single coroutine a run of synchronous entries is merged into.\<close>

definition merged_layer ::
  "('q, 'r) before_handler list \<Rightarrow> ('q, 'r) after_handler list \<Rightarrow> ('q, 'r) chain \<Rightarrow> ('q, 'r) chain" where
  "merged_layer befores afters nxt q =
     (case run_befores befores q of
        (Inl ex, q1) \<Rightarrow> (Inl ex, q1)
      | (Inr (Some res), q1) \<Rightarrow> (Inr res, q1)
      | (Inr None, q1) \<Rightarrow>
         (case nxt q1 of
            (Inl ex, q2) \<Rightarrow> (Inl ex, q2)
          | (Inr res, q2) \<Rightarrow> run_afters (rev afters) q2 res))"

definition befores_of :: "('q, 'r) MiddlewareEntry list \<Rightarrow> ('q, 'r) before_handler list" where
  "befores_of es = List.map_filter mw_before es"

definition afters_of :: "('q, 'r) MiddlewareEntry list \<Rightarrow> ('q, 'r) after_handler list" where
  "afters_of es = List.map_filter mw_after es"

text \<open>\<open>while (i >= 0 && entries[i].type == hSync) --i\<close>, on \<open>n = i + 1\<close>.\<close>

fun sync_start :: "('q, 'r) MiddlewareEntry list \<Rightarrow> nat \<Rightarrow> nat" where
  "sync_start es 0 = 0"
| "sync_start es (Suc i) = (if mw_type (es ! i) = hSync then sync_start es i else Suc i)"

lemma sync_start_le: "sync_start es n \<le> n"
  by (induction es n rule: sync_start.induct) auto

text \<open>The backward loop of \<open>buildOptimizedChain\<close>, with \<open>n = i + 1\<close>.\<close>

function build_loop :: "('q, 'r) MiddlewareEntry list \<Rightarrow> nat \<Rightarrow> ('q, 'r) chain \<Rightarrow> ('q, 'r) chain" where
  "build_loop es 0 current = current"
| "build_loop es (Suc i) current =
     (if mw_type (es ! i) = hAsync then build_loop es i (call_async (mw_async (es ! i)) current)
      else let syncStart = sync_start es (Suc i);
               run = take (Suc i - syncStart) (drop syncStart es)
           in build_loop es syncStart (merged_layer (befores_of run) (afters_of run) current))"
  by pat_completeness auto
termination
proof (relation "measure (\<lambda>(_, n, _). n)")
  fix es :: "('q, 'r) MiddlewareEntry list" and i current x xa
  assume "mw_type (es ! i) \<noteq> hAsync" and "x = sync_start es (Suc i)"
  then have "x \<le> i" using sync_start_le [of es i] by (cases "mw_type (es ! i)") auto
  then show "((es, x, merged_layer (befores_of xa) (afters_of xa) current), (es, Suc i, current)) \<in> measure (\<lambda>(_, n, _). n)"
    by simp
qed auto

definition buildOptimizedChain ::
  "('q, 'r) body_slot \<Rightarrow> ('q, 'r) MiddlewareEntry list \<Rightarrow> ('q, 'r) chain \<Rightarrow> ('q, 'r) chain" where
  "buildOptimizedChain slot entries final =
     (let chainEntries = (case withBodyGate slot entries of Some gated \<Rightarrow> gated | None \<Rightarrow> entries) in
      if chainEntries = [] then final
      else if \<not> list_ex (\<lambda>e. mw_type e = hSync) chainEntries
      then buildChainFrom (map mw_async chainEntries) final
      else build_loop chainEntries (length chainEntries) final)"

section \<open>The pipeline\<close>

definition add_entry :: "string \<Rightarrow> ('q, 'r) MiddlewareEntry \<Rightarrow> ('q, 'r) Pipeline \<Rightarrow> string + ('q, 'r) Pipeline" where
  "add_entry what e p =
     (if cachedChain p \<noteq> None then Inl (what @ '': cannot add middleware after build()'')
      else Inr (p\<lparr>mw_entries := mw_entries p @ [e]\<rparr>))"

definition async_entry :: "string \<Rightarrow> ('q, 'r) async_handler option \<Rightarrow> bool \<Rightarrow> ('q, 'r) MiddlewareEntry" where
  "async_entry name h nb =
     \<lparr>mw_type = hAsync, mw_name = name, mw_async = h, mw_before = None, mw_after = None, mw_needsBody = nb\<rparr>"

definition sync_entry ::
  "string \<Rightarrow> ('q, 'r) before_handler option \<Rightarrow> ('q, 'r) after_handler option \<Rightarrow> bool \<Rightarrow> ('q, 'r) MiddlewareEntry" where
  "sync_entry name b a nb =
     \<lparr>mw_type = hSync, mw_name = name, mw_async = None, mw_before = b, mw_after = a, mw_needsBody = nb\<rparr>"

definition numbered :: "string \<Rightarrow> ('q, 'r) Pipeline \<Rightarrow> string" where
  "numbered stem p = stem @ to_chars 10 (length (mw_entries p))"

definition use_async :: "('q, 'r) async_handler option \<Rightarrow> ('q, 'r) Pipeline \<Rightarrow> string + ('q, 'r) Pipeline" where
  "use_async h p = add_entry ''MiddlewarePipeline::use'' (async_entry (numbered ''middleware_'' p) h False) p"

definition use_named_async :: "string \<Rightarrow> ('q, 'r) async_handler option \<Rightarrow> ('q, 'r) Pipeline \<Rightarrow> string + ('q, 'r) Pipeline" where
  "use_named_async name h p = add_entry ''MiddlewarePipeline::use'' (async_entry name h False) p"

definition use_before :: "('q, 'r) before_handler option \<Rightarrow> ('q, 'r) Pipeline \<Rightarrow> string + ('q, 'r) Pipeline" where
  "use_before b p = add_entry ''MiddlewarePipeline::use'' (sync_entry (numbered ''sync_middleware_'' p) b None False) p"

definition use_sync ::
  "('q, 'r) before_handler option \<Rightarrow> ('q, 'r) after_handler option \<Rightarrow> ('q, 'r) Pipeline \<Rightarrow> string + ('q, 'r) Pipeline" where
  "use_sync b a p = add_entry ''MiddlewarePipeline::use'' (sync_entry (numbered ''sync_middleware_'' p) b a False) p"

definition use_named_sync ::
  "string \<Rightarrow> ('q, 'r) before_handler option \<Rightarrow> ('q, 'r) after_handler option \<Rightarrow> ('q, 'r) Pipeline \<Rightarrow> string + ('q, 'r) Pipeline" where
  "use_named_sync name b a p = add_entry ''MiddlewarePipeline::use'' (sync_entry name b a False) p"

definition use_after :: "('q, 'r) after_handler option \<Rightarrow> ('q, 'r) Pipeline \<Rightarrow> string + ('q, 'r) Pipeline" where
  "use_after a p = add_entry ''MiddlewarePipeline::use'' (sync_entry (numbered ''sync_middleware_'' p) None a False) p"

definition use_named_after :: "string \<Rightarrow> ('q, 'r) after_handler option \<Rightarrow> ('q, 'r) Pipeline \<Rightarrow> string + ('q, 'r) Pipeline" where
  "use_named_after name a p = add_entry ''MiddlewarePipeline::use'' (sync_entry name None a False) p"

definition useBody_async :: "('q, 'r) async_handler option \<Rightarrow> ('q, 'r) Pipeline \<Rightarrow> string + ('q, 'r) Pipeline" where
  "useBody_async h p = add_entry ''MiddlewarePipeline::useBody'' (async_entry (numbered ''middleware_'' p) h True) p"

definition useBody_named_async :: "string \<Rightarrow> ('q, 'r) async_handler option \<Rightarrow> ('q, 'r) Pipeline \<Rightarrow> string + ('q, 'r) Pipeline" where
  "useBody_named_async name h p = add_entry ''MiddlewarePipeline::useBody'' (async_entry name h True) p"

definition useBody_sync ::
  "('q, 'r) before_handler option \<Rightarrow> ('q, 'r) after_handler option \<Rightarrow> ('q, 'r) Pipeline \<Rightarrow> string + ('q, 'r) Pipeline" where
  "useBody_sync b a p = add_entry ''MiddlewarePipeline::useBody'' (sync_entry (numbered ''sync_middleware_'' p) b a True) p"

definition useBody_named_sync ::
  "string \<Rightarrow> ('q, 'r) before_handler option \<Rightarrow> ('q, 'r) after_handler option \<Rightarrow> ('q, 'r) Pipeline \<Rightarrow> string + ('q, 'r) Pipeline" where
  "useBody_named_sync name b a p = add_entry ''MiddlewarePipeline::useBody'' (sync_entry name b a True) p"

definition pipeline_build :: "('q, 'r) body_slot \<Rightarrow> ('q, 'r) chain \<Rightarrow> ('q, 'r) Pipeline \<Rightarrow> string + ('q, 'r) Pipeline" where
  "pipeline_build slot final p =
     (if cachedChain p \<noteq> None then Inl ''MiddlewarePipeline::build: already built''
      else Inr (p\<lparr>cachedChain := Some (buildOptimizedChain slot (mw_entries p) final)\<rparr>))"

definition execute :: "('q, 'r) Pipeline \<Rightarrow> ('q, 'r) chain" where
  "execute p q =
     (case cachedChain p of None \<Rightarrow> (Inl ''MiddlewarePipeline::execute: must call build() first'', q) | Some c \<Rightarrow> c q)"

definition execute_with :: "('q, 'r) body_slot \<Rightarrow> ('q, 'r) Pipeline \<Rightarrow> ('q, 'r) chain \<Rightarrow> ('q, 'r) chain" where
  "execute_with slot p final q = buildOptimizedChain slot (mw_entries p) final q"

definition buildFor :: "('q, 'r) body_slot \<Rightarrow> ('q, 'r) Pipeline \<Rightarrow> ('q, 'r) chain \<Rightarrow> ('q, 'r) chain" where
  "buildFor slot p final = buildOptimizedChain slot (mw_entries p) final"

definition pipeline_size :: "('q, 'r) Pipeline \<Rightarrow> nat" where
  "pipeline_size p = length (mw_entries p)"

section \<open>The chain by recursion\<close>

abbreviation is_sync :: "('q, 'r) MiddlewareEntry \<Rightarrow> bool" where
  "is_sync e \<equiv> mw_type e = hSync"

definition merge_run :: "('q, 'r) MiddlewareEntry list \<Rightarrow> ('q, 'r) chain \<Rightarrow> ('q, 'r) chain" where
  "merge_run es = merged_layer (befores_of es) (afters_of es)"

function chain_of :: "('q, 'r) MiddlewareEntry list \<Rightarrow> ('q, 'r) chain \<Rightarrow> ('q, 'r) chain" where
  "chain_of [] final = final"
| "chain_of (e # es) final =
     (if is_sync e then merge_run (e # takeWhile is_sync es) (chain_of (dropWhile is_sync es) final)
      else call_async (mw_async e) (chain_of es final))"
  by pat_completeness auto
termination by (relation "measure (length \<circ> fst)") (auto simp: length_dropWhile_le less_Suc_eq_le)

lemma chain_of_snoc_async: "\<not> is_sync e \<Longrightarrow> chain_of (xs @ [e]) c = chain_of xs (call_async (mw_async e) c)"
proof (induction xs c rule: chain_of.induct)
  case (2 x xs c)
  have tw: "takeWhile is_sync (xs @ [e]) = takeWhile is_sync xs"
    using 2(3) by (induction xs) auto
  have dw: "dropWhile is_sync (xs @ [e]) = dropWhile is_sync xs @ [e]"
    using 2(3) by (induction xs) auto
  show ?case
  proof (cases "is_sync x")
    case True
    then show ?thesis using 2(1) [OF True 2(3)] by (simp add: tw dw)
  next
    case False
    then show ?thesis using 2(2) [OF False 2(3)] by simp
  qed
qed simp

lemma chain_of_snoc_run:
  assumes "list_all is_sync run" and "run \<noteq> []" and "xs = [] \<or> \<not> is_sync (last xs)"
  shows "chain_of (xs @ run) c = chain_of xs (merge_run run c)"
  using assms
proof (induction xs c rule: chain_of.induct)
  case (1 c)
  then obtain r rs where run: "run = r # rs" by (cases run) auto
  have all: "\<forall>x \<in> set rs. is_sync x" using 1(1) run by (simp add: list_all_iff)
  then have tw: "takeWhile is_sync rs = rs" by (simp only: takeWhile_eq_all_conv)
  have dw: "dropWhile is_sync rs = []" using all by (simp only: dropWhile_eq_Nil_conv)
  have "chain_of (r # rs) c = merge_run (r # takeWhile is_sync rs) (chain_of (dropWhile is_sync rs) c)"
    using 1(1) run by simp
  then show ?case unfolding run tw dw by simp
next
  case (2 x xs c)
  show ?case
  proof (cases "is_sync x")
    case False
    have "xs = [] \<or> \<not> is_sync (last xs)" using 2(5) by (auto split: if_splits)
    from 2(2) [OF False 2(3,4) this] False show ?thesis by simp
  next
    case True
    then have ne: "xs \<noteq> []" and l: "\<not> is_sync (last xs)" using 2(5) by (auto split: if_splits)
    then have mem: "last xs \<in> set xs" by simp
    have tw: "takeWhile is_sync (xs @ run) = takeWhile is_sync xs" using mem l by (intro takeWhile_append1)
    have dw: "dropWhile is_sync (xs @ run) = dropWhile is_sync xs @ run" using mem l by (intro dropWhile_append1)
    have "dropWhile is_sync xs \<noteq> []" using mem l by auto
    then have "last (dropWhile is_sync xs) = last xs" by (metis last_appendR takeWhile_dropWhile_id)
    then have "dropWhile is_sync xs = [] \<or> \<not> is_sync (last (dropWhile is_sync xs))" using l by simp
    note ih = 2(1) [OF True 2(3,4) this]
    have "chain_of ((x # xs) @ run) c =
        merge_run (x # takeWhile is_sync (xs @ run)) (chain_of (dropWhile is_sync (xs @ run)) c)" using True by simp
    also have "\<dots> = chain_of (x # xs) (merge_run run c)" unfolding tw dw ih using True by simp
    finally show ?thesis .
  qed
qed

lemma sync_start_run:
  assumes "n \<le> length es"
  shows "list_all is_sync (take (n - sync_start es n) (drop (sync_start es n) es))
    \<and> (sync_start es n = 0 \<or> \<not> is_sync (es ! (sync_start es n - 1)))"
  using assms
proof (induction es n rule: sync_start.induct)
  case (2 es i)
  show ?case
  proof (cases "is_sync (es ! i)")
    case True
    let ?s = "sync_start es i"
    have le: "?s \<le> i" by (rule sync_start_le)
    have "take (Suc i - ?s) (drop ?s es) = take (i - ?s) (drop ?s es) @ [es ! i]"
      using le 2(2) by (simp add: Suc_diff_le take_Suc_conv_app_nth)
    with 2 True show ?thesis by simp
  next
    case False
    then show ?thesis by simp
  qed
qed simp

lemma build_loop_chain_of: "n \<le> length es \<Longrightarrow> build_loop es n c = chain_of (take n es) c"
proof (induction es n c rule: build_loop.induct)
  case (2 es i c)
  show ?case
  proof (cases "mw_type (es ! i)")
    case hAsync
    then have "build_loop es (Suc i) c = chain_of (take i es) (call_async (mw_async (es ! i)) c)" using 2(1,3) by simp
    also have "\<dots> = chain_of (take i es @ [es ! i]) c" using hAsync by (simp add: chain_of_snoc_async)
    finally show ?thesis using 2(3) by (simp add: take_Suc_conv_app_nth)
  next
    case hSync
    define s where "s = sync_start es (Suc i)"
    define run where "run = take (Suc i - s) (drop s es)"
    have si: "s \<le> i" using hSync sync_start_le [of es i] by (simp add: s_def)
    have "build_loop es (Suc i) c = build_loop es s (merged_layer (befores_of run) (afters_of run) c)"
      using hSync by (simp add: s_def run_def Let_def)
    also have "\<dots> = chain_of (take s es) (merge_run run c)"
      using 2(2) [of s run] hSync si 2(3) by (simp add: s_def run_def merge_run_def)
    also have "\<dots> = chain_of (take s es @ run) c"
    proof (rule chain_of_snoc_run [symmetric])
      show "list_all is_sync run" using sync_start_run [OF 2(3)] by (simp add: run_def s_def)
      show "run \<noteq> []" using si 2(3) by (simp add: run_def)
      show "take s es = [] \<or> \<not> is_sync (last (take s es))"
        using conjunct2 [OF sync_start_run [OF 2(3)], folded s_def] si 2(3)
        by (cases "s = 0") (auto simp: last_conv_nth simp del: sync_start.simps)
    qed
    also have "take s es @ run = take (Suc i) es" using si by (simp add: run_def take_add [symmetric])
    finally show ?thesis .
  qed
qed simp

lemma buildChainFrom_chain_of:
  "\<forall>e \<in> set es. \<not> is_sync e \<Longrightarrow> buildChainFrom (map mw_async es) c = chain_of es c"
proof -
  have "foldl (\<lambda>current mw. call_async mw current) c (rev (map mw_async es)) = chain_of es c" if "\<forall>e \<in> set es. \<not> is_sync e"
    using that by (induction es) simp_all
  moreover assume "\<forall>e \<in> set es. \<not> is_sync e"
  ultimately show ?thesis by (simp add: buildChainFrom_def)
qed

text \<open>The entries with the gate in place, as a list function.\<close>

definition gated :: "('q, 'r) body_slot \<Rightarrow> ('q, 'r) MiddlewareEntry list \<Rightarrow> ('q, 'r) MiddlewareEntry list" where
  "gated slot es =
     (if \<exists>e \<in> set es. mw_needsBody e
      then takeWhile (\<lambda>e. \<not> mw_needsBody e) es @ gate_entry slot # dropWhile (\<lambda>e. \<not> mw_needsBody e) es else es)"

lemma first_needing_length: "first_needing i es = i + length (takeWhile (\<lambda>e. \<not> mw_needsBody e) es)"
  by (induction i es rule: first_needing.induct) auto

lemma withBodyGate_gated: "(case withBodyGate slot es of Some g \<Rightarrow> g | None \<Rightarrow> es) = gated slot es"
proof -
  let ?n = "length (takeWhile (\<lambda>e. \<not> mw_needsBody e) es)"
  have len: "?n = length es \<longleftrightarrow> \<not> (\<exists>e \<in> set es. mw_needsBody e)"
  proof
    assume "?n = length es"
    then have "takeWhile (\<lambda>e. \<not> mw_needsBody e) es = es" by (metis take_all takeWhile_eq_take order_refl)
    then show "\<not> (\<exists>e \<in> set es. mw_needsBody e)" unfolding takeWhile_eq_all_conv by blast
  next
    assume "\<not> (\<exists>e \<in> set es. mw_needsBody e)"
    then have "takeWhile (\<lambda>e. \<not> mw_needsBody e) es = es" unfolding takeWhile_eq_all_conv by blast
    then show "?n = length es" by (rule arg_cong)
  qed
  show ?thesis
  proof (cases "\<exists>e \<in> set es. mw_needsBody e")
    case True
    then have "?n \<noteq> length es" using len by blast
    then have "withBodyGate slot es = Some (take ?n es @ [gate_entry slot] @ drop ?n es)"
      by (simp add: withBodyGate_def Let_def first_needing_length)
    then show ?thesis using True
      by (simp add: gated_def takeWhile_eq_take [symmetric] dropWhile_eq_drop [symmetric])
  next
    case False
    then show ?thesis using len by (simp add: withBodyGate_def gated_def Let_def first_needing_length)
  qed
qed

lemma optimized_chain_of: "buildOptimizedChain slot es final = chain_of (gated slot es) final"
proof -
  let ?g = "gated slot es"
  have "buildOptimizedChain slot es final =
      (if ?g = [] then final else if \<not> list_ex is_sync ?g then buildChainFrom (map mw_async ?g) final
       else build_loop ?g (length ?g) final)"
    by (simp add: buildOptimizedChain_def withBodyGate_gated Let_def)
  then show ?thesis
    using build_loop_chain_of [of "length ?g" ?g final]
    by (auto simp: list_ex_iff intro!: buildChainFrom_chain_of)
qed

section \<open>The onion\<close>

text \<open>One layer per entry: the model every middleware is documented by.\<close>

definition layer :: "('q, 'r) MiddlewareEntry \<Rightarrow> ('q, 'r) chain \<Rightarrow> ('q, 'r) chain" where
  "layer e nxt = (if is_sync e then merge_run [e] nxt else call_async (mw_async e) nxt)"

definition onion :: "('q, 'r) MiddlewareEntry list \<Rightarrow> ('q, 'r) chain \<Rightarrow> ('q, 'r) chain" where
  "onion es final = foldr layer es final"

text \<open>
  Merging is exact as long as, in a run of synchronous entries, no entry with a \<open>before\<close> comes after an
  entry with an \<open>after\<close>.
\<close>

fun merge_safe :: "('q, 'r) MiddlewareEntry list \<Rightarrow> bool" where
  "merge_safe [] = True"
| "merge_safe (e # es) \<longleftrightarrow>
     (is_sync e \<and> mw_after e \<noteq> None \<longrightarrow> (\<forall>e' \<in> set (takeWhile is_sync es). mw_before e' = None)) \<and> merge_safe es"

lemma before_after_Cons [simp]:
  "befores_of (e # es) = (case mw_before e of Some b \<Rightarrow> b # befores_of es | None \<Rightarrow> befores_of es)"
  "afters_of (e # es) = (case mw_after e of Some a \<Rightarrow> a # afters_of es | None \<Rightarrow> afters_of es)"
  "befores_of [] = []" "afters_of [] = []"
  by (simp_all add: befores_of_def afters_of_def map_filter_simps split: option.split)

lemma befores_of_none: "\<forall>e \<in> set es. mw_before e = None \<Longrightarrow> befores_of es = []"
  by (induction es) auto

lemma run_afters_append:
  "run_afters (as @ bs) q res =
     (case run_afters as q res of (Inl ex, q1) \<Rightarrow> (Inl ex, q1) | (Inr res1, q1) \<Rightarrow> run_afters bs q1 res1)"
  by (induction as q res rule: run_afters.induct) (auto split: prod.split sum.split)

lemma merged_no_after: "merged_layer [] [] nxt = nxt"
proof
  fix q
  show "merged_layer [] [] nxt q = nxt q"
    by (cases "nxt q") (simp add: merged_layer_def split: sum.split)
qed

lemma merged_before: "merged_layer (b # bs) as nxt = merged_layer [b] [] (merged_layer bs as nxt)"
proof
  fix q
  obtain x q1 where b: "b q = (x, q1)" by (cases "b q")
  show "merged_layer (b # bs) as nxt q = merged_layer [b] [] (merged_layer bs as nxt) q"
  proof (cases x)
    case (Inl ex)
    with b show ?thesis by (simp add: merged_layer_def)
  next
    case (Inr o1)
    show ?thesis
    proof (cases o1)
      case None
      have "merged_layer (b # bs) as nxt q = merged_layer bs as nxt q1"
        using b Inr None by (simp add: merged_layer_def)
      moreover have "merged_layer [b] [] (merged_layer bs as nxt) q = merged_layer [] [] (merged_layer bs as nxt) q1"
        using b Inr None by (simp add: merged_layer_def [of "[b]"] merged_layer_def [of "[]"])
      ultimately show ?thesis by (simp add: merged_no_after)
    next
      case (Some r)
      with b Inr show ?thesis by (simp add: merged_layer_def)
    qed
  qed
qed

lemma merged_after: "merged_layer bs (a # as) nxt = merged_layer bs [a] (merged_layer [] as nxt)"
proof
  fix q
  obtain x q1 where b: "run_befores bs q = (x, q1)" by (cases "run_befores bs q")
  obtain y q2 where n: "nxt q1 = (y, q2)" by (cases "nxt q1")
  show "merged_layer bs (a # as) nxt q = merged_layer bs [a] (merged_layer [] as nxt) q"
  proof (cases x)
    case (Inr o1)
    show ?thesis
    proof (cases o1)
      case None
      show ?thesis
        using b Inr None n by (cases y) (auto simp: merged_layer_def run_afters_append split: prod.split sum.split)
    qed (use b Inr in \<open>simp add: merged_layer_def\<close>)
  qed (use b in \<open>simp add: merged_layer_def\<close>)
qed

lemma merge_run_Cons:
  assumes "mw_after e \<noteq> None \<longrightarrow> (\<forall>e' \<in> set es. mw_before e' = None)"
  shows "merge_run (e # es) nxt = merge_run [e] (merge_run es nxt)"
proof (cases "mw_after e")
  case None
  show ?thesis
  proof (cases "mw_before e")
    case b: None
    show ?thesis using None b by (simp add: merge_run_def merged_no_after)
  next
    case (Some b)
    show ?thesis using None Some merged_before [of b "befores_of es"] by (simp add: merge_run_def)
  qed
next
  case (Some a)
  then have b: "befores_of es = []" using assms by (simp add: befores_of_none)
  show ?thesis
    using Some b merged_after [of _ a "afters_of es" nxt] by (simp add: merge_run_def split: option.split)
qed

lemma merge_run_Nil [simp]: "merge_run [] nxt = nxt"
  by (simp add: merge_run_def merged_no_after)

lemma merge_run_onion:
  assumes "list_all is_sync run" and "merge_safe run"
  shows "merge_run run nxt = foldr layer run nxt"
  using assms
proof (induction run)
  case (Cons e es)
  have tw: "takeWhile is_sync es = es"
    using Cons.prems(1) unfolding takeWhile_eq_all_conv by (simp add: list_all_iff)
  have "mw_after e \<noteq> None \<longrightarrow> (\<forall>e' \<in> set es. mw_before e' = None)"
    using Cons.prems unfolding merge_safe.simps tw by auto
  from merge_run_Cons [OF this] Cons show ?case by (simp add: layer_def)
qed simp

lemma merge_safe_append: "merge_safe (xs @ ys) \<Longrightarrow> merge_safe ys"
  by (induction xs) auto

lemma merge_safe_run: "merge_safe es \<Longrightarrow> merge_safe (takeWhile is_sync es)"
  by (induction es) auto

lemma chain_of_onion: "merge_safe es \<Longrightarrow> chain_of es final = onion es final"
proof (induction es final rule: chain_of.induct)
  case (2 e es final)
  show ?case
  proof (cases "is_sync e")
    case True
    let ?run = "e # takeWhile is_sync es"
    have "list_all is_sync ?run" using True by (auto simp: list_all_iff dest: set_takeWhileD)
    moreover have "merge_safe ?run" using merge_safe_run [OF 2(3)] True by simp
    moreover have "merge_safe (dropWhile is_sync es)"
      using 2(3) merge_safe_append [of "takeWhile is_sync es" "dropWhile is_sync es"] by simp
    ultimately have "chain_of (e # es) final = foldr layer ?run (onion (dropWhile is_sync es) final)"
      using True 2(1) [OF True] by (simp add: merge_run_onion)
    also have "\<dots> = foldr layer (?run @ dropWhile is_sync es) final" by (simp only: onion_def foldr_append)
    finally show ?thesis by (simp add: onion_def)
  next
    case False
    with 2 show ?thesis by (simp add: onion_def layer_def)
  qed
qed (simp add: onion_def)

lemma chain_of_async_split:
  "\<not> is_sync e \<Longrightarrow> chain_of (xs @ e # ys) c = chain_of xs (call_async (mw_async e) (chain_of ys c))"
proof (induction xs c rule: chain_of.induct)
  case (2 x xs c)
  have tw: "takeWhile is_sync (xs @ e # ys) = takeWhile is_sync xs" using 2(3) by (induction xs) auto
  have dw: "dropWhile is_sync (xs @ e # ys) = dropWhile is_sync xs @ e # ys" using 2(3) by (induction xs) auto
  show ?case
  proof (cases "is_sync x")
    case True
    then show ?thesis using 2(1) [OF True 2(3)] by (simp add: tw dw)
  next
    case False
    then show ?thesis using 2(2) [OF False 2(3)] by simp
  qed
qed simp

section \<open>Properties\<close>

text \<open>
  C36. The optimised chain is the onion: merging runs of synchronous middleware into one coroutine
  changes nothing, neither for interception, nor for exceptions, nor for the order of effects,
  as long as no run has a \<open>before\<close> behind an \<open>after\<close>.
\<close>

theorem optimized_chain_is_onion:
  assumes "merge_safe (gated slot es)"
  shows "buildOptimizedChain slot es final = onion (gated slot es) final"
  by (simp only: optimized_chain_of chain_of_onion [OF assms])

definition sample_entries :: "(nat list, nat) MiddlewareEntry list" where
  "sample_entries =
     [sync_entry ''a'' (Some (\<lambda>q. (Inr (if q = [] then Some 0 else None), q @ [1]))) None False,
      sync_entry ''b'' None (Some (\<lambda>q r. (Inr (r + 1), q @ [2]))) False,
      async_entry ''c'' (Some (\<lambda>nxt q. nxt (q @ [3]))) False]"

theorem optimized_chain_is_onion_witness:
  "buildOptimizedChain (\<lambda>_. None) sample_entries (\<lambda>q. (Inr 7, q @ [9])) [5] = (Inr 8, [5, 1, 3, 9, 2])"
proof -
  have "merge_safe (gated (\<lambda>_. None) sample_entries)"
    by (simp add: gated_def sample_entries_def sync_entry_def async_entry_def)
  note optimized_chain_is_onion [OF this, of "\<lambda>q. (Inr 7, q @ [9])"]
  moreover have "onion (gated (\<lambda>_. None) sample_entries) (\<lambda>q. (Inr 7, q @ [9])) [5] = (Inr 8, [5, 1, 3, 9, 2])"
    by (simp add: gated_def sample_entries_def sync_entry_def async_entry_def onion_def layer_def merge_run_def
        merged_layer_def call_async_def)
  ultimately show ?thesis by simp
qed

text \<open>
  C37. The body is read before anything that needs it: a chain with entries that need the body is the
  chain of the entries before the first of them around one gate around the rest; when reading
  fails, the gate answers with the error and nothing behind it, neither a middleware nor the
  handler, takes part in the result. Without such entries no gate is there.
\<close>

theorem body_gate_guards:
  "buildOptimizedChain slot es final =
     (if \<exists>e \<in> set es. mw_needsBody e
      then chain_of (takeWhile (\<lambda>e. \<not> mw_needsBody e) es)
             (bodyGate slot (chain_of (dropWhile (\<lambda>e. \<not> mw_needsBody e) es) final))
      else chain_of es final)
   \<and> (slot q = Some rb \<and> rb q = (Inr (Some err), q1) \<longrightarrow> bodyGate slot nxt q = (Inr err, q1))"
proof -
  have "chain_of (xs @ gate_entry slot # ys) c = chain_of xs (bodyGate slot (chain_of ys c))" for xs ys c
  proof -
    have "call_async (mw_async (gate_entry slot)) d = bodyGate slot d" for d
      by (rule ext) (simp add: call_async_def gate_entry_def)
    moreover have "\<not> is_sync (gate_entry slot)" by (simp add: gate_entry_def)
    ultimately show ?thesis by (simp add: chain_of_async_split)
  qed
  then show ?thesis by (simp add: optimized_chain_of gated_def bodyGate_def)
qed

definition sample_slot :: "(nat, nat) body_slot" where
  "sample_slot q = Some (\<lambda>q. (Inr (Some 413), q + 1))"

theorem body_gate_guards_witness:
  "buildOptimizedChain sample_slot [async_entry ''a'' None True] (\<lambda>q. (Inr 200, q)) 5 = (Inr 413, 6)"
proof -
  let ?c = "chain_of [async_entry ''a'' None True] (\<lambda>q. (Inr 200, q)) :: (nat, nat) chain"
  have "buildOptimizedChain sample_slot [async_entry ''a'' None True] (\<lambda>q. (Inr 200, q)) 5 = bodyGate sample_slot ?c 5
      \<and> bodyGate sample_slot ?c 5 = (Inr 413, 6)"
    using body_gate_guards [of sample_slot "[async_entry ''a'' None True]" "\<lambda>q. (Inr 200, q)" 5
        "\<lambda>q. (Inr (Some 413), q + 1)" 413 6 ?c]
    by (simp add: sample_slot_def async_entry_def)
  then show ?thesis by simp
qed

text \<open>
  The exception the merge makes: with a \<open>before\<close> behind an \<open>after\<close> in one run, an interception by the
  inner entry skips the \<open>after\<close> of the outer one, which the onion would run.
\<close>

lemma merged_intercept_skips_after:
  fixes outer inner :: "(nat list, nat) MiddlewareEntry"
  defines "outer \<equiv> sync_entry ''outer'' None (Some (\<lambda>q r. (Inr r, q @ [1]))) False"
    and "inner \<equiv> sync_entry ''inner'' (Some (\<lambda>q. (Inr (Some 403), q))) None False"
  shows "buildOptimizedChain (\<lambda>_. None) [outer, inner] final [] = (Inr 403, [])"
    and "onion [outer, inner] final [] = (Inr 403, [1])"
  by (simp_all add: optimized_chain_of gated_def outer_def inner_def sync_entry_def onion_def layer_def merge_run_def
      merged_layer_def)

end
