(* ===== verification/Route_Group.thy ===== *)
theory Route_Group
  imports Middleware
begin

text \<open>
  Route groups: \<^verbatim>\<open>src/src/core/RouteGroup.cpp\<close>. A group joins its prefix to the paths of its routes and
  wraps their handlers into its own middleware before registering them with the router.
\<close>

section \<open>Model\<close>

text \<open>A handler of the router as a chain on the request and the application's state, and back.\<close>

type_synonym ('v, 's) req_state = "'v HttpRequest \<times> 's"

definition as_chain :: "('v, 's) handler \<Rightarrow> (('v, 's) req_state, NativeResponse) chain" where
  "as_chain h q = h (fst q) (snd q)"

definition as_handler :: "(('v, 's) req_state, NativeResponse) chain \<Rightarrow> ('v, 's) handler" where
  "as_handler c req st = c (req, st)"

record ('v, 's) RouteGroup =
  rg_prefix :: string
  rg_entries :: "(('v, 's) req_state, NativeResponse) MiddlewareEntry list"

definition new_group ::
  "string \<Rightarrow> (('v, 's) req_state, NativeResponse) async_handler option list \<Rightarrow> ('v, 's) RouteGroup" where
  "new_group prefix mws = \<lparr>rg_prefix = prefix, rg_entries = map (\<lambda>mw. async_entry [] mw False) mws\<rparr>"

definition rg_add :: "(('v, 's) req_state, NativeResponse) MiddlewareEntry \<Rightarrow> ('v, 's) RouteGroup \<Rightarrow> ('v, 's) RouteGroup" where
  "rg_add e g = g\<lparr>rg_entries := rg_entries g @ [e]\<rparr>"

definition rg_use_async :: "(('v, 's) req_state, NativeResponse) async_handler option \<Rightarrow> ('v, 's) RouteGroup \<Rightarrow> ('v, 's) RouteGroup" where
  "rg_use_async mw g = rg_add (async_entry [] mw False) g"

definition rg_use_sync ::
  "(('v, 's) req_state, NativeResponse) before_handler option \<Rightarrow> (('v, 's) req_state, NativeResponse) after_handler option \<Rightarrow>
   ('v, 's) RouteGroup \<Rightarrow> ('v, 's) RouteGroup" where
  "rg_use_sync b a g = rg_add (sync_entry [] b a False) g"

definition rg_useBody_async :: "(('v, 's) req_state, NativeResponse) async_handler option \<Rightarrow> ('v, 's) RouteGroup \<Rightarrow> ('v, 's) RouteGroup" where
  "rg_useBody_async mw g = rg_add (async_entry [] mw True) g"

definition rg_useBody_sync ::
  "(('v, 's) req_state, NativeResponse) before_handler option \<Rightarrow> (('v, 's) req_state, NativeResponse) after_handler option \<Rightarrow>
   ('v, 's) RouteGroup \<Rightarrow> ('v, 's) RouteGroup" where
  "rg_useBody_sync b a g = rg_add (sync_entry [] b a True) g"

definition joinPath :: "string \<Rightarrow> string \<Rightarrow> string" where
  "joinPath prefix path =
     (if prefix = [] then path
      else if path = [] then prefix
      else let prefixEndsSlash = last prefix = CHR ''/''; pathStartsSlash = hd path = CHR ''/'' in
        if prefixEndsSlash \<and> pathStartsSlash then prefix @ tl path
        else if \<not> prefixEndsSlash \<and> \<not> pathStartsSlash then prefix @ ''/'' @ path
        else prefix @ path)"

definition sub_group :: "string \<Rightarrow> ('v, 's) RouteGroup \<Rightarrow> ('v, 's) RouteGroup" where
  "sub_group subPrefix g = \<lparr>rg_prefix = joinPath (rg_prefix g) subPrefix, rg_entries = rg_entries g\<rparr>"

definition wrapHandler ::
  "(('v, 's) req_state, NativeResponse) body_slot \<Rightarrow> ('v, 's) RouteGroup \<Rightarrow> ('v, 's) handler \<Rightarrow> ('v, 's) handler" where
  "wrapHandler slot g h =
     (if rg_entries g = [] then h else as_handler (buildOptimizedChain slot (rg_entries g) (as_chain h)))"

definition rg_route_async ::
  "(('v, 's) req_state, NativeResponse) body_slot \<Rightarrow> HttpMethod \<Rightarrow> string \<Rightarrow> ('v, 's) handler \<Rightarrow>
   ('v, 's) RouteGroup \<Rightarrow> (('v, 's) handler, 'c) Router \<Rightarrow> (('v, 's) handler, 'c) Router" where
  "rg_route_async slot m path h g r = route_async m (joinPath (rg_prefix g) path) (wrapHandler slot g h) r"

text \<open>The two loops of the synchronous fast path, which skip the entries without the part in question.\<close>

fun loop_befores :: "('q, 'r) MiddlewareEntry list \<Rightarrow> 'q \<Rightarrow> (string + 'r option) \<times> 'q" where
  "loop_befores [] q = (Inr None, q)"
| "loop_befores (e # es) q =
     (case mw_before e of
        None \<Rightarrow> loop_befores es q
      | Some b \<Rightarrow> (case b q of
          (Inl ex, q1) \<Rightarrow> (Inl ex, q1)
        | (Inr (Some res), q1) \<Rightarrow> (Inr (Some res), q1)
        | (Inr None, q1) \<Rightarrow> loop_befores es q1))"

fun loop_afters :: "('q, 'r) MiddlewareEntry list \<Rightarrow> 'q \<Rightarrow> 'r \<Rightarrow> (string + 'r) \<times> 'q" where
  "loop_afters [] q res = (Inr res, q)"
| "loop_afters (e # es) q res =
     (case mw_after e of
        None \<Rightarrow> loop_afters es q res
      | Some a \<Rightarrow> (case a q res of (Inl ex, q1) \<Rightarrow> (Inl ex, q1) | (Inr res1, q1) \<Rightarrow> loop_afters es q1 res1))"

definition syncWrapped ::
  "(('v, 's) req_state, NativeResponse) MiddlewareEntry list \<Rightarrow> ('v, 's) handler \<Rightarrow> ('v, 's) handler" where
  "syncWrapped es h req st =
     (case loop_befores es (req, st) of
        (Inl ex, q1) \<Rightarrow> (Inl ex, q1)
      | (Inr (Some res), q1) \<Rightarrow> (Inr res, q1)
      | (Inr None, q1) \<Rightarrow>
         (case h (fst q1) (snd q1) of
            (Inl ex, q2) \<Rightarrow> (Inl ex, q2)
          | (Inr res, q2) \<Rightarrow> loop_afters (rev es) q2 res))"

definition rg_route_sync ::
  "(('v, 's) req_state, NativeResponse) body_slot \<Rightarrow> HttpMethod \<Rightarrow> string \<Rightarrow> ('v, 's) handler \<Rightarrow>
   ('v, 's) RouteGroup \<Rightarrow> (('v, 's) handler, 'c) Router \<Rightarrow> (('v, 's) handler, 'c) Router" where
  "rg_route_sync slot m path h g r =
     (if rg_entries g = [] then route_sync m (joinPath (rg_prefix g) path) h r
      else if list_all (\<lambda>e. mw_type e = hSync) (rg_entries g)
      then route_sync m (joinPath (rg_prefix g) path) (syncWrapped (rg_entries g) h) r
      else rg_route_async slot m path h g r)"

section \<open>The fast path is the merged chain\<close>

lemma loop_befores_run: "loop_befores es q = run_befores (befores_of es) q"
  by (induction es arbitrary: q) (auto split: option.split prod.split sum.split)

lemma loop_afters_run: "loop_afters es q res = run_afters (afters_of es) q res"
  by (induction es arbitrary: q res) (auto split: option.split prod.split sum.split)

lemma afters_of_rev: "afters_of (rev es) = rev (afters_of es)"
proof -
  have "afters_of (xs @ ys) = afters_of xs @ afters_of ys" for xs ys :: "('a, 'b) MiddlewareEntry list"
    by (induction xs) (auto split: option.split)
  then show ?thesis by (induction es) (auto split: option.split)
qed

lemma chain_of_all_sync: "list_all is_sync es \<Longrightarrow> es \<noteq> [] \<Longrightarrow> chain_of es c = merge_run es c"
  using chain_of_snoc_run [of es "[]" c] by simp

lemma syncWrapped_chain:
  assumes "list_all is_sync es" and "es \<noteq> []"
  shows "syncWrapped es h = as_handler (chain_of es (as_chain h))"
proof (intro ext)
  fix req st
  show "syncWrapped es h req st = as_handler (chain_of es (as_chain h)) req st"
    unfolding chain_of_all_sync [OF assms]
    by (simp only: syncWrapped_def as_handler_def merge_run_def merged_layer_def loop_befores_run loop_afters_run
        afters_of_rev as_chain_def)
qed

section \<open>Joining paths\<close>

definition strip_last :: "string \<Rightarrow> string" where
  "strip_last p = (if last p = CHR ''/'' then butlast p else p)"

definition strip_first :: "string \<Rightarrow> string" where
  "strip_first q = (if hd q = CHR ''/'' then tl q else q)"

lemma joinPath_slash:
  assumes "p \<noteq> []" and "q \<noteq> []"
  shows "joinPath p q = strip_last p @ ''/'' @ strip_first q"
proof -
  obtain p' x where p: "p = p' @ [x]" using assms(1) by (cases p rule: rev_cases) auto
  obtain y q' where q: "q = y # q'" using assms(2) by (cases q) auto
  show ?thesis by (auto simp: p q joinPath_def Let_def strip_last_def strip_first_def)
qed

lemma strip_commute: "strip_last q \<noteq> [] \<Longrightarrow> q \<noteq> [] \<Longrightarrow> strip_first q \<noteq> [] \<and> strip_last (strip_first q) = strip_first (strip_last q)"
  by (cases q rule: rev_cases) (auto simp: strip_last_def strip_first_def hd_append butlast_append split: if_splits list.splits)

lemma strip_both: "q \<noteq> [] \<Longrightarrow> strip_last q = [] \<Longrightarrow> q = ''/''"
  by (cases q rule: rev_cases) (auto simp: strip_last_def split: if_splits)

lemma strip_last_append: "t \<noteq> [] \<Longrightarrow> strip_last (s @ t) = s @ strip_last t"
  by (simp add: strip_last_def butlast_append)

lemma strip_first_append: "s \<noteq> [] \<Longrightarrow> strip_first (s @ t) = strip_first s @ t"
  by (simp add: strip_first_def)

lemma joinPath_assoc: "joinPath (joinPath a b) c = joinPath a (joinPath b c)"
proof (cases "a = [] \<or> b = [] \<or> c = []")
  case True
  then show ?thesis by (auto simp: joinPath_def Let_def)
next
  case False
  then have ne: "a \<noteq> []" "b \<noteq> []" "c \<noteq> []" by auto
  have ab: "joinPath a b = strip_last a @ ''/'' @ strip_first b" and bc: "joinPath b c = strip_last b @ ''/'' @ strip_first c"
    using ne by (simp_all add: joinPath_slash)
  have "joinPath (joinPath a b) c = strip_last (joinPath a b) @ ''/'' @ strip_first c"
    using ne by (intro joinPath_slash) (simp_all add: ab)
  moreover have "joinPath a (joinPath b c) = strip_last a @ ''/'' @ strip_first (joinPath b c)"
    using ne by (intro joinPath_slash) (simp_all add: bc)
  moreover have "strip_last (joinPath a b) @ ''/'' @ strip_first c = strip_last a @ ''/'' @ strip_first (joinPath b c)"
  proof (cases "strip_last b = []")
    case True
    then have b: "b = ''/''" using ne strip_both by blast
    then have "joinPath a b = strip_last a @ ''/''" "joinPath b c = ''/'' @ strip_first c"
      unfolding ab bc by (simp_all add: strip_last_def strip_first_def)
    then have "strip_last (joinPath a b) = strip_last a" "strip_first (joinPath b c) = strip_first c"
      by (simp_all add: strip_last_append) (simp_all add: strip_last_def strip_first_def)
    then show ?thesis by simp
  next
    case False
    note sc = strip_commute [OF this ne(2)]
    have "strip_last (joinPath a b) = strip_last a @ ''/'' @ strip_last (strip_first b)"
      using sc strip_last_append [of "strip_first b" "strip_last a @ ''/''"] by (simp add: ab)
    moreover have "strip_first (joinPath b c) = strip_first (strip_last b) @ ''/'' @ strip_first c"
      using False strip_first_append [of "strip_last b"] by (simp add: bc)
    ultimately show ?thesis using sc by simp
  qed
  ultimately show ?thesis by simp
qed

section \<open>Properties\<close>

text \<open>
  Paths join with one slash and nested groups compose: joining a prefix and a path that are both not
  empty puts exactly one slash between what is left of the prefix without its last slash and of
  the path without its first; and a group inside a group registers the same paths as one group
  with the joined prefix.
\<close>

lemma group_paths_compose:
  "joinPath (joinPath a b) c = joinPath a (joinPath b c)
   \<and> (p \<noteq> [] \<and> q \<noteq> [] \<longrightarrow>
        joinPath p q = (if last p = CHR ''/'' then butlast p else p) @ ''/'' @ (if hd q = CHR ''/'' then tl q else q))"
  using joinPath_assoc [of a b c] joinPath_slash [of p q] by (auto simp: strip_last_def strip_first_def)

text \<open>
  The synchronous fast path of a group is the general one: with synchronous middleware only, the
  handler the group registers behaves as the merged chain around the route's handler, and, if no
  entry needs the body, as the wrapped coroutine handler.
\<close>

theorem group_fast_path:
  assumes "list_all is_sync (rg_entries g)" and "rg_entries g \<noteq> []"
  shows "syncWrapped (rg_entries g) h = as_handler (chain_of (rg_entries g) (as_chain h))
    \<and> (list_all (\<lambda>e. \<not> mw_needsBody e) (rg_entries g) \<longrightarrow> syncWrapped (rg_entries g) h = wrapHandler slot g h)"
proof -
  have "list_all (\<lambda>e. \<not> mw_needsBody e) (rg_entries g) \<Longrightarrow> gated slot (rg_entries g) = rg_entries g"
    by (auto simp: gated_def list_all_iff)
  then show ?thesis
    using syncWrapped_chain [OF assms, of h] assms(2) by (simp add: wrapHandler_def optimized_chain_of)
qed

definition sample_group :: "(nat, nat) RouteGroup" where
  "sample_group = rg_use_sync (Some (\<lambda>q. (Inr None, fst q, snd q + 1))) None (new_group ''/api'' [])"

theorem group_fast_path_witness:
  "syncWrapped (rg_entries sample_group) sample_handler = wrapHandler (\<lambda>_. None) sample_group sample_handler"
proof -
  have "list_all is_sync (rg_entries sample_group)" "rg_entries sample_group \<noteq> []"
    "list_all (\<lambda>e. \<not> mw_needsBody e) (rg_entries sample_group)"
    by (simp_all add: sample_group_def rg_use_sync_def rg_add_def new_group_def sync_entry_def)
  with group_fast_path [of sample_group sample_handler "\<lambda>_. None"] show ?thesis by blast
qed

end
