(* ===== verification/Http1_Framing.thy ===== *)
theory Http1_Framing
  imports Text_Parse
begin

text \<open>
  The framing of an HTTP/1.1 request, from \<^verbatim>\<open>src/src/core/HttpSessionImpl.cpp\<close>: the scan over the
  parsed headers, the validation of \<open>Transfer-Encoding\<close>, and the decision whether the request is
  accepted. What decides how many body bytes follow is shown to be unambiguous in every request that
  passes.
\<close>

section \<open>Methods\<close>

definition methodFromStringView :: "string \<Rightarrow> HttpMethod" where
  "methodFromStringView sv =
     (if length sv < 3 then hUnknown
      else if hd sv = CHR ''G'' then (if sv = ''GET'' then hGet else hUnknown)
      else if hd sv = CHR ''P''
      then (if sv = ''POST'' then hPost else if sv = ''PUT'' then hPut else if sv = ''PATCH'' then hPatch else hUnknown)
      else if hd sv = CHR ''D'' then (if sv = ''DELETE'' then hDelete else hUnknown)
      else if hd sv = CHR ''H'' then (if sv = ''HEAD'' then hHead else hUnknown)
      else if hd sv = CHR ''O'' then (if sv = ''OPTIONS'' then hOptions else hUnknown)
      else hUnknown)"

section \<open>Transfer codings\<close>

abbreviation blank :: "char set" where
  "blank \<equiv> {CHR '' '', CHR 0x09}"

datatype TeStatus = TeOk | TeBadRequest | TeNotImplemented

text \<open>The loop of \<open>validateTransferEncoding\<close>; \<open>unsupported\<close> is \<open>unsupportedCoding\<close>.\<close>

function te_loop :: "bool \<Rightarrow> string \<Rightarrow> TeStatus" where
  "te_loop unsupported value =
     (let comma = find_char (CHR '','') value;
          token0 = (case comma of None \<Rightarrow> value | Some n \<Rightarrow> take n value);
          token = trim_set blank token0;
          codingEnd = find_first_of {CHR '' '', CHR 0x09, CHR '';''} token;
          coding = (case codingEnd of None \<Rightarrow> token | Some n \<Rightarrow> take n token)
      in if token = [] then TeBadRequest
         else if iequals coding ''chunked''
         then (if codingEnd \<noteq> None \<or> comma \<noteq> None then TeBadRequest
               else if unsupported then TeNotImplemented else TeOk)
         else (case comma of None \<Rightarrow> TeBadRequest | Some n \<Rightarrow> te_loop True (drop (n + 1) value)))"
  by pat_completeness auto
termination
  by (relation "measure (\<lambda>(u, v). length v)") (auto dest: find_char_Some [OF sym])

declare te_loop.simps [simp del]

definition validateTransferEncoding :: "string \<Rightarrow> TeStatus" where
  "validateTransferEncoding value = te_loop False value"

section \<open>The scan over the headers\<close>

text \<open>A folded line has no name in picohttpparser's output.\<close>

type_synonym phr_headers = "(string option \<times> string) list"

record Scan =
  sc_headers :: RequestHeaders
  sc_contentLength :: nat
  hasContentLength :: bool
  isChunked :: bool
  hasTransferEncoding :: bool
  invalidFraming :: bool
  transferEncodingStatus :: TeStatus
  connectionClose :: bool
  hasConnectionHeader :: bool
  sc_upgrade :: "bool option"
  expectContinue :: bool

definition new_scan :: Scan where
  "new_scan = \<lparr>sc_headers = [], sc_contentLength = 0, hasContentLength = False, isChunked = False,
     hasTransferEncoding = False, invalidFraming = False, transferEncodingStatus = TeOk,
     connectionClose = False, hasConnectionHeader = False, sc_upgrade = None, expectContinue = False\<rparr>"

definition scan_content_length :: "string \<Rightarrow> Scan \<Rightarrow> Scan" where
  "scan_content_length v sc =
     (let parsed = (case from_chars_size v of FcOk n _ \<Rightarrow> n | _ \<Rightarrow> 0);
          whole = (case from_chars_size v of FcOk _ rest \<Rightarrow> rest = [] | _ \<Rightarrow> False)
      in sc\<lparr>invalidFraming := invalidFraming sc \<or> \<not> whole \<or> hasContentLength sc \<and> parsed \<noteq> sc_contentLength sc,
            hasContentLength := True, sc_contentLength := parsed\<rparr>)"

definition scan_connection :: "string \<Rightarrow> Scan \<Rightarrow> Scan" where
  "scan_connection v sc =
     (let sc1 = (if hasConnectionHeader sc then sc else sc\<lparr>sc_upgrade := Some (connectionHasUpgradeToken v)\<rparr>)
      in sc1\<lparr>hasConnectionHeader := True, connectionClose := iequals v ''close''\<rparr>)"

definition scan_transfer_encoding :: "string \<Rightarrow> Scan \<Rightarrow> Scan" where
  "scan_transfer_encoding v sc =
     (let st = validateTransferEncoding v
      in sc\<lparr>invalidFraming := invalidFraming sc \<or> hasTransferEncoding sc, hasTransferEncoding := True,
            transferEncodingStatus := st, isChunked := (st = TeOk)\<rparr>)"

definition scan_header :: "Scan \<Rightarrow> string option \<times> string \<Rightarrow> Scan" where
  "scan_header sc h =
     (case h of
        (None, _) \<Rightarrow> sc\<lparr>invalidFraming := True\<rparr>
      | (Some n, v) \<Rightarrow>
          let sc1 = sc\<lparr>sc_headers := rh_add (sc_headers sc) n v\<rparr>
          in if length n = 14 \<and> (hd n = CHR ''C'' \<or> hd n = CHR ''c'')
             then (if iequals n ''Content-Length'' then scan_content_length v sc1 else sc1)
             else if length n = 10 \<and> (hd n = CHR ''C'' \<or> hd n = CHR ''c'')
             then (if iequals n ''Connection'' then scan_connection v sc1 else sc1)
             else if length n = 6 \<and> (hd n = CHR ''E'' \<or> hd n = CHR ''e'')
             then (if iequals n ''Expect'' then sc1\<lparr>expectContinue := iequals v ''100-continue''\<rparr> else sc1)
             else if length n = 17 \<and> (hd n = CHR ''T'' \<or> hd n = CHR ''t'')
             then (if iequals n ''Transfer-Encoding'' then scan_transfer_encoding v sc1 else sc1)
             else sc1)"

definition scan_headers :: "phr_headers \<Rightarrow> Scan" where
  "scan_headers hs = foldl scan_header new_scan hs"

text \<open>The status of the rejection, if the framing is rejected.\<close>

definition framing_error :: "Scan \<Rightarrow> nat \<Rightarrow> nat option" where
  "framing_error sc minor =
     (if invalidFraming sc \<or> transferEncodingStatus sc = TeBadRequest
         \<or> hasTransferEncoding sc \<and> (hasContentLength sc \<or> minor = 0) then Some 400
      else if transferEncodingStatus sc = TeNotImplemented then Some 501
      else None)"

definition keep_alive :: "Scan \<Rightarrow> nat \<Rightarrow> bool" where
  "keep_alive sc minor = (if hasConnectionHeader sc then \<not> connectionClose sc else minor \<ge> 1)"

section \<open>The filter on length and first letter loses nothing\<close>

lemma toLower_origin: "toLower x = y \<Longrightarrow> ord x = ord y \<or> ord x + 32 = ord y"
  by (auto simp: toLower_eq split: if_splits)

lemma ord_eq: "ord x = ord y \<longleftrightarrow> x = y"
  by (simp add: ord_def)

lemma ord_letter: "ord x = n \<Longrightarrow> x = char_of n"
  by (auto simp: ord_def)

lemma iequals_head:
  assumes "iequals n (c # cs)"
  shows "length n = Suc (length cs)" and "toLower (hd n) = toLower c"
  using assms by (cases n; simp add: iequals_lower lower_def map_eq_Cons_conv; metis length_map)+

lemma char_of_letters:
  "char_of (67 :: nat) = CHR ''C''" "char_of (99 :: nat) = CHR ''c''" "char_of (69 :: nat) = CHR ''E''"
  "char_of (101 :: nat) = CHR ''e''" "char_of (84 :: nat) = CHR ''T''" "char_of (116 :: nat) = CHR ''t''"
  by code_simp+

lemma toLower_letter:
  "toLower x = CHR ''c'' \<Longrightarrow> x = CHR ''C'' \<or> x = CHR ''c''"
  "toLower x = CHR ''t'' \<Longrightarrow> x = CHR ''T'' \<or> x = CHR ''t''"
  "toLower x = CHR ''e'' \<Longrightarrow> x = CHR ''E'' \<or> x = CHR ''e''"
  by (drule toLower_origin, auto simp: ord_def char_of_letters dest!: ord_letter [unfolded ord_def])+

lemma scan_header_Some:
  "scan_header sc (Some n, v) =
     (let sc1 = sc\<lparr>sc_headers := rh_add (sc_headers sc) n v\<rparr>
      in if iequals n ''Content-Length'' then scan_content_length v sc1
         else if iequals n ''Connection'' then scan_connection v sc1
         else if iequals n ''Expect'' then sc1\<lparr>expectContinue := iequals v ''100-continue''\<rparr>
         else if iequals n ''Transfer-Encoding'' then scan_transfer_encoding v sc1
         else sc1)"
proof -
  have l: "toLower (CHR ''C'') = CHR ''c''" "toLower (CHR ''E'') = CHR ''e''" "toLower (CHR ''T'') = CHR ''t''"
    by (simp_all add: toLower_eq ord_def char_of_letters)
  have cl: "iequals n ''Content-Length'' \<Longrightarrow> length n = 14 \<and> (hd n = CHR ''C'' \<or> hd n = CHR ''c'')"
    using iequals_head [of n "CHR ''C''" "''ontent-Length''"] toLower_letter(1) l by auto
  have cn: "iequals n ''Connection'' \<Longrightarrow> length n = 10 \<and> (hd n = CHR ''C'' \<or> hd n = CHR ''c'')"
    using iequals_head [of n "CHR ''C''" "''onnection''"] toLower_letter(1) l by auto
  have ex: "iequals n ''Expect'' \<Longrightarrow> length n = 6 \<and> (hd n = CHR ''E'' \<or> hd n = CHR ''e'')"
    using iequals_head [of n "CHR ''E''" "''xpect''"] toLower_letter(3) l by auto
  have te: "iequals n ''Transfer-Encoding'' \<Longrightarrow> length n = 17 \<and> (hd n = CHR ''T'' \<or> hd n = CHR ''t'')"
    using iequals_head [of n "CHR ''T''" "''ransfer-Encoding''"] toLower_letter(2) l by auto
  consider "iequals n ''Content-Length''" | "iequals n ''Connection''" "\<not> iequals n ''Content-Length''"
    | "iequals n ''Expect''" "\<not> iequals n ''Content-Length''" "\<not> iequals n ''Connection''"
    | "iequals n ''Transfer-Encoding''" "\<not> iequals n ''Content-Length''" "\<not> iequals n ''Connection''" "\<not> iequals n ''Expect''"
    | "\<not> iequals n ''Transfer-Encoding''" "\<not> iequals n ''Content-Length''" "\<not> iequals n ''Connection''" "\<not> iequals n ''Expect''"
    by blast
  then show ?thesis
  proof cases
    case 1 with cl show ?thesis by (simp add: scan_header_def)
  next
    case 2 with cn show ?thesis by (simp add: scan_header_def)
  next
    case 3 with ex show ?thesis by (simp add: scan_header_def)
  next
    case 4 with te show ?thesis by (simp add: scan_header_def)
  next
    case 5 then show ?thesis by (simp add: scan_header_def Let_def)
  qed
qed

section \<open>What the scan finds\<close>

definition is_cl :: "string \<Rightarrow> bool" where
  "is_cl n \<longleftrightarrow> iequals n ''Content-Length''"

definition is_te :: "string \<Rightarrow> bool" where
  "is_te n \<longleftrightarrow> iequals n ''Transfer-Encoding''"

definition field_values :: "(string \<Rightarrow> bool) \<Rightarrow> phr_headers \<Rightarrow> string list" where
  "field_values p hs = [v. (Some n, v) \<leftarrow> hs, p n]"

text \<open>The values of the Content-Length and of the Transfer-Encoding fields.\<close>

definition cl_values :: "phr_headers \<Rightarrow> string list" where
  "cl_values hs = field_values is_cl hs"

definition te_values :: "phr_headers \<Rightarrow> string list" where
  "te_values hs = field_values is_te hs"

definition folded :: "phr_headers \<Rightarrow> bool" where
  "folded hs \<longleftrightarrow> (\<exists>h\<in>set hs. fst h = None)"

lemma field_values_simps [simp]:
  "cl_values [] = []" "te_values [] = []"
  "cl_values (hs @ [(None, v)]) = cl_values hs" "te_values (hs @ [(None, v)]) = te_values hs"
  "cl_values (hs @ [(Some n, v)]) = cl_values hs @ (if is_cl n then [v] else [])"
  "te_values (hs @ [(Some n, v)]) = te_values hs @ (if is_te n then [v] else [])"
  by (simp_all add: field_values_def cl_values_def te_values_def)

lemma folded_simps [simp]: "\<not> folded []" "folded (hs @ [h]) \<longleftrightarrow> folded hs \<or> fst h = None"
  by (auto simp: folded_def)

text \<open>The Content-Length fields all denote \<open>n\<close>.\<close>

definition lengths_agree :: "string list \<Rightarrow> nat \<Rightarrow> bool" where
  "lengths_agree vs n \<longleftrightarrow> (\<forall>v\<in>set vs. decimal v \<and> dec_value 0 v = n) \<and> (vs = [] \<or> n < size_modulus)"

definition scan_inv :: "phr_headers \<Rightarrow> Scan \<Rightarrow> bool" where
  "scan_inv hs sc \<longleftrightarrow>
     hasContentLength sc = (cl_values hs \<noteq> [])
   \<and> hasTransferEncoding sc = (te_values hs \<noteq> [])
   \<and> transferEncodingStatus sc = (if te_values hs = [] then TeOk
        else validateTransferEncoding (last (te_values hs)))
   \<and> isChunked sc = (te_values hs \<noteq> [] \<and> transferEncodingStatus sc = TeOk)
   \<and> (\<not> invalidFraming sc \<longrightarrow> lengths_agree (cl_values hs) (sc_contentLength sc))
   \<and> (\<not> invalidFraming sc \<longleftrightarrow> \<not> folded hs \<and> (\<exists>n. lengths_agree (cl_values hs) n)
        \<and> length (te_values hs) \<le> 1)"

lemma iequals_other: "iequals n a \<Longrightarrow> \<not> iequals a b \<Longrightarrow> \<not> iequals n b"
  by (simp add: iequals_lower)

lemma cl_not_te: "is_cl n \<Longrightarrow> \<not> is_te n"
  unfolding is_cl_def is_te_def by (erule iequals_other) (simp add: iequals_def)

lemma te_only:
  assumes "is_te n"
  shows "\<not> is_cl n" and "\<not> iequals n ''Connection''" and "\<not> iequals n ''Expect''"
  using assms unfolding is_cl_def is_te_def by (auto elim!: iequals_other simp: iequals_def)

lemma lengths_agree_snoc:
  "lengths_agree (vs @ [v]) n \<longleftrightarrow> lengths_agree vs n \<and> decimal v \<and> dec_value 0 v = n \<and> n < size_modulus"
  by (auto simp: lengths_agree_def)

lemma scan_content_length_inv:
  assumes "scan_inv hs sc" and "is_cl n"
  shows "scan_inv (hs @ [(Some n, v)]) (scan_content_length v (sc\<lparr>sc_headers := x\<rparr>))"
proof -
  note te = cl_not_te [OF assms(2)]
  let ?cl = "cl_values hs"
  have one: "lengths_agree ?cl m \<Longrightarrow> ?cl \<noteq> [] \<Longrightarrow> lengths_agree ?cl k \<Longrightarrow> m = k" for m k
    by (cases ?cl) (auto simp: lengths_agree_def)
  show ?thesis
  proof (cases "\<exists>m. from_chars_size v = FcOk m []")
    case True
    then obtain m where m: "from_chars_size v = FcOk m []" ..
    then have dm: "decimal v" "dec_value 0 v = m" "m < size_modulus" by (simp_all add: from_chars_size_whole)
    have e: "scan_content_length v (sc\<lparr>sc_headers := x\<rparr>) = sc\<lparr>sc_headers := x,
        invalidFraming := invalidFraming sc \<or> hasContentLength sc \<and> m \<noteq> sc_contentLength sc,
        hasContentLength := True, sc_contentLength := m\<rparr>"
      by (simp add: scan_content_length_def m)
    have inv: "hasContentLength sc = (?cl \<noteq> [])" "\<not> invalidFraming sc \<Longrightarrow> lengths_agree ?cl (sc_contentLength sc)"
      "\<not> invalidFraming sc \<longleftrightarrow> \<not> folded hs \<and> (\<exists>n. lengths_agree ?cl n) \<and> length (te_values hs) \<le> 1"
      using assms(1) by (simp_all add: scan_inv_def)
    have ag: "\<not> (invalidFraming sc \<or> hasContentLength sc \<and> m \<noteq> sc_contentLength sc) \<longleftrightarrow>
        \<not> folded hs \<and> lengths_agree ?cl m \<and> length (te_values hs) \<le> 1"
    proof (cases "?cl = []")
      case True
      then have "lengths_agree ?cl k" for k by (simp add: lengths_agree_def)
      then show ?thesis using inv(1,3) True by simp
    next
      case False
      then show ?thesis using inv one by blast
    qed
    have ex: "(\<exists>n. lengths_agree (?cl @ [v]) n) \<longleftrightarrow> lengths_agree ?cl m" using dm by (auto simp: lengths_agree_snoc)
    show ?thesis unfolding e using assms te ag ex dm by (simp add: scan_inv_def lengths_agree_snoc)
  next
    case False
    then have bad: "\<not> lengths_agree (?cl @ [v]) n" for n
      using from_chars_size_whole [of v n] by (auto simp: lengths_agree_snoc)
    have "\<not> (case from_chars_size v of FcOk _ rest \<Rightarrow> rest = [] | _ \<Rightarrow> False)"
      using False by (auto split: from_chars.splits)
    then have e: "\<exists>k. scan_content_length v (sc\<lparr>sc_headers := x\<rparr>) = sc\<lparr>sc_headers := x,
        invalidFraming := True, hasContentLength := True, sc_contentLength := k\<rparr>"
      by (simp add: scan_content_length_def Let_def) blast
    then show ?thesis using assms te bad by (auto simp: scan_inv_def)
  qed
qed

lemma scan_transfer_encoding_inv:
  assumes "scan_inv hs sc" and "is_te n"
  shows "scan_inv (hs @ [(Some n, v)]) (scan_transfer_encoding v (sc\<lparr>sc_headers := x\<rparr>))"
proof -
  have e: "scan_transfer_encoding v (sc\<lparr>sc_headers := x\<rparr>) = sc\<lparr>sc_headers := x,
      invalidFraming := invalidFraming sc \<or> te_values hs \<noteq> [], hasTransferEncoding := True,
      transferEncodingStatus := validateTransferEncoding v, isChunked := (validateTransferEncoding v = TeOk)\<rparr>"
    using assms(1) by (simp add: scan_transfer_encoding_def Let_def scan_inv_def)
  have "(length (te_values hs @ [v]) \<le> 1) = (te_values hs = [])" by simp
  then show ?thesis unfolding e using assms te_only(1) [OF assms(2)] by (auto simp: scan_inv_def)
qed

lemma scan_inv_unframed:
  assumes "scan_inv hs sc" and "\<not> is_cl n" and "\<not> is_te n"
    and "hasContentLength sc' = hasContentLength sc" "hasTransferEncoding sc' = hasTransferEncoding sc"
    "transferEncodingStatus sc' = transferEncodingStatus sc" "isChunked sc' = isChunked sc"
    "invalidFraming sc' = invalidFraming sc" "sc_contentLength sc' = sc_contentLength sc"
  shows "scan_inv (hs @ [(Some n, v)]) sc'"
  using assms by (simp add: scan_inv_def)

lemma scan_header_inv:
  assumes "scan_inv hs sc"
  shows "scan_inv (hs @ [h]) (scan_header sc h)"
proof (cases h)
  case (Pair o' v)
  show ?thesis
  proof (cases o')
    case None
    then show ?thesis using assms Pair by (auto simp: scan_inv_def scan_header_def)
  next
    case (Some n)
    note step = scan_header_Some [of sc n v, folded is_cl_def is_te_def]
    consider "is_cl n" | "is_te n" | "\<not> is_cl n" "\<not> is_te n" by blast
    then show ?thesis
    proof cases
      case 1
      then show ?thesis unfolding Pair Some step Let_def using scan_content_length_inv [OF assms 1] by simp
    next
      case 2
      then show ?thesis unfolding Pair Some step Let_def
        using scan_transfer_encoding_inv [OF assms 2] te_only [OF 2] by simp
    next
      case 3
      then show ?thesis unfolding Pair Some step Let_def
        by (intro scan_inv_unframed [OF assms 3]) (simp_all add: scan_connection_def Let_def)
    qed
  qed
qed

lemma scan_headers_inv: "scan_inv hs (scan_headers hs)"
proof (induction hs rule: rev_induct)
  case Nil
  then show ?case by (auto simp: scan_headers_def new_scan_def scan_inv_def lengths_agree_def)
next
  case (snoc h hs)
  then show ?case using scan_header_inv [OF snoc] by (simp add: scan_headers_def)
qed

section \<open>Plain chunked coding\<close>

lemma te_loop_unsupported: "te_loop True v \<noteq> TeOk"
proof (induction "length v" arbitrary: v rule: less_induct)
  case less
  have "te_loop True (drop (n + 1) v) \<noteq> TeOk" if "find_char (CHR '','') v = Some n" for n
  proof (rule less)
    have "n < length v" using find_char_Some [OF that] by blast
    then show "length (drop (n + 1) v) < length v" by simp
  qed
  then show ?case by (subst te_loop.simps) (auto simp: Let_def split: option.splits)
qed

lemma chunked_letters:
  assumes "iequals t ''chunked''" and "c \<in> set t"
  shows "c \<notin> {CHR '' '', CHR 0x09, CHR '';'', CHR '',''}"
proof -
  have "toLower c \<in> set (lower t)" using assms(2) by (simp add: lower_def)
  moreover have "lower t = lower ''chunked''" using assms(1) by (simp add: iequals_lower)
  moreover have "lower ''chunked'' = ''chunked''" by (simp add: lower_def toLower_eq ord_def)
  ultimately have "toLower c \<in> set ''chunked''" by simp
  moreover have "toLower d = d" if "d \<in> {CHR '' '', CHR 0x09, CHR '';'', CHR '',''}" for d
    using that by (auto simp: toLower_eq ord_def)
  ultimately show ?thesis by fastforce
qed

lemma set_trim_set: "set s \<subseteq> cs \<union> set (trim_set cs s)"
proof
  fix c assume c: "c \<in> set s"
  have sub: "set s \<subseteq> set (takeWhile P s) \<union> set (dropWhile P s)" for P and s :: string
    by (metis Un_iff set_append subsetI takeWhile_dropWhile_id)
  have tw: "set (takeWhile (\<lambda>c. c \<in> cs) s) \<subseteq> cs" for s by (meson set_takeWhileD subsetI)
  have "c \<in> cs \<or> c \<in> set (dropWhile (\<lambda>c. c \<in> cs) s)" using c sub tw by blast
  then show "c \<in> cs \<union> set (trim_set cs s)"
    using sub [of "rev (dropWhile (\<lambda>c. c \<in> cs) s)" "\<lambda>c. c \<in> cs"] tw [of "rev (dropWhile (\<lambda>c. c \<in> cs) s)"]
    by (auto simp: trim_set_def)
qed

definition plain_chunked :: "string \<Rightarrow> bool" where
  "plain_chunked v \<longleftrightarrow> iequals (trim_set blank v) ''chunked''"

lemma te_single:
  assumes "find_char (CHR '','') v = None" and "t = trim_set blank v"
    and "e = find_first_of {CHR '' '', CHR 0x09, CHR '';''} t"
  shows "te_loop False v = (if t = [] then TeBadRequest
    else if iequals (case e of None \<Rightarrow> t | Some n \<Rightarrow> take n t) ''chunked'' then (if e \<noteq> None then TeBadRequest else TeOk)
    else TeBadRequest)"
  unfolding te_loop.simps [of False v] assms Let_def option.case by simp

lemma validateTransferEncoding_ok: "validateTransferEncoding v = TeOk \<longleftrightarrow> plain_chunked v"
proof (cases "find_char (CHR '','') v")
  case None
  define t where "t = trim_set blank v"
  define e where "e = find_first_of {CHR '' '', CHR 0x09, CHR '';''} t"
  note step = te_single [OF None t_def e_def]
  show ?thesis
  proof (cases e)
    case None
    have "t \<noteq> []" if "iequals t ''chunked''" using that by (auto simp: iequals_def)
    then show ?thesis unfolding validateTransferEncoding_def step plain_chunked_def t_def [symmetric] None by auto
  next
    case (Some n)
    then have f: "n < length t" "t ! n \<in> {CHR '' '', CHR 0x09, CHR '';''}"
      using find_first_of_Some [of "{CHR '' '', CHR 0x09, CHR '';''}" t n] by (simp_all add: e_def)
    have "\<not> iequals t ''chunked''"
    proof
      assume "iequals t ''chunked''"
      from chunked_letters [OF this nth_mem [OF f(1)]] f(2) show False by blast
    qed
    then show ?thesis unfolding validateTransferEncoding_def step plain_chunked_def t_def [symmetric] Some by simp
  qed
next
  case (Some n)
  then have "CHR '','' \<in> set v" using find_char_Some [OF Some] by (metis nth_mem)
  then have "CHR '','' \<in> set (trim_set blank v)" using set_trim_set [of v blank] by auto
  then have "\<not> plain_chunked v" unfolding plain_chunked_def using chunked_letters by blast
  moreover have "validateTransferEncoding v \<noteq> TeOk"
    unfolding validateTransferEncoding_def by (subst te_loop.simps) (simp add: Some Let_def te_loop_unsupported)
  ultimately show ?thesis by simp
qed

section \<open>Property\<close>

text \<open>
  C2. The end of a request's body is never ambiguous. The framing is accepted exactly when no header
  line is folded, all Content-Length fields are plain decimal numerals of one and the same value in
  range, and there is either no Transfer-Encoding, or exactly one, it is plain chunked, the request is
  HTTP/1.1 and carries no Content-Length. Then the scan reports that length, or the chunked coding, or
  neither.
\<close>

theorem framing_unambiguous:
  "(framing_error (scan_headers hs) minor = None \<longleftrightarrow>
      \<not> folded hs \<and> (\<exists>n. lengths_agree (cl_values hs) n)
    \<and> (te_values hs = []
       \<or> (\<exists>v. te_values hs = [v] \<and> plain_chunked v
            \<and> cl_values hs = [] \<and> minor \<noteq> 0)))
   \<and> (framing_error (scan_headers hs) minor = None \<longrightarrow>
        isChunked (scan_headers hs) = (te_values hs \<noteq> [])
      \<and> hasContentLength (scan_headers hs) = (cl_values hs \<noteq> [])
      \<and> lengths_agree (cl_values hs) (sc_contentLength (scan_headers hs)))"
proof -
  let ?sc = "scan_headers hs" and ?cl = "cl_values hs" and ?te = "te_values hs"
  have inv: "hasContentLength ?sc = (?cl \<noteq> [])" "hasTransferEncoding ?sc = (?te \<noteq> [])"
    "transferEncodingStatus ?sc = (if ?te = [] then TeOk else validateTransferEncoding (last ?te))"
    "isChunked ?sc = (?te \<noteq> [] \<and> transferEncodingStatus ?sc = TeOk)"
    "\<not> invalidFraming ?sc \<longrightarrow> lengths_agree ?cl (sc_contentLength ?sc)"
    "\<not> invalidFraming ?sc \<longleftrightarrow> \<not> folded hs \<and> (\<exists>n. lengths_agree ?cl n) \<and> length ?te \<le> 1"
    using scan_headers_inv [of hs] by (simp_all add: scan_inv_def)
  have acc: "framing_error ?sc minor = None \<longleftrightarrow> \<not> invalidFraming ?sc \<and> transferEncodingStatus ?sc = TeOk
      \<and> \<not> (?te \<noteq> [] \<and> (?cl \<noteq> [] \<or> minor = 0))"
    by (cases "transferEncodingStatus ?sc") (auto simp: framing_error_def inv(1,2))
  have one: "length ?te \<le> 1 \<longleftrightarrow> ?te = [] \<or> (\<exists>v. ?te = [v])"
    by (cases ?te) auto
  have "framing_error ?sc minor = None \<longleftrightarrow> \<not> folded hs \<and> (\<exists>n. lengths_agree ?cl n)
      \<and> (?te = [] \<or> (\<exists>v. ?te = [v] \<and> plain_chunked v \<and> ?cl = [] \<and> minor \<noteq> 0))"
    unfolding acc inv(3,6) one by (cases "?te = []") (auto simp: validateTransferEncoding_ok)
  moreover have "framing_error ?sc minor = None \<Longrightarrow> isChunked ?sc = (?te \<noteq> [])"
    unfolding acc inv(4) by simp
  moreover have "framing_error ?sc minor = None \<Longrightarrow> lengths_agree ?cl (sc_contentLength ?sc)"
    unfolding acc using inv(5) by simp
  ultimately show ?thesis using inv(1) by blast
qed

lemma char_of_l: "char_of (108 :: nat) = CHR ''l''"
  by code_simp

lemma framing_names: "is_cl ''content-length''" "is_cl ''Content-Length''" "is_te ''Transfer-Encoding''"
  unfolding is_cl_def is_te_def by (simp_all add: iequals_lower lower_def toLower_eq ord_def char_of_letters char_of_l)

lemma field_values_pair:
  "field_values p [(Some m, v), (Some n, w)] = (if p m then [v] else []) @ (if p n then [w] else [])"
  by (simp add: field_values_def)

lemma framing_example:
  "cl_values [(Some ''content-length'', ''12''), (Some ''Content-Length'', ''12'')] = [''12'', ''12'']"
  "te_values [(Some ''content-length'', ''12''), (Some ''Content-Length'', ''12'')] = []"
  "cl_values [(Some ''Content-Length'', ''5''), (Some ''Transfer-Encoding'', ''chunked'')] = [''5'']"
  "te_values [(Some ''Content-Length'', ''5''), (Some ''Transfer-Encoding'', ''chunked'')] = [''chunked'']"
  unfolding cl_values_def te_values_def field_values_pair
  by (simp_all only: framing_names cl_not_te [OF framing_names(1)] cl_not_te [OF framing_names(2)]
      te_only(1) [OF framing_names(3)] if_True if_False append_Nil append_Nil2 append_Cons)

lemma lengths_agree_12: "lengths_agree [''12'', ''12''] n \<longleftrightarrow> n = 12"
proof -
  have v: "decimal ''12''" "dec_value 0 ''12'' = 12" "12 < size_modulus"
    by (simp_all add: decimal_def is_dec_def ord_def size_modulus_def)
  have "lengths_agree [w, w] n \<longleftrightarrow> decimal w \<and> dec_value 0 w = n \<and> n < size_modulus" for w
    by (auto simp: lengths_agree_def)
  then show ?thesis using v by metis
qed

theorem framing_unambiguous_witness:
  "framing_error (scan_headers [(Some ''content-length'', ''12''), (Some ''Content-Length'', ''12'')]) 1 = None
   \<and> sc_contentLength (scan_headers [(Some ''content-length'', ''12''), (Some ''Content-Length'', ''12'')]) = 12
   \<and> framing_error (scan_headers [(Some ''Content-Length'', ''5''), (Some ''Transfer-Encoding'', ''chunked'')]) 1 \<noteq> None"
proof -
  define a where "a = [(Some ''content-length'', ''12''), (Some ''Content-Length'', ''12'')]"
  define b where "b = [(Some ''Content-Length'', ''5''), (Some ''Transfer-Encoding'', ''chunked'')]"
  note ex = framing_example [folded a_def b_def]
  have f: "\<not> folded a" by (simp add: a_def folded_def)
  have ok: "framing_error (scan_headers a) 1 = None"
    using framing_unambiguous [of a 1] f unfolding ex(1,2) lengths_agree_12 by blast
  then have "sc_contentLength (scan_headers a) = 12"
    using framing_unambiguous [of a 1] unfolding ex(1,2) lengths_agree_12 by blast
  moreover have "framing_error (scan_headers b) 1 \<noteq> None"
    using framing_unambiguous [of b 1] unfolding ex(3,4) by blast
  ultimately show ?thesis using ok unfolding a_def b_def by blast
qed

end
