(* ===== verification/Http1_Write.thy ===== *)
theory Http1_Write
  imports Http_Response Net_Socket
begin

text \<open>
  Writing of HTTP/1.1 responses, from \<^verbatim>\<open>src/src/core/HttpSessionImpl.cpp\<close>: the optimistic synchronous
  write and its continuation, the batch of responses to pipelined requests, small error responses, and
  responses with a plain, a chunked or a file body. A connection is the socket, the outcome of its
  synchronous writes to come and the two buffers that outlive a request.
\<close>

section \<open>The connection\<close>

text \<open>
  \<open>write_limits\<close> says what the coming calls of \<open>write_some\<close> do: \<open>Some n\<close> takes at most \<open>n\<close> bytes, \<open>None\<close> is an
  error such as \<open>would_block\<close>, and an empty list means that everything is taken. \<open>counter\<close> is the
  counter behind \<open>writeCount\<close>, \<open>None\<close> for the null pointer.
\<close>

record Conn =
  c_sock :: "char Socket"
  write_limits :: "nat option list"
  is_ssl :: bool
  counter :: "nat option"
  pipelineSpill :: string
  responseBatch :: string

datatype SessExn = SysErr SockErr | StdExn string

type_synonym 'a io = "Conn \<Rightarrow> (SessExn + 'a) \<times> Conn"

definition io_bind :: "'a io \<Rightarrow> ('a \<Rightarrow> 'b io) \<Rightarrow> 'b io" where
  "io_bind m f c = (case m c of (Inl e, c1) \<Rightarrow> (Inl e, c1) | (Inr x, c1) \<Rightarrow> f x c1)"

definition io_return :: "'a \<Rightarrow> 'a io" where
  "io_return x c = (Inr x, c)"

abbreviation io_then :: "'a io \<Rightarrow> 'b io \<Rightarrow> 'b io" where
  "io_then m n \<equiv> io_bind m (\<lambda>_. n)"

definition conn_write :: "string \<Rightarrow> unit io" where
  "conn_write bytes c =
     (case async_write bytes (c_sock c) of
        (Inl e, k) \<Rightarrow> (Inl (SysErr e), c\<lparr>c_sock := k\<rparr>)
      | (Inr _, k) \<Rightarrow> (Inr (), c\<lparr>c_sock := k\<rparr>))"

definition conn_read :: "nat \<Rightarrow> string io" where
  "conn_read n c =
     (case async_read_some n (c_sock c) of
        (Inl e, k) \<Rightarrow> (Inl (SysErr e), c\<lparr>c_sock := k\<rparr>)
      | (Inr bytes, k) \<Rightarrow> (Inr bytes, c\<lparr>c_sock := k\<rparr>))"

section \<open>Optimistic writes\<close>

text \<open>\<open>socket.write_some\<close>: the number of bytes taken, or an error.\<close>

definition write_some :: "string \<Rightarrow> Conn \<Rightarrow> nat option \<times> Conn" where
  "write_some buf c =
     (if \<not> sock_open (c_sock c) then (None, c)
      else let take_bytes = (\<lambda>n c. (Some (min n (length buf)),
                c\<lparr>c_sock := (c_sock c)\<lparr>sent := sent (c_sock c) @ [take n buf]\<rparr>\<rparr>))
           in case write_limits c of
                [] \<Rightarrow> take_bytes (length buf) c
              | None # ls \<Rightarrow> (None, c\<lparr>write_limits := ls\<rparr>)
              | Some n # ls \<Rightarrow> take_bytes n (c\<lparr>write_limits := ls\<rparr>))"

text \<open>The result is whether everything went out, and \<open>written\<close>.\<close>

definition tryOptimisticWrite :: "string \<Rightarrow> Conn \<Rightarrow> (bool \<times> nat) \<times> Conn" where
  "tryOptimisticWrite buf c =
     (if is_ssl c then ((False, 0), c)
      else case write_some buf c of
             (None, c1) \<Rightarrow> ((False, 0), c1)
           | (Some n, c1) \<Rightarrow> ((n = length buf, n), c1))"

definition tryOptimisticWrite2 :: "string \<times> string \<Rightarrow> Conn \<Rightarrow> (bool \<times> nat) \<times> Conn" where
  "tryOptimisticWrite2 bufs c =
     (if is_ssl c then ((False, 0), c)
      else case write_some (fst bufs @ snd bufs) c of
             (None, c1) \<Rightarrow> ((False, 0), c1)
           | (Some n, c1) \<Rightarrow> ((n = length (fst bufs) + length (snd bufs), n), c1))"

definition writeRemaining :: "string \<Rightarrow> nat \<Rightarrow> unit io" where
  "writeRemaining buf written = conn_write (drop written buf)"

definition writeRemaining2 :: "string \<times> string \<Rightarrow> nat \<Rightarrow> unit io" where
  "writeRemaining2 bufs written =
     (let headSize = length (fst bufs) in
      if written < headSize then conn_write (drop written (fst bufs) @ snd bufs)
      else conn_write (drop (written - headSize) (snd bufs)))"

text \<open>The pattern every sender uses: try, and continue behind what was taken.\<close>

definition write_wire :: "string \<Rightarrow> unit io" where
  "write_wire wire c =
     (case tryOptimisticWrite wire c of
        ((True, _), c1) \<Rightarrow> (Inr (), c1)
      | ((False, n), c1) \<Rightarrow> writeRemaining wire n c1)"

definition write_wire2 :: "string \<times> string \<Rightarrow> unit io" where
  "write_wire2 bufs c =
     (case tryOptimisticWrite2 bufs c of
        ((True, _), c1) \<Rightarrow> (Inr (), c1)
      | ((False, n), c1) \<Rightarrow> writeRemaining2 bufs n c1)"

definition recordResponseWrite :: "unit io" where
  "recordResponseWrite c = (Inr (), c\<lparr>counter := map_option Suc (counter c)\<rparr>)"

section \<open>Responses\<close>

definition serializeHeadWithPrefix :: "FixedBuffer \<Rightarrow> NativeResponse \<Rightarrow> string \<Rightarrow> FixedBuffer" where
  "serializeHeadWithPrefix buf r prefix =
     (if prefix = [] then serializeHeadTo buf r else serializeHeadTo_prefix buf prefix r)"

definition set_batch :: "string \<Rightarrow> unit io" where
  "set_batch b c = (Inr (), c\<lparr>responseBatch := b\<rparr>)"

definition flushResponseBatch :: "unit io" where
  "flushResponseBatch c =
     (if responseBatch c = [] then (Inr (), c)
      else io_then recordResponseWrite (io_then (write_wire (responseBatch c)) (set_batch [])) c)"

definition flushPendingResponses :: "unit io" where
  "flushPendingResponses c = (if responseBatch c \<noteq> [] then flushResponseBatch c else (Inr (), c))"

definition raw_response :: "nat \<Rightarrow> string \<Rightarrow> string \<Rightarrow> FixedBuffer" where
  "raw_response status reason body =
     foldl put512 (fb_new 512) [''HTTP/1.1 '', to_chars 10 status, '' '', reason, CRLF @ ''Content-Length: '',
       to_chars 10 (length body), CRLF @ ''Connection: close'' @ CRLF @ CRLF, body]"

definition sendRawResponse :: "nat \<Rightarrow> string \<Rightarrow> string \<Rightarrow> unit io" where
  "sendRawResponse status reason body =
     io_then recordResponseWrite (write_wire (fb_view (raw_response status reason body)))"

text \<open>The part of \<open>writeResponse\<close> behind the serialisation of the head, the same in both versions.\<close>

definition write_chunked :: "FixedBuffer \<Rightarrow> ChunkedBody \<Rightarrow> bool \<Rightarrow> unit io" where
  "write_chunked headBuf body skipBody =
     (if \<not> skipBody
      then (let wire = serializeChunkedBodyTo [] body
            in if wire \<noteq> [] then conn_write (fb_view headBuf @ wire) else write_wire (fb_view headBuf))
      else write_wire (fb_view headBuf))"

definition write_plain :: "FixedBuffer \<Rightarrow> string \<Rightarrow> bool \<Rightarrow> unit io" where
  "write_plain headBuf body skipBody =
     (if skipBody \<or> body = [] then write_wire (fb_view headBuf)
      else if fb_size headBuf + length body \<le> 512 \<and> \<not> overflowed headBuf
      then write_wire (fb_view (put512 headBuf body))
      else write_wire2 (fb_view headBuf, body))"

definition writeResponse :: "NativeResponse \<Rightarrow> bool \<Rightarrow> unit io" where
  "writeResponse res skipBody =
     io_then recordResponseWrite
       (let r = preparePayload res; headBuf = serializeHeadTo (fb_new 512) r
        in case chunkedBody r of
             Some b \<Rightarrow> write_chunked headBuf b skipBody
           | None \<Rightarrow> write_plain headBuf (res_body r) skipBody)"

definition writeResponse_prefix :: "NativeResponse \<Rightarrow> string \<Rightarrow> bool \<Rightarrow> unit io" where
  "writeResponse_prefix res prefix skipBody =
     io_then recordResponseWrite
       (let r = preparePayload res; headBuf = serializeHeadWithPrefix (fb_new 512) r prefix
        in case chunkedBody r of
             Some b \<Rightarrow> write_chunked headBuf b skipBody
           | None \<Rightarrow> write_plain headBuf (res_body r) skipBody)"

definition appendResponseToBatch :: "NativeResponse \<Rightarrow> string \<Rightarrow> bool \<Rightarrow> unit io" where
  "appendResponseToBatch res prefix skipBody c =
     (let r = preparePayload res;
          headBuf = serializeHeadWithPrefix (fb_new 512) r prefix;
          bodyLen = (if skipBody then 0 else length (res_body r));
          b1 = responseBatch c @ fb_view headBuf
      in (Inr (), c\<lparr>responseBatch := (if bodyLen > 0 then b1 @ take bodyLen (res_body r) else b1)\<rparr>))"

text \<open>
  The file body, in the version with \<open>std::ifstream\<close>. \<open>files\<close> gives the bytes of the files that can be
  opened. A read that ends short leaves the stream in a state that ends the loop.
\<close>

definition kChunkSize :: nat where
  "kChunkSize = 65536"

function file_loop :: "string \<Rightarrow> nat \<Rightarrow> nat \<Rightarrow> unit io" where
  "file_loop content off remaining =
     (if remaining = 0 then io_return ()
      else let toRead = min kChunkSize remaining;
               bytes = take toRead (drop off content)
           in if bytes = [] then io_return ()
              else io_then (conn_write bytes)
                     (if length bytes < toRead then io_return ()
                      else file_loop content (off + length bytes) (remaining - length bytes)))"
  by pat_completeness auto
termination
  by (relation "measure (\<lambda>(_, _, n). n)") (auto simp: kChunkSize_def)

declare file_loop.simps [simp del]

definition writeFileResponse :: "(string \<Rightarrow> string option) \<Rightarrow> FileBody \<Rightarrow> NativeResponse \<Rightarrow> string \<Rightarrow> unit io" where
  "writeFileResponse files fb res prefix =
     io_then recordResponseWrite
       (let r = preparePayload res in
        case files (file_path fb) of
          None \<Rightarrow> (\<lambda>c. (Inl (SysErr OtherError), c))
        | Some content \<Rightarrow>
            io_then (conn_write (fb_view (serializeHeadWithPrefix (fb_new 512) r prefix)))
              (if file_length fb < 0 then (\<lambda>c. (Inl (StdExn ''length_error''), c))
               else if file_offset fb < 0 then io_return ()
               else file_loop content (nat (file_offset fb)) (nat (file_length fb))))"

section \<open>What reaches the wire\<close>

definition bytes_out :: "Conn \<Rightarrow> string" where
  "bytes_out c = concat (sent (c_sock c))"

text \<open>Everything of a connection but its output side.\<close>

definition input_side :: "Conn \<Rightarrow> string list \<times> SockErr \<times> bool \<times> bool \<times> string" where
  "input_side c = (incoming (c_sock c), in_end (c_sock c), sock_open (c_sock c), is_ssl c, pipelineSpill c)"

text \<open>
  \<open>m\<close> puts exactly \<open>s\<close> on the wire if it returns, an initial part of \<open>s\<close> if it throws, and leaves the
  input side and the batch alone.
\<close>

definition delivers :: "'a io \<Rightarrow> string \<Rightarrow> bool" where
  "delivers m s \<longleftrightarrow> (\<forall>c x c'. m c = (x, c') \<longrightarrow>
     input_side c' = input_side c \<and> responseBatch c' = responseBatch c
   \<and> (case x of Inr _ \<Rightarrow> bytes_out c' = bytes_out c @ s
               | Inl _ \<Rightarrow> \<exists>p q. s = p @ q \<and> bytes_out c' = bytes_out c @ p))"

lemma deliversD:
  assumes "delivers m s" and "m c = (x, c')"
  shows "input_side c' = input_side c" and "responseBatch c' = responseBatch c"
    and "x = Inr y \<Longrightarrow> bytes_out c' = bytes_out c @ s"
    and "x = Inl e \<Longrightarrow> \<exists>p q. s = p @ q \<and> bytes_out c' = bytes_out c @ p"
  using assms unfolding delivers_def by fastforce+

lemma delivers_return [intro]: "delivers (io_return x) []"
  by (simp add: delivers_def io_return_def)

lemma delivers_throw [intro]: "delivers (\<lambda>c. (Inl e, c)) []"
  by (simp add: delivers_def)

lemma delivers_record [intro]: "delivers recordResponseWrite []"
  by (simp add: delivers_def recordResponseWrite_def input_side_def bytes_out_def)

lemma delivers_conn_write [intro]: "delivers (conn_write s) s"
  by (auto simp: delivers_def conn_write_def async_write_def input_side_def bytes_out_def
      split: if_splits list.splits option.splits intro: append_take_drop_id [symmetric])

lemma delivers_bind:
  assumes m: "delivers m s" and f: "\<And>x. delivers (f x) t"
  shows "delivers (io_bind m f) (s @ t)"
proof (unfold delivers_def, intro allI impI)
  fix c x c' assume run: "io_bind m f c = (x, c')"
  obtain y c1 where y: "m c = (y, c1)" by fastforce
  note my = deliversD [OF m y]
  show "input_side c' = input_side c \<and> responseBatch c' = responseBatch c
      \<and> (case x of Inr _ \<Rightarrow> bytes_out c' = bytes_out c @ s @ t
                 | Inl _ \<Rightarrow> \<exists>p q. s @ t = p @ q \<and> bytes_out c' = bytes_out c @ p)"
  proof (cases y)
    case (Inl e)
    then have "x = Inl e" "c' = c1" using run y by (simp_all add: io_bind_def)
    moreover obtain p q where "s = p @ q" "bytes_out c1 = bytes_out c @ p" using my(4) [OF Inl] by blast
    ultimately show ?thesis using my(1,2) by auto
  next
    case (Inr z)
    then have fz: "f z c1 = (x, c')" using run y by (simp add: io_bind_def)
    note fy = deliversD [OF f fz]
    have w: "bytes_out c1 = bytes_out c @ s" using my(3) [OF Inr] .
    show ?thesis
    proof (cases x)
      case (Inl e)
      then obtain p q where "t = p @ q" "bytes_out c' = bytes_out c1 @ p" using fy(4) by blast
      then have "s @ t = (s @ p) @ q" "bytes_out c' = bytes_out c @ (s @ p)" using w by simp_all
      then have "\<exists>p q. s @ t = p @ q \<and> bytes_out c' = bytes_out c @ p" by blast
      then show ?thesis using Inl fy(1,2) my(1,2) by simp
    next
      case (Inr u)
      then show ?thesis using fy(1,2,3) my(1,2) w by simp
    qed
  qed
qed

lemma delivers_then: "delivers m s \<Longrightarrow> delivers n t \<Longrightarrow> delivers (io_then m n) (s @ t)"
  by (rule delivers_bind)

text \<open>A write after a write that took a part: together they deliver the whole.\<close>

lemma write_some_cases:
  assumes "write_some buf c = (x, c')"
  shows "input_side c' = input_side c" and "responseBatch c' = responseBatch c"
    and "x = None \<Longrightarrow> bytes_out c' = bytes_out c"
    and "x = Some n \<Longrightarrow> n \<le> length buf \<and> bytes_out c' = bytes_out c @ take n buf"
  using assms
  by (auto simp: write_some_def input_side_def bytes_out_def Let_def min_def split: if_splits list.splits option.splits)

lemma tryOptimisticWrite_cases:
  assumes "tryOptimisticWrite buf c = ((b, n), c')"
  shows "input_side c' = input_side c \<and> responseBatch c' = responseBatch c
    \<and> bytes_out c' = bytes_out c @ take n buf \<and> (b \<longrightarrow> n = length buf)"
proof (cases "is_ssl c")
  case True
  then show ?thesis using assms by (simp add: tryOptimisticWrite_def)
next
  case False
  obtain x c1 where w: "write_some buf c = (x, c1)" by fastforce
  show ?thesis
  proof (cases x)
    case None
    then show ?thesis using assms False w write_some_cases(1-3) [OF w] by (auto simp: tryOptimisticWrite_def)
  next
    case (Some m)
    then show ?thesis using assms False w write_some_cases(1,2,4) [OF w] by (auto simp: tryOptimisticWrite_def)
  qed
qed

lemma tryOptimisticWrite2_eq: "tryOptimisticWrite2 bufs c = tryOptimisticWrite (fst bufs @ snd bufs) c"
  unfolding tryOptimisticWrite2_def tryOptimisticWrite_def length_append ..

lemma writeRemaining2_eq: "writeRemaining2 bufs = writeRemaining (fst bufs @ snd bufs)"
  by (rule ext) (simp add: writeRemaining2_def writeRemaining_def Let_def)

lemma write_wire2_eq: "write_wire2 bufs = write_wire (fst bufs @ snd bufs)"
  unfolding write_wire2_def write_wire_def tryOptimisticWrite2_eq writeRemaining2_eq ..

lemma delivers_write_wire [intro]: "delivers (write_wire s) s"
proof (unfold delivers_def, intro allI impI)
  fix c x c' assume run: "write_wire s c = (x, c')"
  obtain r c1 where r: "tryOptimisticWrite s c = (r, c1)" by fastforce
  obtain b n where bn: "r = (b, n)" by fastforce
  have tc: "input_side c1 = input_side c" "responseBatch c1 = responseBatch c"
    "bytes_out c1 = bytes_out c @ take n s" "b \<longrightarrow> n = length s"
    using tryOptimisticWrite_cases [of s c b n c1] r bn by simp_all
  show "input_side c' = input_side c \<and> responseBatch c' = responseBatch c
      \<and> (case x of Inr _ \<Rightarrow> bytes_out c' = bytes_out c @ s | Inl _ \<Rightarrow> \<exists>p q. s = p @ q \<and> bytes_out c' = bytes_out c @ p)"
  proof (cases b)
    case True
    then have "x = Inr ()" "c' = c1" using run r bn by (simp_all add: write_wire_def)
    then show ?thesis using tc True by simp
  next
    case False
    then have w: "conn_write (drop n s) c1 = (x, c')" using run r bn by (simp add: write_wire_def writeRemaining_def)
    note d = deliversD [OF delivers_conn_write w]
    show ?thesis
    proof (cases x)
      case (Inl e)
      then obtain p q where pq: "drop n s = p @ q" "bytes_out c' = bytes_out c1 @ p" using d(4) by blast
      then have "s = (take n s @ p) @ q" "bytes_out c' = bytes_out c @ (take n s @ p)"
        using tc(3) append_take_drop_id [of n s] by simp_all
      then have "\<exists>p q. s = p @ q \<and> bytes_out c' = bytes_out c @ p" by blast
      then show ?thesis using Inl d(1,2) tc(1,2) by simp
    next
      case (Inr u)
      then show ?thesis using d(1,2,3) tc(1,2,3) by simp
    qed
  qed
qed

section \<open>The texts of the responses\<close>

definition head_text :: "NativeResponse \<Rightarrow> string \<Rightarrow> string" where
  "head_text r prefix =
     status_line r @ CRLF @ concat (map (\<lambda>t. trailer_line t @ CRLF) (res_headers r)) @ prefix @ CRLF"

definition response_text :: "NativeResponse \<Rightarrow> string \<Rightarrow> bool \<Rightarrow> string" where
  "response_text res prefix skipBody =
     (let r = preparePayload res in
      head_text r prefix @ (if skipBody then [] else case chunkedBody r of
          Some b \<Rightarrow> serializeChunkedBody b | None \<Rightarrow> res_body r))"

definition file_text :: "(string \<Rightarrow> string option) \<Rightarrow> FileBody \<Rightarrow> NativeResponse \<Rightarrow> string \<Rightarrow> string" where
  "file_text files fb res prefix =
     head_text (preparePayload res) prefix
     @ (if file_offset fb < 0 then []
        else take (nat (file_length fb)) (drop (nat (file_offset fb)) (case files (file_path fb) of Some s \<Rightarrow> s | None \<Rightarrow> [])))"

lemma head_view [simp]: "fb_view (serializeHeadWithPrefix (fb_new 512) r prefix) = head_text r prefix"
  and head_view_plain [simp]: "fb_view (serializeHeadTo (fb_new 512) r) = head_text r []"
proof -
  obtain fields where h: "fb_view (serializeHeadTo (fb_new 512) r) @ res_body r = serialize r"
      "fb_view (serializeHeadTo (fb_new 512) r) = fields @ CRLF"
      "fb_view (serializeHeadTo_prefix (fb_new 512) prefix r) = fields @ prefix @ CRLF"
    using head_serializers_agree [of r prefix] by blast
  have "fields @ CRLF @ res_body r = head_text r [] @ res_body r"
    using h(1) unfolding h(2) serialize_parts head_text_def by simp
  then have f: "fields @ CRLF = head_text r []" by simp
  then have "fields = status_line r @ CRLF @ concat (map (\<lambda>t. trailer_line t @ CRLF) (res_headers r))"
    by (simp add: head_text_def)
  then show "fb_view (serializeHeadWithPrefix (fb_new 512) r prefix) = head_text r prefix"
    and "fb_view (serializeHeadTo (fb_new 512) r) = head_text r []"
    using h f by (simp_all add: serializeHeadWithPrefix_def head_text_def)
qed

lemma serialize_status_ok: "fb_ok 512 b \<Longrightarrow> fb_ok 512 (serializeStatusAndHeaders b r)"
proof -
  have fold: "fb_ok 512 b \<Longrightarrow> fb_ok 512 (foldl (\<lambda>b (n, v). foldl put512 b [n, '': '', v, CRLF]) b hs)" for b hs
    by (induction hs arbitrary: b) auto
  assume "fb_ok 512 b"
  then show ?thesis unfolding serializeStatusAndHeaders_def Let_def by (intro fold) auto
qed

lemma head_ok [simp]: "fb_ok 512 (serializeHeadWithPrefix (fb_new 512) r prefix)" "fb_ok 512 (serializeHeadTo (fb_new 512) r)"
  by (simp_all add: serializeHeadWithPrefix_def serializeHeadTo_def serializeHeadTo_prefix_def serialize_status_ok)

lemma delivers_chunked:
  "fb_ok 512 hb \<Longrightarrow> delivers (write_chunked hb b skip) (fb_view hb @ (if skip then [] else serializeChunkedBody b))"
proof -
  have "delivers (write_wire (fb_view hb)) (fb_view hb @ [])"
    and "delivers (conn_write (fb_view hb @ w)) (fb_view hb @ w)" for w by auto
  moreover have "serializeChunkedBodyTo [] b = serializeChunkedBody b" by (simp add: serializeChunkedBody_def)
  ultimately show ?thesis by (auto simp: write_chunked_def Let_def)
qed

lemma delivers_plain:
  "fb_ok 512 hb \<Longrightarrow> delivers (write_plain hb body skip) (fb_view hb @ (if skip then [] else body))"
proof -
  have "delivers (write_wire (fb_view hb)) (fb_view hb @ [])" by auto
  moreover assume "fb_ok 512 hb"
  then have "delivers (write_wire (fb_view (put512 hb body))) (fb_view hb @ body)" by (metis fb_view_append delivers_write_wire)
  moreover have "delivers (write_wire2 (fb_view hb, body)) (fb_view hb @ body)" by (auto simp: write_wire2_eq)
  ultimately show ?thesis by (auto simp: write_plain_def)
qed

lemma writeResponse_plain: "writeResponse res skip = writeResponse_prefix res [] skip"
  by (simp add: writeResponse_def writeResponse_prefix_def serializeHeadWithPrefix_def)

lemma delivers_writeResponse_prefix [intro]: "delivers (writeResponse_prefix res prefix skip) (response_text res prefix skip)"
proof -
  let ?r = "preparePayload res" and ?hb = "serializeHeadWithPrefix (fb_new 512) (preparePayload res) prefix"
  have "delivers (case chunkedBody ?r of Some b \<Rightarrow> write_chunked ?hb b skip | None \<Rightarrow> write_plain ?hb (res_body ?r) skip)
      (response_text res prefix skip)"
  proof (cases "chunkedBody ?r")
    case None
    then show ?thesis using delivers_plain [of ?hb "res_body ?r" skip] by (cases skip) (simp_all add: response_text_def Let_def)
  next
    case (Some b)
    then show ?thesis using delivers_chunked [of ?hb b skip] by (cases skip) (simp_all add: response_text_def Let_def)
  qed
  from delivers_then [OF delivers_record this] show ?thesis by (simp add: writeResponse_prefix_def Let_def)
qed

lemma delivers_writeResponse [intro]: "delivers (writeResponse res skip) (response_text res [] skip)"
  unfolding writeResponse_plain ..

lemma file_loop_cases:
  fixes content off n
  defines "b \<equiv> take (min kChunkSize n) (drop off content)"
  shows "n = 0 \<or> b = [] \<Longrightarrow> file_loop content off n = io_return ()"
    and "n \<noteq> 0 \<Longrightarrow> b \<noteq> [] \<Longrightarrow> length b < min kChunkSize n \<Longrightarrow> file_loop content off n = io_then (conn_write b) (io_return ())"
    and "n \<noteq> 0 \<Longrightarrow> b \<noteq> [] \<Longrightarrow> \<not> length b < min kChunkSize n \<Longrightarrow>
      file_loop content off n = io_then (conn_write b) (file_loop content (off + length b) (n - length b))"
  unfolding file_loop.simps [of content off n] Let_def b_def [symmetric] by auto

lemma delivers_file_loop: "delivers (file_loop content off n) (take n (drop off content))"
proof (induction n arbitrary: off rule: less_induct)
  case (less n)
  define b where "b = take (min kChunkSize n) (drop off content)"
  note cases = file_loop_cases [of n off content, folded b_def]
  consider "n = 0 \<or> b = []" | "n \<noteq> 0" "b \<noteq> []" "length b < min kChunkSize n" | "n \<noteq> 0" "b \<noteq> []" "\<not> length b < min kChunkSize n"
    by blast
  then show ?case
  proof cases
    case 1
    then have "take n (drop off content) = []" by (auto simp: b_def kChunkSize_def min_def split: if_splits)
    then show ?thesis unfolding cases(1) [OF 1] by (simp only: delivers_return)
  next
    case 2
    then have all: "take n (drop off content) = b" by (simp add: b_def min_def split: if_splits)
    show ?thesis using delivers_then [OF delivers_conn_write delivers_return, of b "()"]
      unfolding cases(2) [OF 2] all by simp
  next
    case 3
    moreover have "length b \<le> min kChunkSize n" unfolding b_def length_take by (rule min.cobounded2)
    ultimately have len: "length b = min kChunkSize n" by linarith
    have "delivers (file_loop content (off + length b) (n - length b)) (take (n - length b) (drop (off + length b) content))"
      using 3 by (intro less) (cases b, simp_all)
    moreover have "take n (drop off content) = b @ take (n - length b) (drop (off + length b) content)"
      using take_add [of "min kChunkSize n" "n - min kChunkSize n" "drop off content"]
      unfolding len by (simp add: b_def add.commute)
    ultimately show ?thesis unfolding cases(3) [OF 3] using delivers_then [OF delivers_conn_write] by metis
  qed
qed

lemma delivers_file [intro]: "delivers (writeFileResponse files fb res prefix) (file_text files fb res prefix)"
proof -
  let ?w = "conn_write (head_text (preparePayload res) prefix)"
  have any: "delivers (\<lambda>c. (Inl e, c)) t" for e t by (simp add: delivers_def)
  have "delivers (case files (file_path fb) of None \<Rightarrow> (\<lambda>c. (Inl (SysErr OtherError), c))
        | Some content \<Rightarrow> io_then ?w (if file_length fb < 0 then (\<lambda>c. (Inl (StdExn ''length_error''), c))
               else if file_offset fb < 0 then io_return ()
               else file_loop content (nat (file_offset fb)) (nat (file_length fb))))
      (file_text files fb res prefix)"
  proof (cases "files (file_path fb)")
    case None
    then show ?thesis by (simp add: any)
  next
    case (Some content)
    have w: "delivers ?w (head_text (preparePayload res) prefix)" ..
    consider "file_length fb < 0" | "\<not> file_length fb < 0" "file_offset fb < 0" | "\<not> file_length fb < 0" "\<not> file_offset fb < 0"
      by blast
    then show ?thesis
    proof cases
      case 1
      then show ?thesis unfolding file_text_def using Some delivers_then [OF w any [of "StdExn ''length_error''" "[]"]] by simp
    next
      case 2
      then show ?thesis unfolding file_text_def using Some delivers_then [OF w delivers_return [of "()"]] by simp
    next
      case 3
      then show ?thesis unfolding file_text_def using Some delivers_then [OF w delivers_file_loop] by simp
    qed
  qed
  from delivers_then [OF delivers_record this] show ?thesis by (simp add: writeFileResponse_def Let_def cong: option.case_cong)
qed

lemma delivers_raw [intro]: "delivers (sendRawResponse st reason body) (fb_view (raw_response st reason body))"
  using delivers_then [OF delivers_record delivers_write_wire] by (simp add: sendRawResponse_def)

section \<open>The last stage of a request\<close>

definition kMaxResponseBatchBytes :: nat where
  "kMaxResponseBatchBytes = 64 * 1024"

text \<open>\<open>rebuildPrefix\<close>; \<open>ver\<close> is \<open>HICAL_VERSION_STRING\<close>. The second component is \<open>dateValueOffset\<close>.\<close>

definition rebuildPrefix :: "string \<Rightarrow> bool \<Rightarrow> string \<Rightarrow> string \<times> nat" where
  "rebuildPrefix ver keep date =
     (let front = ''Server: '' @ ver @ CRLF @ (if keep then ''Connection: keep-alive'' @ CRLF else ''Connection: close'' @ CRLF)
                  @ ''Date: ''
      in (front @ date @ CRLF, length front))"

text \<open>The date of the prefix, overwritten in place.\<close>

definition refresh_date :: "string \<times> nat \<Rightarrow> string \<Rightarrow> string \<times> nat" where
  "refresh_date prefix date = (copy_into (fst prefix) (snd prefix) date, snd prefix)"

lemma refresh_rebuild:
  assumes "length date = length date'"
  shows "refresh_date (rebuildPrefix ver keep date) date' = rebuildPrefix ver keep date'"
proof -
  have "copy_into (front @ date @ CRLF) (length front) date' = front @ date' @ CRLF" for front
    using assms by (simp add: copy_into_def)
  then show ?thesis unfolding refresh_date_def rebuildPrefix_def Let_def fst_conv snd_conv by (simp only:)
qed

record Reply =
  rp_keepAlive :: bool
  rp_isHead :: bool
  rp_prefix :: string
  rp_bufUsed :: nat
  rp_date :: string
  rp_res :: NativeResponse

definition reply_res :: "Reply \<Rightarrow> NativeResponse" where
  "reply_res rp = (rp_res rp)\<lparr>httpVersionMinor := 1, keepAlive := rp_keepAlive rp\<rparr>"

definition closing_headers :: "string \<Rightarrow> string \<Rightarrow> NativeResponse \<Rightarrow> NativeResponse" where
  "closing_headers ver date r =
     r\<lparr>res_headers := hm_insert (hm_insert (hm_insert (res_headers r) ''Server'' ver) ''Connection'' ''close'') ''Date'' date\<rparr>"

definition send_reply :: "(string \<Rightarrow> string option) \<Rightarrow> string \<Rightarrow> Reply \<Rightarrow> unit io" where
  "send_reply files ver rp c =
     (let keep = rp_keepAlive rp; isHead = rp_isHead rp; prefix = rp_prefix rp;
          r = reply_res rp
      in if \<not> keep
         then let r1 = closing_headers ver (rp_date rp) r in
              io_then flushPendingResponses
                (case fileBody r1 of
                   Some fb \<Rightarrow> if isHead then writeResponse r1 isHead else writeFileResponse files fb r1 []
                 | None \<Rightarrow> writeResponse r1 isHead) c
         else if fileBody r \<noteq> None \<or> chunkedBody r \<noteq> None
         then io_then flushPendingResponses
                (case fileBody r of
                   Some fb \<Rightarrow> if isHead then writeResponse_prefix r prefix isHead else writeFileResponse files fb r prefix
                 | None \<Rightarrow> writeResponse_prefix r prefix isHead) c
         else if length (res_body r) \<ge> kMaxResponseBatchBytes
         then io_then flushPendingResponses (writeResponse_prefix r prefix isHead) c
         else if responseBatch c = [] \<and> rp_bufUsed rp = 0 then writeResponse_prefix r prefix isHead c
         else io_then (appendResponseToBatch r prefix isHead)
                (\<lambda>c1. if length (responseBatch c1) \<ge> kMaxResponseBatchBytes then flushResponseBatch c1 else (Inr (), c1)) c)"

definition reply_text :: "(string \<Rightarrow> string option) \<Rightarrow> string \<Rightarrow> Reply \<Rightarrow> string" where
  "reply_text files ver rp =
     (let r0 = reply_res rp;
          r = (if rp_keepAlive rp then r0 else closing_headers ver (rp_date rp) r0);
          prefix = (if rp_keepAlive rp then rp_prefix rp else [])
      in case fileBody r of
           Some fb \<Rightarrow> if rp_isHead rp then response_text r prefix True else file_text files fb r prefix
         | None \<Rightarrow> response_text r prefix (rp_isHead rp))"

section \<open>Batching is invisible\<close>

text \<open>What the peer is bound to see: the bytes on the wire, then the batch.\<close>

definition pending_out :: "Conn \<Rightarrow> string" where
  "pending_out c = bytes_out c @ responseBatch c"

definition emits :: "'a io \<Rightarrow> string \<Rightarrow> bool" where
  "emits m s \<longleftrightarrow> (\<forall>c x c'. m c = (x, c') \<longrightarrow> input_side c' = input_side c
     \<and> (case x of Inr _ \<Rightarrow> pending_out c' = pending_out c @ s
                | Inl _ \<Rightarrow> \<exists>q. pending_out c @ s = bytes_out c' @ q))"

lemma emitsD:
  assumes "emits m s" and "m c = (x, c')"
  shows "input_side c' = input_side c"
    and "x = Inr y \<Longrightarrow> pending_out c' = pending_out c @ s"
    and "x = Inl e \<Longrightarrow> \<exists>q. pending_out c @ s = bytes_out c' @ q"
  using assms unfolding emits_def by fastforce+

lemma emits_bind:
  assumes m: "emits m s" and f: "\<And>x. emits (f x) t"
  shows "emits (io_bind m f) (s @ t)"
proof (unfold emits_def, intro allI impI)
  fix c x c' assume run: "io_bind m f c = (x, c')"
  obtain y c1 where y: "m c = (y, c1)" by fastforce
  note my = emitsD [OF m y]
  show "input_side c' = input_side c \<and> (case x of Inr _ \<Rightarrow> pending_out c' = pending_out c @ s @ t
      | Inl _ \<Rightarrow> \<exists>q. pending_out c @ s @ t = bytes_out c' @ q)"
  proof (cases y)
    case (Inl e)
    then have "x = Inl e" "c' = c1" using run y by (simp_all add: io_bind_def)
    moreover obtain q where "pending_out c @ s = bytes_out c1 @ q" using my(3) [OF Inl] by blast
    then have "\<exists>q. pending_out c @ s @ t = bytes_out c1 @ q" by (metis append.assoc)
    ultimately show ?thesis using my(1) by simp
  next
    case (Inr z)
    then have fz: "f z c1 = (x, c')" using run y by (simp add: io_bind_def)
    note fy = emitsD [OF f fz]
    have w: "pending_out c1 = pending_out c @ s" using my(2) [OF Inr] .
    show ?thesis using fy my(1) w by (cases x) simp_all
  qed
qed

lemma flush_emits: "emits flushPendingResponses []"
proof (unfold emits_def, intro allI impI)
  fix c x c' assume run: "flushPendingResponses c = (x, c')"
  show "input_side c' = input_side c \<and> (case x of Inr _ \<Rightarrow> pending_out c' = pending_out c @ []
      | Inl _ \<Rightarrow> \<exists>q. pending_out c @ [] = bytes_out c' @ q)"
  proof (cases "responseBatch c = []")
    case True
    then show ?thesis using run by (auto simp: flushPendingResponses_def)
  next
    case False
    let ?m = "io_then recordResponseWrite (write_wire (responseBatch c))"
    have d: "delivers ?m (responseBatch c)" using delivers_then [OF delivers_record delivers_write_wire] by simp
    obtain y c1 where y: "?m c = (y, c1)" by fastforce
    note my = deliversD [OF d y]
    have assoc: "io_then recordResponseWrite (io_then (write_wire (responseBatch c)) (set_batch [])) c
        = io_then ?m (set_batch []) c"
      by (simp add: io_bind_def recordResponseWrite_def)
    have eq: "flushPendingResponses c = (case y of Inl e \<Rightarrow> (Inl e, c1) | Inr u \<Rightarrow> (Inr (), c1\<lparr>responseBatch := []\<rparr>))"
      using False y unfolding flushPendingResponses_def flushResponseBatch_def assoc io_bind_def [of ?m]
      by (simp add: set_batch_def split: sum.split)
    show ?thesis
    proof (cases y)
      case (Inl e)
      then obtain p q where "responseBatch c = p @ q" "bytes_out c1 = bytes_out c @ p" using my(4) by blast
      then show ?thesis using Inl eq run my(1) by (auto simp: pending_out_def)
    next
      case (Inr u)
      then have "x = Inr ()" "c' = c1\<lparr>responseBatch := []\<rparr>" using eq run by simp_all
      then show ?thesis using my(1,3) Inr by (simp add: pending_out_def input_side_def bytes_out_def)
    qed
  qed
qed

lemma flush_empties: "flushPendingResponses c = (Inr x, c') \<Longrightarrow> responseBatch c' = []"
  by (auto simp: flushPendingResponses_def flushResponseBatch_def io_bind_def set_batch_def
      split: if_splits prod.splits sum.splits)

lemma direct_emits:
  assumes d: "delivers m s" and "responseBatch c = []" and "m c = (x, c')"
  shows "input_side c' = input_side c \<and> (case x of Inr _ \<Rightarrow> pending_out c' = pending_out c @ s
      | Inl _ \<Rightarrow> \<exists>q. pending_out c @ s = bytes_out c' @ q)"
  using deliversD [OF d assms(3)] assms(2) by (cases x) (auto simp: pending_out_def)

lemma flushed_emits:
  assumes d: "delivers m s"
  shows "emits (io_then flushPendingResponses m) s"
proof (unfold emits_def, intro allI impI)
  fix c x c' assume run: "io_then flushPendingResponses m c = (x, c')"
  obtain y c1 where y: "flushPendingResponses c = (y, c1)" by fastforce
  note my = emitsD [OF flush_emits y]
  show "input_side c' = input_side c \<and> (case x of Inr _ \<Rightarrow> pending_out c' = pending_out c @ s
      | Inl _ \<Rightarrow> \<exists>q. pending_out c @ s = bytes_out c' @ q)"
  proof (cases y)
    case (Inl e)
    then have "x = Inl e" "c' = c1" using run y by (simp_all add: io_bind_def)
    moreover obtain q where "pending_out c = bytes_out c1 @ q" using my(3) [OF Inl] by auto
    ultimately show ?thesis using my(1) by auto
  next
    case (Inr u)
    then have "m c1 = (x, c')" "responseBatch c1 = []" using run y flush_empties by (auto simp: io_bind_def)
    moreover have "pending_out c1 = pending_out c" using my(2) [OF Inr] by simp
    ultimately show ?thesis using direct_emits [OF d, of c1 x c'] my(1) by (cases x) simp_all
  qed
qed

lemma append_emits: "emits (appendResponseToBatch r prefix skip) (response_text r prefix skip)"
  if "chunkedBody r = None"
  using that
  by (auto simp: emits_def appendResponseToBatch_def response_text_def pending_out_def input_side_def bytes_out_def Let_def)

lemma full_flush_emits:
  "emits (\<lambda>c. if length (responseBatch c) \<ge> kMaxResponseBatchBytes then flushResponseBatch c else (Inr (), c)) []"
proof -
  have "flushResponseBatch c = flushPendingResponses c" if "length (responseBatch c) \<ge> kMaxResponseBatchBytes" for c
    using that by (auto simp: flushPendingResponses_def kMaxResponseBatchBytes_def)
  then show ?thesis using flush_emits unfolding emits_def by (auto simp: pending_out_def)
qed

lemma send_reply_emits: "emits (send_reply files ver rp) (reply_text files ver rp)"
proof -
  let ?r0 = "reply_res rp"
  let ?r1 = "closing_headers ver (rp_date rp) ?r0"
  let ?h = "rp_isHead rp" and ?p = "rp_prefix rp"
  show ?thesis
  proof (cases "rp_keepAlive rp")
    case False
    have "delivers (case fileBody ?r1 of
            Some fb \<Rightarrow> if ?h then writeResponse ?r1 ?h else writeFileResponse files fb ?r1 []
          | None \<Rightarrow> writeResponse ?r1 ?h) (reply_text files ver rp)"
      using False delivers_writeResponse [of ?r1 ?h]
      by (auto simp: reply_text_def Let_def split: option.split)
    from flushed_emits [OF this] False show ?thesis
      by (simp add: send_reply_def [abs_def] Let_def)
  next
    case keep: True
    have d: "delivers (writeResponse_prefix ?r0 ?p ?h) (response_text ?r0 ?p ?h)" ..
    show ?thesis
    proof (cases "fileBody ?r0 \<noteq> None \<or> chunkedBody ?r0 \<noteq> None")
      case True
      have "delivers (case fileBody ?r0 of
              Some fb \<Rightarrow> if ?h then writeResponse_prefix ?r0 ?p ?h else writeFileResponse files fb ?r0 ?p
            | None \<Rightarrow> writeResponse_prefix ?r0 ?p ?h) (reply_text files ver rp)"
        using keep d by (auto simp: reply_text_def Let_def split: option.split)
      from flushed_emits [OF this] keep True show ?thesis
        by (simp add: send_reply_def [abs_def] Let_def cong: option.case_cong)
    next
      case False
      then have t: "reply_text files ver rp = response_text ?r0 ?p ?h"
        using keep by (simp add: reply_text_def Let_def)
      let ?batch = "io_then (appendResponseToBatch ?r0 ?p ?h)
          (\<lambda>c. if length (responseBatch c) \<ge> kMaxResponseBatchBytes then flushResponseBatch c else (Inr (), c))"
      have b: "emits ?batch (response_text ?r0 ?p ?h)"
        using emits_bind [OF append_emits full_flush_emits, of ?r0 ?p ?h] False by simp
      have s: "send_reply files ver rp c =
          (if length (res_body ?r0) \<ge> kMaxResponseBatchBytes then io_then flushPendingResponses (writeResponse_prefix ?r0 ?p ?h) c
           else if responseBatch c = [] \<and> rp_bufUsed rp = 0 then writeResponse_prefix ?r0 ?p ?h c else ?batch c)" for c
        using keep False by (simp add: send_reply_def Let_def)
      show ?thesis
      proof (unfold emits_def, intro allI impI)
        fix c x c' assume run: "send_reply files ver rp c = (x, c')"
        show "input_side c' = input_side c \<and> (case x of Inr _ \<Rightarrow> pending_out c' = pending_out c @ reply_text files ver rp
            | Inl _ \<Rightarrow> \<exists>q. pending_out c @ reply_text files ver rp = bytes_out c' @ q)"
          using run direct_emits [OF d, of c x c'] flushed_emits [OF d] b
          unfolding s t emits_def by (simp split: if_splits)
      qed
    qed
  qed
qed

text \<open>The contract of a stage that answers requests, and what follows for a sequence of answers.\<close>

locale answering =
  fixes put :: "'r \<Rightarrow> unit io"
    and answer_text :: "'r \<Rightarrow> string"
  assumes put_emits: "emits (put r) (answer_text r)"
begin

lemma put_all: "emits (foldr (\<lambda>r m. io_then (put r) m) rs (io_return ())) (concat (map answer_text rs))"
proof (induction rs)
  case Nil
  then show ?case by (simp add: emits_def io_return_def)
next
  case (Cons r rs)
  then show ?case using emits_bind [OF put_emits Cons.IH] by simp
qed

lemma put_all_flushed:
  assumes "io_then (foldr (\<lambda>r m. io_then (put r) m) rs (io_return ())) flushPendingResponses c = (Inr u, c')"
  shows "bytes_out c' = bytes_out c @ responseBatch c @ concat (map answer_text rs)" and "responseBatch c' = []"
    and "input_side c' = input_side c"
proof -
  obtain c1 v where v: "foldr (\<lambda>r m. io_then (put r) m) rs (io_return ()) c = (Inr v, c1)"
      "flushPendingResponses c1 = (Inr u, c')"
    using assms by (auto simp: io_bind_def split: prod.splits sum.splits)
  show b: "responseBatch c' = []" using v(2) by (rule flush_empties)
  from emitsD [OF emits_bind [OF put_all flush_emits] assms]
  show "input_side c' = input_side c" and "bytes_out c' = bytes_out c @ responseBatch c @ concat (map answer_text rs)"
    using b by (simp_all add: pending_out_def)
qed

end

interpretation session_replies: answering "send_reply files ver" "reply_text files ver" for files ver
  by unfold_locales (rule send_reply_emits)

section \<open>Properties\<close>

text \<open>A socket without a failing write: everything is delivered.\<close>

definition healthy :: "Conn \<Rightarrow> bool" where
  "healthy c \<longleftrightarrow> sock_open (c_sock c) \<and> write_faults (c_sock c) = []"

definition never_fails :: "'a io \<Rightarrow> bool" where
  "never_fails m \<longleftrightarrow> (\<forall>c. healthy c \<longrightarrow> (\<exists>x c'. m c = (Inr x, c') \<and> healthy c'))"

lemma never_fails_return [intro]: "never_fails (io_return x)" "never_fails recordResponseWrite" "never_fails (set_batch b)"
    "never_fails (appendResponseToBatch r prefix skip)"
  by (simp_all add: never_fails_def io_return_def recordResponseWrite_def set_batch_def appendResponseToBatch_def
      healthy_def Let_def)

lemma never_fails_bind: "never_fails m \<Longrightarrow> (\<And>x. never_fails (f x)) \<Longrightarrow> never_fails (io_bind m f)"
  unfolding never_fails_def io_bind_def by (metis (no_types, lifting) case_prod_conv sum.case(2))

lemma never_fails_conn_write [intro]: "never_fails (conn_write s)"
  by (simp add: never_fails_def conn_write_def async_write_def healthy_def)

lemma never_fails_write_wire [intro]: "never_fails (write_wire s)"
proof (unfold never_fails_def, intro allI impI)
  fix c assume h: "healthy c"
  obtain r c1 where r: "tryOptimisticWrite s c = (r, c1)" by fastforce
  obtain b n where bn: "r = (b, n)" by fastforce
  have "healthy c1"
    using r h by (auto simp: healthy_def tryOptimisticWrite_def write_some_def Let_def split: if_splits list.splits option.splits)
  then show "\<exists>x c'. write_wire s c = (Inr x, c') \<and> healthy c'"
    using r bn never_fails_conn_write [of "drop n s"]
    by (cases b) (auto simp: write_wire_def writeRemaining_def never_fails_def)
qed

lemma never_fails_flush [intro]: "never_fails flushPendingResponses"
proof -
  have "never_fails (io_then recordResponseWrite (io_then (write_wire b) (set_batch [])))" for b
    by (intro never_fails_bind) auto
  then show ?thesis by (auto simp: never_fails_def flushPendingResponses_def flushResponseBatch_def)
qed

lemma never_fails_full_flush [intro]:
  "never_fails (\<lambda>c. if length (responseBatch c) \<ge> kMaxResponseBatchBytes then flushResponseBatch c else (Inr (), c))"
proof -
  have "flushResponseBatch c = flushPendingResponses c" for c
    by (simp add: flushPendingResponses_def flushResponseBatch_def)
  then show ?thesis using never_fails_flush by (auto simp: never_fails_def)
qed

lemma never_fails_writeResponse [intro]: "never_fails (writeResponse_prefix res prefix skip)" "never_fails (writeResponse res skip)"
proof -
  have "never_fails (write_chunked hb b skip)" "never_fails (write_plain hb body skip)" for hb b body
    by (auto simp: write_chunked_def write_plain_def write_wire2_eq Let_def)
  then show "never_fails (writeResponse_prefix res prefix skip)"
    unfolding writeResponse_prefix_def Let_def by (intro never_fails_bind) (auto split: option.split)
  then show "never_fails (writeResponse res skip)" unfolding writeResponse_plain
    unfolding writeResponse_prefix_def Let_def
    by (intro never_fails_bind) (auto split: option.split simp: \<open>\<And>hb b. never_fails (write_chunked hb b skip)\<close>
      \<open>\<And>hb body. never_fails (write_plain hb body skip)\<close>)
qed

lemma never_fails_file_loop: "never_fails (file_loop content off n)"
proof (induction n arbitrary: off rule: less_induct)
  case (less n)
  define b where "b = take (min kChunkSize n) (drop off content)"
  note cases = file_loop_cases [of n off content, folded b_def]
  consider "n = 0 \<or> b = []" | "n \<noteq> 0" "b \<noteq> []" "length b < min kChunkSize n" | "n \<noteq> 0" "b \<noteq> []" "\<not> length b < min kChunkSize n"
    by blast
  then show ?case
  proof cases
    case 1
    then show ?thesis unfolding cases(1) [OF 1] by auto
  next
    case 2
    then show ?thesis unfolding cases(2) [OF 2] by (intro never_fails_bind) auto
  next
    case 3
    then have "n - length b < n" by (cases b) auto
    then show ?thesis unfolding cases(3) [OF 3] using less by (intro never_fails_bind) auto
  qed
qed

definition sendable_reply :: "(string \<Rightarrow> string option) \<Rightarrow> Reply \<Rightarrow> bool" where
  "sendable_reply files rp \<longleftrightarrow>
     (case fileBody (rp_res rp) of None \<Rightarrow> True | Some fb \<Rightarrow> files (file_path fb) \<noteq> None \<and> file_length fb \<ge> 0)"

lemma never_fails_file:
  "files (file_path fb) \<noteq> None \<Longrightarrow> file_length fb \<ge> 0 \<Longrightarrow> never_fails (writeFileResponse files fb res prefix)"
  unfolding writeFileResponse_def Let_def
  by (intro never_fails_bind) (auto intro!: never_fails_bind never_fails_file_loop)

lemma never_fails_send_reply: "sendable_reply files rp \<Longrightarrow> never_fails (send_reply files ver rp)"
proof -
  let ?r0 = "reply_res rp"
  assume s: "sendable_reply files rp"
  have f: "fileBody ?r0 = Some fb \<Longrightarrow> never_fails (writeFileResponse files fb res prefix)" for fb res prefix
    using s never_fails_file by (auto simp: sendable_reply_def reply_res_def)
  have "fileBody (closing_headers ver d ?r0) = fileBody ?r0" for d by (simp add: closing_headers_def)
  then have a: "never_fails (io_then flushPendingResponses
      (case fileBody (closing_headers ver (rp_date rp) ?r0) of
         Some fb \<Rightarrow> if rp_isHead rp then writeResponse (closing_headers ver (rp_date rp) ?r0) (rp_isHead rp)
            else writeFileResponse files fb (closing_headers ver (rp_date rp) ?r0) []
       | None \<Rightarrow> writeResponse (closing_headers ver (rp_date rp) ?r0) (rp_isHead rp)))"
    using f by (intro never_fails_bind) (auto split: option.split)
  have b: "never_fails (io_then flushPendingResponses
      (case fileBody ?r0 of
         Some fb \<Rightarrow> if rp_isHead rp then writeResponse_prefix ?r0 (rp_prefix rp) (rp_isHead rp)
            else writeFileResponse files fb ?r0 (rp_prefix rp)
       | None \<Rightarrow> writeResponse_prefix ?r0 (rp_prefix rp) (rp_isHead rp)))"
    using f by (intro never_fails_bind) (auto split: option.split)
  have c: "never_fails (io_then flushPendingResponses (writeResponse_prefix ?r0 (rp_prefix rp) (rp_isHead rp)))"
    by (intro never_fails_bind) auto
  have d: "never_fails (io_then (appendResponseToBatch ?r0 (rp_prefix rp) (rp_isHead rp))
      (\<lambda>c. if length (responseBatch c) \<ge> kMaxResponseBatchBytes then flushResponseBatch c else (Inr (), c)))"
    by (intro never_fails_bind) auto
  show ?thesis
    using a b c d never_fails_writeResponse(1) [of ?r0 "rp_prefix rp" "rp_isHead rp"]
    unfolding never_fails_def send_reply_def Let_def by simp
qed

text \<open>Answering a sequence of requests and then waiting for the next.\<close>

definition send_replies :: "(string \<Rightarrow> string option) \<Rightarrow> string \<Rightarrow> Reply list \<Rightarrow> unit io" where
  "send_replies files ver rps =
     io_then (foldr (\<lambda>rp m. io_then (send_reply files ver rp) m) rps (io_return ())) flushPendingResponses"

text \<open>
  C1. Responses leave in the order of their requests, whole, and exactly once. Whatever the socket takes
  of each synchronous write, whether or not the responses are batched, and whatever their bodies are:
  once the pending responses are flushed, the wire holds what it held before, the batch, and then the
  texts of the responses in order. With files that can be read and a socket that takes all asynchronous
  writes this point is reached.
\<close>

theorem responses_in_order:
  "(send_replies files ver rps c = (Inr u, c') \<longrightarrow>
      bytes_out c' = bytes_out c @ responseBatch c @ concat (map (reply_text files ver) rps)
    \<and> responseBatch c' = [] \<and> input_side c' = input_side c)
   \<and> (healthy c \<longrightarrow> list_all (sendable_reply files) rps \<longrightarrow> (\<exists>c'. send_replies files ver rps c = (Inr (), c')))"
proof (intro conjI impI)
  assume "send_replies files ver rps c = (Inr u, c')"
  note run = this [unfolded send_replies_def]
  show "bytes_out c' = bytes_out c @ responseBatch c @ concat (map (reply_text files ver) rps)"
    "responseBatch c' = []" "input_side c' = input_side c"
    using session_replies.put_all_flushed [OF run] by blast+
next
  assume h: "healthy c" and ok: "list_all (sendable_reply files) rps"
  have "never_fails (foldr (\<lambda>rp m. io_then (send_reply files ver rp) m) rps (io_return ()))"
    using ok by (induction rps) (auto intro!: never_fails_bind never_fails_send_reply)
  then have "never_fails (send_replies files ver rps)" unfolding send_replies_def by (intro never_fails_bind) auto
  then show "\<exists>c'. send_replies files ver rps c = (Inr (), c')" using h by (auto simp: never_fails_def)
qed

text \<open>A connection whose socket takes three bytes at first, with two pipelined answers.\<close>

definition sample_conn :: Conn where
  "sample_conn = \<lparr>c_sock = \<lparr>incoming = [], in_end = Eof, sent = [], write_faults = [], sock_open = True\<rparr>,
     write_limits = [Some 3, None], is_ssl = False, counter = None, pipelineSpill = [], responseBatch = []\<rparr>"

definition sample_reply :: "nat \<Rightarrow> Reply" where
  "sample_reply left = \<lparr>rp_keepAlive = True, rp_isHead = False, rp_prefix = [], rp_bufUsed = left, rp_date = [], rp_res = notFound\<rparr>"

theorem responses_in_order_witness:
  "\<exists>c'. send_replies Map.empty [] [sample_reply 5, sample_reply 0] sample_conn = (Inr (), c')
   \<and> bytes_out c' = reply_text Map.empty [] (sample_reply 5) @ reply_text Map.empty [] (sample_reply 0)"
proof -
  let ?rps = "[sample_reply 5, sample_reply 0]"
  have "healthy sample_conn" "list_all (sendable_reply Map.empty) ?rps"
    by (simp_all add: healthy_def sample_conn_def sendable_reply_def sample_reply_def notFound_parts)
  then obtain c' where c': "send_replies Map.empty [] ?rps sample_conn = (Inr (), c')"
    using responses_in_order [of Map.empty "[]" ?rps sample_conn] by blast
  moreover have "bytes_out sample_conn = []" "responseBatch sample_conn = []" by (simp_all add: sample_conn_def bytes_out_def)
  ultimately show ?thesis using responses_in_order [of Map.empty "[]" ?rps sample_conn "()" c'] by auto
qed

section \<open>No response can be split\<close>

text \<open>The response as the last stage sends it, and its payload on the wire.\<close>

definition reply_final :: "string \<Rightarrow> Reply \<Rightarrow> NativeResponse" where
  "reply_final ver rp =
     (let r = reply_res rp in preparePayload (if rp_keepAlive rp then r else closing_headers ver (rp_date rp) r))"

definition reply_payload :: "(string \<Rightarrow> string option) \<Rightarrow> Reply \<Rightarrow> string" where
  "reply_payload files rp =
     (if rp_isHead rp then []
      else case fileBody (rp_res rp) of
        Some fb \<Rightarrow> if file_offset fb < 0 then []
          else take (nat (file_length fb)) (drop (nat (file_offset fb)) (case files (file_path fb) of Some s \<Rightarrow> s | None \<Rightarrow> []))
      | None \<Rightarrow> (case chunkedBody (rp_res rp) of Some b \<Rightarrow> serializeChunkedBody b | None \<Rightarrow> res_body (rp_res rp)))"

lemma reply_fields_kept [simp]:
  "fileBody (reply_final ver rp) = fileBody (rp_res rp)" "chunkedBody (reply_final ver rp) = chunkedBody (rp_res rp)"
  "res_body (reply_final ver rp) = res_body (rp_res rp)" "res_status (reply_final ver rp) = res_status (rp_res rp)"
  "httpVersionMinor (reply_final ver rp) = 1"
  by (simp_all add: reply_final_def reply_res_def closing_headers_def Let_def)

lemma reply_text_parts:
  "reply_text files ver rp =
     head_text (reply_final ver rp) (if rp_keepAlive rp then rp_prefix rp else []) @ reply_payload files rp"
proof -
  have "fileBody (reply_res rp) = fileBody (rp_res rp)" "chunkedBody (reply_res rp) = chunkedBody (rp_res rp)"
    "res_body (reply_res rp) = res_body (rp_res rp)"
    "fileBody (closing_headers ver d r) = fileBody r" "chunkedBody (closing_headers ver d r) = chunkedBody r"
    "res_body (closing_headers ver d r) = res_body r" for d r
    by (simp_all add: reply_res_def closing_headers_def)
  then show ?thesis
    by (simp add: reply_text_def reply_payload_def reply_final_def response_text_def file_text_def Let_def
        split: option.split)
qed

lemma rebuildPrefix_fields:
  "fst (rebuildPrefix ver keep date) = concat (map (\<lambda>t. trailer_line t @ CRLF)
     [(''Server'', ver), (''Connection'', if keep then ''keep-alive'' else ''close''), (''Date'', date)])"
  by (simp add: rebuildPrefix_def trailer_line_def)

lemma reply_final_clean:
  assumes "built user (rp_res rp)" and "no_break ver" and "no_break (rp_date rp)"
  shows "fields_clean (res_headers (reply_final ver rp))"
proof -
  have "fields_clean (res_headers (rp_res rp))" using built_clean [OF assms(1)] by blast
  with assms(2,3) show ?thesis
    by (auto simp: reply_final_def reply_res_def closing_headers_def Let_def fields_clean_insert is_break_def
        intro!: preparePayload_clean)
qed

text \<open>
  C13. No response splitting in the head: for every response built through the interface, whatever strings
  the handler passes as header names and values, cookie names, values and options, content types or
  redirect targets, the bytes the last stage sends are read back as exactly the status line, the
  header fields in order with the server's own three, and the payload; nothing a handler passes there
  can begin a field or the body of its own. (The payload may be a chunked body; the trailers given to
  \<open>ChunkedBody::end\<close> are not checked by the code and are part of that payload.)
\<close>

theorem reply_not_split:
  assumes "built user (rp_res rp)" and "no_break ver" and "no_break (rp_date rp)" and "no_break date"
    and "rp_prefix rp = fst (rebuildPrefix ver True date)"
    and "send_reply files ver rp c = (Inr u, c')"
  shows "\<exists>wire. pending_out c' = pending_out c @ wire
    \<and> read_head wire = Some (status_line (reply_final ver rp),
         map trailer_line (res_headers (reply_final ver rp))
           @ (if rp_keepAlive rp then [''Server: '' @ ver, ''Connection: keep-alive'', ''Date: '' @ date] else []),
         reply_payload files rp)"
proof -
  let ?r = "reply_final ver rp"
  let ?own = "if rp_keepAlive rp then [(''Server'', ver), (''Connection'', ''keep-alive''), (''Date'', date)] else []"
  have "reply_text files ver rp = status_line ?r @ CRLF
      @ concat (map (\<lambda>t. trailer_line t @ CRLF) (res_headers ?r @ ?own)) @ CRLF @ reply_payload files rp"
    unfolding reply_text_parts by (simp add: head_text_def assms(5) rebuildPrefix_fields)
  moreover have "fields_clean (res_headers ?r @ ?own)"
    using reply_final_clean [OF assms(1-3)] assms(2,4) by (auto simp: fields_clean_def is_break_def)
  moreover have "no_break (status_line ?r)" by (rule no_break_status_line) simp
  ultimately have "read_head (reply_text files ver rp)
      = Some (status_line ?r, map trailer_line (res_headers ?r @ ?own), reply_payload files rp)"
    using read_head_parts [of "status_line ?r" "res_headers ?r @ ?own" "reply_payload files rp"] by (simp only:)
  moreover have "map trailer_line ?own
      = (if rp_keepAlive rp then [''Server: '' @ ver, ''Connection: keep-alive'', ''Date: '' @ date] else [])"
    by (simp add: trailer_line_def)
  ultimately have "read_head (reply_text files ver rp) = Some (status_line ?r, map trailer_line (res_headers ?r)
      @ (if rp_keepAlive rp then [''Server: '' @ ver, ''Connection: keep-alive'', ''Date: '' @ date] else []),
      reply_payload files rp)" by (simp only: map_append)
  with emitsD(2) [OF send_reply_emits assms(6) refl] show ?thesis by (intro exI [of _ "reply_text files ver rp"] conjI)
qed

definition sample_split_reply :: Reply where
  "sample_split_reply = \<lparr>rp_keepAlive = True, rp_isHead = False, rp_prefix = fst (rebuildPrefix ''h'' True ''d''),
     rp_bufUsed = 0, rp_date = ''d'',
     rp_res = setCookie ''id'' ''a;b'' \<lparr>ck_path = ''/'', ck_domain = [], maxAge = -1, httpOnly = True,
        secure = False, sameSite = []\<rparr> (setHeader ''X'' [CR, LF] (setHeader ''Y'' ''1'' new_response))\<rparr>"

theorem reply_not_split_witness:
  "\<exists>c' wire. send_reply Map.empty ''h'' sample_split_reply sample_conn = (Inr (), c')
     \<and> pending_out c' = pending_out sample_conn @ wire
     \<and> read_head wire = Some (''HTTP/1.1 200 OK'', [''Y: 1'', ''Set-Cookie: id=a%3Bb; Path=/; HttpOnly'', ''Content-Length: 0'',
           ''Server: h'', ''Connection: keep-alive'', ''Date: d''], [])"
proof -
  have b: "built (\<lambda>_. True) (rp_res sample_split_reply)" by (simp add: sample_split_reply_def, intro built.intros TrueI)
  have "healthy sample_conn" "sendable_reply Map.empty sample_split_reply"
    by (simp_all add: healthy_def sample_conn_def sendable_reply_def sample_split_reply_def response_defs)
  then obtain c' where c': "send_reply Map.empty ''h'' sample_split_reply sample_conn = (Inr (), c')"
    using never_fails_send_reply unfolding never_fails_def by (metis old.unit.exhaust)
  have n: "no_break ''h''" "no_break (rp_date sample_split_reply)" "no_break ''d''"
    by (simp_all add: sample_split_reply_def is_break_def)
  have "rp_prefix sample_split_reply = fst (rebuildPrefix ''h'' True ''d'')" by (simp add: sample_split_reply_def)
  note w = reply_not_split [OF b n this c']
  moreover have "status_line (reply_final ''h'' sample_split_reply) = ''HTTP/1.1 200 OK''" by code_simp
  moreover have "map trailer_line (res_headers (reply_final ''h'' sample_split_reply))
      = [''Y: 1'', ''Set-Cookie: id=a%3Bb; Path=/; HttpOnly'', ''Content-Length: 0'']" by code_simp
  moreover have "reply_payload Map.empty sample_split_reply = []" by (simp add: reply_payload_def sample_split_reply_def response_defs)
  moreover have "rp_keepAlive sample_split_reply" by (simp add: sample_split_reply_def)
  ultimately show ?thesis using c' by auto
qed

end
