(* ===== verification/Http1_Body.thy ===== *)
theory Http1_Body
  imports Http1_Framing Http1_Write Ws_Handshake Router Middleware
begin

text \<open>
  Reading a request on an HTTP/1.1 connection, from \<open>handleSession\<close> of
  \<^verbatim>\<open>src/src/core/HttpSessionImpl.cpp\<close>: the loop that reads and parses the head, and \<open>readRequestBody\<close>
  with its three framings. picohttpparser is a parameter: \<open>parse_request\<close> is \<open>phr_parse_request\<close> on the
  bytes of the buffer and \<open>last_len\<close>, \<open>decode_chunked\<close> is \<open>phr_decode_chunked\<close> on the decoder state and
  the buffer, giving the decoded bytes and, at the end of the body, what follows it.
\<close>

section \<open>The server\<close>

record RawHead =
  raw_method :: string
  raw_path :: string
  raw_minor :: nat
  raw_fields :: phr_headers

datatype phr_result = PhrOk nat RawHead | PhrError | PhrPartial
datatype decode_ret = DecodeDone string | DecodeError | DecodePartial

text \<open>
  What a request's processing changes besides the request itself: the connection, and the local
  variables \<open>bodyRead\<close>, \<open>spillSrc\<close> and \<open>bufUsed\<close> of the loop. \<open>'s\<close> is the state of the application.
\<close>

record Ctx =
  cx_conn :: Conn
  bodyRead :: bool
  spillSrc :: nat
  bufUsed :: nat

type_synonym ('v, 's) sess = "'v HttpRequest \<times> Ctx \<times> 's"

record ('v, 's, 'c, 'd) HttpServer =
  router :: "(('v, 's) handler, 'c) Router"
  middlewarePipeline :: "(('v, 's) sess, NativeResponse) Pipeline"
  errorHandler :: "(string \<Rightarrow> 'v HttpRequest \<Rightarrow> string + NativeResponse) option"
  maxHeaderSize :: nat
  maxBodySize :: nat
  draining :: bool
  parse_request :: "string \<Rightarrow> nat \<Rightarrow> phr_result"
  decode_chunked :: "'d \<Rightarrow> string \<Rightarrow> 'd \<times> string \<times> decode_ret"
  decoder_init :: 'd
  files :: "string \<Rightarrow> string option"
  version_string :: string
  http_date :: "nat \<Rightarrow> string"
  system_what :: "SockErr \<Rightarrow> string"

definition exn_what :: "('v, 's, 'c, 'd) HttpServer \<Rightarrow> SessExn \<Rightarrow> string" where
  "exn_what srv e = (case e of SysErr k \<Rightarrow> system_what srv k | StdExn s \<Rightarrow> s)"

lemma incoming_input_side: "input_side c' = input_side c \<Longrightarrow> incoming (c_sock c') = incoming (c_sock c)"
  by (simp add: input_side_def)

lemma conn_read_less:
  "conn_read n c = (Inr bytes, c') \<Longrightarrow> bytes \<noteq> [] \<Longrightarrow> unread (incoming (c_sock c')) < unread (incoming (c_sock c))"
proof -
  assume r: "conn_read n c = (Inr bytes, c')" and b: "bytes \<noteq> []"
  then obtain k where k: "async_read_some n (c_sock c) = (Inr bytes, k)" "c' = c\<lparr>c_sock := k\<rparr>"
    by (auto simp: conn_read_def split: prod.splits sum.splits)
  have "0 < n"
  proof (rule ccontr)
    assume "\<not> 0 < n"
    moreover have "read_segments 0 segs = Some (x, rest) \<Longrightarrow> x = []" for segs :: "char list list" and x rest
      by (induction "0 :: nat" segs rule: read_segments.induct) (auto split: if_splits)
    ultimately show False using k(1) b by (auto simp: async_read_some_def split: if_splits option.splits)
  qed
  then show ?thesis using async_read_less [OF k(1)] k(2) by simp
qed

lemma conn_read_nonempty: "conn_read n c = (Inr bytes, c') \<Longrightarrow> 0 < n \<Longrightarrow> bytes \<noteq> []"
  by (auto simp: conn_read_def split: prod.splits sum.splits dest: async_read_Inr)

lemma conn_read_progress:
  "conn_read n c = (Inr bytes, c') \<Longrightarrow> 0 < n \<Longrightarrow> unread (incoming (c_sock c')) < unread (incoming (c_sock c))"
  using conn_read_less conn_read_nonempty by blast

lemma flush_incoming: "flushPendingResponses c = (x, c') \<Longrightarrow> incoming (c_sock c') = incoming (c_sock c)"
  by (rule incoming_input_side) (rule emitsD(1) [OF flush_emits])

lemma flush_read_less:
  "flushPendingResponses c = (x, c1) \<Longrightarrow> conn_read n c1 = (Inr bytes, c2) \<Longrightarrow> bytes \<noteq> [] \<Longrightarrow>
   unread (incoming (c_sock c2)) < unread (incoming (c_sock c))"
  using conn_read_less [of n c1 bytes c2] flush_incoming [of c x c1] by simp

section \<open>The head\<close>

datatype head_result = HeadDone string nat RawHead | HeadReject nat string string

abbreviation too_large :: head_result where
  "too_large \<equiv> HeadReject 431 ''Request Header Fields Too Large'' ''Request header too large''"

abbreviation malformed :: head_result where
  "malformed \<equiv> HeadReject 400 ''Bad Request'' ''Malformed HTTP request''"

text \<open>
  From the second attempt on: \<open>buf\<close> holds the bytes already parsed without success and \<open>cap\<close> is
  \<open>readBuf.size()\<close>. A read into free space never returns nothing; the branch for it only makes the
  function total.
\<close>

function head_loop :: "('v, 's, 'c, 'd) HttpServer \<Rightarrow> string \<Rightarrow> nat \<Rightarrow> head_result io" where
  "head_loop srv buf cap c =
     (if length buf \<ge> cap \<and> cap \<ge> maxHeaderSize srv then (Inr too_large, c)
      else let cap1 = (if length buf \<ge> cap then cap * 2 else cap)
           in case flushPendingResponses c of
                (Inl e, c1) \<Rightarrow> (Inl e, c1)
              | (Inr _, c1) \<Rightarrow>
                 (case conn_read (cap1 - length buf) c1 of
                    (Inl e, c2) \<Rightarrow> (Inl e, c2)
                  | (Inr bytes, c2) \<Rightarrow>
                      if bytes = [] then (Inl (StdExn ''no progress''), c2)
                      else (case parse_request srv (buf @ bytes) (length buf) of
                              PhrOk n h \<Rightarrow> if n > maxHeaderSize srv then (Inr too_large, c2)
                                          else (Inr (HeadDone (buf @ bytes) n h), c2)
                            | PhrError \<Rightarrow> (Inr malformed, c2)
                            | PhrPartial \<Rightarrow>
                                if length (buf @ bytes) > maxHeaderSize srv then (Inr too_large, c2)
                                else head_loop srv (buf @ bytes) cap1 c2)))"
  by pat_completeness auto
termination
  by (relation "measure (\<lambda>(_, _, _, c). unread (incoming (c_sock c)))") (auto intro: flush_read_less [OF sym sym])

declare head_loop.simps [simp del]

definition read_head_bytes :: "('v, 's, 'c, 'd) HttpServer \<Rightarrow> string \<Rightarrow> nat \<Rightarrow> head_result io" where
  "read_head_bytes srv buf cap =
     (case parse_request srv buf 0 of
        PhrOk n h \<Rightarrow> io_return (HeadDone buf n h)
      | PhrError \<Rightarrow> io_return malformed
      | PhrPartial \<Rightarrow> head_loop srv buf cap)"

section \<open>The body\<close>

definition bodyError :: "HttpStatusCode \<Rightarrow> string \<Rightarrow> NativeResponse" where
  "bodyError code msg = (setBodyType msg ''text/plain'' (setStatus code new_response))\<lparr>keepAlive := False\<rparr>"

definition k100 :: string where
  "k100 = ''HTTP/1.1 100 Continue'' @ CRLF @ CRLF"

text \<open>
  The loop for a body of known length: \<open>got\<close> is the part of the body's storage already filled, the rest of
  it is zero.
\<close>

function length_loop :: "nat \<Rightarrow> string \<Rightarrow> Conn \<Rightarrow> SessExn option \<times> string \<times> Conn" where
  "length_loop bodyRemaining got c =
     (if bodyRemaining = 0 then (None, got, c)
      else case conn_read bodyRemaining c of
             (Inl e, c1) \<Rightarrow> (Some e, got @ replicate bodyRemaining (CHR 0x00), c1)
           | (Inr bytes, c1) \<Rightarrow> length_loop (bodyRemaining - length bytes) (got @ bytes) c1)"
  by pat_completeness auto
termination
  by (relation "measure (\<lambda>(_, _, c). unread (incoming (c_sock c)))") (auto intro!: conn_read_progress [OF sym])

declare length_loop.simps [simp del]

datatype chunk_end = ChunkOk | ChunkErr NativeResponse | ChunkExn SessExn

function chunk_loop ::
  "('v, 's, 'c, 'd) HttpServer \<Rightarrow> 'd \<Rightarrow> string \<Rightarrow> string \<Rightarrow> Conn \<Rightarrow> chunk_end \<times> string \<times> Conn" where
  "chunk_loop srv d chunkBuf body c =
     (case decode_chunked srv d chunkBuf of
        (d1, out, ret) \<Rightarrow>
          if length (body @ out) > maxBodySize srv
          then (ChunkErr (bodyError hPayloadTooLarge ''Request body too large''), body @ out, c)
          else (case ret of
                  DecodeDone rest \<Rightarrow> (ChunkOk, body @ out, if rest \<noteq> [] then c\<lparr>pipelineSpill := rest\<rparr> else c)
                | DecodeError \<Rightarrow> (ChunkErr (bodyError hBadRequest ''Malformed chunked encoding''), body @ out, c)
                | DecodePartial \<Rightarrow>
                    (case flushPendingResponses c of
                       (Inl e, c1) \<Rightarrow> (ChunkExn e, body @ out, c1)
                     | (Inr _, c1) \<Rightarrow>
                        (case conn_read 4096 c1 of
                           (Inl e, c2) \<Rightarrow> (ChunkExn e, body @ out, c2)
                         | (Inr bytes, c2) \<Rightarrow>
                             if bytes = [] then (ChunkErr (bodyError hBadRequest ''Incomplete chunked body''), body @ out, c2)
                             else chunk_loop srv d1 bytes (body @ out) c2))))"
  by pat_completeness auto
termination
  by (relation "measure (\<lambda>(_, _, _, _, c). unread (incoming (c_sock c)))") (auto intro: flush_read_less [OF sym sym])

declare chunk_loop.simps [simp del]

text \<open>The variables \<open>readRequestBody\<close> captures and does not change.\<close>

record BodyEnv =
  be_scan :: Scan
  be_minor :: nat
  be_readBuf :: string
  be_headerBytes :: nat

definition remainingInBuf :: "BodyEnv \<Rightarrow> nat" where
  "remainingInBuf env = length (be_readBuf env) - be_headerBytes env"

text \<open>The body with a known length.\<close>

definition read_length_body ::
  "('v, 's, 'c, 'd) HttpServer \<Rightarrow> BodyEnv \<Rightarrow> ('v, 's) sess \<Rightarrow> (string + NativeResponse option) \<times> ('v, 's) sess" where
  "read_length_body srv env q =
     (case q of (req, cx, st) \<Rightarrow>
       let contentLength = sc_contentLength (be_scan env) in
       if contentLength > maxBodySize srv
       then (Inr (Some (bodyError hPayloadTooLarge ''Request body too large'')), q)
       else let bodyCopied = min (remainingInBuf env) contentLength;
                copied = take bodyCopied (drop (be_headerBytes env) (be_readBuf env));
                tailLen = remainingInBuf env - bodyCopied;
                cx1 = cx\<lparr>spillSrc := (if tailLen > 0 then be_headerBytes env + bodyCopied else spillSrc cx), bufUsed := tailLen\<rparr>;
                bodyRemaining = contentLength - bodyCopied
            in case (if bodyRemaining > 0 then flushPendingResponses (cx_conn cx1) else (Inr (), cx_conn cx1)) of
                 (Inl e, c1) \<Rightarrow>
                   (Inl (exn_what srv e), req\<lparr>rq_body := copied @ replicate bodyRemaining (CHR 0x00)\<rparr>, cx1\<lparr>cx_conn := c1\<rparr>, st)
               | (Inr _, c1) \<Rightarrow>
                  (case length_loop bodyRemaining copied c1 of
                     (Some e, body, c2) \<Rightarrow> (Inl (exn_what srv e), req\<lparr>rq_body := body\<rparr>, cx1\<lparr>cx_conn := c2\<rparr>, st)
                   | (None, body, c2) \<Rightarrow> (Inr None, req\<lparr>rq_body := body\<rparr>, cx1\<lparr>cx_conn := c2\<rparr>, st)))"

definition read_chunked_body ::
  "('v, 's, 'c, 'd) HttpServer \<Rightarrow> BodyEnv \<Rightarrow> ('v, 's) sess \<Rightarrow> (string + NativeResponse option) \<times> ('v, 's) sess" where
  "read_chunked_body srv env q =
     (case q of (req, cx, st) \<Rightarrow>
       case chunk_loop srv (decoder_init srv) (drop (be_headerBytes env) (be_readBuf env)) (rq_body req) (cx_conn cx) of
         (r, body, c1) \<Rightarrow>
           ((case r of ChunkOk \<Rightarrow> Inr None | ChunkErr res \<Rightarrow> Inr (Some res) | ChunkExn e \<Rightarrow> Inl (exn_what srv e)),
            req\<lparr>rq_body := body\<rparr>, cx\<lparr>bufUsed := 0, cx_conn := c1\<rparr>, st))"

definition expects_continue :: "BodyEnv \<Rightarrow> bool" where
  "expects_continue env \<longleftrightarrow>
     expectContinue (be_scan env) \<and> (hasContentLength (be_scan env) \<or> isChunked (be_scan env)) \<and> be_minor env \<ge> 1"

definition readRequestBody ::
  "('v, 's, 'c, 'd) HttpServer \<Rightarrow> BodyEnv \<Rightarrow> ('v, 's) sess \<Rightarrow> (string + NativeResponse option) \<times> ('v, 's) sess" where
  "readRequestBody srv env q =
     (case q of (req, cx, st) \<Rightarrow>
       if bodyRead cx then (Inr None, q)
       else let cx1 = cx\<lparr>bodyRead := True\<rparr>; sc = be_scan env in
            if expects_continue env \<and> hasContentLength sc \<and> sc_contentLength sc > maxBodySize srv
            then (Inr (Some (bodyError hPayloadTooLarge ''Request body too large'')), req, cx1, st)
            else case (if expects_continue env then io_then flushPendingResponses (conn_write k100) (cx_conn cx1)
                       else (Inr (), cx_conn cx1)) of
                   (Inl e, c1) \<Rightarrow> (Inl (exn_what srv e), req, cx1\<lparr>cx_conn := c1\<rparr>, st)
                 | (Inr _, c1) \<Rightarrow>
                     let q1 = (req, cx1\<lparr>cx_conn := c1\<rparr>, st) in
                     if hasContentLength sc \<and> sc_contentLength sc > 0 then read_length_body srv env q1
                     else if isChunked sc then read_chunked_body srv env q1
                     else (Inr None, req, cx1\<lparr>cx_conn := c1, spillSrc := be_headerBytes env, bufUsed := remainingInBuf env\<rparr>, st))"

end
