(* ===== verification/Http1_Session.thy ===== *)
theory Http1_Session
  imports Http1_Body
begin

text \<open>
  The request loop of an HTTP/1.1 connection, \<open>handleSession\<close> of \<^verbatim>\<open>src/src/core/HttpSessionImpl.cpp\<close>:
  one iteration reads a head, validates the framing, matches the route, rejects early or runs the
  middleware chain and the handler, hands the socket over to WebSocket or SSE, or answers and keeps
  what the buffer holds of the next request. TLS, the idle scanner and the connection registry are not
  modelled; \<open>draining_\<close> does not change during a run.
\<close>

section \<open>Application code\<close>

text \<open>The end of the chain: the synchronous fast path, then the general one.\<close>

definition dispatch_resolved ::
  "('v, 's) handler ResolveResult \<Rightarrow> ('v, 's) sess \<Rightarrow> (string + NativeResponse) \<times> ('v, 's) sess" where
  "dispatch_resolved x q =
     (case q of (req, cx, st) \<Rightarrow>
       case dispatchSyncResolved x req st of
         Some (r, req1, st1) \<Rightarrow> (r, req1, cx, st1)
       | None \<Rightarrow> (case dispatchResolved x req st of (r, req1, st1) \<Rightarrow> (r, req1, cx, st1)))"

definition request_tail ::
  "('v, 's, 'c, 'd) HttpServer \<Rightarrow> BodyEnv \<Rightarrow> ('v, 's) handler ResolveResult \<Rightarrow> (('v, 's) sess, NativeResponse) chain" where
  "request_tail srv env x q =
     (if \<not> bodyRead (fst (snd q))
      then (case readRequestBody srv env q of
              (Inl ex, q1) \<Rightarrow> (Inl ex, q1)
            | (Inr (Some err), q1) \<Rightarrow> (Inr err, q1)
            | (Inr None, q1) \<Rightarrow> dispatch_resolved x q1)
      else dispatch_resolved x q)"

definition handle_error :: "('v, 's, 'c, 'd) HttpServer \<Rightarrow> string \<Rightarrow> 'v HttpRequest \<Rightarrow> NativeResponse" where
  "handle_error srv ex req =
     (case errorHandler srv of
        None \<Rightarrow> serverError
      | Some h \<Rightarrow> (case h ex req of Inl _ \<Rightarrow> serverError | Inr r \<Rightarrow> r))"

text \<open>
  The chain is built once, with an end that runs the closure attached to the request; here it is built
  with that closure. The body gate finds \<open>readRequestBody\<close> in the request's slot.
\<close>

definition run_application ::
  "('v, 's, 'c, 'd) HttpServer \<Rightarrow> BodyEnv \<Rightarrow> ('v, 's) handler ResolveResult \<Rightarrow> ('v, 's) sess \<Rightarrow> NativeResponse \<times> ('v, 's) sess" where
  "run_application srv env x q =
     (case (if pipeline_size (middlewarePipeline srv) > 0
            then execute_with (\<lambda>_. Some (readRequestBody srv env)) (middlewarePipeline srv) (request_tail srv env x) q
            else request_tail srv env x q) of
        (Inr res, q1) \<Rightarrow> (res, q1)
      | (Inl ex, q1) \<Rightarrow> (handle_error srv ex (fst q1), q1))"

text \<open>\<open>wsMiddlewareChain_\<close>, built at start with a placeholder at its end; no slot is attached.\<close>

definition wsMiddlewareChain :: "('v, 's, 'c, 'd) HttpServer \<Rightarrow> (('v, 's) sess, NativeResponse) chain option" where
  "wsMiddlewareChain srv =
     (if pipeline_size (middlewarePipeline srv) > 0
      then Some (buildFor (\<lambda>_. None) (middlewarePipeline srv) (\<lambda>q. (Inr (ok_text []), q))) else None)"

section \<open>Outcomes\<close>

text \<open>
  \<open>CloseClean\<close> is the regular end, \<open>CloseNow\<close> a \<open>co_return\<close> or \<open>break\<close> without it, \<open>Failed\<close> a
  \<open>system_error\<close>, which is swallowed, and \<open>Uncaught\<close> another exception, which leaves the coroutine.
\<close>

datatype 'c Outcome =
    Continue | CloseClean | CloseNow | Failed SockErr | Uncaught string
  | ToWebSocket "'c WsRoute" string string string | ToSse "'c SseRoute"

record 's Session =
  ss_conn :: Conn
  ss_prefix :: "string \<times> nat"
  ss_dateSec :: nat
  ss_app :: 's

definition thrown :: "SessExn \<Rightarrow> 'c Outcome" where
  "thrown e = (case e of SysErr k \<Rightarrow> Failed k | StdExn s \<Rightarrow> Uncaught s)"

text \<open>An answer after which the coroutine returns.\<close>

definition answer_and_close :: "unit io \<Rightarrow> 's Session \<Rightarrow> 'c Outcome \<times> 's Session" where
  "answer_and_close m s =
     (case io_then flushPendingResponses m (ss_conn s) of
        (Inl e, c) \<Rightarrow> (thrown e, s\<lparr>ss_conn := c\<rparr>)
      | (Inr _, c) \<Rightarrow> (CloseNow, s\<lparr>ss_conn := c\<rparr>))"

definition closing_response :: "NativeResponse \<Rightarrow> NativeResponse" where
  "closing_response res = set_field ''Connection'' ''close'' (res\<lparr>httpVersionMinor := 1\<rparr>)"

section \<open>Handing the socket over\<close>

definition ws_upgrade ::
  "('v, 's, 'c, 'd) HttpServer \<Rightarrow> 'c WsRoute \<Rightarrow> ParamList \<Rightarrow> ('v, 's) sess \<Rightarrow> 's Session \<Rightarrow> 'c Outcome \<times> 's Session" where
  "ws_upgrade srv rt ps q s0 =
     (case q of (req0, cx, st) \<Rightarrow>
       case flushPendingResponses (cx_conn cx) of
         (Inl e, c) \<Rightarrow> (thrown e, s0\<lparr>ss_conn := c, ss_app := st\<rparr>)
       | (Inr _, c) \<Rightarrow>
          let req = set_params ps req0; s = s0\<lparr>ss_conn := c, ss_app := st\<rparr>; origins = wo_allowedOrigins (ws_options rt) in
          if origins \<noteq> [] \<and> rq_header req ''Origin'' \<notin> set origins
          then answer_and_close (writeResponse (closing_response
                 (setBodyType ''403 Forbidden: Origin not allowed'' ''text/plain'' (setStatus hForbidden new_response))) False) s
          else (case (case wsMiddlewareChain srv of None \<Rightarrow> (Inr (ok_text []), req, cx\<lparr>cx_conn := c\<rparr>, st)
                      | Some chain \<Rightarrow> chain (req, cx\<lparr>cx_conn := c\<rparr>, st)) of
                  (Inl ex, req1, cx1, st1) \<Rightarrow> (Uncaught ex, s\<lparr>ss_conn := cx_conn cx1, ss_app := st1\<rparr>)
                | (Inr auth, req1, cx1, st1) \<Rightarrow>
                    let s1 = s\<lparr>ss_conn := cx_conn cx1, ss_app := st1\<rparr> in
                    if res_status auth \<noteq> hOk then answer_and_close (writeResponse (closing_response auth) False) s1
                    else if validateWsUpgrade req1 = []
                    then answer_and_close (writeResponse (closing_response
                           (setBodyType ''400 Bad Request: invalid WebSocket upgrade'' ''text/plain'' (setStatus hBadRequest new_response))) False) s1
                    else (ToWebSocket rt (rh_find (rq_headers req1) ''Sec-WebSocket-Key'')
                            (rh_find (rq_headers req1) ''Sec-WebSocket-Extensions'')
                            (rh_find (rq_headers req1) ''Sec-WebSocket-Protocol''), s1)))"

definition sse_upgrade ::
  "('v, 's, 'c, 'd) HttpServer \<Rightarrow> 'c SseRoute \<Rightarrow> ParamList \<Rightarrow> ('v, 's) sess \<Rightarrow> 's Session \<Rightarrow> 'c Outcome \<times> 's Session" where
  "sse_upgrade srv rt ps q s0 =
     (case q of (req0, cx, st) \<Rightarrow>
       case flushPendingResponses (cx_conn cx) of
         (Inl e, c) \<Rightarrow> (thrown e, s0\<lparr>ss_conn := c, ss_app := st\<rparr>)
       | (Inr _, c) \<Rightarrow>
          let req = set_params ps req0 in
          (case (case wsMiddlewareChain srv of None \<Rightarrow> (Inr (ok_text []), req, cx\<lparr>cx_conn := c\<rparr>, st)
                 | Some chain \<Rightarrow> chain (req, cx\<lparr>cx_conn := c\<rparr>, st)) of
             (Inl ex, req1, cx1, st1) \<Rightarrow> (Uncaught ex, s0\<lparr>ss_conn := cx_conn cx1, ss_app := st1\<rparr>)
           | (Inr auth, req1, cx1, st1) \<Rightarrow>
               let s1 = s0\<lparr>ss_conn := cx_conn cx1, ss_app := st1\<rparr> in
               if res_status auth \<noteq> hOk then answer_and_close (writeResponse (closing_response auth) False) s1
               else (ToSse rt, s1)))"

section \<open>One request\<close>

definition request_of :: "RawHead \<Rightarrow> Scan \<Rightarrow> 'v HttpRequest" where
  "request_of h sc = new_request\<lparr>rq_method := methodFromStringView (raw_method h), rq_target := raw_path h,
     rq_headers := sc_headers sc, upgradePreScanned := sc_upgrade sc\<rparr>"

definition ws_match :: "('v, 's, 'c, 'd) HttpServer \<Rightarrow> Conn \<Rightarrow> 'v HttpRequest \<Rightarrow> ('c WsRoute \<times> ParamList) option" where
  "ws_match srv c req = (if \<not> is_ssl c \<and> isUpgrade req then findWsRoute (router srv) (rq_path req) else None)"

definition sse_match :: "('v, 's, 'c, 'd) HttpServer \<Rightarrow> Conn \<Rightarrow> 'v HttpRequest \<Rightarrow> ('c SseRoute \<times> ParamList) option" where
  "sse_match srv c req = (if \<not> is_ssl c \<and> rq_method req = hGet then findSseRoute (router srv) (rq_path req) else None)"

text \<open>The answer to an ordinary request, and what is kept for the next one.\<close>

definition respond ::
  "('v, 's, 'c, 'd) HttpServer \<Rightarrow> nat \<Rightarrow> bool \<Rightarrow> BodyEnv \<Rightarrow> NativeResponse \<Rightarrow> ('v, 's) sess \<Rightarrow> 's Session \<Rightarrow> 'c Outcome \<times> 's Session" where
  "respond srv now keep env res q s0 =
     (case q of (req, cx, st) \<Rightarrow>
       let shouldKeepAlive = keep \<and> \<not> draining srv;
           stale = shouldKeepAlive \<and> now \<noteq> ss_dateSec s0;
           prefix = (if stale then refresh_date (ss_prefix s0) (http_date srv now) else ss_prefix s0);
           s = s0\<lparr>ss_prefix := prefix, ss_dateSec := (if stale then now else ss_dateSec s0), ss_app := st\<rparr>;
           rp = \<lparr>rp_keepAlive = shouldKeepAlive, rp_isHead = (rq_method req = hHead), rp_prefix = fst prefix,
                 rp_bufUsed = bufUsed cx, rp_date = http_date srv now, rp_res = res\<rparr>
       in case send_reply (files srv) (version_string srv) rp (cx_conn cx) of
            (Inl e, c) \<Rightarrow> (thrown e, s\<lparr>ss_conn := c\<rparr>)
          | (Inr _, c) \<Rightarrow>
              let c1 = (if bufUsed cx > 0
                        then c\<lparr>pipelineSpill := take (bufUsed cx) (drop (spillSrc cx) (be_readBuf env))\<rparr> else c)
              in (if shouldKeepAlive then Continue else CloseClean, s\<lparr>ss_conn := c1\<rparr>))"

definition serve_matched ::
  "('v, 's, 'c, 'd) HttpServer \<Rightarrow> nat \<Rightarrow> bool \<Rightarrow> BodyEnv \<Rightarrow> ('v, 's) handler ResolveResult \<Rightarrow> 'v HttpRequest \<Rightarrow> 's Session
   \<Rightarrow> 'c Outcome \<times> 's Session" where
  "serve_matched srv now keep env x req s =
     (let c = ss_conn s;
          q0 = (req, \<lparr>cx_conn = c, bodyRead = False, spillSrc = 0, bufUsed = length (be_readBuf env)\<rparr>, ss_app s);
          isWsOrSse = (ws_match srv c req \<noteq> None \<or> sse_match srv c req \<noteq> None);
          (res, q) = (if isWsOrSse then (new_response, q0) else run_application srv env x q0);
          req1 = fst q; c1 = cx_conn (fst (snd q))
      in case ws_match srv c1 req1 of
           Some (rt, ps) \<Rightarrow> ws_upgrade srv rt ps q s
         | None \<Rightarrow> (case sse_match srv c1 req1 of
             Some (rt, ps) \<Rightarrow> sse_upgrade srv rt ps q s
           | None \<Rightarrow> respond srv now keep env res q s))"

definition serve_request ::
  "('v, 's, 'c, 'd) HttpServer \<Rightarrow> nat \<Rightarrow> string \<Rightarrow> nat \<Rightarrow> RawHead \<Rightarrow> 's Session \<Rightarrow> 'c Outcome \<times> 's Session" where
  "serve_request srv now buf n h s =
     (let sc = scan_headers (raw_fields h); minor = raw_minor h in
      case framing_error sc minor of
        Some st \<Rightarrow>
          if st = 400 then answer_and_close (sendRawResponse 400 ''Bad Request'' ''Invalid request framing'') s
          else answer_and_close (sendRawResponse 501 ''Not Implemented'' ''Unsupported Transfer-Encoding'') s
      | None \<Rightarrow>
          let (x, req) = resolveRoute (router srv) (request_of h sc);
              hasRequestBody = (hasContentLength sc \<and> sc_contentLength sc > 0 \<or> isChunked sc)
          in if pathTooDeep x then answer_and_close (sendRawResponse 400 ''Bad Request'' ''Path too deep'') s
             else if \<not> isMatch x \<and> hasRequestBody
             then (if isMethodNotAllowed x
                   then answer_and_close (writeResponse
                          (closing_response ((methodNotAllowed (allowedMethods x))\<lparr>keepAlive := False\<rparr>)) False) s
                   else answer_and_close (sendRawResponse 404 ''Not Found'' ''Not Found'') s)
             else serve_matched srv now (keep_alive sc minor)
                    \<lparr>be_scan = sc, be_minor = minor, be_readBuf = buf, be_headerBytes = n\<rparr> x req s)"

definition first_bytes :: "(string \<times> nat) option io" where
  "first_bytes c =
     (if pipelineSpill c = []
      then io_then flushPendingResponses
             (io_bind (conn_read 256) (\<lambda>bytes. io_return (if bytes = [] then None else Some (bytes, 8192)))) c
      else (Inr (Some (pipelineSpill c, max (length (pipelineSpill c)) 8192)), c\<lparr>pipelineSpill := []\<rparr>))"

definition serve_one :: "('v, 's, 'c, 'd) HttpServer \<Rightarrow> nat \<Rightarrow> 's Session \<Rightarrow> 'c Outcome \<times> 's Session" where
  "serve_one srv now s =
     (case first_bytes (ss_conn s) of
        (Inl e, c) \<Rightarrow> (thrown e, s\<lparr>ss_conn := c\<rparr>)
      | (Inr None, c) \<Rightarrow> (CloseNow, s\<lparr>ss_conn := c\<rparr>)
      | (Inr (Some (buf, cap)), c) \<Rightarrow>
         (case read_head_bytes srv buf cap c of
            (Inl e, c1) \<Rightarrow> (thrown e, s\<lparr>ss_conn := c1\<rparr>)
          | (Inr (HeadReject st reason body), c1) \<Rightarrow> answer_and_close (sendRawResponse st reason body) (s\<lparr>ss_conn := c1\<rparr>)
          | (Inr (HeadDone buf1 n h), c1) \<Rightarrow> serve_request srv now buf1 n h (s\<lparr>ss_conn := c1\<rparr>)))"

text \<open>The loop, given the clock at each request; \<open>Continue\<close> means that it is still running after them.\<close>

fun session_loop :: "('v, 's, 'c, 'd) HttpServer \<Rightarrow> nat list \<Rightarrow> 's Session \<Rightarrow> 'c Outcome \<times> 's Session" where
  "session_loop srv [] s = (Continue, s)"
| "session_loop srv (now # nows) s =
     (case serve_one srv now s of
        (Continue, s1) \<Rightarrow> session_loop srv nows s1
      | (oc, s1) \<Rightarrow> (oc, s1))"

definition new_http_session :: "('v, 's, 'c, 'd) HttpServer \<Rightarrow> nat \<Rightarrow> Conn \<Rightarrow> 's \<Rightarrow> 's Session" where
  "new_http_session srv now c st =
     \<lparr>ss_conn = c\<lparr>pipelineSpill := [], responseBatch := []\<rparr>,
      ss_prefix = rebuildPrefix (version_string srv) True (http_date srv now), ss_dateSec = now, ss_app = st\<rparr>"

text \<open>\<open>handleSession\<close> without TLS; the guard closes a socket that was not handed over.\<close>

definition handleSession ::
  "('v, 's, 'c, 'd) HttpServer \<Rightarrow> bool \<Rightarrow> nat list \<Rightarrow> Conn \<Rightarrow> 's \<Rightarrow> 'c Outcome \<times> 's Session" where
  "handleSession srv running nows c st =
     (let s = new_http_session srv (case nows of [] \<Rightarrow> 0 | n # _ \<Rightarrow> n) c st in
      if \<not> running then (CloseNow, s)
      else case session_loop srv nows s of
             (Continue, s1) \<Rightarrow> (Continue, s1)
           | (ToWebSocket rt k e p, s1) \<Rightarrow> (ToWebSocket rt k e p, s1)
           | (ToSse rt, s1) \<Rightarrow> (ToSse rt, s1)
           | (oc, s1) \<Rightarrow> (oc, s1\<lparr>ss_conn := (ss_conn s1)\<lparr>c_sock := (c_sock (ss_conn s1))\<lparr>sock_open := False\<rparr>\<rparr>\<rparr>))"

end
