(* ===== verification/Http1_Session_Inv.thy ===== *)
theory Http1_Session_Inv
  imports Http1_Session
begin

text \<open>
  What the request loop of \<open>Http1_Session\<close> does with the bytes of a connection: a body of known length is
  read exactly, an ordinary request is always consumed, so that the loop ends, and two kinds of request
  are answered without being consumed and come back for ever.
\<close>

section \<open>Reading a body of known length\<close>

definition stream_in :: "Conn \<Rightarrow> string" where
  "stream_in c = concat (incoming (c_sock c))"

lemma read_segments_length: "read_segments n segs = Some (bytes, rest) \<Longrightarrow> length bytes \<le> n"
  by (induction n segs rule: read_segments.induct) (auto split: if_splits)

lemma conn_read_Inr:
  assumes "conn_read n c = (Inr bytes, c')" and "0 < n"
  shows "stream_in c = bytes @ stream_in c'" and "bytes \<noteq> []" and "length bytes \<le> n"
    and "\<exists>segs. c' = c\<lparr>c_sock := (c_sock c)\<lparr>incoming := segs\<rparr>\<rparr>"
proof -
  obtain k where k: "async_read_some n (c_sock c) = (Inr bytes, k)" "c' = c\<lparr>c_sock := k\<rparr>"
    using assms(1) by (auto simp: conn_read_def split: prod.splits sum.splits)
  note r = async_read_Inr [OF k(1) assms(2)]
  show "stream_in c = bytes @ stream_in c'" and "bytes \<noteq> []"
    using r k(2) by (auto simp: stream_in_def)
  show "\<exists>segs. c' = c\<lparr>c_sock := (c_sock c)\<lparr>incoming := segs\<rparr>\<rparr>" using r k(2) by metis
  show "length bytes \<le> n" using k(1) read_segments_length
    by (auto simp: async_read_some_def split: if_splits option.splits)
qed

lemma conn_read_Inl:
  "conn_read n c = (Inl e, c') \<Longrightarrow> sock_open (c_sock c) \<Longrightarrow> stream_in c = [] \<and> e = SysErr (in_end (c_sock c))"
proof -
  assume r: "conn_read n c = (Inl e, c')" and o: "sock_open (c_sock c)"
  then obtain k f where k: "async_read_some n (c_sock c) = (Inl f, k)" "e = SysErr f"
    by (auto simp: conn_read_def split: prod.splits sum.splits)
  moreover have "f = in_end (c_sock c)" using k(1) o by (auto simp: async_read_some_def split: option.splits)
  ultimately show ?thesis using async_read_Inl [OF k(1) o] by (simp add: stream_in_def)
qed

lemma length_loop_spec:
  assumes "sock_open (c_sock c)"
  shows "\<exists>segs. case length_loop n got c of (r, body, c') \<Rightarrow>
      c' = c\<lparr>c_sock := (c_sock c)\<lparr>incoming := segs\<rparr>\<rparr>
    \<and> (n \<le> length (stream_in c) \<longrightarrow> r = None \<and> body = got @ take n (stream_in c) \<and> concat segs = drop n (stream_in c))
    \<and> (n > length (stream_in c) \<longrightarrow> r = Some (SysErr (in_end (c_sock c))))"
  using assms
proof (induction n got c rule: length_loop.induct)
  case (1 n got c)
  show ?case
  proof (cases "n = 0")
    case True
    then show ?thesis by (subst length_loop.simps) (auto simp: stream_in_def intro!: exI [of _ "incoming (c_sock c)"])
  next
    case n: False
    obtain x c1 where x: "conn_read n c = (x, c1)" by fastforce
    show ?thesis
    proof (cases x)
      case (Inl e)
      have "\<exists>segs. c1 = c\<lparr>c_sock := (c_sock c)\<lparr>incoming := segs\<rparr>\<rparr>"
        using x Inl "1.prems" by (auto simp: conn_read_def async_read_some_def split: option.splits)
      then show ?thesis using n x Inl conn_read_Inl [of n c e c1] "1.prems"
        by (subst length_loop.simps) auto
    next
      case (Inr bytes)
      have r: "conn_read n c = (Inr bytes, c1)" using x Inr by simp
      note rd = conn_read_Inr [OF r]
      have pos: "0 < n" using n by simp
      obtain segs1 where c1: "c1 = c\<lparr>c_sock := (c_sock c)\<lparr>incoming := segs1\<rparr>\<rparr>" using rd(4) [OF pos] by blast
      have o1: "sock_open (c_sock c1)" using "1.prems" c1 by simp
      have step: "length_loop n got c = length_loop (n - length bytes) (got @ bytes) c1"
        using n r by (subst length_loop.simps) simp
      from "1.IH" [OF n r [symmetric] refl o1]
      show ?thesis unfolding step using rd(1,3) [OF pos] c1 by (auto split: prod.splits)
    qed
  qed
qed

lemma healthy_open: "healthy c \<Longrightarrow> sock_open (c_sock c)"
  by (simp add: healthy_def)

lemma input_side_stream: "input_side c' = input_side c \<Longrightarrow> stream_in c' = stream_in c \<and> in_end (c_sock c') = in_end (c_sock c)"
  by (simp add: input_side_def stream_in_def)

lemma flush_healthy:
  assumes "healthy c"
  obtains c' where "flushPendingResponses c = (Inr (), c')" "healthy c'" "input_side c' = input_side c" "pending_out c' = pending_out c"
proof -
  obtain x c' where x: "flushPendingResponses c = (Inr x, c')" "healthy c'" using never_fails_flush assms by (auto simp: never_fails_def)
  have "input_side c' = input_side c" "pending_out c' = pending_out c"
    using emitsD(1) [OF flush_emits x(1)] emitsD(2) [OF flush_emits x(1) refl] by simp_all
  then show ?thesis using that [of c'] x by simp
qed

text \<open>What is left for the next request: the kept part of the buffer, then what has not been read.\<close>

definition leftover :: "BodyEnv \<Rightarrow> Ctx \<Rightarrow> string" where
  "leftover env cx = take (bufUsed cx) (drop (spillSrc cx) (be_readBuf env)) @ stream_in (cx_conn cx)"

definition body_bytes :: "BodyEnv \<Rightarrow> Ctx \<Rightarrow> string" where
  "body_bytes env cx = drop (be_headerBytes env) (be_readBuf env) @ stream_in (cx_conn cx)"

lemma read_length_body_spec:
  assumes "healthy (cx_conn cx)" and "be_headerBytes env \<le> length (be_readBuf env)"
    and "sc_contentLength (be_scan env) \<le> maxBodySize srv"
  defines "n \<equiv> sc_contentLength (be_scan env)"
  shows "n \<le> length (body_bytes env cx) \<Longrightarrow>
      \<exists>cx'. read_length_body srv env (req, cx, st) = (Inr None, req\<lparr>rq_body := take n (body_bytes env cx)\<rparr>, cx', st)
        \<and> leftover env cx' = drop n (body_bytes env cx) \<and> pending_out (cx_conn cx') = pending_out (cx_conn cx)"
    and "n > length (body_bytes env cx) \<Longrightarrow>
      fst (read_length_body srv env (req, cx, st)) = Inl (system_what srv (in_end (c_sock (cx_conn cx))))"
proof -
  let ?hb = "be_headerBytes env" and ?buf = "be_readBuf env"
  define m where "m = min (remainingInBuf env) n"
  define cx1 where "cx1 = cx\<lparr>spillSrc := (if remainingInBuf env - m > 0 then ?hb + m else spillSrc cx), bufUsed := remainingInBuf env - m\<rparr>"
  have inbuf: "length (drop ?hb ?buf) = remainingInBuf env" by (simp add: remainingInBuf_def)
  have kept: "take (bufUsed cx1) (drop (spillSrc cx1) ?buf) = drop m (drop ?hb ?buf)"
    unfolding cx1_def using inbuf by (auto simp: add.commute m_def remainingInBuf_def)
  obtain c1 where c1: "(if n - m > 0 then flushPendingResponses (cx_conn cx1) else (Inr (), cx_conn cx1)) = (Inr (), c1)"
      "healthy c1" "input_side c1 = input_side (cx_conn cx)" "pending_out c1 = pending_out (cx_conn cx)"
  proof (cases "n - m > 0")
    case True
    obtain c' where "flushPendingResponses (cx_conn cx) = (Inr (), c')" "healthy c'" "input_side c' = input_side (cx_conn cx)"
        "pending_out c' = pending_out (cx_conn cx)"
      using flush_healthy [OF assms(1)] by blast
    then show thesis using that [of c'] True by (simp add: cx1_def)
  next
    case False
    then show thesis using that [of "cx_conn cx"] assms(1) by (simp add: cx1_def)
  qed
  note in1 = input_side_stream [OF c1(3)]
  obtain r body c2 where run: "length_loop (n - m) (take m (drop ?hb ?buf)) c1 = (r, body, c2)" by (metis prod_cases3)
  have spec: "\<exists>segs. c2 = c1\<lparr>c_sock := (c_sock c1)\<lparr>incoming := segs\<rparr>\<rparr>
      \<and> (n - m \<le> length (stream_in c1) \<longrightarrow> r = None \<and> body = take m (drop ?hb ?buf) @ take (n - m) (stream_in c1)
           \<and> concat segs = drop (n - m) (stream_in c1))
      \<and> (n - m > length (stream_in c1) \<longrightarrow> r = Some (SysErr (in_end (c_sock c1))))"
    using length_loop_spec [OF healthy_open [OF c1(2)], of "n - m" "take m (drop ?hb ?buf)"] run by simp
  have big: "\<not> n > maxBodySize srv" using assms(3) by (simp add: n_def)
  have res: "read_length_body srv env (req, cx, st) =
      (case r of Some e \<Rightarrow> (Inl (exn_what srv e), req\<lparr>rq_body := body\<rparr>, cx1\<lparr>cx_conn := c2\<rparr>, st)
       | None \<Rightarrow> (Inr None, req\<lparr>rq_body := body\<rparr>, cx1\<lparr>cx_conn := c2\<rparr>, st))"
    unfolding read_length_body_def prod.case Let_def n_def [symmetric] m_def [symmetric] cx1_def [symmetric] if_not_P [OF big] c1(1)
    by (simp add: run split: option.split)
  have len: "length (body_bytes env cx) = remainingInBuf env + length (stream_in (cx_conn cx))"
    by (simp add: body_bytes_def remainingInBuf_def)
  show "\<exists>cx'. read_length_body srv env (req, cx, st) = (Inr None, req\<lparr>rq_body := take n (body_bytes env cx)\<rparr>, cx', st)
        \<and> leftover env cx' = drop n (body_bytes env cx) \<and> pending_out (cx_conn cx') = pending_out (cx_conn cx)"
    if "n \<le> length (body_bytes env cx)"
  proof -
    have fits: "n - m \<le> length (stream_in c1)" using that len in1 by (auto simp: m_def)
    then obtain segs where s: "c2 = c1\<lparr>c_sock := (c_sock c1)\<lparr>incoming := segs\<rparr>\<rparr>" "r = None"
        "body = take m (drop ?hb ?buf) @ take (n - m) (stream_in c1)" "concat segs = drop (n - m) (stream_in c1)"
      using spec by blast
    have b: "body = take n (body_bytes env cx)" "drop m (drop ?hb ?buf) @ concat segs = drop n (body_bytes env cx)"
      unfolding s(3,4) body_bytes_def take_append drop_append inbuf using in1 by (auto simp: m_def min_def remainingInBuf_def)
    have "leftover env (cx1\<lparr>cx_conn := c2\<rparr>) = drop n (body_bytes env cx)"
      using kept b(2) s(1) by (simp add: leftover_def stream_in_def)
    moreover have "pending_out c2 = pending_out (cx_conn cx)" using s(1) c1(4) by (simp add: pending_out_def bytes_out_def)
    ultimately show ?thesis using res s(2) b(1) by (intro exI [of _ "cx1\<lparr>cx_conn := c2\<rparr>"]) simp
  qed
  show "fst (read_length_body srv env (req, cx, st)) = Inl (system_what srv (in_end (c_sock (cx_conn cx))))"
    if "n > length (body_bytes env cx)"
  proof -
    have "n - m > length (stream_in c1)" using that len in1 by (auto simp: m_def)
    then have "r = Some (SysErr (in_end (c_sock c1)))" using spec by blast
    then show ?thesis using res in1 by (simp add: exn_what_def)
  qed
qed

lemma continue_step:
  assumes "healthy c"
  obtains c' where "(if expects_continue env then io_then flushPendingResponses (conn_write k100) c else (Inr (), c)) = (Inr (), c')"
    "healthy c'" "input_side c' = input_side c" "pending_out c' = pending_out c @ (if expects_continue env then k100 else [])"
proof (cases "expects_continue env")
  case True
  let ?m = "io_then flushPendingResponses (conn_write k100)"
  have "never_fails ?m" by (intro never_fails_bind) auto
  then obtain x c' where x: "?m c = (Inr x, c')" "healthy c'" using assms by (auto simp: never_fails_def)
  note e = emitsD [OF flushed_emits [OF delivers_conn_write] x(1)]
  show thesis using that [of c'] True x e(1) e(2) [OF refl] by simp
next
  case False
  then show thesis using that [of c] assms by simp
qed

section \<open>A request that is not consumed\<close>

text \<open>
  The setting of one iteration: the head of \<open>buf\<close> is complete and framed, a route matches, the connection
  is kept, and the request is not taken over by WebSocket or SSE.
\<close>

definition plain_request ::
  "('v, 's, 'c, 'd) HttpServer \<Rightarrow> bool \<Rightarrow> string \<Rightarrow> nat \<Rightarrow> RawHead \<Rightarrow> ('v, 's) handler ResolveResult \<Rightarrow> 'v HttpRequest \<Rightarrow> bool" where
  "plain_request srv ssl buf n h x req \<longleftrightarrow>
     buf \<noteq> [] \<and> parse_request srv buf 0 = PhrOk n h
   \<and> framing_error (scan_headers (raw_fields h)) (raw_minor h) = None
   \<and> keep_alive (scan_headers (raw_fields h)) (raw_minor h) \<and> \<not> draining srv
   \<and> resolveRoute (router srv) (request_of h (scan_headers (raw_fields h))) = (x, req)
   \<and> isMatch x \<and> \<not> pathTooDeep x
   \<and> (ssl \<or> \<not> isUpgrade req \<and> rq_method req \<noteq> hGet)"

definition env_of :: "string \<Rightarrow> nat \<Rightarrow> RawHead \<Rightarrow> BodyEnv" where
  "env_of buf n h = \<lparr>be_scan = scan_headers (raw_fields h), be_minor = raw_minor h, be_readBuf = buf, be_headerBytes = n\<rparr>"

definition ctx_of :: "Conn \<Rightarrow> string \<Rightarrow> Ctx" where
  "ctx_of c buf = \<lparr>cx_conn = c, bodyRead = False, spillSrc = 0, bufUsed = length buf\<rparr>"

text \<open>The application answers \<open>res\<close> and leaves the connection and the position in the buffer alone.\<close>

definition answers_unread ::
  "('v, 's, 'c, 'd) HttpServer \<Rightarrow> string \<Rightarrow> nat \<Rightarrow> RawHead \<Rightarrow> ('v, 's) handler ResolveResult \<Rightarrow> 'v HttpRequest \<Rightarrow> NativeResponse \<Rightarrow> bool" where
  "answers_unread srv buf n h x req res \<longleftrightarrow>
     (\<forall>c st. \<exists>b. run_application srv (env_of buf n h) x (req, ctx_of c buf, st)
        = (res, req, (ctx_of c buf)\<lparr>bodyRead := b\<rparr>, st))"

definition repeated_reply ::
  "('v, 's, 'c, 'd) HttpServer \<Rightarrow> nat \<Rightarrow> string \<Rightarrow> string \<Rightarrow> 'v HttpRequest \<Rightarrow> NativeResponse \<Rightarrow> Reply" where
  "repeated_reply srv now prefix buf req res =
     \<lparr>rp_keepAlive = True, rp_isHead = (rq_method req = hHead), rp_prefix = prefix, rp_bufUsed = length buf,
      rp_date = http_date srv now, rp_res = res\<rparr>"

lemma unread_answer_step:
  assumes pr: "plain_request srv (is_ssl c) buf n h x req" and au: "answers_unread srv buf n h x req res"
    and hc: "healthy c" and fb: "fileBody res = None"
    and first: "first_bytes (ss_conn s) = (Inr (Some (buf, cap)), c)" and now: "ss_dateSec s = now"
  shows "\<exists>c'. serve_one srv now s = (Continue, s\<lparr>ss_conn := c'\<lparr>pipelineSpill := buf\<rparr>\<rparr>)
     \<and> healthy c' \<and> input_side c' = input_side c
     \<and> pending_out c' = pending_out c @ reply_text (files srv) (version_string srv)
          (repeated_reply srv now (fst (ss_prefix s)) buf req res)"
proof -
  let ?sc = "scan_headers (raw_fields h)" and ?rp = "repeated_reply srv now (fst (ss_prefix s)) buf req res"
  let ?s1 = "s\<lparr>ss_conn := c\<rparr>"
  obtain b where app: "run_application srv (env_of buf n h) x (req, ctx_of c buf, ss_app s)
      = (res, req, (ctx_of c buf)\<lparr>bodyRead := b\<rparr>, ss_app s)"
    using au by (auto simp: answers_unread_def)
  have nm: "ws_match srv c req = None" "sse_match srv c req = None"
    using pr by (auto simp: plain_request_def ws_match_def sse_match_def)
  have keep: "keep_alive ?sc (raw_minor h)" "\<not> draining srv" using pr by (simp_all add: plain_request_def)
  have head: "read_head_bytes srv buf cap c = (Inr (HeadDone buf n h), c)"
    using pr by (simp add: plain_request_def read_head_bytes_def io_return_def)
  have "serve_one srv now s = serve_request srv now buf n h ?s1"
    by (simp add: serve_one_def first head)
  also have "\<dots> = serve_matched srv now True (env_of buf n h) x req ?s1"
    using pr by (simp add: serve_request_def plain_request_def env_of_def Let_def)
  also have "\<dots> = respond srv now True (env_of buf n h) res (req, (ctx_of c buf)\<lparr>bodyRead := b\<rparr>, ss_app s) ?s1"
    using app nm by (simp add: serve_matched_def Let_def env_of_def [of buf] ctx_of_def)
  finally have run: "serve_one srv now s
      = respond srv now True (env_of buf n h) res (req, (ctx_of c buf)\<lparr>bodyRead := b\<rparr>, ss_app s) ?s1" .
  have "never_fails (send_reply (files srv) (version_string srv) ?rp)"
    using fb by (intro never_fails_send_reply) (simp add: sendable_reply_def repeated_reply_def)
  then obtain u c' where c': "send_reply (files srv) (version_string srv) ?rp c = (Inr u, c')" "healthy c'"
    using hc by (auto simp: never_fails_def)
  note e = emitsD [OF send_reply_emits c'(1)]
  have "buf \<noteq> []" using pr by (simp add: plain_request_def)
  then have "serve_one srv now s = (Continue, s\<lparr>ss_conn := c'\<lparr>pipelineSpill := buf\<rparr>\<rparr>)"
    unfolding run respond_def using keep now c'(1)
    by (simp add: ctx_of_def env_of_def repeated_reply_def Let_def)
  then show ?thesis using c'(2) e(1) e(2) [OF refl] by blast
qed

lemma spill_first:
  "buf \<noteq> [] \<Longrightarrow> first_bytes (c\<lparr>pipelineSpill := buf\<rparr>) = (Inr (Some (buf, max (length buf) 8192)), c\<lparr>pipelineSpill := []\<rparr>)"
  by (simp add: first_bytes_def)

lemma pending_out_spill [simp]: "pending_out (c\<lparr>pipelineSpill := b\<rparr>) = pending_out c" "healthy (c\<lparr>pipelineSpill := b\<rparr>) = healthy c"
    "stream_in (c\<lparr>pipelineSpill := b\<rparr>) = stream_in c"
  by (simp_all add: pending_out_def bytes_out_def healthy_def stream_in_def)

lemma unread_answer_repeats:
  assumes pr: "plain_request srv (is_ssl c) buf n h x req" and au: "answers_unread srv buf n h x req res"
    and hc: "healthy c" and fb: "fileBody res = None"
    and "ss_conn s = c\<lparr>pipelineSpill := buf\<rparr>" and "ss_dateSec s = now"
  shows "\<exists>c'. session_loop srv (replicate k now) s = (Continue, s\<lparr>ss_conn := c'\<lparr>pipelineSpill := buf\<rparr>\<rparr>)
     \<and> healthy c' \<and> stream_in c' = stream_in c
     \<and> pending_out c' = pending_out c @ concat (replicate k (reply_text (files srv) (version_string srv)
          (repeated_reply srv now (fst (ss_prefix s)) buf req res)))"
  using assms
proof (induction k arbitrary: s c)
  case 0
  then show ?case by (intro exI [of _ c]) simp
next
  case (Suc k)
  let ?c0 = "c\<lparr>pipelineSpill := []\<rparr>"
  have "buf \<noteq> []" using Suc.prems(1) by (simp add: plain_request_def)
  then have first: "first_bytes (ss_conn s) = (Inr (Some (buf, max (length buf) 8192)), ?c0)"
    using spill_first Suc.prems(5) by simp
  have pr0: "plain_request srv (is_ssl ?c0) buf n h x req" using Suc.prems(1) by simp
  obtain c1 where c1: "serve_one srv now s = (Continue, s\<lparr>ss_conn := c1\<lparr>pipelineSpill := buf\<rparr>\<rparr>)" "healthy c1"
      "input_side c1 = input_side ?c0" "pending_out c1 = pending_out ?c0 @ reply_text (files srv) (version_string srv)
          (repeated_reply srv now (fst (ss_prefix s)) buf req res)"
    using unread_answer_step [OF pr0 Suc.prems(2) _ fb first Suc.prems(6)] Suc.prems(3) by auto
  let ?s1 = "s\<lparr>ss_conn := c1\<lparr>pipelineSpill := buf\<rparr>\<rparr>"
  have "is_ssl c1 = is_ssl c" using c1(3) by (simp add: input_side_def)
  then have "plain_request srv (is_ssl c1) buf n h x req" using Suc.prems(1) by simp
  from Suc.IH [OF this Suc.prems(2) c1(2) fb, of ?s1] Suc.prems(6)
  obtain c' where "session_loop srv (replicate k now) ?s1 = (Continue, ?s1\<lparr>ss_conn := c'\<lparr>pipelineSpill := buf\<rparr>\<rparr>)"
      "healthy c'" "stream_in c' = stream_in c1" "pending_out c' = pending_out c1 @ concat (replicate k (reply_text (files srv) (version_string srv)
          (repeated_reply srv now (fst (ss_prefix s)) buf req res)))"
    by auto
  moreover have "stream_in c1 = stream_in c" using input_side_stream [OF c1(3)] by simp
  ultimately show ?case using c1(1,4) by (intro exI [of _ c']) simp
qed

lemma fresh_first:
  assumes "incoming (c_sock c) = [buf]" and "buf \<noteq> []" and "length buf \<le> 256" and "healthy c"
  shows "first_bytes (c\<lparr>pipelineSpill := [], responseBatch := []\<rparr>)
     = (Inr (Some (buf, 8192)), c\<lparr>pipelineSpill := [], responseBatch := [], c_sock := (c_sock c)\<lparr>incoming := []\<rparr>\<rparr>)"
  using assms
  by (simp add: first_bytes_def flushPendingResponses_def io_bind_def io_return_def conn_read_def async_read_some_def healthy_def)

lemma fresh_repeats:
  assumes pr: "plain_request srv (is_ssl c) buf n h x req" and au: "answers_unread srv buf n h x req res"
    and hc: "healthy c" and fb: "fileBody res = None"
    and inc: "incoming (c_sock c) = [buf]" and len: "length buf \<le> 256" and out: "bytes_out c = []"
  shows "\<exists>s'. session_loop srv (replicate (Suc k) now) (new_http_session srv now c st) = (Continue, s')
     \<and> pipelineSpill (ss_conn s') = buf \<and> stream_in (ss_conn s') = []
     \<and> pending_out (ss_conn s') = concat (replicate (Suc k) (reply_text (files srv) (version_string srv)
          (repeated_reply srv now (fst (rebuildPrefix (version_string srv) True (http_date srv now))) buf req res)))"
proof -
  let ?s = "new_http_session srv now c st" and ?p = "fst (rebuildPrefix (version_string srv) True (http_date srv now))"
  let ?t = "reply_text (files srv) (version_string srv) (repeated_reply srv now ?p buf req res)"
  let ?c0 = "c\<lparr>pipelineSpill := [], responseBatch := [], c_sock := (c_sock c)\<lparr>incoming := []\<rparr>\<rparr>"
  have ne: "buf \<noteq> []" using pr by (simp add: plain_request_def)
  have first: "first_bytes (ss_conn ?s) = (Inr (Some (buf, 8192)), ?c0)"
    using fresh_first [OF inc ne len hc] by (simp add: new_http_session_def)
  have pr0: "plain_request srv (is_ssl ?c0) buf n h x req" using pr by simp
  have h0: "healthy ?c0" using hc by (simp add: healthy_def)
  have d: "ss_dateSec ?s = now" and px: "fst (ss_prefix ?s) = ?p" by (simp_all add: new_http_session_def)
  obtain c1 where c1: "serve_one srv now ?s = (Continue, ?s\<lparr>ss_conn := c1\<lparr>pipelineSpill := buf\<rparr>\<rparr>)" "healthy c1"
      "input_side c1 = input_side ?c0" "pending_out c1 = pending_out ?c0 @ ?t"
    using unread_answer_step [OF pr0 au h0 fb first d] unfolding px by blast
  let ?s1 = "?s\<lparr>ss_conn := c1\<lparr>pipelineSpill := buf\<rparr>\<rparr>"
  have pr1: "plain_request srv (is_ssl c1) buf n h x req" using pr c1(3) by (simp add: input_side_def)
  obtain c' where "session_loop srv (replicate k now) ?s1 = (Continue, ?s1\<lparr>ss_conn := c'\<lparr>pipelineSpill := buf\<rparr>\<rparr>)"
      "stream_in c' = stream_in c1" "pending_out c' = pending_out c1 @ concat (replicate k ?t)"
    using unread_answer_repeats [OF pr1 au c1(2) fb, of ?s1 now k] d px by auto
  moreover have "stream_in c1 = []" using input_side_stream [OF c1(3)] by (simp add: stream_in_def)
  moreover have "pending_out ?c0 = []" using out by (simp add: pending_out_def bytes_out_def)
  ultimately show ?thesis using c1(1,4) by simp
qed

lemma oversized_unread:
  fixes srv :: "('v, 's, 'c, 'd) HttpServer"
  assumes "mw_entries (middlewarePipeline srv) = []" and "hasContentLength (scan_headers (raw_fields h))"
    and "sc_contentLength (scan_headers (raw_fields h)) > maxBodySize srv"
  shows "answers_unread srv buf n h x req (bodyError hPayloadTooLarge ''Request body too large'')"
proof (unfold answers_unread_def, intro allI exI)
  fix c and st :: 's
  let ?q = "(req, ctx_of c buf, st)" and ?q1 = "(req, (ctx_of c buf)\<lparr>bodyRead := True\<rparr>, st)" and ?env = "env_of buf n h"
  let ?err = "bodyError hPayloadTooLarge ''Request body too large''"
  have same: "(ctx_of c buf)\<lparr>bodyRead := True, cx_conn := c\<rparr> = (ctx_of c buf)\<lparr>bodyRead := True\<rparr>" by (simp add: ctx_of_def)
  have rl: "read_length_body srv ?env ?q1 = (Inr (Some ?err), ?q1)" using assms(3) by (simp add: read_length_body_def env_of_def)
  have "readRequestBody srv ?env ?q = (Inr (Some ?err), ?q1)"
  proof (cases "expects_continue ?env")
    case True
    then show ?thesis using assms by (simp add: readRequestBody_def Let_def ctx_of_def) (simp add: env_of_def)
  next
    case False
    have "0 < sc_contentLength (scan_headers (raw_fields h))" using assms(3) by simp
    then show ?thesis using assms False rl unfolding readRequestBody_def
      by (simp add: Let_def ctx_of_def env_of_def [of buf, THEN arg_cong, of be_scan])
  qed
  then have "request_tail srv ?env x ?q = (Inr ?err, ?q1)" by (simp add: request_tail_def ctx_of_def)
  then show "run_application srv ?env x ?q = (?err, ?q1)"
    using assms(1) by (simp add: run_application_def pipeline_size_def)
qed

lemma short_circuit_unread:
  fixes srv :: "('v, 's, 'c, 'd) HttpServer"
  assumes "mw_entries (middlewarePipeline srv) = e # es" and "mw_type e = hSync" and "\<not> mw_needsBody e"
    and "mw_before e = Some b" and "\<And>q. b q = (Inr (Some res), q)"
  shows "answers_unread srv buf n h x req res"
proof (unfold answers_unread_def, intro allI exI)
  fix c and st :: 's
  let ?slot = "\<lambda>_. Some (readRequestBody srv (env_of buf n h))"
  have g: "\<exists>es'. gated ?slot (e # es) = e # es'" using assms(3) by (auto simp: gated_def)
  then obtain es' where es': "gated ?slot (e # es) = e # es'" ..
  have "execute_with ?slot (middlewarePipeline srv) t q = (Inr res, q)" for t q
    unfolding execute_with_def optimized_chain_of assms(1) es'
    using assms(2,4,5) by (simp add: merge_run_def merged_layer_def)
  then show "run_application srv (env_of buf n h) x (req, ctx_of c buf, st) = (res, req, (ctx_of c buf)\<lparr>bodyRead := False\<rparr>, st)"
    using assms(1) by (simp add: run_application_def pipeline_size_def ctx_of_def)
qed

section \<open>Every other request is consumed\<close>

definition reads_on :: "Conn \<Rightarrow> Conn \<Rightarrow> bool" where
  "reads_on c c' \<longleftrightarrow> length (stream_in c') \<le> length (stream_in c) \<and> pipelineSpill c' = pipelineSpill c
     \<and> (healthy c \<longrightarrow> healthy c')"

lemma reads_on_trans: "reads_on c c1 \<Longrightarrow> reads_on c1 c2 \<Longrightarrow> reads_on c c2"
  by (simp add: reads_on_def)

lemma emits_reads_on: "emits m t \<Longrightarrow> never_fails m \<Longrightarrow> m c = (x, c') \<Longrightarrow> reads_on c c'"
  using emitsD(1) [of m t c x c'] input_side_stream [of c' c]
  by (auto simp: reads_on_def input_side_def never_fails_def)

lemma flush_reads_on: "flushPendingResponses c = (x, c') \<Longrightarrow> reads_on c c'"
  by (rule emits_reads_on [OF flush_emits never_fails_flush])

lemma continue_emits: "emits (io_then flushPendingResponses (conn_write k100)) k100"
    "never_fails (io_then flushPendingResponses (conn_write k100))"
  by (rule flushed_emits [OF delivers_conn_write]) (intro never_fails_bind never_fails_flush never_fails_conn_write)

lemma conn_read_reads_on: "conn_read n c = (x, c') \<Longrightarrow> reads_on c c'"
  and conn_read_take: "conn_read n c = (Inr bytes, c') \<Longrightarrow> length bytes + length (stream_in c') = length (stream_in c)"
proof -
  have rs: "read_segments n segs = Some (b, rest) \<Longrightarrow> b @ concat rest = concat segs" for segs :: "char list list" and b rest
    by (induction n segs rule: read_segments.induct) (auto split: if_splits)
  have "length b + length (concat rest) = length (concat segs)" if "read_segments n segs = Some (b, rest)"
    for segs :: "char list list" and b rest
    using rs [OF that] by (metis length_append)
  then show "conn_read n c = (x, c') \<Longrightarrow> reads_on c c'"
    and "conn_read n c = (Inr bytes, c') \<Longrightarrow> length bytes + length (stream_in c') = length (stream_in c)"
    by (auto simp: conn_read_def async_read_some_def reads_on_def stream_in_def healthy_def split: if_splits option.splits prod.splits
        dest: sym) (metis le_add2)
qed

lemma length_loop_reads_on: "length_loop n got c = (r, body, c') \<Longrightarrow> reads_on c c'"
proof (induction n got c rule: length_loop.induct)
  case (1 n got c)
  show ?case
  proof (cases "n = 0")
    case True
    then show ?thesis using "1.prems" by (subst (asm) length_loop.simps) (simp add: reads_on_def)
  next
    case n: False
    obtain x c1 where x: "conn_read n c = (x, c1)" by fastforce
    note r1 = conn_read_reads_on [OF x]
    show ?thesis
    proof (cases x)
      case (Inl e)
      then show ?thesis using "1.prems" n x r1 by (subst (asm) length_loop.simps) simp
    next
      case (Inr bytes)
      then have "length_loop (n - length bytes) (got @ bytes) c1 = (r, body, c')"
        using "1.prems" n x by (subst (asm) length_loop.simps) simp
      from "1.IH" [OF n x [symmetric] Inr this] show ?thesis using r1 reads_on_trans by blast
    qed
  qed
qed

text \<open>The contract of the chunk decoder: what follows the body is a part of the buffer.\<close>

definition decoder_ok :: "('v, 's, 'c, 'd) HttpServer \<Rightarrow> bool" where
  "decoder_ok srv \<longleftrightarrow> (\<forall>d buf d' out rest. decode_chunked srv d buf = (d', out, DecodeDone rest) \<longrightarrow> length rest \<le> length buf)"

definition parser_ok :: "('v, 's, 'c, 'd) HttpServer \<Rightarrow> bool" where
  "parser_ok srv \<longleftrightarrow> (\<forall>buf k n h. parse_request srv buf k = PhrOk n h \<longrightarrow> 0 < n \<and> n \<le> length buf)"

definition weight :: "Conn \<Rightarrow> nat" where
  "weight c = length (pipelineSpill c) + length (stream_in c)"

lemma chunk_loop_weight:
  assumes "decoder_ok srv"
  shows "chunk_loop srv d buf body c = (r, body', c') \<Longrightarrow> pipelineSpill c = [] \<Longrightarrow>
     weight c' \<le> length buf + length (stream_in c) \<and> (healthy c \<longrightarrow> healthy c')"
proof (induction "unread (incoming (c_sock c))" arbitrary: d buf body c rule: less_induct)
  case less
  obtain d1 out ret where dec: "decode_chunked srv d buf = (d1, out, ret)" by (metis prod_cases3)
  note step = chunk_loop.simps [of srv d buf body c, unfolded dec prod.case]
  show ?case
  proof (cases "length (body @ out) > maxBodySize srv \<or> ret = DecodeError")
    case True
    then have "c' = c" using less.prems(1) unfolding step by (auto split: if_splits)
    then show ?thesis using less.prems(2) by (simp add: weight_def)
  next
    case False
    show ?thesis
    proof (cases ret)
      case (DecodeDone rest)
      then have "c' = (if rest \<noteq> [] then c\<lparr>pipelineSpill := rest\<rparr> else c)" using less.prems(1) False unfolding step by simp
      moreover have "length rest \<le> length buf" using assms dec DecodeDone unfolding decoder_ok_def by blast
      ultimately show ?thesis using less.prems(2) by (auto simp: weight_def stream_in_def healthy_def)
    next
      case DecodePartial
      obtain x c1 where x: "flushPendingResponses c = (x, c1)" by fastforce
      have f: "reads_on c c1" by (rule flush_reads_on [OF x])
      obtain y c2 where y: "conn_read 4096 c1 = (y, c2)" by fastforce
      have g: "reads_on c1 c2" by (rule conn_read_reads_on [OF y])
      show ?thesis
      proof (cases "\<exists>u bytes. x = Inr u \<and> y = Inr bytes \<and> bytes \<noteq> []")
        case True
        then obtain u bytes where b: "x = Inr u" "y = Inr bytes" "bytes \<noteq> []" by blast
        then have "chunk_loop srv d1 bytes (body @ out) c2 = (r, body', c')"
          using less.prems(1) False DecodePartial x y unfolding step by simp
        moreover have "unread (incoming (c_sock c2)) < unread (incoming (c_sock c))"
          using flush_read_less x y b by blast
        moreover have "pipelineSpill c2 = []" using less.prems(2) f g by (simp add: reads_on_def)
        ultimately have "weight c' \<le> length bytes + length (stream_in c2) \<and> (healthy c2 \<longrightarrow> healthy c')" using less.hyps by blast
        then show ?thesis using conn_read_take [of 4096 c1 bytes c2] y b f g by (simp add: reads_on_def)
      next
        case False2: False
        have "c' = c1 \<or> c' = c2"
          using less.prems(1) False DecodePartial x y False2 unfolding step by (cases x; cases y) (auto split: if_splits)
        then show ?thesis using less.prems(2) f g by (auto simp: weight_def reads_on_def)
      qed
    next
      case DecodeError
      then show ?thesis using False by simp
    qed
  qed
qed

text \<open>What the next iteration finds after this one.\<close>

definition kept :: "Ctx \<Rightarrow> nat" where
  "kept cx = (if bufUsed cx > 0 then bufUsed cx else length (pipelineSpill (cx_conn cx))) + length (stream_in (cx_conn cx))"

definition length_accepted :: "('v, 's, 'c, 'd) HttpServer \<Rightarrow> Scan \<Rightarrow> bool" where
  "length_accepted srv sc \<longleftrightarrow> (hasContentLength sc \<longrightarrow> sc_contentLength sc \<le> maxBodySize srv)"

text \<open>The head of the next request of a session, if one arrives, and the requests that the loop meets on its way.\<close>

definition next_head :: "('v, 's, 'c, 'd) HttpServer \<Rightarrow> 's Session \<Rightarrow> RawHead option" where
  "next_head srv s =
     (case first_bytes (ss_conn s) of
        (Inr (Some (buf, cap)), c) \<Rightarrow> (case read_head_bytes srv buf cap c of (Inr (HeadDone _ _ h), _) \<Rightarrow> Some h | _ \<Rightarrow> None)
      | _ \<Rightarrow> None)"

fun requests_met :: "('v, 's, 'c, 'd) HttpServer \<Rightarrow> nat list \<Rightarrow> 's Session \<Rightarrow> RawHead list" where
  "requests_met srv [] s = []"
| "requests_met srv (now # nows) s =
     (case next_head srv s of None \<Rightarrow> [] | Some h \<Rightarrow> [h])
       @ (case serve_one srv now s of (Continue, s1) \<Rightarrow> requests_met srv nows s1 | _ \<Rightarrow> [])"

lemma read_length_body_kept:
  assumes "read_length_body srv env (req, cx, st) = (r, req', cx', st')" and "pipelineSpill (cx_conn cx) = []"
    and "sc_contentLength (be_scan env) \<le> maxBodySize srv"
  shows "kept cx' \<le> remainingInBuf env + length (stream_in (cx_conn cx)) \<and> (healthy (cx_conn cx) \<longrightarrow> healthy (cx_conn cx'))"
proof -
  define n where "n = sc_contentLength (be_scan env)"
  define m where "m = min (remainingInBuf env) n"
  define cx1 where "cx1 = cx\<lparr>spillSrc := (if remainingInBuf env - m > 0 then be_headerBytes env + m else spillSrc cx),
      bufUsed := remainingInBuf env - m\<rparr>"
  obtain x c1 where x: "(if n - m > 0 then flushPendingResponses (cx_conn cx1) else (Inr (), cx_conn cx1)) = (x, c1)" by fastforce
  have r1: "reads_on (cx_conn cx) c1" using x flush_reads_on [of "cx_conn cx" x c1] by (auto simp: cx1_def reads_on_def split: if_splits)
  obtain y body c2 where y: "length_loop (n - m) (take m (drop (be_headerBytes env) (be_readBuf env))) c1 = (y, body, c2)"
    by (metis prod_cases3)
  have r2: "reads_on c1 c2" by (rule length_loop_reads_on [OF y])
  have big: "\<not> n > maxBodySize srv" using assms(3) by (simp add: n_def)
  have "cx' = cx1\<lparr>cx_conn := c1\<rparr> \<or> cx' = cx1\<lparr>cx_conn := c2\<rparr>"
    using assms(1) unfolding read_length_body_def prod.case Let_def n_def [symmetric] m_def [symmetric] cx1_def [symmetric] if_not_P [OF big] x
    by (cases x; cases y) (auto simp: y)
  then show ?thesis using r1 r2 assms(2) by (auto simp: kept_def reads_on_def cx1_def)
qed

lemma readRequestBody_kept:
  assumes "readRequestBody srv env (req, cx, st) = (r, req', cx', st')" and "\<not> bodyRead cx"
    and "pipelineSpill (cx_conn cx) = []" and "decoder_ok srv" and "length_accepted srv (be_scan env)"
    and "healthy (cx_conn cx)"
  shows "kept cx' \<le> remainingInBuf env + length (stream_in (cx_conn cx)) \<and> healthy (cx_conn cx')"
proof -
  let ?sc = "be_scan env" and ?m = "if expects_continue env then io_then flushPendingResponses (conn_write k100) (cx_conn cx) else (Inr (), cx_conn cx)"
  have big: "\<not> (expects_continue env \<and> hasContentLength ?sc \<and> sc_contentLength ?sc > maxBodySize srv)"
    using assms(5) by (auto simp: length_accepted_def)
  obtain x c1 where x: "?m = (x, c1)" by fastforce
  have r1: "reads_on (cx_conn cx) c1"
    using x emits_reads_on [OF continue_emits, of "cx_conn cx" x c1] by (auto simp: reads_on_def split: if_splits)
  have ok: "\<exists>u. x = Inr u" using x continue_emits(2) assms(6) by (auto simp: never_fails_def split: if_splits)
  let ?cx1 = "cx\<lparr>bodyRead := True, cx_conn := c1\<rparr>"
  have sp: "pipelineSpill c1 = []" "length (stream_in c1) \<le> length (stream_in (cx_conn cx))" "healthy c1"
    using r1 assms(3,6) by (simp_all add: reads_on_def)
  have cc: "cx_conn (cx\<lparr>bodyRead := True\<rparr>) = cx_conn cx" by simp
  have run: "readRequestBody srv env (req, cx, st) =
      (case x of Inl e \<Rightarrow> (Inl (exn_what srv e), req, ?cx1, st)
       | Inr _ \<Rightarrow> if hasContentLength ?sc \<and> sc_contentLength ?sc > 0 then read_length_body srv env (req, ?cx1, st)
          else if isChunked ?sc then read_chunked_body srv env (req, ?cx1, st)
          else (Inr None, req, ?cx1\<lparr>spillSrc := be_headerBytes env, bufUsed := remainingInBuf env\<rparr>, st))"
    unfolding readRequestBody_def prod.case Let_def if_not_P [OF assms(2)] if_not_P [OF big] cc x
    by (cases x) simp_all
  show ?thesis
  proof (cases x)
    case (Inl e)
    then show ?thesis using ok by simp
  next
    case (Inr u)
    consider "hasContentLength ?sc \<and> sc_contentLength ?sc > 0" | "\<not> (hasContentLength ?sc \<and> sc_contentLength ?sc > 0)" "isChunked ?sc"
      | "\<not> (hasContentLength ?sc \<and> sc_contentLength ?sc > 0)" "\<not> isChunked ?sc" by blast
    then show ?thesis
    proof cases
      case 1
      then have "read_length_body srv env (req, ?cx1, st) = (r, req', cx', st')" using assms(1) run Inr by simp
      from read_length_body_kept [OF this] sp 1 assms(5) show ?thesis by (simp add: length_accepted_def)
    next
      case 2
      then have ch: "read_chunked_body srv env (req, ?cx1, st) = (r, req', cx', st')" using assms(1) run Inr by auto
      obtain rr body c2 where c2: "chunk_loop srv (decoder_init srv) (drop (be_headerBytes env) (be_readBuf env)) (rq_body req) c1 = (rr, body, c2)"
        by (metis prod_cases3)
      have "cx' = ?cx1\<lparr>bufUsed := 0, cx_conn := c2\<rparr>" using ch c2 by (auto simp: read_chunked_body_def)
      then show ?thesis using chunk_loop_weight [OF assms(4) c2 sp(1)] sp(2,3) by (simp add: kept_def weight_def remainingInBuf_def)
    next
      case 3
      then have "cx' = ?cx1\<lparr>spillSrc := be_headerBytes env, bufUsed := remainingInBuf env\<rparr>" using assms(1) run Inr by auto
      then show ?thesis using sp by (simp add: kept_def)
    qed
  qed
qed

lemma dispatch_resolved_ctx: "dispatch_resolved x (req, cx, st) = (r, req', cx', st') \<Longrightarrow> cx' = cx"
  by (auto simp: dispatch_resolved_def split: option.splits prod.splits)

lemma run_application_kept:
  assumes "mw_entries (middlewarePipeline srv) = []" and "decoder_ok srv" and "length_accepted srv (be_scan env)"
    and "run_application srv env x (req, cx, st) = (res, req', cx', st')"
    and "\<not> bodyRead cx" and "pipelineSpill (cx_conn cx) = []" and "healthy (cx_conn cx)"
  shows "kept cx' \<le> remainingInBuf env + length (stream_in (cx_conn cx)) \<and> healthy (cx_conn cx')"
proof -
  obtain r req1 cx1 st1 where rb: "readRequestBody srv env (req, cx, st) = (r, req1, cx1, st1)" by (metis prod_cases4)
  note k = readRequestBody_kept [OF rb assms(5,6,2,3,7)]
  have "\<exists>y req2 st2. request_tail srv env x (req, cx, st) = (y, req2, cx1, st2)"
    using assms(5) rb dispatch_resolved_ctx [of x req1 cx1 st1]
    by (cases "dispatch_resolved x (req1, cx1, st1)") (auto simp: request_tail_def split: sum.split option.split)
  then obtain y req2 st2 where "request_tail srv env x (req, cx, st) = (y, req2, cx1, st2)" by blast
  then have "cx' = cx1" using assms(1,4) by (cases y) (simp_all add: run_application_def pipeline_size_def)
  then show ?thesis using k by simp
qed

lemma head_loop_bytes:
  "head_loop srv buf cap c = (Inr (HeadDone buf1 n h), c1) \<Longrightarrow> parser_ok srv \<Longrightarrow>
   length buf1 + length (stream_in c1) = length buf + length (stream_in c) \<and> reads_on c c1 \<and> 0 < n \<and> n \<le> length buf1
   \<and> (\<exists>b k. parse_request srv b k = PhrOk n h)"
proof (induction srv buf cap c rule: head_loop.induct)
  case (1 srv buf cap c)
  have nl: "\<not> (length buf \<ge> cap \<and> cap \<ge> maxHeaderSize srv)" using "1.prems"(1) by (subst (asm) head_loop.simps) (auto split: if_splits)
  define cap1 where "cap1 = (if length buf \<ge> cap then cap * 2 else cap)"
  note step = head_loop.simps [of srv buf cap c, unfolded if_not_P [OF nl] Let_def cap1_def [symmetric]]
  obtain x c' where x: "flushPendingResponses c = (x, c')" by fastforce
  obtain u where u: "x = Inr u" using "1.prems"(1) x by (cases x) (auto simp: step)
  obtain y c2 where y: "conn_read (cap1 - length buf) c' = (y, c2)" by fastforce
  obtain bytes where b: "y = Inr bytes" using "1.prems"(1) x u y by (cases y) (auto simp: step)
  have ne: "bytes \<noteq> []" using "1.prems"(1) x u y b by (auto simp: step split: if_splits)
  have f: "reads_on c c'" "length (stream_in c') = length (stream_in c)"
    using flush_reads_on [OF x] input_side_stream [OF emitsD(1) [OF flush_emits x]] by simp_all
  have g: "reads_on c' c2" "length bytes + length (stream_in c2) = length (stream_in c')"
    using conn_read_reads_on [OF y] conn_read_take y b by auto
  show ?case
  proof (cases "parse_request srv (buf @ bytes) (length buf)")
    case (PhrOk m hd)
    then have e: "n = m" "h = hd" "buf1 = buf @ bytes" "c1 = c2"
      using "1.prems"(1) x u y b ne by (auto simp: step split: if_splits)
    have "0 < n \<and> n \<le> length buf1" using "1.prems"(2) PhrOk e unfolding parser_ok_def by blast
    then show ?thesis using e f g PhrOk reads_on_trans by auto
  next
    case PhrError
    then show ?thesis using "1.prems"(1) x u y b ne by (auto simp: step)
  next
    case PhrPartial
    then have short: "\<not> length (buf @ bytes) > maxHeaderSize srv"
      and rec: "head_loop srv (buf @ bytes) cap1 c2 = (Inr (HeadDone buf1 n h), c1)"
      using "1.prems"(1) x u y b ne by (auto simp: step split: if_splits)
    from "1.IH" [OF nl cap1_def x [symmetric] u y [symmetric] b ne PhrPartial short rec "1.prems"(2)]
    show ?thesis using f g reads_on_trans by auto
  qed
qed

definition stays_healthy :: "'a io \<Rightarrow> bool" where
  "stays_healthy m \<longleftrightarrow> (\<forall>c. healthy c \<longrightarrow> healthy (snd (m c)))"

lemma stays_healthyI: "never_fails m \<Longrightarrow> stays_healthy m"
  unfolding never_fails_def stays_healthy_def by (metis snd_conv)

lemma stays_bind: "stays_healthy m \<Longrightarrow> (\<And>x. stays_healthy (f x)) \<Longrightarrow> stays_healthy (io_bind m f)"
  by (auto simp: stays_healthy_def io_bind_def split: prod.split sum.split)

lemma stays_throw: "stays_healthy (\<lambda>c. (Inl e, c))"
  by (simp add: stays_healthy_def)

lemma stays_file: "stays_healthy (writeFileResponse fs fb res prefix)"
proof (cases "\<exists>content. fs (file_path fb) = Some content \<and> file_length fb \<ge> 0")
  case True
  then show ?thesis by (intro stays_healthyI never_fails_file) auto
next
  case False
  note parts = stays_bind stays_throw stays_healthyI [OF never_fails_return(2)] stays_healthyI [OF never_fails_conn_write]
  show ?thesis
  proof (cases "fs (file_path fb)")
    case None
    then show ?thesis unfolding writeFileResponse_def Let_def by (simp add: parts)
  next
    case (Some content)
    then have "file_length fb < 0" using False by auto
    then show ?thesis unfolding writeFileResponse_def Let_def using Some by (simp add: parts)
  qed
qed

lemma stays_send_reply: "stays_healthy (send_reply fs ver rp)"
proof (cases "sendable_reply fs rp")
  case True
  then show ?thesis by (intro stays_healthyI never_fails_send_reply)
next
  case False
  then obtain fb where fb: "fileBody (reply_res rp) = Some fb" by (auto simp: sendable_reply_def reply_res_def split: option.splits)
  let ?r0 = "reply_res rp"
  let ?r1 = "closing_headers ver (rp_date rp) ?r0"
  have fb1: "fileBody ?r1 = Some fb" using fb by (simp add: closing_headers_def)
  have "stays_healthy (io_then flushPendingResponses (if rp_isHead rp then writeResponse ?r1 (rp_isHead rp) else writeFileResponse fs fb ?r1 []))"
    "stays_healthy (io_then flushPendingResponses
       (if rp_isHead rp then writeResponse_prefix ?r0 (rp_prefix rp) (rp_isHead rp) else writeFileResponse fs fb ?r0 (rp_prefix rp)))"
    using stays_file by (auto intro!: stays_bind intro: stays_healthyI)
  then show ?thesis using fb fb1 unfolding stays_healthy_def send_reply_def Let_def by simp
qed

lemma respond_continue:
  assumes "respond srv now keep env res (req, cx, st) s = (Continue, s')" and "healthy (cx_conn cx)"
  shows "weight (ss_conn s') \<le> kept cx \<and> healthy (ss_conn s')"
proof -
  define ka where "ka = (keep \<and> \<not> draining srv)"
  define stale where "stale = (ka \<and> now \<noteq> ss_dateSec s)"
  define prefix where "prefix = (if stale then refresh_date (ss_prefix s) (http_date srv now) else ss_prefix s)"
  define rp where "rp = \<lparr>rp_keepAlive = ka, rp_isHead = (rq_method req = hHead), rp_prefix = fst prefix,
      rp_bufUsed = bufUsed cx, rp_date = http_date srv now, rp_res = res\<rparr>"
  obtain x c where c: "send_reply (files srv) (version_string srv) rp (cx_conn cx) = (x, c)" by fastforce
  let ?kept = "if bufUsed cx > 0 then c\<lparr>pipelineSpill := take (bufUsed cx) (drop (spillSrc cx) (be_readBuf env))\<rparr> else c"
  note run = respond_def [of srv now keep env res "(req, cx, st)" s, unfolded prod.case Let_def, folded ka_def, folded stale_def,
      folded prefix_def, folded rp_def, unfolded c prod.case]
  have x: "ss_conn s' = ?kept" using assms(1) unfolding run by (cases x) (auto simp: thrown_def split: SessExn.splits if_splits)
  have i: "input_side c = input_side (cx_conn cx)" by (rule emitsD(1) [OF send_reply_emits c])
  have h: "healthy c" using stays_send_reply [of "files srv" "version_string srv" rp] assms(2) c
    unfolding stays_healthy_def by (metis snd_conv)
  show ?thesis using x i h input_side_stream [OF i] by (auto simp: weight_def kept_def input_side_def)
qed

lemma thrown_not_continue [simp]: "thrown e \<noteq> Continue"
  by (simp add: thrown_def split: SessExn.split)

lemma closing_not_continue [simp]: "fst (answer_and_close m s) \<noteq> Continue"
  by (auto simp: answer_and_close_def split: prod.split sum.split)

lemma upgrade_not_continue [simp]: "fst (ws_upgrade srv rt ps q s) \<noteq> Continue" "fst (sse_upgrade srv rt' ps q s) \<noteq> Continue"
  by (auto simp: ws_upgrade_def sse_upgrade_def Let_def split: prod.split sum.split)

lemma serve_matched_continue:
  assumes "serve_matched srv now keep env x req s = (Continue, s')" and "mw_entries (middlewarePipeline srv) = []"
    and "decoder_ok srv" and "length_accepted srv (be_scan env)"
    and "pipelineSpill (ss_conn s) = []" and "healthy (ss_conn s)"
  shows "weight (ss_conn s') \<le> remainingInBuf env + length (stream_in (ss_conn s)) \<and> healthy (ss_conn s')"
proof -
  let ?c = "ss_conn s"
  define q0 where "q0 = (req, \<lparr>cx_conn = ?c, bodyRead = False, spillSrc = 0, bufUsed = length (be_readBuf env)\<rparr>, ss_app s)"
  show ?thesis
  proof (cases "ws_match srv ?c req \<noteq> None \<or> sse_match srv ?c req \<noteq> None")
    case True
    then have "fst (serve_matched srv now keep env x req s) \<noteq> Continue"
      by (auto simp: serve_matched_def Let_def split: option.split prod.split)
    then show ?thesis using assms(1) by simp
  next
    case False
    obtain res req1 cx1 st1 where app: "run_application srv env x q0 = (res, req1, cx1, st1)" by (metis prod_cases4)
    have "kept cx1 \<le> remainingInBuf env + length (stream_in ?c) \<and> healthy (cx_conn cx1)"
      using run_application_kept [OF assms(2-4) app [unfolded q0_def]] assms(5,6) by simp
    moreover have "respond srv now keep env res (req1, cx1, st1) s = (Continue, s')"
    proof -
      have run: "serve_matched srv now keep env x req s =
          (case ws_match srv (cx_conn cx1) req1 of Some (rt, ps) \<Rightarrow> ws_upgrade srv rt ps (req1, cx1, st1) s
           | None \<Rightarrow> (case sse_match srv (cx_conn cx1) req1 of Some (rt, ps) \<Rightarrow> sse_upgrade srv rt ps (req1, cx1, st1) s
               | None \<Rightarrow> respond srv now keep env res (req1, cx1, st1) s))"
        unfolding serve_matched_def Let_def q0_def [symmetric] if_not_P [OF False] app prod.case fst_conv snd_conv ..
      show ?thesis using assms(1) unfolding run
        by (auto split: option.splits prod.splits dest!: arg_cong [where f = fst])
    qed
    ultimately show ?thesis using respond_continue by (metis order_trans)
  qed
qed

lemma serve_one_continue:
  assumes "serve_one srv now s = (Continue, s')" and "mw_entries (middlewarePipeline srv) = []"
    and "decoder_ok srv" and "parser_ok srv"
    and acc: "\<And>h. next_head srv s = Some h \<Longrightarrow> length_accepted srv (scan_headers (raw_fields h))"
    and "healthy (ss_conn s)"
  shows "weight (ss_conn s') < weight (ss_conn s) \<and> healthy (ss_conn s')"
proof -
  obtain x c where x: "first_bytes (ss_conn s) = (x, c)" by fastforce
  obtain buf cap where bc: "x = Inr (Some (buf, cap))"
    using assms(1) x by (auto simp: serve_one_def split: sum.splits option.splits)
  have W: "length buf + length (stream_in c) = weight (ss_conn s) \<and> pipelineSpill c = [] \<and> healthy c"
  proof -
    show "length buf + length (stream_in c) = weight (ss_conn s) \<and> pipelineSpill c = [] \<and> healthy c"
    proof (cases "pipelineSpill (ss_conn s) = []")
      case False
      then show ?thesis using x bc assms(6) by (auto simp: first_bytes_def weight_def)
    next
      case True
      obtain y c1 where y: "flushPendingResponses (ss_conn s) = (y, c1)" by fastforce
      obtain z c2 where z: "conn_read 256 c1 = (z, c2)" by fastforce
      have e: "z = Inr buf" "c = c2" "\<exists>u. y = Inr u"
        using True x bc y z by (auto simp: first_bytes_def io_bind_def io_return_def split: sum.splits if_splits)
      have f: "reads_on (ss_conn s) c1" "stream_in c1 = stream_in (ss_conn s)"
        using flush_reads_on [OF y] input_side_stream [OF emitsD(1) [OF flush_emits y]] by simp_all
      have g: "reads_on c1 c2" "length buf + length (stream_in c2) = length (stream_in c1)"
        using conn_read_reads_on [OF z] conn_read_take z e(1) by auto
      show ?thesis using True f g e assms(6) by (simp add: reads_on_def weight_def)
    qed
  qed
  then have w: "length buf + length (stream_in c) = weight (ss_conn s)" "pipelineSpill c = []" "healthy c" by blast+
  obtain y c1 where y: "read_head_bytes srv buf cap c = (y, c1)" by fastforce
  obtain buf1 n h where hd: "y = Inr (HeadDone buf1 n h)"
    using assms(1) x bc y by (auto simp: serve_one_def split: sum.splits head_result.splits dest!: arg_cong [where f = fst])
  have R: "length buf1 + length (stream_in c1) = length buf + length (stream_in c) \<and> reads_on c c1 \<and> 0 < n \<and> n \<le> length buf1
      \<and> (\<exists>b k. parse_request srv b k = PhrOk n h)"
  proof -
    show "length buf1 + length (stream_in c1) = length buf + length (stream_in c) \<and> reads_on c c1 \<and> 0 < n \<and> n \<le> length buf1
      \<and> (\<exists>b k. parse_request srv b k = PhrOk n h)"
    proof (cases "parse_request srv buf 0")
      case (PhrOk m hd')
      then have "buf1 = buf" "n = m" "h = hd'" "c1 = c" using y hd by (simp_all add: read_head_bytes_def io_return_def)
      then show ?thesis using assms(4) PhrOk unfolding parser_ok_def by (auto simp: reads_on_def)
    next
      case PhrError
      then show ?thesis using y hd by (simp add: read_head_bytes_def io_return_def)
    next
      case PhrPartial
      then show ?thesis using head_loop_bytes [OF _ assms(4)] y hd by (simp add: read_head_bytes_def)
    qed
  qed
  then have r: "length buf1 + length (stream_in c1) = length buf + length (stream_in c)" "reads_on c c1" "0 < n" "n \<le> length buf1"
    "\<exists>b k. parse_request srv b k = PhrOk n h" by blast+
  let ?env = "\<lparr>be_scan = scan_headers (raw_fields h), be_minor = raw_minor h, be_readBuf = buf1, be_headerBytes = n\<rparr>"
  have "serve_request srv now buf1 n h (s\<lparr>ss_conn := c1\<rparr>) = (Continue, s')"
    using assms(1) x bc y hd by (simp add: serve_one_def)
  then obtain keep xr req where sm: "serve_matched srv now keep ?env xr req (s\<lparr>ss_conn := c1\<rparr>) = (Continue, s')"
    by (auto simp: serve_request_def Let_def split: option.splits prod.splits if_splits dest!: arg_cong [where f = fst])
  have "length_accepted srv (be_scan ?env)" using acc [of h] x bc y hd by (simp add: next_head_def)
  from serve_matched_continue [OF sm assms(2,3) this] r(2) w(2,3)
  have "weight (ss_conn s') \<le> remainingInBuf ?env + length (stream_in c1) \<and> healthy (ss_conn s')" by (simp add: reads_on_def)
  then show ?thesis using r(1,3,4) w(1) unfolding remainingInBuf_def BodyEnv.select_convs by linarith
qed

lemma session_loop_ends:
  assumes "mw_entries (middlewarePipeline srv) = []" and "decoder_ok srv" and "parser_ok srv"
  shows "list_all (\<lambda>h. length_accepted srv (scan_headers (raw_fields h))) (requests_met srv nows s) \<Longrightarrow> healthy (ss_conn s) \<Longrightarrow>
    length nows > weight (ss_conn s) \<Longrightarrow> fst (session_loop srv nows s) \<noteq> Continue"
proof (induction nows arbitrary: s)
  case (Cons now nows)
  show ?case
  proof (cases "fst (serve_one srv now s) = Continue")
    case True
    then obtain s1 where s1: "serve_one srv now s = (Continue, s1)" by (metis prod.collapse)
    have acc: "next_head srv s = Some h \<Longrightarrow> length_accepted srv (scan_headers (raw_fields h))" for h using Cons.prems(1) by simp
    from serve_one_continue [OF s1 assms acc Cons.prems(2)]
    show ?thesis using Cons.IH [of s1] Cons.prems(1,3) s1 by simp
  next
    case False
    then show ?thesis by (cases "serve_one srv now s"; cases "fst (serve_one srv now s)") auto
  qed
qed simp

section \<open>Properties\<close>

text \<open>
  C3. A body with a known length is read exactly, however the bytes are cut into segments and however
  many of them arrived together with the head: the handler sees the next \<open>n\<close> bytes of the connection, what
  is kept for the next request is everything behind them, and the only output is the 100 Continue the
  client asked for, behind the pending responses. A connection that ends too early gives the error of
  the socket.
\<close>

theorem length_body_exact:
  assumes "hasContentLength (be_scan env)" and "0 < sc_contentLength (be_scan env)"
    and "sc_contentLength (be_scan env) \<le> maxBodySize srv" and "be_headerBytes env \<le> length (be_readBuf env)"
    and "healthy (cx_conn cx)" and "\<not> bodyRead cx"
  shows "(sc_contentLength (be_scan env) \<le> length (body_bytes env cx) \<longrightarrow>
      (\<exists>cx'. readRequestBody srv env (req, cx, st)
           = (Inr None, req\<lparr>rq_body := take (sc_contentLength (be_scan env)) (body_bytes env cx)\<rparr>, cx', st)
         \<and> leftover env cx' = drop (sc_contentLength (be_scan env)) (body_bytes env cx)
         \<and> pending_out (cx_conn cx') = pending_out (cx_conn cx) @ (if expects_continue env then k100 else [])))
    \<and> (sc_contentLength (be_scan env) > length (body_bytes env cx) \<longrightarrow>
      fst (readRequestBody srv env (req, cx, st)) = Inl (system_what srv (in_end (c_sock (cx_conn cx)))))"
proof -
  let ?n = "sc_contentLength (be_scan env)"
  obtain c1 where c1: "(if expects_continue env then io_then flushPendingResponses (conn_write k100) (cx_conn cx) else (Inr (), cx_conn cx))
        = (Inr (), c1)" "healthy c1" "input_side c1 = input_side (cx_conn cx)"
      "pending_out c1 = pending_out (cx_conn cx) @ (if expects_continue env then k100 else [])"
    using continue_step [OF assms(5)] by blast
  define cx1 where "cx1 = cx\<lparr>bodyRead := True, cx_conn := c1\<rparr>"
  have run: "readRequestBody srv env (req, cx, st) = read_length_body srv env (req, cx1, st)"
    using assms c1(1) by (simp add: readRequestBody_def Let_def cx1_def cong: if_cong)
  have bb: "body_bytes env cx1 = body_bytes env cx" and e: "in_end (c_sock (cx_conn cx1)) = in_end (c_sock (cx_conn cx))"
    using input_side_stream [OF c1(3)] by (simp_all add: cx1_def body_bytes_def)
  have h: "healthy (cx_conn cx1)" using c1(2) by (simp add: cx1_def)
  note spec = read_length_body_spec [where env = env and srv = srv and req = req and st = st, OF h assms(4,3), unfolded bb e]
  show ?thesis unfolding run using spec c1(4) by (auto simp: cx1_def)
qed

text \<open>
  C4. A connection's loop ends. Without middleware, with a parser that consumes at least one byte per
  request and no more than it was given, and a decoder that returns no more bytes than it was given, let no request that arrives on
  the connection declare a body above the limit (such a request is answered for ever, see below). Then every
  answered request shortens what is left to process; so a session over a finite stream is over after at
  most as many requests as there are bytes.
\<close>

theorem session_terminates:
  assumes "mw_entries (middlewarePipeline srv) = []" and "decoder_ok srv" and "parser_ok srv"
    and "list_all (\<lambda>h. length_accepted srv (scan_headers (raw_fields h))) (requests_met srv nows s)"
    and "healthy (ss_conn s)" and "length nows > weight (ss_conn s)"
  shows "fst (session_loop srv nows s) \<noteq> Continue"
  by (rule session_loop_ends [OF assms])

text \<open>
  C32. A request with a declared body above the limit, on a connection that is kept, is never consumed. The
  413 that \<open>readRequestBody\<close> returns is meant to close the connection; but the flag is overwritten, the
  whole request is stored as the start of the next one, and it is answered again and again: after any
  number of rounds the session has produced that many copies of the response to the one request, has read
  nothing more, and holds the request still.
\<close>

theorem oversized_body_repeats:
  assumes "plain_request srv (is_ssl c) buf n h x req" and "mw_entries (middlewarePipeline srv) = []"
    and "hasContentLength (scan_headers (raw_fields h))" and "sc_contentLength (scan_headers (raw_fields h)) > maxBodySize srv"
    and "healthy c" and "incoming (c_sock c) = [buf]" and "length buf \<le> 256" and "bytes_out c = []"
  shows "\<exists>s'. session_loop srv (replicate (Suc k) now) (new_http_session srv now c st) = (Continue, s')
     \<and> pipelineSpill (ss_conn s') = buf \<and> stream_in (ss_conn s') = []
     \<and> pending_out (ss_conn s') = concat (replicate (Suc k) (reply_text (files srv) (version_string srv)
          (repeated_reply srv now (fst (rebuildPrefix (version_string srv) True (http_date srv now))) buf req
            (bodyError hPayloadTooLarge ''Request body too large''))))"
proof (rule fresh_repeats [OF assms(1) oversized_unread [OF assms(2-4)] assms(5) _ assms(6-8)])
  show "fileBody (bodyError hPayloadTooLarge ''Request body too large'') = None"
    by (simp add: bodyError_def setBodyType_def setStatus_def new_response_def Let_def
        set_field_def invalidatePayload_def)
qed

text \<open>
  C33. The same happens when a middleware answers in place of the handler, as authentication and rate
  limiting do: the body was not read, so the position in the buffer was never advanced past the head, and
  on a kept connection the refused request is refused again and again.
\<close>

theorem refused_request_repeats:
  assumes "plain_request srv (is_ssl c) buf n h x req" and "mw_entries (middlewarePipeline srv) = e # es"
    and "mw_type e = hSync" and "\<not> mw_needsBody e" and "mw_before e = Some b" and "\<And>q. b q = (Inr (Some res), q)"
    and "fileBody res = None"
    and "healthy c" and "incoming (c_sock c) = [buf]" and "length buf \<le> 256" and "bytes_out c = []"
  shows "\<exists>s'. session_loop srv (replicate (Suc k) now) (new_http_session srv now c st) = (Continue, s')
     \<and> pipelineSpill (ss_conn s') = buf \<and> stream_in (ss_conn s') = []
     \<and> pending_out (ss_conn s') = concat (replicate (Suc k) (reply_text (files srv) (version_string srv)
          (repeated_reply srv now (fst (rebuildPrefix (version_string srv) True (http_date srv now))) buf req res)))"
  by (rule fresh_repeats [OF assms(1) short_circuit_unread [OF assms(2-6)] assms(8,7,9-11)])

section \<open>Witnesses\<close>

text \<open>A server with one route; its parser takes every byte for a complete head with the given fields.\<close>

definition sample_head :: "phr_headers \<Rightarrow> RawHead" where
  "sample_head fs = \<lparr>raw_method = ''POST'', raw_path = ''/'', raw_minor = 1, raw_fields = fs\<rparr>"

definition sample_route :: "(unit, unit) handler RouteEntry" where
  "sample_route = \<lparr>re_asyncHandler = None, re_syncHandler = Some (\<lambda>req st. (Inr notFound, req, st)), re_compileTimeChain = None\<rparr>"

definition sample_server ::
  "phr_headers \<Rightarrow> ((unit, unit) sess, NativeResponse) MiddlewareEntry list \<Rightarrow> (unit, unit, unit, unit) HttpServer" where
  "sample_server fs mws =
     \<lparr>router = new_router\<lparr>staticRoutes := [((hPost, ''/''), sample_route)]\<rparr>,
      middlewarePipeline = new_pipeline\<lparr>mw_entries := mws\<rparr>, errorHandler = None, maxHeaderSize = 8192, maxBodySize = 10,
      draining = False, parse_request = (\<lambda>b k. if b = [] then PhrPartial else PhrOk 1 (sample_head fs)),
      decode_chunked = (\<lambda>d b. (d, [], DecodeError)), decoder_init = (), files = Map.empty, version_string = ''hical'',
      http_date = (\<lambda>_. []), system_what = (\<lambda>_. ''eof'')\<rparr>"

definition sample_input :: "string \<Rightarrow> Conn" where
  "sample_input bytes = \<lparr>c_sock = \<lparr>incoming = [bytes], in_end = Eof, sent = [], write_faults = [], sock_open = True\<rparr>,
     write_limits = [], is_ssl = False, counter = None, pipelineSpill = [], responseBatch = []\<rparr>"

lemma sample_input_simps [simp]:
  "healthy (sample_input b)" "incoming (c_sock (sample_input b)) = [b]" "bytes_out (sample_input b) = []"
  "is_ssl (sample_input b) = False" "stream_in (sample_input b) = b" "pipelineSpill (sample_input b) = []"
  "in_end (c_sock (sample_input b)) = Eof"
  by (simp_all add: sample_input_def healthy_def bytes_out_def stream_in_def)

lemma sample_contracts: "decoder_ok (sample_server fs mws)" "parser_ok (sample_server fs mws)"
  by (auto simp: decoder_ok_def parser_ok_def sample_server_def Suc_leI split: if_splits)

lemma sample_fields_simps:
  "middlewarePipeline (sample_server fs mws) = new_pipeline\<lparr>mw_entries := mws\<rparr>" "draining (sample_server fs mws) = False"
  "parse_request (sample_server fs mws) = (\<lambda>b k. if b = [] then PhrPartial else PhrOk 1 (sample_head fs))"
  "router (sample_server fs mws) = new_router\<lparr>staticRoutes := [((hPost, ''/''), sample_route)]\<rparr>"
  "maxBodySize (sample_server fs mws) = 10"
  by (simp_all add: sample_server_def)

definition sample_match :: "(unit, unit) handler ResolveResult" where
  "sample_match = no_result\<lparr>rr_static := Some sample_route\<rparr>"

lemma sample_resolve:
  "resolveRoute (router (sample_server fs mws)) (request_of (sample_head fs) sc :: unit HttpRequest)
     = (sample_match, request_of (sample_head fs) sc)"
proof -
  let ?req = "request_of (sample_head fs) sc :: unit HttpRequest"
  have "rq_path ?req = ''/''" "rq_method ?req = hPost"
    by (simp_all add: request_of_def sample_head_def rq_path_def methodFromStringView_def)
  moreover have "segmentCount ''/'' = 1" "decoded_path ''/'' = ''/''"
    by (simp_all add: segmentCount_def decoded_path_def needsDecode_def)
  ultimately show ?thesis
    by (simp add: resolveRoute_def Let_def sample_fields_simps new_router_def ph_empty_def ph_valid_def resolve_tables_def
        kMaxPathSegments_def sample_match_def)
qed

lemma sample_plain:
  assumes "framing_error (scan_headers fs) 1 = None" and "\<not> hasConnectionHeader (scan_headers fs)"
    and "sc_upgrade (scan_headers fs) = None" and "sc_headers (scan_headers fs) = hs"
    and "connectionHasUpgradeToken (rh_find hs ''Connection'') = False" and "buf \<noteq> []"
  shows "plain_request (sample_server fs mws) False buf 1 (sample_head fs) sample_match
    (request_of (sample_head fs) (scan_headers fs))"
  using assms sample_resolve [of fs mws "scan_headers fs"]
  by (simp add: plain_request_def sample_fields_simps keep_alive_def isUpgrade_def request_of_def sample_head_def
      methodFromStringView_def isMatch_def sample_match_def no_result_def)

lemma sample_length_scan:
  "scan_headers [(Some ''Content-Length'', ''99'')] = new_scan\<lparr>sc_headers := [(''Content-Length'', ''99'')],
     hasContentLength := True, sc_contentLength := 99\<rparr>"
proof -
  have "iequals ''Content-Length'' ''Content-Length''" by (simp only: iequals_lower)
  moreover have "from_chars_size ''99'' = FcOk 99 []"
    by (simp add: from_chars_size_whole decimal_def is_dec_def ord_def size_modulus_def)
  ultimately show ?thesis
    by (simp add: scan_headers_def scan_header_Some scan_content_length_def new_scan_def rh_add_def kMaxHeaders_def)
qed

lemma no_upgrade_token: "connectionHasUpgradeToken [] = False"
  by (subst connectionHasUpgradeToken.simps) simp

lemma sample_plain_length:
  "buf \<noteq> [] \<Longrightarrow> plain_request (sample_server [(Some ''Content-Length'', ''99'')] mws) False buf 1
     (sample_head [(Some ''Content-Length'', ''99'')]) sample_match
     (request_of (sample_head [(Some ''Content-Length'', ''99'')]) (scan_headers [(Some ''Content-Length'', ''99'')]))"
proof (rule sample_plain [where hs = "[(''Content-Length'', ''99'')]"])
  have "\<not> iequals ''Content-Length'' ''Connection''" by (simp add: iequals_def)
  then show "connectionHasUpgradeToken (rh_find [(''Content-Length'', ''99'')] ''Connection'') = False"
    by (simp only: rh_find.simps if_False no_upgrade_token)
qed (simp_all add: sample_length_scan framing_error_def new_scan_def)

lemma sample_plain_empty:
  "buf \<noteq> [] \<Longrightarrow> plain_request (sample_server [] mws) False buf 1 (sample_head []) sample_match (request_of (sample_head []) (scan_headers []))"
  by (rule sample_plain [where hs = "[]"]) (simp_all add: scan_headers_def new_scan_def framing_error_def no_upgrade_token)

theorem length_body_exact_witness:
  "\<exists>cx'. readRequestBody (sample_server [] [])
      \<lparr>be_scan = new_scan\<lparr>hasContentLength := True, sc_contentLength := 3\<rparr>, be_minor = 1, be_readBuf = ''Hab'', be_headerBytes = 1\<rparr>
      (new_request, ctx_of (sample_input ''cNEXT'') ''Hab'', ())
    = (Inr None, new_request\<lparr>rq_body := ''abc''\<rparr>, cx', ())
    \<and> leftover \<lparr>be_scan = new_scan\<lparr>hasContentLength := True, sc_contentLength := 3\<rparr>, be_minor = 1, be_readBuf = ''Hab'', be_headerBytes = 1\<rparr> cx'
      = ''NEXT''"
  using length_body_exact [of "\<lparr>be_scan = new_scan\<lparr>hasContentLength := True, sc_contentLength := 3\<rparr>, be_minor = 1, be_readBuf = ''Hab'', be_headerBytes = 1\<rparr>"
      "sample_server [] []" "ctx_of (sample_input ''cNEXT'') ''Hab''" new_request "()"]
  by (simp add: sample_fields_simps ctx_of_def body_bytes_def new_scan_def) blast

text \<open>A parser that takes a byte for a head: \<open>A\<close> for an HTTP/1.0 request with a body of two bytes, any other for one with an oversized body.\<close>

definition two_bytes :: phr_headers where
  "two_bytes = [(Some ''Content-Length'', ''2'')]"

definition length_server :: "(unit, unit, unit, unit) HttpServer" where
  "length_server = (sample_server [] [])\<lparr>parse_request :=
     (\<lambda>b k. if b = [] then PhrPartial
            else PhrOk 1 (if hd b = CHR ''A'' then (sample_head two_bytes)\<lparr>raw_minor := 0\<rparr> else sample_head [(Some ''Content-Length'', ''99'')]))\<rparr>"

lemma two_bytes_scan:
  "scan_headers two_bytes = new_scan\<lparr>sc_headers := [(''Content-Length'', ''2'')], hasContentLength := True, sc_contentLength := 2\<rparr>"
proof -
  have "iequals ''Content-Length'' ''Content-Length''" by (simp only: iequals_lower)
  moreover have "from_chars_size ''2'' = FcOk 2 []"
    by (simp add: from_chars_size_whole decimal_def is_dec_def ord_def size_modulus_def)
  ultimately show ?thesis
    by (simp add: two_bytes_def scan_headers_def scan_header_Some scan_content_length_def new_scan_def rh_add_def kMaxHeaders_def)
qed

lemma respond_not_kept: "fst (respond srv now False env res q s) \<noteq> Continue"
  by (auto simp: respond_def Let_def split: prod.split sum.split)

lemma serve_not_kept:
  assumes "next_head srv s = Some h" and "\<not> keep_alive (scan_headers (raw_fields h)) (raw_minor h)"
  shows "fst (serve_one srv now s) \<noteq> Continue"
proof -
  have m: "fst (serve_matched srv now False env x req s1) \<noteq> Continue" for env x req s1
    unfolding serve_matched_def Let_def by (auto simp: respond_not_kept split: prod.split option.split)
  have "fst (serve_request srv now buf n h s1) \<noteq> Continue" for buf n s1
    using assms(2) m by (auto simp: serve_request_def Let_def split: option.split prod.split)
  then show ?thesis using assms(1)
    by (auto simp: next_head_def serve_one_def split: prod.splits sum.splits option.splits head_result.splits)
qed

theorem session_terminates_witness:
  "fst (session_loop length_server [0, 0, 0, 0, 0] (new_http_session length_server 0 (sample_input ''AxyB'') ())) \<noteq> Continue"
proof (rule session_terminates)
  let ?s = "new_http_session length_server 0 (sample_input ''AxyB'') ()"
  let ?h = "(sample_head two_bytes)\<lparr>raw_minor := 0\<rparr>"
  have h: "next_head length_server ?s = Some ?h" by code_simp
  have sc: "scan_headers (raw_fields ?h) = new_scan\<lparr>sc_headers := [(''Content-Length'', ''2'')], hasContentLength := True, sc_contentLength := 2\<rparr>"
    using two_bytes_scan by (simp add: sample_head_def)
  have "fst (serve_one length_server 0 ?s) \<noteq> Continue"
    by (rule serve_not_kept [OF h]) (unfold sc, simp add: keep_alive_def new_scan_def)
  then have "requests_met length_server [0, 0, 0, 0, 0] ?s = [?h]"
    using h by (cases "serve_one length_server 0 ?s"; cases "fst (serve_one length_server 0 ?s)") simp_all
  then show "list_all (\<lambda>h. length_accepted length_server (scan_headers (raw_fields h))) (requests_met length_server [0, 0, 0, 0, 0] ?s)"
    using two_bytes_scan by (simp add: length_accepted_def length_server_def sample_server_def sample_head_def)
  show "healthy (ss_conn ?s)" by (simp add: new_http_session_def healthy_def sample_input_def)
  show "length [0 :: nat, 0, 0, 0, 0] > weight (ss_conn ?s)" by (simp add: new_http_session_def weight_def stream_in_def sample_input_def)
qed (use sample_contracts [of "[]" "[]"] in \<open>auto simp: sample_fields_simps length_server_def decoder_ok_def parser_ok_def Suc_leI split: if_splits\<close>)

theorem oversized_body_repeats_witness:
  "\<exists>s'. session_loop (sample_server [(Some ''Content-Length'', ''99'')] []) (replicate (Suc 99) 0)
        (new_http_session (sample_server [(Some ''Content-Length'', ''99'')] []) 0 (sample_input ''x'') ()) = (Continue, s')
     \<and> pipelineSpill (ss_conn s') = ''x''"
proof -
  let ?srv = "sample_server [(Some ''Content-Length'', ''99'')] []" and ?h = "sample_head [(Some ''Content-Length'', ''99'')]"
  have p: "plain_request ?srv (is_ssl (sample_input ''x'')) ''x'' 1 ?h sample_match
      (request_of ?h (scan_headers [(Some ''Content-Length'', ''99'')]))"
    unfolding sample_input_simps by (rule sample_plain_length) simp
  have f: "raw_fields ?h = [(Some ''Content-Length'', ''99'')]" by (simp add: sample_head_def)
  have l: "hasContentLength (scan_headers (raw_fields ?h))" "sc_contentLength (scan_headers (raw_fields ?h)) > maxBodySize ?srv"
    unfolding f sample_length_scan by (simp_all add: sample_fields_simps)
  have m: "mw_entries (middlewarePipeline ?srv) = []" "length ''x'' \<le> 256" by (simp_all add: sample_fields_simps)
  show ?thesis
    using oversized_body_repeats [OF p m(1) l sample_input_simps(1,2) m(2) sample_input_simps(3), of 99 0 "()"] by blast
qed

definition sample_guard :: "((unit, unit) sess, NativeResponse) MiddlewareEntry" where
  "sample_guard = sync_entry ''guard'' (Some (\<lambda>q. (Inr (Some notFound), q))) None False"

theorem refused_request_repeats_witness:
  "\<exists>s'. session_loop (sample_server [] [sample_guard]) (replicate (Suc 99) 0)
        (new_http_session (sample_server [] [sample_guard]) 0 (sample_input ''x'') ()) = (Continue, s')
     \<and> pipelineSpill (ss_conn s') = ''x''"
proof -
  let ?srv = "sample_server [] [sample_guard]"
  have p: "plain_request ?srv (is_ssl (sample_input ''x'')) ''x'' 1 (sample_head []) sample_match
      (request_of (sample_head []) (scan_headers []))"
    unfolding sample_input_simps by (rule sample_plain_empty) simp
  have g: "mw_type sample_guard = hSync" "\<not> mw_needsBody sample_guard" "mw_before sample_guard = Some (\<lambda>q. (Inr (Some notFound), q))"
    by (simp_all add: sample_guard_def sync_entry_def)
  have m: "mw_entries (middlewarePipeline ?srv) = sample_guard # []" "length ''x'' \<le> 256" by (simp_all add: sample_fields_simps)
  show ?thesis
    using refused_request_repeats [OF p m(1) g refl notFound_parts(2) sample_input_simps(1,2) m(2) sample_input_simps(3), of 99 0 "()"] by blast
qed

end
