(* ===== verification/Pmr_Buffer.thy ===== *)
theory Pmr_Buffer
  imports Text_Parse
begin

text \<open>
  The growing byte buffer of \<^verbatim>\<open>src/src/core/PmrBuffer.h\<close>: a vector with a read and a write index, data
  between them, a reserve of eight bytes in front, growth by doubling, and moving the data to the front
  when that makes enough room. Positions in the readable part are offsets from \<open>peek()\<close>.
\<close>

section \<open>The buffer\<close>

record PmrBuffer =
  buffer :: string
  initialCapacity :: nat
  readIndex :: nat
  writeIndex :: nat
  allocator :: nat

definition hDefaultSize :: nat where "hDefaultSize = 2048"
definition hPrependSize :: nat where "hPrependSize = 8"

definition new_buffer :: "nat \<Rightarrow> nat \<Rightarrow> PmrBuffer" where
  "new_buffer alloc initialSize =
     \<lparr>buffer = replicate (hPrependSize + initialSize) (CHR 0x00), initialCapacity = initialSize,
      readIndex = hPrependSize, writeIndex = hPrependSize, allocator = alloc\<rparr>"

text \<open>\<open>vector::resize\<close>.\<close>

definition resize :: "nat \<Rightarrow> string \<Rightarrow> string" where
  "resize n xs = take n xs @ replicate (n - length xs) (CHR 0x00)"

section \<open>Reading\<close>

definition readableBytes :: "PmrBuffer \<Rightarrow> nat" where
  "readableBytes b = writeIndex b - readIndex b"

text \<open>The bytes from \<open>peek()\<close> to \<open>beginWrite()\<close>.\<close>

definition readable :: "PmrBuffer \<Rightarrow> string" where
  "readable b = take (readableBytes b) (drop (readIndex b) (buffer b))"

definition retrieveAll :: "PmrBuffer \<Rightarrow> PmrBuffer" where
  "retrieveAll b =
     (let b1 = (if length (buffer b) > (initialCapacity b + hPrependSize) * 2
                then b\<lparr>buffer := resize (initialCapacity b + hPrependSize) (buffer b)\<rparr> else b)
      in b1\<lparr>readIndex := hPrependSize, writeIndex := hPrependSize\<rparr>)"

definition retrieve :: "nat \<Rightarrow> PmrBuffer \<Rightarrow> string + PmrBuffer" where
  "retrieve len b =
     (if len > readableBytes b then Inl ''PmrBuffer::retrieve: len exceeds readable bytes''
      else if len < readableBytes b then Inr (b\<lparr>readIndex := readIndex b + len\<rparr>)
      else Inr (retrieveAll b))"

definition retrieveUntil :: "int \<Rightarrow> PmrBuffer \<Rightarrow> string + PmrBuffer" where
  "retrieveUntil stop b =
     (if stop < 0 \<or> stop > int (readableBytes b) then Inl ''PmrBuffer::retrieveUntil: invalid end pointer''
      else retrieve (nat stop) b)"

definition pb_read :: "nat \<Rightarrow> PmrBuffer \<Rightarrow> string + string \<times> PmrBuffer" where
  "pb_read len b =
     (if len > readableBytes b then Inl ''PmrBuffer::read: len exceeds readable bytes''
      else case retrieve len b of
             Inl e \<Rightarrow> Inl e
           | Inr b1 \<Rightarrow> Inr (take len (drop (readIndex b) (buffer b)), b1))"

definition readAll :: "PmrBuffer \<Rightarrow> string + string \<times> PmrBuffer" where
  "readAll b = pb_read (readableBytes b) b"

definition findCRLF :: "PmrBuffer \<Rightarrow> nat option" where
  "findCRLF b = find_sub CRLF (readable b)"

definition findEOL :: "PmrBuffer \<Rightarrow> nat option" where
  "findEOL b = find_char (CHR 0x0A) (readable b)"

section \<open>Writing\<close>

definition writableBytes :: "PmrBuffer \<Rightarrow> nat" where
  "writableBytes b = length (buffer b) - writeIndex b"

definition prependableBytes :: "PmrBuffer \<Rightarrow> nat" where
  "prependableBytes b = readIndex b"

definition hasWritten :: "nat \<Rightarrow> PmrBuffer \<Rightarrow> string + PmrBuffer" where
  "hasWritten len b =
     (if len > writableBytes b then Inl ''PmrBuffer::hasWritten: len exceeds writable bytes''
      else Inr (b\<lparr>writeIndex := writeIndex b + len\<rparr>))"

definition makeSpace :: "nat \<Rightarrow> PmrBuffer \<Rightarrow> PmrBuffer" where
  "makeSpace len b =
     (if writableBytes b + prependableBytes b < len + hPrependSize
      then let newLen = (if length (buffer b) * 2 > writeIndex b + len then length (buffer b) * 2 else writeIndex b + len)
           in b\<lparr>buffer := resize newLen (buffer b)\<rparr>
      else b\<lparr>buffer := copy_into (buffer b) hPrependSize (readable b),
             readIndex := hPrependSize, writeIndex := hPrependSize + readableBytes b\<rparr>)"

definition ensureWritableBytes :: "nat \<Rightarrow> PmrBuffer \<Rightarrow> PmrBuffer" where
  "ensureWritableBytes len b = (if writableBytes b < len then makeSpace len b else b)"

text \<open>Bytes put at \<open>beginWrite()\<close> by the caller or by \<open>append\<close>.\<close>

definition put_bytes :: "string \<Rightarrow> PmrBuffer \<Rightarrow> PmrBuffer" where
  "put_bytes s b = b\<lparr>buffer := copy_into (buffer b) (writeIndex b) s\<rparr>"

definition pb_append :: "string \<Rightarrow> PmrBuffer \<Rightarrow> string + PmrBuffer" where
  "pb_append s b = hasWritten (length s) (put_bytes s (ensureWritableBytes (length s) b))"

text \<open>Appending another buffer; a buffer appended to itself would be read behind the reallocation and is not modelled.\<close>

definition append_buffer :: "PmrBuffer \<Rightarrow> PmrBuffer \<Rightarrow> string + PmrBuffer" where
  "append_buffer other b = pb_append (readable other) b"

definition pb_swap :: "PmrBuffer \<Rightarrow> PmrBuffer \<Rightarrow> string + PmrBuffer \<times> PmrBuffer" where
  "pb_swap a b =
     (if allocator a \<noteq> allocator b then Inl ''PmrBuffer::swap: cannot swap buffers with different allocators''
      else Inr (a\<lparr>buffer := buffer b, readIndex := readIndex b, writeIndex := writeIndex b\<rparr>,
                b\<lparr>buffer := buffer a, readIndex := readIndex a, writeIndex := writeIndex a\<rparr>))"

section \<open>The buffer is a byte queue\<close>

definition pb_ok :: "PmrBuffer \<Rightarrow> bool" where
  "pb_ok b \<longleftrightarrow> hPrependSize \<le> readIndex b \<and> readIndex b \<le> writeIndex b \<and> writeIndex b \<le> length (buffer b)"

lemma new_buffer_ok: "pb_ok (new_buffer al n)" "readable (new_buffer al n) = []"
  by (simp_all add: pb_ok_def new_buffer_def readable_def readableBytes_def)

lemma readable_length: "pb_ok b \<Longrightarrow> length (readable b) = readableBytes b"
  by (auto simp: readable_def readableBytes_def pb_ok_def)

lemma resize_length [simp]: "length (resize n xs) = n"
  by (auto simp: resize_def)

lemma resize_longer: "length xs \<le> n \<Longrightarrow> resize n xs = xs @ replicate (n - length xs) (CHR 0x00)"
  by (simp add: resize_def)

lemma retrieveAll_ok: "pb_ok b \<Longrightarrow> pb_ok (retrieveAll b) \<and> readable (retrieveAll b) = []"
  by (auto simp: pb_ok_def retrieveAll_def readable_def readableBytes_def Let_def)

lemma retrieve_queue:
  assumes "pb_ok b"
  shows "len \<le> length (readable b) \<Longrightarrow> \<exists>b'. retrieve len b = Inr b' \<and> pb_ok b' \<and> readable b' = drop len (readable b)"
    and "len > length (readable b) \<Longrightarrow> \<exists>e. retrieve len b = Inl e"
  using assms retrieveAll_ok [OF assms]
  by (auto simp: retrieve_def readable_length) (auto simp: pb_ok_def readable_def readableBytes_def drop_take add.commute)

lemma makeSpace_ok:
  assumes "pb_ok b"
  shows "pb_ok (makeSpace len b) \<and> readable (makeSpace len b) = readable b
    \<and> (writableBytes b < len \<longrightarrow> writableBytes (makeSpace len b) \<ge> len)"
proof (cases "writableBytes b + prependableBytes b < len + hPrependSize")
  case True
  define newLen where "newLen = (if length (buffer b) * 2 > writeIndex b + len then length (buffer b) * 2 else writeIndex b + len)"
  have m: "makeSpace len b = b\<lparr>buffer := resize newLen (buffer b)\<rparr>" using True by (simp add: makeSpace_def Let_def newLen_def)
  show ?thesis
  proof (cases "writableBytes b < len")
    case True2: True
    then have "length (buffer b) \<le> newLen" "writeIndex b + len \<le> newLen"
      using assms by (auto simp: newLen_def writableBytes_def pb_ok_def)
    then show ?thesis unfolding m using assms
      by (auto simp: pb_ok_def readable_def readableBytes_def writableBytes_def resize_longer)
  next
    case False
    then have "length (buffer b) \<le> newLen" using assms by (auto simp: newLen_def writableBytes_def pb_ok_def)
    then show ?thesis unfolding m using assms False
      by (auto simp: pb_ok_def readable_def readableBytes_def writableBytes_def resize_longer)
  qed
next
  case False
  have fits: "hPrependSize + readableBytes b \<le> length (buffer b)" using assms by (auto simp: pb_ok_def readableBytes_def)
  have m: "makeSpace len b = b\<lparr>buffer := copy_into (buffer b) hPrependSize (readable b),
      readIndex := hPrependSize, writeIndex := hPrependSize + readableBytes b\<rparr>" using False by (simp add: makeSpace_def)
  have "take (readableBytes b) (drop hPrependSize (copy_into (buffer b) hPrependSize (readable b))) = readable b"
    using fits readable_length [OF assms] by (simp add: copy_into_def)
  moreover have "length (copy_into (buffer b) hPrependSize (readable b)) = length (buffer b)"
    using fits readable_length [OF assms] by simp
  ultimately show ?thesis unfolding m using fits assms False
    by (auto simp: pb_ok_def readable_def readableBytes_def writableBytes_def prependableBytes_def)
qed

lemma ensure_ok:
  assumes "pb_ok b"
  shows "pb_ok (ensureWritableBytes len b) \<and> readable (ensureWritableBytes len b) = readable b
    \<and> writableBytes (ensureWritableBytes len b) \<ge> len"
  using makeSpace_ok [OF assms, of len] assms by (auto simp: ensureWritableBytes_def)

lemma written_ok:
  assumes "pb_ok b" and "length s \<le> writableBytes b"
  shows "\<exists>b'. hasWritten (length s) (put_bytes s b) = Inr b' \<and> pb_ok b' \<and> readable b' = readable b @ s"
proof -
  have len: "length (copy_into (buffer b) (writeIndex b) s) = length (buffer b)"
    using assms by (intro length_copy_into) (auto simp: writableBytes_def pb_ok_def)
  have "take (writeIndex b + length s - readIndex b) (drop (readIndex b) (copy_into (buffer b) (writeIndex b) s)) = readable b @ s"
    using assms by (auto simp: copy_into_def readable_def readableBytes_def pb_ok_def writableBytes_def drop_take)
  then show ?thesis using assms len
    by (auto simp: hasWritten_def put_bytes_def pb_ok_def writableBytes_def readable_def readableBytes_def)
qed

lemma append_queue:
  assumes "pb_ok b"
  shows "\<exists>b'. pb_append s b = Inr b' \<and> pb_ok b' \<and> readable b' = readable b @ s"
  using written_ok [of "ensureWritableBytes (length s) b" s] ensure_ok [OF assms, of "length s"] by (simp add: pb_append_def)

lemma read_queue:
  assumes "pb_ok b"
  shows "len \<le> length (readable b) \<Longrightarrow> \<exists>b'. pb_read len b = Inr (take len (readable b), b') \<and> pb_ok b' \<and> readable b' = drop len (readable b)"
    and "len > length (readable b) \<Longrightarrow> \<exists>e. pb_read len b = Inl e"
proof -
  show "\<exists>b'. pb_read len b = Inr (take len (readable b), b') \<and> pb_ok b' \<and> readable b' = drop len (readable b)"
    if le: "len \<le> length (readable b)"
  proof -
    obtain b' where "retrieve len b = Inr b'" "pb_ok b'" "readable b' = drop len (readable b)"
      using retrieve_queue(1) [OF assms le] by blast
    moreover have "take len (drop (readIndex b) (buffer b)) = take len (readable b)"
      using le readable_length [OF assms] by (simp add: readable_def)
    ultimately show ?thesis using le readable_length [OF assms] by (simp add: pb_read_def)
  qed
  show "\<exists>e. pb_read len b = Inl e" if "len > length (readable b)"
    using that readable_length [OF assms] by (simp add: pb_read_def)
qed

text \<open>
  A run of writes and reads on a queue with the given operations: the bytes read, and the queue at the
  end; an operation that fails is skipped.
\<close>

fun queue_run ::
  "(string \<Rightarrow> 'q \<Rightarrow> string + 'q) \<Rightarrow> (nat \<Rightarrow> 'q \<Rightarrow> string + string \<times> 'q) \<Rightarrow> (string + nat) list \<Rightarrow> 'q \<Rightarrow> string \<times> 'q" where
  "queue_run put get [] q = ([], q)"
| "queue_run put get (Inl s # ops) q =
     (case put s q of Inl _ \<Rightarrow> queue_run put get ops q | Inr q1 \<Rightarrow> queue_run put get ops q1)"
| "queue_run put get (Inr n # ops) q =
     (case get n q of
        Inl _ \<Rightarrow> queue_run put get ops q
      | Inr (x, q1) \<Rightarrow> (case queue_run put get ops q1 of (ys, q2) \<Rightarrow> (x @ ys, q2)))"

text \<open>The contract of a byte queue.\<close>

locale byte_queue =
  fixes ok :: "'q \<Rightarrow> bool"
    and content :: "'q \<Rightarrow> string"
    and put :: "string \<Rightarrow> 'q \<Rightarrow> string + 'q"
    and get :: "nat \<Rightarrow> 'q \<Rightarrow> string + string \<times> 'q"
  assumes put_law: "ok q \<Longrightarrow> \<exists>q'. put s q = Inr q' \<and> ok q' \<and> content q' = content q @ s"
    and get_law: "ok q \<Longrightarrow> n \<le> length (content q) \<Longrightarrow> \<exists>q'. get n q = Inr (take n (content q), q') \<and> ok q' \<and> content q' = drop n (content q)"
    and get_fails: "ok q \<Longrightarrow> n > length (content q) \<Longrightarrow> \<exists>e. get n q = Inl e"
begin

lemma run_fifo: "ok q \<Longrightarrow> queue_run put get ops q = (out, q') \<Longrightarrow>
   ok q' \<and> content q @ concat (map (case_sum (\<lambda>s. s) (\<lambda>_. [])) ops) = out @ content q'"
proof (induction ops arbitrary: q out)
  case (Cons p ops)
  show ?case
  proof (cases p)
    case (Inl s)
    obtain q1 where q1: "put s q = Inr q1" "ok q1" "content q1 = content q @ s" using put_law [OF Cons.prems(1)] by blast
    then show ?thesis using Cons.IH [of q1 out] Cons.prems(2) Inl by simp
  next
    case (Inr n)
    show ?thesis
    proof (cases "n \<le> length (content q)")
      case True
      obtain q1 where q1: "get n q = Inr (take n (content q), q1)" "ok q1" "content q1 = drop n (content q)"
        using get_law [OF Cons.prems(1) True] by blast
      obtain ys where "queue_run put get ops q1 = (ys, q')" "out = take n (content q) @ ys"
        using Cons.prems(2) Inr q1(1) by (auto split: prod.splits)
      then show ?thesis using Cons.IH [OF q1(2)] q1(3) Inr
        by (metis (no_types, lifting) append.assoc append_Nil append_take_drop_id concat.simps(2) list.simps(9) sum.case(2))
    next
      case False
      then obtain e where "get n q = Inl e" using get_fails [OF Cons.prems(1)] by force
      then show ?thesis using Cons.IH [OF Cons.prems(1)] Cons.prems(2) Inr by simp
    qed
  qed
qed simp

end

interpretation pmr: byte_queue pb_ok readable pb_append pb_read
  by unfold_locales (use append_queue read_queue in blast)+

section \<open>Property\<close>

abbreviation pmr_run :: "(string + nat) list \<Rightarrow> PmrBuffer \<Rightarrow> string \<times> PmrBuffer" where
  "pmr_run \<equiv> queue_run pb_append pb_read"

text \<open>
  C38. The buffer is a queue of bytes. Whatever is appended and read, in any order, of any sizes, and
  whether the operations make the vector grow, shrink or move its data: the bytes read, followed by the
  readable part, are exactly the bytes appended, in order. No append fails, and a read fails exactly when
  it asks for more than is there.
\<close>

theorem pmr_buffer_fifo:
  assumes "pmr_run ops (new_buffer al n) = (out, b)"
  shows "concat (map (case_sum (\<lambda>s. s) (\<lambda>_. [])) ops) = out @ readable b
    \<and> (\<exists>b'. pb_append s b = Inr b')
    \<and> ((\<exists>e. pb_read len b = Inl e) \<longleftrightarrow> len > length (readable b))"
proof -
  have r: "pb_ok b" "concat (map (case_sum (\<lambda>s. s) (\<lambda>_. [])) ops) = out @ readable b"
    using pmr.run_fifo [OF new_buffer_ok(1), of ops al n out b] assms new_buffer_ok(2) [of al n] by simp_all
  have "(\<exists>e. pb_read len b = Inl e) \<longleftrightarrow> len > length (readable b)"
  proof (cases "len \<le> length (readable b)")
    case True
    then show ?thesis using read_queue(1) [OF r(1) True] by auto
  next
    case False
    then show ?thesis using read_queue(2) [OF r(1), of len] by simp
  qed
  then show ?thesis using r append_queue [OF r(1)] by blast
qed

theorem pmr_buffer_fifo_witness:
  "fst (pmr_run [Inl ''abcdef'', Inr 4, Inl ''ghijkl'', Inr 9, Inr 2] (new_buffer 0 4)) = ''abcdef''
   \<and> readable (snd (pmr_run [Inl ''abcdef'', Inr 4, Inl ''ghijkl'', Inr 9, Inr 2] (new_buffer 0 4))) = ''ghijkl''"
proof -
  let ?ops = "[Inl ''abcdef'', Inr 4, Inl ''ghijkl'', Inr 9, Inr 2]"
  obtain out b where r: "pmr_run ?ops (new_buffer 0 4) = (out, b)" by fastforce
  have "out = ''abcdef''"
  proof -
    have "fst (pmr_run ?ops (new_buffer 0 4)) = ''abcdef''" by code_simp
    then show ?thesis using r by simp
  qed
  then show ?thesis using pmr_buffer_fifo [OF r] r by simp
qed

end
