(* ===== verification/Rate_Limiter.thy ===== *)
theory Rate_Limiter
  imports Complex_Main Http_Request Http_Response
begin

text \<open>
  The token-bucket rate limiter of \<^verbatim>\<open>src/src/core/RateLimiter.cpp\<close>. Token counts and rates are
  \<open>double\<close>s in the source and exact rationals here, so that rounding is not part of the model. Times are nanoseconds of the steady clock. Whether a
  call runs the lazy collection depends on a counter of the calling thread and is an argument. The
  lock of the map and the one of the bucket make each call atomic.
\<close>

section \<open>The limiter\<close>

record Bucket =
  bk_tokens :: rat
  lastAccessNs :: int

record RateLimiter =
  rl_rate :: rat
  rl_burst :: rat
  maxEntries :: nat
  gcIntervalMs :: int
  buckets :: "(string \<times> Bucket) list"
  lastGc :: int

definition new_limiter :: "rat \<Rightarrow> rat \<Rightarrow> nat \<Rightarrow> int \<Rightarrow> int \<Rightarrow> RateLimiter" where
  "new_limiter rate burst maxE gcMs now =
     \<lparr>rl_rate = rate, rl_burst = burst, maxEntries = maxE, gcIntervalMs = gcMs, buckets = [], lastGc = now\<rparr>"

definition kIdleThreshold :: int where
  "kIdleThreshold = 300 * 1000000000"

text \<open>\<open>duration_cast\<close> to milliseconds, which rounds towards zero.\<close>

definition to_ms :: "int \<Rightarrow> int" where
  "to_ms d = (if d \<ge> 0 then d div 1000000 else - ((- d) div 1000000))"

definition gc :: "int \<Rightarrow> RateLimiter \<Rightarrow> RateLimiter" where
  "gc now rl =
     (if to_ms (now - lastGc rl) < gcIntervalMs rl then rl
      else rl\<lparr>lastGc := now, buckets := filter (\<lambda>(k, b). \<not> now - lastAccessNs b > kIdleThreshold) (buckets rl)\<rparr>)"

definition refill :: "RateLimiter \<Rightarrow> int \<Rightarrow> Bucket \<Rightarrow> rat" where
  "refill rl nowNs b = min (bk_tokens b + of_int (nowNs - lastAccessNs b) / 1000000000 * rl_rate rl) (rl_burst rl)"

definition set_bucket :: "string \<Rightarrow> Bucket \<Rightarrow> (string \<times> Bucket) list \<Rightarrow> (string \<times> Bucket) list" where
  "set_bucket k b bs = map (\<lambda>(k', b'). if k' = k then (k', b) else (k', b')) bs"

definition check :: "bool \<Rightarrow> string \<Rightarrow> int \<Rightarrow> RateLimiter \<Rightarrow> bool \<times> RateLimiter" where
  "check gcDue key nowNs rl0 =
     (let rl = (if gcDue then gc nowNs rl0 else rl0) in
      case map_of (buckets rl) key of
        Some b \<Rightarrow>
          let t = refill rl nowNs b in
          if t \<ge> 1
          then (True, rl\<lparr>buckets := set_bucket key \<lparr>bk_tokens = t - 1, lastAccessNs = nowNs\<rparr> (buckets rl)\<rparr>)
          else (False, rl\<lparr>buckets := set_bucket key \<lparr>bk_tokens = t, lastAccessNs = nowNs\<rparr> (buckets rl)\<rparr>)
      | None \<Rightarrow>
          if length (buckets rl) \<ge> maxEntries rl then (False, rl)
          else (True, rl\<lparr>buckets := (key, \<lparr>bk_tokens = max (rl_burst rl - 1) 0, lastAccessNs = nowNs\<rparr>) # buckets rl\<rparr>))"

definition bucketCount :: "RateLimiter \<Rightarrow> nat" where
  "bucketCount rl = length (buckets rl)"

section \<open>The middleware\<close>

text \<open>\<open>peer\<close> is the address of the connection as text, \<open>None\<close> if it is not valid.\<close>

definition default_key :: "string option \<Rightarrow> 'v HttpRequest \<Rightarrow> string" where
  "default_key peer req =
     (case peer of
        Some ip \<Rightarrow> ip
      | None \<Rightarrow>
          let forwarded = rq_header req ''X-Forwarded-For'' in
          if forwarded \<noteq> []
          then (case find_char (CHR '','') forwarded of Some pos \<Rightarrow> take pos forwarded | None \<Rightarrow> forwarded)
          else ''global'')"

text \<open>
  The numbers are those of a positive rate. For a rate of zero the source converts an infinite \<open>double\<close> to
  \<open>int\<close>, which has no defined result.
\<close>

definition too_many :: "RateLimiter \<Rightarrow> NativeResponse" where
  "too_many rl =
     (let r0 = setBodyType ''429 Too Many Requests'' ''text/plain'' (setStatus hTooManyRequests new_response);
          r1 = (if rl_rate rl > 0 then setHeader ''Retry-After'' (signed_chars \<lceil>1 / rl_rate rl\<rceil>) r0 else r0)
      in setHeader ''X-RateLimit-Reset'' (signed_chars \<lceil>rl_burst rl / rl_rate rl\<rceil>)
           (setHeader ''X-RateLimit-Remaining'' ''0''
             (setHeader ''X-RateLimit-Limit'' (signed_chars \<lfloor>rl_rate rl\<rfloor>) r1)))"

definition rate_limit_before ::
  "('v HttpRequest \<Rightarrow> string) \<Rightarrow> bool \<Rightarrow> int \<Rightarrow> 'v HttpRequest \<Rightarrow> RateLimiter \<Rightarrow> NativeResponse option \<times> RateLimiter" where
  "rate_limit_before keyExtractor gcDue now req rl =
     (case check gcDue (keyExtractor req) now rl of
        (True, rl1) \<Rightarrow> (None, rl1)
      | (False, rl1) \<Rightarrow> (Some (too_many rl1), rl1))"

section \<open>The available tokens\<close>

definition rl_ok :: "int \<Rightarrow> RateLimiter \<Rightarrow> bool" where
  "rl_ok now rl \<longleftrightarrow> 0 \<le> rl_rate rl \<and> 1 \<le> rl_burst rl \<and> distinct (map fst (buckets rl))
     \<and> (\<forall>(k, b) \<in> set (buckets rl). 0 \<le> bk_tokens b \<and> bk_tokens b \<le> rl_burst rl \<and> lastAccessNs b \<le> now)"

text \<open>What a key may still take at a point in time.\<close>

definition available :: "string \<Rightarrow> int \<Rightarrow> RateLimiter \<Rightarrow> rat" where
  "available key now rl = (case map_of (buckets rl) key of Some b \<Rightarrow> refill rl now b | None \<Rightarrow> rl_burst rl)"

text \<open>An idle bucket that is collected was full: the burst is refilled within the idle time.\<close>

definition refills_when_idle :: "RateLimiter \<Rightarrow> bool" where
  "refills_when_idle rl \<longleftrightarrow> rl_burst rl \<le> 300 * rl_rate rl"

lemma map_of_set_bucket: "map_of (set_bucket k b bs) k' = (if k' = k then map_option (\<lambda>_. b) (map_of bs k) else map_of bs k')"
  by (induction bs) (auto simp: set_bucket_def)

lemma fst_set_bucket [simp]: "map fst (set_bucket k b bs) = map fst bs" "length (set_bucket k b bs) = length bs"
  by (induction bs) (auto simp: set_bucket_def)

lemma refill_buckets [simp]: "refill (rl\<lparr>buckets := bs\<rparr>) = refill rl"
  by (simp add: fun_eq_iff refill_def)

lemma gc_cases:
  "gc now rl = rl \<or> gc now rl = rl\<lparr>lastGc := now, buckets := filter (\<lambda>(k, b). \<not> now - lastAccessNs b > kIdleThreshold) (buckets rl)\<rparr>"
  by (simp add: gc_def)

lemma gc_ok: "rl_ok now rl \<Longrightarrow> rl_ok now (gc now rl)"
  using gc_cases [of now rl] by (auto simp: rl_ok_def distinct_map_filter)

lemma gc_params [simp]: "rl_rate (gc now rl) = rl_rate rl" "rl_burst (gc now rl) = rl_burst rl" "maxEntries (gc now rl) = maxEntries rl"
  by (simp_all add: gc_def)

lemma map_of_filter: "distinct (map fst bs) \<Longrightarrow>
   map_of (filter (\<lambda>(k, b). P b) bs) key = (case map_of bs key of Some b \<Rightarrow> if P b then Some b else None | None \<Rightarrow> None)"
  by (induction bs) (auto split: option.splits simp: map_of_eq_None_iff [symmetric] dest: map_of_SomeD split: if_splits)

lemma gc_available:
  assumes "rl_ok now rl" and "refills_when_idle rl"
  shows "available key now (gc now rl) = available key now rl"
proof (cases "gc now rl = rl")
  case False
  then have g: "gc now rl = rl\<lparr>lastGc := now, buckets := filter (\<lambda>(k, b). \<not> now - lastAccessNs b > kIdleThreshold) (buckets rl)\<rparr>"
    using gc_cases by blast
  have d: "distinct (map fst (buckets rl))" using assms(1) by (simp add: rl_ok_def)
  show ?thesis
  proof (cases "map_of (buckets rl) key")
    case None
    then show ?thesis by (simp add: available_def g map_of_filter [OF d])
  next
    case (Some b)
    have b: "0 \<le> bk_tokens b" "0 \<le> rl_rate rl" using assms(1) map_of_SomeD [OF Some] by (auto simp: rl_ok_def)
    show ?thesis
    proof (cases "now - lastAccessNs b > kIdleThreshold")
      case True
      then have "(300 :: rat) \<le> of_int (now - lastAccessNs b) / 1000000000"
        unfolding kIdleThreshold_def by (simp add: field_simps)
      then have "300 * rl_rate rl \<le> of_int (now - lastAccessNs b) / 1000000000 * rl_rate rl" using b(2) by (rule mult_right_mono)
      then have "refill rl now b = rl_burst rl" using assms(2) b(1) by (simp add: refill_def refills_when_idle_def)
      then show ?thesis using Some True by (simp add: available_def g map_of_filter [OF d])
    next
      case False
      then show ?thesis using Some by (simp add: available_def g map_of_filter [OF d] refill_def)
    qed
  qed
qed simp

lemma refill_bounds: "0 \<le> bk_tokens b \<Longrightarrow> lastAccessNs b \<le> now \<Longrightarrow> 0 \<le> rl_rate rl \<Longrightarrow> 0 \<le> rl_burst rl \<Longrightarrow>
   0 \<le> refill rl now b \<and> refill rl now b \<le> rl_burst rl"
  by (simp add: refill_def)

lemma available_le: "rl_ok now rl \<Longrightarrow> available key now rl \<le> rl_burst rl"
  by (auto simp: available_def refill_def split: option.split)

lemma available_later:
  assumes "rl_ok now rl" and "now \<le> later"
  shows "available key later rl \<le> available key now rl + rl_rate rl * of_int (later - now) / 1000000000"
proof -
  have r: "0 \<le> rl_rate rl * of_int (later - now) / 1000000000" using assms by (simp add: rl_ok_def)
  show ?thesis
  proof (cases "map_of (buckets rl) key")
    case None
    then show ?thesis using r by (simp add: available_def)
  next
    case (Some b)
    let ?e = "rl_rate rl * of_int (later - now) / (1000000000 :: rat)"
    have s: "of_int (later - lastAccessNs b) / 1000000000 * rl_rate rl = of_int (now - lastAccessNs b) / 1000000000 * rl_rate rl + ?e"
      by (simp add: field_simps)
    have "min (t + (a + ?e)) m \<le> min (t + a) m + ?e" for t a m using r by (simp add: min_def)
    then show ?thesis unfolding available_def refill_def Some option.case s .
  qed
qed

lemma refill_now: "bk_tokens b \<le> rl_burst rl \<Longrightarrow> lastAccessNs b = now \<Longrightarrow> refill rl now b = bk_tokens b"
  by (simp add: refill_def)

lemma check_step:
  assumes ok: "rl_ok now rl" and idle: "refills_when_idle rl" and run: "check due key now rl = (granted, rl')"
  shows "rl_ok now rl'" and "refills_when_idle rl'" and "rl_rate rl' = rl_rate rl" and "rl_burst rl' = rl_burst rl"
    and "available k now rl' = available k now rl - (if granted \<and> k = key then 1 else 0)"
    and "bucketCount rl' \<le> max (bucketCount rl) (maxEntries rl)"
proof -
  define rl1 where "rl1 = (if due then gc now rl else rl)"
  have ok1: "rl_ok now rl1" using ok gc_ok by (simp add: rl1_def)
  have p: "rl_rate rl1 = rl_rate rl" "rl_burst rl1 = rl_burst rl" "maxEntries rl1 = maxEntries rl" by (simp_all add: rl1_def)
  have av: "available k now rl1 = available k now rl" for k using gc_available [OF ok idle] by (simp add: rl1_def)
  have size: "length (buckets rl1) \<le> length (buckets rl)" by (simp add: rl1_def gc_def)
  have d: "distinct (map fst (buckets rl1))" and burst: "1 \<le> rl_burst rl1" using ok1 by (simp_all add: rl_ok_def)
  note step = run [unfolded check_def Let_def, folded rl1_def]
  have "rl_ok now rl' \<and> rl_rate rl' = rl_rate rl1 \<and> rl_burst rl' = rl_burst rl1
      \<and> (\<forall>k. available k now rl' = available k now rl1 - (if granted \<and> k = key then 1 else 0))
      \<and> length (buckets rl') \<le> max (length (buckets rl1)) (maxEntries rl1)"
  proof (cases "map_of (buckets rl1) key")
    case None
    show ?thesis
    proof (cases "length (buckets rl1) \<ge> maxEntries rl1")
      case True
      then show ?thesis using step None ok1 by auto
    next
      case False
      then have r: "granted" "rl' = rl1\<lparr>buckets := (key, \<lparr>bk_tokens = rl_burst rl1 - 1, lastAccessNs = now\<rparr>) # buckets rl1\<rparr>"
        using step None burst by auto
      have "key \<notin> fst ` set (buckets rl1)" using None by (simp add: map_of_eq_None_iff)
      then show ?thesis using r ok1 None False burst
        by (auto simp: rl_ok_def available_def refill_now split: option.split)
    qed
  next
    case (Some b)
    define t where "t = refill rl1 now b"
    have b: "0 \<le> bk_tokens b" "lastAccessNs b \<le> now" "0 \<le> rl_rate rl1" using ok1 map_of_SomeD [OF Some] by (auto simp: rl_ok_def)
    have t: "0 \<le> t" "t \<le> rl_burst rl1" using refill_bounds [OF b] burst by (simp_all add: t_def)
    define b' where "b' = \<lparr>bk_tokens = (if t \<ge> 1 then t - 1 else t), lastAccessNs = now\<rparr>"
    have r: "granted = (t \<ge> 1)" "rl' = rl1\<lparr>buckets := set_bucket key b' (buckets rl1)\<rparr>"
      using step Some by (auto simp: t_def b'_def split: if_splits)
    have "(k, x) \<in> set (set_bucket key b' (buckets rl1)) \<Longrightarrow> x = b' \<or> (k, x) \<in> set (buckets rl1)" for k x
      by (auto simp: set_bucket_def split: if_splits)
    then have "rl_ok now rl'" using r(2) ok1 t by (fastforce simp: rl_ok_def b'_def)
    moreover have "available k now rl' = available k now rl1 - (if granted \<and> k = key then 1 else 0)" for k
      using r Some t by (auto simp: available_def map_of_set_bucket b'_def t_def [symmetric] refill_now split: option.split)
    ultimately show ?thesis using r(2) by simp
  qed
  then show "rl_ok now rl'" and "refills_when_idle rl'" and "rl_rate rl' = rl_rate rl" and "rl_burst rl' = rl_burst rl"
    and "available k now rl' = available k now rl - (if granted \<and> k = key then 1 else 0)"
    and "bucketCount rl' \<le> max (bucketCount rl) (maxEntries rl)"
    using idle p av size by (auto simp: refills_when_idle_def bucketCount_def)
qed

section \<open>A sequence of requests\<close>

text \<open>Requests with their keys and times; the first component says whether the call collects.\<close>

fun run_checks :: "(bool \<times> string \<times> int) list \<Rightarrow> RateLimiter \<Rightarrow> bool list \<times> RateLimiter" where
  "run_checks [] rl = ([], rl)"
| "run_checks ((due, key, now) # es) rl =
     (case check due key now rl of (g, rl1) \<Rightarrow> (case run_checks es rl1 of (gs, rl2) \<Rightarrow> (g # gs, rl2)))"

definition grants :: "string \<Rightarrow> (bool \<times> string \<times> int) list \<Rightarrow> bool list \<Rightarrow> nat" where
  "grants key es gs = length (filter (\<lambda>(e, g). g \<and> fst (snd e) = key) (zip es gs))"

fun times_from :: "int \<Rightarrow> int \<Rightarrow> (bool \<times> string \<times> int) list \<Rightarrow> bool" where
  "times_from t0 t1 [] \<longleftrightarrow> t0 \<le> t1"
| "times_from t0 t1 ((_, _, now) # es) \<longleftrightarrow> t0 \<le> now \<and> times_from now t1 es"

lemma times_from_le: "times_from t0 t1 es \<Longrightarrow> t0 \<le> t1"
  by (induction t0 t1 es rule: times_from.induct) auto

lemma rl_ok_later: "rl_ok now rl \<Longrightarrow> now \<le> later \<Longrightarrow> rl_ok later rl"
  by (fastforce simp: rl_ok_def)

lemma grants_available:
  assumes "rl_ok t0 rl" and "refills_when_idle rl" and "times_from t0 t1 es" and "run_checks es rl = (gs, rl')"
  shows "of_nat (grants key es gs) + available key t1 rl' \<le> available key t0 rl + rl_rate rl * of_int (t1 - t0) / 1000000000
    \<and> 0 \<le> available key t1 rl' \<and> bucketCount rl' \<le> max (bucketCount rl) (maxEntries rl)"
  using assms
proof (induction es arbitrary: t0 rl gs)
  case Nil
  have "0 \<le> available key t1 rl"
    using refill_bounds rl_ok_later [OF Nil.prems(1), of t1] Nil.prems(3)
    by (auto simp: available_def rl_ok_def split: option.split dest!: map_of_SomeD)
  then show ?case using available_later [OF Nil.prems(1), of t1 key] Nil.prems by (simp add: grants_def)
next
  case (Cons e es)
  obtain due k now where e: "e = (due, k, now)" by (metis prod_cases3)
  obtain g rl1 where g: "check due k now rl = (g, rl1)" by fastforce
  obtain gs' where gs: "run_checks es rl1 = (gs', rl')" "gs = g # gs'" using Cons.prems(4) e g by (auto split: prod.splits)
  have t: "t0 \<le> now" "times_from now t1 es" using Cons.prems(3) e by simp_all
  have ok: "rl_ok now rl" using rl_ok_later [OF Cons.prems(1) t(1)] .
  note st = check_step [OF ok Cons.prems(2) g]
  have m: "maxEntries rl1 = maxEntries rl"
    using g by (auto simp: check_def Let_def split: option.splits if_splits)
  have ih: "of_nat (grants key es gs') + available key t1 rl' \<le> available key now rl1 + rl_rate rl1 * of_int (t1 - now) / 1000000000
      \<and> 0 \<le> available key t1 rl' \<and> bucketCount rl' \<le> max (bucketCount rl1) (maxEntries rl1)"
    using Cons.IH [OF st(1,2) t(2) gs(1)] .
  define x :: rat where "x = (if g \<and> key = k then 1 else 0)"
  have c: "of_nat (grants key (e # es) gs) = x + (of_nat (grants key es gs') :: rat)"
    by (auto simp: grants_def gs(2) e x_def)
  have av: "available key now rl1 = available key now rl - x" using st(5) [of key] by (simp add: x_def)
  define e1 e2 where "e1 = rl_rate rl * of_int (now - t0) / (1000000000 :: rat)" and "e2 = rl_rate rl * of_int (t1 - now) / (1000000000 :: rat)"
  have l: "available key now rl \<le> available key t0 rl + e1"
    using available_later [OF Cons.prems(1) t(1)] by (simp only: e1_def)
  have sum: "rl_rate rl * of_int (t1 - t0) / (1000000000 :: rat) = e1 + e2" by (simp add: e1_def e2_def field_simps)
  have i: "of_nat (grants key es gs') + available key t1 rl' \<le> available key now rl1 + e2" using ih st(3) by (simp only: e2_def)
  have "of_nat (grants key (e # es) gs) + available key t1 rl' \<le> available key t0 rl + (e1 + e2)"
    unfolding c using i l av by linarith
  then show ?case unfolding sum using ih st(6) m by auto
qed

section \<open>Property\<close>

text \<open>
  Nobody gets more than the configured rate. For a burst of at least one that is refilled within the
  five minutes after which idle buckets are dropped, in every stretch of time the requests of one key that
  pass are at most the burst plus the rate times its length, whatever other keys do and whenever the
  collection runs; and the number of buckets never exceeds the limit.
\<close>

theorem rate_limit_holds:
  assumes "rl_ok t0 rl" and "refills_when_idle rl" and "times_from t0 t1 es" and "run_checks es rl = (gs, rl')"
  shows "of_nat (grants key es gs) \<le> rl_burst rl + rl_rate rl * of_int (t1 - t0) / 1000000000
    \<and> bucketCount rl' \<le> max (bucketCount rl) (maxEntries rl)"
  using grants_available [OF assms, of key] available_le [OF assms(1), of key] by linarith

theorem rate_limit_holds_witness:
  "of_nat (grants ''k'' (replicate 5 (False, ''k'', 0)) (fst (run_checks (replicate 5 (False, ''k'', 0)) (new_limiter 1 2 10 60000 0))))
     \<le> (2 :: rat)"
proof -
  let ?rl = "new_limiter 1 2 10 60000 0" and ?es = "replicate 5 (False, ''k'', 0) :: (bool \<times> string \<times> int) list"
  obtain gs rl' where r: "run_checks ?es ?rl = (gs, rl')" by fastforce
  have "rl_ok 0 ?rl" "refills_when_idle ?rl" "times_from 0 0 ?es"
    by (simp_all add: rl_ok_def refills_when_idle_def new_limiter_def eval_nat_numeral)
  from rate_limit_holds [OF this r, of "''k''"] show ?thesis unfolding r by (simp add: new_limiter_def)
qed

end
