(* ===== verification/Multipart.thy ===== *)
theory Multipart
  imports Text_Parse
begin

text \<open>
  The parser for \<open>multipart/form-data\<close> of \<^verbatim>\<open>src/src/core/Multipart.cpp\<close>. The Boyer-Moore-Horspool
  searcher is a search for the first occurrence, \<open>find_sub\<close>. Header names and values are ASCII text in
  the C locale.
\<close>

section \<open>Text\<close>

abbreviation isspace :: "char set" where
  "isspace \<equiv> {CHR '' '', CHR 0x09, CHR 0x0A, CHR 0x0B, CHR 0x0C, CHR 0x0D}"

definition mp_trim :: "string \<Rightarrow> string" where
  "mp_trim sv = trim_set isspace sv"

definition unquote :: "string \<Rightarrow> string" where
  "unquote sv = (if length sv \<ge> 2 \<and> hd sv = CHR 0x22 \<and> last sv = CHR 0x22 then take (length sv - 2) (drop 1 sv) else sv)"

section \<open>Parts\<close>

record MultipartPart =
  mp_headers :: "(string \<times> string) list"
  mp_name :: string
  mp_filename :: string
  mp_contentType :: string
  mp_data :: string

definition new_part :: MultipartPart where
  "new_part = \<lparr>mp_headers = [], mp_name = [], mp_filename = [], mp_contentType = [], mp_data = []\<rparr>"

definition isFile :: "MultipartPart \<Rightarrow> bool" where
  "isFile p \<longleftrightarrow> mp_filename p \<noteq> []"

definition extractBoundary :: "string \<Rightarrow> string" where
  "extractBoundary contentType =
     (case find_sub ''boundary='' contentType of
        None \<Rightarrow> []
      | Some pos \<Rightarrow>
          let rest = unquote (mp_trim (drop (pos + 9) contentType));
              rest1 = (case find_char (CHR '';'') rest of Some semi \<Rightarrow> take semi rest | None \<Rightarrow> rest);
              boundary = mp_trim rest1
          in if length boundary > 70 then [] else boundary)"

definition disposition_param :: "string \<Rightarrow> string \<times> string \<Rightarrow> string \<times> string" where
  "disposition_param param nf =
     (case find_char (CHR ''='') param of
        None \<Rightarrow> nf
      | Some eq \<Rightarrow>
          let key = mp_trim (take eq param); val = unquote (mp_trim (drop (eq + 1) param))
          in if key = ''name'' then (val, snd nf) else if key = ''filename'' then (fst nf, val) else nf)"

function disposition_params :: "string \<Rightarrow> string \<times> string \<Rightarrow> string \<times> string" where
  "disposition_params disposition nf =
     (if disposition = [] then nf
      else disposition_params (snd (cut_at (CHR '';'') disposition))
             (disposition_param (mp_trim (fst (cut_at (CHR '';'') disposition))) nf))"
  by pat_completeness auto
termination
  by (relation "measure (\<lambda>(d, _). length d)") (simp_all add: cut_at_shorter)

declare disposition_params.simps [simp del]

text \<open>The result is the new \<open>name\<close> and \<open>filename\<close>.\<close>

definition parseDispositionParams :: "string \<Rightarrow> string \<times> string \<Rightarrow> string \<times> string" where
  "parseDispositionParams disposition nf =
     (case find_char (CHR '';'') disposition of
        None \<Rightarrow> nf
      | Some semi \<Rightarrow> disposition_params (drop (semi + 1) disposition) nf)"

definition put_header :: "string \<Rightarrow> string \<Rightarrow> (string \<times> string) list \<Rightarrow> (string \<times> string) list" where
  "put_header k v hs = (k, v) # filter (\<lambda>(k', _). k' \<noteq> k) hs"

definition part_header_line :: "string \<Rightarrow> MultipartPart \<Rightarrow> MultipartPart" where
  "part_header_line line part =
     (if line = [] then part
      else case find_char (CHR '':'') line of
             None \<Rightarrow> part
           | Some colon \<Rightarrow>
               let key = lower (mp_trim (take colon line)); val = mp_trim (drop (colon + 1) line);
                   part1 = part\<lparr>mp_headers := put_header key val (mp_headers part)\<rparr>
               in if key = ''content-disposition''
                  then (case parseDispositionParams val (mp_name part1, mp_filename part1) of
                          (n, f) \<Rightarrow> part1\<lparr>mp_name := n, mp_filename := f\<rparr>)
                  else if key = ''content-type'' then part1\<lparr>mp_contentType := val\<rparr>
                  else part1)"

function parsePartHeaders :: "string \<Rightarrow> MultipartPart \<Rightarrow> MultipartPart" where
  "parsePartHeaders headerBlock part =
     (if headerBlock = [] then part
      else case find_sub CRLF headerBlock of
             None \<Rightarrow> part_header_line headerBlock part
           | Some crlf \<Rightarrow> parsePartHeaders (drop (crlf + 2) headerBlock) (part_header_line (take crlf headerBlock) part))"
  by pat_completeness auto
termination
  by (relation "measure (\<lambda>(h, _). length h)") auto

declare parsePartHeaders.simps [simp del]

section \<open>The body\<close>

definition hMaxMultipartParts :: nat where
  "hMaxMultipartParts = 256"

definition strip_crlf :: "string \<Rightarrow> string" where
  "strip_crlf s = (if length s \<ge> 2 \<and> drop (length s - 2) s = CRLF then take (length s - 2) s else s)"

text \<open>The loop over the parts; \<open>rest\<close> is the body from \<open>pos\<close> on.\<close>

function parts_loop :: "string \<Rightarrow> string \<Rightarrow> MultipartPart list \<Rightarrow> MultipartPart list option" where
  "parts_loop delimiter rest parts =
     (if rest = [] then Some parts
      else case find_sub delimiter rest of
             None \<Rightarrow> Some parts
           | Some n \<Rightarrow>
               let partData = strip_crlf (take n rest) in
               case find_sub (CRLF @ CRLF) partData of
                 None \<Rightarrow> None
               | Some headerEnd \<Rightarrow>
                   let part = (parsePartHeaders (take headerEnd partData) new_part)\<lparr>mp_data := drop (headerEnd + 4) partData\<rparr>;
                       rest1 = drop (n + length delimiter) rest
                   in if length parts \<ge> hMaxMultipartParts then None
                      else if take 2 rest1 = ''--'' then Some (parts @ [part])
                      else if take 2 rest1 = CRLF then parts_loop delimiter (drop 2 rest1) (parts @ [part])
                      else Some (parts @ [part]))"
  by pat_completeness auto
termination
  by (relation "measure (\<lambda>(_, r, _). length r)") auto

declare parts_loop.simps [simp del]

definition parse_multipart :: "string \<Rightarrow> string \<Rightarrow> MultipartPart list option" where
  "parse_multipart ct body =
     (if find_sub ''multipart/form-data'' (lower ct) = None then None
      else let boundary = extractBoundary ct in
           if boundary = [] then None
           else let delimiter = ''--'' @ boundary in
                case find_sub delimiter body of
                  None \<Rightarrow> None
                | Some i \<Rightarrow>
                    let rest = drop (i + length delimiter) body in
                    if take 2 rest = CRLF then parts_loop delimiter (drop 2 rest) []
                    else if take 2 rest = ''--'' then Some []
                    else None)"

section \<open>Access\<close>

definition cachedParse :: "string \<Rightarrow> string \<Rightarrow> MultipartPart list option \<Rightarrow> MultipartPart list option \<times> MultipartPart list" where
  "cachedParse ct body cache =
     (let parts = (case cache of Some ps \<Rightarrow> ps | None \<Rightarrow> (case parse_multipart ct body of Some ps \<Rightarrow> ps | None \<Rightarrow> []))
      in (if parts = [] then None else Some parts, parts))"

definition getFile :: "MultipartPart list \<Rightarrow> string \<Rightarrow> MultipartPart option" where
  "getFile parts fieldName = List.find (\<lambda>p. mp_name p = fieldName \<and> isFile p) parts"

definition getField :: "MultipartPart list \<Rightarrow> string \<Rightarrow> string option" where
  "getField parts fieldName = map_option mp_data (List.find (\<lambda>p. mp_name p = fieldName \<and> \<not> isFile p) parts)"

section \<open>What a client sends\<close>

text \<open>A part on the wire: the header block and the data.\<close>

type_synonym sent_part = "string \<times> string"

definition part_text :: "sent_part \<Rightarrow> string" where
  "part_text p = fst p @ CRLF @ CRLF @ snd p @ CRLF"

fun encode_parts :: "string \<Rightarrow> sent_part list \<Rightarrow> string" where
  "encode_parts d [] = ''--''"
| "encode_parts d (p # ps) = CRLF @ part_text p @ d @ encode_parts d ps"

definition encode_multipart :: "string \<Rightarrow> sent_part list \<Rightarrow> string" where
  "encode_multipart boundary ps = ''--'' @ boundary @ encode_parts (''--'' @ boundary) ps"

text \<open>The delimiter does not start inside the part, and the header block ends where it should.\<close>

definition encodable :: "string \<Rightarrow> sent_part \<Rightarrow> bool" where
  "encodable d p \<longleftrightarrow>
     (\<forall>i<length (part_text p). take (length d) (drop i (part_text p @ d)) \<noteq> d)
   \<and> (\<forall>i<length (fst p). take 4 (drop i (fst p @ CRLF @ CRLF)) \<noteq> CRLF @ CRLF)"

definition received :: "sent_part \<Rightarrow> MultipartPart" where
  "received p = (parsePartHeaders (fst p) new_part)\<lparr>mp_data := snd p\<rparr>"

lemma window_in_prefix:
  assumes "i < length l" and "take (length d) (drop i (l @ d)) \<noteq> d"
  shows "take (length d) (drop i (l @ d @ r)) \<noteq> d"
proof -
  have "take (length d) (xs @ r) = take (length d) xs" if "length d \<le> length xs" for xs using that by simp
  moreover have "length d \<le> length (drop i (l @ d))" using assms(1) by simp
  moreover have "drop i ((l @ d) @ r) = drop i (l @ d) @ r" using assms(1) by (simp only: drop_append) simp
  ultimately show ?thesis using assms(2) by (metis append_assoc)
qed

lemma find_delimiter: "encodable d p \<Longrightarrow> find_sub d (part_text p @ d @ r) = Some (length (part_text p))"
  using window_in_prefix by (intro find_sub_first) (auto simp: encodable_def)

lemma find_blank_line: "encodable d p \<Longrightarrow> find_sub (CRLF @ CRLF) (fst p @ CRLF @ CRLF @ snd p) = Some (length (fst p))"
proof -
  assume e: "encodable d p"
  have four: "length (CRLF @ CRLF) = 4" by simp
  have "find_sub (CRLF @ CRLF) (fst p @ (CRLF @ CRLF) @ snd p) = Some (length (fst p))"
  proof (rule find_sub_first, intro allI impI)
    fix i assume i: "i < length (fst p)"
    then have "take (length (CRLF @ CRLF)) (drop i (fst p @ (CRLF @ CRLF))) \<noteq> CRLF @ CRLF"
      using e unfolding encodable_def four by simp
    from window_in_prefix [OF i this] show "take (length (CRLF @ CRLF)) (drop i (fst p @ (CRLF @ CRLF) @ snd p)) \<noteq> CRLF @ CRLF" .
  qed
  then show ?thesis by simp
qed

lemma strip_crlf_append [simp]: "strip_crlf (s @ CRLF) = s"
  by (simp add: strip_crlf_def)

lemma parts_loop_step:
  assumes e: "encodable d p" and "length parts < hMaxMultipartParts"
  shows "parts_loop d (part_text p @ d @ r) parts =
     (if take 2 r = ''--'' then Some (parts @ [received p])
      else if take 2 r = CRLF then parts_loop d (drop 2 r) (parts @ [received p])
      else Some (parts @ [received p]))"
proof -
  have ne: "part_text p @ d @ r \<noteq> []" by (simp add: part_text_def)
  have s: "strip_crlf (take (length (part_text p)) (part_text p @ d @ r)) = fst p @ CRLF @ CRLF @ snd p"
  proof -
    have "take (length (part_text p)) (part_text p @ d @ r) = part_text p" by simp
    moreover have "part_text p = (fst p @ CRLF @ CRLF @ snd p) @ CRLF" by (simp add: part_text_def)
    ultimately show ?thesis by (metis strip_crlf_append)
  qed
  have four: "drop (length (fst p) + 4) (fst p @ CRLF @ CRLF @ snd p) = snd p" by simp
  have dr: "drop (length (part_text p) + length d) (part_text p @ d @ r) = r" by simp
  show ?thesis
    unfolding parts_loop.simps [of d "part_text p @ d @ r"] if_not_P [OF ne] find_delimiter [OF e] option.case Let_def s
      find_blank_line [OF e] dr four
    using assms(2) by (simp add: received_def)
qed

lemma parts_loop_all:
  assumes "list_all (encodable d) (p # ps)" and "length parts + length (p # ps) \<le> hMaxMultipartParts"
  shows "parts_loop d (part_text p @ d @ encode_parts d ps) parts = Some (parts @ map received (p # ps))"
  using assms
proof (induction ps arbitrary: p parts)
  case Nil
  then show ?case by (simp add: parts_loop_step)
next
  case (Cons p' ps)
  have "parts_loop d (part_text p @ d @ encode_parts d (p' # ps)) parts
      = parts_loop d (part_text p' @ d @ encode_parts d ps) (parts @ [received p])"
    using Cons.prems by (subst parts_loop_step) simp_all
  then show ?case using Cons.IH [of p' "parts @ [received p]"] Cons.prems by simp
qed

section \<open>The boundary and the field name\<close>

definition boundary_ok :: "string \<Rightarrow> bool" where
  "boundary_ok b \<longleftrightarrow> b \<noteq> [] \<and> length b \<le> 70 \<and> (\<forall>c \<in> set b. c \<notin> isspace \<and> c \<noteq> CHR '';'' \<and> c \<noteq> CHR 0x22)"

definition form_content_type :: "string \<Rightarrow> string" where
  "form_content_type b = ''multipart/form-data; boundary='' @ b"

lemma trim_set_id: "s = [] \<or> hd s \<notin> cs \<and> last s \<notin> cs \<Longrightarrow> trim_set cs s = s"
proof -
  assume a: "s = [] \<or> hd s \<notin> cs \<and> last s \<notin> cs"
  show ?thesis
  proof (cases "s = []")
    case False
    have dw: "dropWhile P xs = xs" if "xs \<noteq> []" "\<not> P (hd xs)" for P and xs :: string using that by (cases xs) auto
    have "hd (rev s) = last s" using False by (simp add: hd_rev)
    then show ?thesis using a False dw [of s "\<lambda>c. c \<in> cs"] dw [of "rev s" "\<lambda>c. c \<in> cs"] by (simp add: trim_set_def)
  qed (simp add: trim_set_def)
qed

lemma trim_front_blank: "c \<in> cs \<Longrightarrow> trim_set cs (c # s) = trim_set cs s"
  by (simp add: trim_set_def)

lemma find_sub_zero: "needle \<noteq> [] \<Longrightarrow> find_sub needle (needle @ r) = Some 0"
  by (cases "needle @ r") (auto simp: append_eq_Cons_conv)

lemma windows_upt:
  "list_all (\<lambda>i. take (length w) (drop i l) \<noteq> w) [0..<k] \<Longrightarrow> \<forall>i<k. take (length w) (drop i l) \<noteq> w"
  by (simp add: list_all_iff)

lemma lower_form_type: "lower (''multipart/form-data'' @ s) = ''multipart/form-data'' @ lower s"
proof -
  have "lower ''multipart/form-data'' = ''multipart/form-data''" by (simp add: lower_def toLower_eq ord_def)
  then show ?thesis unfolding lower_def map_append by (rule arg_cong)
qed

lemma char_of_cd: "char_of (99 :: nat) = CHR ''c''" "char_of (100 :: nat) = CHR ''d''" "char_of (116 :: nat) = CHR ''t''"
  by code_simp+

lemma lower_names: "lower ''Content-Disposition'' = ''content-disposition''" "lower ''Content-Type'' = ''content-type''"
  by (simp_all add: lower_def toLower_eq ord_def char_of_cd)

lemma extract_boundary: "boundary_ok b \<Longrightarrow> extractBoundary (form_content_type b) = b"
proof -
  assume b: "boundary_ok b"
  let ?l = "''multipart/form-data; ''" and ?n = "''boundary=''"
  have w: "\<forall>i<length ?l. take (length ?n) (drop i (?l @ ?n)) \<noteq> ?n" by (rule windows_upt) code_simp
  have "\<forall>i<length ?l. take (length ?n) (drop i (?l @ ?n @ b)) \<noteq> ?n"
  proof (intro allI impI)
    fix i assume i: "i < length ?l"
    from window_in_prefix [OF i w [rule_format, OF i]] show "take (length ?n) (drop i (?l @ ?n @ b)) \<noteq> ?n" .
  qed
  from find_sub_first [OF this] have f: "find_sub ?n (form_content_type b) = Some 21" by (simp add: form_content_type_def)
  have d: "drop (21 + 9) (form_content_type b) = b" by (simp add: form_content_type_def)
  have ends: "hd b \<in> set b" "last b \<in> set b" "b \<noteq> []" using b by (auto simp: boundary_ok_def)
  then have t: "mp_trim b = b" using b unfolding mp_trim_def boundary_ok_def by (intro trim_set_id) blast
  have u: "unquote b = b" using ends b by (auto simp: unquote_def boundary_ok_def)
  have n: "find_char (CHR '';'') b = None" using b by (auto simp: boundary_ok_def)
  have "\<not> length b > 70" using b by (simp add: boundary_ok_def)
  then show ?thesis unfolding extractBoundary_def f option.case d Let_def t u n by simp
qed

section \<open>Fields and files\<close>

text \<open>
  What a form holds, the part a client sends for it, and the part the application has to see; the latter
  is written out, without the functions of the parser.
\<close>

datatype form_item = Field string string | File string string string string

abbreviation quoted :: "string \<Rightarrow> string" where
  "quoted s \<equiv> [CHR 0x22] @ s @ [CHR 0x22]"

definition field_disposition :: "string \<Rightarrow> string" where
  "field_disposition n = ''form-data; name='' @ quoted n"

definition file_disposition :: "string \<Rightarrow> string \<Rightarrow> string" where
  "file_disposition n f = ''form-data; name='' @ quoted n @ ''; filename='' @ quoted f"

fun sent_item :: "form_item \<Rightarrow> sent_part" where
  "sent_item (Field n d) = (''Content-Disposition: '' @ field_disposition n, d)"
| "sent_item (File n f t d) =
     (''Content-Disposition: '' @ file_disposition n f @ CRLF @ ''Content-Type: '' @ t, d)"

fun expected_part :: "form_item \<Rightarrow> MultipartPart" where
  "expected_part (Field n d) = \<lparr>mp_headers = [(''content-disposition'', field_disposition n)],
     mp_name = n, mp_filename = [], mp_contentType = [], mp_data = d\<rparr>"
| "expected_part (File n f t d) = \<lparr>mp_headers = [(''content-type'', t), (''content-disposition'', file_disposition n f)],
     mp_name = n, mp_filename = f, mp_contentType = t, mp_data = d\<rparr>"

text \<open>Names without carriage return and semicolon, a content type without carriage return and blanks at its ends.\<close>

definition plain_name :: "string \<Rightarrow> bool" where
  "plain_name n \<longleftrightarrow> CR \<notin> set n \<and> CHR '';'' \<notin> set n"

fun plain_item :: "form_item \<Rightarrow> bool" where
  "plain_item (Field n d) \<longleftrightarrow> plain_name n"
| "plain_item (File n f t d) \<longleftrightarrow> plain_name n \<and> plain_name f \<and> CR \<notin> set t \<and> t \<noteq> [] \<and> hd t \<notin> isspace \<and> last t \<notin> isspace"

lemma find_sub_none_char: "c \<in> set needle \<Longrightarrow> c \<notin> set s \<Longrightarrow> find_sub needle s = None"
proof (cases "find_sub needle s")
  case (Some k)
  assume "c \<in> set needle" "c \<notin> set s"
  moreover have "set needle \<subseteq> set s" using find_sub_Some [OF Some] by (metis Un_subset_iff set_append subset_refl)
  ultimately show ?thesis by blast
qed

lemma unquote_quoted: "unquote ([CHR 0x22] @ n @ [CHR 0x22]) = n"
  by (simp add: unquote_def)

text \<open>One quoted parameter, and the two headers.\<close>

lemma quoted_param:
  "disposition_param (mp_trim ('' name='' @ quoted v)) nf = (v, snd nf)"
  "disposition_param (mp_trim ('' filename='' @ quoted v)) nf = (fst nf, v)"
proof -
  have t: "mp_trim ('' name='' @ quoted v) = ''name='' @ quoted v" "mp_trim ('' filename='' @ quoted v) = ''filename='' @ quoted v"
    "mp_trim (quoted v) = quoted v"
    unfolding mp_trim_def by (simp_all add: trim_front_blank trim_set_id)
  have e: "find_char (CHR ''='') (''name='' @ quoted v) = Some 4" "find_char (CHR ''='') (''filename='' @ quoted v) = Some 8" by simp_all
  have k: "mp_trim (take 4 (''name='' @ quoted v)) = ''name''" "drop (4 + 1) (''name='' @ quoted v) = quoted v"
    "mp_trim (take 8 (''filename='' @ quoted v)) = ''filename''" "drop (8 + 1) (''filename='' @ quoted v) = quoted v"
    by (simp_all add: mp_trim_def trim_set_def)
  show "disposition_param (mp_trim ('' name='' @ quoted v)) nf = (v, snd nf)"
    unfolding t disposition_param_def e option.case k Let_def unquote_quoted by simp
  show "disposition_param (mp_trim ('' filename='' @ quoted v)) nf = (fst nf, v)"
    unfolding t disposition_param_def e option.case k Let_def unquote_quoted by simp
qed

lemma disposition_params_one:
  assumes "CHR '';'' \<notin> set p" and "p \<noteq> []"
  shows "disposition_params p nf = disposition_param (mp_trim p) nf"
    and "disposition_params (p @ CHR '';'' # r) nf = disposition_params r (disposition_param (mp_trim p) nf)"
proof -
  have nil: "disposition_params [] nf' = nf'" for nf' by (subst disposition_params.simps) simp
  show "disposition_params p nf = disposition_param (mp_trim p) nf"
    unfolding disposition_params.simps [of p] if_not_P [OF assms(2)] cut_at_absent [OF assms(1)] fst_conv snd_conv nil ..
  have c: "cut_at (CHR '';'') (p @ CHR '';'' # r) = (p, r)" using assms(1) by (simp add: cut_at_def)
  have ne: "p @ CHR '';'' # r \<noteq> []" by simp
  show "disposition_params (p @ CHR '';'' # r) nf = disposition_params r (disposition_param (mp_trim p) nf)"
    unfolding disposition_params.simps [of "p @ CHR '';'' # r"] if_not_P [OF ne] c fst_conv snd_conv ..
qed

lemma parse_dispositions:
  assumes "plain_name n"
  shows "parseDispositionParams (field_disposition n) nf = (n, snd nf)"
    and "plain_name f \<Longrightarrow> parseDispositionParams (file_disposition n f) nf = (n, f)"
proof -
  have c: "find_char (CHR '';'') (field_disposition n) = Some 9" "find_char (CHR '';'') (file_disposition n f) = Some 9"
    by (simp_all add: field_disposition_def file_disposition_def)
  have d: "drop (9 + 1) (field_disposition n) = '' name='' @ quoted n"
    "drop (9 + 1) (file_disposition n f) = ('' name='' @ quoted n) @ CHR '';'' # ('' filename='' @ quoted f)"
    by (simp_all add: field_disposition_def file_disposition_def)
  have s: "CHR '';'' \<notin> set ('' name='' @ quoted n)" using assms by (simp add: plain_name_def)
  show "parseDispositionParams (field_disposition n) nf = (n, snd nf)"
    unfolding parseDispositionParams_def c option.case d
    by (subst disposition_params_one(1) [OF s]) (simp, rule quoted_param)
  assume "plain_name f"
  then have s2: "CHR '';'' \<notin> set ('' filename='' @ quoted f)" by (simp add: plain_name_def)
  show "parseDispositionParams (file_disposition n f) nf = (n, f)"
    unfolding parseDispositionParams_def c option.case d
    by (subst disposition_params_one(2) [OF s], simp, subst disposition_params_one(1) [OF s2], simp)
      (simp only: quoted_param fst_conv)
qed

lemma header_line_parts:
  assumes "v \<noteq> []" and "hd v \<notin> isspace" and "last v \<notin> isspace"
  shows "part_header_line (''Content-Disposition: '' @ v) part =
      (case parseDispositionParams v (mp_name part, mp_filename part) of (n, f) \<Rightarrow>
         part\<lparr>mp_headers := put_header ''content-disposition'' v (mp_headers part), mp_name := n, mp_filename := f\<rparr>)"
    and "part_header_line (''Content-Type: '' @ v) part =
      part\<lparr>mp_headers := put_header ''content-type'' v (mp_headers part), mp_contentType := v\<rparr>"
proof -
  let ?d = "''Content-Disposition: '' @ v" and ?t = "''Content-Type: '' @ v"
  have ne: "?d \<noteq> []" "?t \<noteq> []" by simp_all
  have c: "find_char (CHR '':'') ?d = Some 19" "find_char (CHR '':'') ?t = Some 12" by simp_all
  have k: "mp_trim (take 19 ?d) = ''Content-Disposition''" "mp_trim (take 12 ?t) = ''Content-Type''"
    by (simp_all add: mp_trim_def trim_set_id)
  have "mp_trim ('' '' @ v) = v" using assms unfolding mp_trim_def by (simp add: trim_front_blank trim_set_id)
  then have v: "mp_trim (drop (19 + 1) ?d) = v" "mp_trim (drop (12 + 1) ?t) = v" by simp_all
  show "part_header_line ?d part = (case parseDispositionParams v (mp_name part, mp_filename part) of (n, f) \<Rightarrow>
         part\<lparr>mp_headers := put_header ''content-disposition'' v (mp_headers part), mp_name := n, mp_filename := f\<rparr>)"
    unfolding part_header_line_def if_not_P [OF ne(1)] c option.case Let_def k v lower_names by simp
  show "part_header_line ?t part = part\<lparr>mp_headers := put_header ''content-type'' v (mp_headers part), mp_contentType := v\<rparr>"
    unfolding part_header_line_def if_not_P [OF ne(2)] c option.case Let_def k v lower_names by simp
qed

lemma parse_header_lines:
  assumes "CR \<notin> set l" and "l \<noteq> []"
  shows "parsePartHeaders l part = part_header_line l part"
    and "parsePartHeaders (l @ CRLF @ m) part = parsePartHeaders m (part_header_line l part)"
proof -
  have none: "find_sub CRLF l = None" using assms(1) by (intro find_sub_none_char [of CR]) simp_all
  show "parsePartHeaders l part = part_header_line l part"
    unfolding parsePartHeaders.simps [of l] if_not_P [OF assms(2)] none option.case ..
  have "\<forall>i<length l. take (length CRLF) (drop i (l @ CRLF @ m)) \<noteq> CRLF"
  proof (intro allI impI notI)
    fix i assume i: "i < length l" and "take (length CRLF) (drop i (l @ CRLF @ m)) = CRLF"
    then have "take (length CRLF) (drop i (l @ CRLF @ m)) ! 0 = CR" by (simp only:) simp
    then have "l ! i = CR" using i by (simp add: nth_append del: take_append drop_append)
    with assms(1) i show False by (metis nth_mem)
  qed
  from find_sub_first [OF this] have f: "find_sub CRLF (l @ CRLF @ m) = Some (length l)" .
  have ne: "l @ CRLF @ m \<noteq> []" by simp
  show "parsePartHeaders (l @ CRLF @ m) part = parsePartHeaders m (part_header_line l part)"
    unfolding parsePartHeaders.simps [of "l @ CRLF @ m"] if_not_P [OF ne] f option.case by simp
qed

lemma received_item: "plain_item it \<Longrightarrow> received (sent_item it) = expected_part it"
proof (cases it)
  case (Field n d)
  assume "plain_item it"
  then have n: "plain_name n" "CR \<notin> set (''Content-Disposition: '' @ field_disposition n)"
    by (simp_all add: Field plain_name_def field_disposition_def)
  have e: "field_disposition n \<noteq> []" "hd (field_disposition n) \<notin> isspace" "last (field_disposition n) \<notin> isspace"
    by (simp_all add: field_disposition_def)
  have "parsePartHeaders (''Content-Disposition: '' @ field_disposition n) new_part
      = new_part\<lparr>mp_headers := put_header ''content-disposition'' (field_disposition n) [], mp_name := n, mp_filename := []\<rparr>"
    by (subst parse_header_lines(1) [OF n(2)], simp, subst header_line_parts(1) [OF e], subst parse_dispositions(1) [OF n(1)])
      (simp add: new_part_def)
  then show ?thesis by (simp add: Field received_def new_part_def put_header_def)
next
  case (File n f t d)
  assume "plain_item it"
  then have n: "plain_name n" "plain_name f" "CR \<notin> set (''Content-Disposition: '' @ file_disposition n f)"
    "CR \<notin> set (''Content-Type: '' @ t)" and t: "t \<noteq> []" "hd t \<notin> isspace" "last t \<notin> isspace"
    by (auto simp: File plain_name_def file_disposition_def)
  have e: "file_disposition n f \<noteq> []" "hd (file_disposition n f) \<notin> isspace" "last (file_disposition n f) \<notin> isspace"
    by (simp_all add: file_disposition_def)
  have "parsePartHeaders ((''Content-Disposition: '' @ file_disposition n f) @ CRLF @ (''Content-Type: '' @ t)) new_part
      = parsePartHeaders (''Content-Type: '' @ t) (part_header_line (''Content-Disposition: '' @ file_disposition n f) new_part)"
    by (rule parse_header_lines(2) [OF n(3)]) simp
  also have "\<dots> = part_header_line (''Content-Type: '' @ t)
      (new_part\<lparr>mp_headers := put_header ''content-disposition'' (file_disposition n f) [], mp_name := n, mp_filename := f\<rparr>)"
    by (subst parse_header_lines(1) [OF n(4)], simp, subst header_line_parts(1) [OF e], subst parse_dispositions(2) [OF n(1,2)])
      (simp add: new_part_def)
  also have "\<dots> = new_part\<lparr>mp_headers := [(''content-type'', t), (''content-disposition'', file_disposition n f)],
      mp_name := n, mp_filename := f, mp_contentType := t\<rparr>"
    by (subst header_line_parts(2) [OF t]) (simp add: put_header_def)
  finally show ?thesis by (simp add: File received_def new_part_def)
qed

section \<open>Property\<close>

text \<open>
  C28. A form is received as it was sent. For a boundary of at most 70 characters without blanks, quotes and
  semicolons, and up to 256 fields and files whose names hold no carriage return or semicolon, whose
  content type has no carriage return and no blanks at its ends, and in whose text the delimiter
  (two hyphens and the boundary, also in the middle of a line) does not occur, the parser returns exactly
  these parts in order: the name, the file name, the content type, the two header lines, and the data,
  byte for byte; a field is not taken for a file.
\<close>

theorem multipart_roundtrip:
  assumes "boundary_ok b" and "list_all plain_item items" and "list_all (encodable (''--'' @ b)) (map sent_item items)"
    and "length items \<le> hMaxMultipartParts"
  shows "parse_multipart (form_content_type b) (encode_multipart b (map sent_item items)) = Some (map expected_part items)"
proof -
  let ?d = "''--'' @ b" and ?ps = "map sent_item items"
  have ct: "find_sub ''multipart/form-data'' (lower (form_content_type b)) \<noteq> None"
  proof -
    have "form_content_type b = ''multipart/form-data'' @ ''; boundary='' @ b" by (simp add: form_content_type_def)
    then show ?thesis unfolding lower_form_type by (simp only: lower_form_type find_sub_zero) simp
  qed
  have b: "extractBoundary (form_content_type b) = b" "b \<noteq> []"
    using extract_boundary [OF assms(1)] assms(1) by (simp_all add: boundary_ok_def)
  have body: "encode_multipart b ?ps = ?d @ encode_parts ?d ?ps" by (simp add: encode_multipart_def)
  have f: "find_sub ?d (encode_multipart b ?ps) = Some 0" unfolding body by (rule find_sub_zero) simp
  have r: "drop (0 + length ?d) (encode_multipart b ?ps) = encode_parts ?d ?ps" unfolding body by simp
  have p: "parse_multipart (form_content_type b) (encode_multipart b ?ps) =
      (if take 2 (encode_parts ?d ?ps) = CRLF then parts_loop ?d (drop 2 (encode_parts ?d ?ps)) []
       else if take 2 (encode_parts ?d ?ps) = ''--'' then Some [] else None)"
    unfolding parse_multipart_def if_not_P [OF ct] Let_def b(1) if_not_P [OF b(2)] f option.case r ..
  have "parse_multipart (form_content_type b) (encode_multipart b ?ps) = Some (map received ?ps)"
  proof (cases ?ps)
    case Nil
    then show ?thesis unfolding p by simp
  next
    case (Cons q qs)
    then show ?thesis unfolding p using parts_loop_all [of ?d q qs "[]"] assms(3,4) length_map [of sent_item items] by simp
  qed
  moreover have "map received ?ps = map expected_part items"
    using assms(2) received_item by (induction items) auto
  ultimately show ?thesis by simp
qed

theorem multipart_roundtrip_witness:
  "parse_multipart (form_content_type ''xyz'')
      (encode_multipart ''xyz'' [sent_item (Field ''user'' ''a--xy''), sent_item (File ''doc'' ''a.txt'' ''text/plain'' ''1'')])
     = Some [expected_part (Field ''user'' ''a--xy''), expected_part (File ''doc'' ''a.txt'' ''text/plain'' ''1'')]"
proof -
  let ?f = "Field ''user'' ''a--xy''" and ?g = "File ''doc'' ''a.txt'' ''text/plain'' ''1''"
  have e: "encodable (''--'' @ ''xyz'') p"
    if "list_all (\<lambda>i. take (length (''--'' @ ''xyz'')) (drop i (part_text p @ ''--'' @ ''xyz'')) \<noteq> ''--'' @ ''xyz'') [0..<length (part_text p)]"
      "list_all (\<lambda>i. take 4 (drop i (fst p @ CRLF @ CRLF)) \<noteq> CRLF @ CRLF) [0..<length (fst p)]" for p
    using that unfolding encodable_def list_all_iff by simp
  have "encodable (''--'' @ ''xyz'') (sent_item ?f)" by (rule e; code_simp)
  moreover have "encodable (''--'' @ ''xyz'') (sent_item ?g)" by (rule e; code_simp)
  moreover have "boundary_ok ''xyz''" by (simp add: boundary_ok_def)
  moreover have "plain_item ?f" "plain_item ?g" by (simp_all add: plain_name_def)
  ultimately show ?thesis using multipart_roundtrip [of "''xyz''" "[?f, ?g]"] by (simp add: hMaxMultipartParts_def del: append_Cons sent_item.simps expected_part.simps)
qed

end
