(* ===== verification/Lru.thy ===== *)
theory Lru
  imports Prelude
begin

text \<open>
  The container behind the caches of the program: a \<open>std::list\<close> of entries, most recently used first, and
  an \<open>unordered_map\<close> from keys to iterators into the list. Iterators are node numbers, so that two
  nodes with the same key differ and an iterator may dangle.
\<close>

section \<open>Operations of the containers\<close>

record 'e Lru =
  lru_nodes :: "(nat \<times> 'e) list"
  lru_index :: "(string \<times> nat) list"
  lru_next :: nat

definition lru_empty :: "'e Lru" where
  "lru_empty = \<lparr>lru_nodes = [], lru_index = [], lru_next = 0\<rparr>"

definition lru_find :: "string \<Rightarrow> 'e Lru \<Rightarrow> nat option" where
  "lru_find k c = map_of (lru_index c) k"

definition lru_deref :: "nat \<Rightarrow> 'e Lru \<Rightarrow> 'e option" where
  "lru_deref i c = map_of (lru_nodes c) i"

definition lru_splice :: "nat \<Rightarrow> 'e Lru \<Rightarrow> 'e Lru" where
  "lru_splice i c =
     c\<lparr>lru_nodes := filter (\<lambda>(j, _). j = i) (lru_nodes c) @ filter (\<lambda>(j, _). j \<noteq> i) (lru_nodes c)\<rparr>"

definition lru_assign :: "nat \<Rightarrow> ('e \<Rightarrow> 'e) \<Rightarrow> 'e Lru \<Rightarrow> 'e Lru" where
  "lru_assign i f c = c\<lparr>lru_nodes := map (\<lambda>(j, e). if j = i then (j, f e) else (j, e)) (lru_nodes c)\<rparr>"

definition index_erase :: "string \<Rightarrow> 'e Lru \<Rightarrow> 'e Lru" where
  "index_erase k c = c\<lparr>lru_index := filter (\<lambda>(k', _). k' \<noteq> k) (lru_index c)\<rparr>"

definition node_erase :: "nat \<Rightarrow> 'e Lru \<Rightarrow> 'e Lru" where
  "node_erase i c = c\<lparr>lru_nodes := filter (\<lambda>(j, _). j \<noteq> i) (lru_nodes c)\<rparr>"

text \<open>Erase the key of the last node from the map and drop the node.\<close>

definition lru_evict :: "('e \<Rightarrow> string) \<Rightarrow> 'e Lru \<Rightarrow> 'e Lru" where
  "lru_evict key c =
     (if lru_nodes c = [] then c
      else (index_erase (key (snd (last (lru_nodes c)))) c)\<lparr>lru_nodes := butlast (lru_nodes c)\<rparr>)"

definition lru_push_front :: "'e \<Rightarrow> 'e Lru \<Rightarrow> 'e Lru" where
  "lru_push_front e c = c\<lparr>lru_nodes := (lru_next c, e) # lru_nodes c, lru_next := Suc (lru_next c)\<rparr>"

text \<open>\<open>emplace\<close> keeps an existing entry of the map, assignment replaces it. The iterator is \<open>begin()\<close>.\<close>

definition index_emplace :: "string \<Rightarrow> 'e Lru \<Rightarrow> 'e Lru" where
  "index_emplace k c =
     (if map_of (lru_index c) k = None then c\<lparr>lru_index := (k, fst (hd (lru_nodes c))) # lru_index c\<rparr> else c)"

definition index_set :: "string \<Rightarrow> 'e Lru \<Rightarrow> 'e Lru" where
  "index_set k c =
     c\<lparr>lru_index := (k, fst (hd (lru_nodes c))) # filter (\<lambda>(k', _). k' \<noteq> k) (lru_index c)\<rparr>"

lemmas lru_ops = lru_splice_def lru_assign_def index_erase_def node_erase_def lru_evict_def lru_push_front_def
  index_emplace_def index_set_def

section \<open>No iterator dangles\<close>

definition lru_ok :: "('e \<Rightarrow> string) \<Rightarrow> 'e Lru \<Rightarrow> bool" where
  "lru_ok key c \<longleftrightarrow> distinct (map fst (lru_nodes c)) \<and> (\<forall>i\<in>fst ` set (lru_nodes c). i < lru_next c)
     \<and> distinct (map fst (lru_index c))
     \<and> (\<forall>(k, i)\<in>set (lru_index c). \<exists>e. (i, e) \<in> set (lru_nodes c) \<and> key e = k)"

lemma lru_ok_empty [simp]: "lru_ok key lru_empty"
  by (simp add: lru_ok_def lru_empty_def)

lemma filter_fst_distinct: "distinct (map fst xs) \<Longrightarrow> distinct (map fst (filter p xs))"
  by (induction xs) auto

lemma lru_ok_deref:
  assumes "lru_ok key c" and "lru_find k c = Some i"
  shows "\<exists>e. lru_deref i c = Some e \<and> key e = k"
proof -
  have "(k, i) \<in> set (lru_index c)" using assms(2) by (simp add: lru_find_def map_of_SomeD)
  then obtain e where "(i, e) \<in> set (lru_nodes c)" "key e = k" using assms(1) unfolding lru_ok_def by blast
  then show ?thesis using assms(1) by (auto simp: lru_ok_def lru_deref_def)
qed

lemma lru_ok_splice [intro]: "lru_ok key c \<Longrightarrow> lru_ok key (lru_splice i c)"
  unfolding lru_ok_def lru_splice_def by (auto simp: filter_fst_distinct)

lemma lru_ok_index_erase [intro]: "lru_ok key c \<Longrightarrow> lru_ok key (index_erase k c)"
  unfolding lru_ok_def index_erase_def by (auto simp: filter_fst_distinct)

lemma lru_ok_evict [intro]: "lru_ok key c \<Longrightarrow> lru_ok key (lru_evict key c)"
proof (cases "lru_nodes c" rule: rev_cases)
  case (snoc ns n)
  assume ok: "lru_ok key c"
  obtain i e where n: "n = (i, e)" by (cases n)
  have d: "i \<notin> fst ` set ns" using ok by (auto simp: lru_ok_def snoc n)
  have "\<exists>e'. (j, e') \<in> set ns \<and> key e' = k" if "(k, j) \<in> set (lru_index c)" "k \<noteq> key e" for k j
    using ok that d by (auto simp: lru_ok_def snoc n)
  then show ?thesis using ok by (auto simp: lru_ok_def lru_evict_def index_erase_def snoc n filter_fst_distinct)
qed (simp add: lru_evict_def)

lemma lru_ok_push [intro]: "lru_ok key c \<Longrightarrow> lru_ok key (lru_push_front e c)"
  unfolding lru_ok_def lru_push_front_def by (force simp: less_Suc_eq)

lemma lru_ok_emplace [intro]: "lru_ok key c \<Longrightarrow> lru_ok key (index_emplace (key e) (lru_push_front e c))"
  using lru_ok_push [of key c e] unfolding lru_ok_def index_emplace_def
  by (auto simp: lru_push_front_def map_of_eq_None_iff)

lemma lru_ok_index_set [intro]: "lru_ok key c \<Longrightarrow> lru_ok key (index_set (key e) (lru_push_front e c))"
  using lru_ok_push [of key c e] unfolding lru_ok_def index_set_def
  by (auto simp: lru_push_front_def filter_fst_distinct)

lemma lru_ok_assign: "lru_ok key c \<Longrightarrow> (\<And>e. key (f e) = key e) \<Longrightarrow> lru_ok key (lru_assign i f c)"
proof -
  assume ok: "lru_ok key c" and f: "\<And>e. key (f e) = key e"
  have m: "map fst (lru_nodes (lru_assign i f c)) = map fst (lru_nodes c)" by (auto simp: lru_assign_def)
  have "\<exists>e. (j, e) \<in> set (lru_nodes (lru_assign i f c)) \<and> key e = k" if "(j, e0) \<in> set (lru_nodes c)" "key e0 = k" for j e0 k
  proof (cases "j = i")
    case True
    then have "(j, f e0) \<in> set (lru_nodes (lru_assign i f c))" using that(1) by (force simp: lru_assign_def)
    then show ?thesis using f that(2) by metis
  next
    case False
    then have "(j, e0) \<in> set (lru_nodes (lru_assign i f c))" using that(1) by (force simp: lru_assign_def)
    then show ?thesis using that(2) by blast
  qed
  then have "\<forall>(k, j)\<in>set (lru_index c). \<exists>e. (j, e) \<in> set (lru_nodes (lru_assign i f c)) \<and> key e = k"
    using ok unfolding lru_ok_def by fast
  moreover have "fst ` set (lru_nodes (lru_assign i f c)) = fst ` set (lru_nodes c)" using m by (metis set_map)
  moreover have "lru_index (lru_assign i f c) = lru_index c" "lru_next (lru_assign i f c) = lru_next c"
    by (simp_all add: lru_assign_def)
  ultimately show ?thesis using ok m unfolding lru_ok_def by (simp only: simp_thms) blast
qed

text \<open>Erasing a node together with its key.\<close>

lemma lru_ok_erase:
  assumes "lru_ok key c" and "lru_find k c = Some i"
  shows "lru_ok key (node_erase i (index_erase k c))"
proof -
  obtain e where e: "(i, e) \<in> set (lru_nodes c)" "key e = k"
    using lru_ok_deref [OF assms] by (auto simp: lru_deref_def dest: map_of_SomeD)
  have "j \<noteq> i" if "(k', j) \<in> set (lru_index c)" "k' \<noteq> k" for k' j
  proof
    assume "j = i"
    then obtain e' where "(i, e') \<in> set (lru_nodes c)" "key e' = k'" using assms(1) \<open>(k', j) \<in> _\<close> unfolding lru_ok_def by blast
    then show False using e assms(1) that(2) eq_key_imp_eq_value [of "lru_nodes c" i e e'] by (auto simp: lru_ok_def)
  qed
  then show ?thesis using assms(1) unfolding lru_ok_def node_erase_def index_erase_def
    by (auto simp: filter_fst_distinct)
qed

section \<open>Sizes\<close>

lemma index_size_le_nodes: "lru_ok key c \<Longrightarrow> length (lru_index c) \<le> length (lru_nodes c)"
proof -
  assume ok: "lru_ok key c"
  have "inj_on snd (set (lru_index c))"
  proof (rule inj_onI)
    fix x y assume x: "x \<in> set (lru_index c)" and y: "y \<in> set (lru_index c)" and s: "snd x = snd y"
    have p: "\<exists>e. (snd z, e) \<in> set (lru_nodes c) \<and> key e = fst z" if "z \<in> set (lru_index c)" for z
      using ok that unfolding lru_ok_def by (cases z) auto
    obtain e where e: "(snd x, e) \<in> set (lru_nodes c)" "key e = fst x" using p [OF x] by blast
    obtain e' where e': "(snd y, e') \<in> set (lru_nodes c)" "key e' = fst y" using p [OF y] by blast
    have "e = e'" using eq_key_imp_eq_value [of "lru_nodes c" "snd x" e e'] ok e(1) e'(1) s by (simp add: lru_ok_def)
    then show "x = y" using s e(2) e'(2) by (simp add: prod_eq_iff)
  qed
  then have "card (snd ` set (lru_index c)) = card (set (lru_index c))" by (rule card_image)
  moreover have "snd ` set (lru_index c) \<subseteq> fst ` set (lru_nodes c)"
  proof
    fix i assume "i \<in> snd ` set (lru_index c)"
    then obtain k where "(k, i) \<in> set (lru_index c)" by auto
    then obtain e where "(i, e) \<in> set (lru_nodes c)" using ok unfolding lru_ok_def by blast
    then show "i \<in> fst ` set (lru_nodes c)" by (simp add: rev_image_eqI)
  qed
  then have "card (snd ` set (lru_index c)) \<le> card (fst ` set (lru_nodes c))" by (intro card_mono) auto
  moreover have "card (set (lru_index c)) = length (lru_index c)"
    using ok by (intro distinct_card) (auto simp: lru_ok_def distinct_map)
  moreover have "card (fst ` set (lru_nodes c)) = length (lru_nodes c)"
    using ok distinct_card [of "map fst (lru_nodes c)"] by (simp add: lru_ok_def)
  ultimately show ?thesis by linarith
qed

end
