(* ===== verification/Stmt_Cache.thy ===== *)
theory Stmt_Cache
  imports Lru
begin

text \<open>
  The caches of prepared statements of a database connection: \<^verbatim>\<open>src/src/db/StmtCache.cpp\<close> (MySQL, the value is a
  statement the caller has to close) and \<^verbatim>\<open>src/src/db/PgStmtCache.cpp\<close> (PostgreSQL, the value is the name of
  the statement). Both keep a list in the order of use and a map into it; they are two
  implementations of one interface, the locale \<open>recency_cache\<close>.
\<close>

section \<open>MySQL\<close>

record 'v StmtCache =
  maxSize :: nat
  lru :: "(string \<times> 'v) Lru"

definition new_stmt_cache :: "nat \<Rightarrow> 'v StmtCache" where
  "new_stmt_cache n = \<lparr>maxSize = n, lru = lru_empty\<rparr>"

definition stmt_find :: "string \<Rightarrow> 'v StmtCache \<Rightarrow> 'v option \<times> 'v StmtCache" where
  "stmt_find sql c =
     (if maxSize c = 0 then (None, c)
      else case lru_find sql (lru c) of
             None \<Rightarrow> (None, c)
           | Some i \<Rightarrow> let l = lru_splice i (lru c) in (map_option snd (lru_deref i l), c\<lparr>lru := l\<rparr>))"

definition stmt_insert :: "string \<Rightarrow> 'v \<Rightarrow> 'v StmtCache \<Rightarrow> 'v option \<times> 'v StmtCache" where
  "stmt_insert sql stmt c =
     (if maxSize c = 0 then (Some stmt, c)
      else case lru_find sql (lru c) of
             Some i \<Rightarrow> (None, c\<lparr>lru := lru_splice i (lru_assign i (\<lambda>e. (fst e, stmt)) (lru c))\<rparr>)
           | None \<Rightarrow>
               let full = length (lru_nodes (lru c)) \<ge> maxSize c;
                   evicted = (if full then Some (snd (snd (last (lru_nodes (lru c))))) else None);
                   l = (if full then lru_evict fst (lru c) else lru c)
               in (evicted, c\<lparr>lru := index_set sql (lru_push_front (sql, stmt) l)\<rparr>))"

definition stmt_erase :: "string \<Rightarrow> 'v StmtCache \<Rightarrow> 'v option \<times> 'v StmtCache" where
  "stmt_erase sql c =
     (case lru_find sql (lru c) of
        None \<Rightarrow> (None, c)
      | Some i \<Rightarrow> (map_option snd (lru_deref i (lru c)), c\<lparr>lru := index_erase sql (node_erase i (lru c))\<rparr>))"

definition stmt_clear :: "'v StmtCache \<Rightarrow> 'v list \<times> 'v StmtCache" where
  "stmt_clear c = (map (snd \<circ> snd) (lru_nodes (lru c)), c\<lparr>lru := (lru c)\<lparr>lru_nodes := [], lru_index := []\<rparr>\<rparr>)"

definition stmt_size :: "'v StmtCache \<Rightarrow> nat" where
  "stmt_size c = length (lru_nodes (lru c))"

section \<open>PostgreSQL\<close>

definition pg_find :: "string \<Rightarrow> string StmtCache \<Rightarrow> string option \<times> string StmtCache" where
  "pg_find sql c =
     (case lru_find sql (lru c) of
        None \<Rightarrow> (None, c)
      | Some i \<Rightarrow> let l = lru_splice i (lru c) in (map_option snd (lru_deref i l), c\<lparr>lru := l\<rparr>))"

definition pg_insert :: "string \<Rightarrow> string \<Rightarrow> string StmtCache \<Rightarrow> string StmtCache" where
  "pg_insert sql stmtName c =
     (case lru_find sql (lru c) of
        Some i \<Rightarrow> c\<lparr>lru := lru_splice i (lru_assign i (\<lambda>e. (fst e, stmtName)) (lru c))\<rparr>
      | None \<Rightarrow>
          if maxSize c = 0 then c
          else let l = (if length (lru_nodes (lru c)) \<ge> maxSize c then lru_evict fst (lru c) else lru c)
               in c\<lparr>lru := index_emplace sql (lru_push_front (sql, stmtName) l)\<rparr>)"

definition pg_erase :: "string \<Rightarrow> string StmtCache \<Rightarrow> string StmtCache" where
  "pg_erase sql c =
     (case lru_find sql (lru c) of
        None \<Rightarrow> c
      | Some i \<Rightarrow> c\<lparr>lru := index_erase sql (node_erase i (lru c))\<rparr>)"

definition pg_clear :: "string StmtCache \<Rightarrow> string StmtCache" where
  "pg_clear c = c\<lparr>lru := (lru c)\<lparr>lru_nodes := [], lru_index := []\<rparr>\<rparr>"

section \<open>The specification\<close>

text \<open>An association list in the order of use.\<close>

definition drop_key :: "'k \<Rightarrow> ('k \<times> 'v) list \<Rightarrow> ('k \<times> 'v) list" where
  "drop_key k al = filter (\<lambda>(k', _). k' \<noteq> k) al"

definition touch :: "'k \<Rightarrow> ('k \<times> 'v) list \<Rightarrow> ('k \<times> 'v) list" where
  "touch k al = (case map_of al k of None \<Rightarrow> al | Some v \<Rightarrow> (k, v) # drop_key k al)"

definition store :: "nat \<Rightarrow> 'k \<Rightarrow> 'v \<Rightarrow> ('k \<times> 'v) list \<Rightarrow> ('k \<times> 'v) list" where
  "store n k v al =
     (if map_of al k \<noteq> None then (k, v) # drop_key k al
      else if n = 0 then al else (k, v) # (if length al \<ge> n then butlast al else al))"

definition tight :: "'v StmtCache \<Rightarrow> bool" where
  "tight c \<longleftrightarrow> lru_ok fst (lru c) \<and> distinct (map (fst \<circ> snd) (lru_nodes (lru c)))
     \<and> length (lru_nodes (lru c)) \<le> maxSize c
     \<and> (\<forall>(i, e)\<in>set (lru_nodes (lru c)). map_of (lru_index (lru c)) (fst e) = Some i)"

definition entries :: "'v StmtCache \<Rightarrow> (string \<times> 'v) list" where
  "entries c = map snd (lru_nodes (lru c))"

lemma tight_new [simp]: "tight (new_stmt_cache n)" "entries (new_stmt_cache n) = []"
  by (simp_all add: tight_def new_stmt_cache_def lru_empty_def lru_ok_def entries_def)

lemma maxSize_new [simp]: "maxSize (new_stmt_cache n) = n"
  by (simp add: new_stmt_cache_def)

lemma find_some:
  assumes "tight c" and "lru_find k (lru c) = Some i"
  obtains v where "(i, k, v) \<in> set (lru_nodes (lru c))" "map_of (entries c) k = Some v" "lru_deref i (lru c) = Some (k, v)"
proof -
  obtain e where e: "lru_deref i (lru c) = Some e" "fst e = k"
    using lru_ok_deref [of fst "lru c" k i] assms by (auto simp: tight_def)
  then obtain v where "e = (k, v)" by (cases e) auto
  then have m: "(i, k, v) \<in> set (lru_nodes (lru c))" using e(1) by (auto simp: lru_deref_def dest: map_of_SomeD)
  then have "(k, v) \<in> set (entries c)" by (force simp: entries_def)
  moreover have "distinct (map fst (entries c))" using assms(1) by (simp add: tight_def entries_def)
  ultimately show thesis using that m e \<open>e = (k, v)\<close> by simp
qed

lemma find_none: "tight c \<Longrightarrow> lru_find k (lru c) = None \<Longrightarrow> map_of (entries c) k = None"
proof -
  assume t: "tight c" and n: "lru_find k (lru c) = None"
  have "fst e \<noteq> k" if "(i, e) \<in> set (lru_nodes (lru c))" for i e
    using t that n unfolding tight_def lru_find_def by fastforce
  then show ?thesis by (force simp: entries_def map_of_eq_None_iff)
qed

text \<open>With distinct keys and node numbers, selecting by number is selecting by key.\<close>

lemma select_key:
  assumes "tight c" and "(i, k, v) \<in> set (lru_nodes (lru c))"
  shows "map snd (filter (\<lambda>(j, _). j \<noteq> i) (lru_nodes (lru c))) = drop_key k (entries c)"
    and "filter (\<lambda>(j, _). j = i) (lru_nodes (lru c)) = [(i, k, v)]"
proof -
  have d: "distinct (map fst (lru_nodes (lru c)))" "distinct (map (fst \<circ> snd) (lru_nodes (lru c)))"
    using assms(1) by (simp_all add: tight_def lru_ok_def)
  have eq: "j = i \<longleftrightarrow> fst e = k" if "(j, e) \<in> set (lru_nodes (lru c))" for j e
  proof
    assume "j = i"
    then show "fst e = k" using eq_key_imp_eq_value [OF d(1), of i e "(k, v)"] that assms(2) by simp
  next
    assume "fst e = k"
    moreover have "inj_on (fst \<circ> snd) (set (lru_nodes (lru c)))" using d(2) by (simp add: distinct_map)
    ultimately show "j = i" using inj_onD [of "fst \<circ> snd" _ "(j, e)" "(i, k, v)"] that assms(2) by simp
  qed
  have "filter (\<lambda>(j, _). j \<noteq> i) (lru_nodes (lru c)) = filter (\<lambda>(j, e). fst e \<noteq> k) (lru_nodes (lru c))"
    using eq by (intro filter_cong) auto
  then show "map snd (filter (\<lambda>(j, _). j \<noteq> i) (lru_nodes (lru c))) = drop_key k (entries c)"
    by (simp add: drop_key_def entries_def filter_map o_def split_def)
  have "filter (\<lambda>(j, _). j = i) xs = [(i, k, v)]" if "distinct (map fst xs)" "(i, k, v) \<in> set xs" for xs
    using that by (induction xs) (auto simp: filter_empty_conv image_iff)
  then show "filter (\<lambda>(j, _). j = i) (lru_nodes (lru c)) = [(i, k, v)]" using d(1) assms(2) by blast
qed

section \<open>The operations keep the shape\<close>

lemma tight_splice:
  assumes "tight c" and "(i, k, v) \<in> set (lru_nodes (lru c))"
  shows "tight (c\<lparr>lru := lru_splice i (lru c)\<rparr>)"
    and "entries (c\<lparr>lru := lru_splice i (lru c)\<rparr>) = (k, v) # drop_key k (entries c)"
    and "lru_deref i (lru_splice i (lru c)) = Some (k, v)"
proof -
  note sel = select_key [OF assms]
  show e: "entries (c\<lparr>lru := lru_splice i (lru c)\<rparr>) = (k, v) # drop_key k (entries c)"
    by (simp add: entries_def lru_splice_def sel)
  have n: "lru_nodes (lru_splice i (lru c)) = (i, k, v) # filter (\<lambda>(j, _). j \<noteq> i) (lru_nodes (lru c))"
    by (simp add: lru_splice_def sel)
  have s: "set (lru_nodes (lru_splice i (lru c))) = set (lru_nodes (lru c))"
    using assms(2) unfolding lru_splice_def by auto
  have "distinct (map fst (entries c))" using assms(1) by (simp add: tight_def entries_def)
  then have "distinct (map fst (entries (c\<lparr>lru := lru_splice i (lru c)\<rparr>)))"
    unfolding e by (auto simp: drop_key_def filter_fst_distinct)
  then have "distinct (map (fst \<circ> snd) (lru_nodes (lru_splice i (lru c))))" by (simp add: entries_def)
  moreover have "length (lru_nodes (lru_splice i (lru c))) = length (lru_nodes (lru c))"
    unfolding lru_splice_def using sum_length_filter_compl [of "\<lambda>(j, _). j = i" "lru_nodes (lru c)"] by (simp add: split_def)
  moreover have "lru_index (lru_splice i (lru c)) = lru_index (lru c)" by (simp add: lru_splice_def)
  ultimately show "tight (c\<lparr>lru := lru_splice i (lru c)\<rparr>)"
    using assms(1) lru_ok_splice [of fst "lru c" i] unfolding tight_def by (simp add: s)
  show "lru_deref i (lru_splice i (lru c)) = Some (k, v)" by (simp add: lru_deref_def n)
qed

lemma tight_assign:
  assumes "tight c" and "(i, k, v) \<in> set (lru_nodes (lru c))"
  shows "tight (c\<lparr>lru := lru_assign i (\<lambda>e. (fst e, w)) (lru c)\<rparr>)"
    and "(i, k, w) \<in> set (lru_nodes (lru_assign i (\<lambda>e. (fst e, w)) (lru c)))"
    and "drop_key k (entries (c\<lparr>lru := lru_assign i (\<lambda>e. (fst e, w)) (lru c)\<rparr>)) = drop_key k (entries c)"
proof -
  let ?l = "lru_assign i (\<lambda>e. (fst e, w)) (lru c)"
  have k: "map (fst \<circ> snd) (lru_nodes ?l) = map (fst \<circ> snd) (lru_nodes (lru c))"
    by (auto simp: lru_assign_def)
  have "\<exists>e'. (j, e') \<in> set (lru_nodes (lru c)) \<and> fst e' = fst e" if "(j, e) \<in> set (lru_nodes ?l)" for j e
    using that by (force simp: lru_assign_def split: if_splits)
  moreover have x: "lru_index ?l = lru_index (lru c)" "length (lru_nodes ?l) = length (lru_nodes (lru c))"
    by (simp_all add: lru_assign_def)
  ultimately show t: "tight (c\<lparr>lru := ?l\<rparr>)"
    using assms(1) lru_ok_assign [of fst "lru c" "\<lambda>e. (fst e, w)" i] unfolding tight_def by (simp add: k) fastforce
  show m: "(i, k, w) \<in> set (lru_nodes ?l)" using assms(2) by (force simp: lru_assign_def)
  have "map snd (filter (\<lambda>(j, _). j \<noteq> i) (lru_nodes ?l)) = map snd (filter (\<lambda>(j, _). j \<noteq> i) (lru_nodes (lru c)))"
    unfolding lru_assign_def by (simp add: filter_map o_def split_def cong: map_cong)
  then show "drop_key k (entries (c\<lparr>lru := ?l\<rparr>)) = drop_key k (entries c)"
    using select_key(1) [OF assms] select_key(1) [OF t, of i k w] m by simp
qed

lemma tight_add:
  assumes "tight c" and "lru_find k (lru c) = None" and "length (lru_nodes (lru c)) < maxSize c"
  shows "tight (c\<lparr>lru := index_set k (lru_push_front (k, v) (lru c))\<rparr>)"
    and "entries (c\<lparr>lru := index_set k (lru_push_front (k, v) (lru c))\<rparr>) = (k, v) # entries c"
    and "index_emplace k (lru_push_front (k, v) (lru c)) = index_set k (lru_push_front (k, v) (lru c))"
proof -
  have n: "k \<notin> fst ` set (lru_index (lru c))" using assms(2) by (simp add: lru_find_def map_of_eq_None_iff)
  then have f: "filter (\<lambda>(k', _). k' \<noteq> k) (lru_index (lru c)) = lru_index (lru c)"
    by (intro filter_True) force
  have ne: "fst e \<noteq> k" if "(i, e) \<in> set (lru_nodes (lru c))" for i e
    using assms(1,2) that unfolding tight_def lru_find_def by fastforce
  then have "k \<notin> (fst \<circ> snd) ` set (lru_nodes (lru c))" by force
  then show "tight (c\<lparr>lru := index_set k (lru_push_front (k, v) (lru c))\<rparr>)"
    using assms lru_ok_index_set [of fst "lru c" "(k, v)"] ne unfolding tight_def
    by (auto simp: index_set_def lru_push_front_def f)
  show "entries (c\<lparr>lru := index_set k (lru_push_front (k, v) (lru c))\<rparr>) = (k, v) # entries c"
    by (simp add: entries_def index_set_def lru_push_front_def)
  show "index_emplace k (lru_push_front (k, v) (lru c)) = index_set k (lru_push_front (k, v) (lru c))"
    using assms(2) by (simp add: index_emplace_def index_set_def lru_push_front_def f lru_find_def)
qed

lemma tight_evict:
  assumes "tight c" and "lru_nodes (lru c) \<noteq> []"
  shows "tight (c\<lparr>lru := lru_evict fst (lru c)\<rparr>)"
    and "entries (c\<lparr>lru := lru_evict fst (lru c)\<rparr>) = butlast (entries c)"
    and "length (lru_nodes (lru_evict fst (lru c))) = length (lru_nodes (lru c)) - 1"
    and "lru_find k (lru c) = None \<Longrightarrow> lru_find k (lru_evict fst (lru c)) = None"
proof -
  obtain ns i a b where n: "lru_nodes (lru c) = ns @ [(i, a, b)]"
    using assms(2) by (metis append_butlast_last_id prod_cases3)
  have ne: "fst e \<noteq> a" if "(j, e) \<in> set ns" for j e using assms(1) that by (force simp: tight_def n)
  have mo: "map_of (filter (\<lambda>(k', _). k' \<noteq> a) xs) y = (if y = a then None else map_of xs y)" for xs :: "(string \<times> nat) list" and y
    by (induction xs) auto
  show "tight (c\<lparr>lru := lru_evict fst (lru c)\<rparr>)"
    using assms(1) lru_ok_evict [of fst "lru c"] ne unfolding tight_def
    by (auto simp: lru_evict_def index_erase_def n mo)
  show "entries (c\<lparr>lru := lru_evict fst (lru c)\<rparr>) = butlast (entries c)"
    "length (lru_nodes (lru_evict fst (lru c))) = length (lru_nodes (lru c)) - 1"
    by (simp_all add: entries_def lru_evict_def index_erase_def n)
  show "lru_find k (lru c) = None \<Longrightarrow> lru_find k (lru_evict fst (lru c)) = None"
    by (simp add: lru_find_def lru_evict_def index_erase_def n mo)
qed

lemma erase_commute: "index_erase k (node_erase i l) = node_erase i (index_erase k l)"
  by (cases l) (simp add: index_erase_def node_erase_def)

lemma tight_erase:
  assumes "tight c" and "lru_find k (lru c) = Some i"
  shows "tight (c\<lparr>lru := index_erase k (node_erase i (lru c))\<rparr>)"
    and "entries (c\<lparr>lru := index_erase k (node_erase i (lru c))\<rparr>) = drop_key k (entries c)"
proof -
  obtain v where v: "(i, k, v) \<in> set (lru_nodes (lru c))" using find_some [OF assms] by blast
  show e: "entries (c\<lparr>lru := index_erase k (node_erase i (lru c))\<rparr>) = drop_key k (entries c)"
    using select_key(1) [OF assms(1) v] by (simp add: entries_def index_erase_def node_erase_def)
  have "distinct (map fst (entries c))" using assms(1) by (simp add: tight_def entries_def)
  then have "distinct (map fst (drop_key k (entries c)))" by (simp add: drop_key_def filter_fst_distinct)
  then have d: "distinct (map (fst \<circ> snd) (lru_nodes (index_erase k (node_erase i (lru c)))))"
    using e by (simp add: entries_def flip: map_map)
  have "fst e \<noteq> k" if "(j, e) \<in> set (lru_nodes (lru c))" "j \<noteq> i" for j e
    using assms that unfolding tight_def lru_find_def by fastforce
  moreover have mo: "map_of (filter (\<lambda>(k', _). k' \<noteq> k) xs) y = (if y = k then None else map_of xs y)" for xs :: "(string \<times> nat) list" and y
    by (induction xs) auto
  moreover have "lru_ok fst (index_erase k (node_erase i (lru c)))"
    using lru_ok_erase [OF _ assms(2), of fst] assms(1) by (simp add: tight_def erase_commute)
  moreover have "length (filter (\<lambda>(j, _). j \<noteq> i) (lru_nodes (lru c))) \<le> maxSize c"
    using assms(1) le_trans [OF length_filter_le] by (auto simp: tight_def)
  ultimately show "tight (c\<lparr>lru := index_erase k (node_erase i (lru c))\<rparr>)"
    using assms(1) d unfolding tight_def by (simp add: index_erase_def node_erase_def) fastforce
qed

section \<open>The interface\<close>

datatype 'v cache_op = Find string | Insert string 'v | Erase string

fun op_key :: "'v cache_op \<Rightarrow> string" where
  "op_key (Find k) = k" | "op_key (Insert k _) = k" | "op_key (Erase k) = k"

fun keeps :: "string \<Rightarrow> 'v cache_op \<Rightarrow> bool" where
  "keeps k (Find _) = True" | "keeps k (Insert k' _) = (k' \<noteq> k)" | "keeps k (Erase k') = (k' \<noteq> k)"

fun spec_step :: "nat \<Rightarrow> 'v cache_op \<Rightarrow> (string \<times> 'v) list \<Rightarrow> (string \<times> 'v) list" where
  "spec_step n (Find k) al = touch k al"
| "spec_step n (Insert k v) al = store n k v al"
| "spec_step n (Erase k) al = drop_key k al"

fun cache_run ::
  "(string \<Rightarrow> 'c \<Rightarrow> 'v option \<times> 'c) \<Rightarrow> (string \<Rightarrow> 'v \<Rightarrow> 'c \<Rightarrow> 'c) \<Rightarrow> (string \<Rightarrow> 'c \<Rightarrow> 'c) \<Rightarrow> 'v cache_op list \<Rightarrow> 'c \<Rightarrow> 'c" where
  "cache_run f g h [] c = c"
| "cache_run f g h (Find k # ops) c = cache_run f g h ops (snd (f k c))"
| "cache_run f g h (Insert k v # ops) c = cache_run f g h ops (g k v c)"
| "cache_run f g h (Erase k # ops) c = cache_run f g h ops (h k c)"

lemma cache_run_append: "cache_run f g h (xs @ ys) c = cache_run f g h ys (cache_run f g h xs c)"
  by (induction f g h xs c rule: cache_run.induct) simp_all

text \<open>The entry for \<open>k\<close> with only keys of \<open>S\<close> before it.\<close>

definition held :: "string \<Rightarrow> 'v \<Rightarrow> string set \<Rightarrow> (string \<times> 'v) list \<Rightarrow> bool" where
  "held k v S al \<longleftrightarrow> (\<exists>xs ys. al = xs @ (k, v) # ys \<and> fst ` set xs \<subseteq> S) \<and> distinct (map fst al)"

lemma held_lookup: "held k v S al \<Longrightarrow> map_of al k = Some v"
  by (auto simp: held_def map_add_def)

lemma heldI: "al = xs @ (k, v) # ys \<Longrightarrow> fst ` set xs \<subseteq> S \<Longrightarrow> distinct (map fst al) \<Longrightarrow> held k v S al"
  by (auto simp: held_def)

lemma held_drop: "held k v S al \<Longrightarrow> q \<noteq> k \<Longrightarrow> held k v S (drop_key q al)"
proof -
  assume h: "held k v S al" and q: "q \<noteq> k"
  then obtain xs ys where al: "al = xs @ (k, v) # ys" "fst ` set xs \<subseteq> S" "distinct (map fst al)" by (auto simp: held_def)
  show ?thesis
  proof (rule heldI)
    show "drop_key q al = drop_key q xs @ (k, v) # drop_key q ys" using q by (simp add: drop_key_def al(1))
    show "fst ` set (drop_key q xs) \<subseteq> S" using al(2) by (auto simp: drop_key_def)
    show "distinct (map fst (drop_key q al))" using al(3) by (simp add: drop_key_def filter_fst_distinct)
  qed
qed

lemma held_front: "held k v S al \<Longrightarrow> q \<in> S \<Longrightarrow> q \<notin> fst ` set al \<Longrightarrow> held k v S ((q, w) # al)"
proof -
  assume h: "held k v S al" and q: "q \<in> S" "q \<notin> fst ` set al"
  then obtain xs ys where "al = xs @ (k, v) # ys" "fst ` set xs \<subseteq> S" "distinct (map fst al)" by (auto simp: held_def)
  then show ?thesis using q by (intro heldI [of _ "(q, w) # xs" k v ys]) auto
qed

lemma held_butlast:
  assumes h: "held k v S al" and "finite S" and "card S < n" and "n \<le> length al" and "q \<in> S" and "q \<notin> fst ` set al"
  shows "held k v S (butlast al)"
proof -
  obtain xs ys where al: "al = xs @ (k, v) # ys" "fst ` set xs \<subseteq> S" and d: "distinct (map fst al)" using h by (auto simp: held_def)
  have "card (fst ` set xs) \<le> card (S - {q})" using al(2) assms(2,6) by (intro card_mono) (auto simp: al(1))
  moreover have "card (fst ` set xs) = length xs" using d distinct_card [of "map fst xs"] by (simp add: al(1))
  ultimately have "length xs < card S" using assms(2,5) by (metis card_gt_0_iff card_Diff_singleton diff_less empty_iff le_less_trans less_one)
  then obtain y zs where y: "ys = zs @ [y]" using assms(3,4) al(1) by (cases ys rule: rev_cases) auto
  then show ?thesis using al d unfolding held_def by (auto simp: butlast_append)
qed

lemma spec_step_held:
  assumes "held k v S al" and "keeps k op" and "op_key op = k \<or> op_key op \<in> S" and "finite S" and "card S < n"
  shows "held k v S (spec_step n op al)"
proof (cases "op_key op = k")
  case True
  then obtain "op = Find k" using assms(2) by (cases op) auto
  moreover have "distinct (map fst (drop_key k al))" "k \<notin> fst ` set (drop_key k al)"
    using assms(1) by (auto simp: held_def drop_key_def filter_fst_distinct)
  ultimately show ?thesis using held_lookup [OF assms(1)]
    by (intro heldI [of _ "[]" k v "drop_key k al"]) (simp_all add: touch_def)
next
  case False
  note dr = held_drop [OF assms(1) False]
  have q: "op_key op \<in> S" "op_key op \<notin> fst ` set (drop_key (op_key op) al)"
    using False assms(3) by (auto simp: drop_key_def)
  show ?thesis
  proof (cases op)
    case (Find p)
    then show ?thesis using assms(1) held_front [OF dr q] by (auto simp: touch_def split: option.splits)
  next
    case (Insert p w)
    have "p \<notin> fst ` set al" if "map_of al p = None" using that by (simp add: map_of_eq_None_iff)
    moreover have "fst ` set (butlast al) \<subseteq> fst ` set al" by (auto dest: in_set_butlastD)
    ultimately show ?thesis using Insert q assms(1,4,5) held_front [OF dr q, of w] held_front [OF assms(1), of p w]
        held_butlast [OF assms(1,4,5), of p] held_front [OF held_butlast [OF assms(1,4,5), of p], of p w]
      by (auto simp: store_def)
  next
    case (Erase p)
    then show ?thesis using dr by simp
  qed
qed

locale recency_cache =
  fixes find :: "string \<Rightarrow> 'c \<Rightarrow> 'v option \<times> 'c" and insert :: "string \<Rightarrow> 'v \<Rightarrow> 'c \<Rightarrow> 'c" and erase :: "string \<Rightarrow> 'c \<Rightarrow> 'c"
    and ents :: "'c \<Rightarrow> (string \<times> 'v) list" and ok :: "'c \<Rightarrow> bool" and cap :: "'c \<Rightarrow> nat"
  assumes ents_ok: "ok c \<Longrightarrow> distinct (map fst (ents c)) \<and> length (ents c) \<le> cap c"
    and find_law: "ok c \<Longrightarrow> fst (find k c) = map_of (ents c) k \<and> ok (snd (find k c))
        \<and> ents (snd (find k c)) = touch k (ents c) \<and> cap (snd (find k c)) = cap c"
    and insert_law: "ok c \<Longrightarrow> ok (insert k v c) \<and> ents (insert k v c) = store (cap c) k v (ents c) \<and> cap (insert k v c) = cap c"
    and erase_law: "ok c \<Longrightarrow> ok (erase k c) \<and> ents (erase k c) = drop_key k (ents c) \<and> cap (erase k c) = cap c"
begin

abbreviation "run \<equiv> cache_run find insert erase"

lemma run_spec:
  "ok c \<Longrightarrow> ok (run ops c) \<and> ents (run ops c) = fold (spec_step (cap c)) ops (ents c) \<and> cap (run ops c) = cap c"
proof (induction ops arbitrary: c)
  case (Cons op ops)
  then show ?case by (cases op) (simp_all add: find_law insert_law erase_law)
qed simp

lemma front_kept:
  assumes "ok c" and "ents c = (k, v) # al" and "\<forall>op\<in>set ops. keeps k op" and "card (op_key ` set ops - {k}) < cap c"
  shows "fst (find k (run ops c)) = Some v"
proof -
  let ?S = "op_key ` set ops - {k}"
  have step: "held k v ?S xs \<Longrightarrow> set os \<subseteq> set ops \<Longrightarrow> held k v ?S (fold (spec_step (cap c)) os xs)" for os xs
  proof (induction os arbitrary: xs)
    case (Cons op os)
    have "held k v ?S (spec_step (cap c) op xs)" using Cons.prems assms(3,4) by (intro spec_step_held) auto
    then show ?case using Cons by simp
  qed simp
  have "held k v ?S (ents c)" using ents_ok [OF assms(1)] assms(2) by (fastforce simp: held_def)
  then have "map_of (ents (run ops c)) k = Some v" using run_spec [OF assms(1), of ops] step [of "ents c" ops] by (simp add: held_lookup)
  then show ?thesis using find_law run_spec assms(1) by metis
qed

text \<open>A use of \<open>k\<close> puts it in front: an insertion, or a lookup that finds it.\<close>

definition uses :: "'c \<Rightarrow> string \<Rightarrow> 'v \<Rightarrow> 'v cache_op \<Rightarrow> bool" where
  "uses c k v op \<longleftrightarrow> op = Insert k v \<or> op = Find k \<and> fst (find k c) = Some v"

lemma used_front:
  assumes "ok c" and "uses c k v op" and "0 < cap c"
  shows "\<exists>al. ents (run [op] c) = (k, v) # al"
  using assms insert_law [OF assms(1), of k v] find_law [OF assms(1), of k] by (auto simp: uses_def touch_def store_def)

lemma recent_kept:
  assumes "ok c" and "uses c k v op" and "\<forall>op\<in>set ops. keeps k op" and "card (op_key ` set ops - {k}) < cap c"
  shows "fst (find k (run (op # ops) c)) = Some v"
proof -
  have r: "ok (run [op] c)" "cap (run [op] c) = cap c" using run_spec [OF assms(1), of "[op]"] by simp_all
  obtain al where "ents (run [op] c) = (k, v) # al" using used_front [OF assms(1,2)] assms(4) by auto
  from front_kept [OF r(1) this assms(3)] show ?thesis using assms(4) r(2) cache_run_append [of find insert erase "[op]" ops c] by simp
qed

end

section \<open>Both caches provide it\<close>

lemma tight_entries: "tight c \<Longrightarrow> distinct (map fst (entries c)) \<and> length (entries c) \<le> maxSize c"
  by (simp add: tight_def entries_def)

lemma touch_none: "map_of al k = None \<Longrightarrow> touch k al = al"
  by (simp add: touch_def)

lemma pg_find_law:
  assumes "tight c"
  shows "fst (pg_find k c) = map_of (entries c) k \<and> tight (snd (pg_find k c))
     \<and> entries (snd (pg_find k c)) = touch k (entries c) \<and> maxSize (snd (pg_find k c)) = maxSize c"
proof (cases "lru_find k (lru c)")
  case None
  then show ?thesis using find_none [OF assms None] assms by (simp add: pg_find_def touch_none)
next
  case (Some i)
  obtain v where v: "(i, k, v) \<in> set (lru_nodes (lru c))" "map_of (entries c) k = Some v" by (rule find_some [OF assms Some])
  show ?thesis using tight_splice [OF assms v(1)] v(2) by (simp add: pg_find_def Some Let_def touch_def)
qed

lemma stmt_find_pg: "tight c \<Longrightarrow> stmt_find k c =
   (case lru_find k (lru c) of None \<Rightarrow> (None, c)
    | Some i \<Rightarrow> let l = lru_splice i (lru c) in (map_option snd (lru_deref i l), c\<lparr>lru := l\<rparr>))"
  by (auto simp: stmt_find_def tight_def lru_find_def lru_ok_def split: option.splits dest: map_of_SomeD)

lemma stmt_find_law:
  assumes "tight c"
  shows "fst (stmt_find k c) = map_of (entries c) k \<and> tight (snd (stmt_find k c))
     \<and> entries (snd (stmt_find k c)) = touch k (entries c) \<and> maxSize (snd (stmt_find k c)) = maxSize c"
proof (cases "lru_find k (lru c)")
  case None
  then show ?thesis using find_none [OF assms None] assms by (simp add: stmt_find_pg [OF assms] touch_none)
next
  case (Some i)
  obtain v where v: "(i, k, v) \<in> set (lru_nodes (lru c))" "map_of (entries c) k = Some v" by (rule find_some [OF assms Some])
  show ?thesis using tight_splice [OF assms v(1)] v(2) by (simp add: stmt_find_pg [OF assms] Some Let_def touch_def)
qed

text \<open>The two branches the insertions share: the key is known, or a new entry at the front.\<close>

lemma replace_law:
  assumes "tight c" and "lru_find k (lru c) = Some i"
  shows "tight (c\<lparr>lru := lru_splice i (lru_assign i (\<lambda>e. (fst e, w)) (lru c))\<rparr>)
    \<and> entries (c\<lparr>lru := lru_splice i (lru_assign i (\<lambda>e. (fst e, w)) (lru c))\<rparr>) = store (maxSize c) k w (entries c)"
proof -
  obtain v where v: "(i, k, v) \<in> set (lru_nodes (lru c))" "map_of (entries c) k = Some v" by (rule find_some [OF assms])
  note a = tight_assign [OF assms(1) v(1), of w]
  show ?thesis using tight_splice [OF a(1), of i k w] a(2,3) v(2) by (simp add: store_def)
qed

lemma fresh_law:
  assumes "tight c" and "lru_find k (lru c) = None" and "maxSize c > 0"
    and "l = (if length (lru_nodes (lru c)) \<ge> maxSize c then lru_evict fst (lru c) else lru c)"
  shows "tight (c\<lparr>lru := index_set k (lru_push_front (k, v) l)\<rparr>)
    \<and> entries (c\<lparr>lru := index_set k (lru_push_front (k, v) l)\<rparr>) = store (maxSize c) k v (entries c)
    \<and> index_emplace k (lru_push_front (k, v) l) = index_set k (lru_push_front (k, v) l)"
proof -
  have len: "length (entries c) = length (lru_nodes (lru c))" by (simp add: entries_def)
  have none: "map_of (entries c) k = None" by (rule find_none [OF assms(1,2)])
  show ?thesis
  proof (cases "length (lru_nodes (lru c)) \<ge> maxSize c")
    case True
    then have "lru_nodes (lru c) \<noteq> []" using assms(3) by auto
    note ev = tight_evict [OF assms(1) this]
    have "length (lru_nodes (lru_evict fst (lru c))) < maxSize c" using ev(3) assms(1,3) unfolding tight_def by linarith
    then show ?thesis using tight_add [OF ev(1), of k v] ev(2) ev(4) [OF assms(2)] True none len assms(3,4)
      by (simp add: store_def)
  next
    case False
    then show ?thesis using tight_add [OF assms(1,2), of v] none len assms(3,4) by (simp add: store_def)
  qed
qed

lemma empty_cap: "tight c \<Longrightarrow> maxSize c = 0 \<Longrightarrow> entries c = [] \<and> lru_find k (lru c) = None"
  by (auto simp: tight_def entries_def lru_find_def lru_ok_def map_of_eq_None_iff)

lemma stmt_insert_law:
  assumes "tight c"
  shows "tight (snd (stmt_insert k v c)) \<and> entries (snd (stmt_insert k v c)) = store (maxSize c) k v (entries c)
    \<and> maxSize (snd (stmt_insert k v c)) = maxSize c"
proof (cases "maxSize c = 0")
  case True
  then show ?thesis using assms empty_cap [OF assms True] by (simp add: stmt_insert_def store_def)
next
  case False
  then show ?thesis
    using replace_law [OF assms, of k _ v] fresh_law [OF assms _ _ refl, of k v]
    by (cases "lru_find k (lru c)") (simp_all add: stmt_insert_def Let_def)
qed

lemma pg_insert_law:
  assumes "tight c"
  shows "tight (pg_insert k v c) \<and> entries (pg_insert k v c) = store (maxSize c) k v (entries c) \<and> maxSize (pg_insert k v c) = maxSize c"
proof (cases "lru_find k (lru c)")
  case None
  then show ?thesis using assms empty_cap [OF assms, of k] fresh_law [OF assms None _ refl, of v]
    by (simp add: pg_insert_def Let_def) (simp add: store_def)
next
  case (Some i)
  then show ?thesis using replace_law [OF assms Some, of v] by (simp add: pg_insert_def)
qed

lemma erase_law_shared:
  assumes "tight c" and "c' = (case lru_find k (lru c) of None \<Rightarrow> c | Some i \<Rightarrow> c\<lparr>lru := index_erase k (node_erase i (lru c))\<rparr>)"
  shows "tight c' \<and> entries c' = drop_key k (entries c) \<and> maxSize c' = maxSize c"
proof (cases "lru_find k (lru c)")
  case None
  have "drop_key k (entries c) = entries c"
    using find_none [OF assms(1) None] by (force simp: drop_key_def map_of_eq_None_iff filter_id_conv)
  then show ?thesis using assms None by simp
next
  case (Some i)
  then show ?thesis using tight_erase [OF assms(1) Some] assms(2) by simp
qed

interpretation mysql: recency_cache stmt_find "\<lambda>k v c. snd (stmt_insert k v c)" "\<lambda>k c. snd (stmt_erase k c)" entries tight maxSize
proof unfold_locales
  fix c :: "'v StmtCache" and k v
  show "tight c \<Longrightarrow> distinct (map fst (entries c)) \<and> length (entries c) \<le> maxSize c" by (rule tight_entries)
  show "tight c \<Longrightarrow> fst (stmt_find k c) = map_of (entries c) k \<and> tight (snd (stmt_find k c))
     \<and> entries (snd (stmt_find k c)) = touch k (entries c) \<and> maxSize (snd (stmt_find k c)) = maxSize c"
    by (rule stmt_find_law)
  show "tight c \<Longrightarrow> tight (snd (stmt_insert k v c)) \<and> entries (snd (stmt_insert k v c)) = store (maxSize c) k v (entries c)
    \<and> maxSize (snd (stmt_insert k v c)) = maxSize c" by (rule stmt_insert_law)
  show "tight c \<Longrightarrow> tight (snd (stmt_erase k c)) \<and> entries (snd (stmt_erase k c)) = drop_key k (entries c)
    \<and> maxSize (snd (stmt_erase k c)) = maxSize c"
    by (rule erase_law_shared) (auto simp: stmt_erase_def split: option.splits)
qed

interpretation pg: recency_cache pg_find pg_insert pg_erase entries tight maxSize
proof unfold_locales
  fix c :: "string StmtCache" and k v
  show "tight c \<Longrightarrow> distinct (map fst (entries c)) \<and> length (entries c) \<le> maxSize c" by (rule tight_entries)
  show "tight c \<Longrightarrow> fst (pg_find k c) = map_of (entries c) k \<and> tight (snd (pg_find k c))
     \<and> entries (snd (pg_find k c)) = touch k (entries c) \<and> maxSize (snd (pg_find k c)) = maxSize c"
    by (rule pg_find_law)
  show "tight c \<Longrightarrow> tight (pg_insert k v c) \<and> entries (pg_insert k v c) = store (maxSize c) k v (entries c)
    \<and> maxSize (pg_insert k v c) = maxSize c" by (rule pg_insert_law)
  show "tight c \<Longrightarrow> tight (pg_erase k c) \<and> entries (pg_erase k c) = drop_key k (entries c) \<and> maxSize (pg_erase k c) = maxSize c"
    by (rule erase_law_shared) (simp_all add: pg_erase_def)
qed

text \<open>What an insertion hands back for closing is the statement that leaves the cache.\<close>

lemma stmt_insert_returns:
  assumes "tight c"
  shows "fst (stmt_insert k v c) =
    (if maxSize c = 0 then Some v else if map_of (entries c) k = None \<and> length (entries c) \<ge> maxSize c
     then Some (snd (last (entries c))) else None)"
proof (cases "lru_find k (lru c)")
  case None
  have "lru_nodes (lru c) \<noteq> []" if "maxSize c \<noteq> 0" "length (lru_nodes (lru c)) \<ge> maxSize c" using that by auto
  then show ?thesis using find_none [OF assms None] None by (auto simp: stmt_insert_def Let_def entries_def last_map)
next
  case (Some i)
  obtain w where "map_of (entries c) k = Some w" by (rule find_some [OF assms Some])
  then show ?thesis using Some by (simp add: stmt_insert_def)
qed

section \<open>Properties\<close>

text \<open>
  C39. The statement caches hold what was used last. Take a cache with a capacity of \<open>n\<close> after any use of it, and let a
  statement be used: inserted, or found by a lookup. From then on it is found, with the same value,
  as long as it is neither replaced nor erased and fewer than \<open>n\<close> other SQL texts have been looked up,
  inserted or erased since this last use; the cache never has more than \<open>n\<close> entries. This holds for the MySQL
  and for the PostgreSQL cache.
\<close>

theorem recent_statement_kept:
  assumes "use = Insert k v \<or> use = Find k \<and> fst (stmt_find k (mysql.run before (new_stmt_cache n))) = Some v"
    and "\<forall>op\<in>set ops. keeps k op" and "card (op_key ` set ops - {k}) < n"
    and "use' = Insert k v' \<or> use' = Find k \<and> fst (pg_find k (pg.run before' (new_stmt_cache n))) = Some v'"
    and "\<forall>op\<in>set ops'. keeps k op" and "card (op_key ` set ops' - {k}) < n"
  shows "fst (stmt_find k (mysql.run (before @ use # ops) (new_stmt_cache n))) = Some v
    \<and> fst (pg_find k (pg.run (before' @ use' # ops') (new_stmt_cache n))) = Some v'
    \<and> stmt_size (mysql.run before (new_stmt_cache n)) \<le> n \<and> length (entries (pg.run before' (new_stmt_cache n))) \<le> n"
proof (intro conjI)
  have t: "tight (mysql.run before (new_stmt_cache n))" "maxSize (mysql.run before (new_stmt_cache n)) = n"
    using mysql.run_spec [OF tight_new(1), of before n] by simp_all
  show "fst (stmt_find k (mysql.run (before @ use # ops) (new_stmt_cache n))) = Some v"
    unfolding cache_run_append by (rule mysql.recent_kept [OF t(1)]) (use assms(1-3) t(2) in \<open>simp_all add: mysql.uses_def\<close>)
  show "stmt_size (mysql.run before (new_stmt_cache n)) \<le> n" using t by (simp add: tight_def stmt_size_def)
  have p: "tight (pg.run before' (new_stmt_cache n))" "maxSize (pg.run before' (new_stmt_cache n)) = n"
    using pg.run_spec [OF tight_new(1), of before' n] by simp_all
  show "fst (pg_find k (pg.run (before' @ use' # ops') (new_stmt_cache n))) = Some v'"
    unfolding cache_run_append by (rule pg.recent_kept [OF p(1)]) (use assms(4-6) p(2) in \<open>simp_all add: pg.uses_def\<close>)
  show "length (entries (pg.run before' (new_stmt_cache n))) \<le> n" using tight_entries [OF p(1)] p(2) by simp
qed

theorem recent_statement_kept_witness:
  "fst (stmt_find ''a'' (mysql.run ([Insert ''a'' 1, Insert ''b'' 2] @ Find ''a'' # [Insert ''c'' (3::nat)]) (new_stmt_cache 2))) = Some 1
   \<and> fst (pg_find ''a'' (pg.run ([Insert ''a'' ''s'', Find ''c''] @ Find ''a'' # [Insert ''d'' ''t'']) (new_stmt_cache 2))) = Some ''s''"
proof -
  have "fst (stmt_find ''a'' (mysql.run [Insert ''a'' 1, Insert ''b'' 2] (new_stmt_cache 2))) = Some (1::nat)"
    "fst (pg_find ''a'' (pg.run [Insert ''a'' ''s'', Find ''c''] (new_stmt_cache 2))) = Some ''s''" by code_simp+
  then show ?thesis
    using recent_statement_kept [of "Find ''a''" "''a''" "1::nat" "[Insert ''a'' 1, Insert ''b'' 2]" 2 "[Insert ''c'' 3]"
      "Find ''a''" "''s''" "[Insert ''a'' ''s'', Find ''c'']" "[Insert ''d'' ''t'']"] by simp
qed

end
