(* ===== verification/Static_Files.thy ===== *)
theory Static_Files
  imports Text_Parse Lru
begin

text \<open>
  The static file handler of \<^verbatim>\<open>src/src/core/StaticFiles.h\<close>: the type of a file, the check of the path, range
  requests, the two caches of a thread and the handler itself, with the stream branch for reading
  files. Paths are POSIX paths. What the file system answers during a request is a record; it may
  differ from request to request. Times are nanoseconds.
\<close>

section \<open>Paths\<close>

fun slash_split :: "string \<Rightarrow> string list" where
  "slash_split [] = [[]]"
| "slash_split (c # cs) =
     (if c = CHR ''/'' then [] # slash_split cs
      else case slash_split cs of p # ps \<Rightarrow> (c # p) # ps | [] \<Rightarrow> [[c]])"

text \<open>The elements of a \<open>std::filesystem::path\<close>: the root directory, the names, and an empty name behind a final slash.\<close>

definition path_parts :: "string \<Rightarrow> string list" where
  "path_parts p =
     (let ns = filter (\<lambda>n. n \<noteq> []) (slash_split p) in
      (if p \<noteq> [] \<and> hd p = CHR ''/'' then [''/''] else []) @ ns
      @ (if ns \<noteq> [] \<and> last p = CHR ''/'' then [[]] else []))"

text \<open>\<open>operator/\<close>: an absolute right side replaces the left one.\<close>

definition path_append :: "string \<Rightarrow> string \<Rightarrow> string" where
  "path_append p q =
     (if q \<noteq> [] \<and> hd q = CHR ''/'' then q
      else if p \<noteq> [] \<and> last p \<noteq> CHR ''/'' then p @ CHR ''/'' # q else p @ q)"

definition filename :: "string \<Rightarrow> string" where
  "filename p = last (slash_split p)"

definition rfind_char :: "char \<Rightarrow> string \<Rightarrow> nat option" where
  "rfind_char c s = map_option (\<lambda>n. length s - 1 - n) (find_char c (rev s))"

definition extension :: "string \<Rightarrow> string" where
  "extension p =
     (let f = filename p in
      if f = ''.'' \<or> f = ''..'' then []
      else case rfind_char (CHR ''.'') f of
             None \<Rightarrow> []
           | Some n \<Rightarrow> if n = 0 then [] else drop n f)"

fun safe_parts :: "string list \<Rightarrow> string list \<Rightarrow> bool" where
  "safe_parts [] ts = True"
| "safe_parts (r # rs) [] = False"
| "safe_parts (r # rs) (t # ts) = (if r \<noteq> t then False else safe_parts rs ts)"

definition isSafePath :: "string \<Rightarrow> string \<Rightarrow> bool" where
  "isSafePath root target = safe_parts (path_parts root) (path_parts target)"

section \<open>Types of files\<close>

definition mime_table :: "(string \<times> string) list" where
  "mime_table = [(''.html'', ''text/html; charset=utf-8''), (''.htm'', ''text/html; charset=utf-8''),
     (''.css'', ''text/css; charset=utf-8''), (''.js'', ''application/javascript; charset=utf-8''),
     (''.mjs'', ''application/javascript; charset=utf-8''), (''.json'', ''application/json; charset=utf-8''),
     (''.xml'', ''application/xml; charset=utf-8''), (''.txt'', ''text/plain; charset=utf-8''),
     (''.md'', ''text/markdown; charset=utf-8''), (''.svg'', ''image/svg+xml''), (''.png'', ''image/png''),
     (''.jpg'', ''image/jpeg''), (''.jpeg'', ''image/jpeg''), (''.gif'', ''image/gif''), (''.webp'', ''image/webp''),
     (''.ico'', ''image/x-icon''), (''.woff'', ''font/woff''), (''.woff2'', ''font/woff2''), (''.ttf'', ''font/ttf''),
     (''.otf'', ''font/otf''), (''.pdf'', ''application/pdf''), (''.zip'', ''application/zip''), (''.gz'', ''application/gzip''),
     (''.mp4'', ''video/mp4''), (''.webm'', ''video/webm''), (''.mp3'', ''audio/mpeg''), (''.wav'', ''audio/wav'')]"

definition mimeType :: "string \<Rightarrow> string" where
  "mimeType ext = (case map_of mime_table ext of Some m \<Rightarrow> m | None \<Rightarrow> ''application/octet-stream'')"

abbreviation begins :: "string \<Rightarrow> string \<Rightarrow> bool" where
  "begins p s \<equiv> take (length p) s = p"

definition isTextMime :: "string \<Rightarrow> bool" where
  "isTextMime mime =
     (if mime = [] then False
      else let mediaType = (case find_char (CHR '';'') mime of Some n \<Rightarrow> take n mime | None \<Rightarrow> mime)
           in begins ''text/'' mediaType \<or> begins ''application/json'' mediaType \<or> begins ''application/javascript'' mediaType
            \<or> begins ''application/xml'' mediaType \<or> begins ''image/svg+xml'' mediaType \<or> begins ''application/xhtml+xml'' mediaType)"

definition makeEtag :: "nat \<Rightarrow> int \<Rightarrow> string" where
  "makeEtag fileSize ns = CHR 0x22 # to_chars 10 fileSize @ ''-'' @ signed_chars ns @ [CHR 0x22]"

section \<open>Ranges\<close>

definition from_chars_i64 :: "string \<Rightarrow> int from_chars" where
  "from_chars_i64 s =
     (let neg = (s \<noteq> [] \<and> hd s = CHR ''-''); body = (if neg then tl s else s);
          ds = takeWhile is_dec body; rest = dropWhile is_dec body;
          v = (if neg then - int (dec_value 0 ds) else int (dec_value 0 ds)) in
      if ds = [] then FcInvalid
      else if - (2 ^ 63) \<le> v \<and> v < 2 ^ 63 then FcOk v rest else FcRange rest)"

text \<open>First and last byte.\<close>

type_synonym ByteRange = "int \<times> int"

definition clamp_range :: "int \<Rightarrow> int \<Rightarrow> int \<Rightarrow> ByteRange option" where
  "clamp_range fileSize start stop0 =
     (let stop = (if stop0 \<ge> fileSize then fileSize - 1 else stop0) in
      if start < 0 \<or> start > stop \<or> start \<ge> fileSize then None else Some (start, stop))"

definition suffix_range :: "string \<Rightarrow> int \<Rightarrow> ByteRange option" where
  "suffix_range endStr fileSize =
     (if endStr = [] then None
      else case from_chars_i64 endStr of
             FcOk suffixLen _ \<Rightarrow>
               if suffixLen \<le> 0 then None
               else clamp_range fileSize (if suffixLen \<ge> fileSize then 0 else fileSize - suffixLen) (fileSize - 1)
           | _ \<Rightarrow> None)"

definition plain_range :: "string \<Rightarrow> string \<Rightarrow> int \<Rightarrow> ByteRange option" where
  "plain_range startStr endStr fileSize =
     (case from_chars_i64 startStr of
        FcOk start _ \<Rightarrow>
          if endStr = [] then clamp_range fileSize start (fileSize - 1)
          else (case from_chars_i64 endStr of
                  FcOk stop _ \<Rightarrow> clamp_range fileSize start stop
                | _ \<Rightarrow> None)
      | _ \<Rightarrow> None)"

text \<open>The second component is \<open>isMultiRange\<close>.\<close>

definition parseByteRange :: "string \<Rightarrow> int \<Rightarrow> ByteRange option \<times> bool" where
  "parseByteRange header fileSize =
     (if length header < 7 \<or> take 6 header \<noteq> ''bytes='' then (None, False)
      else let rangeSpec = drop 6 header in
           if find_char (CHR '','') rangeSpec \<noteq> None then (None, True)
           else case find_char (CHR ''-'') rangeSpec of
                  None \<Rightarrow> (None, False)
                | Some dashPos \<Rightarrow>
                    let startStr = take dashPos rangeSpec; endStr = drop (dashPos + 1) rangeSpec
                    in (if startStr = [] then suffix_range endStr fileSize
                        else plain_range startStr endStr fileSize, False))"

section \<open>Caches and file system\<close>

record PathEntry =
  pe_key :: string
  pe_canonical :: string
  pe_cachedAt :: int

record ContentEntry =
  ce_key :: string
  ce_content :: string
  ce_etag :: string
  ce_mtimeNs :: int
  ce_cachedAt :: int

record StaticCaches =
  path_cache :: "PathEntry Lru"
  content_cache :: "ContentEntry Lru"

definition new_caches :: StaticCaches where
  "new_caches = \<lparr>path_cache = lru_empty, content_cache = lru_empty\<rparr>"

definition kPathEntries :: nat where "kPathEntries = 64"
definition kPathTtl :: int where "kPathTtl = 60 * 1000000000"
definition kContentEntries :: nat where "kContentEntries = 32"
definition kMaxCachedFile :: nat where "kMaxCachedFile = 512 * 1024"
definition kContentTtl :: int where "kContentTtl = 10 * 1000000000"
definition kInlineThreshold :: int where "kInlineThreshold = 4 * 1024 * 1024"

text \<open>The answers of the operating system; \<open>file_data\<close> is what a stream on the file reads, if it opens.\<close>

record FileSys =
  fs_canonical :: "string \<Rightarrow> string option"
  fs_is_directory :: "string \<Rightarrow> bool"
  fs_is_regular_file :: "string \<Rightarrow> bool"
  fs_file_size :: "string \<Rightarrow> nat option"
  fs_last_write_time :: "string \<Rightarrow> int option"
  file_data :: "string \<Rightarrow> string option"

section \<open>The handler\<close>

definition relative_path :: "string \<Rightarrow> string \<Rightarrow> string" where
  "relative_path urlPrefix reqPath =
     (if begins urlPrefix reqPath then drop (length urlPrefix) reqPath
      else if urlPrefix \<noteq> [] \<and> reqPath = take (length urlPrefix - 1) urlPrefix then []
      else reqPath)"

definition path_insert :: "string \<Rightarrow> string \<Rightarrow> int \<Rightarrow> PathEntry Lru \<Rightarrow> PathEntry Lru" where
  "path_insert cacheKey target now pc =
     (let pc1 = (if length (lru_index pc) \<ge> kPathEntries then lru_evict pe_key pc else pc)
      in index_emplace cacheKey (lru_push_front \<lparr>pe_key = cacheKey, pe_canonical = target, pe_cachedAt = now\<rparr> pc1))"

definition path_lookup :: "string \<Rightarrow> int \<Rightarrow> PathEntry Lru \<Rightarrow> (string \<times> PathEntry Lru) option" where
  "path_lookup cacheKey now pc =
     (case lru_find cacheKey pc of
        None \<Rightarrow> None
      | Some i \<Rightarrow>
          (case lru_deref i pc of
             None \<Rightarrow> None
           | Some e \<Rightarrow> if now - pe_cachedAt e < kPathTtl then Some (pe_canonical e, lru_splice i pc) else None))"

definition resolve_path :: "string \<Rightarrow> string \<Rightarrow> FileSys \<Rightarrow> int \<Rightarrow> PathEntry Lru \<Rightarrow> string option \<times> PathEntry Lru" where
  "resolve_path root relPath fs now pc =
     (let cacheKey = root @ CHR 0x01 # relPath in
      case path_lookup cacheKey now pc of
        Some (target, pc1) \<Rightarrow> (Some target, pc1)
      | None \<Rightarrow>
          (case fs_canonical fs (path_append root relPath) of
             None \<Rightarrow> (None, pc)
           | Some target \<Rightarrow> (Some target, path_insert cacheKey target now pc)))"

text \<open>The file a safe target stands for: itself, or the index of a directory.\<close>

definition select_file :: "string \<Rightarrow> FileSys \<Rightarrow> string \<Rightarrow> string option" where
  "select_file root fs target =
     (let found = (if fs_is_directory fs target
                   then (case fs_canonical fs (path_append target ''index.html'') of
                           None \<Rightarrow> None
                         | Some t \<Rightarrow> if isSafePath root t then Some t else None)
                   else Some target)
      in case found of
           None \<Rightarrow> None
         | Some t \<Rightarrow> if fs_is_regular_file fs t then Some t else None)"

text \<open>The result is the entry to serve from, if it may be served.\<close>

definition content_lookup :: "string \<Rightarrow> FileSys \<Rightarrow> int \<Rightarrow> ContentEntry Lru \<Rightarrow> ContentEntry option \<times> ContentEntry Lru" where
  "content_lookup target fs now cc =
     (case lru_find target cc of
        None \<Rightarrow> (None, cc)
      | Some i \<Rightarrow>
          (case lru_deref i cc of
             None \<Rightarrow> (None, cc)
           | Some e \<Rightarrow>
               if now - ce_cachedAt e < kContentTtl then (Some e, lru_splice i cc)
               else if fs_last_write_time fs target = Some (ce_mtimeNs e)
               then (Some e, lru_splice i (lru_assign i (\<lambda>e. e\<lparr>ce_cachedAt := now\<rparr>) cc))
               else (None, node_erase i (index_erase target cc))))"

definition content_insert :: "ContentEntry \<Rightarrow> ContentEntry Lru \<Rightarrow> ContentEntry Lru" where
  "content_insert e cc =
     (let cc1 = (if length (lru_index cc) \<ge> kContentEntries then lru_evict ce_key cc else cc)
      in index_emplace (ce_key e) (lru_push_front e cc1))"

definition file_headers :: "string \<Rightarrow> NativeResponse \<Rightarrow> NativeResponse" where
  "file_headers etag r =
     setHeader ''X-Content-Type-Options'' ''nosniff'' (setHeader ''ETag'' etag (setHeader ''Accept-Ranges'' ''bytes'' r))"

definition not_modified :: "string \<Rightarrow> NativeResponse" where
  "not_modified etag = preparePayload (setHeader ''ETag'' etag (setStatus hNotModified new_response))"

definition cached_response :: "'v HttpRequest \<Rightarrow> string \<Rightarrow> ContentEntry \<Rightarrow> NativeResponse" where
  "cached_response req mime e =
     (let ifnm = rq_header req ''If-None-Match'' in
      if ifnm \<noteq> [] \<and> ifnm = ce_etag e then not_modified (ce_etag e)
      else file_headers (ce_etag e) (setBodyType (ce_content e) mime (setStatus hOk new_response)))"

definition range_response :: "FileSys \<Rightarrow> string \<Rightarrow> string \<Rightarrow> string \<Rightarrow> nat \<Rightarrow> ByteRange \<Rightarrow> NativeResponse" where
  "range_response fs target mime etag fileSize rng =
     (let start = fst rng; rangeLen = snd rng - fst rng + 1;
          contentRange = ''bytes '' @ signed_chars (fst rng) @ ''-'' @ signed_chars (snd rng) @ ''/'' @ to_chars 10 fileSize;
          partial = setStatus hPartialContent new_response;
          body = (if rangeLen \<le> kInlineThreshold
                  then setBodyType (case file_data fs target of
                         None \<Rightarrow> [] | Some s \<Rightarrow> take (nat rangeLen) (drop (nat start) s)) mime partial
                  else setFileBody \<lparr>file_path = target, file_offset = start, file_length = rangeLen\<rparr> mime partial)
      in file_headers etag (setHeader ''Content-Range'' contentRange body))"

definition full_response ::
  "FileSys \<Rightarrow> string \<Rightarrow> string \<Rightarrow> string \<Rightarrow> nat \<Rightarrow> int \<Rightarrow> int \<Rightarrow> ContentEntry Lru \<Rightarrow> NativeResponse \<times> ContentEntry Lru" where
  "full_response fs target mime etag fileSize lastWrite now cc =
     (if \<not> isTextMime mime
      then (file_headers etag (setFileBody \<lparr>file_path = target, file_offset = 0, file_length = int fileSize\<rparr> mime
              (setStatus hOk new_response)), cc)
      else case file_data fs target of
             None \<Rightarrow> (serverError, cc)
           | Some s \<Rightarrow>
               let content = take fileSize s in
               if content = [] then (serverError, cc)
               else let cc1 = (if fileSize \<le> kMaxCachedFile
                               then content_insert \<lparr>ce_key = target, ce_content = content, ce_etag = etag,
                                      ce_mtimeNs = lastWrite, ce_cachedAt = now\<rparr> cc
                               else cc)
                    in (file_headers etag (setBodyType content mime (setStatus hOk new_response)), cc1))"

definition serve_file ::
  "nat \<Rightarrow> FileSys \<Rightarrow> int \<Rightarrow> 'v HttpRequest \<Rightarrow> string \<Rightarrow> ContentEntry Lru \<Rightarrow> NativeResponse \<times> ContentEntry Lru" where
  "serve_file maxFileSize fs now req target cc =
     (let mime = mimeType (extension target) in
      case fs_file_size fs target of
        None \<Rightarrow> (serverError, cc)
      | Some fileSize \<Rightarrow>
          if fileSize > maxFileSize
          then (setBodyType ''413 File Too Large'' ''text/plain'' (setStatus hPayloadTooLarge new_response), cc)
          else (case fs_last_write_time fs target of
                  None \<Rightarrow> (serverError, cc)
                | Some lastWrite \<Rightarrow>
                    let etag = makeEtag fileSize lastWrite; ifNoneMatch = rq_header req ''If-None-Match'';
                        rangeHeader = rq_header req ''Range''; ifRange = rq_header req ''If-Range'';
                        full = full_response fs target mime etag fileSize lastWrite now cc
                    in if ifNoneMatch \<noteq> [] \<and> ifNoneMatch = etag then (not_modified etag, cc)
                       else if rangeHeader \<noteq> [] \<and> (ifRange = [] \<or> ifRange = etag)
                       then (case parseByteRange rangeHeader (int fileSize) of
                               (None, False) \<Rightarrow> (rangeNotSatisfiable fileSize, cc)
                             | (Some rng, _) \<Rightarrow> (range_response fs target mime etag fileSize rng, cc)
                             | (None, True) \<Rightarrow> full)
                       else full))"

definition serve_target ::
  "nat \<Rightarrow> FileSys \<Rightarrow> int \<Rightarrow> 'v HttpRequest \<Rightarrow> string \<Rightarrow> ContentEntry Lru \<Rightarrow> NativeResponse \<times> ContentEntry Lru" where
  "serve_target maxFileSize fs now req target cc =
     (let mime = mimeType (extension target) in
      if isTextMime mime \<and> rq_header req ''Range'' = []
      then (case content_lookup target fs now cc of
              (Some e, cc1) \<Rightarrow> (cached_response req mime e, cc1)
            | (None, cc1) \<Rightarrow> serve_file maxFileSize fs now req target cc1)
      else serve_file maxFileSize fs now req target cc)"

text \<open>The handler for a directory that exists; \<open>root\<close> is its canonical path.\<close>

definition static_handler ::
  "string \<Rightarrow> string \<Rightarrow> nat \<Rightarrow> FileSys \<Rightarrow> int \<Rightarrow> 'v HttpRequest \<Rightarrow> StaticCaches \<Rightarrow> NativeResponse \<times> StaticCaches" where
  "static_handler root urlPrefix maxFileSize fs now req st =
     (case resolve_path root (relative_path urlPrefix (rq_path req)) fs now (path_cache st) of
        (None, pc) \<Rightarrow> (notFound, st\<lparr>path_cache := pc\<rparr>)
      | (Some target, pc) \<Rightarrow>
          let st1 = st\<lparr>path_cache := pc\<rparr> in
          if \<not> isSafePath root target
          then (setBodyType ''403 Forbidden'' ''text/plain'' (setStatus hForbidden new_response), st1)
          else (case select_file root fs target of
                  None \<Rightarrow> (notFound, st1)
                | Some t \<Rightarrow>
                    (case serve_target maxFileSize fs now req t (content_cache st1) of
                       (res, cc) \<Rightarrow> (res, st1\<lparr>content_cache := cc\<rparr>))))"

definition serveStatic ::
  "string option \<Rightarrow> string \<Rightarrow> nat \<Rightarrow> FileSys \<Rightarrow> int \<Rightarrow> 'v HttpRequest \<Rightarrow> StaticCaches \<Rightarrow> NativeResponse \<times> StaticCaches" where
  "serveStatic canonicalRoot urlPrefix maxFileSize fs now req st =
     (case canonicalRoot of
        None \<Rightarrow> (notFound, st)
      | Some root \<Rightarrow> static_handler root urlPrefix maxFileSize fs now req st)"

section \<open>Reading ranges\<close>

lemma dec_value_snoc: "dec_value a (s @ [c]) = 10 * dec_value a s + (ord c - 48)"
  by (induction s arbitrary: a) simp_all

lemma decimal_to_chars: "(\<forall>c\<in>set (to_chars 10 n). is_dec c) \<and> dec_value 0 (to_chars 10 n) = n"
proof (induction "10 :: nat" n rule: to_chars.induct)
  case (1 n)
  show ?case
  proof (cases "n < 10")
    case True
    then show ?thesis by (subst (1 2) to_chars.simps) (simp add: digit_char_def is_dec_def)
  next
    case False
    then have "to_chars 10 n = to_chars 10 (n div 10) @ [digit_char (n mod 10)]" by (subst to_chars.simps) simp
    then show ?thesis using 1 False by (simp add: dec_value_snoc digit_char_def is_dec_def)
  qed
qed

lemma is_dec_sign [simp]: "\<not> is_dec (CHR ''-'')" "\<not> is_dec (CHR '','')"
  by (simp_all add: is_dec_def ord_def)

lemma to_chars_plain [simp]: "CHR ''-'' \<notin> set (to_chars 10 n)" "CHR '','' \<notin> set (to_chars 10 n)"
  using decimal_to_chars [of n] is_dec_sign by blast+

lemma from_chars_i64_number: "n < 2 ^ 63 \<Longrightarrow> from_chars_i64 (to_chars 10 n) = FcOk (int n) []"
proof -
  assume n: "n < 2 ^ 63"
  have d: "\<forall>c\<in>set (to_chars 10 n). is_dec c" "dec_value 0 (to_chars 10 n) = n" using decimal_to_chars by blast+
  then have t: "takeWhile is_dec (to_chars 10 n) = to_chars 10 n" "dropWhile is_dec (to_chars 10 n) = []"
    by (simp_all add: takeWhile_eq_all_conv dropWhile_eq_Nil_conv)
  have "hd (to_chars 10 n) \<noteq> CHR ''-''" by (metis hd_in_set to_chars_not_Nil to_chars_plain(1))
  moreover have "int n < 2 ^ 63" using n by (metis of_nat_less_iff of_nat_numeral of_nat_power)
  moreover have "- (2 ^ 63) \<le> int n" by (rule order_trans [of _ 0]) simp_all
  ultimately show ?thesis by (simp add: from_chars_i64_def t d(2))
qed

lemma clamp_range_bounds: "clamp_range n a b = Some (x, y) \<Longrightarrow> x = a \<and> 0 \<le> x \<and> x \<le> y \<and> y < n \<and> y \<le> b"
  by (auto simp: clamp_range_def Let_def split: if_splits)

lemma parsed_range_bounds: "fst (parseByteRange h n) = Some (a, b) \<Longrightarrow> 0 \<le> a \<and> a \<le> b \<and> b < n"
  by (auto simp: parseByteRange_def suffix_range_def plain_range_def Let_def
      split: if_splits option.splits from_chars.splits dest: clamp_range_bounds)

lemma parse_bytes:
  "CHR '','' \<notin> set spec \<Longrightarrow> CHR ''-'' \<notin> set l \<Longrightarrow> spec = l @ CHR ''-'' # r \<Longrightarrow>
     parseByteRange (''bytes='' @ spec) n = (if l = [] then suffix_range r n else plain_range l r n, False)"
  by (simp add: parseByteRange_def)

text \<open>
  What a header asks for. \<open>std::from_chars\<close> reads a number at the start of a text and ignores what follows it.
\<close>

definition reads_number :: "string \<Rightarrow> int \<Rightarrow> bool" where
  "reads_number s k \<longleftrightarrow> (\<exists>rest. from_chars_i64 s = FcOk k rest)"

definition range_asked :: "string \<Rightarrow> int \<Rightarrow> int \<Rightarrow> int \<Rightarrow> bool" where
  "range_asked h n a b \<longleftrightarrow> 0 \<le> a \<and> a \<le> b \<and> b < n
     \<and> (\<exists>l r. h = ''bytes='' @ l @ CHR ''-'' # r \<and> CHR '','' \<notin> set (l @ r) \<and> CHR ''-'' \<notin> set l
         \<and> (if l = [] then (\<exists>k. reads_number r k \<and> 0 < k \<and> a = max 0 (n - k) \<and> b = n - 1)
            else reads_number l a \<and> (r = [] \<and> b = n - 1 \<or> (\<exists>k. reads_number r k \<and> b = min k (n - 1)))))"

lemma reads_number_simps [simp]: "\<not> reads_number [] k"
  by (simp add: reads_number_def from_chars_i64_def)

lemma reads_number_case: "from_chars_i64 s = FcOk k rest \<Longrightarrow> reads_number s m \<longleftrightarrow> m = k" "(\<And>k rest. from_chars_i64 s \<noteq> FcOk k rest) \<Longrightarrow> \<not> reads_number s m"
  by (auto simp: reads_number_def)

lemma clamp_range_iff: "clamp_range n x y = Some (a, b) \<longleftrightarrow> a = x \<and> b = min y (n - 1) \<and> 0 \<le> a \<and> a \<le> b \<and> b < n"
  by (auto simp: clamp_range_def Let_def min_def)

lemma suffix_range_iff:
  "suffix_range r n = Some (a, b) \<longleftrightarrow> 0 \<le> a \<and> a \<le> b \<and> b < n \<and> (\<exists>k. reads_number r k \<and> 0 < k \<and> a = max 0 (n - k) \<and> b = n - 1)"
proof (cases "from_chars_i64 r")
  case (FcOk k rest)
  then have "r \<noteq> []" by (auto simp: from_chars_i64_def)
  then show ?thesis using FcOk by (auto simp: suffix_range_def reads_number_case clamp_range_iff)
qed (auto simp: suffix_range_def reads_number_case)

lemma plain_range_iff:
  "plain_range l r n = Some (a, b) \<longleftrightarrow> 0 \<le> a \<and> a \<le> b \<and> b < n
     \<and> reads_number l a \<and> (r = [] \<and> b = n - 1 \<or> (\<exists>k. reads_number r k \<and> b = min k (n - 1)))"
proof (cases "from_chars_i64 l")
  case (FcOk i rest)
  have "from_chars_i64 [] \<noteq> FcOk k rest" for k rest by (simp add: from_chars_i64_def)
  then show ?thesis using FcOk
    by (cases "from_chars_i64 r") (auto simp: plain_range_def reads_number_case clamp_range_iff)
qed (auto simp: plain_range_def reads_number_case)

lemma first_split: "x \<notin> set l \<Longrightarrow> x \<notin> set l' \<Longrightarrow> l @ x # r = l' @ x # r' \<Longrightarrow> l = l' \<and> r = r'"
  by (induction l arbitrary: l') (auto simp: Cons_eq_append_conv append_eq_Cons_conv)

lemma asked_parts:
  assumes "CHR '','' \<notin> set (l @ r)" and "CHR ''-'' \<notin> set l"
  shows "range_asked (''bytes='' @ l @ CHR ''-'' # r) n a b \<longleftrightarrow> (if l = [] then suffix_range r n else plain_range l r n) = Some (a, b)"
    (is "?L \<longleftrightarrow> ?R")
proof
  show ?R if ?L
  proof -
    from that obtain l' r' where e: "l @ CHR ''-'' # r = l' @ CHR ''-'' # r'" "CHR ''-'' \<notin> set l'" and p: "0 \<le> a" "a \<le> b" "b < n"
      "if l' = [] then (\<exists>k. reads_number r' k \<and> 0 < k \<and> a = max 0 (n - k) \<and> b = n - 1)
       else reads_number l' a \<and> (r' = [] \<and> b = n - 1 \<or> (\<exists>k. reads_number r' k \<and> b = min k (n - 1)))"
      unfolding range_asked_def same_append_eq by blast
    have "l' = l" "r' = r" using first_split [OF assms(2) e(2,1)] by simp_all
    then show ?R using p by (cases "l = []") (simp_all add: suffix_range_iff plain_range_iff)
  qed
  show ?L if ?R
    unfolding range_asked_def
    using that assms by (intro conjI exI [of _ l] exI [of _ r]) (simp_all only: suffix_range_iff plain_range_iff split: if_splits, simp_all)
qed

lemma parse_range_iff: "fst (parseByteRange h n) = Some (a, b) \<longleftrightarrow> range_asked h n a b"
proof (cases "\<exists>l r. h = ''bytes='' @ l @ CHR ''-'' # r \<and> CHR '','' \<notin> set (l @ r) \<and> CHR ''-'' \<notin> set l")
  case True
  then obtain l r where h: "h = ''bytes='' @ l @ CHR ''-'' # r" "CHR '','' \<notin> set (l @ r)" "CHR ''-'' \<notin> set l" by blast
  then have "fst (parseByteRange h n) = (if l = [] then suffix_range r n else plain_range l r n)" using parse_bytes [of "l @ CHR ''-'' # r" l r n] by simp
  then show ?thesis using asked_parts [OF h(2,3)] unfolding h(1) by simp
next
  case False
  have "fst (parseByteRange h n) = None"
  proof (rule ccontr)
    assume ne: "fst (parseByteRange h n) \<noteq> None"
    have p: "take 6 h = ''bytes=''" "CHR '','' \<notin> set (drop 6 h)" "find_char (CHR ''-'') (drop 6 h) \<noteq> None"
    proof -
      show t: "take 6 h = ''bytes=''" by (rule ccontr) (use ne in \<open>simp add: parseByteRange_def\<close>)
      show c: "CHR '','' \<notin> set (drop 6 h)" by (rule ccontr) (use ne t in \<open>simp add: parseByteRange_def Let_def del: not_None_eq split: if_splits\<close>)
      show "find_char (CHR ''-'') (drop 6 h) \<noteq> None" by (rule notI) (use ne t in \<open>simp add: parseByteRange_def Let_def del: find_char_None not_None_eq split: if_splits\<close>)
    qed
    from p(3) obtain l r where d: "drop 6 h = l @ CHR ''-'' # r" "CHR ''-'' \<notin> set l" using find_char_Some by blast
    have "h = ''bytes='' @ l @ CHR ''-'' # r" using append_take_drop_id [of 6 h] unfolding p(1) d(1) by (rule sym)
    moreover have "CHR '','' \<notin> set (l @ r)" using p(2) d(1) by simp
    ultimately show False using False d(2) by blast
  qed
  moreover have "\<not> range_asked h n a b" using False unfolding range_asked_def by blast
  ultimately show ?thesis by simp
qed

text \<open>
  C29. A range request means what its header says. A range is accepted exactly when the header is
  \<open>bytes=\<close>, two texts with a dash between them and no comma, and the numbers that \<open>std::from_chars\<close> reads
  at the start of the texts (what follows a number is ignored) describe a range that
  starts inside the file: from the first number to the second or the end; to the end if the second text is
  empty; the last \<open>k\<close> bytes, or the whole file, if the first is. So an accepted range always lies inside the file and is not empty.
  In particular the three forms of HTTP with decimal numbers mean what HTTP says: \<open>bytes=i-j\<close>, \<open>bytes=i-\<close> and \<open>bytes=-k\<close>.
\<close>

theorem range_exact:
  assumes "i < 2 ^ 63" and "j < 2 ^ 63"
  shows "(fst (parseByteRange h n) = Some (a, b) \<longleftrightarrow> range_asked h n a b) \<and> (fst (parseByteRange h n) = Some (a, b) \<longrightarrow> 0 \<le> a \<and> a \<le> b \<and> b < n)
    \<and> parseByteRange (''bytes='' @ to_chars 10 i @ ''-'' @ to_chars 10 j) (int m)
        = (if i \<le> j \<and> i < m then Some (int i, min (int j) (int m - 1)) else None, False)
    \<and> parseByteRange (''bytes='' @ to_chars 10 i @ ''-'') (int m) = (if i < m then Some (int i, int m - 1) else None, False)
    \<and> parseByteRange (''bytes=-'' @ to_chars 10 j) (int m) = (if 0 < j \<and> 0 < m then Some (int (m - j), int m - 1) else None, False)"
proof (intro conjI impI)
  show "fst (parseByteRange h n) = Some (a, b) \<longleftrightarrow> range_asked h n a b" by (rule parse_range_iff)
  show "0 \<le> a" "a \<le> b" "b < n" if "fst (parseByteRange h n) = Some (a, b)" using parsed_range_bounds [OF that] by simp_all
  note f = from_chars_i64_number [OF assms(1)] from_chars_i64_number [OF assms(2)]
  show "parseByteRange (''bytes='' @ to_chars 10 i @ ''-'' @ to_chars 10 j) (int m)
      = (if i \<le> j \<and> i < m then Some (int i, min (int j) (int m - 1)) else None, False)"
    by (subst parse_bytes [of _ "to_chars 10 i" "to_chars 10 j"]) (auto simp: plain_range_def f clamp_range_def)
  show "parseByteRange (''bytes='' @ to_chars 10 i @ ''-'') (int m) = (if i < m then Some (int i, int m - 1) else None, False)"
    by (subst parse_bytes [of _ "to_chars 10 i" "[]"]) (auto simp: plain_range_def f clamp_range_def)
  have "''bytes=-'' @ to_chars 10 j = ''bytes='' @ ''-'' @ to_chars 10 j" by simp
  then show "parseByteRange (''bytes=-'' @ to_chars 10 j) (int m) = (if 0 < j \<and> 0 < m then Some (int (m - j), int m - 1) else None, False)"
    by (simp only:) (subst parse_bytes [of _ "[]" "to_chars 10 j"], auto simp: suffix_range_def f clamp_range_def)
qed

theorem range_exact_witness: "parseByteRange ''bytes=2-5'' 4 = (Some (2, 3), False)"
proof -
  have t: "to_chars 10 2 = ''2''" "to_chars 10 5 = ''5''" by (subst to_chars.simps, simp add: digit_char_def, code_simp)+
  show ?thesis using range_exact [of 2 5 "[]" 0 0 0 4] unfolding t by simp
qed

section \<open>Canonical paths\<close>

definition name_ok :: "string \<Rightarrow> bool" where
  "name_ok n \<longleftrightarrow> n \<noteq> [] \<and> CHR ''/'' \<notin> set n \<and> n \<noteq> ''.'' \<and> n \<noteq> ''..''"

definition abs_path :: "string list \<Rightarrow> string" where
  "abs_path ns = (if ns = [] then ''/'' else concat (map (Cons (CHR ''/'')) ns))"

text \<open>
  What the proofs use of \<open>fs::canonical\<close>: its result is an absolute path without dots and double slashes.
  That the path is free of symbolic links, and that the file system may change between the check and the
  opening of the file or during the 60 seconds a path is cached, is not expressed: confinement is what
  the code checks, the position of the canonical name below the root.
\<close>

definition canonical_path :: "string \<Rightarrow> bool" where
  "canonical_path p \<longleftrightarrow> (\<exists>ns. list_all name_ok ns \<and> p = abs_path ns)"

definition fs_ok :: "FileSys \<Rightarrow> bool" where
  "fs_ok fs \<longleftrightarrow> (\<forall>p t. fs_canonical fs p = Some t \<longrightarrow> canonical_path t)"

lemma split_name: "CHR ''/'' \<notin> set n \<Longrightarrow> slash_split n = [n]"
  by (induction n) auto

lemma split_name_slash: "CHR ''/'' \<notin> set n \<Longrightarrow> slash_split (n @ CHR ''/'' # s) = n # slash_split s"
  by (induction n) auto

lemma split_names: "list_all name_ok ns \<Longrightarrow> ns \<noteq> [] \<Longrightarrow> slash_split (concat (map (Cons (CHR ''/'')) ns)) = [] # ns"
proof (induction ns)
  case (Cons n ns)
  show ?case
  proof (cases ns)
    case Nil
    then show ?thesis using Cons.prems by (simp add: split_name name_ok_def)
  next
    case (Cons m ms)
    then have "slash_split (concat (map (Cons (CHR ''/'')) ns)) = [] # ns" using Cons.IH Cons.prems by simp
    then have "slash_split (m @ concat (map (Cons (CHR ''/'')) ms)) = ns" using Cons by simp
    then show ?thesis using Cons.prems Cons by (simp add: split_name_slash name_ok_def)
  qed
qed simp

lemma last_names: "list_all name_ok ns \<Longrightarrow> ns \<noteq> [] \<Longrightarrow> last (concat (map (Cons (CHR ''/'')) ns)) \<noteq> CHR ''/''"
proof (induction ns)
  case (Cons n ns)
  then show ?case
  proof (cases ns)
    case Nil
    then show ?thesis using Cons.prems by (auto simp: name_ok_def dest: last_in_set)
  next
    case (Cons m ms)
    then show ?thesis using Cons.IH Cons.prems by (auto simp: last_append)
  qed
qed simp

lemma path_parts_abs: "list_all name_ok ns \<Longrightarrow> path_parts (abs_path ns) = ''/'' # ns"
proof (cases "ns = []")
  case False
  assume ok: "list_all name_ok ns"
  have "filter (\<lambda>n. n \<noteq> []) ns = ns" using ok by (auto simp: list_all_iff name_ok_def filter_id_conv)
  moreover have "concat (map (Cons (CHR ''/'')) ns) \<noteq> []" "hd (concat (map (Cons (CHR ''/'')) ns)) = CHR ''/''"
    using False by (cases ns; simp)+
  ultimately show ?thesis using False split_names [OF ok] last_names [OF ok] by (simp add: path_parts_def abs_path_def Let_def)
qed (simp add: path_parts_def abs_path_def)

lemma safe_parts_prefix: "safe_parts rs ts \<longleftrightarrow> (\<exists>us. ts = rs @ us)"
  by (induction rs ts rule: safe_parts.induct) auto

lemma isSafePath_below:
  assumes "list_all name_ok rs" and "canonical_path t" and "isSafePath (abs_path rs) t"
  shows "\<exists>us. list_all name_ok us \<and> t = abs_path (rs @ us)"
proof -
  obtain ts where ts: "list_all name_ok ts" "t = abs_path ts" using assms(2) by (auto simp: canonical_path_def)
  then obtain us where "ts = rs @ us"
    using assms(1,3) by (auto simp: isSafePath_def path_parts_abs safe_parts_prefix)
  then show ?thesis using ts by auto
qed

section \<open>The caches\<close>

definition cached_from :: "FileSys set \<Rightarrow> ContentEntry \<Rightarrow> bool" where
  "cached_from F e \<longleftrightarrow> (\<exists>fs\<in>F. \<exists>s n. file_data fs (ce_key e) = Some s \<and> ce_content e = take n s)"

text \<open>No iterator dangles, and the entries are what the file systems said.\<close>

definition caches_ok :: "FileSys set \<Rightarrow> StaticCaches \<Rightarrow> bool" where
  "caches_ok F st \<longleftrightarrow> lru_ok pe_key (path_cache st) \<and> lru_ok ce_key (content_cache st)
     \<and> (\<forall>e\<in>snd ` set (lru_nodes (path_cache st)). canonical_path (pe_canonical e))
     \<and> (\<forall>e\<in>snd ` set (lru_nodes (content_cache st)). cached_from F e)"

lemma caches_ok_mono: "caches_ok F st \<Longrightarrow> F \<subseteq> G \<Longrightarrow> caches_ok G st"
  unfolding caches_ok_def cached_from_def by blast

lemma new_caches_ok [simp]: "caches_ok F new_caches"
  by (simp add: caches_ok_def new_caches_def lru_empty_def lru_ok_def)

lemma lru_nodes_subset:
  "set (lru_nodes (lru_splice i c)) = set (lru_nodes c)" "set (lru_nodes (lru_evict key c)) \<subseteq> set (lru_nodes c)"
  "set (lru_nodes (node_erase i (index_erase k c))) \<subseteq> set (lru_nodes c)" "lru_nodes (index_emplace k c) = lru_nodes c"
  "snd ` set (lru_nodes (lru_push_front e c)) = insert e (snd ` set (lru_nodes c))"
  by (auto simp: lru_splice_def lru_evict_def index_erase_def node_erase_def index_emplace_def lru_push_front_def dest: in_set_butlastD)

lemma deref_mem: "lru_deref i c = Some e \<Longrightarrow> e \<in> snd ` set (lru_nodes c)"
  by (force simp: lru_deref_def dest: map_of_SomeD)

text \<open>Insertion into either cache: an eviction when the map is full, a new front node, and \<open>emplace\<close>.\<close>

lemma insert_keeps:
  assumes "lru_ok key c" and "\<forall>x\<in>snd ` set (lru_nodes c). P x" and "P e"
  shows "lru_ok key (index_emplace (key e) (lru_push_front e (if full then lru_evict key c else c)))
    \<and> (\<forall>x\<in>snd ` set (lru_nodes (index_emplace (key e) (lru_push_front e (if full then lru_evict key c else c)))). P x)"
  using assms lru_nodes_subset(2) [of key c] by (auto simp: lru_nodes_subset(4,5) intro!: lru_ok_emplace)

lemma resolve_path_ok:
  assumes "fs_ok fs" and "lru_ok pe_key pc" and "\<forall>e\<in>snd ` set (lru_nodes pc). canonical_path (pe_canonical e)"
    and "resolve_path root rel fs now pc = (r, pc')"
  shows "lru_ok pe_key pc' \<and> (\<forall>e\<in>snd ` set (lru_nodes pc'). canonical_path (pe_canonical e))
    \<and> (\<forall>t. r = Some t \<longrightarrow> canonical_path t)"
proof (cases "path_lookup (root @ CHR 0x01 # rel) now pc")
  case (Some x)
  then obtain i e where i: "lru_deref i pc = Some e" "x = (pe_canonical e, lru_splice i pc)"
    by (auto simp: path_lookup_def split: option.splits if_splits)
  then show ?thesis using assms Some deref_mem [OF i(1)]
    by (auto simp: resolve_path_def Let_def lru_nodes_subset(1))
next
  case None
  have can: "fs_canonical fs p = Some t \<Longrightarrow> canonical_path t" for p t using assms(1) by (auto simp: fs_ok_def)
  show ?thesis
  proof (cases "fs_canonical fs (path_append root rel)")
    case (Some t)
    let ?e = "\<lparr>pe_key = root @ CHR 0x01 # rel, pe_canonical = t, pe_cachedAt = now\<rparr>"
    have "r = Some t" "pc' = path_insert (root @ CHR 0x01 # rel) t now pc"
      using assms(4) None Some by (simp_all add: resolve_path_def)
    then show ?thesis
      using can [OF Some] insert_keeps [OF assms(2), of "\<lambda>e. canonical_path (pe_canonical e)" ?e "length (lru_index pc) \<ge> kPathEntries"] assms(3)
      by (simp add: path_insert_def Let_def)
  qed (use assms None in \<open>simp add: resolve_path_def\<close>)
qed

lemma content_lookup_ok:
  assumes "lru_ok ce_key cc" and "\<forall>e\<in>snd ` set (lru_nodes cc). cached_from F e"
    and "content_lookup t fs now cc = (r, cc')"
  shows "lru_ok ce_key cc' \<and> (\<forall>e\<in>snd ` set (lru_nodes cc'). cached_from F e)
    \<and> (\<forall>e. r = Some e \<longrightarrow> cached_from F e \<and> ce_key e = t)"
proof (cases "lru_find t cc")
  case (Some i)
  obtain e where e: "lru_deref i cc = Some e" "ce_key e = t" using lru_ok_deref [OF assms(1) Some] by blast
  let ?up = "lru_assign i (\<lambda>e. e\<lparr>ce_cachedAt := now\<rparr>) cc"
  have "lru_ok ce_key ?up" by (rule lru_ok_assign [OF assms(1)]) simp
  moreover have "\<forall>x\<in>set (lru_nodes ?up). cached_from F (snd x)"
    using assms(2) by (fastforce simp: lru_assign_def cached_from_def split: if_splits)
  ultimately show ?thesis
    using assms Some e deref_mem [OF e(1)] lru_ok_erase [OF assms(1) Some] lru_nodes_subset(3) [of i t cc]
    by (auto simp: content_lookup_def lru_nodes_subset(1) split: if_splits)
qed (use assms in \<open>auto simp: content_lookup_def\<close>)

section \<open>What a response carries\<close>

definition carries :: "FileSys set \<Rightarrow> string \<Rightarrow> NativeResponse \<Rightarrow> bool" where
  "carries F t res \<longleftrightarrow>
     (case fileBody res of
        Some fb \<Rightarrow> file_path fb = t
      | None \<Rightarrow> res_body res = [] \<or> (\<exists>fs\<in>F. \<exists>s n m. file_data fs t = Some s \<and> res_body res = take n (drop m s)))"

definition is_data :: "NativeResponse \<Rightarrow> bool" where
  "is_data res \<longleftrightarrow> res_status res = hOk \<or> res_status res = hPartialContent"

lemma header_frame [simp]:
  "res_status (setHeader n v r) = res_status r" "fileBody (setHeader n v r) = fileBody r" "res_body (setHeader n v r) = res_body r"
  by (simp_all add: setHeader_def set_field_def)

lemma file_headers_frame [simp]:
  "res_status (file_headers e r) = res_status r" "fileBody (file_headers e r) = fileBody r" "res_body (file_headers e r) = res_body r"
  by (simp_all add: file_headers_def)

lemma prepare_frame [simp]:
  "res_status (preparePayload r) = res_status r" "fileBody (preparePayload r) = fileBody r" "res_body (preparePayload r) = res_body r"
  by (simp_all add: preparePayload_def set_field_def erase_field_def Let_def split: option.splits)

lemma new_frame [simp]:
  "fileBody (setStatus c new_response) = None" "res_body (setStatus c new_response) = []" "res_status (setStatus c r) = c"
  by (simp_all add: setStatus_def invalidatePayload_def new_response_def)

lemma body_frame [simp]:
  "res_status (setBodyType b ct r) = res_status r" "fileBody (setBodyType b ct r) = fileBody r"
  "res_body (setBodyType b ct r) = (if containsCRLF ct then res_body r else b)"
  by (simp_all add: setBodyType_def set_field_def invalidatePayload_def)

lemma file_frame [simp]:
  "res_status (setFileBody f ct r) = res_status r" "fileBody (setFileBody f ct r) = (if containsCRLF ct then fileBody r else Some f)"
  "res_body (setFileBody f ct r) = (if containsCRLF ct then res_body r else [])"
  by (simp_all add: setFileBody_def set_field_def invalidatePayload_def)

lemma answers_no_data [simp]: "\<not> is_data notFound" "\<not> is_data serverError" "\<not> is_data (rangeNotSatisfiable n)" "\<not> is_data (not_modified e)"
  by (simp_all add: is_data_def notFound_def serverError_def rangeNotSatisfiable_def not_modified_def)

lemma carries_body:
  "fs \<in> F \<Longrightarrow> file_data fs t = Some s \<Longrightarrow> fileBody res = None \<Longrightarrow> res_body res = [] \<or> res_body res = take n s \<Longrightarrow> carries F t res"
proof -
  assume a: "fs \<in> F" "file_data fs t = Some s" "fileBody res = None" "res_body res = [] \<or> res_body res = take n s"
  have "take n s = take n (drop 0 s)" by simp
  then have "res_body res = [] \<or> (\<exists>fs\<in>F. \<exists>s n m. file_data fs t = Some s \<and> res_body res = take n (drop m s))"
    using a(1,2,4) by metis
  then show ?thesis using a(3) by (simp add: carries_def)
qed

lemma cached_carries: "cached_from F e \<Longrightarrow> carries F (ce_key e) (cached_response req mime e)"
proof -
  assume "cached_from F e"
  then obtain fs s n where s: "fs \<in> F" "file_data fs (ce_key e) = Some s" "ce_content e = take n s"
    by (auto simp: cached_from_def)
  have "res_body (cached_response req mime e) = [] \<or> res_body (cached_response req mime e) = ce_content e"
    "fileBody (cached_response req mime e) = None"
    by (simp_all add: cached_response_def not_modified_def Let_def)
  then show ?thesis using carries_body [OF s(1,2)] s(3) by simp
qed

lemma range_carries: "fs \<in> F \<Longrightarrow> carries F t (range_response fs t mime etag n rng)"
  by (auto simp: carries_def range_response_def Let_def split: option.splits)

lemma full_ok:
  assumes "fs \<in> F" and "lru_ok ce_key cc" and "\<forall>e\<in>snd ` set (lru_nodes cc). cached_from F e"
    and "full_response fs t mime etag n lw now cc = (res, cc')"
  shows "lru_ok ce_key cc' \<and> (\<forall>e\<in>snd ` set (lru_nodes cc'). cached_from F e) \<and> (is_data res \<longrightarrow> carries F t res)"
proof (cases "file_data fs t")
  case (Some s)
  have ins: "lru_ok ce_key (content_insert e cc) \<and> (\<forall>x\<in>snd ` set (lru_nodes (content_insert e cc)). cached_from F x)"
    if "cached_from F e" for e
    using insert_keeps [OF assms(2,3) that, of "length (lru_index cc) \<ge> kContentEntries"] by (simp add: content_insert_def Let_def)
  have c: "cached_from F \<lparr>ce_key = t, ce_content = take n s, ce_etag = etag, ce_mtimeNs = lw, ce_cachedAt = now\<rparr>"
    using assms(1) Some by (auto simp: cached_from_def)
  have b: "carries F t (file_headers etag (setBodyType (take n s) mime (setStatus hOk new_response)))"
    by (rule carries_body [OF assms(1) Some, of _ n]) simp_all
  have f: "carries F t (file_headers etag (setFileBody \<lparr>file_path = t, file_offset = 0, file_length = int n\<rparr> mime (setStatus hOk new_response)))"
    by (simp add: carries_def)
  show ?thesis using assms(2-4) Some ins [OF c] b f by (auto simp: full_response_def Let_def split: if_splits)
qed (use assms in \<open>auto simp: full_response_def Let_def carries_def split: if_splits\<close>)

lemma serve_file_ok:
  assumes "fs \<in> F" and "lru_ok ce_key cc" and "\<forall>e\<in>snd ` set (lru_nodes cc). cached_from F e"
    and "serve_file mx fs now req t cc = (res, cc')"
  shows "lru_ok ce_key cc' \<and> (\<forall>e\<in>snd ` set (lru_nodes cc'). cached_from F e) \<and> (is_data res \<longrightarrow> carries F t res)"
proof -
  have "is_data (setBodyType b ct (setStatus hPayloadTooLarge new_response)) = False" for b ct by (simp add: is_data_def)
  then show ?thesis using assms full_ok [OF assms(1-3)] range_carries [OF assms(1)]
    unfolding serve_file_def Let_def
    by (auto split: option.splits if_splits prod.splits bool.splits)
qed

lemma serve_target_ok:
  assumes "fs \<in> F" and "lru_ok ce_key cc" and "\<forall>e\<in>snd ` set (lru_nodes cc). cached_from F e"
    and "serve_target mx fs now req t cc = (res, cc')"
  shows "lru_ok ce_key cc' \<and> (\<forall>e\<in>snd ` set (lru_nodes cc'). cached_from F e) \<and> (is_data res \<longrightarrow> carries F t res)"
proof (cases "isTextMime (mimeType (extension t)) \<and> rq_header req ''Range'' = []")
  case True
  obtain r cc1 where l: "content_lookup t fs now cc = (r, cc1)" by fastforce
  note lk = content_lookup_ok [OF assms(2,3) l]
  show ?thesis
  proof (cases r)
    case None
    then show ?thesis using serve_file_ok [OF assms(1), of cc1] lk assms(4) True l by (simp add: serve_target_def)
  next
    case (Some e)
    then show ?thesis using lk assms(4) True l cached_carries [of F e] by (auto simp: serve_target_def)
  qed
next
  case False
  then have "serve_file mx fs now req t cc = (res, cc')" using assms(4) by (auto simp: serve_target_def)
  then show ?thesis by (rule serve_file_ok [OF assms(1-3)])
qed

section \<open>Sequences of requests\<close>

text \<open>A request with the handler it goes to, and what the file system answers meanwhile.\<close>

record 'v StaticCall =
  sc_root :: "string option"
  sc_prefix :: string
  sc_maxFileSize :: nat
  sc_fs :: FileSys
  sc_now :: int
  sc_req :: "'v HttpRequest"

definition static_call :: "'v StaticCall \<Rightarrow> StaticCaches \<Rightarrow> NativeResponse \<times> StaticCaches" where
  "static_call x = serveStatic (sc_root x) (sc_prefix x) (sc_maxFileSize x) (sc_fs x) (sc_now x) (sc_req x)"

fun static_calls :: "'v StaticCall list \<Rightarrow> StaticCaches \<Rightarrow> NativeResponse list \<times> StaticCaches" where
  "static_calls [] st = ([], st)"
| "static_calls (x # xs) st =
     (case static_call x st of (res, st1) \<Rightarrow> (case static_calls xs st1 of (rs, st2) \<Rightarrow> (res # rs, st2)))"

definition call_ok :: "'v StaticCall \<Rightarrow> bool" where
  "call_ok x \<longleftrightarrow> fs_ok (sc_fs x) \<and> (\<forall>r. sc_root x = Some r \<longrightarrow> canonical_path r)"

text \<open>The file is below the root the handler was made for.\<close>

definition confined :: "FileSys set \<Rightarrow> string option \<Rightarrow> NativeResponse \<Rightarrow> bool" where
  "confined F root res \<longleftrightarrow> (is_data res \<longrightarrow>
     (\<exists>rs us. root = Some (abs_path rs) \<and> list_all name_ok (rs @ us) \<and> carries F (abs_path (rs @ us)) res))"

lemma select_file_ok:
  assumes "fs_ok fs" and "canonical_path t" and "isSafePath root t" and "select_file root fs t = Some f"
  shows "canonical_path f \<and> isSafePath root f"
  using assms by (auto simp: select_file_def fs_ok_def Let_def split: if_splits option.splits)

lemma static_call_ok:
  assumes "call_ok x" and "sc_fs x \<in> F" and "caches_ok F st" and "static_call x st = (res, st')"
  shows "caches_ok F st' \<and> confined F (sc_root x) res"
proof (cases "sc_root x")
  case None
  then show ?thesis using assms by (auto simp: static_call_def serveStatic_def confined_def)
next
  case (Some root)
  let ?fs = "sc_fs x"
  obtain rs where rs: "list_all name_ok rs" "root = abs_path rs" using assms(1) Some by (auto simp: call_ok_def canonical_path_def)
  have fs: "fs_ok ?fs" using assms(1) by (simp add: call_ok_def)
  obtain r pc where p: "resolve_path root (relative_path (sc_prefix x) (rq_path (sc_req x))) ?fs (sc_now x) (path_cache st) = (r, pc)"
    by fastforce
  have st: "lru_ok pe_key (path_cache st)" "\<forall>e\<in>snd ` set (lru_nodes (path_cache st)). canonical_path (pe_canonical e)"
    "lru_ok ce_key (content_cache st)" "\<forall>e\<in>snd ` set (lru_nodes (content_cache st)). cached_from F e"
    using assms(3) by (simp_all add: caches_ok_def)
  note rp = resolve_path_ok [OF fs st(1,2) p]
  have st1: "caches_ok F (st\<lparr>path_cache := pc\<rparr>)" using rp st(3,4) by (simp add: caches_ok_def)
  have nd: "confined F root' notFound" "confined F root' (setBodyType b ct (setStatus hForbidden new_response))" for root' b ct
    by (simp_all add: confined_def is_data_def notFound_def)
  note call = assms(4) [unfolded static_call_def serveStatic_def Some option.case static_handler_def p prod.case]
  show ?thesis
  proof (cases "\<exists>t f. r = Some t \<and> isSafePath root t \<and> select_file root ?fs t = Some f")
    case True
    then obtain t f where f: "r = Some t" "isSafePath root t" "select_file root ?fs t = Some f" by blast
    obtain res1 cc where s: "serve_target (sc_maxFileSize x) ?fs (sc_now x) (sc_req x) f (content_cache st) = (res1, cc)" by fastforce
    have r: "res = res1" "st' = st\<lparr>path_cache := pc, content_cache := cc\<rparr>" using call f s by (simp_all add: Let_def)
    have "canonical_path f" "isSafePath (abs_path rs) f" using select_file_ok [OF fs _ f(2,3)] rp f(1) rs(2) by auto
    then obtain us where us: "list_all name_ok us" "f = abs_path (rs @ us)" using isSafePath_below [OF rs(1)] by blast
    note so = serve_target_ok [OF assms(2) st(3,4) s]
    have "caches_ok F st'" using so st1 r(2) by (simp add: caches_ok_def)
    moreover have "confined F (sc_root x) res" using so us rs r(1) Some unfolding confined_def by auto
    ultimately show ?thesis by blast
  next
    case False
    then show ?thesis using call nd st1 by (auto simp: Let_def Some split: option.splits if_splits)
  qed
qed

lemma static_calls_ok:
  assumes "list_all call_ok xs" and "sc_fs ` set xs \<subseteq> F" and "caches_ok F st" and "static_calls xs st = (rs, st')"
  shows "caches_ok F st' \<and> list_all2 (\<lambda>x res. confined F (sc_root x) res) xs rs"
  using assms
proof (induction xs arbitrary: st rs)
  case (Cons x xs)
  obtain res st1 where c: "static_call x st = (res, st1)" by fastforce
  obtain rs1 where r: "static_calls xs st1 = (rs1, st')" "rs = res # rs1" using Cons.prems(4) c by (auto split: prod.splits)
  have "caches_ok F st1 \<and> confined F (sc_root x) res" using static_call_ok [OF _ _ Cons.prems(3) c] Cons.prems(1,2) by simp
  then show ?case using Cons.IH [of st1 rs1] Cons.prems r by simp
qed simp

section \<open>Growth of the caches\<close>

text \<open>\<open>emplace\<close> leaves the map as it is when the key is known, and the new node stays in the list.\<close>

lemma insert_known:
  assumes "lru_index c = [(k, i)]" and "1 < m"
  shows "index_emplace k (lru_push_front e (if length (lru_index c) \<ge> m then lru_evict key c else c)) = lru_push_front e c"
  using assms by (simp add: index_emplace_def lru_push_front_def)

fun resolve_all :: "string \<Rightarrow> string \<Rightarrow> FileSys \<Rightarrow> int list \<Rightarrow> PathEntry Lru \<Rightarrow> PathEntry Lru" where
  "resolve_all root rel fs [] pc = pc"
| "resolve_all root rel fs (now # nows) pc = resolve_all root rel fs nows (snd (resolve_path root rel fs now pc))"

lemma resolve_expired:
  assumes "fs_canonical fs (path_append root rel) = Some t" and "\<forall>n\<in>set nows. n - now0 \<ge> kPathTtl"
    and "lru_index pc = [(root @ CHR 0x01 # rel, 0)]" and "\<exists>e. map_of (lru_nodes pc) 0 = Some e \<and> pe_cachedAt e = now0" and "0 < lru_next pc"
  shows "length (lru_nodes (resolve_all root rel fs nows pc)) = length (lru_nodes pc) + length nows
    \<and> lru_index (resolve_all root rel fs nows pc) = lru_index pc"
  using assms(2-)
proof (induction nows arbitrary: pc)
  case (Cons now nows)
  let ?k = "root @ CHR 0x01 # rel"
  let ?pc = "lru_push_front \<lparr>pe_key = ?k, pe_canonical = t, pe_cachedAt = now\<rparr> pc"
  have "path_lookup ?k now pc = None" using Cons.prems by (auto simp: path_lookup_def lru_find_def lru_deref_def)
  moreover have "path_insert ?k t now pc = ?pc"
    using insert_known [OF Cons.prems(2), of kPathEntries _ pe_key] by (simp add: path_insert_def Let_def kPathEntries_def)
  ultimately have r: "snd (resolve_path root rel fs now pc) = ?pc" using assms(1) by (simp add: resolve_path_def)
  have "lru_index ?pc = [(?k, 0)]" "\<exists>e. map_of (lru_nodes ?pc) 0 = Some e \<and> pe_cachedAt e = now0" "0 < lru_next ?pc"
    using Cons.prems by (auto simp: lru_push_front_def)
  from Cons.IH [OF _ this] Cons.prems(1) show ?case by (simp add: r) (simp add: lru_push_front_def)
qed simp

text \<open>The calls of one request for a text file, with a \<open>Range\<close> that asks for several ranges.\<close>

definition many_ranges :: "'v StaticCall \<Rightarrow> string \<Rightarrow> string \<Rightarrow> nat \<Rightarrow> string \<Rightarrow> bool" where
  "many_ranges x root t n s \<longleftrightarrow> sc_root x = Some root
     \<and> fs_canonical (sc_fs x) (path_append root (relative_path (sc_prefix x) (rq_path (sc_req x)))) = Some t
     \<and> isSafePath root t \<and> \<not> fs_is_directory (sc_fs x) t \<and> fs_is_regular_file (sc_fs x) t
     \<and> isTextMime (mimeType (extension t)) \<and> fs_file_size (sc_fs x) t = Some n \<and> n \<le> sc_maxFileSize x \<and> n \<le> kMaxCachedFile
     \<and> fs_last_write_time (sc_fs x) t \<noteq> None \<and> file_data (sc_fs x) t = Some s \<and> take n s \<noteq> []
     \<and> rq_header (sc_req x) ''If-None-Match'' = [] \<and> rq_header (sc_req x) ''If-Range'' = []
     \<and> rq_header (sc_req x) ''Range'' \<noteq> [] \<and> parseByteRange (rq_header (sc_req x) ''Range'') (int n) = (None, True)"

lemma resolve_same:
  assumes "\<forall>e\<in>snd ` set (lru_nodes pc). pe_canonical e = t" and "fs_canonical fs (path_append root rel) = Some t"
  shows "\<exists>pc'. resolve_path root rel fs now pc = (Some t, pc') \<and> (\<forall>e\<in>snd ` set (lru_nodes pc'). pe_canonical e = t)"
proof (cases "path_lookup (root @ CHR 0x01 # rel) now pc")
  case (Some x)
  then obtain i e where i: "lru_deref i pc = Some e" "x = (pe_canonical e, lru_splice i pc)"
    by (auto simp: path_lookup_def split: option.splits if_splits)
  then show ?thesis using assms Some deref_mem [OF i(1)] by (simp add: resolve_path_def lru_nodes_subset(1))
next
  case None
  have "\<forall>e\<in>set (lru_nodes (lru_evict pe_key pc)). pe_canonical (snd e) = t"
    using assms(1) lru_nodes_subset(2) [of pe_key pc] by auto
  then have "\<forall>e\<in>snd ` set (lru_nodes (path_insert (root @ CHR 0x01 # rel) t now pc)). pe_canonical e = t"
    using assms(1) by (auto simp: path_insert_def Let_def lru_nodes_subset(4,5))
  then show ?thesis using None assms(2) by (simp add: resolve_path_def)
qed

lemma many_ranges_call:
  assumes "many_ranges x root t n s" and "\<forall>e\<in>snd ` set (lru_nodes (path_cache st)). pe_canonical e = t"
  shows "\<exists>res pc e. static_call x st = (res, \<lparr>path_cache = pc, content_cache = content_insert e (content_cache st)\<rparr>)
     \<and> (\<forall>e\<in>snd ` set (lru_nodes pc). pe_canonical e = t) \<and> ce_key e = t \<and> ce_content e = take n s \<and> is_data res"
proof -
  let ?fs = "sc_fs x"
  obtain pc where p: "resolve_path root (relative_path (sc_prefix x) (rq_path (sc_req x))) ?fs (sc_now x) (path_cache st) = (Some t, pc)"
    "\<forall>e\<in>snd ` set (lru_nodes pc). pe_canonical e = t"
    using resolve_same [OF assms(2)] assms(1) unfolding many_ranges_def by blast
  obtain lw where lw: "fs_last_write_time ?fs t = Some lw" using assms(1) unfolding many_ranges_def by blast
  let ?e = "\<lparr>ce_key = t, ce_content = take n s, ce_etag = makeEtag n lw, ce_mtimeNs = lw, ce_cachedAt = sc_now x\<rparr>"
  have f: "serve_target (sc_maxFileSize x) ?fs (sc_now x) (sc_req x) t (content_cache st) = (res, content_insert ?e (content_cache st))"
    if "res = file_headers (makeEtag n lw) (setBodyType (take n s) (mimeType (extension t)) (setStatus hOk new_response))" for res
    using assms(1) lw that unfolding many_ranges_def serve_target_def serve_file_def full_response_def Let_def
    by (simp split: if_splits)
  have d: "is_data (file_headers a (setBodyType b c (setStatus hOk new_response)))" for a b c by (simp add: is_data_def)
  have "select_file root ?fs t = Some t" using assms(1) by (simp add: many_ranges_def select_file_def)
  then show ?thesis using assms(1) p f [OF refl] d
    by (auto simp: many_ranges_def static_call_def serveStatic_def static_handler_def Let_def intro!: exI [of _ pc] exI [of _ ?e])
qed

lemma content_grows:
  assumes "many_ranges x root t n s" and "\<forall>e\<in>snd ` set (lru_nodes (path_cache st)). pe_canonical e = t"
    and "lru_index (content_cache st) = [] \<and> lru_nodes (content_cache st) = [] \<or> (\<exists>i. lru_index (content_cache st) = [(t, i)])"
  shows "map (ce_content \<circ> snd) (lru_nodes (content_cache (snd (static_calls (replicate k x) st))))
       = replicate k (take n s) @ map (ce_content \<circ> snd) (lru_nodes (content_cache st))
    \<and> length (lru_index (content_cache (snd (static_calls (replicate k x) st)))) \<le> 1"
  using assms(2,3)
proof (induction k arbitrary: st)
  case 0
  then show ?case by auto
next
  case (Suc k)
  obtain res pc e where c: "static_call x st = (res, \<lparr>path_cache = pc, content_cache = content_insert e (content_cache st)\<rparr>)"
    "\<forall>e\<in>snd ` set (lru_nodes pc). pe_canonical e = t" "ce_key e = t" "ce_content e = take n s"
    using many_ranges_call [OF assms(1) Suc.prems(1)] by blast
  have ci: "lru_nodes (content_insert e (content_cache st)) = (lru_next (content_cache st), e) # lru_nodes (content_cache st)"
    "\<exists>i. lru_index (content_insert e (content_cache st)) = [(t, i)]"
    using Suc.prems(2) c(3) by (auto simp: content_insert_def kContentEntries_def index_emplace_def lru_push_front_def Let_def)
  from Suc.IH [of "\<lparr>path_cache = pc, content_cache = content_insert e (content_cache st)\<rparr>"] c(2) ci
  have "map (ce_content \<circ> snd) (lru_nodes (content_cache (snd (static_calls (replicate k x) \<lparr>path_cache = pc, content_cache = content_insert e (content_cache st)\<rparr>))))
       = replicate k (take n s) @ take n s # map (ce_content \<circ> snd) (lru_nodes (content_cache st))
    \<and> length (lru_index (content_cache (snd (static_calls (replicate k x) \<lparr>path_cache = pc, content_cache = content_insert e (content_cache st)\<rparr>)))) \<le> 1"
    by (simp add: c(4) o_def)
  then show ?case using c(1) by (simp add: split_def o_def replicate_app_Cons_same)
qed

section \<open>Properties\<close>

text \<open>
  C15. Nothing outside the directory is served. For every sequence of requests to handlers with their own
  directories, sharing the caches of a thread, while the file system changes between them: a response with
  the status 200 or 206 carries a part of a file, as it was at one of the requests, whose canonical path
  continues that of the handler's directory with proper names, or names such a file to be sent; this
  includes absolute paths, dots, links and directories with an index. And no iterator of the caches
  dangles.
\<close>

theorem static_confined:
  assumes "list_all call_ok xs" and "static_calls xs new_caches = (rs, st)"
  shows "list_all2 (\<lambda>x res. confined (sc_fs ` set xs) (sc_root x) res) xs rs
    \<and> (lru_find k (path_cache st) = Some i \<longrightarrow> (\<exists>e. lru_deref i (path_cache st) = Some e \<and> pe_key e = k))
    \<and> (lru_find k (content_cache st) = Some i \<longrightarrow> (\<exists>e. lru_deref i (content_cache st) = Some e \<and> ce_key e = k))"
proof -
  have "caches_ok (sc_fs ` set xs) st \<and> list_all2 (\<lambda>x res. confined (sc_fs ` set xs) (sc_root x) res) xs rs"
    by (rule static_calls_ok [OF assms(1) order_refl new_caches_ok assms(2)])
  then show ?thesis using lru_ok_deref [of pe_key "path_cache st" k i] lru_ok_deref [of ce_key "content_cache st" k i]
    by (auto simp: caches_ok_def)
qed

text \<open>
  C35. The content cache of a thread is not bounded. A request for a text file with several ranges is answered
  with the whole file and puts it into the cache, although the file may be there; the map keeps the first
  entry, so its size never reaches the limit and nothing is evicted: after \<open>k\<close> such requests the list holds
  \<open>k\<close> copies of the file.
\<close>

theorem content_cache_unbounded:
  assumes "many_ranges x root t n s"
  shows "map (ce_content \<circ> snd) (lru_nodes (content_cache (snd (static_calls (replicate k x) new_caches)))) = replicate k (take n s)
    \<and> length (lru_index (content_cache (snd (static_calls (replicate k x) new_caches)))) \<le> 1"
  using content_grows [OF assms, of new_caches k] by (simp add: new_caches_def lru_empty_def)

text \<open>
  The cache of paths grows as well: once the entry of a path has expired, every later request for that path
  adds a node and finds the expired one again.
\<close>

lemma path_cache_unbounded:
  assumes "fs_canonical fs (path_append root rel) = Some t" and "\<forall>n\<in>set nows. n - now0 \<ge> kPathTtl"
  shows "length (lru_nodes (resolve_all root rel fs (now0 # nows) lru_empty)) = Suc (length nows)"
proof -
  let ?pc = "snd (resolve_path root rel fs now0 lru_empty)"
  have "lru_index ?pc = [(root @ CHR 0x01 # rel, 0)]" "\<exists>e. map_of (lru_nodes ?pc) 0 = Some e \<and> pe_cachedAt e = now0" "0 < lru_next ?pc"
    "length (lru_nodes ?pc) = 1"
    using assms(1) by (simp_all add: resolve_path_def path_lookup_def path_insert_def lru_find_def lru_empty_def kPathEntries_def
        lru_push_front_def index_emplace_def Let_def)
  then show ?thesis using resolve_expired [OF assms(1,2), of ?pc] by simp
qed

text \<open>An empty text file is answered with an error.\<close>

lemma empty_text_file:
  "isTextMime mime \<Longrightarrow> file_data fs t = Some [] \<Longrightarrow> full_response fs t mime etag 0 lw now cc = (serverError, cc)"
  by (simp add: full_response_def)

section \<open>Witnesses\<close>

definition sample_fs :: FileSys where
  "sample_fs = \<lparr>fs_canonical = (\<lambda>p. Some ''/w/a.txt''), fs_is_directory = (\<lambda>p. False), fs_is_regular_file = (\<lambda>p. True),
     fs_file_size = (\<lambda>p. Some 2), fs_last_write_time = (\<lambda>p. Some 7), file_data = (\<lambda>p. Some ''hi'')\<rparr>"

definition sample_call :: "unit StaticCall" where
  "sample_call = \<lparr>sc_root = Some ''/w'', sc_prefix = ''/s/'', sc_maxFileSize = 10, sc_fs = sample_fs, sc_now = 0,
     sc_req = new_request\<lparr>rq_target := ''/s/a.txt'', rq_headers := [(''Range'', ''bytes=0-0,1-1'')]\<rparr>\<rparr>"

lemma sample_paths: "canonical_path ''/w''" "canonical_path ''/w/a.txt''"
proof -
  have "list_all name_ok [''w'', ''a.txt'']" "list_all name_ok [''w'']" by (simp_all add: name_ok_def)
  moreover have "''/w'' = abs_path [''w'']" "''/w/a.txt'' = abs_path [''w'', ''a.txt'']" by (simp_all add: abs_path_def)
  ultimately show "canonical_path ''/w''" "canonical_path ''/w/a.txt''" unfolding canonical_path_def by blast+
qed

lemma sample_call_ok: "call_ok sample_call"
  using sample_paths by (simp add: call_ok_def sample_call_def fs_ok_def sample_fs_def)

lemma sample_many_ranges: "many_ranges sample_call ''/w'' ''/w/a.txt'' 2 ''hi''"
proof -
  have h: "rq_header (sc_req sample_call) ''Range'' = ''bytes=0-0,1-1''" "rq_header (sc_req sample_call) ''If-None-Match'' = []"
    "rq_header (sc_req sample_call) ''If-Range'' = []"
    by (simp_all add: rq_header_def sample_call_def iequals_def)
  have e: "extension ''/w/a.txt'' = ''.txt''" by (simp add: extension_def filename_def rfind_char_def)
  have m: "isTextMime (mimeType ''.txt'')" by (simp add: mimeType_def mime_table_def isTextMime_def)
  have p: "parseByteRange ''bytes=0-0,1-1'' (int 2) = (None, True)" by (simp add: parseByteRange_def)
  have q: "isSafePath ''/w'' ''/w/a.txt''" by (simp add: isSafePath_def path_parts_def)
  show ?thesis unfolding many_ranges_def h p e using m q by (simp add: sample_call_def sample_fs_def kMaxCachedFile_def)
qed

theorem static_confined_witness:
  "is_data (fst (static_call sample_call new_caches))
   \<and> confined {sample_fs} (Some ''/w'') (fst (static_call sample_call new_caches))"
proof -
  have n: "\<forall>e\<in>snd ` set (lru_nodes (path_cache new_caches)). pe_canonical e = ''/w/a.txt''" by (simp add: new_caches_def lru_empty_def)
  have "list_all call_ok [sample_call]" using sample_call_ok by simp
  moreover obtain res st where s: "static_call sample_call new_caches = (res, st)" by fastforce
  then have "static_calls [sample_call] new_caches = ([res], st)" by simp
  ultimately have "confined {sample_fs} (Some ''/w'') res"
    using static_confined [of "[sample_call]" "[res]" st "[]" 0] by (simp add: sample_call_def)
  moreover have "is_data res" using many_ranges_call [OF sample_many_ranges n] s by auto
  ultimately show ?thesis by (simp add: s)
qed

theorem content_cache_unbounded_witness:
  "map (ce_content \<circ> snd) (lru_nodes (content_cache (snd (static_calls (replicate 1000 sample_call) new_caches)))) = replicate 1000 ''hi''"
proof -
  have "take 2 ''hi'' = ''hi''" by simp
  then show ?thesis using content_cache_unbounded [OF sample_many_ranges, of 1000] by (simp only:)
qed

end
