(* ===== verification/Timer_Service.thy ===== *)
theory Timer_Service
  imports Prelude
begin

text \<open>
  The timer service of an event loop, \<^verbatim>\<open>src/src/core/TimerService.cpp\<close>: one heap of deadlines on one
  \<open>steady_timer\<close>. The heap is the list of its nodes in the order in which \<open>pop_heap\<close> delivers them, which is
  determined because identifiers are unique. The service runs on one thread; a callback runs inside
  \<open>fireDue\<close> and may call the service again. Identifiers are counted without the wrap at \<open>2^64\<close>.
\<close>

section \<open>State\<close>

record 'cb Node =
  deadline :: int
  node_id :: nat
  callback :: "'cb option"

text \<open>
  Beside the members of the source: \<open>wait\<close> is the wait in progress on the timer of Asio, \<open>ready\<close> counts the
  completions of waits that are queued without an error. \<open>fired\<close> records identifier, deadline and time of
  every callback that ran, \<open>revoked\<close> the identifiers that were cancelled before they ran.
\<close>

record 'cb Core =
  heap :: "'cb Node list"
  cancelled :: "nat list"
  armedDeadline :: "int option"
  nextId :: nat
  inFireDue :: bool
  stopped :: bool
  wait :: "int option"
  ready :: nat
  fired :: "(nat \<times> int \<times> int) list"
  revoked :: "nat list"

definition kFirstTimerId :: nat where "kFirstTimerId = 1"
definition kInvalidId :: nat where "kInvalidId = 0"
definition kCancelledSlack :: nat where "kCancelledSlack = 256"

definition new_core :: "'cb Core" where
  "new_core = \<lparr>heap = [], cancelled = [], armedDeadline = None, nextId = kFirstTimerId, inFireDue = False, stopped = False,
     wait = None, ready = 0, fired = [], revoked = []\<rparr>"

definition earlier :: "'cb Node \<Rightarrow> 'cb Node \<Rightarrow> bool" where
  "earlier a b \<longleftrightarrow> deadline a < deadline b \<or> deadline a = deadline b \<and> node_id a < node_id b"

fun push_node :: "'cb Node \<Rightarrow> 'cb Node list \<Rightarrow> 'cb Node list" where
  "push_node n [] = [n]"
| "push_node n (m # ms) = (if earlier m n then m # push_node n ms else n # m # ms)"

section \<open>Operations\<close>

text \<open>\<open>expires_at\<close> aborts the wait in progress; its handler returns at once and is not modelled.\<close>

definition rearm :: "'cb Core \<Rightarrow> 'cb Core" where
  "rearm c =
     (if stopped c \<or> heap c = [] then c\<lparr>armedDeadline := None\<rparr>
      else let top = deadline (hd (heap c)) in
           if (case armedDeadline c of Some d \<Rightarrow> d \<le> top | None \<Rightarrow> False) then c
           else c\<lparr>armedDeadline := Some top, wait := Some top\<rparr>)"

definition schedule :: "int \<Rightarrow> 'cb option \<Rightarrow> 'cb Core \<Rightarrow> nat \<times> 'cb Core" where
  "schedule d cb c =
     (if stopped c then (kInvalidId, c)
      else let i = nextId c
           in (i, rearm (c\<lparr>nextId := Suc i, heap := push_node \<lparr>deadline = d, node_id = i, callback = cb\<rparr> (heap c)\<rparr>)))"

definition scheduleAfter :: "int \<Rightarrow> int \<Rightarrow> 'cb option \<Rightarrow> 'cb Core \<Rightarrow> nat \<times> 'cb Core" where
  "scheduleAfter now delay cb c = schedule (now + (if delay < 0 then 0 else delay)) cb c"

definition compactCancelled :: "'cb Core \<Rightarrow> 'cb Core" where
  "compactCancelled c =
     (if inFireDue c then c
      else if length (cancelled c) \<le> length (heap c) + kCancelledSlack then c
      else c\<lparr>cancelled := filter (\<lambda>i. i \<in> set (cancelled c)) (map node_id (heap c))\<rparr>)"

definition cancel :: "nat \<Rightarrow> 'cb Core \<Rightarrow> bool \<times> 'cb Core" where
  "cancel i c =
     (if stopped c \<or> i = kInvalidId \<or> i \<ge> nextId c then (False, c)
      else if i \<in> set (cancelled c) then (False, c)
      else (True, compactCancelled (c\<lparr>cancelled := i # cancelled c,
              revoked := (if i \<in> fst ` set (fired c) then revoked c else i # revoked c)\<rparr>)))"

definition shutdown :: "'cb Core \<Rightarrow> 'cb Core" where
  "shutdown c =
     (if stopped c then c
      else c\<lparr>stopped := True, armedDeadline := None, cancelled := [], heap := [], wait := None\<rparr>)"

definition pendingCount :: "'cb Core \<Rightarrow> nat" where
  "pendingCount c =
     (if cancelled c = [] then length (heap c)
      else length (filter (\<lambda>n. node_id n \<notin> set (cancelled c)) (heap c)))"

section \<open>Expiry\<close>

text \<open>What a callback does to the service, given the state it finds: a sequence of calls, and whether it throws.\<close>

datatype 'cb action = Schedule int "'cb option" | Cancel nat | Shutdown

type_synonym 'cb program = "'cb \<Rightarrow> 'cb Core \<Rightarrow> 'cb action list \<times> bool"

fun act :: "'cb action \<Rightarrow> 'cb Core \<Rightarrow> 'cb Core" where
  "act (Schedule d cb) c = snd (schedule d cb c)"
| "act (Cancel i) c = snd (cancel i c)"
| "act Shutdown c = shutdown c"

fun pop_due :: "int \<Rightarrow> 'cb Node list \<Rightarrow> 'cb Node list \<times> 'cb Node list" where
  "pop_due now [] = ([], [])"
| "pop_due now (n # ns) =
     (if deadline n \<le> now then (case pop_due now ns of (due, h) \<Rightarrow> (n # due, h)) else ([], n # ns))"

text \<open>The result is whether a callback threw.\<close>

fun fire_nodes :: "'cb program \<Rightarrow> int \<Rightarrow> 'cb Node list \<Rightarrow> 'cb Core \<Rightarrow> bool \<times> 'cb Core" where
  "fire_nodes prog now [] c = (False, c)"
| "fire_nodes prog now (n # ns) c =
     (if stopped c then (False, c)
      else if node_id n \<in> set (cancelled c)
      then fire_nodes prog now ns (c\<lparr>cancelled := removeAll (node_id n) (cancelled c)\<rparr>)
      else case callback n of
             None \<Rightarrow> fire_nodes prog now ns c
           | Some cb \<Rightarrow>
               (case prog cb c of (acts, throws) \<Rightarrow>
                  let c1 = fold act acts (c\<lparr>fired := (node_id n, deadline n, now) # fired c\<rparr>)
                  in if throws then (True, c1) else fire_nodes prog now ns c1))"

definition fireDue :: "'cb program \<Rightarrow> int \<Rightarrow> 'cb Core \<Rightarrow> 'cb Core" where
  "fireDue prog now c0 =
     (let c = c0\<lparr>armedDeadline := None\<rparr> in
      if stopped c then c
      else case pop_due now (heap c) of (due, h) \<Rightarrow>
             (case fire_nodes prog now due (c\<lparr>inFireDue := True, heap := h\<rparr>) of
                (True, c1) \<Rightarrow> c1\<lparr>inFireDue := False\<rparr>
              | (False, c1) \<Rightarrow> (rearm c1)\<lparr>inFireDue := False\<rparr>))"

section \<open>The event loop\<close>

text \<open>Time passes, the owner calls, the wait expires, a queued handler runs.\<close>

inductive tstep :: "'cb program \<Rightarrow> int \<times> 'cb Core \<Rightarrow> int \<times> 'cb Core \<Rightarrow> bool" for prog where
  pass: "now \<le> now' \<Longrightarrow> tstep prog (now, c) (now', c)"
| call: "tstep prog (now, c) (now, act a c)"
| expire: "wait c = Some d \<Longrightarrow> d \<le> now \<Longrightarrow> tstep prog (now, c) (now, c\<lparr>wait := None, ready := Suc (ready c)\<rparr>)"
| handler: "ready c = Suc n \<Longrightarrow> tstep prog (now, c) (now, fireDue prog now (c\<lparr>ready := n\<rparr>))"

definition treach :: "'cb program \<Rightarrow> int \<times> 'cb Core \<Rightarrow> bool" where
  "treach prog s \<longleftrightarrow> (\<exists>now. (tstep prog)\<^sup>*\<^sup>* (now, new_core) s)"

section \<open>Invariant\<close>

abbreviation node_ids :: "'cb Node list \<Rightarrow> nat list" where
  "node_ids \<equiv> map node_id"

text \<open>\<open>due\<close> are the nodes taken from the heap that have not been looked at.\<close>

definition nodes_ok :: "'cb Node list \<Rightarrow> 'cb Core \<Rightarrow> bool" where
  "nodes_ok due c \<longleftrightarrow> distinct (node_ids (heap c @ due)) \<and> (\<forall>i\<in>node_id ` set (heap c @ due). i < nextId c)
     \<and> sorted_wrt earlier (heap c)"

definition fired_ok :: "'cb Node list \<Rightarrow> 'cb Core \<Rightarrow> bool" where
  "fired_ok due c \<longleftrightarrow> distinct (map fst (fired c))
     \<and> (\<forall>i\<in>fst ` set (fired c). i < nextId c \<and> i \<notin> node_id ` set (heap c @ due))
     \<and> list_all (\<lambda>(i, d, t). d \<le> t) (fired c)"

definition revoked_ok :: "'cb Node list \<Rightarrow> 'cb Core \<Rightarrow> bool" where
  "revoked_ok due c \<longleftrightarrow> (\<forall>i\<in>set (revoked c). i < nextId c \<and> i \<notin> fst ` set (fired c)
     \<and> (stopped c \<or> (i \<in> node_id ` set (heap c @ due) \<longrightarrow> i \<in> set (cancelled c))))"

definition timer_inv :: "'cb Node list \<Rightarrow> 'cb Core \<Rightarrow> bool" where
  "timer_inv due c \<longleftrightarrow> nodes_ok due c \<and> fired_ok due c \<and> revoked_ok due c
     \<and> (stopped c \<longrightarrow> heap c = []) \<and> (due \<noteq> [] \<longrightarrow> inFireDue c)"

lemmas inv_defs = timer_inv_def nodes_ok_def fired_ok_def revoked_ok_def

lemma set_push_node: "set (push_node n ns) = insert n (set ns)"
  by (induction ns) auto

lemma distinct_push: "distinct (node_ids (push_node n ns @ due)) \<longleftrightarrow> distinct (node_ids (n # ns @ due))"
  by (induction ns) (auto simp: set_push_node)

lemma sorted_push: "sorted_wrt earlier ns \<Longrightarrow> \<forall>m\<in>set ns. node_id m \<noteq> node_id n \<Longrightarrow> sorted_wrt earlier (push_node n ns)"
  by (induction ns) (auto simp: set_push_node earlier_def)

lemma rearm_frame [simp]:
  "heap (rearm c) = heap c" "cancelled (rearm c) = cancelled c" "nextId (rearm c) = nextId c" "inFireDue (rearm c) = inFireDue c"
  "stopped (rearm c) = stopped c" "fired (rearm c) = fired c" "revoked (rearm c) = revoked c" "ready (rearm c) = ready c"
  by (simp_all add: rearm_def Let_def split: option.splits)

lemma inv_rearm [simp]: "timer_inv due (rearm c) = timer_inv due c"
  by (simp add: inv_defs)

lemma inv_schedule: "timer_inv due c \<Longrightarrow> timer_inv due (snd (schedule d cb c))"
proof (cases "stopped c")
  case False
  let ?n = "\<lparr>deadline = d, node_id = nextId c, callback = cb\<rparr>"
  let ?c = "c\<lparr>nextId := Suc (nextId c), heap := push_node ?n (heap c)\<rparr>"
  assume i: "timer_inv due c"
  have lt: "nextId c \<notin> node_id ` set (heap c @ due)" using i by (auto simp: inv_defs)
  have "\<forall>m\<in>set (heap c). node_id m \<noteq> node_id ?n" using lt by force
  then have "sorted_wrt earlier (push_node ?n (heap c))" using i by (intro sorted_push) (simp_all add: inv_defs)
  then have "nodes_ok due ?c" using i lt distinct_push [of ?n "heap c" due] by (auto simp: inv_defs set_push_node less_Suc_eq)
  moreover have "fired_ok due ?c" using i by (auto simp: inv_defs set_push_node less_Suc_eq)
  moreover have "revoked_ok due ?c" using i by (auto simp: inv_defs set_push_node less_Suc_eq)
  ultimately have "timer_inv due ?c" using i False by (simp add: timer_inv_def)
  then show ?thesis using False by (simp add: schedule_def Let_def)
qed (simp add: schedule_def)

lemma inv_compact: "timer_inv due c \<Longrightarrow> timer_inv due (compactCancelled c)"
  by (auto simp: inv_defs compactCancelled_def)

lemma inv_cancel: "timer_inv due c \<Longrightarrow> timer_inv due (snd (cancel i c))"
proof -
  assume inv: "timer_inv due c"
  have "timer_inv due (c\<lparr>cancelled := i # cancelled c, revoked := (if i \<in> fst ` set (fired c) then revoked c else i # revoked c)\<rparr>)"
    if "i < nextId c" using inv that by (auto simp: inv_defs)
  then show ?thesis using inv
    by (cases "stopped c \<or> i = kInvalidId \<or> i \<ge> nextId c"; cases "i \<in> set (cancelled c)")
      (simp_all add: cancel_def inv_compact not_le split del: if_split)
qed

lemma inv_shutdown: "timer_inv due c \<Longrightarrow> timer_inv due (shutdown c)"
  by (auto simp: inv_defs shutdown_def)

lemma inv_act: "timer_inv due c \<Longrightarrow> timer_inv due (act a c)"
  by (cases a) (simp_all add: inv_schedule inv_cancel inv_shutdown)

lemma inv_acts: "timer_inv due c \<Longrightarrow> timer_inv due (fold act as c)"
  by (induction "as" arbitrary: c) (simp_all add: inv_act)

lemma inv_skip:
  assumes i: "timer_inv (n # ns) c"
  shows "timer_inv ns (c\<lparr>cancelled := removeAll (node_id n) (cancelled c)\<rparr>)"
proof -
  let ?c = "c\<lparr>cancelled := removeAll (node_id n) (cancelled c)\<rparr>"
  have "node_id n \<notin> node_id ` set (heap c @ ns)" using i by (auto simp: timer_inv_def nodes_ok_def)
  then have "revoked_ok ns ?c" using i unfolding timer_inv_def revoked_ok_def by simp blast
  moreover have "nodes_ok ns ?c" "fired_ok ns ?c" using i by (auto simp: inv_defs)
  ultimately show ?thesis using i by (simp add: timer_inv_def)
qed

lemma inv_less: "timer_inv (n # ns) c \<Longrightarrow> timer_inv ns c"
  unfolding inv_defs by auto

lemma inv_fire:
  assumes i: "timer_inv (n # ns) c" and "node_id n \<notin> set (cancelled c)" and "\<not> stopped c" and "deadline n \<le> now"
  shows "timer_inv ns (c\<lparr>fired := (node_id n, deadline n, now) # fired c\<rparr>)"
proof -
  let ?c = "c\<lparr>fired := (node_id n, deadline n, now) # fired c\<rparr>"
  have "nodes_ok ns ?c" using i by (auto simp: inv_defs)
  moreover have "fired_ok ns ?c" using i assms(4) by (auto simp: inv_defs)
  moreover have "revoked_ok ns ?c" using i assms(2,3) by (auto simp: timer_inv_def revoked_ok_def)
  ultimately show ?thesis using i by (simp add: timer_inv_def)
qed

lemma inv_drop_due: "timer_inv ns c \<Longrightarrow> timer_inv [] c"
  unfolding inv_defs by auto

lemma inv_fire_nodes:
  assumes "timer_inv due c" and "\<forall>n\<in>set due. deadline n \<le> now" and "fire_nodes prog now due c = (b, c')"
  shows "timer_inv [] c'"
  using assms
proof (induction prog now due c arbitrary: b c' rule: fire_nodes.induct)
  case (2 prog now n ns c)
  show ?case
  proof (cases "stopped c \<or> node_id n \<in> set (cancelled c) \<or> callback n = None")
    case True
    then show ?thesis using "2.prems" "2.IH"(1) [OF _ _ inv_skip] "2.IH"(2) [OF _ _ _ inv_less] inv_drop_due
      by (auto split: if_splits)
  next
    case False
    then obtain cb where "callback n = Some cb" by auto
    moreover obtain acts t where "prog cb c = (acts, t)" by (cases "prog cb c")
    ultimately have cb: "callback n = Some cb" "prog cb c = (acts, t)" by blast+
    let ?c = "fold act acts (c\<lparr>fired := (node_id n, deadline n, now) # fired c\<rparr>)"
    have "timer_inv ns (c\<lparr>fired := (node_id n, deadline n, now) # fired c\<rparr>)"
      using inv_fire [OF "2.prems"(1)] "2.prems"(2) False by simp
    then have "timer_inv ns ?c" by (rule inv_acts)
    then show ?thesis using "2.prems"(2,3) "2.IH"(3) [OF _ _ cb(1) cb(2) [symmetric] refl] False cb inv_drop_due
      by (auto simp: Let_def split: if_splits)
  qed
qed simp

lemma pop_due_split:
  "pop_due now ns = (due, h) \<Longrightarrow> ns = due @ h \<and> (\<forall>n\<in>set due. deadline n \<le> now) \<and> (h \<noteq> [] \<longrightarrow> now < deadline (hd h))"
  by (induction ns arbitrary: due h) (auto split: prod.splits if_splits)

lemma inv_fireDue: "timer_inv [] c \<Longrightarrow> timer_inv [] (fireDue prog now c)"
proof (cases "stopped c")
  case False
  assume i: "timer_inv [] c"
  obtain due h where p: "pop_due now (heap c) = (due, h)" by fastforce
  note sp = pop_due_split [OF p]
  let ?c = "c\<lparr>armedDeadline := None, inFireDue := True, heap := h\<rparr>"
  have "timer_inv due ?c" using i sp unfolding inv_defs by (auto simp: sorted_wrt_append)
  moreover obtain b c1 where f: "fire_nodes prog now due ?c = (b, c1)" by fastforce
  ultimately have "timer_inv [] c1" using inv_fire_nodes sp by blast
  then have "timer_inv [] (c1\<lparr>inFireDue := False\<rparr>)" "timer_inv [] ((rearm c1)\<lparr>inFireDue := False\<rparr>)"
    by (simp_all add: inv_defs)
  then show ?thesis using False p f by (simp add: fireDue_def split: bool.split)
qed (simp add: fireDue_def inv_defs)

lemma inv_new: "timer_inv [] new_core"
  by (simp add: inv_defs new_core_def)

lemma inv_step: "tstep prog s s' \<Longrightarrow> timer_inv [] (snd s) \<Longrightarrow> timer_inv [] (snd s')"
proof (induction rule: tstep.induct)
  case (handler c n now)
  then have "timer_inv [] (c\<lparr>ready := n\<rparr>)" by (simp add: inv_defs)
  then show ?case by (simp add: inv_fireDue)
next
  case (call now c a)
  then show ?case by (simp add: inv_act)
qed (simp_all add: inv_defs)

lemma inv_steps: "(tstep prog)\<^sup>*\<^sup>* s s' \<Longrightarrow> timer_inv [] (snd s) \<Longrightarrow> timer_inv [] (snd s')"
  by (induction rule: rtranclp_induct) (auto intro: inv_step)

section \<open>Wake-ups\<close>

text \<open>While timers are pending, the armed deadline is at most the first one, and its wait is in progress or its handler is queued.\<close>

definition wake_inv :: "'cb Core \<Rightarrow> bool" where
  "wake_inv c \<longleftrightarrow> stopped c \<or>
     (case armedDeadline c of
        None \<Rightarrow> heap c = []
      | Some d \<Rightarrow> (wait c = Some d \<or> ready c > 0) \<and> (heap c \<noteq> [] \<longrightarrow> d \<le> deadline (hd (heap c))))"

text \<open>While nodes fire, the heap may be armed or not.\<close>

definition arm_ok :: "'cb Core \<Rightarrow> bool" where
  "arm_ok c \<longleftrightarrow> stopped c \<or>
     (case armedDeadline c of
        None \<Rightarrow> True
      | Some d \<Rightarrow> (wait c = Some d \<or> ready c > 0) \<and> (heap c \<noteq> [] \<longrightarrow> d \<le> deadline (hd (heap c))))"

lemma wake_rearm: "arm_ok c \<Longrightarrow> wake_inv (rearm c)"
  by (auto simp: arm_ok_def wake_inv_def rearm_def Let_def split: option.splits)

lemma hd_push: "ns \<noteq> [] \<Longrightarrow> deadline (hd (push_node n ns)) = min (deadline n) (deadline (hd ns))"
  by (cases ns) (auto simp: earlier_def min_def)

lemma push_not_Nil [simp]: "push_node n ns \<noteq> []"
  by (cases ns) auto

lemma wake_schedule:
  assumes "arm_ok c"
  shows "wake_inv (snd (schedule d cb c))"
proof (cases "stopped c")
  case False
  let ?c = "c\<lparr>nextId := Suc (nextId c), heap := push_node \<lparr>deadline = d, node_id = nextId c, callback = cb\<rparr> (heap c)\<rparr>"
  show ?thesis
  proof (cases "armedDeadline c")
    case (Some a)
    then show ?thesis using assms False
      by (auto simp: schedule_def Let_def rearm_def wake_inv_def arm_ok_def split: option.splits)
  next
    case None
    then show ?thesis using False by (simp add: schedule_def Let_def rearm_def wake_inv_def)
  qed
qed (simp add: schedule_def wake_inv_def)

lemma wake_imp_arm: "wake_inv c \<Longrightarrow> arm_ok c"
  by (auto simp: wake_inv_def arm_ok_def split: option.splits)

lemma compact_frame [simp]:
  "heap (compactCancelled c) = heap c" "armedDeadline (compactCancelled c) = armedDeadline c" "wait (compactCancelled c) = wait c"
  "ready (compactCancelled c) = ready c" "stopped (compactCancelled c) = stopped c"
  by (simp_all add: compactCancelled_def)

lemma cancel_frame [simp]:
  "heap (snd (cancel i c)) = heap c" "armedDeadline (snd (cancel i c)) = armedDeadline c" "wait (snd (cancel i c)) = wait c"
  "ready (snd (cancel i c)) = ready c" "stopped (snd (cancel i c)) = stopped c"
  by (simp_all add: cancel_def)

lemma wake_act: "wake_inv c \<Longrightarrow> wake_inv (act a c)"
proof (cases a)
  case (Schedule d cb)
  then show "wake_inv c \<Longrightarrow> wake_inv (act a c)" by (simp add: wake_schedule wake_imp_arm)
qed (auto simp: wake_inv_def shutdown_def split: option.splits)

lemma arm_act: "arm_ok c \<Longrightarrow> arm_ok (act a c)"
proof (cases a)
  case (Schedule d cb)
  then show "arm_ok c \<Longrightarrow> arm_ok (act a c)" by (simp add: wake_schedule wake_imp_arm)
qed (auto simp: arm_ok_def shutdown_def split: option.splits)

lemma arm_acts: "arm_ok c \<Longrightarrow> arm_ok (fold act as c)"
  by (induction "as" arbitrary: c) (simp_all add: arm_act)

definition never_throws :: "'cb program \<Rightarrow> bool" where
  "never_throws prog \<longleftrightarrow> (\<forall>cb c. \<not> snd (prog cb c))"

lemma arm_fire_nodes:
  "arm_ok c \<Longrightarrow> never_throws prog \<Longrightarrow> fire_nodes prog now due c = (b, c') \<Longrightarrow> arm_ok c' \<and> \<not> b"
proof (induction prog now due c arbitrary: b c' rule: fire_nodes.induct)
  case (2 prog now n ns c)
  have t: "prog cb x = (acts, t) \<Longrightarrow> \<not> t" for cb x acts t using "2.prems"(2) by (metis never_throws_def snd_conv)
  have s: "arm_ok (c\<lparr>cancelled := xs\<rparr>)" "arm_ok (c\<lparr>fired := ys\<rparr>)" for xs ys
    using "2.prems"(1) by (auto simp: arm_ok_def split: option.splits)
  show ?case
  proof (cases "stopped c \<or> node_id n \<in> set (cancelled c) \<or> callback n = None")
    case True
    then show ?thesis using "2.prems" "2.IH"(1) [OF _ _ s(1)] "2.IH"(2) by (auto split: if_splits)
  next
    case False
    then obtain cb where "callback n = Some cb" by auto
    moreover obtain acts where "prog cb c = (acts, False)" using t by (cases "prog cb c") auto
    ultimately have cb: "callback n = Some cb" "prog cb c = (acts, False)" by blast+
    then show ?thesis using "2.prems"(2,3) False "2.IH"(3) [OF _ _ cb(1) cb(2) [symmetric] refl _ arm_acts [OF s(2)]] by simp
  qed
qed simp

lemma wake_fireDue:
  assumes "wake_inv c" and "never_throws prog"
  shows "wake_inv (fireDue prog now (c\<lparr>ready := n\<rparr>))"
proof (cases "stopped c")
  case False
  obtain due h where p: "pop_due now (heap c) = (due, h)" by fastforce
  let ?c = "c\<lparr>ready := n, armedDeadline := None, inFireDue := True, heap := h\<rparr>"
  obtain b c1 where f: "fire_nodes prog now due ?c = (b, c1)" by fastforce
  have "arm_ok ?c" by (simp add: arm_ok_def)
  from arm_fire_nodes [OF this assms(2) f] have "arm_ok c1" "\<not> b" by simp_all
  then have "wake_inv (rearm c1)" by (simp add: wake_rearm)
  then have "wake_inv ((rearm c1)\<lparr>inFireDue := False\<rparr>)" by (auto simp: wake_inv_def split: option.splits)
  then show ?thesis using False p f \<open>\<not> b\<close> by (simp add: fireDue_def)
qed (simp add: fireDue_def wake_inv_def)

lemma wake_step: "tstep prog s s' \<Longrightarrow> never_throws prog \<Longrightarrow> wake_inv (snd s) \<Longrightarrow> wake_inv (snd s')"
proof (induction rule: tstep.induct)
  case (handler c n now)
  then show ?case by (simp add: wake_fireDue)
next
  case (call now c a)
  then show ?case by (simp add: wake_act)
qed (auto simp: wake_inv_def split: option.splits)

lemma wake_steps: "(tstep prog)\<^sup>*\<^sup>* s s' \<Longrightarrow> never_throws prog \<Longrightarrow> wake_inv (snd s) \<Longrightarrow> wake_inv (snd s')"
  by (induction rule: rtranclp_induct) (auto intro: wake_step)

section \<open>What a batch settles\<close>

definition settled :: "'cb Node \<Rightarrow> 'cb Core \<Rightarrow> bool" where
  "settled n c \<longleftrightarrow> stopped c \<or> callback n = None \<or> node_id n \<in> set (revoked c) \<union> fst ` set (fired c)"

definition cancelled_known :: "'cb Core \<Rightarrow> bool" where
  "cancelled_known c \<longleftrightarrow> set (cancelled c) \<subseteq> set (revoked c) \<union> fst ` set (fired c)"

lemma known_act: "cancelled_known c \<Longrightarrow> cancelled_known (act a c)"
  by (cases a) (auto simp: cancelled_known_def schedule_def Let_def cancel_def compactCancelled_def shutdown_def)

lemma known_acts: "cancelled_known c \<Longrightarrow> cancelled_known (fold act as c)"
  by (induction "as" arbitrary: c) (simp_all add: known_act)

lemma settled_act: "settled n c \<Longrightarrow> settled n (act a c)"
  by (cases a) (auto simp: settled_def schedule_def Let_def cancel_def compactCancelled_def shutdown_def)

lemma settled_acts: "settled n c \<Longrightarrow> settled n (fold act as c)"
  by (induction "as" arbitrary: c) (simp_all add: settled_act)

lemma fire_nodes_known: "cancelled_known c \<Longrightarrow> fire_nodes prog now due c = (b, c') \<Longrightarrow> cancelled_known c'"
proof (induction prog now due c arbitrary: b c' rule: fire_nodes.induct)
  case (2 prog now n ns c)
  have s: "cancelled_known (c\<lparr>cancelled := removeAll i (cancelled c)\<rparr>)" "cancelled_known (c\<lparr>fired := x # fired c\<rparr>)" for i x
    using "2.prems"(1) by (auto simp: cancelled_known_def)
  show ?case using "2.prems" "2.IH"(1) [OF _ _ s(1)] "2.IH"(2) "2.IH"(3) [OF _ _ _ _ refl _ known_acts [OF s(2)]] known_acts [OF s(2)]
    by (auto simp: Let_def split: if_splits option.splits prod.splits)
qed simp

lemma fire_nodes_settled: "settled m c \<Longrightarrow> fire_nodes prog now due c = (b, c') \<Longrightarrow> settled m c'"
proof (induction prog now due c arbitrary: b c' rule: fire_nodes.induct)
  case (2 prog now n ns c)
  have s: "settled m (c\<lparr>cancelled := xs\<rparr>)" "settled m (c\<lparr>fired := x # fired c\<rparr>)" for xs x
    using "2.prems"(1) by (auto simp: settled_def)
  show ?case using "2.prems" "2.IH"(1) [OF _ _ s(1)] "2.IH"(2) "2.IH"(3) [OF _ _ _ _ refl _ settled_acts [OF s(2)]] settled_acts [OF s(2)]
    by (auto simp: Let_def split: if_splits option.splits prod.splits)
qed simp

text \<open>Unless a callback throws, every node of the batch is settled after it.\<close>

lemma batch_settled:
  "cancelled_known c \<Longrightarrow> never_throws prog \<Longrightarrow> fire_nodes prog now due c = (b, c') \<Longrightarrow> m \<in> set due \<Longrightarrow> settled m c'"
proof (induction prog now due c arbitrary: b c' rule: fire_nodes.induct)
  case (2 prog now n ns c)
  have k: "cancelled_known (c\<lparr>cancelled := removeAll i (cancelled c)\<rparr>)" "cancelled_known (c\<lparr>fired := x # fired c\<rparr>)" for i x
    using "2.prems"(1) by (auto simp: cancelled_known_def)
  consider "stopped c" | "\<not> stopped c" "node_id n \<in> set (cancelled c)" | "\<not> stopped c" "node_id n \<notin> set (cancelled c)" "callback n = None"
    | cb acts where "\<not> stopped c" "node_id n \<notin> set (cancelled c)" "callback n = Some cb" "prog cb c = (acts, False)"
    using "2.prems"(2) unfolding never_throws_def by (metis (full_types) not_None_eq prod.collapse)
  then show ?case
  proof cases
    case 1
    then show ?thesis using "2.prems"(3) by (simp add: settled_def)
  next
    case 2
    let ?c = "c\<lparr>cancelled := removeAll (node_id n) (cancelled c)\<rparr>"
    have f: "fire_nodes prog now ns ?c = (b, c')" using "2.prems"(3) 2 by simp
    have "settled n ?c" using 2(2) "2.prems"(1) by (auto simp: settled_def cancelled_known_def)
    then show ?thesis using "2.prems"(4) fire_nodes_settled [OF _ f] "2.IH"(1) [OF 2 k(1) "2.prems"(2) f] by auto
  next
    case 3
    have f: "fire_nodes prog now ns c = (b, c')" using "2.prems"(3) 3 by simp
    have "settled n c" using 3 by (simp add: settled_def)
    then show ?thesis using "2.prems"(4) fire_nodes_settled [OF _ f] "2.IH"(2) [OF 3 "2.prems"(1,2) f] by auto
  next
    case 4
    let ?c = "c\<lparr>fired := (node_id n, deadline n, now) # fired c\<rparr>"
    have f: "fire_nodes prog now ns (fold act acts ?c) = (b, c')" using "2.prems"(3) 4 by (simp add: Let_def)
    have "settled n ?c" by (simp add: settled_def)
    then have "settled n c'" using fire_nodes_settled [OF settled_acts f] by blast
    then show ?thesis using "2.prems"(4) "2.IH"(3) [OF 4(1,2,3) 4(4) [symmetric] refl _ known_acts [OF k(2)] "2.prems"(2) f] by auto
  qed
qed simp

lemma known_fireDue: "cancelled_known c \<Longrightarrow> cancelled_known (fireDue prog now c)"
proof -
  assume k: "cancelled_known c"
  obtain due h where p: "pop_due now (heap c) = (due, h)" by fastforce
  let ?c = "c\<lparr>armedDeadline := None, inFireDue := True, heap := h\<rparr>"
  obtain b c1 where f: "fire_nodes prog now due ?c = (b, c1)" by fastforce
  have "cancelled_known ?c" using k by (simp add: cancelled_known_def)
  from fire_nodes_known [OF this f] k p f show ?thesis by (simp add: fireDue_def Let_def cancelled_known_def split: bool.split)
qed

lemma known_steps: "(tstep prog)\<^sup>*\<^sup>* s s' \<Longrightarrow> cancelled_known (snd s) \<Longrightarrow> cancelled_known (snd s')"
proof (induction rule: rtranclp_induct)
  case (step y z)
  from step.hyps(2) step.IH [OF step.prems] show ?case
  proof (induction rule: tstep.induct)
    case (handler c n now)
    then have "cancelled_known (c\<lparr>ready := n\<rparr>)" by (simp add: cancelled_known_def)
    then show ?case by (simp add: known_fireDue)
  next
    case (call now c a)
    then show ?case by (simp add: known_act)
  qed (simp_all add: cancelled_known_def)
qed simp

lemma fireDue_settles:
  assumes "cancelled_known c" and "never_throws prog" and "n \<in> set (heap c)" and "deadline n \<le> now" and "sorted_wrt earlier (heap c)"
  shows "settled n (fireDue prog now c)"
proof (cases "stopped c")
  case False
  obtain due h where p: "pop_due now (heap c) = (due, h)" by fastforce
  note sp = pop_due_split [OF p]
  let ?c = "c\<lparr>armedDeadline := None, inFireDue := True, heap := h\<rparr>"
  obtain b c1 where f: "fire_nodes prog now due ?c = (b, c1)" by fastforce
  have "n \<notin> set h"
  proof
    assume "n \<in> set h"
    then have "deadline (hd h) \<le> deadline n" using assms(5) sp by (cases h) (auto simp: sorted_wrt_append earlier_def)
    then show False using sp assms(4) \<open>n \<in> set h\<close> by auto
  qed
  then have "n \<in> set due" using sp assms(3) by auto
  moreover have "cancelled_known ?c" using assms(1) by (simp add: cancelled_known_def)
  ultimately have "settled n c1" using batch_settled [OF _ assms(2) f] by blast
  then show ?thesis using False p f by (simp add: fireDue_def settled_def split: bool.split)
qed (simp add: fireDue_def settled_def)

lemma stopped_act: "stopped c \<Longrightarrow> stopped (act a c) \<and> fired (act a c) = fired c"
  by (cases a) (auto simp: schedule_def cancel_def shutdown_def)

lemma stopped_steps: "(tstep prog)\<^sup>*\<^sup>* s s' \<Longrightarrow> stopped (snd s) \<Longrightarrow> stopped (snd s') \<and> fired (snd s') = fired (snd s)"
proof (induction rule: rtranclp_induct)
  case (step y z)
  from step.hyps(2) step.IH [OF step.prems] show ?case
    by (induction rule: tstep.induct) (auto simp: fireDue_def stopped_act)
qed simp

section \<open>Properties\<close>

text \<open>
  C16. Timers run at most once, never early, and never after they were cancelled. In every state the service
  can reach, whatever its owner and the callbacks it runs call and whatever they throw: no identifier has
  run twice, each ran at its deadline or later, and none that was cancelled before it ran has run, also
  when the cancellation came from a callback of the same batch or the table of cancellations was rebuilt
  in between. After a shutdown nothing runs any more.
\<close>

theorem timers_once_and_revocable:
  assumes "treach prog (now, c)"
  shows "distinct (map fst (fired c)) \<and> (\<forall>(i, d, t)\<in>set (fired c). d \<le> t) \<and> set (revoked c) \<inter> fst ` set (fired c) = {}
    \<and> (stopped c \<and> (tstep prog)\<^sup>*\<^sup>* (now, c) (now', c') \<longrightarrow> fired c' = fired c)"
proof -
  have "timer_inv [] c" using assms inv_steps [of prog _ "(now, c)"] by (auto simp: treach_def inv_new)
  moreover have "stopped c \<and> (tstep prog)\<^sup>*\<^sup>* (now, c) (now', c') \<longrightarrow> fired c' = fired c"
    using stopped_steps [of prog "(now, c)" "(now', c')"] by auto
  ultimately show ?thesis by (auto simp: inv_defs list_all_iff)
qed

text \<open>
  C17. No timer is forgotten. If no callback throws, then in every state with a timer whose deadline has come, on
  a service that has not been shut down, a handler is queued or the wait that queues it has expired; and
  when the handler runs, the timer runs, unless it was cancelled, has no callback, or the
  service is shut down meanwhile.
\<close>

theorem timers_not_forgotten:
  assumes "never_throws prog" and "treach prog (now, c)" and "\<not> stopped c" and "n \<in> set (heap c)" and "deadline n \<le> now"
    and "c' = fireDue prog now (c\<lparr>ready := r\<rparr>)"
  shows "(ready c > 0 \<or> (\<exists>d. wait c = Some d \<and> d \<le> now))
    \<and> (stopped c' \<or> callback n = None \<or> node_id n \<in> set (revoked c') \<union> fst ` set (fired c'))"
proof -
  obtain s0 where s0: "(tstep prog)\<^sup>*\<^sup>* (s0, new_core) (now, c)" using assms(2) by (auto simp: treach_def)
  have w: "wake_inv c" using wake_steps [OF s0 assms(1)] by (simp add: wake_inv_def new_core_def)
  have i: "timer_inv [] c" using inv_steps [OF s0] by (simp add: inv_new)
  then have "deadline (hd (heap c)) \<le> deadline n" using assms(4)
    by (cases "heap c") (auto simp: inv_defs earlier_def)
  then have 1: "ready c > 0 \<or> (\<exists>d. wait c = Some d \<and> d \<le> now)" using w assms(3-5) by (fastforce simp: wake_inv_def split: option.splits)
  have "cancelled_known c" using known_steps [OF s0] by (simp add: cancelled_known_def new_core_def)
  then have "cancelled_known (c\<lparr>ready := r\<rparr>)" by (simp add: cancelled_known_def)
  then have "settled n c'" unfolding assms(6) using fireDue_settles [OF _ assms(1), of "c\<lparr>ready := r\<rparr>"] assms(4,5) i by (simp add: inv_defs)
  then show ?thesis using 1 unfolding settled_def by blast
qed

section \<open>Witnesses\<close>

text \<open>Two timers in one batch; the first callback cancels the second.\<close>

definition sample_prog :: "nat program" where
  "sample_prog cb c = ([Cancel cb], False)"

definition sample_armed :: "nat Core" where
  "sample_armed = act (Schedule 5 (Some 7)) (act (Schedule 3 (Some 2)) new_core)"

definition sample_ready :: "nat Core" where
  "sample_ready = sample_armed\<lparr>wait := None, ready := 1\<rparr>"

lemmas sample_eval = sample_armed_def sample_ready_def schedule_def rearm_def new_core_def Let_def kFirstTimerId_def earlier_def

lemma sample_armed_reach: "treach sample_prog (9, sample_armed)"
proof -
  have "(tstep sample_prog)\<^sup>*\<^sup>* (9, new_core) (9, act (Schedule 3 (Some 2)) new_core)" by (rule r_into_rtranclp) (rule call)
  also have "(tstep sample_prog)\<^sup>*\<^sup>* (9, act (Schedule 3 (Some 2)) new_core) (9, sample_armed)"
    unfolding sample_armed_def by (rule r_into_rtranclp) (rule call)
  finally show ?thesis by (auto simp: treach_def)
qed

lemma sample_done_reach: "treach sample_prog (9, fireDue sample_prog 9 (sample_ready\<lparr>ready := 0\<rparr>))"
proof -
  have "tstep sample_prog (9, sample_armed) (9, sample_ready)"
  proof -
    have w: "wait sample_armed = Some 3" "ready sample_armed = 0" by (simp_all add: sample_eval)
    show ?thesis using expire [OF w(1), of 9 sample_prog] by (simp add: sample_ready_def w(2))
  qed
  moreover have "tstep sample_prog (9, sample_ready) (9, fireDue sample_prog 9 (sample_ready\<lparr>ready := 0\<rparr>))"
    by (rule handler) (simp add: sample_ready_def)
  ultimately show ?thesis using sample_armed_reach unfolding treach_def by (meson rtranclp.rtrancl_into_rtrancl)
qed

theorem timers_once_and_revocable_witness:
  "map fst (fired (fireDue sample_prog 9 (sample_ready\<lparr>ready := 0\<rparr>))) = [1]
   \<and> set (revoked (fireDue sample_prog 9 (sample_ready\<lparr>ready := 0\<rparr>))) \<inter> fst ` set (fired (fireDue sample_prog 9 (sample_ready\<lparr>ready := 0\<rparr>))) = {}"
  using timers_once_and_revocable [OF sample_done_reach]
  by (simp add: sample_eval fireDue_def sample_prog_def cancel_def kInvalidId_def compactCancelled_def)

theorem timers_not_forgotten_witness: "ready sample_armed > 0 \<or> (\<exists>d. wait sample_armed = Some d \<and> d \<le> 9)"
proof -
  have "never_throws sample_prog" by (simp add: never_throws_def sample_prog_def)
  moreover have "\<not> stopped sample_armed" "\<lparr>deadline = 3, node_id = 1, callback = Some 2\<rparr> \<in> set (heap sample_armed)"
    by (simp_all add: sample_eval)
  ultimately show ?thesis using timers_not_forgotten [OF _ sample_armed_reach _ _ _ refl] by fastforce
qed

end
