(* ===== verification/Session_Store.thy ===== *)
theory Session_Store
  imports Http_Request
begin

unbundle bit_operations_syntax

text \<open>
  Sessions: \<^verbatim>\<open>src/src/core/Session.cpp\<close> and \<^verbatim>\<open>Session.h\<close>. The manager maps identifiers to session objects, which
  handlers share through pointers; objects are addresses into a store. The clock is an argument. The
  random generator yields the given values and then fails. Every operation holds the lock of the
  manager, or checks again after it had released it, and is one step here.
\<close>

section \<open>Sessions\<close>

text \<open>\<open>std::any\<close>: a type and a value.\<close>

type_synonym ('t, 'a) any = "'t \<times> 'a"

record ('t, 'a) Session =
  s_id :: string
  s_data :: "(string \<times> ('t, 'a) any) list"
  dirty :: bool
  lastAccessNs :: int

definition make_session :: "string \<Rightarrow> int \<Rightarrow> ('t, 'a) Session" where
  "make_session i now = \<lparr>s_id = i, s_data = [], dirty = False, lastAccessNs = now\<rparr>"

definition s_set :: "string \<Rightarrow> ('t, 'a) any \<Rightarrow> ('t, 'a) Session \<Rightarrow> ('t, 'a) Session" where
  "s_set k v s = s\<lparr>s_data := (k, v) # filter (\<lambda>(k', _). k' \<noteq> k) (s_data s), dirty := True\<rparr>"

definition s_get :: "'t \<Rightarrow> string \<Rightarrow> ('t, 'a) Session \<Rightarrow> 'a option" where
  "s_get t k s =
     (case map_of (s_data s) k of
        None \<Rightarrow> None
      | Some (t', v) \<Rightarrow> if t' \<noteq> t then None else Some v)"

definition s_has :: "string \<Rightarrow> ('t, 'a) Session \<Rightarrow> bool" where
  "s_has k s \<longleftrightarrow> map_of (s_data s) k \<noteq> None"

definition s_remove :: "string \<Rightarrow> ('t, 'a) Session \<Rightarrow> ('t, 'a) Session" where
  "s_remove k s = s\<lparr>s_data := filter (\<lambda>(k', _). k' \<noteq> k) (s_data s)\<rparr>"

definition s_clear :: "('t, 'a) Session \<Rightarrow> ('t, 'a) Session" where
  "s_clear s = s\<lparr>s_data := []\<rparr>"

definition markDirty :: "('t, 'a) Session \<Rightarrow> ('t, 'a) Session" where
  "markDirty s = s\<lparr>dirty := True\<rparr>"

definition s_touch :: "int \<Rightarrow> ('t, 'a) Session \<Rightarrow> ('t, 'a) Session" where
  "s_touch now s = s\<lparr>lastAccessNs := now\<rparr>"

text \<open>The result is the session and the other one.\<close>

definition migrateFrom :: "('t, 'a) Session \<Rightarrow> ('t, 'a) Session \<Rightarrow> ('t, 'a) Session \<times> ('t, 'a) Session" where
  "migrateFrom other s = (s\<lparr>s_data := s_data other, dirty := True\<rparr>, other\<lparr>s_data := []\<rparr>)"

section \<open>The manager\<close>

record SessionOptions =
  cookieName :: string
  so_maxAge :: int
  so_httpOnly :: bool
  so_secure :: bool
  so_sameSite :: string
  so_path :: string
  gcInterval :: int
  maxSessions :: nat

record ('t, 'a) SessionManager =
  sm_opts :: SessionOptions
  store :: "(string \<times> nat) list"
  lastGc :: int
  objs :: "nat \<Rightarrow> ('t, 'a) Session"
  next_obj :: nat
  random :: "byte list list"

definition new_manager :: "SessionOptions \<Rightarrow> int \<Rightarrow> byte list list \<Rightarrow> ('t, 'a) SessionManager" where
  "new_manager opts now rnd =
     \<lparr>sm_opts = opts, store = [], lastGc = now, objs = (\<lambda>_. make_session [] now), next_obj = 0, random = rnd\<rparr>"

definition kHex :: string where "kHex = ''0123456789abcdef''"

definition hex_id :: "byte list \<Rightarrow> string" where
  "hex_id buf = concat (map (\<lambda>b. [kHex ! unat (drop_bit 4 b), kHex ! unat (b AND 0x0f)]) buf)"

text \<open>\<open>generateId\<close> and the loop around it; \<open>None\<close> if the generator fails, which throws.\<close>

fun generateId :: "string list \<Rightarrow> byte list list \<Rightarrow> string option \<times> byte list list" where
  "generateId taken [] = (None, [])"
| "generateId taken (buf # rnd) =
     (if hex_id buf \<in> set taken then generateId taken rnd else (Some (hex_id buf), rnd))"

text \<open>\<open>duration_cast\<close> to milliseconds rounds towards zero.\<close>

definition duration_ms :: "int \<Rightarrow> int" where
  "duration_ms d = (if d \<ge> 0 then d div 1000000 else - ((- d) div 1000000))"

definition expired :: "int \<Rightarrow> SessionOptions \<Rightarrow> ('t, 'a) Session \<Rightarrow> bool" where
  "expired now o1 s \<longleftrightarrow> so_maxAge o1 > 0 \<and> duration_ms (now - lastAccessNs s) \<ge> so_maxAge o1 * 1000"

definition sm_find :: "string \<Rightarrow> int \<Rightarrow> ('t, 'a) SessionManager \<Rightarrow> nat option" where
  "sm_find i now m =
     (case map_of (store m) i of
        None \<Rightarrow> None
      | Some a \<Rightarrow> if expired now (sm_opts m) (objs m a) then None else Some a)"

definition sm_gc :: "bool \<Rightarrow> int \<Rightarrow> ('t, 'a) SessionManager \<Rightarrow> ('t, 'a) SessionManager" where
  "sm_gc force now m =
     (if \<not> force \<and> gcInterval (sm_opts m) > 0 \<and> duration_ms (now - lastGc m) < gcInterval (sm_opts m) * 1000 then m
      else m\<lparr>lastGc := now, store := filter (\<lambda>(_, a). \<not> expired now (sm_opts m) (objs m a)) (store m)\<rparr>)"

definition add_session :: "string \<Rightarrow> ('t, 'a) Session \<Rightarrow> ('t, 'a) SessionManager \<Rightarrow> nat \<times> ('t, 'a) SessionManager" where
  "add_session i s m =
     (next_obj m, m\<lparr>store := (i, next_obj m) # store m, objs := (objs m)(next_obj m := s), next_obj := Suc (next_obj m)\<rparr>)"

datatype 'x outcome = Ret 'x | Threw

text \<open>The answer is \<open>None\<close> when the store is full.\<close>

definition sm_create :: "int \<Rightarrow> ('t, 'a) SessionManager \<Rightarrow> nat option outcome \<times> ('t, 'a) SessionManager" where
  "sm_create now m0 =
     (let m1 = (if gcInterval (sm_opts m0) > 0
                   \<and> duration_ms (now - lastGc m0) \<ge> gcInterval (sm_opts m0) * 1000 then sm_gc False now m0 else m0);
          m2 = (if maxSessions (sm_opts m1) > 0 \<and> length (store m1) \<ge> maxSessions (sm_opts m1) then sm_gc True now m1 else m1)
      in if maxSessions (sm_opts m2) > 0 \<and> length (store m2) \<ge> maxSessions (sm_opts m2) then (Ret None, m2)
         else case generateId (map fst (store m2)) (random m2) of
                (None, rnd) \<Rightarrow> (Threw, m2\<lparr>random := rnd\<rparr>)
              | (Some i, rnd) \<Rightarrow>
                  (case add_session i (make_session i now) (m2\<lparr>random := rnd\<rparr>) of (a, m3) \<Rightarrow> (Ret (Some a), m3)))"

definition sm_regenerate :: "string \<Rightarrow> int \<Rightarrow> ('t, 'a) SessionManager \<Rightarrow> nat option outcome \<times> ('t, 'a) SessionManager" where
  "sm_regenerate oldId now m =
     (case map_of (store m) oldId of
        None \<Rightarrow> (Ret None, m)
      | Some a \<Rightarrow>
          let m1 = m\<lparr>store := filter (\<lambda>(k, _). k \<noteq> oldId) (store m)\<rparr> in
          (case generateId (map fst (store m1)) (random m1) of
             (None, rnd) \<Rightarrow> (Threw, m1\<lparr>random := rnd\<rparr>)
           | (Some i, rnd) \<Rightarrow>
               (case migrateFrom (objs m1 a) (make_session i now) of (s, other) \<Rightarrow>
                  (case add_session i s (m1\<lparr>random := rnd, objs := (objs m1)(a := other)\<rparr>) of
                     (a', m2) \<Rightarrow> (Ret (Some a'), m2)))))"

definition sm_destroy :: "string \<Rightarrow> ('t, 'a) SessionManager \<Rightarrow> ('t, 'a) SessionManager" where
  "sm_destroy i m = m\<lparr>store := filter (\<lambda>(k, _). k \<noteq> i) (store m)\<rparr>"

definition sm_count :: "('t, 'a) SessionManager \<Rightarrow> nat" where
  "sm_count m = length (store m)"

section \<open>The middleware\<close>

definition hSessionKey :: string where "hSessionKey = ''hical.session''"

definition session_cookie :: "SessionOptions \<Rightarrow> string \<Rightarrow> NativeResponse \<Rightarrow> NativeResponse" where
  "session_cookie opts i res =
     setCookie (cookieName opts) i \<lparr>ck_path = so_path opts, ck_domain = [], maxAge = so_maxAge opts, httpOnly = so_httpOnly opts,
       secure = so_secure opts, sameSite = so_sameSite opts\<rparr> res"

definition touch_session :: "nat \<Rightarrow> int \<Rightarrow> ('t, 'a) SessionManager \<Rightarrow> ('t, 'a) SessionManager" where
  "touch_session a now m = m\<lparr>objs := (objs m)(a := s_touch now (objs m a))\<rparr>"

text \<open>
  \<open>makeSessionMiddleware\<close>. \<open>ref\<close> makes an attribute of the pointer. An exception is its text.
\<close>

definition session_middleware ::
  "(nat \<Rightarrow> 'v) \<Rightarrow> int \<Rightarrow> ('v HttpRequest \<times> ('t, 'a) SessionManager \<Rightarrow> (string + NativeResponse) \<times> ('v HttpRequest \<times> ('t, 'a) SessionManager))
   \<Rightarrow> 'v HttpRequest \<times> ('t, 'a) SessionManager \<Rightarrow> (string + NativeResponse) \<times> ('v HttpRequest \<times> ('t, 'a) SessionManager)" where
  "session_middleware ref now next q =
     (case q of (req0, m0) \<Rightarrow>
       case rq_cookie (cookieName (sm_opts m0)) req0 of (sessionId, req) \<Rightarrow>
         let found = (if sessionId \<noteq> [] then sm_find sessionId now m0 else None) in
         case (case found of Some a \<Rightarrow> (Ret (Some a), m0) | None \<Rightarrow> sm_create now m0) of
           (Threw, m) \<Rightarrow> (Inl ''SessionManager::generateId: RAND_bytes failed'', req, m)
         | (Ret None, m) \<Rightarrow>
             (Inr (setBodyType ''Service Unavailable: session store full'' ''text/plain''
                (setStatus hServiceUnavailable new_response)), req, m)
         | (Ret (Some a), m) \<Rightarrow>
             (case next (setAttribute hSessionKey (ref a) req, touch_session a now m) of
                (Inl e, q1) \<Rightarrow> (Inl e, q1)
              | (Inr res, req1, m1) \<Rightarrow>
                  let s = objs m1 a in
                  (Inr (if dirty s \<or> sessionId \<noteq> s_id s then session_cookie (sm_opts m1) (s_id s) res else res), req1, m1)))"

section \<open>Identifiers\<close>

lemma kHex_nth_inj: "i < 16 \<Longrightarrow> j < 16 \<Longrightarrow> kHex ! i = kHex ! j \<Longrightarrow> i = j"
proof -
  have "distinct kHex" "length kHex = 16" by (simp_all add: kHex_def)
  then show "i < 16 \<Longrightarrow> j < 16 \<Longrightarrow> kHex ! i = kHex ! j \<Longrightarrow> i = j" by (simp add: nth_eq_iff_index_eq)
qed

lemma nibbles: "unat (drop_bit 4 b) < 16" "unat (b AND 0x0f) < 16" "unat b = 16 * unat (drop_bit 4 b) + unat (b AND 0x0f)" for b :: byte
proof -
  have m: "b AND 0x0f = take_bit 4 b" by (simp add: take_bit_eq_mask mask_eq_exp_minus_1)
  have d: "unat (drop_bit 4 b) = unat b div 16" by (simp add: drop_bit_eq_div unat_div_distrib)
  have t: "unat (b AND 0x0f) = unat b mod 16" unfolding m by (simp add: take_bit_eq_mod unat_mod_distrib)
  have "unat b < 256" using unsigned_less [of b, where 'a = nat] by simp
  then show "unat (drop_bit 4 b) < 16" "unat (b AND 0x0f) < 16" "unat b = 16 * unat (drop_bit 4 b) + unat (b AND 0x0f)"
    unfolding d t by simp_all
qed

lemma length_hex_id: "length (hex_id buf) = 2 * length buf"
  by (induction buf) (simp_all add: hex_id_def)

lemma hex_id_inj: "hex_id a = hex_id b \<Longrightarrow> a = b"
proof (induction a arbitrary: b)
  case Nil
  then show ?case by (cases b) (simp_all add: hex_id_def)
next
  case (Cons x xs)
  then obtain y ys where b: "b = y # ys" by (cases b) (simp_all add: hex_id_def)
  have "unat (drop_bit 4 x) = unat (drop_bit 4 y)" "unat (x AND 0x0f) = unat (y AND 0x0f)" "hex_id xs = hex_id ys"
    using Cons.prems kHex_nth_inj [OF nibbles(1) nibbles(1)] kHex_nth_inj [OF nibbles(2) nibbles(2)]
    by (simp_all add: hex_id_def b)
  then show ?case using Cons.IH nibbles(3) [of x] nibbles(3) [of y] b by (simp add: word_unat_eq_iff)
qed

lemma generateId_fresh: "generateId taken rnd = (Some i, rnd') \<Longrightarrow> i \<notin> set taken \<and> (\<exists>buf\<in>set rnd. i = hex_id buf)"
  by (induction taken rnd rule: generateId.induct) (auto split: if_splits)

section \<open>Invariant\<close>

definition mgr_ok :: "('t, 'a) SessionManager \<Rightarrow> bool" where
  "mgr_ok m \<longleftrightarrow> distinct (map fst (store m)) \<and> distinct (map snd (store m))
     \<and> (\<forall>(i, a)\<in>set (store m). a < next_obj m \<and> s_id (objs m a) = i)
     \<and> (maxSessions (sm_opts m) > 0 \<longrightarrow> length (store m) \<le> maxSessions (sm_opts m))"

lemma mgr_okD: "mgr_ok m \<Longrightarrow> (i, a) \<in> set (store m) \<Longrightarrow> a < next_obj m \<and> s_id (objs m a) = i"
  unfolding mgr_ok_def by fast

lemma mgr_ok_new: "mgr_ok (new_manager opts now rnd)"
  by (simp add: mgr_ok_def new_manager_def)

lemma distinct_map_filter: "distinct (map f xs) \<Longrightarrow> distinct (map f (filter p xs))"
  by (induction xs) auto

lemma mgr_ok_filter: "mgr_ok m \<Longrightarrow> mgr_ok (m\<lparr>store := filter p (store m)\<rparr>)"
  unfolding mgr_ok_def by (auto simp: distinct_map_filter intro: le_trans [OF length_filter_le])

lemma mgr_ok_frame:
  "mgr_ok m \<Longrightarrow> mgr_ok (m\<lparr>random := r\<rparr>)" "mgr_ok m \<Longrightarrow> mgr_ok (m\<lparr>lastGc := t\<rparr>)"
  "mgr_ok m \<Longrightarrow> s_id s = s_id (objs m a) \<Longrightarrow> mgr_ok (m\<lparr>objs := (objs m)(a := s)\<rparr>)"
  unfolding mgr_ok_def by (auto split: prod.splits)

lemma mgr_ok_gc: "mgr_ok m \<Longrightarrow> mgr_ok (sm_gc force now m)"
  using mgr_ok_filter [OF mgr_ok_frame(2)] by (fastforce simp: sm_gc_def)

lemma mgr_ok_add:
  assumes "mgr_ok m" and "i \<notin> fst ` set (store m)" and "s_id s = i" and "maxSessions (sm_opts m) > 0 \<longrightarrow> length (store m) < maxSessions (sm_opts m)"
  shows "mgr_ok (snd (add_session i s m))"
  using assms unfolding mgr_ok_def add_session_def by (fastforce simp: less_Suc_eq)

lemma gc_opts [simp]: "sm_opts (sm_gc f now m) = sm_opts m" "objs (sm_gc f now m) = objs m" "next_obj (sm_gc f now m) = next_obj m"
  by (simp_all add: sm_gc_def)

text \<open>The store \<open>create\<close> works on after its collections.\<close>

definition collected :: "int \<Rightarrow> ('t, 'a) SessionManager \<Rightarrow> ('t, 'a) SessionManager" where
  "collected now m0 =
     (let m1 = (if gcInterval (sm_opts m0) > 0
                   \<and> duration_ms (now - lastGc m0) \<ge> gcInterval (sm_opts m0) * 1000 then sm_gc False now m0 else m0)
      in if maxSessions (sm_opts m1) > 0 \<and> length (store m1) \<ge> maxSessions (sm_opts m1) then sm_gc True now m1 else m1)"

lemma create_collected:
  "sm_create now m =
     (let m2 = collected now m in
      if maxSessions (sm_opts m2) > 0 \<and> length (store m2) \<ge> maxSessions (sm_opts m2) then (Ret None, m2)
      else case generateId (map fst (store m2)) (random m2) of
             (None, rnd) \<Rightarrow> (Threw, m2\<lparr>random := rnd\<rparr>)
           | (Some i, rnd) \<Rightarrow>
               (case add_session i (make_session i now) (m2\<lparr>random := rnd\<rparr>) of (a, m3) \<Rightarrow> (Ret (Some a), m3)))"
  by (simp add: sm_create_def collected_def Let_def)

lemma collected_frame [simp]:
  "sm_opts (collected now m) = sm_opts m" "objs (collected now m) = objs m" "next_obj (collected now m) = next_obj m"
  by (simp_all add: collected_def Let_def)

lemma mgr_ok_collected: "mgr_ok m \<Longrightarrow> mgr_ok (collected now m)"
  by (simp add: collected_def Let_def mgr_ok_gc)

text \<open>A collection only removes what a lookup would not return.\<close>

lemma gc_find: "mgr_ok m \<Longrightarrow> sm_find i now (sm_gc f now m) = sm_find i now m"
proof -
  assume m: "mgr_ok m"
  have "map_of (filter (\<lambda>(_, a). \<not> P a) xs) i = (case map_of xs i of None \<Rightarrow> None | Some a \<Rightarrow> if P a then None else Some a)"
    if "distinct (map fst xs)" for xs :: "(string \<times> nat) list" and P
    using that by (induction xs) (auto split: option.splits simp: map_of_eq_None_iff[symmetric] dest!: map_of_SomeD)
  from this [of "store m" "\<lambda>a. expired now (sm_opts m) (objs m a)"] m
  show ?thesis by (auto simp: sm_find_def sm_gc_def mgr_ok_def split: option.splits)
qed

lemma collected_find: "mgr_ok m \<Longrightarrow> sm_find i now (collected now m) = sm_find i now m"
  by (simp add: collected_def Let_def gc_find mgr_ok_gc)

section \<open>What the operations do\<close>

lemma find_ok: "sm_find i now m = Some a \<Longrightarrow> (i, a) \<in> set (store m) \<and> \<not> expired now (sm_opts m) (objs m a)"
  by (auto simp: sm_find_def split: option.splits if_splits dest: map_of_SomeD)

lemma find_random [simp]: "sm_find i now (m\<lparr>random := r\<rparr>) = sm_find i now m"
  by (simp add: sm_find_def cong: option.case_cong)

lemma add_find:
  assumes "mgr_ok m" and "i \<notin> fst ` set (store m)"
  shows "sm_find j now (snd (add_session i s m)) = (if j = i then (if expired now (sm_opts m) s then None else Some (next_obj m)) else sm_find j now m)"
proof -
  have "a \<noteq> next_obj m" if "map_of (store m) j = Some a" for a using assms(1) that unfolding mgr_ok_def by (auto dest: map_of_SomeD)
  then show ?thesis by (auto simp: sm_find_def add_session_def split: option.splits)
qed

lemma create_ok:
  assumes "mgr_ok m" and "sm_create now m = (r, m')"
  shows "mgr_ok m'
    \<and> (\<forall>j a. sm_find j now m = Some a \<longrightarrow> sm_find j now m' = Some a \<and> objs m' a = objs m a)
    \<and> (\<forall>a. r = Ret (Some a) \<longrightarrow> a = next_obj m \<and> s_data (objs m' a) = [] \<and> \<not> dirty (objs m' a)
          \<and> sm_find (s_id (objs m' a)) now m = None \<and> (\<exists>buf\<in>set (random m). s_id (objs m' a) = hex_id buf))"
proof -
  let ?m = "collected now m"
  have ok: "mgr_ok ?m" using assms(1) by (rule mgr_ok_collected)
  have rnd: "random ?m = random m" by (simp add: collected_def Let_def sm_gc_def)
  have small: "j < next_obj m" if "(i, j) \<in> set (store ?m)" for i j using ok that by (auto simp: mgr_ok_def)
  show ?thesis
  proof (cases "maxSessions (sm_opts m) > 0 \<and> length (store ?m) \<ge> maxSessions (sm_opts m)")
    case True
    then show ?thesis using assms ok by (auto simp: create_collected Let_def collected_find)
  next
    case False
    obtain g rnd' where g: "generateId (map fst (store ?m)) (random ?m) = (g, rnd')" by fastforce
    show ?thesis
    proof (cases g)
      case None
      show ?thesis using assms ok g None False
        by (auto simp: create_collected Let_def collected_find mgr_ok_frame)
    next
      case (Some i)
      note fresh = generateId_fresh [OF g [unfolded Some]]
      let ?m1 = "?m\<lparr>random := rnd'\<rparr>"
      have m': "m' = snd (add_session i (make_session i now) ?m1)" "r = Ret (Some (next_obj m))"
        using assms(2) g Some False by (simp_all add: create_collected Let_def add_session_def)
      have ok1: "mgr_ok ?m1" using ok by (rule mgr_ok_frame)
      have i: "i \<notin> fst ` set (store ?m1)" using fresh by simp
      have f1: "sm_find j now ?m1 = sm_find j now m" for j using collected_find [OF assms(1)] by simp
      have "mgr_ok m'" unfolding m' using ok1 i False by (intro mgr_ok_add) (auto simp: make_session_def)
      moreover have "sm_find j now m' = Some a \<and> objs m' a = objs m a" if "sm_find j now m = Some a" for j a
      proof -
        have s: "sm_find j now ?m1 = Some a" using that f1 by simp
        then have "(j, a) \<in> set (store ?m)" using find_ok [OF s] by simp
        then have "j \<noteq> i" "a \<noteq> next_obj m" using i small by (force, fastforce)
        then show ?thesis using add_find [OF ok1 i, of j now "make_session i now"] s m'(1) by (simp add: add_session_def)
      qed
      moreover have "sm_find i now m = None"
      proof (rule ccontr)
        assume "sm_find i now m \<noteq> None"
        then obtain a where "sm_find i now ?m1 = Some a" using f1 by auto
        then have "(i, a) \<in> set (store ?m1)" using find_ok by blast
        then show False using i by force
      qed
      ultimately show ?thesis using fresh rnd m' by (auto simp: add_session_def make_session_def)
    qed
  qed
qed

lemma regenerate_ok:
  assumes "mgr_ok m" and "map_of (store m) old = Some a" and "sm_regenerate old now m = (Ret (Some a'), m')"
  shows "mgr_ok m' \<and> map_of (store m') (s_id (objs m' a')) = Some a' \<and> s_data (objs m' a') = s_data (objs m a)
    \<and> (\<forall>j. j \<noteq> old \<and> j \<noteq> s_id (objs m' a') \<longrightarrow> map_of (store m') j = map_of (store m) j)
    \<and> (s_id (objs m' a') \<noteq> old \<longrightarrow> map_of (store m') old = None)
    \<and> (\<exists>buf\<in>set (random m). s_id (objs m' a') = hex_id buf)
    \<and> s_data (objs m' a) = [] \<and> s_id (objs m' a) = old \<and> dirty (objs m' a) = dirty (objs m a) \<and> a' = next_obj m \<and> a < next_obj m"
proof -
  let ?m1 = "m\<lparr>store := filter (\<lambda>(k, _). k \<noteq> old) (store m)\<rparr>"
  obtain g rnd' where g: "generateId (map fst (store ?m1)) (random m) = (g, rnd')" by fastforce
  obtain i where i: "g = Some i" using assms(2,3) g by (cases g) (auto simp: sm_regenerate_def Let_def)
  note fresh = generateId_fresh [OF g [unfolded i]]
  let ?s = "(make_session i now)\<lparr>s_data := s_data (objs m a), dirty := True\<rparr>"
  let ?m2 = "?m1\<lparr>random := rnd', objs := (objs m)(a := (objs m a)\<lparr>s_data := []\<rparr>)\<rparr>"
  have m': "m' = snd (add_session i ?s ?m2)" "a' = next_obj m"
    using assms(2,3) g i by (auto simp: sm_regenerate_def Let_def migrateFrom_def add_session_def)
  have a: "a < next_obj m" "s_id (objs m a) = old" using assms(1,2) unfolding mgr_ok_def by (auto dest: map_of_SomeD)
  have "mgr_ok ?m1" using assms(1) by (rule mgr_ok_filter)
  then have ok2: "mgr_ok ?m2" using mgr_ok_frame(3) [OF mgr_ok_frame(1), of ?m1 "(objs m a)\<lparr>s_data := []\<rparr>" rnd' a] by simp
  have len: "maxSessions (sm_opts m) > 0 \<longrightarrow> length (store ?m2) < maxSessions (sm_opts m)"
  proof
    assume "maxSessions (sm_opts m) > 0"
    then have "length (store m) \<le> maxSessions (sm_opts m)" using assms(1) by (simp add: mgr_ok_def)
    moreover have "length (filter (\<lambda>(k, _). k \<noteq> old) (store m)) < length (store m)"
      using assms(2) by (intro length_filter_less [of "(old, a)"]) (auto dest: map_of_SomeD)
    ultimately show "length (store ?m2) < maxSessions (sm_opts m)" by simp
  qed
  have mo: "map_of (filter (\<lambda>(k, _). k \<noteq> old) xs) j = (if j = old then None else map_of xs j)" for xs :: "(string \<times> nat) list" and j
    by (induction xs) auto
  have "mgr_ok m'" unfolding m' using ok2 fresh len by (intro mgr_ok_add) (auto simp: make_session_def)
  then show ?thesis using fresh a m' by (auto simp: add_session_def mo make_session_def)
qed

lemma regenerate_others:
  assumes "mgr_ok m" and "map_of (store m) old = Some a" and "sm_regenerate old now m = (Ret (Some a'), m')"
    and "map_of (store m) j = Some b" and "j \<noteq> old"
  shows "map_of (store m') j = Some b \<and> objs m' b = objs m b"
proof -
  have jb: "(j, b) \<in> set (store m)" "(old, a) \<in> set (store m)" using assms(2,4) by (auto dest: map_of_SomeD)
  then have b: "b < next_obj m" "b \<noteq> a" using mgr_okD [OF assms(1)] assms(5) by auto
  obtain i rnd' where g: "generateId (map fst (filter (\<lambda>(k, _). k \<noteq> old) (store m))) (random m) = (Some i, rnd')"
    using assms(2,3) by (auto simp: sm_regenerate_def Let_def split: prod.splits option.splits)
  then have "i \<noteq> j" using generateId_fresh [OF g] jb assms(5) by force
  moreover have "map_of (filter (\<lambda>(k, _). k \<noteq> old) xs) j = map_of xs j" for xs :: "(string \<times> nat) list"
    using assms(5) by (induction xs) auto
  ultimately show ?thesis using assms g b by (auto simp: sm_regenerate_def Let_def migrateFrom_def add_session_def)
qed

section \<open>Sequences of operations\<close>

text \<open>Handlers may also change the objects they hold, but not their identifiers.\<close>

datatype ('t, 'a) sm_op =
    OpCreate | OpRegenerate string | OpDestroy string | OpGc bool | OpUpdate nat "('t, 'a) Session \<Rightarrow> ('t, 'a) Session"

fun op_ok :: "('t, 'a) sm_op \<Rightarrow> bool" where
  "op_ok (OpUpdate a f) \<longleftrightarrow> (\<forall>s. s_id (f s) = s_id s)"
| "op_ok _ \<longleftrightarrow> True"

fun sm_apply :: "int \<Rightarrow> ('t, 'a) sm_op \<Rightarrow> ('t, 'a) SessionManager \<Rightarrow> ('t, 'a) SessionManager" where
  "sm_apply now OpCreate m = snd (sm_create now m)"
| "sm_apply now (OpRegenerate i) m = snd (sm_regenerate i now m)"
| "sm_apply now (OpDestroy i) m = sm_destroy i m"
| "sm_apply now (OpGc f) m = sm_gc f now m"
| "sm_apply now (OpUpdate a f) m = m\<lparr>objs := (objs m)(a := f (objs m a))\<rparr>"

lemma regenerate_cases:
  "mgr_ok m \<Longrightarrow> mgr_ok (snd (sm_regenerate i now m))"
proof (cases "map_of (store m) i")
  case (Some a)
  assume m: "mgr_ok m"
  let ?m1 = "m\<lparr>store := filter (\<lambda>(k, _). k \<noteq> i) (store m)\<rparr>"
  obtain g rnd' where g: "generateId (map fst (store ?m1)) (random m) = (g, rnd')" by fastforce
  show ?thesis
  proof (cases g)
    case None
    then show ?thesis using Some g mgr_ok_frame(1) [OF mgr_ok_filter [OF m], of rnd' "\<lambda>(k, _). k \<noteq> i"]
      by (simp add: sm_regenerate_def Let_def)
  next
    case (Some j)
    then obtain a' m' where r: "sm_regenerate i now m = (Ret (Some a'), m')"
      using \<open>map_of (store m) i = Some a\<close> g by (auto simp: sm_regenerate_def Let_def migrateFrom_def add_session_def)
    then show ?thesis using regenerate_ok [OF m \<open>map_of (store m) i = Some a\<close> r] by simp
  qed
qed (simp add: sm_regenerate_def)

lemma mgr_ok_apply: "mgr_ok m \<Longrightarrow> op_ok x \<Longrightarrow> mgr_ok (sm_apply now x m)"
proof (cases x)
  case OpCreate
  assume "mgr_ok m"
  then show ?thesis using create_ok [of m now "fst (sm_create now m)" "snd (sm_create now m)"] OpCreate by simp
qed (auto simp: regenerate_cases sm_destroy_def mgr_ok_filter mgr_ok_gc mgr_ok_frame)

lemma mgr_ok_run: "mgr_ok m \<Longrightarrow> list_all (\<lambda>(t, x). op_ok x) xs \<Longrightarrow> mgr_ok (fold (\<lambda>(t, x). sm_apply t x) xs m)"
  by (induction xs arbitrary: m) (auto simp: mgr_ok_apply)

section \<open>Properties\<close>

text \<open>A manager with room for three sessions, two of them taken, for the witnesses.\<close>

definition demo_opts :: SessionOptions where
  "demo_opts = \<lparr>cookieName = ''SID'', so_maxAge = 10, so_httpOnly = True, so_secure = False, so_sameSite = ''Lax'', so_path = ''/'',
     gcInterval = 300, maxSessions = 3\<rparr>"

definition demo_ops :: "(int \<times> (nat, int) sm_op) list" where
  "demo_ops = [(0, OpCreate), (1, OpCreate), (2, OpUpdate 0 (s_set ''u'' (0, 7)))]"

definition demo_manager :: "(nat, int) SessionManager" where
  "demo_manager = fold (\<lambda>(t, x). sm_apply t x) demo_ops (new_manager demo_opts 0 [[1], [2], [3]])"

lemmas demo_defs = demo_opts_def demo_ops_def demo_manager_def

text \<open>
  C14. Sessions neither leak into each other nor get lost. After any sequence of operations on a manager:
  a lookup only returns the session of that identifier, not expired; two identifiers never share one; the
  number of sessions respects the configured maximum; and creating a session, which may collect, leaves every
  session that a lookup returns where it is, with its contents, and gives the new one no data and an
  identifier that came from the random generator and was not in use.
\<close>

theorem sessions_separate:
  assumes "list_all (\<lambda>(t, x). op_ok x) xs" and "m = fold (\<lambda>(t, x). sm_apply t x) xs (new_manager opts now0 rnd)"
    and "sm_find i now m = Some a" and "sm_create now m = (r, m')"
  shows "s_id (objs m a) = i \<and> \<not> expired now (sm_opts m) (objs m a) \<and> (sm_find j now m = Some a \<longrightarrow> j = i)
    \<and> (maxSessions (sm_opts m) > 0 \<longrightarrow> sm_count m \<le> maxSessions (sm_opts m))
    \<and> sm_find i now m' = Some a \<and> objs m' a = objs m a
    \<and> (r = Ret (Some b) \<longrightarrow> s_data (objs m' b) = [] \<and> s_id (objs m' b) \<noteq> i \<and> (\<exists>buf\<in>set (random m). s_id (objs m' b) = hex_id buf))"
proof -
  have m: "mgr_ok m" unfolding assms(2) by (rule mgr_ok_run [OF mgr_ok_new assms(1)])
  have f: "(i, a) \<in> set (store m)" "\<not> expired now (sm_opts m) (objs m a)" using find_ok [OF assms(3)] by simp_all
  have u: "j = i" if "sm_find j now m = Some a"
    using mgr_okD [OF m f(1)] mgr_okD [OF m, of j a] find_ok [OF that] by simp
  have l: "s_id (objs m a) = i" "maxSessions (sm_opts m) > 0 \<longrightarrow> sm_count m \<le> maxSessions (sm_opts m)"
    using m f(1) unfolding mgr_ok_def sm_count_def by auto
  note c = create_ok [OF m assms(4)]
  have k: "sm_find i now m' = Some a" "objs m' a = objs m a" using c assms(3) by blast+
  have n: "s_data (objs m' b) = [] \<and> s_id (objs m' b) \<noteq> i \<and> (\<exists>buf\<in>set (random m). s_id (objs m' b) = hex_id buf)"
    if "r = Ret (Some b)"
  proof -
    have d: "s_data (objs m' b) = []" "sm_find (s_id (objs m' b)) now m = None" "\<exists>buf\<in>set (random m). s_id (objs m' b) = hex_id buf"
      using c that by blast+
    have "s_id (objs m' b) \<noteq> i" using d(2) assms(3) by auto
    then show ?thesis using d by blast
  qed
  show ?thesis using l f(2) u k n by blast
qed

theorem sessions_separate_witness:
  "sm_find ''01'' 3 demo_manager = Some 0 \<and> sm_find ''01'' 3 (snd (sm_create 3 demo_manager)) = Some 0
   \<and> s_id (objs (snd (sm_create 3 demo_manager)) 2) \<noteq> ''01''"
proof -
  have a: "list_all (\<lambda>(t, x). op_ok x) demo_ops" by (simp add: demo_ops_def s_set_def)
  have f: "sm_find ''01'' 3 demo_manager = Some 0" by code_simp
  have "fst (sm_create 3 demo_manager) = Ret (Some 2)" by code_simp
  then have c: "sm_create 3 demo_manager = (Ret (Some 2), snd (sm_create 3 demo_manager))" by (simp add: prod_eq_iff)
  show ?thesis using sessions_separate [OF a demo_manager_def f c, of "''01''" 2] f by simp
qed

text \<open>
  Regenerating an identifier moves the session: under the new identifier, which came from the random
  generator, the same data is found, the old identifier finds nothing any more unless the generator
  repeated it, and every other session keeps its identifier, its data and its other members; no other identifier
  appears. Identifiers of different random values differ.
\<close>

theorem regenerate_moves:
  assumes "list_all (\<lambda>(t, x). op_ok x) xs" and "m = fold (\<lambda>(t, x). sm_apply t x) xs (new_manager opts now0 rnd)"
    and "map_of (store m) old = Some a" and "sm_regenerate old now m = (Ret (Some a'), m')"
  shows "map_of (store m') (s_id (objs m' a')) = Some a' \<and> s_data (objs m' a') = s_data (objs m a)
    \<and> (s_id (objs m' a') \<noteq> old \<longrightarrow> sm_find old now' m' = None)
    \<and> (j \<noteq> old \<and> j \<noteq> s_id (objs m' a') \<longrightarrow> map_of (store m') j = map_of (store m) j)
    \<and> (i \<noteq> old \<and> map_of (store m) i = Some b \<longrightarrow> map_of (store m') i = Some b \<and> objs m' b = objs m b)
    \<and> (\<exists>buf\<in>set (random m). s_id (objs m' a') = hex_id buf) \<and> (hex_id u = hex_id v \<longrightarrow> u = v)"
proof -
  have m: "mgr_ok m" unfolding assms(2) by (rule mgr_ok_run [OF mgr_ok_new assms(1)])
  from regenerate_ok [OF m assms(3,4)] regenerate_others [OF m assms(3,4), of i b] hex_id_inj [of u v]
  show ?thesis by (auto simp: sm_find_def)
qed

theorem regenerate_moves_witness:
  "map_of (store demo_manager) ''01'' = Some 0 \<and> s_data (objs (snd (sm_regenerate ''01'' 3 demo_manager)) 2) = [(''u'', 0, 7)]
   \<and> sm_find ''01'' 3 (snd (sm_regenerate ''01'' 3 demo_manager)) = None
   \<and> objs (snd (sm_regenerate ''01'' 3 demo_manager)) 1 = objs demo_manager 1"
proof -
  let ?m' = "snd (sm_regenerate ''01'' 3 demo_manager)"
  have a: "list_all (\<lambda>(t, x). op_ok x) demo_ops" by (simp add: demo_ops_def s_set_def)
  have f: "map_of (store demo_manager) ''01'' = Some 0" by code_simp
  have "fst (sm_regenerate ''01'' 3 demo_manager) = Ret (Some 2)" by code_simp
  then have c: "sm_regenerate ''01'' 3 demo_manager = (Ret (Some 2), ?m')" by (simp add: prod_eq_iff)
  have d: "s_data (objs demo_manager 0) = [(''u'', 0, 7)]" "s_id (objs ?m' 2) = ''03''" "map_of (store demo_manager) ''02'' = Some 1" by code_simp+
  show ?thesis using regenerate_moves [OF a demo_manager_def f c, of 3 _ "''02''" 1] f d by simp
qed

text \<open>
  C34. The middleware does not tell the client about a new identifier. When the handler regenerates the identifier of
  the session it was given and adds no cookie itself, the response carries either no session cookie or one
  with the old identifier, which finds no session: the client's next request starts an empty one, and the
  data is out of reach.
\<close>

theorem regenerated_id_not_sent:
  assumes "mgr_ok m" and "rq_cookie (cookieName (sm_opts m)) req0 = (sid, req)" and "sm_find sid now m = Some a" and "sid \<noteq> []"
    and "\<And>q. next q = (Inr res, fst q, snd (sm_regenerate sid now (snd q)))"
    and "sm_regenerate sid now (touch_session a now m) = (Ret (Some a'), m')" and "s_id (objs m' a') \<noteq> sid"
  shows "session_middleware ref now next (req0, m)
     = (Inr (if dirty (objs m a) then session_cookie (sm_opts m) sid res else res), setAttribute hSessionKey (ref a) req, m')
   \<and> sm_find sid now' m' = None"
proof -
  have f: "map_of (store m) sid = Some a" "s_id (objs m a) = sid"
    using find_ok [OF assms(3)] assms(1) unfolding mgr_ok_def by auto
  have t: "mgr_ok (touch_session a now m)" unfolding touch_session_def
    by (rule mgr_ok_frame(3) [OF assms(1)]) (simp add: s_touch_def)
  have s: "map_of (store (touch_session a now m)) sid = Some a" using f by (simp add: touch_session_def)
  note r = regenerate_ok [OF t s assms(6)]
  have d: "dirty (objs (touch_session a now m) a) = dirty (objs m a)" by (simp add: touch_session_def s_touch_def)
  have o: "sm_opts m' = sm_opts m"
    using assms(6) s by (auto simp: sm_regenerate_def Let_def add_session_def touch_session_def split: option.splits prod.splits)
  have "session_middleware ref now next (req0, m)
     = (Inr (if dirty (objs m a) then session_cookie (sm_opts m) sid res else res), setAttribute hSessionKey (ref a) req, m')"
    using assms(2-6) r d o by (simp add: session_middleware_def Let_def)
  moreover have "sm_find sid now' m' = None" using r assms(7) by (simp add: sm_find_def)
  ultimately show ?thesis by blast
qed

theorem regenerated_id_not_sent_witness:
  "fst (session_middleware id 3 (\<lambda>q. (Inr new_response, fst q, snd (sm_regenerate ''02'' 3 (snd q))))
       (new_request\<lparr>rq_cookies := Some [(''SID'', ''02'')]\<rparr>, demo_manager)) = Inr new_response"
proof -
  let ?req = "new_request\<lparr>rq_cookies := Some [(''SID'', ''02'')]\<rparr> :: nat HttpRequest"
  let ?r = "sm_regenerate ''02'' 3 (touch_session 1 3 demo_manager)"
  have "list_all (\<lambda>(t, x). op_ok x) demo_ops" by (simp add: demo_ops_def s_set_def)
  then have ok: "mgr_ok demo_manager" unfolding demo_manager_def by (rule mgr_ok_run [OF mgr_ok_new])
  have "cookieName (sm_opts demo_manager) = ''SID''" by code_simp
  then have q: "rq_cookie (cookieName (sm_opts demo_manager)) ?req = (''02'', ?req)" by (simp add: rq_cookie_def cookies_def Let_def)
  have f: "sm_find ''02'' 3 demo_manager = Some 1" "\<not> dirty (objs demo_manager 1)" by code_simp+
  have "fst ?r = Ret (Some 2)" by code_simp
  then have r: "?r = (Ret (Some 2), snd ?r)" by (simp add: prod_eq_iff)
  have n: "s_id (objs (snd ?r) 2) \<noteq> ''02''" by code_simp
  show ?thesis
    using regenerated_id_not_sent [OF ok q f(1) _ _ r n, of "\<lambda>q. (Inr new_response, fst q, snd (sm_regenerate ''02'' 3 (snd q)))" new_response id] f(2)
    by simp
qed

end
