(* ===== verification/Spec2Isabelle.thy ===== *)
theory Spec2Isabelle
  imports Ws_Messages Ws_Lock Ws_Handshake H2_Service H2_Receive_Inv H2_Output_Wire Route_Group
    Http1_Session_Inv Pmr_Buffer Rate_Limiter Multipart
    Stmt_Cache Static_Files Timer_Service Session_Store
begin

text \<open>
  A verification development for the Hical web framework (C++20, Boost.Asio).

  \<^bold>\<open>The program.\<close> A worker accepts a connection and runs \<open>handleSession\<close> on it. The session reads a
  request head, checks its framing, asks the router for the route, runs the middleware pipeline around
  the handler, reads the body when someone needs it, and writes the response, batched with others when
  requests are pipelined. A request may instead turn the connection into a WebSocket or an event stream.
  Over TLS a connection may speak HTTP/2: nghttp2 parses frames and calls the receive adapter, which
  keeps streams, header blocks and the budget of buffered bytes; responses go through the output, from which
  nghttp2 reads the bodies it serialises. Middleware such as the rate limiter and
  the sessions, and helpers such as the multipart parser and the static files, work on requests and responses.

  \<^bold>\<open>Shared vocabulary.\<close> \<open>Prelude\<close> has the machine integers (\<open>size_t\<close> as a natural number below
  \<open>size_modulus\<close> with wrap-around written out, bytes and masks as words), the error values and the
  lemmas on lists, maps and words. \<open>Text_Format\<close> and \<open>Text_Parse\<close> have \<open>std::to_chars\<close>,
  \<open>std::from_chars\<close>, searching, trimming and the fixed stack buffer of \<^verbatim>\<open>FixedBuffer.h\<close>. \<open>Net_Socket\<close> is a
  stream socket as the sessions use it: segments that arrive, writes that succeed or fail, the latter possibly
  after an initial part.

  \<^bold>\<open>HTTP/1.1.\<close>
  \<^item> \<open>Http1_Framing\<close> (\<^verbatim>\<open>HttpSessionImpl.cpp\<close>): the scan over the header fields; a request is accepted
    exactly when the length of its body is determined in one way.
  \<^item> \<open>Http1_Write\<close>: the optimistic write and its continuation, the response batch, plain, chunked and file
    responses; the responses leave whole, once and in order, and no string a handler passes for the head can
    split one. Its interface is the locale \<open>answering\<close>.
  \<^item> \<open>Http1_Body\<close>, \<open>Http1_Session\<close>, \<open>Http1_Session_Inv\<close>: reading the head and the body, dispatch, upgrades, the
    keep-alive loop; bodies are read exactly, the loop ends, and two cases in which the code answers the
    same request for ever.
  \<^item> \<open>Http_Request\<close>, \<open>Http_Response\<close>, \<open>Chunked_Body\<close>, \<open>Header_Map\<close> (\<^verbatim>\<open>HttpRequest.cpp\<close>, \<^verbatim>\<open>HttpResponse.cpp\<close>,
    \<^verbatim>\<open>ChunkedBody.cpp\<close>, \<^verbatim>\<open>HeaderMap.h\<close>): the message objects; header fields hold no line breaks,
    each response has one framing, queries round-trip.
  \<^item> \<open>Router\<close>, \<open>Router_Inv\<close>, \<open>Perfect_Hash\<close>, \<open>Route_Group\<close> (\<^verbatim>\<open>Router.cpp\<close>, \<^verbatim>\<open>PerfectHashRouter.h\<close>, \<^verbatim>\<open>RouteGroup.cpp\<close>):
    matching with the perfect hash and the segment index is the plain search; the answer without a match.
  \<^item> \<open>Middleware\<close> (\<^verbatim>\<open>Middleware.cpp\<close>): the optimised chain is the onion, and the body gate.
  \<^item> \<open>Multipart\<close>, \<open>Rate_Limiter\<close>, \<open>Pmr_Buffer\<close> (files of the same names): fields and files of a form arrive as they
    were sent, the grants of a key follow the rate, the buffer is a queue of bytes.

  \<^bold>\<open>WebSocket.\<close> \<open>Ws_Frame\<close> (\<^verbatim>\<open>WsFrame.h\<close>), \<open>Ws_Deflate\<close> (\<^verbatim>\<open>WsDeflate.cpp\<close>), \<open>Ws_Session\<close>, \<open>Ws_Messages\<close>,
  \<open>Ws_Lock\<close> (\<^verbatim>\<open>WebSocket.cpp\<close>), \<open>Ws_Handshake\<close> (\<^verbatim>\<open>WsHandshake.h\<close>): frames round-trip, messages are delivered in order
  and within the limit under every fragmentation, one coroutine writes at a time, and what the
  handshake negotiates.

  \<^bold>\<open>HTTP/2.\<close> \<open>H2_Budget\<close>, \<open>H2_Service\<close> (\<^verbatim>\<open>http2/Http2Budget.h\<close>): budgets and leases, limits and the absence of leaks,
  and the counter all connections share under threads. \<open>H2_Headers\<close> (\<^verbatim>\<open>Http2Headers.cpp\<close>), \<open>H2_Stream\<close>
  (\<^verbatim>\<open>Http2Stream.cpp\<close>), \<open>H2_Receive\<close>, \<open>H2_Receive_Inv\<close> (\<^verbatim>\<open>Http2Receive.cpp\<close>): header blocks, streams and the
  adapter with their invariants over all reachable states, as inductive step relations; the steps include the
  calls the server session makes on streams whose request it discards (\<^verbatim>\<open>Http2ServerSession.cpp\<close>, lines 507 to 611) and the
  destruction of streams. \<open>H2_Output\<close>, \<open>H2_Output_Inv\<close>,
  \<open>H2_Output_Wire\<close> (\<^verbatim>\<open>Http2Output.cpp\<close>): the bodies that wait to be sent; the send budget is charged for exactly what is
  buffered, the codec reads each body as it was queued, producers take turns, and the acknowledged bytes give exactly
  the streams whose last frame has been written.

  \<^bold>\<open>Services.\<close>
  \<^item> \<open>Static_Files\<close> (\<^verbatim>\<open>StaticFiles.h\<close>): ranges are what HTTP says, responses are confined to the root directory, and
    how the content cache outgrows its limit.
  \<^item> \<open>Session_Store\<close> (\<^verbatim>\<open>Session.h\<close>, \<^verbatim>\<open>Session.cpp\<close>): sessions stay separate under every sequence of operations, an identifier
    can be renewed, and how the middleware loses the renewed one.
  \<^item> \<open>Timer_Service\<close> (\<^verbatim>\<open>TimerService.cpp\<close>): the timers behind one Asio timer as a step relation; none runs twice, early or
    after its cancellation, and none is forgotten.
  \<^item> \<open>Stmt_Cache\<close> (\<^verbatim>\<open>db/StmtCache.cpp\<close>, \<^verbatim>\<open>db/PgStmtCache.cpp\<close>): both caches of prepared statements refine a list ordered by
    recency, through the locale \<open>recency_cache\<close>. \<open>Lru\<close> is the list with an index of iterators that they and the file caches use.

  \<^bold>\<open>How code became definitions.\<close> A class is a record and a method a function from the old object to result
  and new object. A coroutine that only suspends for its own socket is a function on the connection; where
  coroutines or threads meet, the steps between suspension points or atomic accesses are a step relation.
  Exceptions and early returns are values of sum types. Loops are \<open>fun\<close> or \<open>function\<close> with a measure; a loop
  over a socket is measured by the bytes that have not been read, and the request loop takes one clock value
  per round, so that a list longer than the input is enough (\<open>session_terminates\<close>). The inflation loop is
  measured by what the limit leaves.

  \<^bold>\<open>Parameters.\<close> Third-party code is an argument: zlib's calls, the request parser and chunk decoder of picohttpparser
  (vendored under \<^verbatim>\<open>src/src/third_party\<close>), the answers and callbacks of nghttp2, SHA-1, the file system, the clock and \<open>what()\<close> of system errors. Properties name what
  they rely on as hypotheses, with witnesses on concrete functions.

  \<^bold>\<open>Simplifications.\<close> \<open>double\<close>s of the rate limiter are rationals and the times of its calls do not decrease. Symbolic
  links and changes of the file system between the check of a path and its use are not expressed. Appending a
  \<open>PmrBuffer\<close> to itself is left out. Capacities of strings and allocators have no
  effect on results and are left out, as are TCP corking and statistics. Files are read by the stream branch
  of the code. Branches compiled only with profiling or on Windows are not modelled.

  \<^bold>\<open>Not modelled.\<close> The HTTP/2 codec and server session (callbacks around nghttp2), server start and stop,
  TLS, the HTTP client, the database drivers, logging, memory pools, compile-time reflection and OpenAPI:
  glue to libraries and the operating system, or code without effect on the behaviour above.
\<close>

end
